(* ===== verification/Mw_Prelude.thy ===== *)
theory Mw_Prelude
  imports Main "HOL-Library.Word"
begin

text \<open>
  Shared vocabulary of the development.

  \<^item> \<open>exn\<close>: the C++ exception classes the modelled code throws. Message texts are not
    modelled, the class is.
  \<^item> \<open>act\<close>: a computation that reads and writes a state and returns a value or throws. The
    state is returned in both cases, so what a function has already written when it throws
    is visible to the caller, as in C++.
  \<^item> \<open>wp\<close>: the weakest precondition of such a computation, with one equation per combinator
    (collection \<open>wp_eqs\<close>), so that a property of an operation is computed by rewriting.
  \<^item> 64-bit signed arithmetic: values of type \<open>int\<close> in the range \<open>i64\<close>; every place where the
    source can leave the range is written out.
\<close>

named_theorems wp_eqs \<open>weakest preconditions of the combinators\<close>

section \<open>Exceptions and stateful computations\<close>

datatype exn =
    Invalid_argument
  | Overflow_error
  | Logic_error
  | Runtime_error
  | Ffmpeg_error
  | Element_error
  | Callback_error
  | Undefined_behaviour

text \<open>
  \<open>Undefined_behaviour\<close> is no C++ exception: it marks the dereference of an empty
  \<^verbatim>\<open>std::optional\<close> or null pointer, so that its absence can be stated and proved.
\<close>

type_synonym 'a result = "exn + 'a"
type_synonym ('s, 'a) act = "'s \<Rightarrow> 'a result \<times> 's"

definition ret :: "'a \<Rightarrow> ('s, 'a) act" where
  "ret a = (\<lambda>s. (Inr a, s))"

definition raise :: "exn \<Rightarrow> ('s, 'a) act" where
  "raise e = (\<lambda>s. (Inl e, s))"

definition lift :: "'a result \<Rightarrow> ('s, 'a) act" where
  "lift r = (\<lambda>s. (r, s))"

definition gets :: "('s \<Rightarrow> 'a) \<Rightarrow> ('s, 'a) act" where
  "gets f = (\<lambda>s. (Inr (f s), s))"

definition modify :: "('s \<Rightarrow> 's) \<Rightarrow> ('s, unit) act" where
  "modify f = (\<lambda>s. (Inr (), f s))"

definition andthen :: "('s, 'a) act \<Rightarrow> ('a \<Rightarrow> ('s, 'b) act) \<Rightarrow> ('s, 'b) act" where
  "andthen m k = (\<lambda>s. case m s of (Inl e, s') \<Rightarrow> (Inl e, s') | (Inr a, s') \<Rightarrow> k a s')"

definition guard :: "bool \<Rightarrow> exn \<Rightarrow> ('s, unit) act" where
  "guard ok e = (if ok then ret () else raise e)"

definition deref :: "'a option \<Rightarrow> 'a result" where
  "deref x = (case x of None \<Rightarrow> Inl Undefined_behaviour | Some a \<Rightarrow> Inr a)"

lemma deref_simps [simp]: "deref (Some a) = Inr a" "deref None = Inl Undefined_behaviour"
  by (simp_all add: deref_def)

lemma deref_iff [simp]:
  "deref x = Inr a \<longleftrightarrow> x = Some a"
  "deref x = Inl e \<longleftrightarrow> x = None \<and> e = Undefined_behaviour"
  by (cases x; auto)+

text \<open>The same sequencing for results without a state.\<close>

definition chain :: "'a result \<Rightarrow> ('a \<Rightarrow> 'b result) \<Rightarrow> 'b result" where
  "chain r k = (case r of Inl e \<Rightarrow> Inl e | Inr a \<Rightarrow> k a)"

lemma chain_simps [simp]:
  "chain (Inl e) k = Inl e"
  "chain (Inr a) k = k a"
  by (simp_all add: chain_def)

lemma chain_Inr [simp]: "chain r k = Inr b \<longleftrightarrow> (\<exists>a. r = Inr a \<and> k a = Inr b)"
  by (cases r) auto

lemma chain_Inl: "chain r k = Inl e \<longleftrightarrow> r = Inl e \<or> (\<exists>a. r = Inr a \<and> k a = Inl e)"
  by (cases r) auto

definition wp :: "('s, 'a) act \<Rightarrow> ('a \<Rightarrow> 's \<Rightarrow> bool) \<Rightarrow> (exn \<Rightarrow> 's \<Rightarrow> bool) \<Rightarrow> 's \<Rightarrow> bool" where
  "wp m Q E s = (case m s of (Inl e, s') \<Rightarrow> E e s' | (Inr a, s') \<Rightarrow> Q a s')"

lemma wp_ret [wp_eqs]: "wp (ret a) Q E s = Q a s"
  by (simp add: wp_def ret_def)

lemma wp_raise [wp_eqs]: "wp (raise e) Q E s = E e s"
  by (simp add: wp_def raise_def)

lemma wp_lift [wp_eqs]:
  "wp (lift r) Q E s = ((\<forall>a. r = Inr a \<longrightarrow> Q a s) \<and> (\<forall>e. r = Inl e \<longrightarrow> E e s))"
  by (cases r) (simp_all add: wp_def lift_def)

lemma wp_gets [wp_eqs]: "wp (gets f) Q E s = Q (f s) s"
  by (simp add: wp_def gets_def)

lemma wp_modify [wp_eqs]: "wp (modify f) Q E s = Q () (f s)"
  by (simp add: wp_def modify_def)

lemma wp_andthen [wp_eqs]: "wp (andthen m k) Q E s = wp m (\<lambda>a. wp (k a) Q E) E s"
  by (simp add: wp_def andthen_def split: prod.splits sum.splits)

lemma wp_guard [wp_eqs]: "wp (guard ok e) Q E s = ((ok \<longrightarrow> Q () s) \<and> (\<not> ok \<longrightarrow> E e s))"
  by (simp add: wp_def guard_def ret_def raise_def)

lemma wp_if [wp_eqs]: "wp (if b then m else n) Q E s = ((b \<longrightarrow> wp m Q E s) \<and> (\<not> b \<longrightarrow> wp n Q E s))"
  by simp

lemma wp_cons:
  assumes "wp m Q E s"
    and "\<And>a s'. Q a s' \<Longrightarrow> Q' a s'" and "\<And>e s'. E e s' \<Longrightarrow> E' e s'"
  shows "wp m Q' E' s"
  using assms by (auto simp: wp_def split: prod.splits sum.splits)

lemma wp_conj: "wp m Q E s \<Longrightarrow> wp m Q' E' s \<Longrightarrow> wp m (\<lambda>a t. Q a t \<and> Q' a t) (\<lambda>e t. E e t \<and> E' e t) s"
  by (auto simp: wp_def split: prod.splits sum.splits)

lemma wp_InrD: "wp m Q E s \<Longrightarrow> m s = (Inr a, s') \<Longrightarrow> Q a s'"
  by (simp add: wp_def)

lemma wp_InlD: "wp m Q E s \<Longrightarrow> m s = (Inl e, s') \<Longrightarrow> E e s'"
  by (simp add: wp_def)

lemma wpI:
  assumes "\<And>a s'. m s = (Inr a, s') \<Longrightarrow> Q a s'" and "\<And>e s'. m s = (Inl e, s') \<Longrightarrow> E e s'"
  shows "wp m Q E s"
  using assms by (auto simp: wp_def split: prod.splits sum.splits)

lemmas act_defs = ret_def raise_def lift_def gets_def modify_def andthen_def guard_def

section \<open>64-bit signed integers\<close>

abbreviation i64_min :: int where "i64_min \<equiv> - 9223372036854775808"
abbreviation i64_max :: int where "i64_max \<equiv> 9223372036854775807"

definition i64 :: "int \<Rightarrow> bool" where
  "i64 x \<longleftrightarrow> i64_min \<le> x \<and> x \<le> i64_max"

lemma i64_iff [simp]: "i64 x \<longleftrightarrow> - 9223372036854775808 \<le> x \<and> x \<le> 9223372036854775807"
  by (simp add: i64_def)

text \<open>\<open>static_cast<std::uint64_t>\<close> of a signed 64-bit value.\<close>

definition to_u64 :: "int \<Rightarrow> 64 word" where
  "to_u64 x = word_of_int x"

lemma uint_to_u64: "0 \<le> x \<Longrightarrow> x < 2 ^ 64 \<Longrightarrow> uint (to_u64 x) = x"
  unfolding to_u64_def by (simp only: uint_word_of_int) simp

text \<open>
  Unsigned subtraction of two cast signed values gives the true distance whenever the
  minuend is not smaller: the distance of two 64-bit signed values always fits 64 bits.
\<close>

lemma unat_u64_diff:
  assumes "i64 a" and "i64 b" and "b \<le> a"
  shows "uint (to_u64 a - to_u64 b) = a - b"
proof -
  have "uint (to_u64 a - to_u64 b) = (a - b) mod 2 ^ 64"
    unfolding to_u64_def wi_hom_sub by (simp only: uint_word_of_int) simp
  also have "\<dots> = a - b"
    using assms by (intro mod_pos_pos_trivial) auto
  finally show ?thesis .
qed

section \<open>Lists\<close>

text \<open>\<open>std::find_if\<close> as an option.\<close>

lemma find_Some_in: "List.find P xs = Some x \<Longrightarrow> x \<in> set xs \<and> P x"
  by (auto simp: find_Some_iff)

lemma find_None_iff_all: "List.find P xs = None \<longleftrightarrow> (\<forall>x \<in> set xs. \<not> P x)"
  by (auto simp: find_None_iff)

end
