(* ===== verification/Wait_Signals.thy ===== *)
theory Wait_Signals
  imports Mw_Prelude
begin

text \<open>
  \<^verbatim>\<open>platform/wait_signal.h\<close> and \<^verbatim>\<open>platform/write_signal.h\<close>: 64-bit revision counters.

  A consumer records a revision, inspects its queues, then waits until the revision differs
  from the recorded one. \<open>signal_store\<close> is the heap of signals: both kinds are reached through
  weak pointers, so an identity that is not in the store is an expired pointer, and notifying
  it does nothing.
\<close>

section \<open>WaitSignal\<close>

record wait_signal =
  revision :: "64 word"

definition wait_signal_init :: wait_signal where
  "wait_signal_init = \<lparr>revision = 0\<rparr>"

definition GetRevision :: "wait_signal \<Rightarrow> 64 word" where
  "GetRevision s = revision s"

definition Notify :: "wait_signal \<Rightarrow> wait_signal" where
  "Notify s = s\<lparr>revision := revision s + 1\<rparr>"

text \<open>
  A wait is observed at an instant: \<open>None\<close> while the caller stays blocked, otherwise what the
  call returns. \<^verbatim>\<open>wait_until\<close> re-evaluates its predicate when the deadline has passed.
\<close>

definition Wait :: "64 word \<Rightarrow> wait_signal \<Rightarrow> unit option" where
  "Wait observed s = (if revision s \<noteq> observed then Some () else None)"

definition WaitUntil :: "64 word \<Rightarrow> int \<Rightarrow> int \<Rightarrow> wait_signal \<Rightarrow> bool option" where
  "WaitUntil observed deadline now s =
     (if revision s \<noteq> observed then Some True
      else if deadline \<le> now then Some False else None)"

lemma revision_Notify_pow: "revision ((Notify ^^ k) s) = revision s + of_nat k"
  by (induction k) (simp_all add: Notify_def)

lemma of_nat_word64_zero: "(of_nat k :: 64 word) = 0 \<longleftrightarrow> 18446744073709551616 dvd k"
  by (simp add: word_of_nat_eq_0_iff)

text \<open>
  C-level statement used by every event loop: notifications between recording the revision and
  waiting on it are retained, up to the wrap-around of the counter.
\<close>

lemma wait_after_notifies:
  "Wait (GetRevision s) ((Notify ^^ k) s) = Some () \<longleftrightarrow> \<not> 18446744073709551616 dvd k"
  by (simp add: Wait_def GetRevision_def revision_Notify_pow of_nat_word64_zero)

lemma wait_until_after_notifies:
  assumes "0 < k" and "k < 18446744073709551616"
  shows "WaitUntil (GetRevision s) deadline now ((Notify ^^ k) s) = Some True"
proof -
  have "\<not> 18446744073709551616 dvd k" using assms by (auto dest: dvd_imp_le)
  then show ?thesis
    by (simp add: WaitUntil_def GetRevision_def revision_Notify_pow of_nat_word64_zero)
qed

section \<open>WriteSignal and the store of signals\<close>

record write_signal =
  ws_revision :: "64 word"
  ws_wake :: "nat option"

record signal_store =
  waits :: "nat \<Rightarrow> wait_signal option"
  writes :: "nat \<Rightarrow> write_signal option"

definition write_signal_init :: "nat option \<Rightarrow> write_signal" where
  "write_signal_init wake = \<lparr>ws_revision = 0, ws_wake = wake\<rparr>"

definition notify_wait :: "nat \<Rightarrow> signal_store \<Rightarrow> signal_store" where
  "notify_wait i \<sigma> =
     (case waits \<sigma> i of None \<Rightarrow> \<sigma> | Some s \<Rightarrow> \<sigma>\<lparr>waits := (waits \<sigma>)(i \<mapsto> Notify s)\<rparr>)"

definition notify_write :: "nat \<Rightarrow> signal_store \<Rightarrow> signal_store" where
  "notify_write i \<sigma> =
     (case writes \<sigma> i of
        None \<Rightarrow> \<sigma>
      | Some w \<Rightarrow>
          let \<sigma>' = \<sigma>\<lparr>writes := (writes \<sigma>)(i \<mapsto> w\<lparr>ws_revision := ws_revision w + 1\<rparr>)\<rparr>
          in (case ws_wake w of None \<Rightarrow> \<sigma>' | Some k \<Rightarrow> notify_wait k \<sigma>'))"

lemma writes_notify_wait [simp]: "writes (notify_wait i \<sigma>) = writes \<sigma>"
  by (simp add: notify_wait_def split: option.splits)

lemma waits_notify_wait: "waits (notify_wait i \<sigma>) j =
    (if i = j then map_option Notify (waits \<sigma> j) else waits \<sigma> j)"
  by (simp add: notify_wait_def split: option.splits)

lemma writes_notify_write: "writes (notify_write i \<sigma>) j =
    (if i = j then map_option (\<lambda>w. w\<lparr>ws_revision := ws_revision w + 1\<rparr>) (writes \<sigma> j)
     else writes \<sigma> j)"
  by (simp add: notify_write_def Let_def split: option.splits)

lemma waits_notify_write: "waits (notify_write i \<sigma>) k =
    (case writes \<sigma> i of
       None \<Rightarrow> waits \<sigma> k
     | Some w \<Rightarrow> if ws_wake w = Some k then map_option Notify (waits \<sigma> k) else waits \<sigma> k)"
  by (auto simp: notify_write_def Let_def waits_notify_wait split: option.splits)

text \<open>
  Two tracks share one event loop but each owns a write signal: releasing capacity on one
  track wakes the loop and advances that track's revision only.
\<close>

lemma notify_write_isolated:
  assumes "writes \<sigma> i = Some w" "ws_wake w = Some k" "waits \<sigma> k = Some s" "i \<noteq> j"
  shows "writes (notify_write i \<sigma>) j = writes \<sigma> j"
    and "Wait (GetRevision s) (the (waits (notify_write i \<sigma>) k)) = Some ()"
    and "ws_revision (the (writes (notify_write i \<sigma>) i)) \<noteq> ws_revision w"
  using assms
  by (simp_all add: writes_notify_write waits_notify_write Wait_def GetRevision_def Notify_def)

end
