(* ===== verification/Blocking_Queue.thy ===== *)
theory Blocking_Queue
  imports Wait_Signals "HOL-Library.Multiset"
begin

text \<open>
  \<^verbatim>\<open>platform/blocking_queue.h\<close>: the fixed-capacity FIFO between all workers.

  Each operation is split where the source releases its mutex. \<open>push_body\<close>, \<open>pop_body\<close>,
  \<open>close_body\<close>, \<open>set_read_body\<close> and \<open>set_write_body\<close> are the critical sections; they return the
  notifications that the thread still owes after unlocking, in the source's order. The step
  relation \<open>qstep\<close> interleaves the critical sections, the sleeping on the two condition
  variables (spurious wake-ups and timeouts included) and every single owed notification of
  any number of threads.
\<close>

section \<open>State and critical sections\<close>

datatype bq_result = KSuccess | KTimeout | KEmpty | KClosed

record 'a bq =
  capacity :: nat
  items :: "'a list"
  read_signal :: "nat option"
  write_signal :: "nat option"
  closed :: bool

definition bq_new :: "nat \<Rightarrow> 'a bq result" where
  "bq_new cap =
     (if cap = 0 then Inl Invalid_argument
      else Inr \<lparr>capacity = cap, items = [], read_signal = None, write_signal = None,
                closed = False\<rparr>)"

datatype owed =
    Wake_one_not_full
  | Wake_one_not_empty
  | Wake_all_not_empty
  | Wake_all_not_full
  | Signal_read nat
  | Signal_write nat

fun owe_read :: "nat option \<Rightarrow> owed list" where
  "owe_read None = []"
| "owe_read (Some i) = [Signal_read i]"

fun owe_write :: "nat option \<Rightarrow> owed list" where
  "owe_write None = []"
| "owe_write (Some i) = [Signal_write i]"

definition push_ready :: "'a bq \<Rightarrow> bool" where
  "push_ready q \<longleftrightarrow> closed q \<or> length (items q) < capacity q"

definition pop_ready :: "'a bq \<Rightarrow> bool" where
  "pop_ready q \<longleftrightarrow> closed q \<or> items q \<noteq> []"

text \<open>
  \<open>PushImpl\<close> after its wait succeeded; \<open>constructed\<close> says whether the element's constructor
  returned.
\<close>

definition push_body :: "bool \<Rightarrow> 'a \<Rightarrow> 'a bq \<Rightarrow> bq_result result \<times> 'a bq \<times> owed list" where
  "push_body constructed v q =
     (if closed q then (Inr KClosed, q, [])
      else if \<not> constructed then (Inl Element_error, q, [Wake_one_not_full])
      else (Inr KSuccess, q\<lparr>items := items q @ [v]\<rparr>,
            Wake_one_not_empty # owe_read (read_signal q)))"

text \<open>\<open>PopImpl\<close>; \<open>moved\<close> says whether the element's move assignment returned.\<close>

definition pop_body ::
    "bool \<Rightarrow> 'a bq \<Rightarrow> (bq_result result \<times> 'a option) \<times> 'a bq \<times> owed list" where
  "pop_body moved q =
     (case items q of
        [] \<Rightarrow> ((Inr (if closed q then KClosed else KEmpty), None), q, [])
      | x # xs \<Rightarrow>
          if \<not> moved then ((Inl Element_error, None), q, [Wake_one_not_empty])
          else ((Inr KSuccess, Some x), q\<lparr>items := xs\<rparr>,
                Wake_one_not_full # owe_write (write_signal q)))"

definition close_body :: "'a bq \<Rightarrow> 'a bq \<times> owed list" where
  "close_body q =
     (q\<lparr>closed := True\<rparr>,
      [Wake_all_not_empty, Wake_all_not_full] @ owe_read (read_signal q) @
      owe_write (write_signal q))"

definition set_read_body :: "nat option \<Rightarrow> 'a bq \<Rightarrow> 'a bq \<times> owed list" where
  "set_read_body s q =
     (q\<lparr>read_signal := s\<rparr>, if closed q \<or> items q \<noteq> [] then owe_read s else [])"

definition set_write_body :: "nat option \<Rightarrow> 'a bq \<Rightarrow> 'a bq \<times> owed list" where
  "set_write_body s q =
     (q\<lparr>write_signal := s\<rparr>,
      if closed q \<or> length (items q) < capacity q then owe_write s else [])"

definition Size :: "'a bq \<Rightarrow> nat" where
  "Size q = length (items q)"

definition Capacity :: "'a bq \<Rightarrow> nat" where
  "Capacity q = capacity q"

section \<open>Threads and interleavings\<close>

datatype 'a outcome =
    Pushed 'a "bq_result result"
  | Popped "bq_result result \<times> 'a option"
  | Returned

datatype 'a thread =
    Push_call 'a bool
  | Push_sleep 'a bool
  | Push_awake 'a bool
  | Pop_call
  | Pop_sleep
  | Pop_awake
  | Try_pop_call
  | Close_call
  | Set_read_call "nat option"
  | Set_write_call "nat option"
  | Owing "owed list" "'a outcome"
  | Done "'a outcome"

text \<open>
  \<open>accepted\<close> and \<open>delivered\<close> are history variables: the elements that entered the queue and
  those handed to a consumer, in order.
\<close>

record 'a sys =
  queue :: "'a bq"
  threads :: "'a thread multiset"
  signals :: signal_store
  accepted :: "'a list"
  delivered :: "'a list"

definition is_call :: "'a thread \<Rightarrow> bool" where
  "is_call t = (case t of Push_call _ _ \<Rightarrow> True | Pop_call \<Rightarrow> True | Try_pop_call \<Rightarrow> True
     | Close_call \<Rightarrow> True | Set_read_call _ \<Rightarrow> True | Set_write_call _ \<Rightarrow> True | _ \<Rightarrow> False)"

definition is_push_sleep :: "'a thread \<Rightarrow> bool" where
  "is_push_sleep t = (case t of Push_sleep _ _ \<Rightarrow> True | _ \<Rightarrow> False)"

definition is_pop_sleep :: "'a thread \<Rightarrow> bool" where
  "is_pop_sleep t = (case t of Pop_sleep \<Rightarrow> True | _ \<Rightarrow> False)"

definition is_push_awake :: "'a thread \<Rightarrow> bool" where
  "is_push_awake t = (case t of Push_awake _ _ \<Rightarrow> True | _ \<Rightarrow> False)"

definition is_pop_awake :: "'a thread \<Rightarrow> bool" where
  "is_pop_awake t = (case t of Pop_awake \<Rightarrow> True | _ \<Rightarrow> False)"

fun owes :: "'a thread \<Rightarrow> owed list" where
  "owes (Owing os _) = os"
| "owes _ = []"

fun wake_pushers :: "'a thread \<Rightarrow> 'a thread" where
  "wake_pushers (Push_sleep v b) = Push_awake v b"
| "wake_pushers t = t"

fun wake_poppers :: "'a thread \<Rightarrow> 'a thread" where
  "wake_poppers Pop_sleep = Pop_awake"
| "wake_poppers t = t"

definition delivered_by :: "bq_result result \<times> 'a option \<Rightarrow> 'a list" where
  "delivered_by r = (case snd r of None \<Rightarrow> [] | Some x \<Rightarrow> [x])"

definition accepted_by :: "bq_result result \<Rightarrow> 'a \<Rightarrow> 'a list" where
  "accepted_by r v = (if r = Inr KSuccess then [v] else [])"

inductive qstep :: "'a sys \<Rightarrow> 'a sys \<Rightarrow> bool" where
  spawn: "is_call t \<Longrightarrow> qstep s (s\<lparr>threads := threads s + {#t#}\<rparr>)"
| push_block: "threads s = M + {#t#} \<Longrightarrow> t = Push_call v b \<or> t = Push_awake v b \<Longrightarrow>
    \<not> push_ready (queue s) \<Longrightarrow> qstep s (s\<lparr>threads := M + {#Push_sleep v b#}\<rparr>)"
| push_run: "threads s = M + {#t#} \<Longrightarrow> t = Push_call v b \<or> t = Push_awake v b \<Longrightarrow>
    push_ready (queue s) \<Longrightarrow> push_body ok v (queue s) = (r, q, os) \<Longrightarrow>
    qstep s (s\<lparr>queue := q, threads := M + {#Owing os (Pushed v r)#},
               accepted := accepted s @ accepted_by r v\<rparr>)"
| push_timeout: "threads s = M + {#Push_sleep v True#} \<Longrightarrow> \<not> push_ready (queue s) \<Longrightarrow>
    qstep s (s\<lparr>threads := M + {#Owing [] (Pushed v (Inr KTimeout))#}\<rparr>)"
| push_spurious: "threads s = M + {#Push_sleep v b#} \<Longrightarrow>
    qstep s (s\<lparr>threads := M + {#Push_awake v b#}\<rparr>)"
| pop_block: "threads s = M + {#t#} \<Longrightarrow> t = Pop_call \<or> t = Pop_awake \<Longrightarrow>
    \<not> pop_ready (queue s) \<Longrightarrow> qstep s (s\<lparr>threads := M + {#Pop_sleep#}\<rparr>)"
| pop_run: "threads s = M + {#t#} \<Longrightarrow>
    (t = Pop_call \<or> t = Pop_awake) \<and> pop_ready (queue s) \<or> t = Try_pop_call \<Longrightarrow>
    pop_body ok (queue s) = (r, q, os) \<Longrightarrow>
    qstep s (s\<lparr>queue := q, threads := M + {#Owing os (Popped r)#},
               delivered := delivered s @ delivered_by r\<rparr>)"
| pop_spurious: "threads s = M + {#Pop_sleep#} \<Longrightarrow>
    qstep s (s\<lparr>threads := M + {#Pop_awake#}\<rparr>)"
| close_run: "threads s = M + {#Close_call#} \<Longrightarrow> close_body (queue s) = (q, os) \<Longrightarrow>
    qstep s (s\<lparr>queue := q, threads := M + {#Owing os Returned#}\<rparr>)"
| set_read_run: "threads s = M + {#Set_read_call i#} \<Longrightarrow> set_read_body i (queue s) = (q, os) \<Longrightarrow>
    qstep s (s\<lparr>queue := q, threads := M + {#Owing os Returned#}\<rparr>)"
| set_write_run: "threads s = M + {#Set_write_call i#} \<Longrightarrow> set_write_body i (queue s) = (q, os) \<Longrightarrow>
    qstep s (s\<lparr>queue := q, threads := M + {#Owing os Returned#}\<rparr>)"
| wake_one_pusher: "threads s = M + {#Owing (Wake_one_not_full # os) c#} + {#Push_sleep v b#} \<Longrightarrow>
    qstep s (s\<lparr>threads := M + {#Owing os c#} + {#Push_awake v b#}\<rparr>)"
| wake_no_pusher: "threads s = M + {#Owing (Wake_one_not_full # os) c#} \<Longrightarrow>
    (\<forall>t \<in># M. \<not> is_push_sleep t) \<Longrightarrow> qstep s (s\<lparr>threads := M + {#Owing os c#}\<rparr>)"
| wake_one_popper: "threads s = M + {#Owing (Wake_one_not_empty # os) c#} + {#Pop_sleep#} \<Longrightarrow>
    qstep s (s\<lparr>threads := M + {#Owing os c#} + {#Pop_awake#}\<rparr>)"
| wake_no_popper: "threads s = M + {#Owing (Wake_one_not_empty # os) c#} \<Longrightarrow>
    (\<forall>t \<in># M. \<not> is_pop_sleep t) \<Longrightarrow> qstep s (s\<lparr>threads := M + {#Owing os c#}\<rparr>)"
| wake_all_pushers: "threads s = M + {#Owing (Wake_all_not_full # os) c#} \<Longrightarrow>
    qstep s (s\<lparr>threads := image_mset wake_pushers M + {#Owing os c#}\<rparr>)"
| wake_all_poppers: "threads s = M + {#Owing (Wake_all_not_empty # os) c#} \<Longrightarrow>
    qstep s (s\<lparr>threads := image_mset wake_poppers M + {#Owing os c#}\<rparr>)"
| signal_read: "threads s = M + {#Owing (Signal_read i # os) c#} \<Longrightarrow>
    qstep s (s\<lparr>threads := M + {#Owing os c#}, signals := notify_wait i (signals s)\<rparr>)"
| signal_write: "threads s = M + {#Owing (Signal_write i # os) c#} \<Longrightarrow>
    qstep s (s\<lparr>threads := M + {#Owing os c#}, signals := notify_write i (signals s)\<rparr>)"
| return: "threads s = M + {#Owing [] c#} \<Longrightarrow> qstep s (s\<lparr>threads := M + {#Done c#}\<rparr>)"

inductive reachable :: "nat \<Rightarrow> 'a sys \<Rightarrow> bool" for cap where
  start: "bq_new cap = Inr q \<Longrightarrow>
    reachable cap \<lparr>queue = q, threads = {#}, signals = \<sigma>, accepted = [], delivered = []\<rparr>"
| step: "reachable cap s \<Longrightarrow> qstep s t \<Longrightarrow> reachable cap t"

section \<open>Counting threads\<close>

definition n_push_sleep :: "'a thread multiset \<Rightarrow> nat" where
  "n_push_sleep M = size (filter_mset is_push_sleep M)"

definition n_push_awake :: "'a thread multiset \<Rightarrow> nat" where
  "n_push_awake M = size (filter_mset is_push_awake M)"

definition n_pop_sleep :: "'a thread multiset \<Rightarrow> nat" where
  "n_pop_sleep M = size (filter_mset is_pop_sleep M)"

definition n_pop_awake :: "'a thread multiset \<Rightarrow> nat" where
  "n_pop_awake M = size (filter_mset is_pop_awake M)"

definition n_owed :: "owed \<Rightarrow> 'a thread multiset \<Rightarrow> nat" where
  "n_owed w M = (\<Sum>t \<in># M. count_list (owes t) w)"

lemmas n_defs = n_push_sleep_def n_push_awake_def n_pop_sleep_def n_pop_awake_def n_owed_def

lemma n_add [simp]:
  "n_push_sleep (add_mset t M) = (if is_push_sleep t then 1 else 0) + n_push_sleep M"
  "n_push_awake (add_mset t M) = (if is_push_awake t then 1 else 0) + n_push_awake M"
  "n_pop_sleep (add_mset t M) = (if is_pop_sleep t then 1 else 0) + n_pop_sleep M"
  "n_pop_awake (add_mset t M) = (if is_pop_awake t then 1 else 0) + n_pop_awake M"
  "n_owed w (add_mset t M) = count_list (owes t) w + n_owed w M"
  by (simp_all add: n_defs)

lemma n_empty [simp]:
  "n_push_sleep {#} = 0" "n_push_awake {#} = 0" "n_pop_sleep {#} = 0" "n_pop_awake {#} = 0"
  "n_owed w {#} = 0"
  by (simp_all add: n_defs)

lemma is_simps [simp]:
  "is_push_sleep t = (\<exists>v b. t = Push_sleep v b)"
  "is_push_awake t = (\<exists>v b. t = Push_awake v b)"
  "is_pop_sleep t = (t = Pop_sleep)"
  "is_pop_awake t = (t = Pop_awake)"
  by (cases t; simp add: is_push_sleep_def is_push_awake_def is_pop_sleep_def is_pop_awake_def)+

lemma call_not [simp]:
  "is_call t \<Longrightarrow> owes t = []"
  "is_call t \<Longrightarrow> t \<noteq> Push_sleep v b" "is_call t \<Longrightarrow> t \<noteq> Push_awake v b"
  "is_call t \<Longrightarrow> t \<noteq> Pop_sleep" "is_call t \<Longrightarrow> t \<noteq> Pop_awake"
  by (auto simp: is_call_def split: thread.splits)

lemma owes_wake [simp]:
  "owes (wake_pushers t) = owes t" "owes (wake_poppers t) = owes t"
  by (cases t; simp)+

lemma wake_shape [simp]:
  "wake_pushers t \<noteq> Push_sleep v b" "(wake_pushers t = Pop_sleep) = (t = Pop_sleep)"
  "(wake_pushers t = Pop_awake) = (t = Pop_awake)"
  "wake_poppers t \<noteq> Pop_sleep" "(wake_poppers t = Push_sleep v b) = (t = Push_sleep v b)"
  "(wake_poppers t = Push_awake v b) = (t = Push_awake v b)"
  by (cases t; simp)+

lemma n_wake [simp]:
  "n_owed w (image_mset wake_pushers M) = n_owed w M"
  "n_owed w (image_mset wake_poppers M) = n_owed w M"
  "n_push_sleep (image_mset wake_pushers M) = 0"
  "n_pop_sleep (image_mset wake_pushers M) = n_pop_sleep M"
  "n_pop_awake (image_mset wake_pushers M) = n_pop_awake M"
  "n_pop_sleep (image_mset wake_poppers M) = 0"
  "n_push_sleep (image_mset wake_poppers M) = n_push_sleep M"
  "n_push_awake (image_mset wake_poppers M) = n_push_awake M"
  by (induction M) auto

lemma n_push_sleep_0: "n_push_sleep M = 0 \<longleftrightarrow> (\<forall>t \<in># M. \<not> is_push_sleep t)"
  by (induction M) auto

lemma n_pop_sleep_0: "n_pop_sleep M = 0 \<longleftrightarrow> (\<forall>t \<in># M. \<not> is_pop_sleep t)"
  by (induction M) auto

section \<open>The invariant\<close>

text \<open>
  \<open>data_inv\<close>: the capacity bound and exactly-once, in-order delivery. \<open>push_inv\<close>: while the
  queue is open, every free slot is matched by a producer that is awake or by an owed
  notification as long as a producer sleeps; once the queue is closed, a sleeping producer
  means that the closer still owes its broadcast. \<open>pop_inv\<close> is the mirror image.
\<close>

definition data_inv :: "nat \<Rightarrow> 'a sys \<Rightarrow> bool" where
  "data_inv cap s \<longleftrightarrow>
     capacity (queue s) = cap \<and> 0 < cap \<and> length (items (queue s)) \<le> cap \<and>
     accepted s = delivered s @ items (queue s)"

definition push_inv :: "'a sys \<Rightarrow> bool" where
  "push_inv s \<longleftrightarrow>
     (0 < n_push_sleep (threads s) \<longrightarrow>
        (if closed (queue s) then 0 < n_owed Wake_all_not_full (threads s)
         else capacity (queue s) - length (items (queue s))
              \<le> n_push_awake (threads s) + n_owed Wake_one_not_full (threads s)))"

definition pop_inv :: "'a sys \<Rightarrow> bool" where
  "pop_inv s \<longleftrightarrow>
     (0 < n_pop_sleep (threads s) \<longrightarrow>
        (if closed (queue s) then 0 < n_owed Wake_all_not_empty (threads s)
         else length (items (queue s))
              \<le> n_pop_awake (threads s) + n_owed Wake_one_not_empty (threads s)))"

lemma owe_count [simp]:
  "count_list (owe_read i) Wake_one_not_full = 0" "count_list (owe_read i) Wake_all_not_full = 0"
  "count_list (owe_read i) Wake_one_not_empty = 0" "count_list (owe_read i) Wake_all_not_empty = 0"
  "count_list (owe_write i) Wake_one_not_full = 0" "count_list (owe_write i) Wake_all_not_full = 0"
  "count_list (owe_write i) Wake_one_not_empty = 0" "count_list (owe_write i) Wake_all_not_empty = 0"
  by (cases i; simp)+

lemmas body_defs = push_body_def pop_body_def close_body_def set_read_body_def set_write_body_def
  push_ready_def pop_ready_def

lemma data_inv_step: "qstep s t \<Longrightarrow> data_inv cap s \<Longrightarrow> data_inv cap t"
  by (induction rule: qstep.induct)
    (auto simp: data_inv_def body_defs accepted_by_def delivered_by_def
      split: if_splits list.splits)

lemma push_inv_step: "qstep s t \<Longrightarrow> push_inv s \<Longrightarrow> push_inv t"
proof (induction rule: qstep.induct)
  case (wake_no_pusher s M os c)
  then have "n_push_sleep M = 0" by (simp only: n_push_sleep_0)
  with wake_no_pusher show ?case by (simp add: push_inv_def)
qed (auto simp: push_inv_def body_defs split: if_splits list.splits)

lemma pop_inv_step: "qstep s t \<Longrightarrow> pop_inv s \<Longrightarrow> pop_inv t"
proof (induction rule: qstep.induct)
  case (wake_no_popper s M os c)
  then have "n_pop_sleep M = 0" by (simp only: n_pop_sleep_0)
  with wake_no_popper show ?case by (simp add: pop_inv_def)
qed (auto simp: pop_inv_def body_defs split: if_splits list.splits)

lemma reachable_invs: "reachable cap s \<Longrightarrow> data_inv cap s \<and> push_inv s \<and> pop_inv s"
proof (induction rule: reachable.induct)
  case (start q \<sigma>)
  then show ?case
    by (auto simp: bq_new_def data_inv_def push_inv_def pop_inv_def split: if_splits)
next
  case (step s t)
  then show ?case by (blast intro: data_inv_step push_inv_step pop_inv_step)
qed

text \<open>
  A state is at rest when every thread sleeps or has returned: nothing but a new call (or a
  spurious wake-up) can change it.
\<close>

definition resting :: "'a sys \<Rightarrow> bool" where
  "resting s \<longleftrightarrow>
     (\<forall>t \<in># threads s. is_push_sleep t \<or> is_pop_sleep t \<or> (\<exists>c. t = Done c))"

lemma resting_counts:
  assumes "resting s"
  shows "n_push_awake (threads s) = 0" "n_pop_awake (threads s) = 0" "n_owed w (threads s) = 0"
proof -
  let ?rest = "\<lambda>M. \<forall>t \<in># M. is_push_sleep t \<or> is_pop_sleep t \<or> (\<exists>c. t = Done c)"
  have *: "?rest M \<Longrightarrow> n_push_awake M = 0 \<and> n_pop_awake M = 0 \<and> n_owed w M = 0" for M
    by (induction M) auto
  show "n_push_awake (threads s) = 0" "n_pop_awake (threads s) = 0" "n_owed w (threads s) = 0"
    using * [of "threads s"] assms by (auto simp: resting_def)
qed

section \<open>Sequential use: the FIFO contract\<close>

text \<open>
  The contract the queue's clients program against, over the operations that do not block:
  \<open>push v q\<close> is \<open>Some\<close> of the new queue when the element is accepted, \<open>pop q\<close> is \<open>Some\<close> of
  the element and the new queue when there is one.
\<close>

locale fifo =
  fixes content :: "'q \<Rightarrow> 'a list"
    and room :: "'q \<Rightarrow> nat"
    and push :: "'a \<Rightarrow> 'q \<Rightarrow> 'q option"
    and pop :: "'q \<Rightarrow> ('a \<times> 'q) option"
  assumes push_accepts: "0 < room q \<Longrightarrow> \<exists>q'. push v q = Some q'"
    and push_content: "push v q = Some q' \<Longrightarrow> content q' = content q @ [v]"
    and push_room: "push v q = Some q' \<Longrightarrow> Suc (room q') = room q"
    and pop_empty: "content q = [] \<Longrightarrow> pop q = None"
    and pop_first: "content q = x # xs \<Longrightarrow> \<exists>q'. pop q = Some (x, q') \<and> content q' = xs"
begin

fun push_all :: "'a list \<Rightarrow> 'q \<Rightarrow> 'q option" where
  "push_all [] q = Some q"
| "push_all (v # vs) q = (case push v q of None \<Rightarrow> None | Some q' \<Rightarrow> push_all vs q')"

text \<open>Drain with a bound on the number of reads.\<close>

fun pop_upto :: "nat \<Rightarrow> 'q \<Rightarrow> 'a list \<times> 'q" where
  "pop_upto 0 q = ([], q)"
| "pop_upto (Suc n) q =
     (case pop q of None \<Rightarrow> ([], q)
      | Some (x, q') \<Rightarrow> let (xs, q'') = pop_upto n q' in (x # xs, q''))"

lemma push_all_content:
  "length vs \<le> room q \<Longrightarrow> \<exists>q'. push_all vs q = Some q' \<and> content q' = content q @ vs"
proof (induction vs arbitrary: q)
  case Nil
  then show ?case by simp
next
  case (Cons v vs)
  then obtain q1 where q1: "push v q = Some q1" using push_accepts [of q v] by auto
  with Cons.prems have "length vs \<le> room q1" using push_room [OF q1] by simp
  from Cons.IH [OF this] q1 show ?case by (auto simp: push_content [OF q1])
qed

lemma pop_upto_content:
  "fst (pop_upto n q) = take n (content q)"
proof (induction n arbitrary: q)
  case 0
  then show ?case by simp
next
  case (Suc n)
  show ?case
  proof (cases "content q")
    case Nil
    then show ?thesis by (simp add: pop_empty)
  next
    case (Cons x xs)
    then obtain q' where q': "pop q = Some (x, q')" "content q' = xs" using pop_first by blast
    with Suc.IH [of q'] Cons show ?thesis by (cases "pop_upto n q'") simp
  qed
qed

lemma roundtrip:
  assumes "length vs \<le> room q"
  shows "\<exists>q'. push_all vs q = Some q' \<and>
    fst (pop_upto (length (content q) + length vs) q') = content q @ vs"
  using push_all_content [OF assms] pop_upto_content by fastforce

end

definition bq_push :: "'a \<Rightarrow> 'a bq \<Rightarrow> 'a bq option" where
  "bq_push v q =
     (if \<not> push_ready q then None
      else case push_body True v q of
        (r, q', _) \<Rightarrow> if r = Inr KSuccess then Some q' else None)"

definition bq_pop :: "'a bq \<Rightarrow> ('a \<times> 'a bq) option" where
  "bq_pop q = (case pop_body True q of
     ((_, None), _, _) \<Rightarrow> None | ((_, Some x), q', _) \<Rightarrow> Some (x, q'))"

definition bq_room :: "'a bq \<Rightarrow> nat" where
  "bq_room q = (if closed q then 0 else capacity q - length (items q))"

interpretation bq_fifo: fifo items bq_room bq_push bq_pop
proof (unfold_locales, goal_cases)
  case (5 q x xs)
  then show ?case by (simp add: bq_pop_def pop_body_def)
qed (auto simp: bq_push_def bq_pop_def bq_room_def body_defs split: if_splits)

section \<open>Properties\<close>

text \<open>
  C10: no wake-up is lost. In every reachable state in which all threads sleep or have returned,
  a sleeping producer implies that the queue is open and full, and a sleeping consumer that it
  is open and empty; so producers and consumers never sleep at the same time, and nobody sleeps
  on a closed queue.
\<close>

theorem no_lost_wakeup:
  assumes "reachable cap s" and "resting s"
  shows "((\<exists>v b. Push_sleep v b \<in># threads s) \<longrightarrow>
      \<not> closed (queue s) \<and> length (items (queue s)) = cap \<and> Pop_sleep \<notin># threads s) \<and>
    (Pop_sleep \<in># threads s \<longrightarrow>
      \<not> closed (queue s) \<and> items (queue s) = [] \<and> (\<forall>v b. Push_sleep v b \<notin># threads s))"
proof -
  note inv = reachable_invs [OF assms(1)] and zero [simp] = resting_counts [OF assms(2)]
  have push: "\<not> closed (queue s) \<and> length (items (queue s)) = cap"
    if "Push_sleep v b \<in># threads s" for v b
  proof -
    from that have "n_push_sleep (threads s) \<noteq> 0" unfolding n_push_sleep_0 by auto
    with inv show ?thesis by (auto simp: push_inv_def data_inv_def split: if_splits)
  qed
  have pop: "\<not> closed (queue s) \<and> items (queue s) = []" if "Pop_sleep \<in># threads s"
  proof -
    from that have "n_pop_sleep (threads s) \<noteq> 0" unfolding n_pop_sleep_0 by auto
    with inv show ?thesis by (auto simp: pop_inv_def split: if_splits)
  qed
  show ?thesis using push pop inv by (force simp: data_inv_def)
qed

text \<open>A consumer that found an empty queue of capacity one and went to sleep.\<close>

definition sleepy_consumer :: "nat sys" where
  "sleepy_consumer =
     \<lparr>queue = \<lparr>capacity = 1, items = [], read_signal = None, write_signal = None, closed = False\<rparr>,
      threads = {#Pop_sleep#}, signals = \<lparr>waits = (\<lambda>_. None), writes = (\<lambda>_. None)\<rparr>,
      accepted = [], delivered = []\<rparr>"

lemma sleepy_reachable: "reachable 1 sleepy_consumer"
proof -
  let ?q = "\<lparr>capacity = 1, items = [] :: nat list, read_signal = None, write_signal = None,
    closed = False\<rparr>"
  let ?s = "\<lparr>queue = ?q, threads = {#}, signals = \<lparr>waits = (\<lambda>_. None), writes = (\<lambda>_. None)\<rparr>,
    accepted = [], delivered = []\<rparr>"
  have "reachable 1 ?s" by (rule reachable.start) (simp add: bq_new_def)
  then have "reachable 1 (?s\<lparr>threads := threads ?s + {#Pop_call#}\<rparr>)"
    by (rule reachable.step) (rule qstep.spawn, simp add: is_call_def)
  then have "reachable 1 ((?s\<lparr>threads := threads ?s + {#Pop_call#}\<rparr>)\<lparr>threads := {#} + {#Pop_sleep#}\<rparr>)"
    by (rule reachable.step)
      (rule qstep.pop_block [where t = Pop_call], simp_all add: pop_ready_def)
  then show ?thesis by (simp add: sleepy_consumer_def)
qed

theorem no_lost_wakeup_witness:
  "Pop_sleep \<in># threads sleepy_consumer \<and> \<not> closed (queue sleepy_consumer) \<and>
   items (queue sleepy_consumer) = []"
proof -
  have r: "resting sleepy_consumer" by (simp add: resting_def sleepy_consumer_def)
  have p: "Pop_sleep \<in># threads sleepy_consumer" by (simp add: sleepy_consumer_def)
  show ?thesis using no_lost_wakeup [OF sleepy_reachable r] p by blast
qed

text \<open>
  every accepted element is delivered exactly once and in order, under any interleaving,
  and the queue never holds more than its capacity.
\<close>

theorem fifo_exactly_once:
  assumes "reachable cap s"
  shows "accepted s = delivered s @ items (queue s) \<and> length (items (queue s)) \<le> cap"
  using reachable_invs [OF assms] by (simp add: data_inv_def)

theorem fifo_exactly_once_witness:
  "accepted sleepy_consumer = delivered sleepy_consumer @ items (queue sleepy_consumer) \<and>
   length (items (queue sleepy_consumer)) \<le> 1"
  by (rule fifo_exactly_once [OF sleepy_reachable])

lemma closed_step: "qstep s t \<Longrightarrow> closed (queue s) \<Longrightarrow> closed (queue t) \<and> accepted t = accepted s"
  by (induction rule: qstep.induct)
    (auto simp: body_defs accepted_by_def split: if_splits list.splits)

text \<open>
  \<open>Close\<close> is permanent and rejects every later element: whatever the threads do after it, the
  queue stays closed and the sequence of accepted elements is the one at the moment it was closed.
\<close>

theorem closed_rejects:
  assumes "rtranclp qstep s t" and "closed (queue s)"
  shows "closed (queue t) \<and> accepted t = accepted s"
  using assms by (induction rule: rtranclp_induct) (auto dest: closed_step)

theorem closed_rejects_witness:
  "let s = sleepy_consumer\<lparr>queue := (queue sleepy_consumer)\<lparr>closed := True\<rparr>\<rparr>
   in closed (queue s) \<and> accepted s = []"
proof -
  let ?s = "sleepy_consumer\<lparr>queue := (queue sleepy_consumer)\<lparr>closed := True\<rparr>\<rparr>"
  have "closed (queue ?s) \<and> accepted ?s = accepted ?s"
    by (rule closed_rejects [of ?s]) simp_all
  then show ?thesis by (simp add: sleepy_consumer_def)
qed

text \<open>
  Used sequentially the queue is a FIFO: whatever fits is accepted, and reading afterwards
  returns the old content followed by the new elements.
\<close>

theorem bq_roundtrip:
  assumes "length vs \<le> bq_room q"
  shows "\<exists>q'. bq_fifo.push_all vs q = Some q' \<and>
    fst (bq_fifo.pop_upto (length (items q) + length vs) q') = items q @ vs"
  using assms by (rule bq_fifo.roundtrip)

theorem bq_roundtrip_witness:
  "\<exists>q'. bq_fifo.push_all [7, 8] \<lparr>capacity = 3, items = [5 :: nat], read_signal = None,
       write_signal = None, closed = False\<rparr> = Some q' \<and>
     fst (bq_fifo.pop_upto 3 q') = [5, 7, 8]"
  using bq_roundtrip [of "[7, 8]" "\<lparr>capacity = 3, items = [5 :: nat], read_signal = None,
       write_signal = None, closed = False\<rparr>"]
  by (simp add: bq_room_def numeral_3_eq_3)

end
