(* ===== verification/Av_Model.thy ===== *)
theory Av_Model
  imports Mw_Prelude
begin

text \<open>
  The FFmpeg side of the program.

  FFmpeg itself is not part of the repository. What the code calls is a parameter: the record
  \<open>av_lib\<close>, one field per library function, and every definition that reaches FFmpeg takes a
  value of it. What the code relies on is stated in the locale \<open>av_time\<close>, in the terms of the
  documentation of \<^verbatim>\<open>libavutil/mathematics.h\<close> and \<^verbatim>\<open>libavutil/rational.h\<close>:
  \<^verbatim>\<open>av_rescale_q\<close> is \<open>a * b / c\<close> rounded to nearest, and returns \<^verbatim>\<open>INT64_MIN\<close> where the
  result is not representable; \<^verbatim>\<open>av_cmp_q\<close> and \<^verbatim>\<open>av_compare_ts\<close> compare exact values, the
  latter only for timestamps that fit 64 bits in each other's time base.

  The second half models the repository's own carriers: \<open>av_frame\<close> holds the AVFrame fields
  the code reads or writes (media buffers are shared and read-only, so they are one opaque
  identity, \<open>fr_buffers\<close>), \<open>frame_slot\<close> is \<^verbatim>\<open>std::optional<ffmpeg::Frame>\<close> including the
  null state of a moved-from \<^verbatim>\<open>Frame\<close>, and \<open>read_result\<close> is \<^verbatim>\<open>AvDecoderReadResult\<close>.
  Exhaustion of memory while referencing a frame is not modelled.
\<close>

section \<open>Rationals and the library parameter\<close>

record av_rational =
  num :: int
  den :: int

definition avq :: "int \<Rightarrow> int \<Rightarrow> av_rational" where
  "avq n d = \<lparr>num = n, den = d\<rparr>"

lemma avq_sel [simp]: "num (avq n d) = n" "den (avq n d) = d"
  by (simp_all add: avq_def)

definition valid_tb :: "av_rational \<Rightarrow> bool" where
  "valid_tb q \<longleftrightarrow> 0 < num q \<and> 0 < den q"

lemma valid_tb_avq [simp]: "valid_tb (avq n d) \<longleftrightarrow> 0 < n \<and> 0 < d"
  by (simp add: valid_tb_def)

lemma valid_tbD: "valid_tb q \<Longrightarrow> 0 < num q" "valid_tb q \<Longrightarrow> 0 < den q"
  by (simp_all add: valid_tb_def)

abbreviation AV_NOPTS_VALUE :: int where "AV_NOPTS_VALUE \<equiv> i64_min"
abbreviation AV_FMT_NONE :: int where "AV_FMT_NONE \<equiv> - 1"

definition kMicroseconds :: av_rational where
  "kMicroseconds = avq 1 1000000"

lemma valid_us [simp]: "valid_tb kMicroseconds"
  by (simp add: kMicroseconds_def)

type_synonym channel_layout = nat

record av_lib =
  rescale_q :: "int \<Rightarrow> av_rational \<Rightarrow> av_rational \<Rightarrow> int"
  cmp_q :: "av_rational \<Rightarrow> av_rational \<Rightarrow> int"
  compare_ts :: "int \<Rightarrow> av_rational \<Rightarrow> int \<Rightarrow> av_rational \<Rightarrow> int"
  inv_q :: "av_rational \<Rightarrow> av_rational"
  reduce_q :: "int \<Rightarrow> int \<Rightarrow> int \<Rightarrow> av_rational"
  pix_fmt_known :: "int \<Rightarrow> bool"
  pix_fmt_hwaccel :: "int \<Rightarrow> bool"
  pix_fmt_rgb :: "int \<Rightarrow> bool"
  pix_fmt_yuvj :: "int \<Rightarrow> bool"
  sample_fmt_known :: "int \<Rightarrow> bool"
  layout_check :: "channel_layout \<Rightarrow> bool"
  layout_compare :: "channel_layout \<Rightarrow> channel_layout \<Rightarrow> int"
  alloc_video :: "int \<Rightarrow> int \<Rightarrow> int \<Rightarrow> nat option"
  alloc_audio :: "int \<Rightarrow> int \<Rightarrow> channel_layout \<Rightarrow> int \<Rightarrow> nat option"

text \<open>
  The exact quotient of \<^verbatim>\<open>av_rescale_q a b c\<close>: numerator and (positive) denominator.
\<close>

definition rescale_num :: "int \<Rightarrow> av_rational \<Rightarrow> av_rational \<Rightarrow> int" where
  "rescale_num a b c = a * (num b * den c)"

definition rescale_den :: "av_rational \<Rightarrow> av_rational \<Rightarrow> int" where
  "rescale_den b c = den b * num c"

lemma rescale_den_pos: "valid_tb b \<Longrightarrow> valid_tb c \<Longrightarrow> 0 < rescale_den b c"
  by (simp add: rescale_den_def valid_tb_def)

text \<open>Whether a timestamp fits 64 bits in another time base.\<close>

definition fits_in :: "int \<Rightarrow> av_rational \<Rightarrow> av_rational \<Rightarrow> bool" where
  "fits_in a b c \<longleftrightarrow> \<bar>rescale_num a b c\<bar> \<le> i64_max * rescale_den b c"

lemma nearest_gap:
  fixes x y n1 n2 d :: int
  shows "2 * \<bar>x - n1\<bar> \<le> d \<Longrightarrow> 2 * \<bar>y - n2\<bar> \<le> d \<Longrightarrow> n1 \<le> n2 \<Longrightarrow> y + d \<le> x \<Longrightarrow> n1 = n2"
  by (auto simp: abs_if split: if_splits)

lemma nearest_zero:
  fixes x y :: int
  shows "2 * \<bar>x - y\<bar> \<le> 1 \<Longrightarrow> x = y"
  by (auto simp: abs_if split: if_splits)

lemma abs_shift:
  fixes x n d :: int
  shows "2 * \<bar>x - n\<bar> \<le> d \<Longrightarrow> 2 * \<bar>x\<bar> \<le> d + 2 * \<bar>n\<bar>"
  by (auto simp: abs_if split: if_splits)

lemma nearest_unique_mono:
  fixes n1 n2 r1 r2 d :: int
  assumes d: "0 < d" and le: "n1 \<le> n2"
    and r1: "2 * \<bar>r1 * d - n1\<bar> \<le> d" and r2: "2 * \<bar>r2 * d - n2\<bar> \<le> d"
    and lt: "n1 < n2 \<or> r1 = r2"
  shows "r1 \<le> r2"
proof (rule ccontr)
  assume "\<not> r1 \<le> r2"
  then have "r2 + 1 \<le> r1" and ne: "r1 \<noteq> r2" by simp_all
  then have "(r2 + 1) * d \<le> r1 * d" using d by (simp add: mult_right_mono)
  then have "r2 * d + d \<le> r1 * d" by (simp add: algebra_simps)
  then have "n1 = n2" by (rule nearest_gap [OF r1 r2 le])
  with lt ne show False by simp
qed

locale av_time =
  fixes L :: av_lib
  assumes rescale_i64: "i64 a \<Longrightarrow> valid_tb b \<Longrightarrow> valid_tb c \<Longrightarrow> i64 (rescale_q L a b c)"
    and rescale_nearest: "i64 a \<Longrightarrow> valid_tb b \<Longrightarrow> valid_tb c \<Longrightarrow>
      rescale_q L a b c \<noteq> i64_min \<Longrightarrow>
      2 * \<bar>rescale_q L a b c * rescale_den b c - rescale_num a b c\<bar> \<le> rescale_den b c"
    and rescale_represents: "i64 a \<Longrightarrow> valid_tb b \<Longrightarrow> valid_tb c \<Longrightarrow> fits_in a b c \<Longrightarrow>
      rescale_q L a b c \<noteq> i64_min"
    and cmp_q_zero: "valid_tb p \<Longrightarrow> valid_tb q \<Longrightarrow>
      cmp_q L p q = 0 \<longleftrightarrow> num p * den q = num q * den p"
    and compare_ts_less: "i64 x \<Longrightarrow> i64 y \<Longrightarrow> valid_tb tx \<Longrightarrow> valid_tb ty \<Longrightarrow>
      fits_in x tx ty \<Longrightarrow> fits_in y ty tx \<Longrightarrow>
      compare_ts L x tx y ty < 0 \<longleftrightarrow> x * num tx * den ty < y * num ty * den tx"
    and compare_ts_eq: "i64 x \<Longrightarrow> i64 y \<Longrightarrow> valid_tb tx \<Longrightarrow> valid_tb ty \<Longrightarrow>
      fits_in x tx ty \<Longrightarrow> fits_in y ty tx \<Longrightarrow>
      compare_ts L x tx y ty = 0 \<longleftrightarrow> x * num tx * den ty = y * num ty * den tx"
    and inv_q_num: "num (inv_q L q) = den q"
    and inv_q_den: "den (inv_q L q) = num q"
begin

lemma inv_q_valid: "valid_tb (inv_q L q) \<longleftrightarrow> valid_tb q"
  by (auto simp: valid_tb_def inv_q_num inv_q_den)

text \<open>Rescaling within one time base is the identity.\<close>

lemma rescale_same:
  assumes "i64 a" and "valid_tb b"
  shows "rescale_q L a b b = a"
proof (cases "a = i64_min")
  case False
  have d: "rescale_num a b b = a * rescale_den b b"
    by (simp add: rescale_num_def rescale_den_def)
  have pos: "0 < rescale_den b b" using assms(2) by (simp add: rescale_den_pos)
  from False assms(1) have "\<bar>a\<bar> \<le> i64_max" by auto
  then have "fits_in a b b"
    unfolding fits_in_def d abs_mult using pos by (simp add: mult_right_mono)
  from rescale_nearest [OF assms(1) assms(2) assms(2) rescale_represents [OF assms assms(2) this]]
  have "2 * (\<bar>rescale_q L a b b - a\<bar> * rescale_den b b) \<le> 1 * rescale_den b b"
    using pos unfolding d left_diff_distrib [symmetric] by (simp add: abs_mult)
  then have "2 * \<bar>rescale_q L a b b - a\<bar> \<le> 1"
    using pos by (metis mult.assoc mult_right_le_imp_le)
  then show ?thesis by (rule nearest_zero)
next
  case True
  show ?thesis
  proof (cases "rescale_q L a b b = i64_min")
    case False
    have d: "rescale_num a b b = a * rescale_den b b"
      by (simp add: rescale_num_def rescale_den_def)
    have pos: "0 < rescale_den b b" using assms(2) by (simp add: rescale_den_pos)
    from rescale_nearest [OF assms(1) assms(2) assms(2) False]
    have "2 * (\<bar>rescale_q L a b b - a\<bar> * rescale_den b b) \<le> 1 * rescale_den b b"
      using pos unfolding d left_diff_distrib [symmetric] by (simp add: abs_mult)
    then have "2 * \<bar>rescale_q L a b b - a\<bar> \<le> 1"
      using pos by (metis mult.assoc mult_right_le_imp_le)
    then show ?thesis by (rule nearest_zero)
  qed (use True in simp)
qed

text \<open>Rescaling never reorders timestamps, as long as both results are representable.\<close>

lemma rescale_mono:
  assumes "i64 a" "i64 a'" "valid_tb b" "valid_tb c" "a \<le> a'"
    and "rescale_q L a b c \<noteq> i64_min" "rescale_q L a' b c \<noteq> i64_min"
  shows "rescale_q L a b c \<le> rescale_q L a' b c"
proof (rule nearest_unique_mono [where d = "rescale_den b c"])
  show "0 < rescale_den b c" using assms by (simp add: rescale_den_pos)
  have "0 \<le> num b * den c" using assms(3,4) by (simp add: valid_tb_def)
  then show "rescale_num a b c \<le> rescale_num a' b c"
    unfolding rescale_num_def using assms(5) by (rule mult_right_mono [rotated])
  have p: "0 < num b * den c" using assms(3,4) by (simp add: valid_tb_def)
  show "rescale_num a b c < rescale_num a' b c \<or> rescale_q L a b c = rescale_q L a' b c"
    unfolding rescale_num_def using assms(5) p
    by (cases "a = a'") (auto intro: mult_strict_right_mono)
qed (use assms in \<open>auto intro: rescale_nearest\<close>)

lemma rescale_zero:
  assumes "valid_tb b" "valid_tb c"
  shows "rescale_q L 0 b c = 0"
proof -
  have pos: "0 < rescale_den b c" using assms by (rule rescale_den_pos)
  have "fits_in 0 b c" using pos by (simp add: fits_in_def rescale_num_def)
  then have "rescale_q L 0 b c \<noteq> i64_min" using assms by (intro rescale_represents) simp_all
  from rescale_nearest [OF _ assms this]
  have "2 * \<bar>rescale_q L 0 b c * rescale_den b c\<bar> \<le> rescale_den b c"
    by (simp add: rescale_num_def)
  then have "2 * (\<bar>rescale_q L 0 b c\<bar> * rescale_den b c) \<le> 1 * rescale_den b c"
    using pos by (simp add: abs_mult)
  then have "2 * \<bar>rescale_q L 0 b c\<bar> \<le> 1"
    using pos by (metis mult.assoc mult_right_le_imp_le)
  then show ?thesis by simp
qed

end

section \<open>A reference instance\<close>

text \<open>
  A computable library that meets the documented laws. It instantiates the parameter in the
  witnesses; no definition of the program depends on it.
\<close>

definition round_near_inf :: "int \<Rightarrow> int \<Rightarrow> int" where
  "round_near_inf n d =
     (if 0 \<le> n then (2 * n + d) div (2 * d) else - ((d - 2 * n) div (2 * d)))"

definition ref_rescale :: "int \<Rightarrow> av_rational \<Rightarrow> av_rational \<Rightarrow> int" where
  "ref_rescale a b c =
     (let r = round_near_inf (rescale_num a b c) (rescale_den b c)
      in if i64 r then r else i64_min)"

definition ref_compare_ts :: "int \<Rightarrow> av_rational \<Rightarrow> int \<Rightarrow> av_rational \<Rightarrow> int" where
  "ref_compare_ts a ta b tb = sgn (a * num ta * den tb - b * num tb * den ta)"

definition ref_lib :: av_lib where
  "ref_lib = \<lparr>
     rescale_q = ref_rescale,
     cmp_q = (\<lambda>a b. sgn (num a * den b - num b * den a)),
     compare_ts = ref_compare_ts,
     inv_q = (\<lambda>q. avq (den q) (num q)),
     reduce_q = (\<lambda>n d m. avq (n div gcd n d) (d div gcd n d)),
     pix_fmt_known = (\<lambda>f. 0 \<le> f),
     pix_fmt_hwaccel = (\<lambda>f. f = 100),
     pix_fmt_rgb = (\<lambda>f. f = 2),
     pix_fmt_yuvj = (\<lambda>f. f = 12),
     sample_fmt_known = (\<lambda>f. 0 \<le> f),
     layout_check = (\<lambda>l. 0 < l),
     layout_compare = (\<lambda>a b. if a = b then 0 else 1),
     alloc_video = (\<lambda>f w h. Some 1000),
     alloc_audio = (\<lambda>f r l n. Some 2000)\<rparr>"

lemma ref_lib_sel [simp]:
  "rescale_q ref_lib = ref_rescale"
  "cmp_q ref_lib = (\<lambda>a b. sgn (num a * den b - num b * den a))"
  "compare_ts ref_lib = ref_compare_ts"
  "inv_q ref_lib = (\<lambda>q. avq (den q) (num q))"
  "reduce_q ref_lib = (\<lambda>n d m. avq (n div gcd n d) (d div gcd n d))"
  "pix_fmt_known ref_lib = (\<lambda>f. 0 \<le> f)"
  "pix_fmt_hwaccel ref_lib = (\<lambda>f. f = 100)"
  "pix_fmt_rgb ref_lib = (\<lambda>f. f = 2)"
  "pix_fmt_yuvj ref_lib = (\<lambda>f. f = 12)"
  "sample_fmt_known ref_lib = (\<lambda>f. 0 \<le> f)"
  "layout_check ref_lib = (\<lambda>l. 0 < l)"
  "layout_compare ref_lib = (\<lambda>a b. if a = b then 0 else 1)"
  "alloc_video ref_lib = (\<lambda>f w h. Some 1000)"
  "alloc_audio ref_lib = (\<lambda>f r l n. Some 2000)"
  by (simp_all add: ref_lib_def)

lemma near_from_mod:
  fixes m d x r :: int
  shows "2 * m + d = 2 * x + r \<Longrightarrow> 0 \<le> r \<Longrightarrow> r < 2 * d \<Longrightarrow> 2 * \<bar>x - m\<bar> \<le> d"
  by (auto simp: abs_if split: if_splits)

lemma div_near:
  fixes m d :: int
  assumes "0 < d"
  shows "2 * \<bar>((2 * m + d) div (2 * d)) * d - m\<bar> \<le> d"
proof (rule near_from_mod [where r = "(2 * m + d) mod (2 * d)"])
  show "2 * m + d = 2 * (((2 * m + d) div (2 * d)) * d) + (2 * m + d) mod (2 * d)"
    using mult_div_mod_eq [of "2 * d" "2 * m + d"] by (simp add: algebra_simps)
qed (use assms in simp_all)

lemma round_near:
  assumes "0 < d"
  shows "2 * \<bar>round_near_inf n d * d - n\<bar> \<le> d"
proof (cases "0 \<le> n")
  case True
  with assms show ?thesis by (simp add: round_near_inf_def div_near)
next
  case False
  have "2 * \<bar>((d - 2 * n) div (2 * d)) * d + n\<bar> \<le> d"
    using div_near [OF assms, of "- n"] by simp
  moreover have "\<bar>- ((d - 2 * n) div (2 * d)) * d - n\<bar> = \<bar>((d - 2 * n) div (2 * d)) * d + n\<bar>"
    using abs_minus_cancel [of "((d - 2 * n) div (2 * d)) * d + n"] by (simp only: minus_add_distrib diff_conv_add_uminus mult_minus_left)
  ultimately show ?thesis using False by (simp add: round_near_inf_def)
qed

lemma round_fits:
  assumes "0 < d" and "\<bar>n\<bar> \<le> i64_max * d"
  shows "\<bar>round_near_inf n d\<bar> \<le> i64_max"
proof -
  let ?r = "round_near_inf n d"
  have "2 * \<bar>?r * d\<bar> \<le> d + 2 * \<bar>n\<bar>"
    by (rule abs_shift [OF round_near [OF assms(1)]])
  also have "\<dots> \<le> (2 * i64_max + 1) * d" using assms(2) by (simp add: algebra_simps)
  finally have "(2 * \<bar>?r\<bar>) * d \<le> (2 * i64_max + 1) * d"
    using assms(1) by (simp add: abs_mult)
  then have "2 * \<bar>?r\<bar> \<le> 2 * i64_max + 1"
    using assms(1) by (simp only: mult_le_cancel_right)
  then show ?thesis by simp
qed

interpretation ref_time: av_time ref_lib
proof (unfold_locales, goal_cases)
  case (1 a b c)
  then show ?case by (simp add: ref_rescale_def Let_def)
next
  case (2 a b c)
  then have "rescale_q ref_lib a b c = round_near_inf (rescale_num a b c) (rescale_den b c)"
    by (auto simp: ref_rescale_def Let_def split: if_splits)
  then show ?case using 2 by (simp add: round_near rescale_den_pos)
next
  case (3 a b c)
  then have "\<bar>round_near_inf (rescale_num a b c) (rescale_den b c)\<bar> \<le> i64_max"
    by (intro round_fits) (auto simp: fits_in_def rescale_den_pos)
  then show ?case by (auto simp: ref_rescale_def Let_def)
qed (auto simp: ref_compare_ts_def sgn_if)

section \<open>Frames and read results\<close>

record av_frame =
  fr_pts :: int
  fr_best_effort :: int
  fr_pkt_dts :: int
  fr_time_base :: av_rational
  fr_duration :: int
  fr_width :: int
  fr_height :: int
  fr_format :: int
  fr_nb_samples :: int
  fr_sample_rate :: int
  fr_layout :: channel_layout
  fr_has_data :: bool
  fr_captions :: bool
  fr_full_range :: bool
  fr_buffers :: nat

datatype frame_slot = No_frame | Null_frame | Has_frame (the_frame: av_frame)

definition has_value :: "frame_slot \<Rightarrow> bool" where
  "has_value s \<longleftrightarrow> s \<noteq> No_frame"

definition has_frame :: "frame_slot \<Rightarrow> bool" where
  "has_frame s = (case s of Has_frame _ \<Rightarrow> True | _ \<Rightarrow> False)"

lemma has_value_simps [simp]:
  "has_value (Has_frame f)" "has_value Null_frame" "\<not> has_value No_frame"
  "has_frame (Has_frame f)" "\<not> has_frame Null_frame" "\<not> has_frame No_frame"
  by (simp_all add: has_value_def has_frame_def)

lemma has_frameE:
  assumes "has_frame s" obtains f where "s = Has_frame f"
  using assms by (cases s) auto

datatype read_status = KFrame | KEof | KNull

record read_result =
  rr_status :: read_status
  rr_frame :: frame_slot
  rr_stream :: int
  rr_time_base :: av_rational
  rr_end_pts :: int

text \<open>The default-constructed result, \<^verbatim>\<open>{}\<close>.\<close>

definition null_result :: read_result where
  "null_result = \<lparr>rr_status = KNull, rr_frame = No_frame, rr_stream = - 1,
     rr_time_base = avq 0 1, rr_end_pts = AV_NOPTS_VALUE\<rparr>"

lemma null_result_status [simp]: "rr_status null_result = KNull"
  by (simp add: null_result_def)

text \<open>\<^verbatim>\<open>input.frame->get()\<close> after the checks have established that there is one.\<close>

abbreviation in_frame :: "read_result \<Rightarrow> av_frame" where
  "in_frame r \<equiv> the_frame (rr_frame r)"

end
