(* ===== verification/Media_Timestamps.thy ===== *)
theory Media_Timestamps
  imports Av_Model Complex_Main
begin

text \<open>
  Encoded packets and streams (\<^verbatim>\<open>ffmpeg/packet\<close>, \<^verbatim>\<open>ffmpeg/stream_info\<close>) and
  \<^verbatim>\<open>remuxer/media_timestamp_converter.h\<close>: the adaptation of native timestamps to the
  non-negative millisecond timestamps of the protocol layer, with one shift shared by every
  track of a session.
\<close>

section \<open>Packets and streams\<close>

record av_packet =
  pk_pts :: int
  pk_dts :: int
  pk_time_base :: av_rational
  pk_stream :: int
  pk_bytes :: "8 word list"
  pk_side :: "(bool \<times> 8 word list) list"

text \<open>\<^verbatim>\<open>ffmpeg::Packet\<close>: \<open>None\<close> is a moved-from packet, whose pointer is null.\<close>

type_synonym packet = "av_packet option"

datatype media_type = Media_video | Media_audio | Media_other

record stream_info =
  si_index :: int
  si_parameters :: bool
  si_time_base :: av_rational
  si_codec_known :: bool
  si_type :: media_type
  si_extradata_size :: int
  si_extradata :: bool

definition StreamInfo_Validate :: "stream_info \<Rightarrow> unit result" where
  "StreamInfo_Validate s =
     (if si_index s < 0 \<or> \<not> si_parameters s \<or> num (si_time_base s) \<le> 0 \<or>
         den (si_time_base s) \<le> 0 \<or> \<not> si_codec_known s \<or>
         (si_type s \<noteq> Media_audio \<and> si_type s \<noteq> Media_video) \<or>
         si_extradata_size s < 0 \<or> (0 < si_extradata_size s \<and> \<not> si_extradata s)
      then Inl Invalid_argument else Inr ())"

lemma StreamInfo_Validate_valid: "StreamInfo_Validate s = Inr u \<Longrightarrow> valid_tb (si_time_base s)"
  by (auto simp: StreamInfo_Validate_def valid_tb_def split: if_splits)

section \<open>The converter\<close>

record media_timestamps =
  pts_ms :: "64 word"
  dts_ms :: "64 word"

record timestamp_converter =
  tc_streams :: "stream_info list"
  shift_ms :: "int option"

text \<open>The constructor's double loop: \<open>seen\<close> are the streams before the current one.\<close>

fun check_streams :: "stream_info list \<Rightarrow> stream_info list \<Rightarrow> unit result" where
  "check_streams seen [] = Inr ()"
| "check_streams seen (s # ss) =
     chain (StreamInfo_Validate s) (\<lambda>_.
     if \<exists>t \<in> set seen. si_index t = si_index s then Inl Invalid_argument
     else check_streams (seen @ [s]) ss)"

definition MediaTimestampConverter :: "stream_info list \<Rightarrow> timestamp_converter result" where
  "MediaTimestampConverter ss =
     (if ss = [] then Inl Invalid_argument
      else chain (check_streams [] ss) (\<lambda>_. Inr \<lparr>tc_streams = ss, shift_ms = None\<rparr>))"

lemma check_streams_ok:
  "check_streams seen ss = Inr u \<Longrightarrow> distinct (map si_index seen) \<Longrightarrow>
    distinct (map si_index (seen @ ss)) \<and> (\<forall>s \<in> set ss. StreamInfo_Validate s = Inr ())"
proof (induction ss arbitrary: seen)
  case Nil
  then show ?case by simp
next
  case (Cons s ss)
  from Cons.prems(1) have s: "StreamInfo_Validate s = Inr ()"
    and new: "si_index s \<notin> si_index ` set seen"
    and rest: "check_streams (seen @ [s]) ss = Inr u"
    by (auto split: if_splits)
  have "distinct (map si_index (seen @ [s]))" using Cons.prems(2) new by auto
  from Cons.IH [OF rest this] s show ?case by auto
qed

definition Validate_packet :: "av_lib \<Rightarrow> stream_info list \<Rightarrow> packet \<Rightarrow> unit result" where
  "Validate_packet L ss p =
     (case p of
        None \<Rightarrow> Inl Invalid_argument
      | Some k \<Rightarrow>
          if pk_pts k = AV_NOPTS_VALUE \<or> pk_dts k = AV_NOPTS_VALUE then Inl Invalid_argument
          else (case List.find (\<lambda>s. si_index s = pk_stream k) ss of
                  None \<Rightarrow> Inl Invalid_argument
                | Some s \<Rightarrow>
                    if num (pk_time_base k) \<le> 0 \<or> den (pk_time_base k) \<le> 0 \<or>
                       cmp_q L (pk_time_base k) (si_time_base s) \<noteq> 0
                    then Inl Invalid_argument else Inr ()))"

lemma Validate_packetD:
  assumes "Validate_packet L ss (Some k) = Inr u"
  shows "pk_pts k \<noteq> i64_min \<and> pk_dts k \<noteq> i64_min \<and> valid_tb (pk_time_base k) \<and>
    (\<exists>s \<in> set ss. si_index s = pk_stream k \<and> cmp_q L (pk_time_base k) (si_time_base s) = 0)"
  using assms
  by (auto simp: Validate_packet_def valid_tb_def split: if_splits option.splits dest: find_Some_in)

definition milliseconds_tb :: av_rational where
  "milliseconds_tb = avq 1 1000"

lemma valid_ms [simp]: "valid_tb milliseconds_tb"
  by (simp add: milliseconds_tb_def)

definition Milliseconds :: "av_lib \<Rightarrow> int \<Rightarrow> av_rational \<Rightarrow> int result" where
  "Milliseconds L v tb =
     (let r = rescale_q L v tb milliseconds_tb
      in if r = i64_min \<or> r = i64_max then Inl Overflow_error else Inr r)"

fun minimum_ms ::
    "av_lib \<Rightarrow> stream_info list \<Rightarrow> int \<Rightarrow> av_packet list \<Rightarrow> int result" where
  "minimum_ms L ss m [] = Inr m"
| "minimum_ms L ss m (k # ks) =
     chain (Validate_packet L ss (Some k)) (\<lambda>_.
     chain (Milliseconds L (pk_pts k) (pk_time_base k)) (\<lambda>p.
     chain (Milliseconds L (pk_dts k) (pk_time_base k)) (\<lambda>d.
     minimum_ms L ss (min m (min p d)) ks)))"

definition Initialize_shift ::
    "av_lib \<Rightarrow> av_packet list \<Rightarrow> (timestamp_converter, unit) act" where
  "Initialize_shift L first_packets =
     andthen (gets shift_ms) (\<lambda>sh.
     if sh \<noteq> None then ret ()
     else andthen (gets tc_streams) (\<lambda>ss.
          andthen (lift (minimum_ms L ss 0 first_packets)) (\<lambda>m.
          modify (\<lambda>c. c\<lparr>shift_ms := Some (- m)\<rparr>))))"

definition Shift :: "int \<Rightarrow> int \<Rightarrow> 64 word result" where
  "Shift sh v =
     (if v < - sh then Inl Invalid_argument
      else if i64_max - sh < v then Inl Overflow_error
      else Inr (to_u64 (v + sh)))"

definition Convert_timestamps ::
    "av_lib \<Rightarrow> timestamp_converter \<Rightarrow> packet \<Rightarrow> media_timestamps result" where
  "Convert_timestamps L c p =
     chain (Validate_packet L (tc_streams c) p) (\<lambda>_.
     case shift_ms c of
       None \<Rightarrow> Inl Logic_error
     | Some sh \<Rightarrow>
         let k = the p in
         chain (chain (Milliseconds L (pk_pts k) (pk_time_base k)) (Shift sh)) (\<lambda>a.
         chain (chain (Milliseconds L (pk_dts k) (pk_time_base k)) (Shift sh)) (\<lambda>b.
         Inr \<lparr>pts_ms = a, dts_ms = b\<rparr>)))"

section \<open>Lemmas\<close>

lemma Shift_Inr:
  assumes "Shift sh v = Inr w"
  shows "uint w = v + sh" and "0 \<le> v + sh" and "v + sh \<le> i64_max"
proof -
  from assms have r: "0 \<le> v + sh" "v + sh \<le> i64_max" and w: "w = to_u64 (v + sh)"
    by (auto simp: Shift_def split: if_splits)
  then show "0 \<le> v + sh" "v + sh \<le> i64_max" by simp_all
  show "uint w = v + sh" using r unfolding w by (intro uint_to_u64) simp_all
qed

lemma minimum_ms_le:
  assumes "minimum_ms L ss m ks = Inr r"
  shows "r \<le> m \<and> (\<forall>k \<in> set ks. \<exists>p d. Validate_packet L ss (Some k) = Inr () \<and>
    Milliseconds L (pk_pts k) (pk_time_base k) = Inr p \<and>
    Milliseconds L (pk_dts k) (pk_time_base k) = Inr d \<and> r \<le> p \<and> r \<le> d)"
  using assms
proof (induction ks arbitrary: m)
  case Nil
  then show ?case by simp
next
  case (Cons k ks)
  then show ?case by fastforce
qed

lemma Initialize_wp:
  "wp (Initialize_shift L ks)
     (\<lambda>_ t. if shift_ms c \<noteq> None then t = c
        else \<exists>m. minimum_ms L (tc_streams c) 0 ks = Inr m \<and> t = c\<lparr>shift_ms := Some (- m)\<rparr>)
     (\<lambda>e t. t = c) c"
  unfolding Initialize_shift_def by (auto simp: wp_eqs)

section \<open>Properties\<close>

text \<open>
  the common shift never rejects the packets it was computed from. After a successful
  initialisation by the first packets of all tracks, converting any of them returns timestamps
  that are its native ones in milliseconds plus the one shared shift, non-negative, unless the
  sum leaves the signed 64-bit range.
\<close>

theorem first_packets_convert:
  assumes "shift_ms c = None" and "Initialize_shift L ks c = (Inr (), c')" and "k \<in> set ks"
  shows "\<exists>sh p d. shift_ms c' = Some sh \<and> 0 \<le> sh \<and>
    Milliseconds L (pk_pts k) (pk_time_base k) = Inr p \<and>
    Milliseconds L (pk_dts k) (pk_time_base k) = Inr d \<and>
    0 \<le> p + sh \<and> 0 \<le> d + sh \<and>
    (p + sh \<le> i64_max \<longrightarrow> d + sh \<le> i64_max \<longrightarrow>
       (\<exists>t. Convert_timestamps L c' (Some k) = Inr t \<and>
            uint (pts_ms t) = p + sh \<and> uint (dts_ms t) = d + sh))"
proof -
  from wp_InrD [OF Initialize_wp assms(2)] assms(1)
  obtain m where m: "minimum_ms L (tc_streams c) 0 ks = Inr m" "c' = c\<lparr>shift_ms := Some (- m)\<rparr>"
    by auto
  from minimum_ms_le [OF m(1)] assms(3) obtain p d where
    pd: "Validate_packet L (tc_streams c) (Some k) = Inr ()"
      "Milliseconds L (pk_pts k) (pk_time_base k) = Inr p"
      "Milliseconds L (pk_dts k) (pk_time_base k) = Inr d" "m \<le> p" "m \<le> d" "m \<le> 0"
    by blast
  have "\<exists>t. Convert_timestamps L c' (Some k) = Inr t \<and>
      uint (pts_ms t) = p - m \<and> uint (dts_ms t) = d - m"
    if r: "p - m \<le> i64_max" "d - m \<le> i64_max"
  proof -
    have "Shift (- m) p = Inr (to_u64 (p - m))" "Shift (- m) d = Inr (to_u64 (d - m))"
      using pd r by (simp_all add: Shift_def)
    then show ?thesis
      using pd Shift_Inr(1) [of "- m" p] Shift_Inr(1) [of "- m" d]
      by (simp add: Convert_timestamps_def m(2) Let_def)
  qed
  then show ?thesis using pd m(2) by auto
qed

definition sample_streams :: "stream_info list" where
  "sample_streams =
     [\<lparr>si_index = 0, si_parameters = True, si_time_base = avq 1 25, si_codec_known = True,
       si_type = Media_video, si_extradata_size = 0, si_extradata = False\<rparr>,
      \<lparr>si_index = 1, si_parameters = True, si_time_base = avq 1 48000, si_codec_known = True,
       si_type = Media_audio, si_extradata_size = 0, si_extradata = False\<rparr>]"

definition sample_video :: "int \<Rightarrow> av_packet" where
  "sample_video t = \<lparr>pk_pts = t, pk_dts = t, pk_time_base = avq 1 25, pk_stream = 0, pk_bytes = [], pk_side = []\<rparr>"

definition sample_audio :: "int \<Rightarrow> av_packet" where
  "sample_audio t = \<lparr>pk_pts = t, pk_dts = t, pk_time_base = avq 1 48000, pk_stream = 1, pk_bytes = [], pk_side = []\<rparr>"

lemmas sample_packet_defs = sample_streams_def sample_video_def sample_audio_def

theorem first_packets_convert_witness:
  "\<exists>t. Convert_timestamps ref_lib \<lparr>tc_streams = sample_streams, shift_ms = Some 40\<rparr>
         (Some (sample_audio 480)) = Inr t \<and> uint (pts_ms t) = 50"
proof -
  let ?c = "\<lparr>tc_streams = sample_streams, shift_ms = None\<rparr>"
  let ?k = "sample_audio 480"
  have ms: "Milliseconds ref_lib (pk_pts ?k) (pk_time_base ?k) = Inr 10"
      "Milliseconds ref_lib (pk_dts ?k) (pk_time_base ?k) = Inr 10"
    by (simp_all add: Milliseconds_def milliseconds_tb_def sample_packet_defs ref_rescale_def
        rescale_num_def rescale_den_def round_near_inf_def)
  have i: "Initialize_shift ref_lib [sample_video (- 1), ?k] ?c =
      (Inr (), ?c\<lparr>shift_ms := Some 40\<rparr>)"
    by (simp add: Initialize_shift_def act_defs Validate_packet_def
        Milliseconds_def milliseconds_tb_def sample_packet_defs ref_rescale_def
        rescale_num_def rescale_den_def round_near_inf_def)
  show ?thesis
    using first_packets_convert [OF _ i, of ?k] by (auto simp: ms)
qed

text \<open>
  Conversion keeps order and distance. For two packets of one track the earlier DTS never
  becomes the later one (and likewise for PTS), and the difference of any two converted
  timestamps, of whatever tracks, is the difference of their native times in milliseconds.
\<close>

theorem conversion_preserves_order:
  assumes "av_time L" and "pk_time_base k = pk_time_base k'"
    and "i64 (pk_dts k)" and "i64 (pk_dts k')" and "pk_dts k \<le> pk_dts k'"
    and "Convert_timestamps L c (Some k) = Inr t" and "Convert_timestamps L c (Some k') = Inr t'"
  shows "dts_ms t \<le> dts_ms t' \<and>
    uint (dts_ms t') - uint (dts_ms t) =
      rescale_q L (pk_dts k') (pk_time_base k') milliseconds_tb -
      rescale_q L (pk_dts k) (pk_time_base k) milliseconds_tb"
proof -
  let ?r = "\<lambda>k. rescale_q L (pk_dts k) (pk_time_base k) milliseconds_tb"
  have conv: "\<exists>sh. shift_ms c = Some sh \<and> ?r k \<noteq> i64_min \<and> uint (dts_ms t) = ?r k + sh \<and>
      valid_tb (pk_time_base k)" if "Convert_timestamps L c (Some k) = Inr t" for k t
    using that Validate_packetD [of L "tc_streams c" k "()"]
    by (auto simp: Convert_timestamps_def Milliseconds_def Let_def
        split: option.splits if_splits dest!: Shift_Inr(1))
  from conv [OF assms(6)] conv [OF assms(7)] obtain sh where
    *: "?r k \<noteq> i64_min" "?r k' \<noteq> i64_min" "uint (dts_ms t) = ?r k + sh"
      "uint (dts_ms t') = ?r k' + sh" "valid_tb (pk_time_base k)"
    by auto
  have "?r k \<le> ?r k'"
    using av_time.rescale_mono [OF assms(1,3,4) *(5) valid_ms assms(5) *(1)] *(2) assms(2) by simp
  with * show ?thesis by (simp add: word_le_def)
qed

theorem conversion_preserves_order_witness:
  "\<exists>t t'. Convert_timestamps ref_lib \<lparr>tc_streams = sample_streams, shift_ms = Some 40\<rparr>
      (Some (sample_video 1)) = Inr t \<and>
    Convert_timestamps ref_lib \<lparr>tc_streams = sample_streams, shift_ms = Some 40\<rparr>
      (Some (sample_video 3)) = Inr t' \<and>
    dts_ms t \<le> dts_ms t' \<and> uint (dts_ms t') - uint (dts_ms t) = 80"
proof -
  let ?c = "\<lparr>tc_streams = sample_streams, shift_ms = Some 40\<rparr>"
  note calc = Convert_timestamps_def Validate_packet_def Milliseconds_def milliseconds_tb_def
    sample_packet_defs ref_rescale_def rescale_num_def rescale_den_def round_near_inf_def Shift_def
  have 1: "\<exists>t. Convert_timestamps ref_lib ?c (Some (sample_video 1)) = Inr t"
    and 3: "\<exists>t. Convert_timestamps ref_lib ?c (Some (sample_video 3)) = Inr t"
    by (simp_all add: calc)
  from 1 3 obtain t t' where t: "Convert_timestamps ref_lib ?c (Some (sample_video 1)) = Inr t"
    "Convert_timestamps ref_lib ?c (Some (sample_video 3)) = Inr t'" by blast
  from conversion_preserves_order [OF ref_time.av_time_axioms _ _ _ _ t]
  have "dts_ms t \<le> dts_ms t' \<and> uint (dts_ms t') - uint (dts_ms t) = 80"
    by (simp add: calc)
  with t show ?thesis by blast
qed

end
