(* ===== verification/Packet_Interleaver.thy ===== *)
theory Packet_Interleaver
  imports Media_Timestamps "HOL-Library.Multiset"
begin

text \<open>
  \<^verbatim>\<open>remuxer/packet_interleaver.h\<close>: the native-DTS merge of one video and one audio track.

  The queue is kept ordered by exact DTS, then by track order. \<open>Push\<close> inserts with
  \<^verbatim>\<open>std::upper_bound\<close>, whose result on a range partitioned by the comparison is the first
  element the new item precedes; \<open>PopReady\<close> releases from the front while every track is
  buffered, the ten-second window is exceeded, or on flush.
\<close>

section \<open>State and operations\<close>

record il_track =
  tr_index :: int
  tr_type :: media_type
  tr_time_base :: av_rational
  highest :: "int option"

record interleaver =
  validation :: timestamp_converter
  tracks :: "il_track list"
  il_queue :: "av_packet list"
  initialized :: bool
  flushed :: bool

fun add_tracks :: "il_track list \<Rightarrow> stream_info list \<Rightarrow> il_track list result" where
  "add_tracks ts [] = Inr ts"
| "add_tracks ts (s # ss) =
     (if \<exists>t \<in> set ts. tr_type t = si_type s then Inl Invalid_argument
      else add_tracks (ts @ [\<lparr>tr_index = si_index s, tr_type = si_type s,
             tr_time_base = si_time_base s, highest = None\<rparr>]) ss)"

definition PacketInterleaver :: "stream_info list \<Rightarrow> interleaver result" where
  "PacketInterleaver ss =
     chain (MediaTimestampConverter ss) (\<lambda>v.
     chain (add_tracks [] ss) (\<lambda>ts.
     Inr \<lparr>validation = v, tracks = ts, il_queue = [], initialized = False, flushed = False\<rparr>))"

fun index_of :: "int \<Rightarrow> il_track list \<Rightarrow> nat" where
  "index_of i [] = 0"
| "index_of i (t # ts) = (if tr_index t = i then 0 else Suc (index_of i ts))"

abbreviation TrackOrder :: "il_track list \<Rightarrow> int \<Rightarrow> nat" where
  "TrackOrder ts i \<equiv> index_of i ts"

definition precedes :: "av_lib \<Rightarrow> il_track list \<Rightarrow> av_packet \<Rightarrow> av_packet \<Rightarrow> bool" where
  "precedes L ts l r =
     (let c = compare_ts L (pk_dts l) (pk_time_base l) (pk_dts r) (pk_time_base r)
      in if c \<noteq> 0 then c < 0
         else TrackOrder ts (pk_stream l) < TrackOrder ts (pk_stream r))"

definition insert_upper ::
    "av_lib \<Rightarrow> il_track list \<Rightarrow> av_packet \<Rightarrow> av_packet list \<Rightarrow> av_packet list" where
  "insert_upper L ts k q =
     takeWhile (\<lambda>e. \<not> precedes L ts k e) q @ k # dropWhile (\<lambda>e. \<not> precedes L ts k e) q"

text \<open>The first track of that index gets the new watermark, as through the found iterator.\<close>

fun set_highest :: "int \<Rightarrow> int \<Rightarrow> il_track list \<Rightarrow> il_track list" where
  "set_highest i d [] = []"
| "set_highest i d (t # ts) =
     (if tr_index t = i then t\<lparr>highest := Some d\<rparr> # ts else t # set_highest i d ts)"

definition Push :: "av_lib \<Rightarrow> packet \<Rightarrow> (interleaver, unit) act" where
  "Push L p =
     andthen (gets flushed) (\<lambda>fl.
     andthen (guard (\<not> fl) Logic_error) (\<lambda>_.
     andthen (gets (tc_streams \<circ> validation)) (\<lambda>ss.
     andthen (lift (Validate_packet L ss p)) (\<lambda>_.
     andthen (gets tracks) (\<lambda>ts.
     let k = the p; track = List.find (\<lambda>t. tr_index t = pk_stream k) ts in
     andthen (guard (\<not> (case Option.bind track highest of None \<Rightarrow> False | Some h \<Rightarrow> pk_dts k < h))
                Invalid_argument) (\<lambda>_.
     modify (\<lambda>s. s\<lparr>il_queue := insert_upper L ts k (il_queue s),
                   tracks := set_highest (pk_stream k) (pk_dts k) ts\<rparr>)))))))"

definition AllTracksBuffered :: "il_track list \<Rightarrow> av_packet list \<Rightarrow> bool" where
  "AllTracksBuffered ts q \<longleftrightarrow> (\<forall>t \<in> set ts. \<exists>k \<in> set q. pk_stream k = tr_index t)"

definition ExceedsDelta :: "av_lib \<Rightarrow> av_packet list \<Rightarrow> bool" where
  "ExceedsDelta L q =
     (if length q < 2 then False
      else let first_us = rescale_q L (pk_dts (hd q)) (pk_time_base (hd q)) kMicroseconds;
               last_us = rescale_q L (pk_dts (last q)) (pk_time_base (last q)) kMicroseconds
           in first_us < last_us \<and> 10000000 < to_u64 last_us - to_u64 first_us)"

text \<open>The release loop: the released items and the queue that remains.\<close>

fun release ::
    "av_lib \<Rightarrow> il_track list \<Rightarrow> bool \<Rightarrow> av_packet list \<Rightarrow> av_packet list \<times> av_packet list" where
  "release L ts fl [] = ([], [])"
| "release L ts fl (k # q) =
     (if fl \<or> AllTracksBuffered ts (k # q) \<or> ExceedsDelta L (k # q)
      then let (out, rest) = release L ts fl q in (k # out, rest)
      else ([], k # q))"

definition all_tracks_seen :: "interleaver \<Rightarrow> bool" where
  "all_tracks_seen s \<longleftrightarrow> (\<forall>t \<in> set (tracks s). highest t \<noteq> None)"

definition PopReady :: "av_lib \<Rightarrow> bool \<Rightarrow> (interleaver, av_packet list) act" where
  "PopReady L fl =
     andthen (modify (\<lambda>s. if fl then s\<lparr>flushed := True\<rparr> else s)) (\<lambda>_.
     andthen (gets (\<lambda>s. \<not> fl \<and> \<not> initialized s \<and> \<not> all_tracks_seen s \<and> ExceedsDelta L (il_queue s)))
       (\<lambda>stalled.
     andthen (guard (\<not> stalled) Runtime_error) (\<lambda>_.
     andthen (modify (\<lambda>s. s\<lparr>initialized := initialized s \<or> fl \<or> all_tracks_seen s\<rparr>)) (\<lambda>_.
     andthen (gets initialized) (\<lambda>ini.
     if \<not> ini then ret []
     else andthen (gets (\<lambda>s. release L (tracks s) fl (il_queue s))) (\<lambda>r.
          andthen (modify (\<lambda>s. s\<lparr>il_queue := snd r\<rparr>)) (\<lambda>_.
          ret (fst r))))))))"

definition FirstPackets :: "interleaver \<Rightarrow> av_packet list" where
  "FirstPackets s =
     List.map_filter (\<lambda>t. List.find (\<lambda>k. pk_stream k = tr_index t) (il_queue s)) (tracks s)"

definition queued_packets :: "interleaver \<Rightarrow> nat" where
  "queued_packets s = length (il_queue s)"

section \<open>The exact order\<close>

text \<open>A packet's DTS in seconds, as a rational number, and its place in the merge order.\<close>

definition dts_key :: "av_packet \<Rightarrow> rat" where
  "dts_key k = of_int (pk_dts k * num (pk_time_base k)) / of_int (den (pk_time_base k))"

definition before :: "il_track list \<Rightarrow> av_packet \<Rightarrow> av_packet \<Rightarrow> bool" where
  "before ts k l \<longleftrightarrow>
     dts_key k < dts_key l \<or>
     (dts_key k = dts_key l \<and> TrackOrder ts (pk_stream k) \<le> TrackOrder ts (pk_stream l))"

lemma before_trans: "before ts a b \<Longrightarrow> before ts b c \<Longrightarrow> before ts a c"
  by (auto simp: before_def)

lemma before_refl [simp]: "before ts a a"
  by (simp add: before_def)

lemma before_total: "\<not> before ts a b \<Longrightarrow> before ts b a"
  by (auto simp: before_def)

lemma index_of_set_highest [simp]: "index_of i (set_highest j d ts) = index_of i ts"
  by (induction ts) auto

lemma before_set_highest [simp]: "before (set_highest j d ts) = before ts"
  by (intro ext) (simp add: before_def)

text \<open>
  A packet is regular for a set of streams when its time base is valid and its DTS fits 64 bits
  in the time base of every stream and conversely: the domain on which \<^verbatim>\<open>av_compare_ts\<close> is
  specified.
\<close>

definition regular :: "av_rational set \<Rightarrow> av_packet \<Rightarrow> bool" where
  "regular tbs k \<longleftrightarrow> i64 (pk_dts k) \<and> valid_tb (pk_time_base k) \<and> pk_time_base k \<in> tbs \<and>
     (\<forall>tb \<in> tbs. fits_in (pk_dts k) (pk_time_base k) tb)"

lemma key_less_iff:
  assumes "valid_tb (pk_time_base k)" "valid_tb (pk_time_base l)"
  shows "dts_key k < dts_key l \<longleftrightarrow>
      pk_dts k * num (pk_time_base k) * den (pk_time_base l) <
      pk_dts l * num (pk_time_base l) * den (pk_time_base k)"
    and "dts_key k = dts_key l \<longleftrightarrow>
      pk_dts k * num (pk_time_base k) * den (pk_time_base l) =
      pk_dts l * num (pk_time_base l) * den (pk_time_base k)"
proof -
  have pos: "(0::rat) < of_int (den (pk_time_base k))" "(0::rat) < of_int (den (pk_time_base l))"
    using assms by (simp_all add: valid_tb_def)
  show "dts_key k < dts_key l \<longleftrightarrow>
      pk_dts k * num (pk_time_base k) * den (pk_time_base l) <
      pk_dts l * num (pk_time_base l) * den (pk_time_base k)"
    using pos unfolding dts_key_def
    by (simp only: divide_less_eq less_divide_eq of_int_mult [symmetric] of_int_less_iff
        times_divide_eq_left if_True)
  show "dts_key k = dts_key l \<longleftrightarrow>
      pk_dts k * num (pk_time_base k) * den (pk_time_base l) =
      pk_dts l * num (pk_time_base l) * den (pk_time_base k)"
    using pos unfolding dts_key_def
    by (simp add: frac_eq_eq flip: of_int_mult)
qed

lemma precedes_iff:
  assumes "av_time L" "regular tbs k" "regular tbs l"
  shows "precedes L ts k l \<longleftrightarrow> \<not> before ts l k"
proof -
  have v: "valid_tb (pk_time_base k)" "valid_tb (pk_time_base l)"
    "i64 (pk_dts k)" "i64 (pk_dts l)"
    "fits_in (pk_dts k) (pk_time_base k) (pk_time_base l)"
    "fits_in (pk_dts l) (pk_time_base l) (pk_time_base k)"
    using assms(2,3) by (auto simp: regular_def)
  let ?c = "compare_ts L (pk_dts k) (pk_time_base k) (pk_dts l) (pk_time_base l)"
  have "?c < 0 \<longleftrightarrow> dts_key k < dts_key l" "?c = 0 \<longleftrightarrow> dts_key k = dts_key l"
    using av_time.compare_ts_less [OF assms(1) v(3,4,1,2,5,6)]
      av_time.compare_ts_eq [OF assms(1) v(3,4,1,2,5,6)] key_less_iff [OF v(1,2)] by auto
  then show ?thesis by (auto simp: precedes_def before_def Let_def)
qed

section \<open>Insertion and release\<close>

text \<open>
  Insertion at the upper bound, for any total preorder \<open>B\<close> of which \<open>precedes\<close> is the strict
  part on the elements at hand.
\<close>

lemma upper_split:
  assumes "sorted_wrt B q" and "\<And>a b c. B a b \<Longrightarrow> B b c \<Longrightarrow> B a c"
    and "\<And>a b. \<not> B a b \<Longrightarrow> B b a" and "\<forall>e \<in> set q. P e \<longleftrightarrow> \<not> B e k"
  shows "(\<forall>e \<in> set (takeWhile (\<lambda>e. \<not> P e) q). B e k) \<and>
    (\<forall>e \<in> set (dropWhile (\<lambda>e. \<not> P e) q). B k e \<and> (B e k \<longrightarrow> False))"
  using assms(1,4)
proof (induction q)
  case Nil
  then show ?case by simp
next
  case (Cons f q)
  show ?case
  proof (cases "P f")
    case False
    with Cons show ?thesis by auto
  next
    case True
    with Cons.prems(2) have f: "\<not> B f k" by simp
    have "\<not> B e k" if "e \<in> set (f # q)" for e
      using that Cons.prems(1) f assms(2) [of f e k] by auto
    then show ?thesis using True assms(3) by auto
  qed
qed

lemma upper_before:
  assumes "sorted_wrt (before ts) q" and "\<forall>e \<in> set q. precedes L ts k e \<longleftrightarrow> \<not> before ts e k"
  shows "(\<forall>e \<in> set (takeWhile (\<lambda>e. \<not> precedes L ts k e) q). before ts e k) \<and>
    (\<forall>e \<in> set (dropWhile (\<lambda>e. \<not> precedes L ts k e) q). before ts k e \<and> (before ts e k \<longrightarrow> False))"
  using before_trans before_total
  by (intro upper_split [where B = "before ts" and P = "precedes L ts k", OF assms(1) _ _ assms(2)]) blast+

lemma insert_upper_sorted:
  assumes "sorted_wrt (before ts) q" and "\<forall>e \<in> set q. precedes L ts k e \<longleftrightarrow> \<not> before ts e k"
  shows "sorted_wrt (before ts) (insert_upper L ts k q)"
proof -
  let ?A = "takeWhile (\<lambda>e. \<not> precedes L ts k e) q" and ?B = "dropWhile (\<lambda>e. \<not> precedes L ts k e) q"
  have "sorted_wrt (before ts) (?A @ ?B)" using assms(1) by simp
  then have "sorted_wrt (before ts) ?A" "sorted_wrt (before ts) ?B"
    "\<forall>x \<in> set ?A. \<forall>y \<in> set ?B. before ts x y"
    unfolding sorted_wrt_append by blast+
  moreover have "\<forall>e \<in> set ?A. before ts e k" "\<forall>e \<in> set ?B. before ts k e"
    using upper_before [OF assms] by blast+
  ultimately show ?thesis by (simp add: insert_upper_def sorted_wrt_append)
qed

lemma set_insert_upper [simp]: "set (insert_upper L ts k q) = insert k (set q)"
proof -
  have "set q = set (takeWhile (\<lambda>e. \<not> precedes L ts k e) q) \<union>
      set (dropWhile (\<lambda>e. \<not> precedes L ts k e) q)"
    by (metis set_append takeWhile_dropWhile_id)
  then show ?thesis by (auto simp: insert_upper_def)
qed

lemma filter_insert_upper:
  assumes "sorted_wrt (before ts) q" and "\<forall>e \<in> set q. precedes L ts k e \<longleftrightarrow> \<not> before ts e k"
    and "\<forall>e \<in> set q. pk_stream e = pk_stream k \<longrightarrow> before ts e k"
  shows "filter (\<lambda>e. pk_stream e = i) (insert_upper L ts k q) =
    filter (\<lambda>e. pk_stream e = i) q @ (if pk_stream k = i then [k] else [])"
proof -
  let ?A = "takeWhile (\<lambda>e. \<not> precedes L ts k e) q" and ?B = "dropWhile (\<lambda>e. \<not> precedes L ts k e) q"
  have q: "filter (\<lambda>e. pk_stream e = i) q =
      filter (\<lambda>e. pk_stream e = i) ?A @ filter (\<lambda>e. pk_stream e = i) ?B"
    by (metis filter_append takeWhile_dropWhile_id)
  have "filter (\<lambda>e. pk_stream e = i) ?B = []" if "pk_stream k = i"
    using upper_before [OF assms(1,2)] assms(3) that
    by (auto simp: filter_empty_conv dest: set_dropWhileD)
  then show ?thesis by (auto simp: insert_upper_def q)
qed

lemma release_append: "release L ts fl q = (out, rest) \<Longrightarrow> out @ rest = q"
  by (induction q arbitrary: out) (auto simp: Let_def split: if_splits prod.splits)

text \<open>
  The time window did not force a release: at every suffix where it is exceeded the track
  condition (or the flush) allowed the release anyway.
\<close>

definition window_idle :: "av_lib \<Rightarrow> il_track list \<Rightarrow> bool \<Rightarrow> av_packet list \<Rightarrow> bool" where
  "window_idle L ts fl q \<longleftrightarrow>
     (\<forall>n < length q. ExceedsDelta L (drop n q) \<longrightarrow> fl \<or> AllTracksBuffered ts (drop n q))"

lemma window_idle_Cons: "window_idle L ts fl (k # q) \<Longrightarrow> window_idle L ts fl q"
  unfolding window_idle_def by (auto dest: spec [where x = "Suc _"])

lemma release_buffered:
  assumes "release L ts False q = (out, rest)" and "window_idle L ts False q"
    and "sorted_wrt (before ts) q" and "k \<in> set out" and "t \<in> set ts"
  shows "\<exists>l \<in> set q. pk_stream l = tr_index t \<and> before ts k l"
  using assms(1-4)
proof (induction q arbitrary: out)
  case Nil
  then show ?case by simp
next
  case (Cons f q)
  from Cons.prems(1,4) obtain out' where
    go: "AllTracksBuffered ts (f # q) \<or> ExceedsDelta L (f # q)" and
    out': "release L ts False q = (out', rest)" "out = f # out'"
    by (auto simp: Let_def split: if_splits prod.splits)
  have all: "AllTracksBuffered ts (f # q)"
    using go Cons.prems(2) unfolding window_idle_def by (auto dest: spec [where x = 0])
  show ?case
  proof (cases "k = f")
    case True
    from all assms(5) obtain l where "l \<in> set (f # q)" "pk_stream l = tr_index t"
      by (auto simp: AllTracksBuffered_def)
    with True Cons.prems(3) show ?thesis by auto
  next
    case False
    with Cons out' window_idle_Cons [OF Cons.prems(2)] show ?thesis by auto
  qed
qed

section \<open>Sessions\<close>

text \<open>
  All histories of an interleaver: \<open>ps\<close> are the packets accepted so far, \<open>out\<close> those
  released, in order. Rejected operations keep whatever state they leave. With \<open>idle\<close> the
  ten-second window never forces a release.
\<close>

inductive merge_session ::
    "av_lib \<Rightarrow> stream_info list \<Rightarrow> av_rational set \<Rightarrow> bool \<Rightarrow>
     interleaver \<Rightarrow> av_packet list \<Rightarrow> av_packet list \<Rightarrow> bool"
  for L ss tbs idle where
  start: "PacketInterleaver ss = Inr s \<Longrightarrow> merge_session L ss tbs idle s [] []"
| push: "merge_session L ss tbs idle s ps out \<Longrightarrow> regular tbs k \<Longrightarrow> Push L (Some k) s = (Inr (), s') \<Longrightarrow>
    merge_session L ss tbs idle s' (ps @ [k]) out"
| push_fail: "merge_session L ss tbs idle s ps out \<Longrightarrow> Push L p s = (Inl e, s') \<Longrightarrow>
    merge_session L ss tbs idle s' ps out"
| pop: "merge_session L ss tbs idle s ps out \<Longrightarrow> PopReady L fl s = (Inr ks, s') \<Longrightarrow>
    (idle \<Longrightarrow> window_idle L (tracks s) fl (il_queue s)) \<Longrightarrow>
    merge_session L ss tbs idle s' ps (out @ ks)"
| pop_fail: "merge_session L ss tbs idle s ps out \<Longrightarrow> PopReady L fl s = (Inl e, s') \<Longrightarrow>
    merge_session L ss tbs idle s' ps out"

text \<open>What one successful or failed operation does to the state.\<close>

lemma Push_wp:
  "wp (Push L p) (\<lambda>_ t. \<exists>k. p = Some k \<and> \<not> flushed s \<and>
        Validate_packet L (tc_streams (validation s)) p = Inr () \<and>
        (\<forall>t h. List.find (\<lambda>t. tr_index t = pk_stream k) (tracks s) = Some t \<longrightarrow>
               highest t = Some h \<longrightarrow> h \<le> pk_dts k) \<and>
        t = s\<lparr>il_queue := insert_upper L (tracks s) k (il_queue s),
              tracks := set_highest (pk_stream k) (pk_dts k) (tracks s)\<rparr>)
     (\<lambda>e t. t = s) s"
  unfolding Push_def
  by (cases p) (auto simp: wp_eqs Let_def Validate_packet_def split: Option.bind_splits option.splits)

lemma PopReady_wp:
  "wp (PopReady L fl)
     (\<lambda>ks t. \<exists>out rest. (out, rest) =
          (if initialized s \<or> fl \<or> all_tracks_seen s then release L (tracks s) fl (il_queue s)
           else ([], il_queue s)) \<and> ks = out \<and>
        t = s\<lparr>il_queue := rest, initialized := initialized s \<or> fl \<or> all_tracks_seen s,
              flushed := flushed s \<or> fl\<rparr>)
     (\<lambda>e t. t = s) s"
  unfolding PopReady_def
  by (auto simp: wp_eqs all_tracks_seen_def prod_eq_iff)

section \<open>The session invariant\<close>

definition rate :: "av_rational \<Rightarrow> rat" where
  "rate tb = of_int (num tb) / of_int (den tb)"

lemma rate_pos: "valid_tb tb \<Longrightarrow> 0 < rate tb"
  by (simp add: rate_def valid_tb_def)

lemma rate_eq: "valid_tb a \<Longrightarrow> valid_tb b \<Longrightarrow> rate a = rate b \<longleftrightarrow> num a * den b = num b * den a"
  unfolding rate_def by (simp add: valid_tb_def frac_eq_eq flip: of_int_mult)

lemma dts_key_rate: "dts_key k = of_int (pk_dts k) * rate (pk_time_base k)"
  by (simp add: dts_key_def rate_def)

text \<open>Within one stream the integer DTS decides.\<close>

lemma same_stream_before:
  assumes "pk_stream k = pk_stream l" "rate (pk_time_base k) = rate (pk_time_base l)"
    and "valid_tb (pk_time_base k)" "pk_dts k \<le> pk_dts l"
  shows "before ts k l"
  using assms rate_pos [of "pk_time_base k"]
  by (auto simp: before_def dts_key_rate mult_right_mono order.order_iff_strict)

lemma set_highest_maps [simp]:
  "map tr_index (set_highest i d ts) = map tr_index ts"
  "map tr_time_base (set_highest i d ts) = map tr_time_base ts"
  by (induction ts) auto

lemma set_highest_mem:
  "distinct (map tr_index ts) \<Longrightarrow> t \<in> set (set_highest i d ts) \<longleftrightarrow>
    (t \<in> set ts \<and> tr_index t \<noteq> i) \<or> (\<exists>u \<in> set ts. tr_index u = i \<and> t = u\<lparr>highest := Some d\<rparr>)"
  by (induction ts) (auto 4 4 simp: image_iff)

lemma find_track:
  "distinct (map tr_index ts) \<Longrightarrow> t \<in> set ts \<Longrightarrow> List.find (\<lambda>t. tr_index t = i) ts = Some t \<longleftrightarrow> tr_index t = i"
  by (induction ts) (auto simp: image_iff dest: find_Some_in)

text \<open>A packet belongs to a track: index and exact time-base ratio agree.\<close>

definition belongs :: "av_packet \<Rightarrow> il_track \<Rightarrow> bool" where
  "belongs k t \<longleftrightarrow> tr_index t = pk_stream k \<and> rate (pk_time_base k) = rate (tr_time_base t)"

lemma belongs_highest [simp]: "belongs k (t\<lparr>highest := d\<rparr>) = belongs k t"
  by (simp add: belongs_def)

definition tracks_inv :: "stream_info list \<Rightarrow> interleaver \<Rightarrow> bool" where
  "tracks_inv ss s \<longleftrightarrow> tc_streams (validation s) = ss \<and> map tr_index (tracks s) = map si_index ss \<and>
     map tr_time_base (tracks s) = map si_time_base ss \<and> distinct (map si_index ss) \<and>
     (\<forall>x \<in> set ss. valid_tb (si_time_base x))"

definition history_inv :: "av_rational set \<Rightarrow> interleaver \<Rightarrow> av_packet list \<Rightarrow> av_packet list \<Rightarrow> bool" where
  "history_inv tbs s ps out \<longleftrightarrow>
     (\<forall>k \<in> set ps. regular tbs k \<and>
        (\<exists>t \<in> set (tracks s). belongs k t \<and> (\<exists>h. highest t = Some h \<and> pk_dts k \<le> h))) \<and>
     (\<forall>i. filter (\<lambda>k. pk_stream k = i) ps = filter (\<lambda>k. pk_stream k = i) (out @ il_queue s)) \<and>
     sorted_wrt (before (tracks s)) (il_queue s)"

definition merge_inv :: "interleaver \<Rightarrow> av_packet list \<Rightarrow> av_packet list \<Rightarrow> bool" where
  "merge_inv s ps out \<longleftrightarrow>
     sorted_wrt (before (tracks s)) (out @ il_queue s) \<and>
     (flushed s \<or> (\<forall>k \<in> set out. \<forall>t \<in> set (tracks s). \<exists>l \<in> set ps.
        pk_stream l = tr_index t \<and> before (tracks s) k l))"

lemma add_tracks_maps:
  "add_tracks ts ss = Inr ts' \<Longrightarrow> map tr_index ts' = map tr_index ts @ map si_index ss \<and>
    map tr_time_base ts' = map tr_time_base ts @ map si_time_base ss"
  by (induction ss arbitrary: ts) (auto split: if_splits)

lemma start_inv:
  assumes "PacketInterleaver ss = Inr s"
  shows "tracks_inv ss s \<and> history_inv tbs s [] [] \<and> merge_inv s [] []"
proof -
  from assms obtain v ts where v: "MediaTimestampConverter ss = Inr v" and ts: "add_tracks [] ss = Inr ts"
    and s: "s = \<lparr>validation = v, tracks = ts, il_queue = [], initialized = False, flushed = False\<rparr>"
    by (auto simp: PacketInterleaver_def)
  from v have c: "check_streams [] ss = Inr ()" and vs: "tc_streams v = ss"
    by (auto simp: MediaTimestampConverter_def split: if_splits)
  from check_streams_ok [OF c] add_tracks_maps [OF ts] s vs show ?thesis
    by (auto simp: tracks_inv_def history_inv_def merge_inv_def dest: StreamInfo_Validate_valid)
qed

lemma mem_filter_eq:
  assumes "\<And>i. filter (\<lambda>k. pk_stream k = i) ps = filter (\<lambda>k. pk_stream k = i) qs"
  shows "set ps = set qs"
proof -
  have "k \<in> set ps \<longleftrightarrow> k \<in> set qs" for k
  proof -
    have "k \<in> set xs \<longleftrightarrow> k \<in> set (filter (\<lambda>l. pk_stream l = pk_stream k) xs)" for xs by simp
    then show ?thesis using assms [of "pk_stream k"] by metis
  qed
  then show ?thesis by blast
qed

text \<open>An accepted packet belongs to a track and does not step behind its watermark.\<close>

lemma Push_accepts:
  assumes "av_time L" and "tracks_inv ss s" and "Push L (Some k) s = (Inr (), s')"
  obtains t where "t \<in> set (tracks s)" "belongs k t" "\<And>h. highest t = Some h \<Longrightarrow> h \<le> pk_dts k"
    "s' = s\<lparr>il_queue := insert_upper L (tracks s) k (il_queue s),
           tracks := set_highest (pk_stream k) (pk_dts k) (tracks s)\<rparr>" "\<not> flushed s"
proof -
  from wp_InrD [OF Push_wp assms(3)] have
    a: "Validate_packet L (tc_streams (validation s)) (Some k) = Inr ()" "\<not> flushed s"
    and w: "\<And>t h. List.find (\<lambda>t. tr_index t = pk_stream k) (tracks s) = Some t \<Longrightarrow>
        highest t = Some h \<Longrightarrow> h \<le> pk_dts k"
    and s': "s' = s\<lparr>il_queue := insert_upper L (tracks s) k (il_queue s),
           tracks := set_highest (pk_stream k) (pk_dts k) (tracks s)\<rparr>"
    by auto
  from Validate_packetD [OF a(1)] assms(2) obtain x where x: "x \<in> set ss" "si_index x = pk_stream k"
    "cmp_q L (pk_time_base k) (si_time_base x) = 0" "valid_tb (pk_time_base k)" "valid_tb (si_time_base x)"
    by (auto simp: tracks_inv_def)
  then obtain n where n: "n < length ss" "ss ! n = x" by (auto simp: in_set_conv_nth)
  have len: "length (tracks s) = length ss"
    using assms(2) by (auto simp: tracks_inv_def dest: map_eq_imp_length_eq)
  let ?t = "tracks s ! n"
  have t: "?t \<in> set (tracks s)" using n len by simp
  have "tr_index ?t = si_index x" "tr_time_base ?t = si_time_base x"
    using assms(2) n len by (auto simp: tracks_inv_def dest: arg_cong [where f = "\<lambda>l. l ! n"])
  then have b: "belongs k ?t"
    using x av_time.cmp_q_zero [OF assms(1) x(4,5)] rate_eq [OF x(4,5)] by (simp add: belongs_def)
  have "List.find (\<lambda>t. tr_index t = pk_stream k) (tracks s) = Some ?t"
    using find_track [of "tracks s" ?t "pk_stream k"] t b assms(2) by (simp add: tracks_inv_def belongs_def)
  with w have "\<And>h. highest ?t = Some h \<Longrightarrow> h \<le> pk_dts k" by blast
  with t b s' a(2) that show ?thesis by blast
qed

lemma tracks_inv_distinct: "tracks_inv ss s \<Longrightarrow> distinct (map tr_index (tracks s))"
  by (simp add: tracks_inv_def)

lemma tracks_unique:
  "tracks_inv ss s \<Longrightarrow> t \<in> set (tracks s) \<Longrightarrow> u \<in> set (tracks s) \<Longrightarrow> tr_index t = tr_index u \<Longrightarrow> t = u"
  using tracks_inv_distinct by (auto simp: distinct_map inj_on_def)

lemma track_before:
  assumes "belongs k t" "belongs l t" "valid_tb (pk_time_base k)" "pk_dts k \<le> pk_dts l"
  shows "before ts k l"
  using assms by (intro same_stream_before) (simp_all add: belongs_def)

text \<open>Every packet seen so far of the pushed packet's track precedes it.\<close>

lemma history_before_push:
  assumes "tracks_inv ss s" "history_inv tbs s ps out" "t \<in> set (tracks s)" "belongs k t"
    and "\<And>h. highest t = Some h \<Longrightarrow> h \<le> pk_dts k" and "e \<in> set ps" "pk_stream e = pk_stream k"
  shows "before ts e k"
proof -
  from assms(2,6) obtain u h where u: "u \<in> set (tracks s)" "belongs e u" "highest u = Some h"
    "pk_dts e \<le> h" and r: "regular tbs e"
    unfolding history_inv_def by blast
  have "u = t" using tracks_unique [OF assms(1) u(1) assms(3)] u(2) assms(4,7) by (simp add: belongs_def)
  with u assms(4,5) r show ?thesis
    by (intro track_before [of e t k]) (auto simp: regular_def intro: order_trans)
qed

lemma push_tracks_inv:
  assumes "tracks_inv ss s"
  shows "tracks_inv ss (s\<lparr>il_queue := q, tracks := set_highest i d (tracks s)\<rparr>)"
  using assms by (simp add: tracks_inv_def)

lemma push_history_inv:
  assumes "av_time L" "tracks_inv ss s" "history_inv tbs s ps out" "regular tbs k"
    and "Push L (Some k) s = (Inr (), s')"
  shows "history_inv tbs s' (ps @ [k]) out"
proof -
  obtain t where t: "t \<in> set (tracks s)" "belongs k t" "\<And>h. highest t = Some h \<Longrightarrow> h \<le> pk_dts k"
    and s': "s' = s\<lparr>il_queue := insert_upper L (tracks s) k (il_queue s),
           tracks := set_highest (pk_stream k) (pk_dts k) (tracks s)\<rparr>"
    using Push_accepts [OF assms(1,2,5)] by metis
  have ps: "set ps = set (out @ il_queue s)"
    using assms(3) by (intro mem_filter_eq) (simp add: history_inv_def)
  then have qreg: "\<forall>e \<in> set (il_queue s). regular tbs e"
    using assms(3) by (auto simp: history_inv_def)
  then have prec: "\<forall>e \<in> set (il_queue s). precedes L (tracks s) k e \<longleftrightarrow> \<not> before (tracks s) e k"
    using precedes_iff [OF assms(1,4)] by blast
  have stream: "\<forall>e \<in> set ps. pk_stream e = pk_stream k \<longrightarrow> before (tracks s) e k"
    using history_before_push [OF assms(2,3) t] by blast
  have dist: "distinct (map tr_index (tracks s))" by (rule tracks_inv_distinct [OF assms(2)])
  have sorted: "sorted_wrt (before (tracks s)) (il_queue s)" using assms(3) by (simp add: history_inv_def)
  have marks: "\<exists>t \<in> set (set_highest (pk_stream k) (pk_dts k) (tracks s)).
      belongs e t \<and> (\<exists>h. highest t = Some h \<and> pk_dts e \<le> h)" if "e \<in> set (ps @ [k])" for e
  proof (cases "e \<in> set ps")
    case True
    with assms(3) obtain u h where u: "u \<in> set (tracks s)" "belongs e u" "highest u = Some h" "pk_dts e \<le> h"
      unfolding history_inv_def by blast
    show ?thesis
    proof (cases "tr_index u = pk_stream k")
      case True
      then have "u = t" using tracks_unique [OF assms(2) u(1) t(1)] t(2) by (simp add: belongs_def)
      with u t(3) have "pk_dts e \<le> pk_dts k" by force
      with u True show ?thesis
        by (intro bexI [of _ "u\<lparr>highest := Some (pk_dts k)\<rparr>"]) (auto simp: set_highest_mem [OF dist])
    qed (use u in \<open>auto simp: set_highest_mem [OF dist]\<close>)
  next
    case False
    with that have "e = k" by simp
    with t(1,2) show ?thesis
      by (intro bexI [of _ "t\<lparr>highest := Some (pk_dts k)\<rparr>"])
        (auto simp: set_highest_mem [OF dist] belongs_def)
  qed
  have split: "filter (\<lambda>k. pk_stream k = i) (ps @ [k]) =
      filter (\<lambda>k. pk_stream k = i) (out @ insert_upper L (tracks s) k (il_queue s))" for i
    using assms(3) filter_insert_upper [OF sorted prec] stream ps by (simp add: history_inv_def)
  show ?thesis
    unfolding history_inv_def s'
    using marks split insert_upper_sorted [OF sorted prec] assms(3,4) by (auto simp: history_inv_def)
qed

lemma push_merge_inv:
  assumes "av_time L" "tracks_inv ss s" "history_inv tbs s ps out" "merge_inv s ps out" "regular tbs k"
    and "Push L (Some k) s = (Inr (), s')"
  shows "merge_inv s' (ps @ [k]) out"
proof -
  obtain t where t: "t \<in> set (tracks s)" "belongs k t" "\<And>h. highest t = Some h \<Longrightarrow> h \<le> pk_dts k"
    and s': "s' = s\<lparr>il_queue := insert_upper L (tracks s) k (il_queue s),
           tracks := set_highest (pk_stream k) (pk_dts k) (tracks s)\<rparr>" and fl: "\<not> flushed s"
    using Push_accepts [OF assms(1,2,6)] by metis
  have q: "sorted_wrt (before (tracks s)) (insert_upper L (tracks s) k (il_queue s))"
    using push_history_inv [OF assms(1,2,3,5,6)] by (simp add: history_inv_def s')
  have new: "before (tracks s) e k" if "e \<in> set out" for e
  proof -
    from assms(4) fl that t(1) obtain l where l: "l \<in> set ps" "pk_stream l = tr_index t" "before (tracks s) e l"
      unfolding merge_inv_def by blast
    then have "before (tracks s) l k"
      using history_before_push [OF assms(2,3) t] t(2) by (simp add: belongs_def)
    with l show ?thesis by (blast intro: before_trans)
  qed
  have "\<forall>k' \<in> set out. \<forall>u \<in> set (set_highest (pk_stream k) (pk_dts k) (tracks s)).
      \<exists>l \<in> set (ps @ [k]). pk_stream l = tr_index u \<and> before (tracks s) k' l"
    using assms(4) fl by (fastforce simp: merge_inv_def set_highest_mem [OF tracks_inv_distinct [OF assms(2)]])
  with assms(4) q new show ?thesis by (auto simp: merge_inv_def s' sorted_wrt_append)
qed

lemma pop_invs:
  assumes "tracks_inv ss s" "history_inv tbs s ps out" "PopReady L fl s = (Inr ks, s')"
  shows "tracks_inv ss s' \<and> history_inv tbs s' ps (out @ ks) \<and>
    (window_idle L (tracks s) fl (il_queue s) \<longrightarrow> merge_inv s ps out \<longrightarrow> merge_inv s' ps (out @ ks))"
proof -
  from wp_InrD [OF PopReady_wp assms(3)] obtain rest where
    r: "(ks, rest) = (if initialized s \<or> fl \<or> all_tracks_seen s
          then release L (tracks s) fl (il_queue s) else ([], il_queue s))"
    and s': "s' = s\<lparr>il_queue := rest, initialized := initialized s \<or> fl \<or> all_tracks_seen s,
              flushed := flushed s \<or> fl\<rparr>"
    by auto
  have app: "ks @ rest = il_queue s"
    using r by (auto dest: release_append [OF sym] split: if_splits)
  have ps: "set ps = set (out @ il_queue s)"
    using assms(2) by (intro mem_filter_eq) (simp add: history_inv_def)
  have "\<exists>l \<in> set ps. pk_stream l = tr_index t \<and> before (tracks s) k l"
    if "window_idle L (tracks s) fl (il_queue s)" "\<not> fl" "k \<in> set ks" "t \<in> set (tracks s)" for k t
  proof -
    have "release L (tracks s) False (il_queue s) = (ks, rest)"
      using r that(2,3) by (auto split: if_splits)
    from release_buffered [OF this _ _ that(3,4)] that(1,2) assms(2) ps show ?thesis
      by (auto simp: history_inv_def)
  qed
  then have "merge_inv s' ps (out @ ks)"
    if "window_idle L (tracks s) fl (il_queue s)" "merge_inv s ps out"
    using that by (auto simp: merge_inv_def s' app)
  moreover have "sorted_wrt (before (tracks s)) rest"
    using assms(2) app [symmetric] by (auto simp: history_inv_def sorted_wrt_append)
  ultimately show ?thesis
    using assms(1,2) app by (auto simp: tracks_inv_def history_inv_def s')
qed

lemma session_invs:
  assumes "av_time L" "merge_session L ss tbs idle s ps out"
  shows "tracks_inv ss s \<and> history_inv tbs s ps out \<and> (idle \<longrightarrow> merge_inv s ps out)"
  using assms(2)
proof (induction rule: merge_session.induct)
  case (start s)
  then show ?case using start_inv by blast
next
  case (push s ps out k s')
  obtain t where "s' = s\<lparr>il_queue := insert_upper L (tracks s) k (il_queue s),
           tracks := set_highest (pk_stream k) (pk_dts k) (tracks s)\<rparr>"
    using Push_accepts [OF assms(1) _ push(3)] push.IH by metis
  then have "tracks_inv ss s'" using push.IH push_tracks_inv by simp
  then show ?case
    using push push_history_inv [OF assms(1)] push_merge_inv [OF assms(1)] by blast
next
  case (push_fail s ps out p e s')
  then show ?case using wp_InlD [OF Push_wp push_fail(2)] by simp
next
  case (pop s ps out fl ks s')
  then show ?case using pop_invs by blast
next
  case (pop_fail s ps out fl e s')
  then show ?case using wp_InlD [OF PopReady_wp pop_fail(2)] by simp
qed

lemma release_flush: "release L ts True q = (q, [])"
  by (induction q) (simp_all add: Let_def)

text \<open>The unsigned distance in \<open>ExceedsDelta\<close> is the true one.\<close>

lemma ExceedsDelta_iff:
  assumes "av_time L" "2 \<le> length q" "\<forall>k \<in> set q. i64 (pk_dts k) \<and> valid_tb (pk_time_base k)"
  shows "ExceedsDelta L q \<longleftrightarrow>
    10000000 < rescale_q L (pk_dts (last q)) (pk_time_base (last q)) kMicroseconds -
               rescale_q L (pk_dts (hd q)) (pk_time_base (hd q)) kMicroseconds"
proof -
  let ?f = "rescale_q L (pk_dts (hd q)) (pk_time_base (hd q)) kMicroseconds"
  let ?l = "rescale_q L (pk_dts (last q)) (pk_time_base (last q)) kMicroseconds"
  have "q \<noteq> []" using assms(2) by auto
  then have r: "i64 ?f" "i64 ?l"
    using assms(3) by (auto intro!: av_time.rescale_i64 [OF assms(1)] simp del: i64_iff)
  have "uint (to_u64 ?l - to_u64 ?f) = ?l - ?f" if "?f < ?l"
    using unat_u64_diff [OF r(2,1)] that by simp
  then show ?thesis
    using assms(2) by (auto simp: ExceedsDelta_def Let_def word_less_def)
qed

section \<open>Properties\<close>

definition sample_tbs :: "av_rational set" where
  "sample_tbs = {avq 1 25, avq 1 48000}"

definition sample_il :: "interleaver \<Rightarrow> bool" where
  "sample_il s \<longleftrightarrow> merge_session ref_lib sample_streams sample_tbs True s
     [sample_video 1, sample_audio 480] [sample_audio 480, sample_video 1]"

lemma sample_regular: "regular sample_tbs (sample_video 1)" "regular sample_tbs (sample_audio 480)"
  by (simp_all add: regular_def sample_tbs_def sample_packet_defs fits_in_def rescale_num_def
      rescale_den_def)

text \<open>A session of the two sample tracks: one packet each, then a flush.\<close>

lemma sample_session: "\<exists>s. sample_il s"
proof -
  let ?ts = "[\<lparr>tr_index = 0, tr_type = Media_video, tr_time_base = avq 1 25, highest = None\<rparr>,
              \<lparr>tr_index = 1, tr_type = Media_audio, tr_time_base = avq 1 48000, highest = None\<rparr>]"
  let ?s0 = "\<lparr>validation = \<lparr>tc_streams = sample_streams, shift_ms = None\<rparr>, tracks = ?ts,
             il_queue = [], initialized = False, flushed = False\<rparr>"
  let ?v = "sample_video 1" and ?a = "sample_audio 480"
  have 0: "PacketInterleaver sample_streams = Inr ?s0"
    by (simp add: PacketInterleaver_def MediaTimestampConverter_def sample_streams_def
        StreamInfo_Validate_def)
  have 1: "\<exists>s1. Push ref_lib (Some ?v) ?s0 = (Inr (), s1) \<and> il_queue s1 = [?v] \<and>
      tracks s1 = set_highest 0 1 ?ts \<and> \<not> flushed s1 \<and> validation s1 = validation ?s0"
    by (simp add: Push_def act_defs Let_def Validate_packet_def sample_packet_defs insert_upper_def)
  then obtain s1 where s1: "Push ref_lib (Some ?v) ?s0 = (Inr (), s1)" "il_queue s1 = [?v]"
    "tracks s1 = set_highest 0 1 ?ts" "\<not> flushed s1" "validation s1 = validation ?s0" by blast
  have "\<exists>s2. Push ref_lib (Some ?a) s1 = (Inr (), s2) \<and> il_queue s2 = [?a, ?v]"
    using s1 by (simp add: Push_def act_defs Let_def Validate_packet_def sample_packet_defs
        insert_upper_def precedes_def ref_compare_ts_def)
  then obtain s2 where s2: "Push ref_lib (Some ?a) s1 = (Inr (), s2)" "il_queue s2 = [?a, ?v]" by blast
  have "\<exists>s3. PopReady ref_lib True s2 = (Inr [?a, ?v], s3)"
    using s2 by (simp add: PopReady_def act_defs release_flush)
  then obtain s3 where s3: "PopReady ref_lib True s2 = (Inr [?a, ?v], s3)" by blast
  have "merge_session ref_lib sample_streams sample_tbs True s3 (([] @ [?v]) @ [?a]) ([] @ [?a, ?v])"
    by (rule merge_session.pop [OF merge_session.push [OF merge_session.push [OF merge_session.start [OF 0]
          sample_regular(1) s1(1)] sample_regular(2) s2(1)] s3]) (simp add: window_idle_def)
  then show ?thesis by (auto simp: sample_il_def)
qed

text \<open>
  no packet is lost, duplicated or reordered within its track: at every moment the accepted
  packets of a track are those released followed by those still queued, in the order of
  acceptance.
\<close>

theorem merge_conserves:
  assumes "av_time L" and "merge_session L ss tbs idle s ps out"
  shows "filter (\<lambda>k. pk_stream k = i) ps = filter (\<lambda>k. pk_stream k = i) (out @ il_queue s)"
  using session_invs [OF assms] by (simp add: history_inv_def)

theorem merge_conserves_witness:
  "\<exists>s :: interleaver. filter (\<lambda>k. pk_stream k = 1) [sample_video 1, sample_audio 480] =
    filter (\<lambda>k. pk_stream k = 1) ([sample_audio 480, sample_video 1] @ il_queue s)"
proof -
  obtain s where "sample_il s" using sample_session by blast
  from merge_conserves [OF ref_time.av_time_axioms this [unfolded sample_il_def], of 1]
  show ?thesis by (rule exI)
qed

text \<open>
  C9: as long as the ten-second window does not force a release, the whole output of a session
  is one merge in exact DTS order, ties in track order, across all calls; what is still queued
  continues it.
\<close>

theorem merge_sorted:
  assumes "av_time L" and "merge_session L ss tbs True s ps out"
  shows "sorted_wrt (before (tracks s)) (out @ il_queue s)"
  using session_invs [OF assms] by (simp add: merge_inv_def)

theorem merge_sorted_witness:
  "\<exists>s. sample_il s \<and> before (tracks s) (sample_audio 480) (sample_video 1)"
proof -
  obtain s where s: "sample_il s" using sample_session by blast
  from merge_sorted [OF ref_time.av_time_axioms s [unfolded sample_il_def]] s show ?thesis by auto
qed

text \<open>
  startup and flush. Until every track has delivered a packet nothing is released and
  nothing is lost: the call returns no packet, or reports the missing track when the queue
  spans more than the window. A flush always succeeds, returns the whole queue in order and
  leaves it empty; afterwards \<open>Push\<close> is refused with the queue unchanged.
\<close>

theorem startup_and_flush:
  shows "(\<not> initialized s \<and> \<not> all_tracks_seen s \<longrightarrow>
      fst (PopReady L False s) =
        (if ExceedsDelta L (il_queue s) then Inl Runtime_error else Inr []) \<and>
      il_queue (snd (PopReady L False s)) = il_queue s) \<and>
    (\<exists>t. PopReady L True s = (Inr (il_queue s), t) \<and> il_queue t = [] \<and>
      Push L p t = (Inl Logic_error, t))"
  by (simp add: PopReady_def Push_def act_defs release_flush all_tracks_seen_def)

theorem startup_and_flush_witness:
  "let s = \<lparr>validation = \<lparr>tc_streams = sample_streams, shift_ms = None\<rparr>,
      tracks = [\<lparr>tr_index = 0, tr_type = Media_video, tr_time_base = avq 1 25, highest = None\<rparr>],
      il_queue = [sample_video 0], initialized = False, flushed = False\<rparr>
   in fst (PopReady ref_lib False s) = Inr []"
proof -
  let ?s = "\<lparr>validation = \<lparr>tc_streams = sample_streams, shift_ms = None\<rparr>,
      tracks = [\<lparr>tr_index = 0, tr_type = Media_video, tr_time_base = avq 1 25, highest = None\<rparr>],
      il_queue = [sample_video 0], initialized = False, flushed = False\<rparr>"
  show ?thesis
    using startup_and_flush [of ?s ref_lib None]
    by (simp add: all_tracks_seen_def ExceedsDelta_def Let_def)
qed

end
