(* ===== verification/Syncer_Timing.thy ===== *)
theory Syncer_Timing
  imports Av_Model
begin

text \<open>
  \<^verbatim>\<open>syncer/syncer_timing.cc\<close>: the passive continuity state of a live session. Two tracks share
  a media clock and a time shift. Each \<open>Step\<close> either passes the caller's head frame on with a
  corrected timestamp, emits one replacement frame, or tells the caller when to come back.

  State: \<open>ContinuityClock\<close> is \<open>clock\<close>, \<open>Track\<close> is \<open>track\<close>, \<open>SyncerTiming::Impl\<close> is \<open>syncer\<close>.
  The fields \<^verbatim>\<open>extrapolating_\<close>, \<^verbatim>\<open>timed_out\<close> and \<^verbatim>\<open>output_source\<close> only select log messages and
  are left out, as is the logging itself. Dereferences of empty optionals are explicit
  (\<open>deref\<close>).
\<close>

section \<open>Configuration and state\<close>

record encoder_config =
  ec_width :: int
  ec_height :: int
  ec_fps :: av_rational
  ec_pixel_format :: int
  ec_sample_rate :: int
  ec_sample_format :: int
  ec_layout :: channel_layout

record syncer_options =
  initial_timeout :: int
  timeout :: int
  freeze :: int
  max_streams_diff :: int
  start_ts :: int
  forward_start_shift :: bool

record syncer_config =
  encoder :: encoder_config
  backup_video :: "av_frame option"
  options :: syncer_options

record clock =
  ck_start :: int
  ck_pts :: "int option"
  ck_wall :: int
  ck_shift :: "int option"

record track =
  time_base :: av_rational
  next_pts :: "int option"
  shift :: "int option"
  last_real :: "av_frame option"
  last_real_pts :: int
  last_success :: bool
  has_output :: bool
  wait_until :: int
  try_without_filling :: bool
  fill_until :: "int option"
  forward_fill :: bool
  filled :: int
  filled_us :: int
  pending_real_pts :: "int option"
  suspended_until :: int

record syncer =
  config :: syncer_config
  clk :: clock
  video_track :: track
  audio_track :: track

record syncer_step =
  st_consumed :: bool
  st_frame :: "av_frame option"
  st_wake_us :: int
  st_blocked :: bool

type_synonym on_output = "(av_frame \<Rightarrow> bool result) option"

definition track_of :: "bool \<Rightarrow> syncer \<Rightarrow> track" where
  "track_of v s = (if v then video_track s else audio_track s)"

definition upd_track :: "bool \<Rightarrow> (track \<Rightarrow> track) \<Rightarrow> syncer \<Rightarrow> syncer" where
  "upd_track v f s =
     (if v then s\<lparr>video_track := f (video_track s)\<rparr> else s\<lparr>audio_track := f (audio_track s)\<rparr>)"

definition getT :: "bool \<Rightarrow> (track \<Rightarrow> 'a) \<Rightarrow> (syncer, 'a) act" where
  "getT v f = gets (\<lambda>s. f (track_of v s))"

definition setT :: "bool \<Rightarrow> (track \<Rightarrow> track) \<Rightarrow> (syncer, unit) act" where
  "setT v f = modify (upd_track v f)"

section \<open>Checked arithmetic\<close>

definition kPollUs :: int where "kPollUs = 22000"

definition Add :: "int \<Rightarrow> int \<Rightarrow> int result" where
  "Add a b =
     (if (0 < b \<and> i64_max - b < a) \<or> (b < 0 \<and> a < i64_min - b) then Inl Overflow_error
      else Inr (a + b))"

definition Subtract :: "int \<Rightarrow> int \<Rightarrow> int result" where
  "Subtract a b = (if b = i64_min then Inl Overflow_error else Add a (- b))"

definition Rescale :: "av_lib \<Rightarrow> int \<Rightarrow> av_rational \<Rightarrow> av_rational \<Rightarrow> int result" where
  "Rescale L v from to =
     (let r = rescale_q L v from to
      in if r = AV_NOPTS_VALUE \<or> r = i64_max then Inl Overflow_error else Inr r)"

definition Apart :: "int \<Rightarrow> int \<Rightarrow> int \<Rightarrow> bool result" where
  "Apart a b tolerance = chain (Subtract a b) (\<lambda>d. Inr (tolerance \<le> d \<or> d \<le> - tolerance))"

definition ToUs :: "av_lib \<Rightarrow> int \<Rightarrow> track \<Rightarrow> int result" where
  "ToUs L v t = Rescale L v (time_base t) kMicroseconds"

definition FromUs :: "av_lib \<Rightarrow> int \<Rightarrow> track \<Rightarrow> int result" where
  "FromUs L v t = Rescale L v kMicroseconds (time_base t)"

section \<open>The shared media clock\<close>

definition Update_pure :: "int \<Rightarrow> int \<Rightarrow> clock \<Rightarrow> clock" where
  "Update_pure pts now c =
     (if ck_pts c = None \<or> the (ck_pts c) < pts then c\<lparr>ck_pts := Some pts, ck_wall := now\<rparr> else c)"

definition Clock_Update :: "int \<Rightarrow> int \<Rightarrow> (syncer, unit) act" where
  "Clock_Update pts now = modify (\<lambda>s. s\<lparr>clk := Update_pure pts now (clk s)\<rparr>)"

definition Clock_Now :: "int \<Rightarrow> (syncer, int) act" where
  "Clock_Now now =
     andthen (gets (ck_pts \<circ> clk)) (\<lambda>p.
     andthen (gets (ck_start \<circ> clk)) (\<lambda>start.
     andthen (if p = None then Clock_Update start now else ret ()) (\<lambda>_.
     andthen (gets clk) (\<lambda>c.
     andthen (lift (Subtract now (ck_wall c))) (\<lambda>elapsed.
     andthen (lift (deref (ck_pts c))) (\<lambda>pts.
     if elapsed < 2000000 then ret pts else lift (Add pts elapsed)))))))"

section \<open>Frames\<close>

definition Stamp :: "av_rational \<Rightarrow> int \<Rightarrow> int \<Rightarrow> av_frame \<Rightarrow> av_frame" where
  "Stamp tb pts d f =
     f\<lparr>fr_pts := pts, fr_best_effort := pts, fr_pkt_dts := AV_NOPTS_VALUE,
       fr_time_base := tb, fr_duration := d\<rparr>"

text \<open>A default-constructed \<^verbatim>\<open>AVFrame\<close>.\<close>

definition fresh_frame :: av_frame where
  "fresh_frame = \<lparr>fr_pts = AV_NOPTS_VALUE, fr_best_effort = AV_NOPTS_VALUE,
     fr_pkt_dts = AV_NOPTS_VALUE, fr_time_base = avq 0 1, fr_duration = 0, fr_width = 0,
     fr_height = 0, fr_format = - 1, fr_nb_samples = 0, fr_sample_rate = 0, fr_layout = 0,
     fr_has_data = False, fr_captions = False, fr_full_range = False, fr_buffers = 0\<rparr>"

definition BlackFrame :: "av_lib \<Rightarrow> encoder_config \<Rightarrow> av_frame result" where
  "BlackFrame L c =
     (if \<not> pix_fmt_known L (ec_pixel_format c) \<or> ec_width c \<le> 0 \<or> ec_height c \<le> 0
      then Inl Invalid_argument
      else (case alloc_video L (ec_pixel_format c) (ec_width c) (ec_height c) of
              None \<Rightarrow> Inl Ffmpeg_error
            | Some b \<Rightarrow> Inr (fresh_frame\<lparr>fr_width := ec_width c, fr_height := ec_height c,
                fr_format := ec_pixel_format c, fr_has_data := True,
                fr_full_range := pix_fmt_rgb L (ec_pixel_format c) \<or>
                  pix_fmt_yuvj L (ec_pixel_format c),
                fr_buffers := b\<rparr>)))"

definition VideoDuration :: "av_lib \<Rightarrow> syncer_config \<Rightarrow> av_rational \<Rightarrow> int result" where
  "VideoDuration L c tb =
     chain (Rescale L 1 (inv_q L (ec_fps (encoder c))) tb) (\<lambda>d.
     if d \<le> 0 then Inl Invalid_argument else Inr d)"

definition frame_duration :: "av_lib \<Rightarrow> bool \<Rightarrow> syncer_config \<Rightarrow> av_rational \<Rightarrow> av_frame \<Rightarrow> int result" where
  "frame_duration L v c tb f = (if v then VideoDuration L c tb else Inr (fr_nb_samples f))"

definition silence :: "av_lib \<Rightarrow> encoder_config \<Rightarrow> int \<Rightarrow> av_frame result" where
  "silence L c count =
     (let n = min 1024 count
      in case alloc_audio L (ec_sample_format c) (ec_sample_rate c) (ec_layout c) n of
           None \<Rightarrow> Inl Runtime_error
         | Some b \<Rightarrow> Inr (fresh_frame\<lparr>fr_format := ec_sample_format c,
             fr_sample_rate := ec_sample_rate c, fr_nb_samples := n, fr_layout := ec_layout c,
             fr_has_data := True, fr_buffers := b\<rparr>))"

definition use_frozen :: "av_lib \<Rightarrow> syncer_config \<Rightarrow> track \<Rightarrow> bool result" where
  "use_frozen L c t =
     (if last_real t = None then Inr False
      else chain (deref (next_pts t)) (\<lambda>n.
           chain (ToUs L n t) (\<lambda>a.
           chain (ToUs L (last_real_pts t) t) (\<lambda>b.
           chain (Subtract a b) (\<lambda>d. Inr (d < freeze (options c)))))))"

definition Backup :: "av_lib \<Rightarrow> bool \<Rightarrow> syncer_config \<Rightarrow> track \<Rightarrow> int \<Rightarrow> av_frame result" where
  "Backup L v c t count =
     (if v then chain (use_frozen L c t) (\<lambda>fz.
                deref (if fz then last_real t else backup_video c))
      else silence L (encoder c) count)"

definition emit :: "on_output \<Rightarrow> av_frame \<Rightarrow> (syncer, bool) act" where
  "emit out f = (case out of None \<Rightarrow> ret True | Some g \<Rightarrow> lift (g f))"

section \<open>Filling and adjusting\<close>

definition BeginFill :: "bool \<Rightarrow> int \<Rightarrow> bool \<Rightarrow> (syncer, unit) act" where
  "BeginFill v target forward =
     setT v (\<lambda>t. t\<lparr>fill_until := Some target, forward_fill := forward, filled := 0, filled_us := 0\<rparr>)"

definition Adjust :: "av_lib \<Rightarrow> bool \<Rightarrow> int \<Rightarrow> (syncer, unit) act" where
  "Adjust L v original =
     andthen (getT v next_pts) (\<lambda>n.
     andthen (lift (deref n)) (\<lambda>n.
     andthen (lift (Subtract n original)) (\<lambda>sh.
     andthen (setT v (\<lambda>t. t\<lparr>shift := Some sh\<rparr>)) (\<lambda>_.
     andthen (getT v (ToUs L sh)) (\<lambda>us.
     andthen (lift us) (\<lambda>us.
     modify (\<lambda>s. s\<lparr>clk := (clk s)\<lparr>ck_shift := Some us\<rparr>\<rparr>)))))))"

text \<open>\<^verbatim>\<open>input->frame->get()->pts\<close> rescaled; \<open>None\<close> is the null head.\<close>

definition original_pts :: "av_lib \<Rightarrow> bool \<Rightarrow> read_result option \<Rightarrow> (syncer, int) act" where
  "original_pts L v input =
     andthen (lift (deref input)) (\<lambda>i.
     andthen (lift (if has_frame (rr_frame i) then Inr () else Inl Undefined_behaviour)) (\<lambda>_.
     andthen (getT v time_base) (\<lambda>tb.
     lift (Rescale L (fr_pts (in_frame i)) (rr_time_base i) tb))))"

text \<open>C++ integer division by two.\<close>

definition half :: "int \<Rightarrow> int" where
  "half x = (if 0 \<le> x then x div 2 else - ((- x) div 2))"

definition FinishFill ::
    "av_lib \<Rightarrow> bool \<Rightarrow> read_result option \<Rightarrow> int \<Rightarrow> int \<Rightarrow> bool \<Rightarrow> (syncer, int) act" where
  "FinishFill L v input last_pts now blocked =
     andthen (getT v forward_fill) (\<lambda>fwd.
     andthen (getT v filled) (\<lambda>n.
     andthen
       (if fwd then
          andthen (if n = 5 \<or> blocked
                   then andthen (getT v (ToUs L last_pts)) (\<lambda>us.
                        andthen (lift us) (\<lambda>us. Clock_Update us now))
                   else ret ()) (\<lambda>_.
          andthen (original_pts L v input) (\<lambda>original.
          andthen (Adjust L v original) (\<lambda>_.
          andthen (setT v (\<lambda>t. t\<lparr>try_without_filling := True, pending_real_pts := next_pts t\<rparr>)) (\<lambda>_.
          andthen (getT v filled_us) (\<lambda>us.
          andthen (lift (if n = 5 \<and> \<not> blocked then Add now (max 1000 (half us)) else Inr now)) (\<lambda>wake.
          andthen (setT v (\<lambda>t. t\<lparr>suspended_until := wake\<rparr>)) (\<lambda>_.
          ret wake)))))))
        else
          andthen (if blocked then setT v (\<lambda>t. t\<lparr>wait_until := now\<rparr>) else ret ()) (\<lambda>_.
          getT v (\<lambda>t. if input \<noteq> None then now else wait_until t))) (\<lambda>wake.
     andthen (setT v (\<lambda>t. t\<lparr>fill_until := None\<rparr>)) (\<lambda>_.
     ret wake))))"

definition Fill ::
    "av_lib \<Rightarrow> bool \<Rightarrow> read_result option \<Rightarrow> int \<Rightarrow> on_output \<Rightarrow> (syncer, syncer_step) act" where
  "Fill L v input now out =
     andthen (getT v next_pts) (\<lambda>n.
     andthen (lift (deref n)) (\<lambda>pts.
     andthen (getT v fill_until) (\<lambda>u.
     andthen (lift (deref u)) (\<lambda>u.
     andthen (lift (Subtract u pts)) (\<lambda>count.
     andthen (gets config) (\<lambda>c.
     andthen (getT v (\<lambda>t. Backup L v c t count)) (\<lambda>b.
     andthen (lift b) (\<lambda>f.
     andthen (getT v time_base) (\<lambda>tb.
     andthen (lift (frame_duration L v c tb f)) (\<lambda>d.
     andthen (emit out (Stamp tb pts d f)) (\<lambda>accepted.
     if \<not> accepted then
       andthen (FinishFill L v input pts now True) (\<lambda>wake.
       ret \<lparr>st_consumed = False, st_frame = None, st_wake_us = wake, st_blocked = True\<rparr>)
     else
       andthen (lift (Add pts d)) (\<lambda>n.
       andthen (setT v (\<lambda>t. t\<lparr>next_pts := Some n, has_output := True, filled := filled t + 1\<rparr>)) (\<lambda>_.
       andthen (getT v (ToUs L d)) (\<lambda>us.
       andthen (lift us) (\<lambda>us.
       andthen (getT v filled_us) (\<lambda>total.
       andthen (lift (Add total us)) (\<lambda>total.
       andthen (setT v (\<lambda>t. t\<lparr>filled_us := total\<rparr>)) (\<lambda>_.
       andthen (getT v filled) (\<lambda>count.
       andthen (if u \<le> n \<or> count = 5 then FinishFill L v input pts now False else ret now) (\<lambda>wake.
       ret \<lparr>st_consumed = False, st_frame = Some (Stamp tb pts d f), st_wake_us = wake,
            st_blocked = False\<rparr>))))))))))))))))))))"

section \<open>Real frames\<close>

definition Real ::
    "av_lib \<Rightarrow> bool \<Rightarrow> read_result \<Rightarrow> int \<Rightarrow> int \<Rightarrow> on_output \<Rightarrow> (syncer, syncer_step) act" where
  "Real L v input pts now out =
     andthen (gets config) (\<lambda>c.
     andthen (getT v time_base) (\<lambda>tb.
     andthen (lift (frame_duration L v c tb (in_frame input))) (\<lambda>d.
     let f = Stamp tb pts d (in_frame input) in
     andthen (getT v (ToUs L pts)) (\<lambda>us.
     andthen (lift us) (\<lambda>us.
     andthen (Clock_Update us now) (\<lambda>_.
     andthen (emit out f) (\<lambda>accepted.
     if \<not> accepted
     then ret \<lparr>st_consumed = False, st_frame = None, st_wake_us = now, st_blocked = True\<rparr>
     else
       andthen (lift (Add pts d)) (\<lambda>n.
       andthen (setT v (\<lambda>t. t\<lparr>next_pts := Some n, has_output := True,
                            last_real := (if v then Some f else last_real t),
                            last_real_pts := pts, last_success := True\<rparr>)) (\<lambda>_.
       andthen (lift (Add now (timeout (options c)))) (\<lambda>w.
       andthen (setT v (\<lambda>t. t\<lparr>wait_until := w, pending_real_pts := None\<rparr>)) (\<lambda>_.
       ret \<lparr>st_consumed = True, st_frame = Some f, st_wake_us = now, st_blocked = False\<rparr>)))))))))))"

definition convert_opt ::
    "av_lib \<Rightarrow> av_rational \<Rightarrow> av_rational \<Rightarrow> int option \<Rightarrow> int option result" where
  "convert_opt L from to x =
     (case x of None \<Rightarrow> Inr None | Some v \<Rightarrow> chain (Rescale L v from to) (\<lambda>r. Inr (Some r)))"

definition ChangeTimeBase :: "av_lib \<Rightarrow> bool \<Rightarrow> av_rational \<Rightarrow> (syncer, unit) act" where
  "ChangeTimeBase L v tb =
     andthen (getT v (\<lambda>t. convert_opt L (time_base t) tb (next_pts t))) (\<lambda>r. andthen (lift r) (\<lambda>x.
     andthen (setT v (\<lambda>t. t\<lparr>next_pts := x\<rparr>)) (\<lambda>_.
     andthen (getT v (\<lambda>t. convert_opt L (time_base t) tb (shift t))) (\<lambda>r. andthen (lift r) (\<lambda>x.
     andthen (setT v (\<lambda>t. t\<lparr>shift := x\<rparr>)) (\<lambda>_.
     andthen (getT v (\<lambda>t. convert_opt L (time_base t) tb (fill_until t))) (\<lambda>r. andthen (lift r) (\<lambda>x.
     andthen (setT v (\<lambda>t. t\<lparr>fill_until := x\<rparr>)) (\<lambda>_.
     andthen (getT v (\<lambda>t. convert_opt L (time_base t) tb (pending_real_pts t))) (\<lambda>r. andthen (lift r) (\<lambda>x.
     andthen (setT v (\<lambda>t. t\<lparr>pending_real_pts := x\<rparr>)) (\<lambda>_.
     andthen (getT v (\<lambda>t. if last_real t = None then Inr (last_real_pts t)
                         else Rescale L (last_real_pts t) (time_base t) tb)) (\<lambda>r. andthen (lift r) (\<lambda>x.
     andthen (setT v (\<lambda>t. t\<lparr>last_real_pts := x\<rparr>)) (\<lambda>_.
     setT v (\<lambda>t. t\<lparr>time_base := tb\<rparr>))))))))))))))))"

text \<open>The first anchoring of the shared timeline: the frame is mapped to the media clock.\<close>

definition Anchor :: "av_lib \<Rightarrow> bool \<Rightarrow> int \<Rightarrow> int \<Rightarrow> (syncer, int) act" where
  "Anchor L v original now =
     andthen (Clock_Now now) (\<lambda>c.
     andthen (getT v (FromUs L c)) (\<lambda>r. andthen (lift r) (\<lambda>p.
     andthen (getT v (\<lambda>t. if has_output t then chain (deref (next_pts t)) (\<lambda>n. Inr (max p n)) else Inr p))
       (\<lambda>r. andthen (lift r) (\<lambda>pts.
     andthen (lift (Subtract pts original)) (\<lambda>sh.
     andthen (setT v (\<lambda>t. t\<lparr>shift := Some sh\<rparr>)) (\<lambda>_.
     andthen (getT v (ToUs L sh)) (\<lambda>r. andthen (lift r) (\<lambda>us.
     andthen (modify (\<lambda>s. s\<lparr>clk := (clk s)\<lparr>ck_shift := Some us\<rparr>\<rparr>)) (\<lambda>_.
     ret pts))))))))))"

definition desynced :: "av_lib \<Rightarrow> syncer_config \<Rightarrow> track \<Rightarrow> int \<Rightarrow> bool result" where
  "desynced L c t shared =
     (case shift t of
        None \<Rightarrow> Inr False
      | Some sh \<Rightarrow> chain (ToUs L sh t) (\<lambda>us.
                   chain (Add (max_streams_diff (options c)) 1) (\<lambda>tol. Apart us shared tol)))"

definition discontinuous :: "av_lib \<Rightarrow> syncer_config \<Rightarrow> track \<Rightarrow> int \<Rightarrow> bool result" where
  "discontinuous L c t pts =
     (case next_pts t of
        None \<Rightarrow> Inr False
      | Some n \<Rightarrow> if pts = n then Inr False
                  else chain (ToUs L pts t) (\<lambda>a. chain (ToUs L n t) (\<lambda>b.
                       Apart a b (max_streams_diff (options c)))))"

text \<open>The head is not where the output ends: jump forward over fillers, or back onto the end.\<close>

definition Correct_jump ::
    "av_lib \<Rightarrow> bool \<Rightarrow> read_result \<Rightarrow> int \<Rightarrow> int \<Rightarrow> int \<Rightarrow> on_output \<Rightarrow>
     (syncer, syncer_step) act" where
  "Correct_jump L v input original pts now out =
     andthen (getT v next_pts) (\<lambda>n. andthen (lift (deref n)) (\<lambda>n.
     if n < pts then
       andthen (getT v try_without_filling) (\<lambda>try.
       if \<not> try then
         andthen (BeginFill v pts True) (\<lambda>_. Fill L v (Some input) now out)
       else
         andthen (setT v (\<lambda>t. t\<lparr>try_without_filling := False\<rparr>)) (\<lambda>_.
         andthen (Adjust L v original) (\<lambda>_.
         andthen (setT v (\<lambda>t. t\<lparr>pending_real_pts := next_pts t\<rparr>)) (\<lambda>_.
         andthen (lift (Add now 1000)) (\<lambda>w.
         andthen (setT v (\<lambda>t. t\<lparr>suspended_until := w\<rparr>)) (\<lambda>_.
         ret \<lparr>st_consumed = False, st_frame = None, st_wake_us = w, st_blocked = False\<rparr>))))))
     else andthen (Adjust L v original) (\<lambda>_. Real L v input n now out)))"

text \<open>The session already has a shared shift.\<close>

definition Correct_shared ::
    "av_lib \<Rightarrow> bool \<Rightarrow> read_result \<Rightarrow> int \<Rightarrow> int \<Rightarrow> int \<Rightarrow> on_output \<Rightarrow>
     (syncer, syncer_step) act" where
  "Correct_shared L v input original shared now out =
     andthen (gets config) (\<lambda>c.
     andthen (getT v (\<lambda>t. desynced L c t shared)) (\<lambda>r. andthen (lift r) (\<lambda>desync.
     andthen (getT v shift) (\<lambda>own.
     andthen (if own = None \<or> desync
              then andthen (getT v (FromUs L shared)) (\<lambda>r. andthen (lift r) (\<lambda>sh.
                   setT v (\<lambda>t. t\<lparr>shift := Some sh\<rparr>)))
              else ret ()) (\<lambda>_.
     andthen (getT v shift) (\<lambda>sh. andthen (lift (deref sh)) (\<lambda>sh.
     andthen (lift (Add original sh)) (\<lambda>pts.
     andthen (getT v (\<lambda>t. discontinuous L c t pts)) (\<lambda>r. andthen (lift r) (\<lambda>jump.
     if jump then Correct_jump L v input original pts now out
     else
       andthen (if desync
                then andthen (getT v (ToUs L sh)) (\<lambda>r. andthen (lift r) (\<lambda>us.
                     modify (\<lambda>s. s\<lparr>clk := (clk s)\<lparr>ck_shift := Some us\<rparr>\<rparr>)))
                else ret ()) (\<lambda>_.
       Real L v input pts now out)))))))))))"

definition Correct ::
    "av_lib \<Rightarrow> bool \<Rightarrow> read_result \<Rightarrow> int \<Rightarrow> on_output \<Rightarrow> (syncer, syncer_step) act" where
  "Correct L v input now out =
     andthen (getT v time_base) (\<lambda>tb.
     andthen (if v \<and> cmp_q L tb (rr_time_base input) \<noteq> 0
              then ChangeTimeBase L v (rr_time_base input) else ret ()) (\<lambda>_.
     andthen (original_pts L v (Some input)) (\<lambda>original.
     andthen (gets (ck_shift \<circ> clk)) (\<lambda>shared.
     case shared of
       None \<Rightarrow> andthen (Anchor L v original now) (\<lambda>pts. Real L v input pts now out)
     | Some shared \<Rightarrow> Correct_shared L v input original shared now out))))"

section \<open>Construction and steps\<close>

text \<open>No input: wait for the deadline, then decide whether the clock demands a filler.\<close>

definition TimeOut ::
    "av_lib \<Rightarrow> bool \<Rightarrow> int \<Rightarrow> on_output \<Rightarrow> (syncer, syncer_step) act" where
  "TimeOut L v now out =
     andthen (Clock_Now now) (\<lambda>rtc.
     andthen (gets config) (\<lambda>c.
     andthen (getT v next_pts) (\<lambda>n.
     andthen (if n = None
              then andthen (getT v (FromUs L (start_ts (options c)))) (\<lambda>r. andthen (lift r) (\<lambda>x.
                   setT v (\<lambda>t. t\<lparr>next_pts := Some x\<rparr>)))
              else ret ()) (\<lambda>_.
     andthen (getT v next_pts) (\<lambda>n. andthen (lift (deref n)) (\<lambda>n.
     andthen (getT v (\<lambda>t. if \<not> last_success t then Inr True
                         else chain (ToUs L n t) (\<lambda>us. chain (Subtract rtc us) (\<lambda>d.
                              Inr (timeout (options c) < d))))) (\<lambda>r. andthen (lift r) (\<lambda>fill.
     andthen (setT v (\<lambda>t. t\<lparr>last_success := False\<rparr>)) (\<lambda>_.
     andthen (lift (Add now kPollUs)) (\<lambda>w.
     andthen (setT v (\<lambda>t. t\<lparr>wait_until := w\<rparr>)) (\<lambda>_.
     andthen (getT v (FromUs L rtc)) (\<lambda>r. andthen (lift r) (\<lambda>target.
     if fill \<and> n < target then
       andthen (BeginFill v target False) (\<lambda>_. Fill L v None now out)
     else ret \<lparr>st_consumed = False, st_frame = None, st_wake_us = w, st_blocked = False\<rparr>)))))))))))))"

definition Step ::
    "av_lib \<Rightarrow> bool \<Rightarrow> read_result option \<Rightarrow> int \<Rightarrow> on_output \<Rightarrow> (syncer, syncer_step) act" where
  "Step L v head now out =
     andthen (getT v (\<lambda>t. t)) (\<lambda>t.
     if fill_until t \<noteq> None then Fill L v head now out
     else if pending_real_pts t \<noteq> None then
       if now < suspended_until t
       then ret \<lparr>st_consumed = False, st_frame = None, st_wake_us = suspended_until t,
                 st_blocked = False\<rparr>
       else andthen (setT v (\<lambda>t. t\<lparr>pending_real_pts := None\<rparr>)) (\<lambda>_.
            andthen (lift (deref head)) (\<lambda>h. Correct L v h now out))
     else
       case head of
         Some h \<Rightarrow>
           if rr_status h = KEof
           then ret \<lparr>st_consumed = True, st_frame = None, st_wake_us = now, st_blocked = False\<rparr>
           else Correct L v h now out
       | None \<Rightarrow>
           if now < wait_until t
           then ret \<lparr>st_consumed = False, st_frame = None, st_wake_us = wait_until t,
                     st_blocked = False\<rparr>
           else TimeOut L v now out)"

definition new_track :: "syncer_config \<Rightarrow> av_rational \<Rightarrow> track" where
  "new_track c tb =
     \<lparr>time_base = tb, next_pts = None, shift = None, last_real = None, last_real_pts = 0,
      last_success = True, has_output = False, wait_until = initial_timeout (options c),
      try_without_filling = False, fill_until = None, forward_fill = False, filled = 0,
      filled_us = 0, pending_real_pts = None, suspended_until = 0\<rparr>"

definition seed_track :: "av_lib \<Rightarrow> syncer_config \<Rightarrow> track \<Rightarrow> track result" where
  "seed_track L c t =
     (if forward_start_shift (options c) then Inr t
      else chain (FromUs L (start_ts (options c)) t) (\<lambda>n. Inr (t\<lparr>next_pts := Some n\<rparr>)))"

definition video_enabled :: "syncer_config \<Rightarrow> bool" where
  "video_enabled c \<longleftrightarrow> ec_pixel_format (encoder c) \<noteq> AV_FMT_NONE"

definition audio_enabled :: "syncer_config \<Rightarrow> bool" where
  "audio_enabled c \<longleftrightarrow> ec_sample_format (encoder c) \<noteq> AV_FMT_NONE"

definition SyncerTiming :: "av_lib \<Rightarrow> syncer_config \<Rightarrow> syncer result" where
  "SyncerTiming L c =
     chain (if video_enabled c \<and> backup_video c = None
            then chain (BlackFrame L (encoder c)) (\<lambda>f. Inr (c\<lparr>backup_video := Some f\<rparr>))
            else Inr c) (\<lambda>c.
     let vt = new_track c (if video_enabled c then inv_q L (ec_fps (encoder c)) else kMicroseconds);
         at = new_track c (if audio_enabled c then avq 1 (ec_sample_rate (encoder c)) else kMicroseconds)
     in chain (seed_track L c vt) (\<lambda>vt.
        chain (seed_track L c at) (\<lambda>at.
        Inr \<lparr>config = c,
             clk = \<lparr>ck_start = start_ts (options c), ck_pts = None, ck_wall = 0, ck_shift = None\<rparr>,
             video_track = vt, audio_track = at\<rparr>)))"

end
