(* ===== verification/Syncer_Lemmas.thy ===== *)
theory Syncer_Lemmas
  imports Syncer_Timing
begin

text \<open>
  Weakest preconditions of the operations of \<open>Syncer_Timing\<close>, bottom up. Each lemma describes
  the normal outcome of one operation field by field and shows that an exceptional outcome is
  never a dereference of an empty optional.
\<close>

section \<open>Lenses and checked arithmetic\<close>

lemma track_upd [simp]:
  "track_of v (upd_track v f s) = f (track_of v s)"
  "track_of (\<not> v) (upd_track v f s) = track_of (\<not> v) s"
  "track_of v (upd_track (\<not> v) f s) = track_of v s"
  "config (upd_track v f s) = config s" "clk (upd_track v f s) = clk s"
  "track_of v (s\<lparr>clk := c\<rparr>) = track_of v s"
  by (cases v; simp add: track_of_def upd_track_def)+

lemma wp_getT [wp_eqs]: "wp (getT v f) Q E s = Q (f (track_of v s)) s"
  by (simp add: getT_def wp_eqs)

lemma wp_setT [wp_eqs]: "wp (setT v f) Q E s = Q () (upd_track v f s)"
  by (simp add: setT_def wp_eqs)

definition add_ok :: "int \<Rightarrow> int \<Rightarrow> bool" where
  "add_ok a b \<longleftrightarrow> \<not> ((0 < b \<and> i64_max - b < a) \<or> (b < 0 \<and> a < i64_min - b))"

lemma Add_iff [simp]:
  "Add a b = Inr c \<longleftrightarrow> add_ok a b \<and> c = a + b"
  "Add a b = Inl e \<longleftrightarrow> \<not> add_ok a b \<and> e = Overflow_error"
  by (auto simp: Add_def add_ok_def)

lemma Subtract_iff [simp]:
  "Subtract a b = Inr c \<longleftrightarrow> b \<noteq> i64_min \<and> add_ok a (- b) \<and> c = a - b"
  "Subtract a b = Inl e \<longleftrightarrow> \<not> (b \<noteq> i64_min \<and> add_ok a (- b)) \<and> e = Overflow_error"
  by (auto simp: Subtract_def)

definition rescale_ok :: "av_lib \<Rightarrow> int \<Rightarrow> av_rational \<Rightarrow> av_rational \<Rightarrow> bool" where
  "rescale_ok L v a b \<longleftrightarrow> rescale_q L v a b \<noteq> i64_min \<and> rescale_q L v a b \<noteq> i64_max"

lemma Rescale_iff [simp]:
  "Rescale L v a b = Inr r \<longleftrightarrow> rescale_ok L v a b \<and> r = rescale_q L v a b"
  "Rescale L v a b = Inl e \<longleftrightarrow> \<not> rescale_ok L v a b \<and> e = Overflow_error"
  by (auto simp: Rescale_def rescale_ok_def Let_def)

text \<open>The value of a timestamp of a track in microseconds, and back.\<close>

definition us :: "av_lib \<Rightarrow> track \<Rightarrow> int \<Rightarrow> int" where
  "us L t v = rescale_q L v (time_base t) kMicroseconds"

definition ticks :: "av_lib \<Rightarrow> track \<Rightarrow> int \<Rightarrow> int" where
  "ticks L t v = rescale_q L v kMicroseconds (time_base t)"

lemma ToUs_iff [simp]:
  "ToUs L v t = Inr r \<longleftrightarrow> rescale_ok L v (time_base t) kMicroseconds \<and> r = us L t v"
  "ToUs L v t = Inl e \<longleftrightarrow> \<not> rescale_ok L v (time_base t) kMicroseconds \<and> e = Overflow_error"
  by (simp_all add: ToUs_def us_def)

lemma FromUs_iff [simp]:
  "FromUs L v t = Inr r \<longleftrightarrow> rescale_ok L v kMicroseconds (time_base t) \<and> r = ticks L t v"
  "FromUs L v t = Inl e \<longleftrightarrow> \<not> rescale_ok L v kMicroseconds (time_base t) \<and> e = Overflow_error"
  by (simp_all add: FromUs_def ticks_def)

lemma Apart_Inr: "Apart a b t = Inr r \<Longrightarrow> r \<longleftrightarrow> t \<le> \<bar>a - b\<bar>"
  by (auto simp: Apart_def abs_if)

text \<open>Pure computations never end in \<open>Undefined_behaviour\<close>.\<close>

lemma Apart_safe [simp]: "Apart a b t \<noteq> Inl Undefined_behaviour"
  by (simp add: Apart_def chain_Inl)

lemma VideoDuration_safe [simp]: "VideoDuration L c tb \<noteq> Inl Undefined_behaviour"
  by (simp add: VideoDuration_def chain_Inl)

lemma VideoDuration_pos: "VideoDuration L c tb = Inr d \<Longrightarrow> 0 < d"
  by (auto simp: VideoDuration_def split: if_splits)

lemma frame_duration_safe [simp]: "frame_duration L v c tb f \<noteq> Inl Undefined_behaviour"
  by (simp add: frame_duration_def)

lemma desynced_safe [simp]: "desynced L c t sh \<noteq> Inl Undefined_behaviour"
  by (auto simp: desynced_def chain_Inl split: option.splits)

lemma discontinuous_safe [simp]: "discontinuous L c t p \<noteq> Inl Undefined_behaviour"
  by (auto simp: discontinuous_def chain_Inl split: option.splits)

lemma convert_opt_safe [simp]: "convert_opt L a b x \<noteq> Inl Undefined_behaviour"
  by (auto simp: convert_opt_def chain_Inl split: option.splits)

lemma convert_opt_None [simp]: "convert_opt L a b x = Inr None \<longleftrightarrow> x = None"
  by (auto simp: convert_opt_def split: option.splits)

lemma convert_opt_Some [simp]:
  "convert_opt L a b x = Inr (Some r) \<longleftrightarrow>
    (\<exists>v. x = Some v \<and> rescale_ok L v a b \<and> r = rescale_q L v a b)"
  by (auto simp: convert_opt_def split: option.splits)

lemma silence_safe [simp]: "silence L c n \<noteq> Inl Undefined_behaviour"
  by (simp add: silence_def Let_def split: option.splits)

lemma use_frozen_safe: "next_pts t \<noteq> None \<Longrightarrow> use_frozen L c t \<noteq> Inl Undefined_behaviour"
  by (auto simp: use_frozen_def chain_Inl)

lemma Backup_safe:
  assumes "next_pts t \<noteq> None" and "v \<Longrightarrow> backup_video c \<noteq> None"
  shows "Backup L v c t n \<noteq> Inl Undefined_behaviour"
  using assms use_frozen_safe [OF assms(1)]
  by (auto simp: Backup_def chain_Inl use_frozen_def split: if_splits)

text \<open>A replacement for audio has at least one sample.\<close>

lemma Backup_audio: "Backup L False c t n = Inr f \<Longrightarrow> fr_nb_samples f = min 1024 n"
  by (auto simp: Backup_def silence_def Let_def split: option.splits)

definition callback_ok :: "on_output \<Rightarrow> bool" where
  "callback_ok out \<longleftrightarrow> (\<forall>g f. out = Some g \<longrightarrow> g f \<noteq> Inl Undefined_behaviour)"

lemma wp_emit:
  assumes "callback_ok out" and "Q True s" and "Q False s"
    and "\<And>e. e \<noteq> Undefined_behaviour \<Longrightarrow> E e s"
  shows "wp (emit out f) Q E s"
proof (cases out)
  case None
  with assms(2) show ?thesis by (simp add: emit_def wp_eqs)
next
  case (Some g)
  have q: "Q b s" for b using assms(2,3) by (cases b) simp_all
  from assms(1) Some have "g f \<noteq> Inl Undefined_behaviour" by (simp add: callback_ok_def)
  with Some q assms(4) show ?thesis by (auto simp: emit_def wp_eqs)
qed

section \<open>Clock\<close>

lemma Clock_Update_wp [wp_eqs]:
  "wp (Clock_Update p now) Q E s = Q () (s\<lparr>clk := Update_pure p now (clk s)\<rparr>)"
  by (simp add: Clock_Update_def wp_eqs)

lemma Update_pure_shift [simp]:
  "ck_shift (Update_pure p now c) = ck_shift c" "ck_start (Update_pure p now c) = ck_start c"
  by (simp_all add: Update_pure_def)

lemma Clock_Now_wp:
  "wp (Clock_Now now)
     (\<lambda>r t. config t = config s \<and> (\<forall>v. track_of v t = track_of v s) \<and>
        ck_shift (clk t) = ck_shift (clk s) \<and> ck_pts (clk t) \<noteq> None \<and>
        (case ck_pts (clk s) of None \<Rightarrow> r = ck_start (clk s)
         | Some p \<Rightarrow> r = (if now - ck_wall (clk s) < 2000000 then p else p + (now - ck_wall (clk s)))))
     (\<lambda>e t. e \<noteq> Undefined_behaviour) s"
  unfolding Clock_Now_def
  by (cases "ck_pts (clk s)") (auto simp: wp_eqs Update_pure_def)

section \<open>Filling\<close>

definition rest_same :: "bool \<Rightarrow> syncer \<Rightarrow> syncer \<Rightarrow> bool" where
  "rest_same v s t \<longleftrightarrow> config t = config s \<and> track_of (\<not> v) t = track_of (\<not> v) s"

lemma rest_same_refl [simp]: "rest_same v s s"
  by (simp add: rest_same_def)

lemma rest_same_trans: "rest_same v s t \<Longrightarrow> rest_same v t u \<Longrightarrow> rest_same v s u"
  by (simp add: rest_same_def)

lemma rest_same_upd [simp]:
  "rest_same v s (upd_track v f t) = rest_same v s t"
  "rest_same v s (t\<lparr>clk := c\<rparr>) = rest_same v s t"
  "rest_same v (upd_track v f s) t = rest_same v s t"
  "rest_same v (s\<lparr>clk := c\<rparr>) t = rest_same v s t"
  by (simp_all add: rest_same_def)

text \<open>The timestamp of the head in the time base of the track.\<close>

definition head_pts :: "av_lib \<Rightarrow> track \<Rightarrow> read_result \<Rightarrow> int" where
  "head_pts L t i = rescale_q L (fr_pts (in_frame i)) (rr_time_base i) (time_base t)"

lemma original_pts_wp:
  assumes "input = Some i" "has_frame (rr_frame i)"
  shows "wp (original_pts L v input) (\<lambda>r t. t = s \<and> r = head_pts L (track_of v s) i)
     (\<lambda>e t. e \<noteq> Undefined_behaviour) s"
  using assms by (simp add: original_pts_def wp_eqs head_pts_def)

lemma Adjust_wp:
  assumes "next_pts (track_of v s) = Some n"
  shows "wp (Adjust L v p)
     (\<lambda>_ t. rest_same v s t \<and> track_of v t = (track_of v s)\<lparr>shift := Some (n - p)\<rparr> \<and>
        clk t = (clk s)\<lparr>ck_shift := Some (us L (track_of v s) (n - p))\<rparr>)
     (\<lambda>e t. e \<noteq> Undefined_behaviour) s"
  using assms by (simp add: Adjust_def wp_eqs us_def)

text \<open>A forward batch ends by moving the head to the next output position.\<close>

definition finished_forward :: "av_lib \<Rightarrow> read_result \<Rightarrow> int \<Rightarrow> track \<Rightarrow> track \<Rightarrow> bool" where
  "finished_forward L i w T T' \<longleftrightarrow>
     (\<exists>n. next_pts T = Some n \<and>
        T' = T\<lparr>shift := Some (n - head_pts L T i), try_without_filling := True,
               pending_real_pts := Some n, suspended_until := w, fill_until := None\<rparr>)"

lemma FinishFill_wp:
  assumes "next_pts (track_of v s) = Some n"
    and "forward_fill (track_of v s) \<Longrightarrow> input = Some i \<and> has_frame (rr_frame i)"
  shows "wp (FinishFill L v input p now blocked)
     (\<lambda>w t. rest_same v s t \<and>
        (if forward_fill (track_of v s)
         then finished_forward L i w (track_of v s) (track_of v t) \<and> now \<le> w \<and>
              ck_shift (clk t) = Some (us L (track_of v s) (n - head_pts L (track_of v s) i))
         else track_of v t = (track_of v s)\<lparr>wait_until := if blocked then now else wait_until (track_of v s),
                                fill_until := None\<rparr> \<and> clk t = clk s \<and>
              w = (if input \<noteq> None then now else wait_until (track_of v t))))
     (\<lambda>e t. e \<noteq> Undefined_behaviour) s"
proof (cases "forward_fill (track_of v s)")
  case False
  then show ?thesis by (simp add: FinishFill_def wp_eqs)
next
  case True
  then have i: "input = Some i" "has_frame (rr_frame i)" using assms(2) by simp_all
  have u: "us L (t\<lparr>shift := x\<rparr>) = us L t" "head_pts L (t\<lparr>shift := x\<rparr>) = head_pts L t" for t x
    by (intro ext; simp add: us_def head_pts_def)+
  show ?thesis
    using True assms(1)
    by (auto simp: FinishFill_def wp_eqs finished_forward_def max_def
        intro!: wp_cons [OF original_pts_wp [OF i]] wp_cons [OF Adjust_wp [where n = n]])
qed

text \<open>
  Well-formedness of a track between steps: an open batch has a target ahead of the next output
  position and fewer than five frames; a suspended head and any output imply a position.
\<close>

definition track_ok :: "track \<Rightarrow> bool" where
  "track_ok t \<longleftrightarrow>
     (\<forall>u. fill_until t = Some u \<longrightarrow> (\<exists>n. next_pts t = Some n \<and> n < u) \<and>
        0 \<le> filled t \<and> filled t < 5) \<and>
     (pending_real_pts t \<noteq> None \<longrightarrow> next_pts t \<noteq> None) \<and>
     (has_output t \<longrightarrow> next_pts t \<noteq> None)"

text \<open>What a filler step establishes. \<open>n\<close> is the track's position before it.\<close>

definition fill_post ::
    "av_lib \<Rightarrow> bool \<Rightarrow> int \<Rightarrow> syncer \<Rightarrow> syncer_step \<Rightarrow> syncer \<Rightarrow> bool" where
  "fill_post L v n s r t \<longleftrightarrow>
     rest_same v s t \<and> \<not> st_consumed r \<and> track_ok (track_of v t) \<and>
     time_base (track_of v t) = time_base (track_of v s) \<and>
     forward_fill (track_of v t) = forward_fill (track_of v s) \<and>
     (if st_blocked r
      then st_frame r = None \<and> next_pts (track_of v t) = Some n \<and> fill_until (track_of v t) = None \<and>
           filled (track_of v t) = filled (track_of v s) \<and>
           has_output (track_of v t) = has_output (track_of v s)
      else \<exists>f d. st_frame r = Some (Stamp (time_base (track_of v s)) n d f) \<and>
           frame_duration L v (config s) (time_base (track_of v s)) f = Inr d \<and>
           next_pts (track_of v t) = Some (n + d) \<and> has_output (track_of v t) \<and>
           filled (track_of v t) = filled (track_of v s) + 1) \<and>
     (forward_fill (track_of v s) \<longrightarrow> fill_until (track_of v t) = None \<longrightarrow>
        try_without_filling (track_of v t) \<and> pending_real_pts (track_of v t) = next_pts (track_of v t)) \<and>
     (\<not> forward_fill (track_of v s) \<longrightarrow> pending_real_pts (track_of v t) = pending_real_pts (track_of v s) \<and>
        try_without_filling (track_of v t) = try_without_filling (track_of v s))"

lemma us_fields [simp]:
  "us L (t\<lparr>filled_us := a\<rparr>) = us L t" "us L (t\<lparr>next_pts := b, has_output := c, filled := d\<rparr>) = us L t"
  by (intro ext; simp add: us_def)+

lemma Fill_wp:
  assumes n: "next_pts (track_of v s) = Some n" and u: "fill_until (track_of v s) = Some u"
    and ok: "track_ok (track_of v s)" and out: "callback_ok out"
    and bk: "v \<Longrightarrow> backup_video (config s) \<noteq> None"
    and fwd: "forward_fill (track_of v s) \<Longrightarrow> input = Some i \<and> has_frame (rr_frame i)"
  shows "wp (Fill L v input now out) (fill_post L v n s) (\<lambda>e t. e \<noteq> Undefined_behaviour) s"
proof -
  let ?E = "\<lambda>e t. e \<noteq> Undefined_behaviour" and ?T = "track_of v s"
  note defs = wp_eqs fill_post_def track_ok_def finished_forward_def
  have b: "0 \<le> filled ?T" "filled ?T < 5" "n < u" using ok n u by (auto simp: track_ok_def)
  have accepted: "wp (FinishFill L v input n now False)
      (\<lambda>w. wp (ret \<lparr>st_consumed = False, st_frame = Some (Stamp (time_base ?T) n d f),
                   st_wake_us = w, st_blocked = False\<rparr>) (fill_post L v n s) ?E) ?E
      (upd_track v (\<lambda>t. t\<lparr>filled_us := m\<rparr>)
        (upd_track v (\<lambda>t. t\<lparr>next_pts := Some (n + d), has_output := True, filled := filled t + 1\<rparr>) s))"
    if "frame_duration L v (config s) (time_base ?T) f = Inr d" for f d m
    using that fwd b ok n
    by (intro wp_cons [OF FinishFill_wp [where n = "n + d" and i = i]])
      (auto simp: defs split: if_splits)
  have rejected: "wp (FinishFill L v input n now True)
      (\<lambda>w. wp (ret \<lparr>st_consumed = False, st_frame = None, st_wake_us = w, st_blocked = True\<rparr>)
        (fill_post L v n s) ?E) ?E s"
    using fwd b ok n
    by (intro wp_cons [OF FinishFill_wp [where n = n and i = i]]) (auto simp: defs split: if_splits)
  have continued: "fill_post L v n s \<lparr>st_consumed = False, st_frame = Some (Stamp (time_base ?T) n d f),
        st_wake_us = now, st_blocked = False\<rparr>
      (upd_track v (\<lambda>t. t\<lparr>filled_us := m\<rparr>)
        (upd_track v (\<lambda>t. t\<lparr>next_pts := Some (n + d), has_output := True, filled := filled t + 1\<rparr>) s))"
    if "frame_duration L v (config s) (time_base ?T) f = Inr d" "\<not> u \<le> n + d" "filled ?T \<noteq> 4" for f d m
    using that b ok n u by (auto simp: defs)
  have safe: "Backup L v (config s) ?T c \<noteq> Inl Undefined_behaviour" for c
    using Backup_safe [OF _ bk] n by simp
  show ?thesis
    unfolding Fill_def
    using safe rejected
    by (auto simp: wp_eqs n u accepted continued intro!: wp_emit [OF out])
qed

section \<open>Real frames\<close>

definition real_post ::
    "av_lib \<Rightarrow> bool \<Rightarrow> read_result \<Rightarrow> int \<Rightarrow> syncer \<Rightarrow> syncer_step \<Rightarrow> syncer \<Rightarrow> bool" where
  "real_post L v i p s r t \<longleftrightarrow>
     rest_same v s t \<and> ck_shift (clk t) = ck_shift (clk s) \<and>
     (let T = track_of v s; T' = track_of v t in
      if st_blocked r then \<not> st_consumed r \<and> st_frame r = None \<and> T' = T
      else st_consumed r \<and>
        (\<exists>d. frame_duration L v (config s) (time_base T) (in_frame i) = Inr d \<and>
          st_frame r = Some (Stamp (time_base T) p d (in_frame i)) \<and> next_pts T' = Some (p + d)) \<and>
        has_output T' \<and> shift T' = shift T \<and> time_base T' = time_base T \<and>
        fill_until T' = fill_until T \<and> pending_real_pts T' = None \<and>
        try_without_filling T' = try_without_filling T \<and> forward_fill T' = forward_fill T \<and>
        filled T' = filled T \<and> last_success T')"

lemma Real_wp:
  assumes "callback_ok out"
  shows "wp (Real L v i p now out) (real_post L v i p s) (\<lambda>e t. e \<noteq> Undefined_behaviour) s"
  unfolding Real_def
  by (auto simp: wp_eqs Let_def real_post_def intro!: wp_emit [OF assms])

definition rebased :: "av_lib \<Rightarrow> av_rational \<Rightarrow> track \<Rightarrow> track \<Rightarrow> bool" where
  "rebased L tb T T' \<longleftrightarrow>
     time_base T' = tb \<and>
     next_pts T' = map_option (\<lambda>n. rescale_q L n (time_base T) tb) (next_pts T) \<and>
     shift T' = map_option (\<lambda>n. rescale_q L n (time_base T) tb) (shift T) \<and>
     fill_until T' = map_option (\<lambda>n. rescale_q L n (time_base T) tb) (fill_until T) \<and>
     pending_real_pts T' = map_option (\<lambda>n. rescale_q L n (time_base T) tb) (pending_real_pts T) \<and>
     has_output T' = has_output T \<and> try_without_filling T' = try_without_filling T \<and>
     forward_fill T' = forward_fill T \<and> filled T' = filled T \<and> last_success T' = last_success T"

lemma convert_opt_Inr:
  "convert_opt L a b x = Inr y \<longleftrightarrow>
    (\<forall>v. x = Some v \<longrightarrow> rescale_ok L v a b) \<and> y = map_option (\<lambda>v. rescale_q L v a b) x"
  by (cases x) (auto simp: convert_opt_def)

lemma ChangeTimeBase_wp:
  "wp (ChangeTimeBase L v tb)
     (\<lambda>_ t. rest_same v s t \<and> clk t = clk s \<and> rebased L tb (track_of v s) (track_of v t))
     (\<lambda>e t. e \<noteq> Undefined_behaviour) s"
  unfolding ChangeTimeBase_def
  by (auto simp: wp_eqs rebased_def convert_opt_Inr)

text \<open>The track once the time base of the input has been adopted.\<close>

definition based :: "av_lib \<Rightarrow> bool \<Rightarrow> read_result \<Rightarrow> track \<Rightarrow> track \<Rightarrow> bool" where
  "based L v i T T0 \<longleftrightarrow>
     (if v \<and> cmp_q L (time_base T) (rr_time_base i) \<noteq> 0 then rebased L (rr_time_base i) T T0
      else T0 = T)"

lemma Anchor_wp:
  assumes "has_output (track_of v s) \<Longrightarrow> next_pts (track_of v s) \<noteq> None"
  shows "wp (Anchor L v p now)
     (\<lambda>r t. rest_same v s t \<and> track_of v t = (track_of v s)\<lparr>shift := Some (r - p)\<rparr> \<and>
        ck_shift (clk t) = Some (us L (track_of v s) (r - p)) \<and>
        (has_output (track_of v s) \<longrightarrow> the (next_pts (track_of v s)) \<le> r))
     (\<lambda>e t. e \<noteq> Undefined_behaviour) s"
  unfolding Anchor_def
  using assms
  by (auto simp: wp_eqs rest_same_def chain_Inl us_def intro!: wp_cons [OF Clock_Now_wp])

section \<open>Correction of the head\<close>

text \<open>How far the local shift may be from the shared one after a frame was passed on.\<close>

definition shift_synced :: "av_lib \<Rightarrow> syncer_config \<Rightarrow> track \<Rightarrow> int option \<Rightarrow> bool" where
  "shift_synced L c t shared \<longleftrightarrow>
     (\<exists>sh w. shift t = Some sh \<and> shared = Some w \<and>
        (us L t sh = w \<or> sh = ticks L t w \<or> \<bar>us L t sh - w\<bar> \<le> max_streams_diff (options c)))"

text \<open>
  Where a real frame may start, relative to the end of the previous output \<open>n\<close>: exactly there,
  or closer than the discontinuity tolerance; at the first anchoring of the session, never
  before an output that was already produced.
\<close>

definition continuous :: "av_lib \<Rightarrow> syncer_config \<Rightarrow> int option \<Rightarrow> track \<Rightarrow> int \<Rightarrow> bool" where
  "continuous L c shared T0 p \<longleftrightarrow>
     (\<forall>n. next_pts T0 = Some n \<longrightarrow>
        (if shared = None then has_output T0 \<longrightarrow> n \<le> p
         else p = n \<or> \<bar>us L T0 p - us L T0 n\<bar> < max_streams_diff (options c)))"

text \<open>\<open>T0\<close> is the track and \<open>shared\<close> the shared shift when the correction begins.\<close>

definition correct_from ::
    "av_lib \<Rightarrow> bool \<Rightarrow> read_result \<Rightarrow> track \<Rightarrow> int option \<Rightarrow> syncer \<Rightarrow> syncer_step \<Rightarrow> syncer \<Rightarrow> bool"
  where
  "correct_from L v i T0 shared s r t \<longleftrightarrow>
     rest_same v s t \<and> track_ok (track_of v t) \<and> time_base (track_of v t) = time_base T0 \<and>
     (case st_frame r of
        None \<Rightarrow> \<not> st_consumed r \<and> next_pts (track_of v t) = next_pts T0 \<and>
          has_output (track_of v t) = has_output T0
      | Some f \<Rightarrow> \<not> st_blocked r \<and> has_output (track_of v t) \<and>
          (\<exists>g p d. f = Stamp (time_base T0) p d g \<and>
            frame_duration L v (config s) (time_base T0) g = Inr d \<and>
            next_pts (track_of v t) = Some (p + d) \<and>
            (if st_consumed r
             then g = in_frame i \<and> fill_until (track_of v t) = None \<and>
               pending_real_pts (track_of v t) = None \<and>
               shift_synced L (config s) (track_of v t) (ck_shift (clk t)) \<and>
               continuous L (config s) shared T0 p
             else next_pts T0 = Some p)))"

lemma correct_from_rest:
  assumes "rest_same v s s1" and "correct_from L v i T0 sh s1 r t"
  shows "correct_from L v i T0 sh s r t"
proof -
  from assms(1) have c: "config s = config s1" by (simp add: rest_same_def)
  from assms(2) have "rest_same v s1 t" by (simp add: correct_from_def)
  with assms show ?thesis unfolding correct_from_def c by (blast intro: rest_same_trans)
qed

lemma real_correct:
  assumes "track_of v s1 = T0\<lparr>shift := x\<rparr>"
    and "fill_until T0 = None" and "pending_real_pts T0 = None" and "track_ok T0"
    and "shift_synced L (config s1) (T0\<lparr>shift := x\<rparr>) (ck_shift (clk s1))"
    and "continuous L (config s1) shared T0 p"
    and "real_post L v i p s1 r t"
  shows "correct_from L v i T0 shared s1 r t"
proof (cases "st_blocked r")
  case True
  with assms show ?thesis by (auto simp: correct_from_def real_post_def Let_def track_ok_def)
next
  case False
  have sync: "shift_synced L (config s1) (track_of v t) (ck_shift (clk t))"
    using assms(1,5,7) False by (auto simp: real_post_def Let_def shift_synced_def us_def ticks_def)
  show ?thesis
    using False assms(1-4,6,7) sync
    by (auto simp: correct_from_def real_post_def Let_def track_ok_def)
qed

lemma fill_correct:
  assumes "fill_post L v n s1 r t" and "next_pts T0 = Some n" and "time_base (track_of v s1) = time_base T0"
    and "has_output (track_of v s1) = has_output T0"
  shows "correct_from L v i T0 shared s1 r t"
proof (cases "st_blocked r")
  case True
  with assms show ?thesis by (auto simp: fill_post_def correct_from_def)
next
  case False
  with assms obtain f d where f: "st_frame r = Some (Stamp (time_base T0) n d f)"
    "frame_duration L v (config s1) (time_base T0) f = Inr d" "next_pts (track_of v t) = Some (n + d)"
    "has_output (track_of v t)" "\<not> st_consumed r"
    by (auto simp: fill_post_def)
  with False assms show ?thesis
    unfolding correct_from_def fill_post_def
    by (simp, intro exI [of _ f] exI [of _ n] exI [of _ d], simp)
qed

lemma discontinuous_True:
  "discontinuous L c t p = Inr True \<Longrightarrow> \<exists>n. next_pts t = Some n \<and> p \<noteq> n"
  by (auto simp: discontinuous_def split: option.splits if_splits)

lemma discontinuous_False:
  "discontinuous L c t p = Inr False \<Longrightarrow> continuous L c (Some w) t p"
  by (auto simp: discontinuous_def continuous_def not_le split: option.splits if_splits dest!: Apart_Inr)

lemma desynced_True: "desynced L c t w = Inr True \<Longrightarrow> shift t \<noteq> None"
  by (auto simp: desynced_def split: option.splits)

lemma desynced_False:
  "desynced L c t w = Inr False \<Longrightarrow> shift t = None \<or> shift_synced L c t (Some w)"
  by (auto simp: desynced_def shift_synced_def split: option.splits dest!: Apart_Inr)

lemma shift_fields [simp]:
  "us L (t\<lparr>shift := x\<rparr>) = us L t" "ticks L (t\<lparr>shift := x\<rparr>) = ticks L t"
  "us L (t\<lparr>try_without_filling := y\<rparr>) = us L t"
  "us L (t\<lparr>shift := x, try_without_filling := y\<rparr>) = us L t"
  "continuous L c sh (t\<lparr>shift := x\<rparr>) p = continuous L c sh t p"
  "discontinuous L c (t\<lparr>shift := x\<rparr>) p = discontinuous L c t p"
  by (auto simp: us_def ticks_def continuous_def discontinuous_def ToUs_def split: option.split)

text \<open>The three outcomes of a discontinuity.\<close>

lemma Correct_jump_wp:
  assumes T: "track_of v s = T0\<lparr>shift := x\<rparr>" and n: "next_pts T0 = Some n"
    and idle: "fill_until T0 = None" "pending_real_pts T0 = None" and ok: "track_ok T0"
    and out: "callback_ok out" and bk: "v \<Longrightarrow> backup_video (config s) \<noteq> None"
    and i: "has_frame (rr_frame i)"
  shows "wp (Correct_jump L v i p pts now out) (correct_from L v i T0 (Some w) s)
     (\<lambda>e t. e \<noteq> Undefined_behaviour) s"
proof -
  let ?E = "\<lambda>e t. e \<noteq> Undefined_behaviour" and ?P = "correct_from L v i T0 (Some w) s"
  let ?s1 = "upd_track v (\<lambda>t. t\<lparr>fill_until := Some pts, forward_fill := True, filled := 0,
      filled_us := 0\<rparr>) s"
  have fill: "wp (Fill L v (Some i) now out) ?P ?E ?s1" if "n < pts"
  proof (rule wp_cons [OF Fill_wp [where n = n and u = pts and i = i]])
    show "?P r t" if "fill_post L v n ?s1 r t" for r t
      by (rule correct_from_rest [OF _ fill_correct [OF that n]]) (simp_all add: T)
  qed (use that T n ok out bk i in \<open>auto simp: track_ok_def\<close>)
  have backward: "wp (andthen (Adjust L v p) (\<lambda>_. Real L v i n now out)) ?P ?E s"
  proof -
    have "?P r t" if a: "rest_same v s s1" "track_of v s1 = (track_of v s)\<lparr>shift := Some (n - p)\<rparr>"
        "clk s1 = (clk s)\<lparr>ck_shift := Some (us L (track_of v s) (n - p))\<rparr>"
      and r: "real_post L v i n s1 r t" for s1 r t
    proof (rule correct_from_rest [OF a(1)], rule real_correct [where x = "Some (n - p)"])
      show "continuous L (config s1) (Some w) T0 n" using n by (simp add: continuous_def)
    qed (use a r T idle ok in \<open>simp_all add: shift_synced_def\<close>)
    then show ?thesis
      using T n by (auto simp: wp_eqs intro!: wp_cons [OF Adjust_wp [where n = n]] wp_cons [OF Real_wp [OF out]])
  qed
  have suspend: "wp (Adjust L v p) (\<lambda>_ s2. \<forall>w'. ?P \<lparr>st_consumed = False, st_frame = None,
        st_wake_us = w', st_blocked = False\<rparr>
        (upd_track v (\<lambda>t. t\<lparr>suspended_until := w'\<rparr>)
          (upd_track v (\<lambda>t. t\<lparr>pending_real_pts := next_pts t\<rparr>) s2))) ?E
      (upd_track v (\<lambda>t. t\<lparr>try_without_filling := False\<rparr>) s)"
    using T n idle ok
    by (intro wp_cons [OF Adjust_wp [where n = n]]) (auto simp: correct_from_def track_ok_def)
  show ?thesis
    unfolding Correct_jump_def BeginFill_def
    using fill backward suspend T n
    by (auto simp: wp_eqs intro: wp_cons)
qed

lemma Correct_shared_wp:
  assumes T: "track_of v s = T0" and w: "ck_shift (clk s) = Some w"
    and idle: "fill_until T0 = None" "pending_real_pts T0 = None" and ok: "track_ok T0"
    and out: "callback_ok out" and bk: "v \<Longrightarrow> backup_video (config s) \<noteq> None"
    and i: "has_frame (rr_frame i)"
  shows "wp (Correct_shared L v i p w now out) (correct_from L v i T0 (Some w) s)
     (\<lambda>e t. e \<noteq> Undefined_behaviour) s"
proof -
  let ?E = "\<lambda>e t. e \<noteq> Undefined_behaviour" and ?P = "correct_from L v i T0 (Some w) s"
  text \<open>One continuation for each state of the local shift after its adoption.\<close>
  have jump: "wp (Correct_jump L v i p pts now out) ?P ?E s1"
    if "track_of v s1 = T0\<lparr>shift := x\<rparr>" "rest_same v s s1" "next_pts T0 \<noteq> None" for s1 x pts
  proof -
    from that(3) obtain n where n: "next_pts T0 = Some n" by blast
    have "v \<Longrightarrow> backup_video (config s1) \<noteq> None" using that(2) bk by (simp add: rest_same_def)
    then show ?thesis
      by (intro wp_cons [OF Correct_jump_wp [OF that(1) n idle ok out _ i]])
        (auto dest: correct_from_rest [OF that(2)])
  qed
  have go: "wp (Real L v i pts now out) ?P ?E s1"
    if "track_of v s1 = T0\<lparr>shift := x\<rparr>" "rest_same v s s1" "continuous L (config s) (Some w) T0 pts"
      "shift_synced L (config s) (T0\<lparr>shift := x\<rparr>) (ck_shift (clk s1))" for s1 x pts
  proof (rule wp_cons [OF Real_wp [OF out]])
    fix r t assume "real_post L v i pts s1 r t"
    with that show "?P r t"
      by (intro correct_from_rest [OF that(2)] real_correct [OF that(1) idle ok]) (auto simp: rest_same_def)
  qed simp
  have adopted: "shift_synced L c (T0\<lparr>shift := Some (ticks L T0 w)\<rparr>) (Some w)" for c
    by (simp add: shift_synced_def)
  have published: "shift_synced L c (T0\<lparr>shift := Some y\<rparr>) (Some (us L T0 y))" for c y
    by (simp add: shift_synced_def)
  let ?adopt = "upd_track v (\<lambda>t. t\<lparr>shift := Some (ticks L T0 w)\<rparr>) s"
  have upd: "track_of v ?adopt = T0\<lparr>shift := Some (ticks L T0 w)\<rparr>" using T by simp
  have self: "track_of v s = T0\<lparr>shift := shift T0\<rparr>" using T by simp
  note dis = discontinuous_True [where c = "config s"] discontinuous_False [where c = "config s" and w = w]
  show ?thesis
  proof (cases "desynced L (config s) T0 w")
    case (Inl e)
    then show ?thesis using desynced_safe [of L "config s" T0 w]
      by (auto simp: Correct_shared_def wp_eqs T simp del: desynced_safe)
  next
    case (Inr d)
    show ?thesis
    proof (cases "shift T0 = None \<or> d")
      case True
      then show ?thesis
        unfolding Correct_shared_def
        using Inr w
        by (auto simp: wp_eqs T adopted published
            intro!: jump [OF upd] go [OF upd] go [of _ "Some (ticks L T0 w)"]
            dest!: dis)
    next
      case False
      then obtain sh where sh: "shift T0 = Some sh" "\<not> d" by auto
      have "T0\<lparr>shift := Some sh\<rparr> = T0" using sh(1) by (cases T0) simp
      then have "shift_synced L (config s) (T0\<lparr>shift := Some sh\<rparr>) (Some w)"
        using desynced_False [of L "config s" T0 w] Inr sh by (simp only:) auto
      then show ?thesis
        unfolding Correct_shared_def
        using Inr w sh
        by (auto simp: wp_eqs T intro!: jump [OF self] go [OF self] dest!: dis)
    qed
  qed
qed

text \<open>The whole correction; \<open>T0\<close> is the track in the input's time base.\<close>

definition correct_post ::
    "av_lib \<Rightarrow> bool \<Rightarrow> read_result \<Rightarrow> syncer \<Rightarrow> syncer_step \<Rightarrow> syncer \<Rightarrow> bool" where
  "correct_post L v i s r t \<longleftrightarrow>
     (\<exists>T0. based L v i (track_of v s) T0 \<and> correct_from L v i T0 (ck_shift (clk s)) s r t)"

lemma Correct_wp:
  assumes idle: "fill_until (track_of v s) = None" "pending_real_pts (track_of v s) = None"
    and ok: "track_ok (track_of v s)"
    and out: "callback_ok out" and bk: "v \<Longrightarrow> backup_video (config s) \<noteq> None"
    and i: "has_frame (rr_frame i)"
  shows "wp (Correct L v i now out) (correct_post L v i s) (\<lambda>e t. e \<noteq> Undefined_behaviour) s"
proof -
  let ?E = "\<lambda>e t. e \<noteq> Undefined_behaviour"
  let ?rest = "andthen (original_pts L v (Some i)) (\<lambda>original.
     andthen (gets (ck_shift \<circ> clk)) (\<lambda>shared.
     case shared of
       None \<Rightarrow> andthen (Anchor L v original now) (\<lambda>pts. Real L v i pts now out)
     | Some shared \<Rightarrow> Correct_shared L v i original shared now out))"
  have main: "wp ?rest (correct_from L v i (track_of v s1) (ck_shift (clk s)) s) ?E s1"
    if s1: "rest_same v s s1" "clk s1 = clk s" "fill_until (track_of v s1) = None"
      "pending_real_pts (track_of v s1) = None" "track_ok (track_of v s1)" for s1
  proof (cases "ck_shift (clk s)")
    case (Some w)
    have "wp (Correct_shared L v i p w now out)
        (correct_from L v i (track_of v s1) (Some w) s) ?E s1" for p
    proof (rule wp_cons [OF Correct_shared_wp [OF refl _ s1(3-5) out _ i]])
      show "v \<Longrightarrow> backup_video (config s1) \<noteq> None" using s1(1) bk by (simp add: rest_same_def)
    qed (use Some s1 in \<open>auto dest: correct_from_rest [OF s1(1)]\<close>)
    with Some s1(2) show ?thesis
      by (auto simp: wp_eqs intro!: wp_cons [OF original_pts_wp [OF refl i]])
  next
    case None
    let ?T = "track_of v s1"
    have "correct_from L v i ?T None s r t"
      if a: "rest_same v s1 s2" "track_of v s2 = ?T\<lparr>shift := Some (p - q)\<rparr>"
        "ck_shift (clk s2) = Some (us L ?T (p - q))"
        "has_output ?T \<longrightarrow> the (next_pts ?T) \<le> p" and r: "real_post L v i p s2 r t" for s2 p q r t
    proof (rule correct_from_rest [OF s1(1)], rule correct_from_rest [OF a(1)],
        rule real_correct [OF a(2) s1(3-5) _ _ r])
      show "continuous L (config s2) None ?T p" using a(4) by (auto simp: continuous_def)
    qed (simp add: shift_synced_def a(3))
    moreover have "has_output ?T \<Longrightarrow> next_pts ?T \<noteq> None" using s1(5) by (simp add: track_ok_def)
    ultimately show ?thesis
      using None s1(2)
      by (auto simp: wp_eqs intro!: wp_cons [OF original_pts_wp [OF refl i]] wp_cons [OF Anchor_wp]
          wp_cons [OF Real_wp [OF out]])
  qed
  have re: "track_ok T'" "fill_until T' = None" "pending_real_pts T' = None"
    if "rebased L tb (track_of v s) T'" for tb T'
    using that ok idle by (auto simp: rebased_def track_ok_def)
  show ?thesis
  proof (cases "v \<and> cmp_q L (time_base (track_of v s)) (rr_time_base i) \<noteq> 0")
    case True
    have "wp ?rest (correct_post L v i s) ?E s1"
      if "rest_same v s s1" "clk s1 = clk s" "rebased L (rr_time_base i) (track_of v s) (track_of v s1)" for s1
      using True that re [OF that(3)]
      by (intro wp_cons [OF main]) (auto simp: correct_post_def based_def)
    with True show ?thesis
      unfolding Correct_def by (auto simp: wp_eqs simp del: split_paired_All intro!: wp_cons [OF ChangeTimeBase_wp])
  next
    case False
    have "wp ?rest (correct_post L v i s) ?E s"
      using False ok idle by (intro wp_cons [OF main]) (auto simp: correct_post_def based_def)
    then show ?thesis unfolding Correct_def by (simp only: wp_eqs getT_def if_not_P [OF False] o_def)
  qed
qed

section \<open>Missing input\<close>

definition needs_head :: "track \<Rightarrow> bool" where
  "needs_head t \<longleftrightarrow> pending_real_pts t \<noteq> None \<or> (fill_until t \<noteq> None \<and> forward_fill t)"

text \<open>\<open>ContinuityClock::Now\<close> as a function of the state: the media clock holds for two seconds.\<close>

definition media_now :: "clock \<Rightarrow> int \<Rightarrow> int" where
  "media_now c now =
     (case ck_pts c of None \<Rightarrow> ck_start c
      | Some p \<Rightarrow> if now - ck_wall c < 2000000 then p else p + (now - ck_wall c))"

text \<open>
  A step without input. A filler appears only after the deadline, continues the output, and
  closes a gap to the media clock; after a real frame the gap must exceed the timeout.
\<close>

definition timeout_post ::
    "av_lib \<Rightarrow> bool \<Rightarrow> int \<Rightarrow> syncer \<Rightarrow> syncer_step \<Rightarrow> syncer \<Rightarrow> bool" where
  "timeout_post L v now s r t \<longleftrightarrow>
     (let T = track_of v s; T' = track_of v t; rtc = media_now (clk s) now; c = config s;
          n = (case next_pts T of None \<Rightarrow> ticks L T (start_ts (options c)) | Some n \<Rightarrow> n)
      in rest_same v s t \<and> \<not> st_consumed r \<and> track_ok T' \<and> time_base T' = time_base T \<and>
         \<not> needs_head T' \<and>
         (case st_frame r of
            None \<Rightarrow> next_pts T' = Some n
          | Some f \<Rightarrow> n < ticks L T rtc \<and>
              (last_success T \<longrightarrow> timeout (options c) < rtc - us L T n) \<and>
              (\<exists>g d. f = Stamp (time_base T) n d g \<and> frame_duration L v c (time_base T) g = Inr d \<and>
                 next_pts T' = Some (n + d) \<and> \<not> st_blocked r)))"

lemma time_fields [simp]:
  "us L (t\<lparr>next_pts := x\<rparr>) = us L t" "us L (t\<lparr>last_success := b\<rparr>) = us L t"
  "us L (t\<lparr>wait_until := y\<rparr>) = us L t" "ticks L (t\<lparr>next_pts := x\<rparr>) = ticks L t"
  "ticks L (t\<lparr>last_success := b\<rparr>) = ticks L t" "ticks L (t\<lparr>wait_until := y\<rparr>) = ticks L t"
  by (intro ext; simp add: us_def ticks_def)+

lemma TimeOut_fill:
  assumes T: "track_of v s1 = T\<lparr>next_pts := Some n, last_success := False, wait_until := w\<rparr>"
    and tgt: "n < target" and idle: "pending_real_pts T = None"
    and out: "callback_ok out" and bk: "v \<Longrightarrow> backup_video (config s1) \<noteq> None"
  shows "wp (andthen (BeginFill v target False) (\<lambda>_. Fill L v None now out))
     (\<lambda>r t. rest_same v s1 t \<and> \<not> st_consumed r \<and> track_ok (track_of v t) \<and>
        time_base (track_of v t) = time_base T \<and> \<not> needs_head (track_of v t) \<and>
        (case st_frame r of None \<Rightarrow> next_pts (track_of v t) = Some n
         | Some f \<Rightarrow> \<exists>g d. f = Stamp (time_base T) n d g \<and>
             frame_duration L v (config s1) (time_base T) g = Inr d \<and>
             next_pts (track_of v t) = Some (n + d) \<and> \<not> st_blocked r))
     (\<lambda>e t. e \<noteq> Undefined_behaviour) s1"
proof -
  let ?s2 = "upd_track v (\<lambda>t. t\<lparr>fill_until := Some target, forward_fill := False, filled := 0,
      filled_us := 0\<rparr>) s1"
  show ?thesis
    unfolding BeginFill_def wp_andthen wp_setT
  proof (rule wp_cons [OF Fill_wp [where n = n and u = target and i = null_result]], goal_cases)
    case (7 r t)
    then show ?case
      using T idle by (auto simp: fill_post_def needs_head_def split: if_splits)
  qed (use T tgt idle out bk in \<open>auto simp: track_ok_def\<close>)
qed

lemma TimeOut_wp:
  assumes ok: "track_ok (track_of v s)" and idle: "pending_real_pts (track_of v s) = None"
    "fill_until (track_of v s) = None"
    and out: "callback_ok out" and bk: "v \<Longrightarrow> backup_video (config s) \<noteq> None"
  shows "wp (TimeOut L v now out) (timeout_post L v now s) (\<lambda>e t. e \<noteq> Undefined_behaviour) s"
proof -
  let ?T = "track_of v s" and ?c = "config s" and ?rtc = "media_now (clk s) now"
    and ?E = "\<lambda>e t. e \<noteq> Undefined_behaviour"
  let ?n = "case next_pts ?T of None \<Rightarrow> ticks L ?T (start_ts (options ?c)) | Some n \<Rightarrow> n"
  have fill: "wp (andthen (BeginFill v (ticks L ?T ?rtc) False) (\<lambda>_. Fill L v None now out))
      (timeout_post L v now s) ?E s1"
    if "?T\<lparr>next_pts := Some ?n\<rparr> = T1" "track_of v s1 = T1\<lparr>last_success := False, wait_until := w\<rparr>"
      "rest_same v s s1" "?n < ticks L ?T ?rtc"
      "last_success ?T \<longrightarrow> timeout (options ?c) < ?rtc - us L ?T ?n" for T1 s1 w
  proof (rule wp_cons [OF TimeOut_fill [OF that(2) [folded that(1)] that(4) idle(1) out]], goal_cases)
    case 1
    then show ?case using that(3) bk by (simp add: rest_same_def)
  next
    case (2 r t)
    then show ?case
      using that by (auto simp: timeout_post_def Let_def rest_same_def split: option.splits)
  qed
  have wait: "timeout_post L v now s \<lparr>st_consumed = False, st_frame = None, st_wake_us = w',
        st_blocked = False\<rparr> s1"
    if "?T\<lparr>next_pts := Some ?n\<rparr> = T1" "track_of v s1 = T1\<lparr>last_success := False, wait_until := w\<rparr>"
      "rest_same v s s1" for T1 s1 w w'
    using that(2,3) ok idle unfolding that(1) [symmetric] by (auto simp: timeout_post_def Let_def track_ok_def needs_head_def)
  show ?thesis
    unfolding TimeOut_def wp_andthen
  proof (rule wp_cons [OF Clock_Now_wp], goal_cases)
    case (1 r s0)
    then have s0: "track_of v s0 = ?T" "config s0 = ?c" "rest_same v s s0" "r = ?rtc"
      by (auto simp: rest_same_def media_now_def split: option.splits)
    show ?case
    proof (cases "next_pts ?T")
      case None
      then have "?T\<lparr>next_pts := Some ?n\<rparr> =
        ?T\<lparr>next_pts := Some (ticks L ?T (start_ts (options ?c)))\<rparr>" by simp
      note go = fill [OF this, unfolded wp_andthen] wait [OF this]
      from None s0 show ?thesis by (auto simp: wp_eqs chain_Inl intro!: go)
    next
      case (Some n)
      then have "?T\<lparr>next_pts := Some ?n\<rparr> = ?T" by (cases ?T) simp
      note go = fill [OF this, unfolded wp_andthen] wait [OF this]
      from Some s0 show ?thesis by (auto simp: wp_eqs chain_Inl intro!: go)
    qed
  qed simp
qed

section \<open>One step\<close>

text \<open>
  The contract of a step on track \<open>v\<close>: it leaves the other track alone, keeps the track well
  formed, asks the caller to retain the head only if there is one, and commits at most one frame
  that continues the output. A blocked step commits nothing. \<open>head_track\<close> is the track after
  the time base of the head was adopted.
\<close>

definition head_track :: "av_lib \<Rightarrow> bool \<Rightarrow> read_result \<Rightarrow> track \<Rightarrow> track \<Rightarrow> bool" where
  "head_track L v h T T0 \<longleftrightarrow> based L v h (T\<lparr>pending_real_pts := None\<rparr>) T0"

definition step_post ::
    "av_lib \<Rightarrow> bool \<Rightarrow> read_result option \<Rightarrow> syncer \<Rightarrow> syncer_step \<Rightarrow> syncer \<Rightarrow> bool" where
  "step_post L v head s r t \<longleftrightarrow>
     (let T = track_of v s; T' = track_of v t in
      rest_same v s t \<and> track_ok T' \<and>
      (needs_head T' \<longrightarrow> \<not> st_consumed r \<and> (\<exists>h. head = Some h \<and> has_frame (rr_frame h))) \<and>
      (case st_frame r of
         None \<Rightarrow> (st_consumed r \<longrightarrow> t = s \<and> (\<exists>h. head = Some h \<and> rr_status h = KEof))
       | Some f \<Rightarrow> \<not> st_blocked r \<and>
           (\<exists>p d g. f = Stamp (time_base T') p d g \<and>
              frame_duration L v (config s) (time_base T') g = Inr d \<and> next_pts T' = Some (p + d) \<and>
              (if st_consumed r
               then \<exists>h T0. head = Some h \<and> g = in_frame h \<and> head_track L v h T T0 \<and>
                      shift_synced L (config s) T' (ck_shift (clk t)) \<and>
                      continuous L (config s) (ck_shift (clk s)) T0 p
               else next_pts T = Some p \<or>
                    (\<exists>h T0. head = Some h \<and> head_track L v h T T0 \<and> next_pts T0 = Some p) \<or>
                    (next_pts T = None \<and> p = ticks L T (start_ts (options (config s)))))))
      \<and> (st_blocked r \<longrightarrow> \<not> st_consumed r \<and> st_frame r = None \<and>
           (next_pts T' = next_pts T \<or>
            (\<exists>h T0. head = Some h \<and> head_track L v h T T0 \<and> next_pts T' = next_pts T0) \<or>
            (next_pts T = None \<and> next_pts T' = Some (ticks L T (start_ts (options (config s))))))))"

lemma fill_step:
  assumes "fill_post L v n s r t" and "next_pts (track_of v s) = Some n"
    and "fill_until (track_of v s) \<noteq> None"
    and "needs_head (track_of v s) \<Longrightarrow> head = Some h \<and> has_frame (rr_frame h)"
  shows "step_post L v head s r t"
proof -
  have "needs_head (track_of v t) \<Longrightarrow> needs_head (track_of v s)"
    using assms(1,3) unfolding fill_post_def needs_head_def
    by (cases "forward_fill (track_of v s)") simp_all
  moreover have "\<exists>p d g. f = Stamp (time_base (track_of v t)) p d g \<and>
      frame_duration L v (config s) (time_base (track_of v t)) g = Inr d \<and>
      next_pts (track_of v t) = Some (p + d) \<and> next_pts (track_of v s) = Some p"
    if "st_frame r = Some f" for f
  proof -
    from assms(1) that obtain g d where "f = Stamp (time_base (track_of v s)) n d g"
      "frame_duration L v (config s) (time_base (track_of v s)) g = Inr d"
      "next_pts (track_of v t) = Some (n + d)" "time_base (track_of v t) = time_base (track_of v s)"
      by (auto simp: fill_post_def split: if_splits)
    with assms(2) show ?thesis by (intro exI [of _ n] exI [of _ d] exI [of _ g]) simp
  qed
  ultimately show ?thesis
    using assms
    by (cases "st_frame r") (auto simp: step_post_def Let_def fill_post_def split: if_splits)
qed

lemma based_time_base:
  assumes "based L v i T T0"
  shows "time_base T0 = (if v \<and> cmp_q L (time_base T) (rr_time_base i) \<noteq> 0 then rr_time_base i else time_base T)"
  using assms by (auto simp: based_def rebased_def)

lemma correct_step:
  assumes c: "correct_post L v i s r t" and f: "has_frame (rr_frame i)"
    and idle: "pending_real_pts (track_of v s) = None"
  shows "step_post L v (Some i) s r t"
proof -
  have "(track_of v s)\<lparr>pending_real_pts := None\<rparr> = track_of v s"
    using idle by (cases "track_of v s") simp
  with c obtain T0 where b: "head_track L v i (track_of v s) T0"
    and c: "correct_from L v i T0 (ck_shift (clk s)) s r t"
    by (auto simp: correct_post_def head_track_def)
  from c have tb: "time_base (track_of v t) = time_base T0" by (simp add: correct_from_def)
  show ?thesis
  proof (cases "st_frame r")
    case None
    with b c f show ?thesis by (auto simp: correct_from_def step_post_def Let_def)
  next
    case (Some g)
    with c have nb: "\<not> st_blocked r" by (simp add: correct_from_def)
    show ?thesis
    proof (cases "st_consumed r")
      case True
      with c Some have "\<not> needs_head (track_of v t)"
        by (auto simp: correct_from_def needs_head_def)
      with True b c f Some nb tb show ?thesis
        unfolding step_post_def Let_def correct_from_def by auto
    next
      case False
      with b c f Some nb tb show ?thesis
        unfolding step_post_def Let_def correct_from_def by auto
    qed
  qed
qed

lemma timeout_step:
  assumes "timeout_post L v now s r t"
  shows "step_post L v head s r t"
  using assms
  by (cases "next_pts (track_of v s)"; cases "st_frame r")
    (auto simp: timeout_post_def step_post_def Let_def)

lemma idle_step:
  assumes "track_ok (track_of v s)" and "st_frame r = None" "\<not> st_blocked r"
    and "needs_head (track_of v s) \<Longrightarrow> \<not> st_consumed r \<and> (\<exists>h. head = Some h \<and> has_frame (rr_frame h))"
    and "st_consumed r \<Longrightarrow> \<exists>h. head = Some h \<and> rr_status h = KEof"
  shows "step_post L v head s r s"
  using assms by (auto simp: step_post_def Let_def)

text \<open>Clearing the pending position before the head is corrected does not show in the contract.\<close>

lemma step_post_cleared:
  assumes "step_post L v head s1 r t" and "track_of v s1 = (track_of v s)\<lparr>pending_real_pts := None\<rparr>"
    and "rest_same v s s1" "clk s1 = clk s" and "st_frame r = None \<Longrightarrow> \<not> st_consumed r"
  shows "step_post L v head s r t"
proof -
  have h: "head_track L v h (T\<lparr>pending_real_pts := None\<rparr>) T0 = head_track L v h T T0" for h T T0
    by (simp add: head_track_def)
  have c: "config s1 = config s" "rest_same v s1 t = rest_same v s t"
    using assms(3) by (auto simp: rest_same_def)
  have k: "ticks L (T\<lparr>pending_real_pts := None\<rparr>) = ticks L T" for T
    by (intro ext) (simp add: ticks_def)
  have n: "next_pts (T\<lparr>pending_real_pts := None\<rparr>) = next_pts T" for T by simp
  show ?thesis
  proof (cases "st_frame r")
    case None
    from assms(1,5) show ?thesis
      unfolding step_post_def assms(2,4) c Let_def h k n by (simp add: None)
  next
    case (Some f)
    from assms(1) show ?thesis
      unfolding step_post_def assms(2,4) c Let_def h k n Some option.case .
  qed
qed

lemma Step_wp:
  assumes ok: "track_ok (track_of v s)" and out: "callback_ok out"
    and bk: "v \<Longrightarrow> backup_video (config s) \<noteq> None"
    and valid: "\<And>h. head = Some h \<Longrightarrow> rr_status h = KEof \<or> has_frame (rr_frame h)"
    and kept: "needs_head (track_of v s) \<Longrightarrow> \<exists>h. head = Some h \<and> has_frame (rr_frame h)"
  shows "wp (Step L v head now out) (step_post L v head s) (\<lambda>e t. e \<noteq> Undefined_behaviour) s"
proof -
  let ?T = "track_of v s" and ?E = "\<lambda>e t. e \<noteq> Undefined_behaviour"
  have correct: "wp (Correct L v h now out) (step_post L v head s) ?E s1"
    if "head = Some h" "has_frame (rr_frame h)" "fill_until ?T = None"
      "track_of v s1 = ?T\<lparr>pending_real_pts := None\<rparr>" "rest_same v s s1" "clk s1 = clk s" for h s1
  proof -
    have bk1: "v \<Longrightarrow> backup_video (config s1) \<noteq> None" using bk that(5) by (simp add: rest_same_def)
    have "track_ok (track_of v s1)" using ok that(4) by (auto simp: track_ok_def)
    from Correct_wp [OF _ _ this out bk1 that(2), where now = now and L = L]
    have w: "wp (Correct L v h now out) (correct_post L v h s1) ?E s1" using that(3,4) by simp
    show ?thesis
    proof (rule wp_cons [OF w])
      fix r t assume c: "correct_post L v h s1 r t"
      have "step_post L v head s1 r t"
        unfolding that(1) by (rule correct_step [OF c that(2)]) (simp add: that(4))
      then show "step_post L v head s r t"
        by (rule step_post_cleared [OF _ that(4-6)])
          (use c in \<open>auto simp: correct_post_def correct_from_def split: option.splits\<close>)
    qed simp
  qed
  show ?thesis
  proof (cases "fill_until ?T")
    case (Some u)
    with ok obtain n where n: "next_pts ?T = Some n" by (auto simp: track_ok_def)
    obtain h where h: "needs_head ?T \<longrightarrow> head = Some h \<and> has_frame (rr_frame h)"
      using kept by (cases "needs_head ?T") auto
    have "wp (Fill L v head now out) (fill_post L v n s) ?E s"
      using h Some by (intro Fill_wp [OF n Some ok out bk, where i = h]) (auto simp: needs_head_def)
    then have "wp (Fill L v head now out) (step_post L v head s) ?E s"
      by (rule wp_cons) (use n Some h in \<open>auto intro: fill_step [where n = n and h = h]\<close>)
    with Some show ?thesis by (simp add: Step_def wp_eqs)
  next
    case None
    show ?thesis
    proof (cases "pending_real_pts ?T")
      case (Some p)
      then obtain h where h: "head = Some h" "has_frame (rr_frame h)"
        using kept by (auto simp: needs_head_def)
      have "wp (Correct L v h now out) (step_post L v head s) ?E
          (upd_track v (\<lambda>t. t\<lparr>pending_real_pts := None\<rparr>) s)"
        using None by (intro correct [OF h]) simp_all
      with None Some h show ?thesis
        by (auto simp: Step_def wp_eqs intro!: idle_step [OF ok])
    next
      case idle: None
      then have cleared: "?T\<lparr>pending_real_pts := None\<rparr> = ?T" by (cases ?T) simp
      have rest: "\<not> needs_head ?T" using None idle by (simp add: needs_head_def)
      show ?thesis
      proof (cases head)
        case (Some h)
        have "wp (Correct L v h now out) (step_post L v head s) ?E s" if "rr_status h \<noteq> KEof"
          by (rule correct) (use that Some valid None cleared in auto)
        with Some None idle rest show ?thesis
          by (auto simp: Step_def wp_eqs intro!: idle_step [OF ok])
      next
        case head: None
        have "wp (TimeOut L v now out) (step_post L v head s) ?E s"
          by (rule wp_cons [OF TimeOut_wp [OF ok idle None out bk]]) (auto intro: timeout_step)
        with head None idle rest show ?thesis
          by (auto simp: Step_def wp_eqs intro!: idle_step [OF ok])
      qed
    qed
  qed
qed

end
