(* ===== verification/Syncer.thy ===== *)
theory Syncer
  imports Syncer_Lemmas
begin

text \<open>
  \<^verbatim>\<open>syncer/syncer.cc\<close>: the public syncer. It validates the configuration and every input, then
  delegates to the timing state of \<open>Syncer_Timing\<close>. \<open>Syncer::Impl\<close> is \<open>syncer_impl\<close>; the latency
  observers only measure and are left out (the wrapper they put around an empty callback accepts
  every frame, as the empty callback does).

  \<open>session\<close> is the life of a syncer under the documented use: the caller offers an input per
  track and keeps it unchanged until a step consumes it.
\<close>

section \<open>Validation\<close>

definition ValidVideoFrame :: "av_lib \<Rightarrow> av_frame \<Rightarrow> bool" where
  "ValidVideoFrame L f \<longleftrightarrow>
     fr_has_data f \<and> 0 < fr_width f \<and> 0 < fr_height f \<and> fr_nb_samples f = 0 \<and>
     pix_fmt_known L (fr_format f)"

text \<open>\<open>backup\<close> is the caller's \<^verbatim>\<open>std::optional<ffmpeg::Frame>\<close>, which may hold a null frame.\<close>

definition ValidateConfig :: "av_lib \<Rightarrow> syncer_config \<Rightarrow> frame_slot \<Rightarrow> unit result" where
  "ValidateConfig L c backup =
     (let e = encoder c; o' = options c; fps = ec_fps e in
      if (\<not> video_enabled c \<and> \<not> audio_enabled c) \<or> initial_timeout o' \<le> 0 \<or> timeout o' \<le> 0 \<or>
         freeze o' < 0 \<or> max_streams_diff o' \<le> 0
      then Inl Invalid_argument
      else if video_enabled c \<and>
         (num fps \<le> 0 \<or> den fps \<le> 0 \<or> rescale_q L 1 (inv_q L fps) kMicroseconds \<le> 0)
      then Inl Invalid_argument
      else if video_enabled c \<and> has_value backup \<and>
         \<not> (has_frame backup \<and> ValidVideoFrame L (the_frame backup))
      then Inl Invalid_argument
      else if video_enabled c \<and> \<not> has_value backup \<and>
         (ec_width e \<le> 0 \<or> ec_height e \<le> 0 \<or> \<not> pix_fmt_known L (ec_pixel_format e) \<or>
          pix_fmt_hwaccel L (ec_pixel_format e))
      then Inl Invalid_argument
      else if audio_enabled c \<and>
         (ec_sample_rate e \<le> 0 \<or> \<not> sample_fmt_known L (ec_sample_format e) \<or>
          \<not> layout_check L (ec_layout e))
      then Inl Invalid_argument
      else Inr ())"

definition ValidateInput :: "av_lib \<Rightarrow> read_result \<Rightarrow> bool \<Rightarrow> syncer_config \<Rightarrow> unit result" where
  "ValidateInput L i v c =
     (if \<not> (if v then video_enabled c else audio_enabled c) then Inl Invalid_argument
      else if rr_status i = KEof then (if has_value (rr_frame i) then Inl Invalid_argument else Inr ())
      else if rr_status i \<noteq> KFrame \<or> \<not> has_value (rr_frame i) \<or> \<not> has_frame (rr_frame i) \<or>
         \<not> fr_has_data (in_frame i) \<or> num (rr_time_base i) \<le> 0 \<or> den (rr_time_base i) \<le> 0 \<or>
         fr_pts (in_frame i) = AV_NOPTS_VALUE
      then Inl Invalid_argument
      else let p = rescale_q L (fr_pts (in_frame i)) (rr_time_base i) kMicroseconds in
        if p = AV_NOPTS_VALUE \<or> p = i64_max then Inl Overflow_error
        else if v
        then (if \<not> ValidVideoFrame L (in_frame i) \<or>
                rescale_q L 1 (inv_q L (ec_fps (encoder c))) (rr_time_base i) \<le> 0
              then Inl Invalid_argument else Inr ())
        else (if fr_nb_samples (in_frame i) \<le> 0 \<or>
                fr_format (in_frame i) \<noteq> ec_sample_format (encoder c) \<or>
                fr_sample_rate (in_frame i) \<noteq> ec_sample_rate (encoder c) \<or>
                layout_compare L (fr_layout (in_frame i)) (ec_layout (encoder c)) \<noteq> 0
              then Inl Invalid_argument else Inr ()))"

section \<open>The public operations\<close>

record syncer_impl =
  im_config :: syncer_config
  im_timing :: syncer

definition Syncer_new :: "av_lib \<Rightarrow> syncer_config \<Rightarrow> frame_slot \<Rightarrow> syncer_impl result" where
  "Syncer_new L c backup =
     chain (ValidateConfig L c backup) (\<lambda>_.
     let c = c\<lparr>backup_video := (if has_frame backup then Some (the_frame backup) else None)\<rparr>
     in chain (SyncerTiming L c) (\<lambda>t. Inr \<lparr>im_config = c, im_timing = t\<rparr>))"

definition Syncer_Step ::
    "av_lib \<Rightarrow> bool \<Rightarrow> read_result option \<Rightarrow> int \<Rightarrow> on_output \<Rightarrow>
     syncer_impl \<Rightarrow> syncer_step result \<times> syncer_impl" where
  "Syncer_Step L v head now out im =
     (if \<not> (if v then video_enabled (im_config im) else audio_enabled (im_config im))
      then (Inl Invalid_argument, im)
      else if now < 0 then (Inl Invalid_argument, im)
      else case (case head of None \<Rightarrow> Inr () | Some h \<Rightarrow> ValidateInput L h v (im_config im)) of
             Inl e \<Rightarrow> (Inl e, im)
           | Inr _ \<Rightarrow> (case Step L v head now out (im_timing im) of (r, t) \<Rightarrow> (r, im\<lparr>im_timing := t\<rparr>)))"

definition Syncer_Reset :: "av_lib \<Rightarrow> syncer_impl \<Rightarrow> unit result \<times> syncer_impl" where
  "Syncer_Reset L im =
     (case SyncerTiming L (im_config im) of
        Inl e \<Rightarrow> (Inl e, im)
      | Inr t \<Rightarrow> (Inr (), im\<lparr>im_timing := t\<rparr>))"

lemma ValidateInput_frame:
  "ValidateInput L i v c = Inr u \<Longrightarrow> rr_status i = KEof \<or> has_frame (rr_frame i)"
  by (auto simp: ValidateInput_def Let_def split: if_splits)

lemma ValidateInput_safe: "ValidateInput L i v c \<noteq> Inl Undefined_behaviour"
  by (simp add: ValidateInput_def Let_def)

section \<open>The documented use\<close>

inductive session :: "av_lib \<Rightarrow> syncer_impl \<Rightarrow> (bool \<Rightarrow> read_result option) \<Rightarrow> bool" for L where
  start: "Syncer_new L c backup = Inr im \<Longrightarrow> session L im (\<lambda>_. None)"
| offer: "session L im held \<Longrightarrow> held v = None \<Longrightarrow> session L im (held(v := Some i))"
| step: "session L im held \<Longrightarrow> callback_ok out \<Longrightarrow>
    Syncer_Step L v (held v) now out im = (Inr r, im') \<Longrightarrow>
    session L im' (if st_consumed r then held(v := None) else held)"
| reset: "session L im held \<Longrightarrow> Syncer_Reset L im = (Inr (), im') \<Longrightarrow> session L im' held"

definition impl_ok :: "syncer_impl \<Rightarrow> (bool \<Rightarrow> read_result option) \<Rightarrow> bool" where
  "impl_ok im held \<longleftrightarrow>
     (video_enabled (im_config im) \<longrightarrow> backup_video (config (im_timing im)) \<noteq> None) \<and>
     (\<forall>v. track_ok (track_of v (im_timing im)) \<and>
        (needs_head (track_of v (im_timing im)) \<longrightarrow> (\<exists>h. held v = Some h \<and> has_frame (rr_frame h))))"

lemma SyncerTiming_ok:
  assumes "SyncerTiming L c = Inr s"
  shows "track_ok (track_of v s)" "\<not> needs_head (track_of v s)"
    "video_enabled c \<Longrightarrow> backup_video (config s) \<noteq> None"
  using assms
  by (cases v; auto simp: SyncerTiming_def Let_def track_of_def seed_track_def new_track_def
      track_ok_def needs_head_def split: if_splits)+

lemma Step_session:
  assumes "impl_ok im held" and "callback_ok out"
    and "Syncer_Step L v (held v) now out im = (r, im')"
  shows "r \<noteq> Inl Undefined_behaviour"
    and "r = Inr y \<Longrightarrow> step_post L v (held v) (im_timing im) y (im_timing im') \<and>
       im_config im' = im_config im"
proof -
  let ?s = "im_timing im"
  have "wp (Step L v (held v) now out) (step_post L v (held v) ?s) (\<lambda>e t. e \<noteq> Undefined_behaviour) ?s"
    if "if v then video_enabled (im_config im) else audio_enabled (im_config im)"
      "\<And>h. held v = Some h \<Longrightarrow> rr_status h = KEof \<or> has_frame (rr_frame h)"
    using assms(1,2) that by (intro Step_wp) (auto simp: impl_ok_def)
  then show "r \<noteq> Inl Undefined_behaviour"
    and "r = Inr y \<Longrightarrow> step_post L v (held v) ?s y (im_timing im') \<and> im_config im' = im_config im"
    using assms(3)
    by (auto simp: Syncer_Step_def wp_def split: if_splits option.splits sum.splits prod.splits
        dest!: ValidateInput_frame simp: ValidateInput_safe)
qed

lemma session_ok: "session L im held \<Longrightarrow> impl_ok im held"
proof (induction rule: session.induct)
  case (start c backup im)
  then obtain t where "SyncerTiming L (im_config im) = Inr t" "im_timing im = t"
    by (auto simp: Syncer_new_def Let_def)
  with SyncerTiming_ok [of L "im_config im" t] show ?case by (auto simp: impl_ok_def)
next
  case (offer im held v i)
  then show ?case by (auto simp: impl_ok_def)
next
  case (step im held out v now r im')
  have p: "step_post L v (held v) (im_timing im) r (im_timing im')" "im_config im' = im_config im"
    using Step_session(2) [OF step.IH step.hyps(2,3)] by auto
  let ?held = "if st_consumed r then held(v := None) else held"
  have same: "track_of (\<not> v) (im_timing im') = track_of (\<not> v) (im_timing im)"
    "config (im_timing im') = config (im_timing im)"
    and own: "track_ok (track_of v (im_timing im'))"
    "needs_head (track_of v (im_timing im')) \<longrightarrow>
       \<not> st_consumed r \<and> (\<exists>h. held v = Some h \<and> has_frame (rr_frame h))"
    using p(1) by (simp_all add: step_post_def Let_def rest_same_def)
  have "track_ok (track_of w (im_timing im')) \<and>
      (needs_head (track_of w (im_timing im')) \<longrightarrow> (\<exists>h. ?held w = Some h \<and> has_frame (rr_frame h)))" for w
  proof (cases "w = v")
    case True
    with own show ?thesis by auto
  next
    case False
    then have "w = (\<not> v)" by blast
    with same(1) step.IH show ?thesis by (auto simp: impl_ok_def)
  qed
  with same(2) p(2) step.IH show ?case by (simp add: impl_ok_def)
next
  case (reset im held im')
  then obtain t where "SyncerTiming L (im_config im) = Inr t" "im_timing im' = t"
    "im_config im' = im_config im"
    by (auto simp: Syncer_Reset_def split: sum.splits)
  with SyncerTiming_ok [of L "im_config im" t] show ?case by (auto simp: impl_ok_def)
qed

section \<open>Progress of a forward jump\<close>

text \<open>What a step that closes a forward batch leaves behind for the retained head.\<close>

definition released_at :: "av_lib \<Rightarrow> track \<Rightarrow> read_result \<Rightarrow> syncer \<Rightarrow> bool \<Rightarrow> bool" where
  "released_at L T i t v \<longleftrightarrow>
     (\<exists>m. next_pts (track_of v t) = Some m \<and> pending_real_pts (track_of v t) = Some m \<and>
        fill_until (track_of v t) = None \<and> time_base (track_of v t) = time_base T \<and>
        shift (track_of v t) = Some (m - head_pts L T i) \<and>
        ck_shift (clk t) = Some (us L T (m - head_pts L T i)))"

lemma FinishFill_released:
  assumes "next_pts (track_of v s) = Some n" and "forward_fill (track_of v s)"
    and "has_frame (rr_frame i)"
  shows "wp (FinishFill L v (Some i) p now b)
     (\<lambda>w t. released_at L (track_of v s) i t v \<and> suspended_until (track_of v t) = w) (\<lambda>_ _. True) s"
  using assms
  by (auto intro!: wp_cons [OF FinishFill_wp [where n = n and i = i]]
      simp: finished_forward_def released_at_def)

lemma Fill_released:
  assumes n: "next_pts (track_of v s) = Some n" and u: "fill_until (track_of v s) = Some u"
    and fwd: "forward_fill (track_of v s)" and i: "has_frame (rr_frame i)" and out: "callback_ok out"
  shows "wp (Fill L v (Some i) now out)
     (\<lambda>r t. fill_until (track_of v t) = None \<longrightarrow>
        released_at L (track_of v s) i t v \<and> suspended_until (track_of v t) = st_wake_us r)
     (\<lambda>_ _. True) s"
proof -
  have h: "head_pts L T' i = head_pts L T i" "us L T' = us L T" if "time_base T' = time_base T" for T T'
    using that by (auto simp: head_pts_def us_def)
  have rel: "released_at L T' i = released_at L T i" if "time_base T' = time_base T" for T T'
    using that h [OF that] by (intro ext) (simp add: released_at_def)
  let ?P = "\<lambda>r t. fill_until (track_of v t) = None \<longrightarrow>
      released_at L (track_of v s) i t v \<and> suspended_until (track_of v t) = st_wake_us r"
  let ?s1 = "\<lambda>d m. upd_track v (\<lambda>t. t\<lparr>filled_us := m\<rparr>)
      (upd_track v (\<lambda>t. t\<lparr>next_pts := Some (n + d), has_output := True, filled := filled t + 1\<rparr>) s)"
  have accepted: "wp (FinishFill L v (Some i) n now False)
      (\<lambda>w. wp (ret \<lparr>st_consumed = False, st_frame = Some f, st_wake_us = w, st_blocked = False\<rparr>)
        ?P (\<lambda>_ _. True)) (\<lambda>_ _. True) (?s1 d m)" for f d m
  proof (rule wp_cons [OF FinishFill_released [where n = "n + d", OF _ _ i]])
    have "released_at L (track_of v (?s1 d m)) i = released_at L (track_of v s) i"
      by (rule rel) simp
    then show "wp (ret \<lparr>st_consumed = False, st_frame = Some f, st_wake_us = w, st_blocked = False\<rparr>)
        ?P (\<lambda>_ _. True) t"
      if "released_at L (track_of v (?s1 d m)) i t v \<and> suspended_until (track_of v t) = w" for w t
      using that by (simp add: wp_eqs)
  qed (simp_all add: fwd)
  have rejected: "wp (FinishFill L v (Some i) n now True)
      (\<lambda>w. wp (ret \<lparr>st_consumed = False, st_frame = None, st_wake_us = w, st_blocked = True\<rparr>)
        ?P (\<lambda>_ _. True)) (\<lambda>_ _. True) s"
    by (rule wp_cons [OF FinishFill_released [OF n fwd i]]) (simp_all add: wp_eqs)
  show ?thesis
    unfolding Fill_def
    by (simp add: wp_eqs n u del: wp_if, intro allI impI conjI wp_emit [OF out])
      (auto simp: wp_eqs u intro: accepted rejected)
qed

lemma Step_release:
  assumes r: "released_at L T h s v" and tb: "v \<Longrightarrow> cmp_q L (time_base T) (rr_time_base h) = 0"
    and now: "suspended_until (track_of v s) \<le> now" and h: "has_frame (rr_frame h)"
    and m: "0 < max_streams_diff (options (config s))"
  shows "wp (Step L v (Some h) now None)
     (\<lambda>r t. st_consumed r \<and> (\<exists>m d. next_pts (track_of v s) = Some m \<and>
        st_frame r = Some (Stamp (time_base T) m d (in_frame h))))
     (\<lambda>e _. e = Overflow_error \<or> e = Invalid_argument) s"
proof -
  from r obtain m where T: "next_pts (track_of v s) = Some m" "pending_real_pts (track_of v s) = Some m"
    "fill_until (track_of v s) = None" "time_base (track_of v s) = time_base T"
    "shift (track_of v s) = Some (m - head_pts L T h)" "ck_shift (clk s) = Some (us L T (m - head_pts L T h))"
    by (auto simp: released_at_def)
  have d: "VideoDuration L c b = Inl e \<Longrightarrow> e = Overflow_error \<or> e = Invalid_argument" for c b e
    by (auto simp: VideoDuration_def chain_Inl split: if_splits)
  have f: "frame_duration L v c b f = Inl e \<Longrightarrow> e = Overflow_error \<or> e = Invalid_argument" for c b e f
    by (auto simp: frame_duration_def d split: if_splits)
  have same: "\<not> (v \<and> cmp_q L (time_base T) (rr_time_base h) \<noteq> 0)" using tb by auto
  let ?E = "\<lambda>e _. e = Overflow_error \<or> e = Invalid_argument"
  let ?Q = "\<lambda>r t. st_consumed r \<and> (\<exists>m d. next_pts (track_of v s) = Some m \<and>
        st_frame r = Some (Stamp (time_base T) m d (in_frame h)))"
  let ?s1 = "upd_track v (\<lambda>t. t\<lparr>pending_real_pts := None\<rparr>) s"
  have real: "wp (Real L v h m now None) ?Q ?E ?s1"
    using T by (auto simp: Real_def wp_eqs emit_def Let_def dest: f)
  have us: "us L (track_of v ?s1) = us L T" using T(4) by (intro ext) (simp add: us_def)
  have dis: "discontinuous L c (track_of v ?s1) m = Inr False" for c
    using T by (simp add: discontinuous_def)
  have syn: "desynced L (config s) (track_of v ?s1) (us L T (m - head_pts L T h)) = Inr b \<Longrightarrow> \<not> b"
    "desynced L (config s) (track_of v ?s1) (us L T (m - head_pts L T h)) = Inl e \<Longrightarrow> e = Overflow_error" for b e
    using T m us by (auto simp: desynced_def chain_Inl Apart_def)
  have shared: "wp (Correct_shared L v h (head_pts L T h) (us L T (m - head_pts L T h)) now None) ?Q ?E ?s1"
    unfolding Correct_shared_def using T real dis syn by (auto simp: wp_eqs)
  have "wp (Correct L v h now None) ?Q ?E ?s1"
    unfolding Correct_def
    using T same h shared
    by (auto simp: wp_eqs head_pts_def original_pts_def)
  with T now show ?thesis by (simp add: Step_def wp_eqs)
qed

section \<open>Bounded batches\<close>

text \<open>
  Consecutive steps of one track while its batch is open, one \<open>(now, callback)\<close> per step; a step
  that throws ends the run.
\<close>

fun fill_steps ::
    "av_lib \<Rightarrow> bool \<Rightarrow> read_result option \<Rightarrow> (int \<times> on_output) list \<Rightarrow> syncer_impl \<Rightarrow>
     syncer_step result list \<times> syncer_impl" where
  "fill_steps L v head [] im = ([], im)"
| "fill_steps L v head ((now, out) # xs) im =
     (if fill_until (track_of v (im_timing im)) = None then ([], im)
      else case Syncer_Step L v head now out im of
             (Inl e, im') \<Rightarrow> ([Inl e], im')
           | (Inr r, im') \<Rightarrow> (case fill_steps L v head xs im' of (rs, im'') \<Rightarrow> (Inr r # rs, im'')))"

lemma open_batch:
  assumes "session L im held" and "fill_until (track_of v (im_timing im)) \<noteq> None"
  shows "0 \<le> filled (track_of v (im_timing im)) \<and> filled (track_of v (im_timing im)) < 5"
proof -
  have "track_ok (track_of v (im_timing im))" using session_ok [OF assms(1)] by (simp add: impl_ok_def)
  with assms(2) show ?thesis by (auto simp: track_ok_def)
qed

lemma batch_step:
  assumes "session L im held" and "callback_ok out" and "fill_until (track_of v (im_timing im)) \<noteq> None"
    and "Syncer_Step L v (held v) now out im = (Inr r, im')"
  shows "session L im' held" and "0 \<le> filled (track_of v (im_timing im))"
    "filled (track_of v (im_timing im)) < 5"
    and "fill_until (track_of v (im_timing im')) = None \<or>
      filled (track_of v (im_timing im')) = filled (track_of v (im_timing im)) + 1"
proof -
  let ?s = "im_timing im" and ?T = "track_of v (im_timing im)"
  obtain u where u: "fill_until ?T = Some u" using assms(3) by blast
  have ok: "impl_ok im held" using assms(1) by (rule session_ok)
  then have t: "track_ok ?T" by (simp add: impl_ok_def)
  with u obtain n where n: "next_pts ?T = Some n" by (auto simp: track_ok_def)
  show "0 \<le> filled ?T" "filled ?T < 5" using t u by (auto simp: track_ok_def)
  have step: "Step L v (held v) now out ?s = (Inr r, im_timing im')"
    and en: "v \<Longrightarrow> video_enabled (im_config im)"
    using assms(4) by (auto simp: Syncer_Step_def split: if_splits sum.splits prod.splits)
  have "wp (Step L v (held v) now out) (fill_post L v n ?s) (\<lambda>e t. e \<noteq> Undefined_behaviour) ?s"
  proof -
    obtain h where "forward_fill ?T \<longrightarrow> held v = Some h \<and> has_frame (rr_frame h)"
      using ok u by (auto simp: impl_ok_def needs_head_def)
    then have "wp (Fill L v (held v) now out) (fill_post L v n ?s) (\<lambda>e t. e \<noteq> Undefined_behaviour) ?s"
      using ok en by (intro Fill_wp [OF n u t assms(2), where i = h]) (auto simp: impl_ok_def)
    then show ?thesis using u by (simp add: Step_def wp_eqs)
  qed
  from wp_InrD [OF this step] have p: "fill_post L v n ?s r (im_timing im')" .
  then show "fill_until (track_of v (im_timing im')) = None \<or>
      filled (track_of v (im_timing im')) = filled ?T + 1"
    by (auto simp: fill_post_def split: if_splits)
  from p have "\<not> st_consumed r" by (simp add: fill_post_def)
  then show "session L im' held" using session.step [OF assms(1,2,4)] by simp
qed

lemma fill_steps_bound:
  assumes "session L im held" and "\<forall>(now, out) \<in> set xs. callback_ok out"
    and "fill_steps L v (held v) xs im = (rs, im')"
  shows "(fill_until (track_of v (im_timing im)) \<noteq> None \<longrightarrow>
          int (length rs) \<le> 5 - filled (track_of v (im_timing im))) \<and>
     (fill_until (track_of v (im_timing im')) \<noteq> None \<longrightarrow> (\<forall>r \<in> set rs. \<not> isl r) \<longrightarrow>
        length rs = length xs \<and>
        filled (track_of v (im_timing im')) = filled (track_of v (im_timing im)) + int (length rs))"
  using assms
proof (induction xs arbitrary: im rs)
  case Nil
  with open_batch [of L im held v] show ?case by auto
next
  case (Cons x xs)
  obtain now out where x: "x = (now, out)" by (cases x)
  show ?case
  proof (cases "fill_until (track_of v (im_timing im)) = None")
    case True
    with Cons.prems x show ?thesis by simp
  next
    case False
    have out: "callback_ok out" using Cons.prems(2) x by simp
    note ok = open_batch [OF Cons.prems(1) False]
    show ?thesis
    proof (cases "Syncer_Step L v (held v) now out im")
      case (Pair q im1)
      show ?thesis
      proof (cases q)
        case (Inl e)
        with Cons.prems(3) Pair False x have "rs = [Inl e]" by simp
        with ok show ?thesis by auto
      next
        case (Inr r)
        note b = batch_step [OF Cons.prems(1) out False Pair [unfolded Inr]]
        obtain rs1 where f: "fill_steps L v (held v) xs im1 = (rs1, im')" and rs: "rs = Inr r # rs1"
          using Cons.prems(3) Pair Inr False x by (auto split: prod.splits)
        have closed: "rs1 = []" "im' = im1" if "fill_until (track_of v (im_timing im1)) = None"
          using f that by (cases xs; auto)+
        have IH: "(fill_until (track_of v (im_timing im1)) \<noteq> None \<longrightarrow>
            int (length rs1) \<le> 5 - filled (track_of v (im_timing im1))) \<and>
          (fill_until (track_of v (im_timing im')) \<noteq> None \<longrightarrow> (\<forall>r \<in> set rs1. \<not> isl r) \<longrightarrow>
            length rs1 = length xs \<and>
            filled (track_of v (im_timing im')) = filled (track_of v (im_timing im1)) + int (length rs1))"
          using Cons.IH [OF b(1) _ f] Cons.prems(2) by simp
        show ?thesis
        proof (cases "fill_until (track_of v (im_timing im1)) = None")
          case True
          with closed rs b(2,3) show ?thesis by simp
        next
          case False
          with b(4) IH rs show ?thesis by auto
        qed
      qed
    qed
  qed
qed

lemma session_tolerance: "session L im held \<Longrightarrow> 0 < max_streams_diff (options (config (im_timing im)))
    \<and> options (im_config im) = options (config (im_timing im))"
proof (induction rule: session.induct)
  case (start c backup im)
  then show ?case
    by (auto simp: Syncer_new_def SyncerTiming_def ValidateConfig_def Let_def split: if_splits)
next
  case (step im held out v now r im')
  have "step_post L v (held v) (im_timing im) r (im_timing im')" "im_config im' = im_config im"
    using Step_session(2) [OF session_ok [OF step.hyps(1)] step.hyps(2,3)] by auto
  with step.IH show ?case by (simp add: step_post_def Let_def rest_same_def)
next
  case (reset im held im')
  then show ?case by (auto simp: Syncer_Reset_def SyncerTiming_def Let_def split: sum.splits if_splits)
qed

text \<open>The fields of a stamped frame.\<close>

lemma Stamp_sel [simp]:
  "fr_pts (Stamp tb p d f) = p" "fr_duration (Stamp tb p d f) = d" "fr_time_base (Stamp tb p d f) = tb"
  "Stamp tb' p' d' (Stamp tb p d f) = Stamp tb' p' d' f"
  by (simp_all add: Stamp_def)

text \<open>
  The position at which a replacement frame continues the track: its output end, the same end in
  the time base of the head, or the configured start of an untouched track.
\<close>

definition resume_at :: "av_lib \<Rightarrow> bool \<Rightarrow> read_result option \<Rightarrow> syncer \<Rightarrow> int \<Rightarrow> bool" where
  "resume_at L v head s p \<longleftrightarrow>
     (let T = track_of v s in
      next_pts T = Some p \<or>
      (\<exists>h T0. head = Some h \<and> head_track L v h T T0 \<and> next_pts T0 = Some p) \<or>
      (next_pts T = None \<and> p = ticks L T (start_ts (options (config s)))))"

lemma fill_steps_session:
  "session L im held \<Longrightarrow> \<forall>(now, out) \<in> set xs. callback_ok out \<Longrightarrow>
   fill_steps L v (held v) xs im = (rs, im') \<Longrightarrow> \<forall>r \<in> set rs. \<not> isl r \<Longrightarrow> session L im' held"
proof (induction xs arbitrary: im rs)
  case (Cons x xs)
  then show ?case
    by (cases x; cases "fill_until (track_of v (im_timing im)) = None")
      (auto split: prod.splits sum.splits dest: batch_step(1))
qed simp


section \<open>A concrete session\<close>

text \<open>
  A video session at 25 frames per second: the first picture is passed on, the second one lies
  two frames ahead and opens a forward batch, whose two replacement frames take one step each.
\<close>

definition sample_config :: syncer_config where
  "sample_config = \<lparr>
     encoder = \<lparr>ec_width = 640, ec_height = 360, ec_fps = avq 25 1, ec_pixel_format = 0,
       ec_sample_rate = 48000, ec_sample_format = 8, ec_layout = 3\<rparr>,
     backup_video = None,
     options = \<lparr>initial_timeout = 4000000, timeout = 1000000, freeze = 5000000,
       max_streams_diff = 1000, start_ts = 0, forward_start_shift = False\<rparr>\<rparr>"

definition sample_picture :: "int \<Rightarrow> read_result" where
  "sample_picture pts = null_result\<lparr>rr_status := KFrame,
     rr_frame := Has_frame (fresh_frame\<lparr>fr_pts := pts, fr_width := 640, fr_height := 360,
       fr_format := 0, fr_has_data := True, fr_buffers := 7\<rparr>),
     rr_time_base := avq 1 25\<rparr>"

definition right :: "'a result \<Rightarrow> 'a" where
  "right r = (case r of Inr a \<Rightarrow> a | Inl _ \<Rightarrow> undefined)"

lemma right_eq: "\<not> isl r \<Longrightarrow> r = Inr (right r)"
  by (cases r) (simp_all add: right_def)

lemma rightE:
  assumes "\<not> isl (fst x)" obtains r where "x = (Inr r, snd x)" "right (fst x) = r"
  using assms right_eq [OF assms] by (cases x) auto

definition demo_head :: "read_result option" where
  "demo_head = Some (sample_picture 3)"

definition demo_step :: "read_result option \<Rightarrow> int \<Rightarrow> on_output \<Rightarrow> syncer_impl \<Rightarrow> syncer_step result \<times> syncer_impl" where
  "demo_step h now out im = Syncer_Step ref_lib True h now out im"

definition demo0 :: syncer_impl where
  "demo0 = right (Syncer_new ref_lib sample_config No_frame)"

definition demo1 :: syncer_impl where
  "demo1 = snd (demo_step (Some (sample_picture 0)) 0 None demo0)"

definition demo2 :: syncer_impl where
  "demo2 = snd (demo_step demo_head 40000 None demo1)"

lemma session_next:
  assumes "session ref_lib im held" and "held True = h" and "callback_ok out"
    and "\<not> isl (fst (demo_step h now out im))"
  shows "session ref_lib (snd (demo_step h now out im))
     (if st_consumed (right (fst (demo_step h now out im))) then held(True := None) else held)"
  using session.step [OF assms(1,3), of True now "right (fst (demo_step h now out im))"]
    right_eq [OF assms(4)] assms(2)
  unfolding demo_step_def by (metis prod.collapse)

lemma callback_ok_simps [simp]: "callback_ok None" "callback_ok (Some (\<lambda>_. Inr b))"
  by (simp_all add: callback_ok_def)

lemma demo0_session: "session ref_lib demo0 (\<lambda>_. None)"
proof (rule session.start)
  have "\<not> isl (Syncer_new ref_lib sample_config No_frame)" by code_simp
  then show "Syncer_new ref_lib sample_config No_frame = Inr demo0"
    unfolding demo0_def by (rule right_eq)
qed

lemma demo1_session: "session ref_lib demo1 ((\<lambda>_. None)(True := None))"
proof -
  have "\<not> isl (fst (demo_step (Some (sample_picture 0)) 0 None demo0)) \<and>
      st_consumed (right (fst (demo_step (Some (sample_picture 0)) 0 None demo0)))" by code_simp
  then show ?thesis
    using session_next [OF session.offer [OF demo0_session, where v = True and i = "sample_picture 0"], of
        "Some (sample_picture 0)" None 0]
    by (simp add: demo1_def)
qed

definition demo_held :: "bool \<Rightarrow> read_result option" where
  "demo_held = (\<lambda>_. None)(True := demo_head)"

lemma demo_held_True [simp]: "demo_held True = demo_head"
  by (simp add: demo_held_def)

lemma demo_kept:
  assumes "session ref_lib im demo_held"
    and "\<not> isl (fst (demo_step demo_head now None im)) \<and>
      \<not> st_consumed (right (fst (demo_step demo_head now None im)))"
  shows "session ref_lib (snd (demo_step demo_head now None im)) demo_held"
  using session_next [OF assms(1), of demo_head None now] assms(2) by simp

lemma demo2_session: "session ref_lib demo2 demo_held"
  unfolding demo2_def
proof (rule demo_kept)
  show "session ref_lib demo1 demo_held"
    using session.offer [OF demo1_session, where v = True and i = "sample_picture 3"]
    by (simp add: demo_held_def demo_head_def)
qed code_simp

section \<open>Properties\<close>

text \<open>
  A syncer used as documented never dereferences an empty optional. In every session (any
  interleaving of offers, steps of both tracks and resets in which the caller keeps a head until
  a step consumes it) the next step on either track, whatever its time and its callback, does not
  reach \<^verbatim>\<open>*next_pts\<close>, \<^verbatim>\<open>*fill_until\<close>, \<^verbatim>\<open>*shift\<close>, \<^verbatim>\<open>*last_real\<close>, \<^verbatim>\<open>*backup_video\<close> or the null
  head with nothing there.
\<close>

theorem syncer_no_empty_deref:
  assumes "session L im held" and "callback_ok out"
  shows "fst (Syncer_Step L v (held v) now out im) \<noteq> Inl Undefined_behaviour"
  using Step_session(1) [OF session_ok [OF assms(1)] assms(2)] by (metis prod.collapse)

theorem syncer_no_empty_deref_witness:
  "fst (Syncer_Step ref_lib True demo_head 40000 None demo2) \<noteq> Inl Undefined_behaviour \<and>
   session ref_lib demo2 demo_held"
  using syncer_no_empty_deref [OF demo2_session, of None True 40000] demo2_session by simp

text \<open>
  C8: Every frame a step emits continues its track. Its end is the new output end of the track,
  in the time base the frame carries. A replacement frame starts exactly at the old end. A real
  frame is the caller's head with new timestamps only; once a shared shift exists it starts exactly
  at the old end or less than \<^verbatim>\<open>max_streams_diff\<close> away from it, and afterwards the shift of the
  track agrees with the shared one up to that tolerance.
\<close>

theorem syncer_output_continuous:
  assumes "session L im held" and "callback_ok out"
    and "Syncer_Step L v (held v) now out im = (Inr r, im')" and "st_frame r = Some f"
  shows "\<not> st_blocked r \<and>
    next_pts (track_of v (im_timing im')) = Some (fr_pts f + fr_duration f) \<and>
    fr_time_base f = time_base (track_of v (im_timing im')) \<and>
    (if st_consumed r
     then \<exists>h T0. held v = Some h \<and> f = Stamp (fr_time_base f) (fr_pts f) (fr_duration f) (in_frame h) \<and>
       head_track L v h (track_of v (im_timing im)) T0 \<and>
       continuous L (config (im_timing im)) (ck_shift (clk (im_timing im))) T0 (fr_pts f) \<and>
       shift_synced L (config (im_timing im)) (track_of v (im_timing im')) (ck_shift (clk (im_timing im')))
     else resume_at L v (held v) (im_timing im) (fr_pts f))"
proof -
  have "step_post L v (held v) (im_timing im) r (im_timing im')"
    using Step_session(2) [OF session_ok [OF assms(1)] assms(2,3)] by auto
  with assms(4) show ?thesis
    by (cases "st_consumed r") (auto simp: step_post_def resume_at_def Let_def)
qed

theorem syncer_output_continuous_witness:
  "\<exists>r f. fst (Syncer_Step ref_lib True (Some (sample_picture 0)) 0 None demo0) = Inr r \<and>
     st_consumed r \<and> st_frame r = Some f \<and>
     next_pts (track_of True (im_timing demo1)) = Some (fr_pts f + fr_duration f)"
proof -
  let ?x = "Syncer_Step ref_lib True (Some (sample_picture 0)) 0 None demo0"
  let ?r = "right (fst ?x)"
  have e: "\<not> isl (fst ?x) \<and> st_consumed ?r \<and> st_frame ?r \<noteq> None" by code_simp
  then obtain f where f: "st_frame ?r = Some f" by blast
  have d: "snd ?x = demo1" by (simp add: demo1_def demo_step_def)
  from e obtain r where x: "?x = (Inr r, demo1)" and r: "?r = r" unfolding d [symmetric] by (blast elim: rightE)
  from syncer_output_continuous [OF session.offer [OF demo0_session, where v = True and i = "sample_picture 0"],
      of None True 0 r demo1 f] x f e r
  show ?thesis by (intro exI [of _ r] exI [of _ f]) simp
qed

text \<open>
  A blocked step commits nothing: it returns no frame, does not consume the head, leaves the
  other track and the configuration untouched, and the output end of the track is where the next
  frame will start again (in the time base of the head, if that was just adopted).
\<close>

theorem syncer_blocked_commits_nothing:
  assumes "session L im held" and "callback_ok out"
    and "Syncer_Step L v (held v) now out im = (Inr r, im')" and "st_blocked r"
  shows "st_frame r = None \<and> \<not> st_consumed r \<and>
    track_of (\<not> v) (im_timing im') = track_of (\<not> v) (im_timing im) \<and> im_config im' = im_config im \<and>
    (next_pts (track_of v (im_timing im')) = next_pts (track_of v (im_timing im)) \<or>
     (\<exists>h T0. held v = Some h \<and> head_track L v h (track_of v (im_timing im)) T0 \<and>
        next_pts (track_of v (im_timing im')) = next_pts T0) \<or>
     (next_pts (track_of v (im_timing im)) = None \<and>
      next_pts (track_of v (im_timing im')) =
        Some (ticks L (track_of v (im_timing im)) (start_ts (options (config (im_timing im)))))))"
proof -
  have "step_post L v (held v) (im_timing im) r (im_timing im') \<and> im_config im' = im_config im"
    using Step_session(2) [OF session_ok [OF assms(1)] assms(2,3)] by auto
  with assms(4) show ?thesis
    by (simp add: step_post_def Let_def rest_same_def)
qed

theorem syncer_blocked_commits_nothing_witness:
  "\<exists>r im'. Syncer_Step ref_lib True (Some (sample_picture 0)) 0 (Some (\<lambda>_. Inr False)) demo0 = (Inr r, im') \<and>
     st_blocked r \<and> st_frame r = None \<and> \<not> st_consumed r \<and> im_config im' = im_config demo0"
proof -
  let ?x = "Syncer_Step ref_lib True (Some (sample_picture 0)) 0 (Some (\<lambda>_. Inr False)) demo0"
  let ?r = "right (fst ?x)"
  have e: "\<not> isl (fst ?x) \<and> st_blocked ?r" by code_simp
  then obtain r im' where x: "?x = (Inr r, im')" and r: "?r = r" and d: "snd ?x = im'" by (metis rightE)
  from syncer_blocked_commits_nothing [OF session.offer [OF demo0_session, where v = True and i = "sample_picture 0"],
      of "Some (\<lambda>_. Inr False)" True 0 r im'] x e r
  show ?thesis by (intro exI [of _ r] exI [of _ im']) simp
qed

text \<open>
  Missing input produces no early replacement. When a track without an open batch emits a
  frame although the caller has no input, its waiting deadline has passed, its output end lies
  before the shared media clock, and, if its last frame was a real one, by more than the
  configured timeout.
\<close>

theorem filler_needs_lag:
  assumes "session L im held" and "callback_ok out" and "held v = None"
    and "fill_until (track_of v (im_timing im)) = None"
    and "Syncer_Step L v (held v) now out im = (Inr r, im')" and "st_frame r = Some f"
  shows "wait_until (track_of v (im_timing im)) \<le> now \<and>
    fr_pts f < ticks L (track_of v (im_timing im)) (media_now (clk (im_timing im)) now) \<and>
    (last_success (track_of v (im_timing im)) \<longrightarrow>
       timeout (options (config (im_timing im))) <
         media_now (clk (im_timing im)) now - us L (track_of v (im_timing im)) (fr_pts f))"
proof -
  let ?s = "im_timing im"
  have ok: "impl_ok im held" using assms(1) by (rule session_ok)
  then have idle: "pending_real_pts (track_of v ?s) = None" "track_ok (track_of v ?s)"
    using assms(3) by (auto simp: impl_ok_def needs_head_def)
  have step: "Step L v None now out ?s = (Inr r, im_timing im')" and en: "v \<Longrightarrow> video_enabled (im_config im)"
    using assms(3,5) by (auto simp: Syncer_Step_def split: if_splits prod.splits)
  have w: "wp (TimeOut L v now out) (timeout_post L v now ?s) (\<lambda>e t. e \<noteq> Undefined_behaviour) ?s"
    using ok en by (intro TimeOut_wp idle assms(2,4)) (auto simp: impl_ok_def)
  have "wp (Step L v None now out) (\<lambda>r t. st_frame r = None \<or>
      (wait_until (track_of v ?s) \<le> now \<and> timeout_post L v now ?s r t)) (\<lambda>e t. e \<noteq> Undefined_behaviour) ?s"
    using idle(1) assms(4) by (auto simp: Step_def wp_eqs intro: wp_cons [OF w])
  from wp_InrD [OF this step] assms(6) show ?thesis
    by (auto simp: timeout_post_def Let_def)
qed

theorem filler_needs_lag_witness:
  "\<exists>r f im'. Syncer_Step ref_lib True None 4100000 None demo1 = (Inr r, im') \<and> st_frame r = Some f \<and>
     fr_pts f < ticks ref_lib (track_of True (im_timing demo1)) (media_now (clk (im_timing demo1)) 4100000)"
proof -
  let ?x = "Syncer_Step ref_lib True None 4100000 None demo1"
  let ?r = "right (fst ?x)"
  have e: "\<not> isl (fst ?x) \<and> st_frame ?r \<noteq> None \<and> fill_until (track_of True (im_timing demo1)) = None"
    by code_simp
  then obtain r im' where x: "?x = (Inr r, im')" and r: "?r = r" and d: "snd ?x = im'" by (metis rightE)
  from e obtain f where f: "st_frame ?r = Some f" by blast
  from filler_needs_lag [OF demo1_session, of None True 4100000 r im' f] x f e r
  show ?thesis by (intro exI [of _ r] exI [of _ f] exI [of _ im']) simp
qed

text \<open>
  A replacement batch is bounded. From any reachable state, running one track while its batch
  is open takes at most five steps, accepted or not; after five steps that did not throw the batch
  is closed.
\<close>

theorem batch_bounded:
  assumes "session L im held" and "\<forall>(now, out) \<in> set xs. callback_ok out"
    and "fill_until (track_of v (im_timing im)) \<noteq> None"
    and "fill_steps L v (held v) xs im = (rs, im')"
  shows "length rs \<le> 5 \<and>
    (5 \<le> length xs \<longrightarrow> (\<forall>r \<in> set rs. \<not> isl r) \<longrightarrow> fill_until (track_of v (im_timing im')) = None)"
proof -
  note b = fill_steps_bound [OF assms(1,2,4)] and o' = open_batch [OF assms(1,3)]
  have "int (length rs) \<le> 5 - filled (track_of v (im_timing im))" using b assms(3) by blast
  moreover have "fill_until (track_of v (im_timing im')) = None"
    if "5 \<le> length xs" "\<forall>r \<in> set rs. \<not> isl r"
  proof (rule ccontr)
    assume open': "fill_until (track_of v (im_timing im')) \<noteq> None"
    with b that(2) have "length rs = length xs"
      "filled (track_of v (im_timing im')) = filled (track_of v (im_timing im)) + int (length rs)"
      by blast+
    moreover have "filled (track_of v (im_timing im')) < 5"
      using open_batch [OF fill_steps_session [OF assms(1,2,4) that(2)] open'] by simp
    ultimately show False using that(1) o' by simp
  qed
  ultimately show ?thesis using o' by simp
qed

theorem batch_bounded_witness:
  "length (fst (fill_steps ref_lib True demo_head (replicate 6 (40000, None)) demo2)) \<le> 5 \<and>
   fill_until (track_of True (im_timing demo2)) \<noteq> None"
proof -
  have "fill_until (track_of True (im_timing demo2)) \<noteq> None" by code_simp
  with batch_bounded [OF demo2_session, of "replicate 6 (40000, None)" True
      "fst (fill_steps ref_lib True demo_head (replicate 6 (40000, None)) demo2)"
      "snd (fill_steps ref_lib True demo_head (replicate 6 (40000, None)) demo2)"]
  show ?thesis by simp
qed

text \<open>
  A forward jump completes at the end of its batch. The step that closes a forward batch
  fixes the head's place; the next step on that track at or after the returned wake time either
  reports an arithmetic error of the timestamps or consumes the retained head, which starts exactly
  where the last replacement frame ended.
\<close>

theorem forward_jump_completes:
  assumes "session L im held" and "held v = Some h" and "callback_ok out"
    and "fill_until (track_of v (im_timing im)) \<noteq> None" and "forward_fill (track_of v (im_timing im))"
    and "v \<Longrightarrow> cmp_q L (time_base (track_of v (im_timing im))) (rr_time_base h) = 0"
    and "Syncer_Step L v (held v) now out im = (Inr r, im1)"
    and "fill_until (track_of v (im_timing im1)) = None" and "st_wake_us r \<le> now'"
  shows "case Syncer_Step L v (held v) now' None im1 of
      (Inl e, _) \<Rightarrow> e = Overflow_error \<or> e = Invalid_argument
    | (Inr q, _) \<Rightarrow> st_consumed q \<and>
        (\<exists>m d. next_pts (track_of v (im_timing im1)) = Some m \<and>
           st_frame q = Some (Stamp (time_base (track_of v (im_timing im))) m d (in_frame h)))"
proof -
  let ?s = "im_timing im" and ?s1 = "im_timing im1"
  let ?T = "track_of v ?s"
  have ok: "impl_ok im held" using assms(1) by (rule session_ok)
  have hf: "has_frame (rr_frame h)"
    using ok assms(2,4,5) by (auto simp: impl_ok_def needs_head_def)
  obtain n u where n: "next_pts ?T = Some n" "fill_until ?T = Some u"
    using ok assms(4) unfolding impl_ok_def track_ok_def by blast
  have step: "Step L v (Some h) now out ?s = (Inr r, ?s1)"
    using assms(2,7) by (auto simp: Syncer_Step_def split: if_splits sum.splits prod.splits)
  have "released_at L ?T h ?s1 v \<and> suspended_until (track_of v ?s1) = st_wake_us r"
    using wp_InrD [OF Fill_released [OF n assms(5) hf assms(3)], of L now r ?s1] step n assms(8)
    by (simp add: Step_def wp_eqs act_defs getT_def)
  moreover have "0 < max_streams_diff (options (config ?s1))"
    using session_tolerance [OF batch_step(1) [OF assms(1,3,4,7)]] by simp
  ultimately have "wp (Step L v (Some h) now' None)
     (\<lambda>r t. st_consumed r \<and> (\<exists>m d. next_pts (track_of v ?s1) = Some m \<and>
        st_frame r = Some (Stamp (time_base ?T) m d (in_frame h))))
     (\<lambda>e _. e = Overflow_error \<or> e = Invalid_argument) ?s1"
    using assms(6,9) hf by (intro Step_release) auto
  moreover have "ValidateInput L h v c = Inl e \<Longrightarrow> e = Overflow_error \<or> e = Invalid_argument" for c e
    by (auto simp: ValidateInput_def Let_def split: if_splits)
  ultimately show ?thesis
    using assms(2) by (auto simp: Syncer_Step_def wp_def split: sum.splits prod.splits)
qed

theorem forward_jump_completes_witness:
  "\<exists>im1. session ref_lib demo2 demo_held \<and> im1 = snd (Syncer_Step ref_lib True demo_head 40000 None demo2) \<and>
    (case Syncer_Step ref_lib True demo_head 90000 None im1 of
       (Inl e, _) \<Rightarrow> e = Overflow_error \<or> e = Invalid_argument | (Inr q, _) \<Rightarrow> st_consumed q)"
proof -
  let ?x = "Syncer_Step ref_lib True demo_head 40000 None demo2"
  let ?r = "right (fst ?x)"
  have e: "\<not> isl (fst ?x) \<and> st_wake_us ?r \<le> 90000 \<and> fill_until (track_of True (im_timing demo2)) \<noteq> None \<and>
      forward_fill (track_of True (im_timing demo2)) \<and> fill_until (track_of True (im_timing (snd ?x))) = None \<and>
      cmp_q ref_lib (time_base (track_of True (im_timing demo2))) (rr_time_base (sample_picture 3)) = 0"
    by code_simp
  then obtain r im' where x: "?x = (Inr r, im')" and r: "?r = r" and d: "snd ?x = im'" by (metis rightE)
  from forward_jump_completes [OF demo2_session, of True "sample_picture 3" None 40000 r im' 90000] x e r d
  show ?thesis
    using demo2_session by (auto simp: demo_head_def split: prod.splits sum.splits)
qed

end
