(* ===== verification/Realtime_Timing.thy ===== *)
theory Realtime_Timing
  imports Mw_Prelude
begin

text \<open>
  \<^verbatim>\<open>scheduler/realtime_timing.{h,cc}\<close>: the mapping from presentation timestamps to the steady
  clock that paces both tracks of a live session. State: the configuration and the optional
  shared offset. \<open>Schedule\<close> decides whether a source item is ready, discarded or due later.
\<close>

section \<open>Checked subtraction\<close>

definition Subtract_rt :: "int \<Rightarrow> int \<Rightarrow> int result" where
  "Subtract_rt a b =
     (if (0 < b \<and> a < i64_min + b) \<or> (b < 0 \<and> i64_max + b < a) then Inl Overflow_error
      else Inr (a - b))"

definition sub_ok :: "int \<Rightarrow> int \<Rightarrow> bool" where
  "sub_ok a b \<longleftrightarrow> \<not> (0 < b \<and> a < i64_min + b) \<and> \<not> (b < 0 \<and> i64_max + b < a)"

lemma Subtract_rt_iff [simp]:
  "Subtract_rt a b = Inr c \<longleftrightarrow> sub_ok a b \<and> c = a - b"
  "Subtract_rt a b = Inl e \<longleftrightarrow> \<not> sub_ok a b \<and> e = Overflow_error"
  by (auto simp: Subtract_rt_def sub_ok_def)

text \<open>For 64-bit operands the check is exact: it fails iff the difference is out of range.\<close>

lemma sub_ok_exact: "i64 a \<Longrightarrow> i64 b \<Longrightarrow> sub_ok a b \<longleftrightarrow> i64 (a - b)"
  by (auto simp: sub_ok_def)

section \<open>Configuration, state and operations\<close>

record realtime_config =
  negative_time_tolerance :: int
  negative_time_discard :: "int option"
  discontinuity_threshold :: int
  jitter_margin :: int

definition default_realtime_config :: realtime_config where
  "default_realtime_config =
     \<lparr>negative_time_tolerance = 250000, negative_time_discard = None,
      discontinuity_threshold = 1000000, jitter_margin = 0\<rparr>"

record realtime =
  rt_config :: realtime_config
  offset_us :: "int option"

record decision =
  ready :: bool
  discard :: bool
  wake_us :: int

definition valid_realtime_config :: "realtime_config \<Rightarrow> bool" where
  "valid_realtime_config c \<longleftrightarrow>
     \<not> (negative_time_tolerance c < 0 \<or> discontinuity_threshold c \<le> 0 \<or> jitter_margin c < 0 \<or>
        discontinuity_threshold c \<le> jitter_margin c \<or>
        (case negative_time_discard c of
           None \<Rightarrow> False
         | Some d \<Rightarrow> d < 0 \<or> negative_time_tolerance c \<le> d))"

definition RealtimeTiming :: "realtime_config \<Rightarrow> realtime result" where
  "RealtimeTiming c =
     (if valid_realtime_config c then Inr \<lparr>rt_config = c, offset_us = None\<rparr>
      else Inl Invalid_argument)"

text \<open>The tail of \<open>Schedule\<close> under \<^verbatim>\<open>if (reset)\<close>, and the final return.\<close>

definition resync :: "bool \<Rightarrow> int \<Rightarrow> int \<Rightarrow> (realtime, decision) act" where
  "resync forward_jump pts now =
     andthen (lift (Subtract_rt pts now)) (\<lambda>d.
     andthen (gets (jitter_margin \<circ> rt_config)) (\<lambda>margin.
     andthen (lift (Subtract_rt d margin)) (\<lambda>candidate.
     andthen (modify (\<lambda>s. s\<lparr>offset_us := Some
        (case offset_us s of
           None \<Rightarrow> candidate
         | Some old \<Rightarrow> if forward_jump then candidate else min old candidate)\<rparr>)) (\<lambda>_.
     ret \<lparr>ready = True, discard = False, wake_us = now\<rparr>))))"

definition discard_late :: "realtime_config \<Rightarrow> int \<Rightarrow> bool" where
  "discard_late c diff =
     (case negative_time_discard c of None \<Rightarrow> False | Some d \<Rightarrow> diff < - d)"

definition Schedule :: "int \<Rightarrow> int \<Rightarrow> (realtime, decision) act" where
  "Schedule pts now =
     andthen (gets offset_us) (\<lambda>off.
     case off of
       None \<Rightarrow> resync False pts now
     | Some offset \<Rightarrow>
         andthen (lift (Subtract_rt pts offset)) (\<lambda>due.
         andthen (lift (Subtract_rt due now)) (\<lambda>difference.
         andthen (gets rt_config) (\<lambda>c.
         if difference < - negative_time_tolerance c then resync False pts now
         else if discontinuity_threshold c \<le> difference then resync True pts now
         else if discard_late c difference
              then ret \<lparr>ready = False, discard = True, wake_us = now\<rparr>
         else if 0 < difference then ret \<lparr>ready = False, discard = False, wake_us = due\<rparr>
         else ret \<lparr>ready = True, discard = False, wake_us = now\<rparr>))))"

definition Reset_rt :: "realtime \<Rightarrow> realtime" where
  "Reset_rt s = s\<lparr>offset_us := None\<rparr>"

section \<open>What one call does\<close>

text \<open>The signed distance of an item's due time from the clock.\<close>

definition lateness :: "realtime \<Rightarrow> int \<Rightarrow> int \<Rightarrow> int option" where
  "lateness s pts now = map_option (\<lambda>off. pts - off - now) (offset_us s)"

text \<open>Whether the item anchors the mapping anew.\<close>

definition reanchors :: "realtime \<Rightarrow> int \<Rightarrow> int \<Rightarrow> bool" where
  "reanchors s pts now =
     (case lateness s pts now of
        None \<Rightarrow> True
      | Some d \<Rightarrow> d < - negative_time_tolerance (rt_config s) \<or>
                  discontinuity_threshold (rt_config s) \<le> d)"

definition anchor :: "realtime \<Rightarrow> int \<Rightarrow> int \<Rightarrow> int" where
  "anchor s pts now = pts - now - jitter_margin (rt_config s)"

lemma resync_wp:
  "wp (resync f pts now)
     (\<lambda>d t. ready d \<and> \<not> discard d \<and> wake_us d = now \<and>
        t = s\<lparr>offset_us := Some (case offset_us s of None \<Rightarrow> anchor s pts now
             | Some old \<Rightarrow> if f then anchor s pts now else min old (anchor s pts now))\<rparr>)
     (\<lambda>e t. t = s \<and> e = Overflow_error) s"
  unfolding resync_def
  by (simp add: wp_eqs anchor_def split: option.split)

text \<open>
  The complete behaviour of a call. In the late case the source takes the minimum of the old
  offset and the candidate; the candidate is always the smaller one there, so every
  re-anchoring sets the offset to \<open>anchor\<close>.
\<close>

lemma Schedule_wp:
  assumes "valid_realtime_config (rt_config s)"
  shows "wp (Schedule pts now)
     (\<lambda>d t.
        if reanchors s pts now
        then ready d \<and> \<not> discard d \<and> wake_us d = now \<and> t = s\<lparr>offset_us := Some (anchor s pts now)\<rparr>
        else t = s \<and>
          (if discard_late (rt_config s) (the (lateness s pts now))
           then \<not> ready d \<and> discard d \<and> wake_us d = now
           else if 0 < the (lateness s pts now)
           then \<not> ready d \<and> \<not> discard d \<and> wake_us d = now + the (lateness s pts now)
           else ready d \<and> \<not> discard d \<and> wake_us d = now))
     (\<lambda>e t. t = s \<and> e = Overflow_error) s"
proof (cases "offset_us s")
  case None
  have "reanchors s pts now" using None by (simp add: reanchors_def lateness_def)
  then show ?thesis using None
    by (auto simp: Schedule_def wp_eqs intro!: wp_cons [OF resync_wp])
next
  case (Some old)
  have margin: "0 \<le> jitter_margin (rt_config s)" "0 \<le> negative_time_tolerance (rt_config s)"
    using assms by (auto simp: valid_realtime_config_def)
  let ?d = "pts - old - now"
  have late: "lateness s pts now = Some ?d" using Some by (simp add: lateness_def)
  have re: "reanchors s pts now \<longleftrightarrow> ?d < - negative_time_tolerance (rt_config s) \<or>
      discontinuity_threshold (rt_config s) \<le> ?d"
    by (simp add: reanchors_def late)
  have min: "min old (anchor s pts now) = anchor s pts now"
    if "?d < - negative_time_tolerance (rt_config s)"
    using that margin by (simp add: anchor_def)
  consider (late) "?d < - negative_time_tolerance (rt_config s)"
    | (jump) "\<not> ?d < - negative_time_tolerance (rt_config s)"
        "discontinuity_threshold (rt_config s) \<le> ?d"
    | (steady) "\<not> reanchors s pts now" using re by blast
  then show ?thesis
  proof cases
    case late
    then show ?thesis unfolding Schedule_def
      by (simp add: wp_eqs Some re) (rule impI, rule impI, rule wp_cons [OF resync_wp], auto simp: Some min)
  next
    case jump
    then show ?thesis unfolding Schedule_def
      by (simp add: wp_eqs Some re) (rule impI, rule impI, rule wp_cons [OF resync_wp], auto simp: Some)
  next
    case steady
    then show ?thesis unfolding Schedule_def by (simp add: wp_eqs Some re late)
  qed
qed

lemma Schedule_cases:
  assumes "valid_realtime_config (rt_config s)" and "Schedule pts now s = (Inr d, t)"
  obtains (anchored) "reanchors s pts now" "ready d" "\<not> discard d" "wake_us d = now"
      "t = s\<lparr>offset_us := Some (anchor s pts now)\<rparr>"
    | (dropped) "\<not> reanchors s pts now" "discard_late (rt_config s) (the (lateness s pts now))"
      "\<not> ready d" "discard d" "wake_us d = now" "t = s"
    | (early) "\<not> reanchors s pts now" "0 < the (lateness s pts now)"
      "\<not> discard_late (rt_config s) (the (lateness s pts now))"
      "\<not> ready d" "\<not> discard d" "wake_us d = now + the (lateness s pts now)" "t = s"
    | (due) "\<not> reanchors s pts now" "the (lateness s pts now) \<le> 0"
      "ready d" "\<not> discard d" "wake_us d = now" "t = s"
  using wp_InrD [OF Schedule_wp [OF assms(1), of pts now] assms(2)]
  by (auto split: if_splits)

section \<open>Properties\<close>

text \<open>
  the decision of every call that returns, and its effect on the shared mapping. The
  mapping changes only by re-anchoring (no mapping yet, later than the tolerance, or a forward
  discontinuity), and then it becomes exactly \<open>pts - now - jitter_margin\<close>; otherwise late items
  beyond the discard threshold are dropped, items with a future due time wait until exactly
  that time, and the others are released.
\<close>

theorem schedule_decides:
  assumes "valid_realtime_config (rt_config s)" and "Schedule pts now s = (Inr d, t)"
  shows "if reanchors s pts now
     then d = \<lparr>ready = True, discard = False, wake_us = now\<rparr> \<and>
          t = s\<lparr>offset_us := Some (pts - now - jitter_margin (rt_config s))\<rparr>
     else t = s \<and>
          (let late = the (lateness s pts now) in
           d = (if discard_late (rt_config s) late
                then \<lparr>ready = False, discard = True, wake_us = now\<rparr>
                else if 0 < late then \<lparr>ready = False, discard = False, wake_us = now + late\<rparr>
                else \<lparr>ready = True, discard = False, wake_us = now\<rparr>))"
  using wp_InrD [OF Schedule_wp [OF assms(1), of pts now] assms(2)]
  by (auto simp: anchor_def Let_def split: if_splits)

definition sample_rt :: realtime where
  "sample_rt = \<lparr>rt_config = default_realtime_config\<lparr>negative_time_discard := Some 40000\<rparr>,
                offset_us = Some 5000\<rparr>"

lemma sample_rt_valid: "valid_realtime_config (rt_config sample_rt)"
  by (simp add: sample_rt_def default_realtime_config_def valid_realtime_config_def)

lemma sample_rt_early:
  "Schedule 35000 10000 sample_rt =
     (Inr \<lparr>ready = False, discard = False, wake_us = 30000\<rparr>, sample_rt)"
  by (simp add: Schedule_def sample_rt_def default_realtime_config_def act_defs Subtract_rt_def
      discard_late_def)

theorem schedule_decides_witness:
  "\<not> reanchors sample_rt 35000 10000 \<and> lateness sample_rt 35000 10000 = Some 20000 \<and>
   snd (Schedule 35000 10000 sample_rt) = sample_rt"
proof -
  have "\<not> reanchors sample_rt 35000 10000" "lateness sample_rt 35000 10000 = Some 20000"
    by (simp_all add: reanchors_def lateness_def sample_rt_def default_realtime_config_def)
  then show ?thesis
    using schedule_decides [OF sample_rt_valid sample_rt_early] by (simp add: sample_rt_early)
qed

text \<open>
  an arithmetic overflow is reported as such and leaves the mapping unchanged, which the
  class comment promises.
\<close>

theorem schedule_exception_safe:
  assumes "valid_realtime_config (rt_config s)" and "Schedule pts now s = (Inl e, t)"
  shows "e = Overflow_error \<and> t = s"
  using wp_InlD [OF Schedule_wp [OF assms(1), of pts now] assms(2)] by simp

theorem schedule_exception_safe_witness:
  "\<exists>t. Schedule i64_max 0 (sample_rt\<lparr>offset_us := Some (- 1)\<rparr>) = (Inl Overflow_error, t) \<and>
    t = sample_rt\<lparr>offset_us := Some (- 1)\<rparr>"
proof -
  let ?s = "sample_rt\<lparr>offset_us := Some (- 1)\<rparr>"
  have v: "valid_realtime_config (rt_config ?s)" using sample_rt_valid by simp
  have "\<exists>e t. Schedule i64_max 0 ?s = (Inl e, t)"
    by (simp add: Schedule_def act_defs Subtract_rt_def)
  then obtain e t where "Schedule i64_max 0 ?s = (Inl e, t)" by blast
  with schedule_exception_safe [OF v this] show ?thesis by auto
qed

text \<open>
  pacing makes progress. A deadline is strictly in the future and asking again at that
  deadline releases the same item, without touching the mapping in between.
\<close>

theorem schedule_retry_releases:
  assumes "valid_realtime_config (rt_config s)" and "Schedule pts now s = (Inr d, t)"
    and "\<not> ready d" and "\<not> discard d" and "i64 pts" and "i64 (wake_us d)"
  shows "now < wake_us d \<and> t = s \<and>
    Schedule pts (wake_us d) t = (Inr \<lparr>ready = True, discard = False, wake_us = wake_us d\<rparr>, t)"
  using assms(1,2)
proof (cases rule: Schedule_cases)
  case early
  from early(1) obtain off where off: "offset_us s = Some off"
    by (auto simp: reanchors_def lateness_def split: option.splits)
  then have w: "wake_us d = pts - off" using early by (simp add: lateness_def)
  have "i64 (pts - off)" using assms(6) w by simp
  then have ok: "sub_ok pts off" using assms(5) by (auto simp: sub_ok_def)
  have "0 \<le> negative_time_tolerance (rt_config s)" "0 < discontinuity_threshold (rt_config s)"
    and nd: "\<not> discard_late (rt_config s) 0"
    using assms(1) by (auto simp: valid_realtime_config_def discard_late_def split: option.splits)
  then have "Schedule pts (pts - off) s =
      (Inr \<lparr>ready = True, discard = False, wake_us = pts - off\<rparr>, s)"
    using off ok by (simp add: Schedule_def act_defs Subtract_rt_def sub_ok_def)
  with early w show ?thesis by simp
qed (use assms(3,4) in simp_all)

theorem schedule_retry_releases_witness:
  "Schedule 35000 30000 sample_rt =
     (Inr \<lparr>ready = True, discard = False, wake_us = 30000\<rparr>, sample_rt)"
  using schedule_retry_releases [OF sample_rt_valid sample_rt_early] by simp

text \<open>
  Both tracks share one clock. Under one mapping two waiting items get deadlines that
  differ exactly as their presentation times do, so pacing preserves relative PTS.
\<close>

theorem schedule_preserves_relative_pts:
  assumes "valid_realtime_config (rt_config s)"
    and "Schedule p now s = (Inr d, t)" and "\<not> ready d" and "\<not> discard d"
    and "Schedule q now' t = (Inr d', t')" and "\<not> ready d'" and "\<not> discard d'"
  shows "wake_us d' - wake_us d = q - p"
proof -
  have 1: "t = s \<and> (\<exists>off. offset_us s = Some off \<and> wake_us d = p - off)"
    using assms(1,2)
  proof (cases rule: Schedule_cases)
    case early
    then show ?thesis by (auto simp: reanchors_def lateness_def split: option.splits)
  qed (use assms(3,4) in simp_all)
  have "valid_realtime_config (rt_config t)" using 1 assms(1) by simp
  then have "\<exists>off. offset_us t = Some off \<and> wake_us d' = q - off"
    using assms(5)
  proof (cases rule: Schedule_cases)
    case early
    then show ?thesis by (auto simp: reanchors_def lateness_def split: option.splits)
  qed (use assms(6,7) in simp_all)
  with 1 show ?thesis by auto
qed

theorem schedule_preserves_relative_pts_witness:
  "\<exists>d'. Schedule 41000 12000 sample_rt = (Inr d', sample_rt) \<and> wake_us d' - 30000 = 41000 - 35000"
proof -
  let ?d = "\<lparr>ready = False, discard = False, wake_us = 36000 :: int\<rparr>"
  have 2: "Schedule 41000 12000 sample_rt = (Inr ?d, sample_rt)"
    by (simp add: Schedule_def sample_rt_def default_realtime_config_def act_defs Subtract_rt_def
        discard_late_def)
  from schedule_preserves_relative_pts [OF sample_rt_valid sample_rt_early _ _ 2]
  have "wake_us ?d - 30000 = 41000 - 35000" by simp
  with 2 show ?thesis by blast
qed

end
