(* ===== verification/Frame_Converter.thy ===== *)
theory Frame_Converter
  imports Av_Model
begin

text \<open>
  The interface the scheduler relies on for its per-track frame conversions (\<^verbatim>\<open>ForceFps\<close> for
  video, \<^verbatim>\<open>AudioResampler\<close> for audio): a bounded input queue that is pushed by one thread and
  pulled by another, each call atomic under the converter's mutex. The locale states what both
  promise; the client lemmas about arbitrary call sequences are proved once here.
\<close>

text \<open>One call of a converter, as its clients issue it.\<close>

datatype 'a converter_call = Try_push 'a | Try_read | Halt | Restart

text \<open>The state after a sequence of calls.\<close>

fun calls ::
    "('a \<Rightarrow> 's \<Rightarrow> bool result \<times> 's) \<Rightarrow> ('s \<Rightarrow> 'b result \<times> 's) \<Rightarrow> ('s \<Rightarrow> 's) \<Rightarrow> ('s \<Rightarrow> 's) \<Rightarrow>
     'a converter_call list \<Rightarrow> 's \<Rightarrow> 's" where
  "calls push pull halt restart [] s = s"
| "calls push pull halt restart (c # cs) s = calls push pull halt restart cs
     (case c of Try_push a \<Rightarrow> snd (push a s) | Try_read \<Rightarrow> snd (pull s) | Halt \<Rightarrow> halt s
      | Restart \<Rightarrow> restart s)"

locale frame_converter =
  fixes ok :: "'s \<Rightarrow> bool"
    and load :: "'s \<Rightarrow> nat" and limit :: "'s \<Rightarrow> nat"
    and push :: "'a \<Rightarrow> 's \<Rightarrow> bool result \<times> 's"
    and pull :: "'s \<Rightarrow> 'b result \<times> 's"
    and halt :: "'s \<Rightarrow> 's" and restart :: "'s \<Rightarrow> 's"
  assumes ok_push: "ok s \<Longrightarrow> ok (snd (push a s))"
    and ok_pull: "ok s \<Longrightarrow> ok (snd (pull s))"
    and ok_halt: "ok s \<Longrightarrow> ok (halt s)" and ok_restart: "ok s \<Longrightarrow> ok (restart s)"
    and bounded: "ok s \<Longrightarrow> load s \<le> limit s"
    and push_limit: "limit (snd (push a s)) = limit s" and pull_limit: "limit (snd (pull s)) = limit s"
    and halt_limit: "limit (halt s) = limit s" and restart_limit: "limit (restart s) = limit s"
    and push_refused: "push a s = (Inr False, s') \<Longrightarrow> s' = s"
    and push_failed: "push a s = (Inl e, s') \<Longrightarrow> s' = s"
    and push_taken: "push a s = (Inr True, s') \<Longrightarrow> load s' = load s + 1"
    and pull_total: "ok s \<Longrightarrow> fst (pull s) \<noteq> Inl e"
begin

lemma calls_ok: "ok s \<Longrightarrow> ok (calls push pull halt restart cs s)"
  by (induction cs arbitrary: s)
    (auto intro: ok_push ok_pull ok_halt ok_restart split: converter_call.split)

lemma calls_limit: "limit (calls push pull halt restart cs s) = limit s"
  by (induction cs arbitrary: s)
    (auto simp: push_limit pull_limit halt_limit restart_limit split: converter_call.split)

text \<open>Whatever its clients do, the queue stays within its capacity and a pull never throws.\<close>

lemma calls_bounded: "ok s \<Longrightarrow> load (calls push pull halt restart cs s) \<le> limit s"
  using bounded [OF calls_ok] calls_limit by simp

lemma calls_pull: "ok s \<Longrightarrow> fst (pull (calls push pull halt restart cs s)) \<noteq> Inl e"
  by (rule pull_total [OF calls_ok])

text \<open>A refused or failed submission can be retried: it left no trace.\<close>

lemma push_only_on_success: "push a s = (r, s') \<Longrightarrow> s' \<noteq> s \<Longrightarrow> r = Inr True"
proof (cases r)
  case (Inl e)
  then show "push a s = (r, s') \<Longrightarrow> s' \<noteq> s \<Longrightarrow> r = Inr True" using push_failed by simp
next
  case (Inr b)
  then show "push a s = (r, s') \<Longrightarrow> s' \<noteq> s \<Longrightarrow> r = Inr True" using push_refused by (cases b) simp_all
qed

end

end
