(* ===== verification/Scheduler.thy ===== *)
theory Scheduler
  imports Syncer Realtime_Timing Frame_Converter Wait_Signals
begin

text \<open>
  \<^verbatim>\<open>scheduler/scheduler.cc\<close>: one driver thread and one worker thread per track.

  The driver takes items from the source, releases them when the realtime mapping says so, hands
  them to the worker of their track, collects the converted frames and steps the syncer. A worker
  filters and converts one item at a time. Driver and workers share, under one mutex, the flags
  and slots of \<open>sched_track\<close>, and meet at a revision signal.

  \<open>Scheduler::Impl\<close> is \<open>sched\<close>. Each function below is one critical section or one stretch of
  thread-local code of the source. \<open>driver_step\<close> and \<open>worker_step\<close> are the two thread bodies, one
  program point at a time, and \<open>sstep\<close> interleaves them with the downstream's capacity
  notifications, source notifications and \<open>RequestStop\<close>. A clock reading is an argument of the step
  that makes it. Source, media filter and frame converters are reached through \<open>sched_env\<close>: their
  operations are those of the components \<open>AvMediaSource\<close>, \<open>AvMediaFilter\<close>, \<open>ForceFps\<close> and
  \<open>AudioResampler\<close>, each with a state of its own.

  Steps report what happened to which item (\<open>event\<close>), so that properties can follow every item.
\<close>

section \<open>State\<close>

definition kNoWake :: int where "kNoWake = i64_max"
definition kDiscardBatch :: nat where "kDiscardBatch = 8"
definition kOutputRetryUs :: int where "kOutputRetryUs = 20000"

record sched_track =
  enabled :: bool
  busy :: bool
  requested :: bool
  completed :: bool
  task :: read_result
  result :: read_result
  needs_input :: bool
  source_head :: read_result
  head :: read_result
  syncer_wake_us :: int
  output_blocked :: bool
  blocked_revision :: "64 word"
  output_retry_us :: int

definition clear_track :: "sched_track \<Rightarrow> sched_track" where
  "clear_track t = t\<lparr>busy := False, requested := False, completed := False, task := null_result,
     result := null_result, needs_input := True, source_head := null_result, head := null_result,
     syncer_wake_us := 0, output_blocked := False, blocked_revision := 0, output_retry_us := 0\<rparr>"

text \<open>Where a worker stands; \<open>pending\<close> is the item the converter has not accepted yet.\<close>

datatype worker =
    W_wait (pending: read_result)
  | W_run read_result (pending: read_result)
  | W_publish (pending: read_result) read_result
  | W_notify (pending: read_result)
  | W_done

text \<open>Where the driver stands in its loop: \<open>obs\<close> is the recorded revision, \<open>wake\<close> the deadline.\<close>

datatype driver =
    D_top
  | D_collect bool "64 word" int
  | D_prepare bool "64 word" int
  | D_sleep "64 word" int
  | D_done

record ('c, 'f, 's) sched =
  tracks :: "bool \<Rightarrow> sched_track"
  converters :: "bool \<Rightarrow> 'c"
  media_filter :: 'f
  source :: 's
  sync :: syncer_impl
  pacing :: realtime
  stopping :: bool
  started :: bool
  failure :: "exn option"
  signal :: "64 word"
  output_signals :: "bool \<Rightarrow> 64 word"
  workers :: "bool \<Rightarrow> worker"
  drv :: driver

record ('c, 'f, 's) sched_env =
  lib :: av_lib
  e_push :: "bool \<Rightarrow> read_result \<Rightarrow> 'c \<Rightarrow> bool result \<times> 'c"
  e_pull :: "bool \<Rightarrow> 'c \<Rightarrow> read_result result \<times> 'c"
  e_restart :: "bool \<Rightarrow> 'c \<Rightarrow> 'c"
  e_halt :: "bool \<Rightarrow> 'c \<Rightarrow> 'c"
  e_filter :: "bool \<Rightarrow> read_result \<Rightarrow> 'f \<Rightarrow> read_result result \<times> 'f"
  e_filter_error :: "'f \<Rightarrow> exn option"
  e_filter_start :: "'f \<Rightarrow> unit result \<times> 'f"
  e_filter_stop :: "'f \<Rightarrow> unit result \<times> 'f"
  e_read :: "bool \<Rightarrow> 's \<Rightarrow> read_result \<times> 's"
  e_source_error :: "'s \<Rightarrow> exn option"

datatype event =
    Taken bool read_result
  | Dropped bool read_result
  | Released bool read_result
  | Entered bool read_result
  | Filtered bool read_result
  | Accepted bool read_result
  | Converted bool read_result
  | Consumed bool read_result

definition upd_tr ::
    "bool \<Rightarrow> (sched_track \<Rightarrow> sched_track) \<Rightarrow> ('c, 'f, 's) sched \<Rightarrow> ('c, 'f, 's) sched" where
  "upd_tr v f s = s\<lparr>tracks := (tracks s)(v := f (tracks s v))\<rparr>"

definition set_worker :: "bool \<Rightarrow> worker \<Rightarrow> ('c, 'f, 's) sched \<Rightarrow> ('c, 'f, 's) sched" where
  "set_worker v w s = s\<lparr>workers := (workers s)(v := w)\<rparr>"

section \<open>Failure and stop\<close>

text \<open>\<open>WakeAll\<close>; the condition variables of the workers have no state of their own.\<close>

definition WakeAll :: "('c, 'f, 's) sched \<Rightarrow> ('c, 'f, 's) sched" where
  "WakeAll s = s\<lparr>signal := signal s + 1\<rparr>"

definition Fail :: "exn \<Rightarrow> ('c, 'f, 's) sched \<Rightarrow> ('c, 'f, 's) sched" where
  "Fail e s = (if failure s \<noteq> None then s else WakeAll (s\<lparr>failure := Some e, stopping := True\<rparr>))"

definition RequestStop :: "('c, 'f, 's) sched \<Rightarrow> ('c, 'f, 's) sched" where
  "RequestStop s = WakeAll (s\<lparr>stopping := True\<rparr>)"

section \<open>The driver's operations\<close>

definition InputPts :: "av_lib \<Rightarrow> read_result \<Rightarrow> int result" where
  "InputPts L i =
     (if \<not> has_value (rr_frame i) \<or> \<not> valid_tb (rr_time_base i) then Inl Invalid_argument
      else if \<not> has_frame (rr_frame i) then Inl Undefined_behaviour
      else if fr_pts (in_frame i) = AV_NOPTS_VALUE then Inl Invalid_argument
      else let p = rescale_q L (fr_pts (in_frame i)) (rr_time_base i) kMicroseconds
           in if p = AV_NOPTS_VALUE \<or> p = kNoWake then Inl Overflow_error else Inr p)"

definition Complete :: "bool \<Rightarrow> int \<Rightarrow> ('c, 'f, 's) sched \<Rightarrow> ('c, 'f, 's) sched" where
  "Complete v now s =
     (let t = tracks s v in
      if \<not> completed t then s
      else upd_tr v (\<lambda>t. t\<lparr>head := result t, result := null_result, completed := False,
             syncer_wake_us := (if rr_status (result t) \<noteq> KNull then now else syncer_wake_us t)\<rparr>) s)"

definition Dispatch :: "bool \<Rightarrow> read_result \<Rightarrow> ('c, 'f, 's) sched \<Rightarrow> ('c, 'f, 's) sched" where
  "Dispatch v i s =
     (if stopping s then s
      else upd_tr v (\<lambda>t. t\<lparr>task := i, busy := True, requested := True\<rparr>) s)"

text \<open>The last part of \<open>Prepare\<close>: the lookahead item \<open>i\<close> is dropped, kept for later or dispatched.\<close>

definition pace ::
    "('c, 'f, 's) sched_env \<Rightarrow> int \<Rightarrow> read_result \<Rightarrow> realtime \<Rightarrow> decision result \<times> realtime" where
  "pace E now i p =
     (if rr_status i = KFrame
      then case InputPts (lib E) i of Inl e \<Rightarrow> (Inl e, p) | Inr pts \<Rightarrow> Schedule pts now p
      else (Inr \<lparr>ready = True, discard = False, wake_us = now\<rparr>, p))"

definition Release ::
    "('c, 'f, 's) sched_env \<Rightarrow> bool \<Rightarrow> int \<Rightarrow> read_result \<Rightarrow> ('c, 'f, 's) sched \<Rightarrow>
     int result \<times> event list \<times> ('c, 'f, 's) sched" where
  "Release E v now i s =
     (case pace E now i (pacing s) of
        (Inl e, p) \<Rightarrow> (Inl e, [], s\<lparr>pacing := p\<rparr>)
      | (Inr d, p) \<Rightarrow>
          if discard d
          then (Inr now, [Dropped v i],
                upd_tr v (\<lambda>t. t\<lparr>source_head := null_result\<rparr>) (s\<lparr>pacing := p\<rparr>))
          else if \<not> ready d then (Inr (wake_us d), [], s\<lparr>pacing := p\<rparr>)
          else (Inr kNoWake, [if stopping s then Dropped v i else Released v i],
                upd_tr v (\<lambda>t. t\<lparr>source_head := null_result\<rparr>) (Dispatch v i (s\<lparr>pacing := p\<rparr>))))"

text \<open>The lookahead: kept from an earlier round, or read from the source now.\<close>

definition fetch ::
    "('c, 'f, 's) sched_env \<Rightarrow> bool \<Rightarrow> ('c, 'f, 's) sched \<Rightarrow>
     read_result \<times> event list \<times> ('c, 'f, 's) sched" where
  "fetch E v s =
     (if rr_status (source_head (tracks s v)) = KNull
      then case e_read E v (source s) of (i, src) \<Rightarrow>
             (i, if rr_status i \<noteq> KNull then [Taken v i] else [],
              upd_tr v (\<lambda>t. t\<lparr>source_head := i\<rparr>) (s\<lparr>source := src\<rparr>))
      else (source_head (tracks s v), [], s))"

definition Prepare ::
    "('c, 'f, 's) sched_env \<Rightarrow> bool \<Rightarrow> int \<Rightarrow> ('c, 'f, 's) sched \<Rightarrow>
     int result \<times> event list \<times> ('c, 'f, 's) sched" where
  "Prepare E v now s =
     (let t = tracks s v in
      if busy t \<or> completed t \<or> rr_status (head t) \<noteq> KNull then (Inr kNoWake, [], s)
      else if \<not> needs_input t then (Inr kNoWake, [], Dispatch v null_result s)
      else case fetch E v s of (i, evs, s) \<Rightarrow>
        if rr_status i = KNull then (Inr kNoWake, evs, s)
        else case Release E v now i s of (r, evs', s) \<Rightarrow> (r, evs @ evs', s))"

text \<open>The bounded drain of a disabled track: whether the batch was used up.\<close>

fun drain_source :: "('c, 'f, 's) sched_env \<Rightarrow> bool \<Rightarrow> nat \<Rightarrow> 's \<Rightarrow> bool \<times> 's" where
  "drain_source E v 0 src = (True, src)"
| "drain_source E v (Suc k) src =
     (case e_read E v src of (i, src') \<Rightarrow>
        if rr_status i = KNull then (False, src') else drain_source E v k src')"

definition DrainDisabled ::
    "('c, 'f, 's) sched_env \<Rightarrow> bool \<Rightarrow> ('c, 'f, 's) sched \<Rightarrow> bool \<times> ('c, 'f, 's) sched" where
  "DrainDisabled E v s =
     (case drain_source E v kDiscardBatch (source s) of (full, src) \<Rightarrow> (full, s\<lparr>source := src\<rparr>))"

text \<open>\<open>later\<close> is the clock reading after the syncer returned.\<close>

definition Deliver ::
    "('c, 'f, 's) sched_env \<Rightarrow> bool \<Rightarrow> int \<Rightarrow> int \<Rightarrow> on_output \<Rightarrow> ('c, 'f, 's) sched \<Rightarrow>
     unit result \<times> event list \<times> ('c, 'f, 's) sched" where
  "Deliver E v now later out s =
     (let t = tracks s v; space = output_signals s v in
      if output_blocked t \<and> space = blocked_revision t \<and> now < output_retry_us t then (Inr (), [], s)
      else if \<not> output_blocked t \<and> now < syncer_wake_us t then (Inr (), [], s)
      else
        let h = (if rr_status (head t) = KNull then None else Some (head t));
            s = upd_tr v (\<lambda>t. t\<lparr>output_blocked := False\<rparr>) s
        in case Syncer_Step (lib E) v h now out (sync s) of
             (Inl e, y) \<Rightarrow> (Inl e, [], s\<lparr>sync := y\<rparr>)
           | (Inr r, y) \<Rightarrow>
               (Inr (), (if st_consumed r \<and> h \<noteq> None then [Consumed v (head t)] else []),
                upd_tr v (\<lambda>t. t\<lparr>head := (if st_consumed r then null_result else head t),
                    syncer_wake_us := st_wake_us r,
                    output_blocked := st_blocked r,
                    blocked_revision := (if st_blocked r then space else blocked_revision t),
                    output_retry_us := (if st_blocked r then later + kOutputRetryUs else output_retry_us t)\<rparr>)
                  (s\<lparr>sync := y\<rparr>)))"

text \<open>The wake-up time a prepared track contributes to the driver's deadline.\<close>

definition track_wake :: "bool \<Rightarrow> int \<Rightarrow> ('c, 'f, 's) sched \<Rightarrow> int" where
  "track_wake v now s =
     (let t = tracks s v in
      if output_blocked t
      then (if blocked_revision t = output_signals s v then output_retry_us t else now)
      else syncer_wake_us t)"

section \<open>The driver's loop\<close>

text \<open>One program point of \<open>RunDriver\<close>; \<open>clock\<close> are the readings it makes, in order.\<close>

definition fail_driver :: "exn \<Rightarrow> ('c, 'f, 's) sched \<Rightarrow> ('c, 'f, 's) sched" where
  "fail_driver e s = (Fail e s)\<lparr>drv := D_done\<rparr>"

definition driver_step ::
    "('c, 'f, 's) sched_env \<Rightarrow> (nat \<Rightarrow> int) \<Rightarrow> on_output \<Rightarrow> ('c, 'f, 's) sched \<Rightarrow>
     event list \<times> ('c, 'f, 's) sched" where
  "driver_step E clock out s =
     (case drv s of
        D_top \<Rightarrow>
          ([], if stopping s then s\<lparr>drv := D_done\<rparr>
               else case e_source_error E (source s) of
                      Some e \<Rightarrow> fail_driver e s
                    | None \<Rightarrow> s\<lparr>drv := D_collect True (signal s) kNoWake\<rparr>)
      | D_collect v obs wake \<Rightarrow>
          (if enabled (tracks s v) then
             (case Deliver E v (clock 1) (clock 2) out (Complete v (clock 0) s) of
                (Inl e, evs, s') \<Rightarrow> (evs, fail_driver e s')
              | (Inr _, evs, s') \<Rightarrow>
                  (evs, s'\<lparr>drv := (if stopping s' then D_done
                                   else if v then D_collect False obs wake
                                   else D_prepare True obs wake)\<rparr>))
           else
             (case DrainDisabled E v s of (full, s') \<Rightarrow>
                let wake = (if full then clock 0 else wake) in
                ([], s'\<lparr>drv := (if stopping s' then D_done
                                 else if v then D_collect False obs wake
                                 else D_prepare True obs wake)\<rparr>)))
      | D_prepare v obs wake \<Rightarrow>
          (let next = (\<lambda>w s. if v then s\<lparr>drv := D_prepare False obs w\<rparr>
                             else s\<lparr>drv := (if stopping s then D_done else D_sleep obs w)\<rparr>) in
           if \<not> enabled (tracks s v) then ([], next wake s)
           else case Prepare E v (clock 0) s of
                  (Inl e, evs, s') \<Rightarrow> (evs, fail_driver e s')
                | (Inr w, evs, s') \<Rightarrow> (evs, next (min (min wake w) (track_wake v (clock 1) s')) s'))
      | D_sleep obs wake \<Rightarrow>
          ([], if signal s \<noteq> obs \<or> (wake \<noteq> kNoWake \<and> wake \<le> clock 0) then s\<lparr>drv := D_top\<rparr> else s)
      | D_done \<Rightarrow> ([], s))"

section \<open>The workers' loops\<close>

text \<open>A new task passes the media filter first on the video track; otherwise the pending item stays.\<close>

definition admit ::
    "('c, 'f, 's) sched_env \<Rightarrow> bool \<Rightarrow> read_result \<Rightarrow> read_result \<Rightarrow> ('c, 'f, 's) sched \<Rightarrow>
     read_result result \<times> event list \<times> ('c, 'f, 's) sched" where
  "admit E v i pend s =
     (if rr_status i = KNull then (Inr pend, [], s)
      else if v then
        (case e_filter E True i (media_filter s) of
           (Inl e, f) \<Rightarrow> (Inl e, [Entered v i], s\<lparr>media_filter := f\<rparr>)
         | (Inr p, f) \<Rightarrow> (Inr p, Entered v i # (if rr_status p \<noteq> KNull then [Filtered v p] else []),
                        s\<lparr>media_filter := f\<rparr>))
      else (Inr i, [Entered v i, Filtered v i], s))"

text \<open>Offer the pending item to the converter and pull one frame; audio is filtered after that.\<close>

definition feed ::
    "('c, 'f, 's) sched_env \<Rightarrow> bool \<Rightarrow> read_result \<Rightarrow> ('c, 'f, 's) sched \<Rightarrow>
     (read_result \<times> read_result) result \<times> event list \<times> ('c, 'f, 's) sched" where
  "feed E v p s =
     (case (if rr_status p \<noteq> KNull then e_push E v p (converters s v) else (Inr False, converters s v)) of
        (Inl e, c) \<Rightarrow> (Inl e, [], s\<lparr>converters := (converters s)(v := c)\<rparr>)
      | (Inr took, c) \<Rightarrow>
          (case e_pull E v c of
             (Inl e, c) \<Rightarrow> (Inl e, if took then [Accepted v p] else [],
                          s\<lparr>converters := (converters s)(v := c)\<rparr>)
           | (Inr o', c) \<Rightarrow>
               (case (if \<not> v \<and> rr_status o' \<noteq> KNull then e_filter E False o' (media_filter s)
                      else (Inr o', media_filter s)) of
                  (r, f) \<Rightarrow>
                    (chain r (\<lambda>o'. Inr (if took then null_result else p, o')),
                     if took then [Accepted v p] else [],
                     s\<lparr>converters := (converters s)(v := c), media_filter := f\<rparr>))))"

text \<open>The stretch between taking a task and publishing its result.\<close>

definition convert ::
    "('c, 'f, 's) sched_env \<Rightarrow> bool \<Rightarrow> read_result \<Rightarrow> read_result \<Rightarrow> ('c, 'f, 's) sched \<Rightarrow>
     (read_result \<times> read_result) result \<times> event list \<times> ('c, 'f, 's) sched" where
  "convert E v i pend s =
     (case admit E v i pend s of
        (Inl e, evs, s) \<Rightarrow> (Inl e, evs, s)
      | (Inr p, evs, s) \<Rightarrow> (case feed E v p s of (r, evs', s) \<Rightarrow> (r, evs @ evs', s)))"

definition worker_step ::
    "('c, 'f, 's) sched_env \<Rightarrow> bool \<Rightarrow> ('c, 'f, 's) sched \<Rightarrow> event list \<times> ('c, 'f, 's) sched" where
  "worker_step E v s =
     (case workers s v of
        W_wait pend \<Rightarrow>
          ([], if stopping s then set_worker v W_done s
               else if enabled (tracks s v) \<and> requested (tracks s v)
               then set_worker v (W_run (task (tracks s v)) pend)
                      (upd_tr v (\<lambda>t. t\<lparr>task := null_result, requested := False\<rparr>) s)
               else s)
      | W_run i pend \<Rightarrow>
          (case convert E v i pend s of
             (Inl e, evs, s') \<Rightarrow>
               (evs, set_worker v W_done
                  (Fail (case e_filter_error E (media_filter s') of Some e' \<Rightarrow> e' | None \<Rightarrow> e) s'))
           | (Inr (p, o'), evs, s') \<Rightarrow> (evs, set_worker v (W_publish p o') s'))
      | W_publish p o' \<Rightarrow>
          (if rr_status o' \<noteq> KNull then [Converted v o'] else [],
           set_worker v (W_notify p)
             (upd_tr v (\<lambda>t. t\<lparr>needs_input := (rr_status p = KNull \<and> rr_status o' = KNull),
                              result := o', busy := False, completed := True\<rparr>) s))
      | W_notify p \<Rightarrow> ([], set_worker v (W_wait p) (s\<lparr>signal := signal s + 1\<rparr>))
      | W_done \<Rightarrow> ([], s))"


section \<open>Life cycle\<close>

text \<open>
  \<open>Stop\<close>: the threads are joined, so they stand at their end; every retained item is released.
\<close>

definition Stop :: "('c, 'f, 's) sched_env \<Rightarrow> ('c, 'f, 's) sched \<Rightarrow> ('c, 'f, 's) sched" where
  "Stop E s =
     (let s = (RequestStop s)\<lparr>drv := D_done, workers := \<lambda>_. W_done\<rparr>;
          s = s\<lparr>converters := \<lambda>v. if enabled (tracks s v) then e_halt E v (converters s v) else converters s v\<rparr>;
          s = (case e_filter_stop E (media_filter s) of
                 (Inl e, f) \<Rightarrow> Fail e (s\<lparr>media_filter := f\<rparr>) | (Inr _, f) \<Rightarrow> s\<lparr>media_filter := f\<rparr>)
      in s\<lparr>tracks := clear_track \<circ> tracks s, started := False\<rparr>)"

text \<open>\<open>spawned\<close> says whether the three threads could be created.\<close>

definition Start ::
    "('c, 'f, 's) sched_env \<Rightarrow> bool \<Rightarrow> ('c, 'f, 's) sched \<Rightarrow> bool \<times> ('c, 'f, 's) sched" where
  "Start E spawned s =
     (if started s then (False, s)
      else
        let s = s\<lparr>failure := None, stopping := False, tracks := clear_track \<circ> tracks s, started := True\<rparr>
        in case Syncer_Reset (lib E) (sync s) of
             (Inl e, y) \<Rightarrow> (False, Stop E (Fail e (s\<lparr>sync := y\<rparr>)))
           | (Inr _, y) \<Rightarrow>
               let s = s\<lparr>sync := y, pacing := Reset_rt (pacing s),
                   converters := \<lambda>v. if enabled (tracks s v) then e_restart E v (converters s v)
                                    else converters s v\<rparr>
               in case e_filter_start E (media_filter s) of
                    (Inl e, f) \<Rightarrow> (False, Stop E (Fail e (s\<lparr>media_filter := f\<rparr>)))
                  | (Inr _, f) \<Rightarrow>
                      if \<not> spawned then (False, Stop E (Fail Runtime_error (s\<lparr>media_filter := f\<rparr>)))
                      else (True, s\<lparr>media_filter := f, drv := D_top, workers := \<lambda>_. W_wait null_result\<rparr>))"

definition CheckStopped :: "('c, 'f, 's) sched \<Rightarrow> unit result" where
  "CheckStopped s = (if started s then Inl Logic_error else Inr ())"

text \<open>The constructor: a track is enabled when its target format is.\<close>

definition Scheduler_new ::
    "av_lib \<Rightarrow> bool \<Rightarrow> syncer_config \<Rightarrow> frame_slot \<Rightarrow> realtime_config \<Rightarrow>
     (bool \<Rightarrow> 'c result) \<Rightarrow> 'f \<Rightarrow> 's \<Rightarrow> ('c, 'f, 's) sched result" where
  "Scheduler_new L source_given c backup rt conv flt src =
     chain (Syncer_new L c backup) (\<lambda>y.
     chain (RealtimeTiming rt) (\<lambda>p.
     if \<not> source_given then Inl Invalid_argument
     else chain (if video_enabled c then conv True else Inr undefined) (\<lambda>cv.
          chain (if audio_enabled c then conv False else Inr undefined) (\<lambda>ca.
          let t = clear_track \<lparr>enabled = False, busy = False, requested = False, completed = False,
                task = null_result, result = null_result, needs_input = True, source_head = null_result,
                head = null_result, syncer_wake_us = 0, output_blocked = False, blocked_revision = 0,
                output_retry_us = 0\<rparr>
          in Inr \<lparr>tracks = (\<lambda>v. t\<lparr>enabled := (if v then video_enabled c else audio_enabled c)\<rparr>),
               converters = (\<lambda>v. if v then cv else ca), media_filter = flt, source = src, sync = y,
               pacing = p, stopping = True, started = False, failure = None, signal = 0,
               output_signals = (\<lambda>_. 0), workers = (\<lambda>_. W_done), drv = D_done\<rparr>))))"

section \<open>Runs\<close>

text \<open>
  All interleavings of a started scheduler. \<open>k\<close> counts the notifications of the driver's signal,
  whose revision is a 64-bit counter.
\<close>

definition notified :: "('c, 'f, 's) sched \<Rightarrow> ('c, 'f, 's) sched \<Rightarrow> nat" where
  "notified s t = (if signal t = signal s then 0 else 1)"

inductive run ::
    "('c, 'f, 's) sched_env \<Rightarrow> ('c, 'f, 's) sched \<Rightarrow> event list \<Rightarrow> nat \<Rightarrow> ('c, 'f, 's) sched \<Rightarrow> bool"
  for E s0 where
  boot: "Start E True s0 = (True, s) \<Longrightarrow> run E s0 [] 0 s"
| driver: "run E s0 evs k s \<Longrightarrow> callback_ok out \<Longrightarrow> driver_step E clock out s = (es, t) \<Longrightarrow>
    run E s0 (evs @ es) (k + notified s t) t"
| worker: "run E s0 evs k s \<Longrightarrow> worker_step E v s = (es, t) \<Longrightarrow>
    run E s0 (evs @ es) (k + notified s t) t"
| space: "run E s0 evs k s \<Longrightarrow> run E s0 evs (k + 1)
    (s\<lparr>output_signals := (output_signals s)(v := output_signals s v + 1), signal := signal s + 1\<rparr>)"
| ready: "run E s0 evs k s \<Longrightarrow> run E s0 evs (k + 1) (s\<lparr>source := src, signal := signal s + 1\<rparr>)"
| stop: "run E s0 evs k s \<Longrightarrow> run E s0 evs (k + 1) (RequestStop s)"

end
