(* ===== verification/Scheduler_Lemmas.thy ===== *)
theory Scheduler_Lemmas
  imports Scheduler "HOL-Library.Sublist"
begin

text \<open>
  Invariants of the scheduler's runs. \<open>track_inv\<close> is the hand-over protocol of one track (which
  flag owns which slot) together with the account of every item; \<open>wake_inv\<close> is the argument that
  the driver cannot sleep through a result.
\<close>

section \<open>Accounts of items\<close>

definition slot :: "read_result \<Rightarrow> read_result list" where
  "slot i = (if rr_status i = KNull then [] else [i])"

lemma slot_null [simp]: "slot null_result = []" "rr_status i = KNull \<Longrightarrow> slot i = []"
  "rr_status i \<noteq> KNull \<Longrightarrow> slot i = [i]"
  by (simp_all add: slot_def)

definition pick :: "(event \<Rightarrow> (bool \<times> read_result) option) \<Rightarrow> bool \<Rightarrow> event list \<Rightarrow> read_result list" where
  "pick f v evs = concat (map (\<lambda>e. case f e of None \<Rightarrow> [] | Some (w, i) \<Rightarrow> if w = v then [i] else []) evs)"

definition taken :: "bool \<Rightarrow> event list \<Rightarrow> read_result list" where
  "taken = pick (\<lambda>e. case e of Taken w i \<Rightarrow> Some (w, i) | _ \<Rightarrow> None)"
definition settled :: "bool \<Rightarrow> event list \<Rightarrow> read_result list" where
  "settled = pick (\<lambda>e. case e of Dropped w i \<Rightarrow> Some (w, i) | Released w i \<Rightarrow> Some (w, i) | _ \<Rightarrow> None)"
definition released :: "bool \<Rightarrow> event list \<Rightarrow> read_result list" where
  "released = pick (\<lambda>e. case e of Released w i \<Rightarrow> Some (w, i) | _ \<Rightarrow> None)"
definition entered :: "bool \<Rightarrow> event list \<Rightarrow> read_result list" where
  "entered = pick (\<lambda>e. case e of Entered w i \<Rightarrow> Some (w, i) | _ \<Rightarrow> None)"
definition filtered :: "bool \<Rightarrow> event list \<Rightarrow> read_result list" where
  "filtered = pick (\<lambda>e. case e of Filtered w i \<Rightarrow> Some (w, i) | _ \<Rightarrow> None)"
definition accepted :: "bool \<Rightarrow> event list \<Rightarrow> read_result list" where
  "accepted = pick (\<lambda>e. case e of Accepted w i \<Rightarrow> Some (w, i) | _ \<Rightarrow> None)"
definition converted :: "bool \<Rightarrow> event list \<Rightarrow> read_result list" where
  "converted = pick (\<lambda>e. case e of Converted w i \<Rightarrow> Some (w, i) | _ \<Rightarrow> None)"
definition consumed :: "bool \<Rightarrow> event list \<Rightarrow> read_result list" where
  "consumed = pick (\<lambda>e. case e of Consumed w i \<Rightarrow> Some (w, i) | _ \<Rightarrow> None)"

lemmas account_defs = taken_def settled_def released_def entered_def filtered_def accepted_def
  converted_def consumed_def

lemma pick_simps [simp]:
  "pick f v [] = []" "pick f v (xs @ ys) = pick f v xs @ pick f v ys"
  "pick f v (e # xs) = (case f e of None \<Rightarrow> [] | Some (w, i) \<Rightarrow> if w = v then [i] else []) @ pick f v xs"
  by (simp_all add: pick_def)

section \<open>Lenses\<close>

lemma upd_tr_sel [simp]:
  "tracks (upd_tr v f s) v = f (tracks s v)" "w \<noteq> v \<Longrightarrow> tracks (upd_tr v f s) w = tracks s w"
  "tracks (upd_tr (\<not> v) f s) v = tracks s v"
  "workers (upd_tr v f s) = workers s" "signal (upd_tr v f s) = signal s" "drv (upd_tr v f s) = drv s"
  "stopping (upd_tr v f s) = stopping s" "failure (upd_tr v f s) = failure s"
  "output_signals (upd_tr v f s) = output_signals s" "sync (upd_tr v f s) = sync s"
  "source (upd_tr v f s) = source s" "pacing (upd_tr v f s) = pacing s"
  "converters (upd_tr v f s) = converters s" "media_filter (upd_tr v f s) = media_filter s"
  "started (upd_tr v f s) = started s"
  by (simp_all add: upd_tr_def)

lemma set_worker_sel [simp]:
  "workers (set_worker v w s) v = w" "u \<noteq> v \<Longrightarrow> workers (set_worker v w s) u = workers s u"
  "tracks (set_worker v w s) = tracks s" "signal (set_worker v w s) = signal s"
  "drv (set_worker v w s) = drv s" "stopping (set_worker v w s) = stopping s"
  "failure (set_worker v w s) = failure s" "output_signals (set_worker v w s) = output_signals s"
  "sync (set_worker v w s) = sync s"
  by (simp_all add: set_worker_def)

lemma Fail_sel [simp]:
  "tracks (Fail e s) = tracks s" "workers (Fail e s) = workers s" "drv (Fail e s) = drv s"
  "sync (Fail e s) = sync s" "output_signals (Fail e s) = output_signals s"
  "failure (Fail e s) = (case failure s of None \<Rightarrow> Some e | Some f \<Rightarrow> Some f)"
  by (auto simp: Fail_def WakeAll_def split: option.split)

lemma Fail_signal: "signal (Fail e s) = signal s \<or> signal (Fail e s) = signal s + 1"
  by (simp add: Fail_def WakeAll_def)

lemma RequestStop_sel [simp]:
  "tracks (RequestStop s) = tracks s" "workers (RequestStop s) = workers s" "drv (RequestStop s) = drv s"
  "sync (RequestStop s) = sync s" "output_signals (RequestStop s) = output_signals s"
  "failure (RequestStop s) = failure s" "stopping (RequestStop s)" "signal (RequestStop s) = signal s + 1"
  by (simp_all add: RequestStop_def WakeAll_def)

section \<open>The hand-over protocol\<close>

definition in_work :: "sched_track \<Rightarrow> worker \<Rightarrow> read_result list" where
  "in_work t w = (if requested t then slot (task t) else []) @ (case w of W_run i p \<Rightarrow> slot i | _ \<Rightarrow> [])"

definition held_back :: "worker \<Rightarrow> read_result list" where
  "held_back w = (case w of W_done \<Rightarrow> [] | _ \<Rightarrow> slot (pending w))"

definition handover :: "sched_track \<Rightarrow> worker \<Rightarrow> bool" where
  "handover t w \<longleftrightarrow>
     (busy t \<or> completed t \<longrightarrow> rr_status (head t) = KNull) \<and> (completed t \<longrightarrow> \<not> busy t) \<and>
     (case w of
        W_wait p \<Rightarrow> busy t = requested t \<and>
          (needs_input t \<and> \<not> busy t \<or> requested t \<and> rr_status (task t) \<noteq> KNull \<longrightarrow> rr_status p = KNull)
      | W_notify p \<Rightarrow> busy t = requested t \<and>
          (needs_input t \<and> \<not> busy t \<or> requested t \<and> rr_status (task t) \<noteq> KNull \<longrightarrow> rr_status p = KNull)
      | W_run i p \<Rightarrow> busy t \<and> \<not> requested t \<and> (rr_status i \<noteq> KNull \<longrightarrow> rr_status p = KNull)
      | W_publish p o' \<Rightarrow> busy t \<and> \<not> requested t
      | W_done \<Rightarrow> True)"

definition track_inv :: "bool \<Rightarrow> event list \<Rightarrow> ('c, 'f, 's) sched \<Rightarrow> bool" where
  "track_inv v evs s \<longleftrightarrow>
     (let t = tracks s v; w = workers s v in
      handover t w \<and> (w = W_done \<longrightarrow> stopping s) \<and>
      taken v evs = settled v evs @ slot (source_head t) \<and>
      (if w = W_done then prefix (entered v evs) (released v evs) \<and> prefix (accepted v evs) (filtered v evs)
       else released v evs = entered v evs @ in_work t w \<and> filtered v evs = accepted v evs @ held_back w) \<and>
      converted v evs = consumed v evs @ (if completed t then slot (result t) else []) @ slot (head t))"

fun on_track :: "event \<Rightarrow> bool" where
  "on_track (Taken v i) = v"
| "on_track (Dropped v i) = v"
| "on_track (Released v i) = v"
| "on_track (Entered v i) = v"
| "on_track (Filtered v i) = v"
| "on_track (Accepted v i) = v"
| "on_track (Converted v i) = v"
| "on_track (Consumed v i) = v"

lemma other_track:
  assumes "\<forall>e \<in> set es. on_track e \<noteq> v"
  shows "taken v es = []" "settled v es = []" "released v es = []" "entered v es = []"
    "filtered v es = []" "accepted v es = []" "converted v es = []" "consumed v es = []"
  using assms by (induction es) (auto simp: account_defs split: event.splits)

lemma account_append [simp]:
  "taken v (xs @ ys) = taken v xs @ taken v ys" "settled v (xs @ ys) = settled v xs @ settled v ys"
  "released v (xs @ ys) = released v xs @ released v ys" "entered v (xs @ ys) = entered v xs @ entered v ys"
  "filtered v (xs @ ys) = filtered v xs @ filtered v ys" "accepted v (xs @ ys) = accepted v xs @ accepted v ys"
  "converted v (xs @ ys) = converted v xs @ converted v ys" "consumed v (xs @ ys) = consumed v xs @ consumed v ys"
  by (simp_all add: account_defs)

lemma account_nil [simp]:
  "taken v [] = []" "settled v [] = []" "released v [] = []" "entered v [] = []"
  "filtered v [] = []" "accepted v [] = []" "converted v [] = []" "consumed v [] = []"
  by (simp_all add: account_defs)

definition shared :: "sched_track \<Rightarrow> bool \<times> bool \<times> bool \<times> bool \<times> read_result \<times> read_result \<times> bool \<times> read_result"
  where
  "shared t = (enabled t, busy t, requested t, completed t, task t, result t, needs_input t, source_head t)"

lemma track_inv_shared:
  assumes "track_inv v evs s" and "shared (tracks t v) = shared (tracks s v)"
    and "head (tracks t v) = head (tracks s v)" and "workers t v = workers s v" and "stopping t = stopping s"
  shows "track_inv v evs t"
proof -
  have sh: "busy (tracks t v) = busy (tracks s v)" "requested (tracks t v) = requested (tracks s v)"
    "completed (tracks t v) = completed (tracks s v)" "task (tracks t v) = task (tracks s v)"
    "result (tracks t v) = result (tracks s v)" "needs_input (tracks t v) = needs_input (tracks s v)"
    "source_head (tracks t v) = source_head (tracks s v)"
    using assms(2) by (auto simp: shared_def)
  show ?thesis
    using assms(1)
    unfolding track_inv_def Let_def handover_def in_work_def assms(3-5) sh .
qed

text \<open>A step that does not concern a track keeps its account.\<close>

lemma track_inv_frame:
  assumes "track_inv v evs s" and "tracks t v = tracks s v" and "workers t v = workers s v"
    and "stopping s \<longrightarrow> stopping t" and "\<forall>e \<in> set es. on_track e \<noteq> v"
  shows "track_inv v (evs @ es) t"
  using assms(1-4) by (auto simp: track_inv_def Let_def other_track [OF assms(5)])

section \<open>The operations keep the protocol\<close>

text \<open>What an operation on track \<open>v\<close> by the driver leaves alone.\<close>

definition driver_frame :: "bool \<Rightarrow> event list \<Rightarrow> ('c, 'f, 's) sched \<Rightarrow> ('c, 'f, 's) sched \<Rightarrow> bool" where
  "driver_frame v es s t \<longleftrightarrow>
     (\<forall>w. w \<noteq> v \<longrightarrow> tracks t w = tracks s w) \<and> workers t = workers s \<and> stopping t = stopping s \<and>
     failure t = failure s \<and> signal t = signal s \<and> output_signals t = output_signals s \<and>
     drv t = drv s \<and> (\<forall>e \<in> set es. on_track e = v) \<and> enabled (tracks t v) = enabled (tracks s v) \<and>
     converters t = converters s"

lemma driver_frame_refl [simp]: "driver_frame v [] s s"
  by (simp add: driver_frame_def)

lemma Complete_inv:
  assumes "track_inv v evs s"
  shows "track_inv v evs (Complete v now s)" "driver_frame v [] s (Complete v now s)"
    "sync (Complete v now s) = sync s" "\<not> completed (tracks (Complete v now s) v)"
  using assms
  by (auto simp: Complete_def Let_def track_inv_def handover_def driver_frame_def in_work_def
      split: worker.splits)

text \<open>\<open>Deliver\<close> changes nothing the worker sees, and at most takes the head.\<close>

lemma Deliver_effect:
  assumes "Deliver E v now later out s = (r, es, t)"
  shows "driver_frame v es s t \<and> shared (tracks t v) = shared (tracks s v) \<and>
    (head (tracks t v) = head (tracks s v) \<and> es = [] \<or>
     head (tracks t v) = null_result \<and> es = map (Consumed v) (slot (head (tracks s v))))"
proof (cases "output_blocked (tracks s v) \<and> output_signals s v = blocked_revision (tracks s v) \<and>
    now < output_retry_us (tracks s v) \<or> \<not> output_blocked (tracks s v) \<and> now < syncer_wake_us (tracks s v)")
  case True
  with assms show ?thesis by (auto simp: Deliver_def Let_def)
next
  case False
  then have skip: "\<not> (output_blocked (tracks s v) \<and> output_signals s v = blocked_revision (tracks s v) \<and>
      now < output_retry_us (tracks s v))"
    "\<not> (\<not> output_blocked (tracks s v) \<and> now < syncer_wake_us (tracks s v))" by auto
  let ?h = "if rr_status (head (tracks s v)) = KNull then None else Some (head (tracks s v))"
  show ?thesis
  proof (cases "Syncer_Step (lib E) v ?h now out (sync s)")
    case (Pair q y)
    show ?thesis
    proof (cases q)
      case (Inl e)
      with Pair False assms show ?thesis
        by (simp add: Deliver_def Let_def driver_frame_def shared_def) (auto simp: upd_tr_def)
    next
      case (Inr st)
      let ?F = "\<lambda>t. t\<lparr>head := (if st_consumed st then null_result else head t),
                    syncer_wake_us := st_wake_us st,
                    output_blocked := st_blocked st,
                    blocked_revision := (if st_blocked st then output_signals s v else blocked_revision t),
                    output_retry_us := (if st_blocked st then later + kOutputRetryUs else output_retry_us t)\<rparr>"
      have "es = (if st_consumed st \<and> ?h \<noteq> None then [Consumed v (head (tracks s v))] else [])"
        "t = upd_tr v ?F ((upd_tr v (\<lambda>t. t\<lparr>output_blocked := False\<rparr>) s)\<lparr>sync := y\<rparr>)"
        using assms unfolding Deliver_def Let_def
        by (simp_all only: if_not_P [OF skip(1)] if_not_P [OF skip(2)] upd_tr_sel Pair Inr
            prod.case sum.case prod.inject)
      then show ?thesis
        by (cases "st_consumed st"; cases "rr_status (head (tracks s v)) = KNull")
          (simp_all add: driver_frame_def shared_def upd_tr_def)
    qed
  qed
qed

lemma Deliver_inv:
  assumes "Deliver E v now later out s = (r, es, t)" and "track_inv v evs s"
  shows "track_inv v (evs @ es) t"
proof -
  note D = Deliver_effect [OF assms(1)]
  then have f: "workers t = workers s" "stopping t = stopping s"
    and sh: "busy (tracks t v) = busy (tracks s v)" "requested (tracks t v) = requested (tracks s v)"
    "completed (tracks t v) = completed (tracks s v)" "task (tracks t v) = task (tracks s v)"
    "result (tracks t v) = result (tracks s v)" "needs_input (tracks t v) = needs_input (tracks s v)"
    "source_head (tracks t v) = source_head (tracks s v)"
    by (auto simp: driver_frame_def shared_def)
  have c: "taken v (map (Consumed v) xs) = []" "settled v (map (Consumed v) xs) = []"
    "released v (map (Consumed v) xs) = []" "entered v (map (Consumed v) xs) = []"
    "filtered v (map (Consumed v) xs) = []" "accepted v (map (Consumed v) xs) = []"
    "converted v (map (Consumed v) xs) = []" "consumed v (map (Consumed v) xs) = xs" for xs
    by (induction xs) (simp_all add: account_defs)
  from D show ?thesis
  proof (elim conjE disjE)
    assume "head (tracks t v) = head (tracks s v)" "es = []"
    then show ?thesis using track_inv_shared [OF assms(2), of t] D f by simp
  next
    assume h: "head (tracks t v) = null_result" "es = map (Consumed v) (slot (head (tracks s v)))"
    let ?s = "upd_tr v (\<lambda>t. t\<lparr>head := null_result\<rparr>) s"
    have "completed (tracks s v) \<longrightarrow> slot (head (tracks s v)) = []"
      using assms(2) by (auto simp: track_inv_def Let_def handover_def)
    with assms(2) have "track_inv v (evs @ es) ?s"
      by (cases "workers s v") (auto simp: h(2) track_inv_def Let_def handover_def in_work_def held_back_def c)
    then show ?thesis
      by (rule track_inv_shared) (use D f h in \<open>simp_all add: shared_def\<close>)
  qed
qed

text \<open>\<open>Prepare\<close>: the head is missing and the worker is idle whenever something is dispatched.\<close>

lemma Dispatch_inv:
  assumes "track_inv v evs s" and "\<not> busy (tracks s v)" "\<not> completed (tracks s v)"
    and "rr_status (head (tracks s v)) = KNull"
    and "rr_status i \<noteq> KNull \<Longrightarrow> needs_input (tracks s v) \<and> source_head (tracks s v) = i"
    and "es = (if rr_status i = KNull then [] else [if stopping s then Dropped v i else Released v i])"
  shows "track_inv v (evs @ es)
    ((if rr_status i = KNull then id else upd_tr v (\<lambda>t. t\<lparr>source_head := null_result\<rparr>)) (Dispatch v i s))"
  using assms
  by (cases "workers s v")
    (auto simp: Dispatch_def track_inv_def Let_def handover_def in_work_def held_back_def account_defs)

lemma Dispatch_frame: "driver_frame v [] s (Dispatch v i s)"
  by (auto simp: Dispatch_def driver_frame_def)

lemma fetch_inv:
  assumes "fetch E v s = (i, es, t)" and "track_inv v evs s"
  shows "track_inv v (evs @ es) t" "driver_frame v es s t" "sync t = sync s"
    "busy (tracks t v) = busy (tracks s v)" "completed (tracks t v) = completed (tracks s v)"
    "head (tracks t v) = head (tracks s v)" "needs_input (tracks t v) = needs_input (tracks s v)"
    "source_head (tracks t v) = i"
proof -
  have "track_inv v (evs @ es) t \<and> driver_frame v es s t \<and> sync t = sync s \<and>
    busy (tracks t v) = busy (tracks s v) \<and> completed (tracks t v) = completed (tracks s v) \<and>
    head (tracks t v) = head (tracks s v) \<and> needs_input (tracks t v) = needs_input (tracks s v) \<and>
    source_head (tracks t v) = i"
  proof (cases "rr_status (source_head (tracks s v)) = KNull")
    case False
    with assms show ?thesis by (auto simp: fetch_def)
  next
    case True
    obtain j src where r: "e_read E v (source s) = (j, src)" by (cases "e_read E v (source s)")
    with assms(1) True have t: "t = upd_tr v (\<lambda>t. t\<lparr>source_head := i\<rparr>) (s\<lparr>source := src\<rparr>)"
      "es = (if rr_status i \<noteq> KNull then [Taken v i] else [])" "j = i"
      by (auto simp: fetch_def)
    have "track_inv v (evs @ es) t"
      using assms(2) True unfolding t
      by (cases "workers s v") (auto simp: track_inv_def Let_def handover_def in_work_def held_back_def account_defs)
    then show ?thesis by (auto simp: t driver_frame_def upd_tr_def)
  qed
  then show "track_inv v (evs @ es) t" "driver_frame v es s t" "sync t = sync s"
    "busy (tracks t v) = busy (tracks s v)" "completed (tracks t v) = completed (tracks s v)"
    "head (tracks t v) = head (tracks s v)" "needs_input (tracks t v) = needs_input (tracks s v)"
    "source_head (tracks t v) = i" by blast+
qed

lemma driver_frame_trans:
  "driver_frame v es s t \<Longrightarrow> driver_frame v es' t u \<Longrightarrow> driver_frame v (es @ es') s u"
  by (auto simp: driver_frame_def)

text \<open>What \<open>Release\<close> may do with the lookahead.\<close>

lemma Release_inv:
  assumes "Release E v now i s = (r, es, t)" and "track_inv v evs s"
    and "\<not> busy (tracks s v)" "\<not> completed (tracks s v)" "rr_status (head (tracks s v)) = KNull"
    and "needs_input (tracks s v)" "source_head (tracks s v) = i" "rr_status i \<noteq> KNull"
  shows "track_inv v (evs @ es) t \<and> driver_frame v es s t \<and> sync t = sync s \<and>
    completed (tracks t v) = completed (tracks s v) \<and> head (tracks t v) = head (tracks s v)"
proof -
  obtain d p where d: "pace E now i (pacing s) = (d, p)" by (cases "pace E now i (pacing s)")
  let ?s = "s\<lparr>pacing := p\<rparr>"
  have inv: "track_inv v evs ?s" by (rule track_inv_shared [OF assms(2)]) simp_all
  have fr: "driver_frame v [] s ?s" by (simp add: driver_frame_def)
  show ?thesis
  proof (cases d)
    case (Inl e)
    with d assms(1) inv fr show ?thesis by (auto simp: Release_def)
  next
    case (Inr q)
    consider "discard q" | "\<not> discard q" "\<not> ready q" | "\<not> discard q" "ready q" by blast
    then show ?thesis
    proof cases
      case 1
      with Inr d assms(1) have t: "t = upd_tr v (\<lambda>t. t\<lparr>source_head := null_result\<rparr>) ?s" "es = [Dropped v i]"
        by (auto simp: Release_def)
      have "track_inv v (evs @ es) t"
        using assms(2,7,8) unfolding t
        by (cases "workers s v") (auto simp: track_inv_def Let_def handover_def in_work_def held_back_def account_defs)
      then show ?thesis by (auto simp: t driver_frame_def upd_tr_def)
    next
      case 2
      with Inr d assms(1) inv fr show ?thesis by (auto simp: Release_def)
    next
      case 3
      with Inr d assms(1) have
        t: "t = upd_tr v (\<lambda>t. t\<lparr>source_head := null_result\<rparr>) (Dispatch v i ?s)"
        and es: "es = [if stopping s then Dropped v i else Released v i]"
        by (auto simp: Release_def)
      have "track_inv v (evs @ es) t"
        using Dispatch_inv [OF inv, of i es] assms(3-8) by (simp add: t es)
      then show ?thesis
        by (auto simp: t es driver_frame_def upd_tr_def Dispatch_def)
    qed
  qed
qed

lemma Prepare_inv:
  assumes "Prepare E v now s = (r, es, t)" and "track_inv v evs s"
  shows "track_inv v (evs @ es) t \<and> driver_frame v es s t \<and> sync t = sync s \<and>
    completed (tracks t v) = completed (tracks s v) \<and> head (tracks t v) = head (tracks s v)"
proof (cases "busy (tracks s v) \<or> completed (tracks s v) \<or> rr_status (head (tracks s v)) \<noteq> KNull")
  case True
  with assms show ?thesis by (auto simp: Prepare_def Let_def)
next
  case idle: False
  show ?thesis
  proof (cases "needs_input (tracks s v)")
    case False
    with idle assms(1) have "t = Dispatch v null_result s" "es = []" by (auto simp: Prepare_def Let_def)
    then show ?thesis
      using Dispatch_inv [OF assms(2), of null_result "[]"] idle Dispatch_frame [of v s null_result]
      by (auto simp: Dispatch_def)
  next
    case True
    obtain i es1 s1 where f: "fetch E v s = (i, es1, s1)" by (cases "fetch E v s")
    note F = fetch_inv [OF f assms(2)]
    show ?thesis
    proof (cases "rr_status i = KNull")
      case n: True
      with True idle f assms(1) have "t = s1" "es = es1" by (auto simp: Prepare_def Let_def)
      with F show ?thesis by simp
    next
      case False
      obtain r2 es2 t2 where R: "Release E v now i s1 = (r2, es2, t2)" by (cases "Release E v now i s1")
      with True idle f False assms(1) have t: "t = t2" "es = es1 @ es2" by (auto simp: Prepare_def Let_def)
      have "track_inv v ((evs @ es1) @ es2) t2 \<and> driver_frame v es2 s1 t2 \<and> sync t2 = sync s1 \<and>
          completed (tracks t2 v) = completed (tracks s1 v) \<and> head (tracks t2 v) = head (tracks s1 v)"
        by (rule Release_inv [OF R F(1)]) (use F idle True False in auto)
      with F t show ?thesis by (auto intro: driver_frame_trans)
    qed
  qed
qed


section \<open>The worker keeps the protocol\<close>

definition same_outside :: "('c, 'f, 's) sched \<Rightarrow> ('c, 'f, 's) sched \<Rightarrow> bool" where
  "same_outside s t \<longleftrightarrow> tracks t = tracks s \<and> workers t = workers s \<and> stopping t = stopping s \<and>
     failure t = failure s \<and> signal t = signal s \<and> output_signals t = output_signals s \<and>
     drv t = drv s \<and> sync t = sync s"

lemma admit_spec:
  assumes "admit E v i pend s = (r, es, t)"
  shows "same_outside s t \<and> (\<forall>e \<in> set es. on_track e = v) \<and> entered v es = slot i \<and> taken v es = [] \<and>
    settled v es = [] \<and> released v es = [] \<and> accepted v es = [] \<and> converted v es = [] \<and> consumed v es = [] \<and>
    (case r of Inl e \<Rightarrow> filtered v es = []
     | Inr p \<Rightarrow> filtered v es = (if rr_status i = KNull then [] else slot p) \<and>
         (rr_status i = KNull \<longrightarrow> p = pend))"
  using assms
  by (auto simp: admit_def same_outside_def account_defs split: if_splits prod.splits sum.splits)

lemma feed_spec:
  assumes "feed E v p s = (r, es, t)"
  shows "same_outside s t \<and> (\<forall>e \<in> set es. on_track e = v) \<and> entered v es = [] \<and> taken v es = [] \<and>
    settled v es = [] \<and> released v es = [] \<and> filtered v es = [] \<and> converted v es = [] \<and> consumed v es = [] \<and>
    (case r of Inl e \<Rightarrow> prefix (accepted v es) (slot p)
     | Inr (p', o') \<Rightarrow> slot p = accepted v es @ slot p')"
proof -
  obtain q c where q: "(if rr_status p \<noteq> KNull then e_push E v p (converters s v)
      else (Inr False, converters s v)) = (q, c)" by fastforce
  show ?thesis
  proof (cases q)
    case (Inl e)
    with q assms show ?thesis by (auto simp: feed_def same_outside_def)
  next
    case (Inr took)
    have n: "took \<Longrightarrow> rr_status p \<noteq> KNull" using q Inr by (auto split: if_splits)
    obtain q2 c2 where q2: "e_pull E v c = (q2, c2)" by (cases "e_pull E v c")
    show ?thesis
    proof (cases q2)
      case (Inl e)
      with Inr q q2 n assms show ?thesis
        by (cases took) (auto simp: feed_def same_outside_def account_defs)
    next
      case (Inr o')
      obtain q3 f where q3: "(if \<not> v \<and> rr_status o' \<noteq> KNull then e_filter E False o' (media_filter s)
          else (Inr o', media_filter s)) = (q3, f)" by fastforce
      show ?thesis
        using \<open>q = Inr took\<close> Inr q q2 q3 n assms
        by (cases took; cases q3) (auto simp: feed_def same_outside_def account_defs)
    qed
  qed
qed

lemma convert_spec:
  assumes "convert E v i pend s = (r, es, t)" and "rr_status i \<noteq> KNull \<longrightarrow> rr_status pend = KNull"
  shows "same_outside s t \<and> (\<forall>e \<in> set es. on_track e = v) \<and> entered v es = slot i \<and> taken v es = [] \<and>
    settled v es = [] \<and> released v es = [] \<and> converted v es = [] \<and> consumed v es = [] \<and>
    (case r of Inl e \<Rightarrow> prefix (accepted v es) (slot pend @ filtered v es)
     | Inr (p, o') \<Rightarrow> slot pend @ filtered v es = accepted v es @ slot p)"
proof -
  obtain r1 es1 s1 where A: "admit E v i pend s = (r1, es1, s1)" by (cases "admit E v i pend s")
  note a = admit_spec [OF A]
  show ?thesis
  proof (cases r1)
    case (Inl e)
    with A a assms(1) show ?thesis by (auto simp: convert_def)
  next
    case (Inr p)
    obtain r2 es2 s2 where F: "feed E v p s1 = (r2, es2, s2)" by (cases "feed E v p s1")
    note f = feed_spec [OF F]
    from A F Inr assms(1) have t: "r = r2" "es = es1 @ es2" "t = s2" by (auto simp: convert_def)
    have p: "slot pend @ filtered v es1 = slot p" using a Inr assms(2) by auto
    have "case r2 of Inl e \<Rightarrow> prefix (accepted v es2) (slot pend @ filtered v es1)
        | Inr (p', o') \<Rightarrow> slot pend @ filtered v es1 = accepted v es2 @ slot p'"
      using f unfolding p by (cases r2) auto
    with a f show ?thesis
      unfolding t by (cases r2) (auto simp: same_outside_def)
  qed
qed

lemma same_outside_trans: "same_outside s t \<Longrightarrow> same_outside t u \<Longrightarrow> same_outside s u"
  by (simp add: same_outside_def)

lemma convert_frame:
  assumes "convert E v i pend s = (r, es, t)"
  shows "same_outside s t" "\<forall>e \<in> set es. on_track e = v"
proof -
  obtain r1 es1 s1 where A: "admit E v i pend s = (r1, es1, s1)" by (cases "admit E v i pend s")
  have a: "same_outside s s1 \<and> (\<forall>e \<in> set es1. on_track e = v)" using admit_spec [OF A] by blast
  have "same_outside s t \<and> (\<forall>e \<in> set es. on_track e = v)"
  proof (cases r1)
    case (Inl e)
    with A a assms show ?thesis by (auto simp: convert_def)
  next
    case (Inr p)
    obtain r2 es2 s2 where F: "feed E v p s1 = (r2, es2, s2)" by (cases "feed E v p s1")
    have "same_outside s1 s2 \<and> (\<forall>e \<in> set es2. on_track e = v)" using feed_spec [OF F] by blast
    with A F Inr a assms show ?thesis by (auto simp: convert_def intro: same_outside_trans)
  qed
  then show "same_outside s t" "\<forall>e \<in> set es. on_track e = v" by blast+
qed

lemma worker_inv:
  assumes "worker_step E v s = (es, t)" and "track_inv v evs s" and "failure s \<noteq> None \<longrightarrow> stopping s"
  shows "track_inv v (evs @ es) t"
proof (cases "workers s v")
  case (W_wait p)
  note inv = assms(2) [unfolded track_inv_def Let_def handover_def in_work_def held_back_def W_wait,
      simplified]
  consider "stopping s" | "\<not> stopping s" "enabled (tracks s v) \<and> requested (tracks s v)"
    | "\<not> stopping s" "\<not> (enabled (tracks s v) \<and> requested (tracks s v))"
    by blast
  then show ?thesis
  proof cases
    case 1
    with W_wait assms(1) have t: "t = set_worker v W_done s" "es = []" by (auto simp: worker_step_def)
    show ?thesis
      unfolding t using inv 1 by (auto simp: track_inv_def Let_def handover_def)
  next
    case 2
    with W_wait assms(1) have t: "t = set_worker v (W_run (task (tracks s v)) p)
        (upd_tr v (\<lambda>t. t\<lparr>task := null_result, requested := False\<rparr>) s)" "es = []"
      by (auto simp: worker_step_def)
    show ?thesis
      unfolding t using inv 2
      by (auto simp: track_inv_def Let_def handover_def in_work_def held_back_def)
  next
    case 3
    with W_wait assms show ?thesis by (auto simp: worker_step_def)
  qed
next
  case (W_run i p)
  then have ip: "rr_status i \<noteq> KNull \<longrightarrow> rr_status p = KNull"
    using assms(2) by (auto simp: track_inv_def Let_def handover_def)
  obtain r es1 s1 where C: "convert E v i p s = (r, es1, s1)" by (cases "convert E v i p s")
  note c = convert_spec [OF C ip]
  then have fr: "tracks s1 v = tracks s v" by (simp add: same_outside_def)
  show ?thesis
  proof (cases r)
    case (Inl e)
    with C W_run assms(1) have es: "es = es1" and t: "t = set_worker v W_done
        (Fail (case e_filter_error E (media_filter s1) of Some e' \<Rightarrow> e' | None \<Rightarrow> e) s1)"
      by (auto simp: worker_step_def)
    have "stopping t"
      using assms(3) c by (auto simp: t Fail_def WakeAll_def set_worker_def same_outside_def)
    then show ?thesis
      using assms(2) c W_run Inl unfolding es
      by (auto simp: t track_inv_def Let_def handover_def in_work_def held_back_def fr)
  next
    case (Inr po)
    then obtain p' o' where po: "r = Inr (p', o')" by (cases po) simp
    with C W_run assms(1) have es: "es = es1" and t: "t = set_worker v (W_publish p' o') s1"
      by (auto simp: worker_step_def)
    show ?thesis
      using assms(2) c W_run unfolding es t po
      by (auto simp: track_inv_def Let_def handover_def in_work_def held_back_def fr)
  qed
next
  case (W_publish p o')
  note inv = assms(2) [unfolded track_inv_def Let_def handover_def in_work_def held_back_def W_publish,
      simplified]
  let ?t = "set_worker v (W_notify p) (upd_tr v (\<lambda>t. t\<lparr>
      needs_input := (rr_status p = KNull \<and> rr_status o' = KNull), result := o', busy := False,
      completed := True\<rparr>) s)"
  have t: "t = ?t" "es = (if rr_status o' \<noteq> KNull then [Converted v o'] else [])"
    using W_publish assms(1) by (auto simp: worker_step_def)
  have c: "converted v es = slot o'" "taken v es = []" "settled v es = []" "released v es = []"
    "entered v es = []" "filtered v es = []" "accepted v es = []" "consumed v es = []"
    by (auto simp: t(2) account_defs)
  show ?thesis
    unfolding t(1) using inv by (auto simp: track_inv_def Let_def handover_def in_work_def held_back_def c)
next
  case (W_notify p)
  note inv = assms(2) [unfolded track_inv_def Let_def handover_def in_work_def held_back_def W_notify,
      simplified]
  have "t = set_worker v (W_wait p) (s\<lparr>signal := signal s + 1\<rparr>)" "es = []"
    using W_notify assms(1) by (auto simp: worker_step_def)
  then show ?thesis
    using inv by (auto simp: track_inv_def Let_def handover_def in_work_def held_back_def set_worker_def)
next
  case W_done
  with assms show ?thesis by (simp add: worker_step_def)
qed


section \<open>All runs\<close>

text \<open>What a step leaves alone on the other track, and that failing stops.\<close>

definition worker_frame :: "bool \<Rightarrow> event list \<Rightarrow> ('c, 'f, 's) sched \<Rightarrow> ('c, 'f, 's) sched \<Rightarrow> bool" where
  "worker_frame v es s t \<longleftrightarrow>
     (\<forall>w. w \<noteq> v \<longrightarrow> tracks t w = tracks s w \<and> workers t w = workers s w) \<and>
     (\<forall>e \<in> set es. on_track e = v) \<and> (stopping s \<longrightarrow> stopping t) \<and>
     ((failure s \<noteq> None \<longrightarrow> stopping s) \<longrightarrow> failure t \<noteq> None \<longrightarrow> stopping t) \<and>
     sync t = sync s \<and> drv t = drv s \<and> output_signals t = output_signals s \<and>
     head (tracks t v) = head (tracks s v) \<and> enabled (tracks t v) = enabled (tracks s v) \<and>
     source_head (tracks t v) = source_head (tracks s v) \<and>
     syncer_wake_us (tracks t v) = syncer_wake_us (tracks s v) \<and>
     output_blocked (tracks t v) = output_blocked (tracks s v) \<and>
     blocked_revision (tracks t v) = blocked_revision (tracks s v) \<and>
     output_retry_us (tracks t v) = output_retry_us (tracks s v)"

lemma worker_step_frame:
  assumes "worker_step E v s = (es, t)"
  shows "worker_frame v es s t"
proof (cases "workers s v")
  case (W_run i p)
  obtain r es1 s1 where C: "convert E v i p s = (r, es1, s1)" by (cases "convert E v i p s")
  note c = convert_frame [OF C]
  show ?thesis
  proof (cases r)
    case (Inl e)
    with C W_run assms have es: "es = es1" and t: "t = set_worker v W_done
        (Fail (case e_filter_error E (media_filter s1) of Some e' \<Rightarrow> e' | None \<Rightarrow> e) s1)"
      by (auto simp: worker_step_def)
    show ?thesis
      using c by (auto simp: worker_frame_def es t same_outside_def set_worker_def Fail_def WakeAll_def)
  next
    case (Inr po)
    with C W_run assms have "es = es1" "t = set_worker v (W_publish (fst po) (snd po)) s1"
      by (auto simp: worker_step_def split: prod.splits)
    with c show ?thesis by (auto simp: worker_frame_def same_outside_def set_worker_def)
  qed
next
  case (W_wait p)
  with assms show ?thesis
    by (cases "stopping s"; cases "enabled (tracks s v) \<and> requested (tracks s v)") (auto simp: worker_step_def worker_frame_def set_worker_def upd_tr_def)
qed (use assms in \<open>auto simp: worker_step_def worker_frame_def set_worker_def upd_tr_def\<close>)

text \<open>The driver touches one track at a time.\<close>

lemma track_inv_drv [simp]: "track_inv v evs (s\<lparr>drv := d\<rparr>) = track_inv v evs s"
  by (simp add: track_inv_def Let_def)

lemma track_inv_Fail: "track_inv v evs s \<Longrightarrow> track_inv v evs (Fail e s)"
  using track_inv_frame [of v evs s "Fail e s" "[]"] by (auto simp: Fail_def WakeAll_def)

lemma Fail_stopping: "failure s \<noteq> None \<longrightarrow> stopping s \<Longrightarrow> stopping (Fail e s)"
  by (auto simp: Fail_def WakeAll_def)

lemma track_op:
  assumes "\<forall>v. track_inv v evs s" and "track_inv v (evs @ es) t" and "driver_frame v es s t"
  shows "\<forall>v. track_inv v (evs @ es) t"
proof
  fix w
  show "track_inv w (evs @ es) t"
  proof (cases "w = v")
    case False
    with assms(1,3) show ?thesis
      by (intro track_inv_frame [of w evs s t es]) (auto simp: driver_frame_def)
  qed (use assms(2) in simp)
qed

lemma driver_inv:
  assumes "driver_step E clock out s = (es, t)" and inv: "\<forall>v. track_inv v evs s"
    and st: "failure s \<noteq> None \<longrightarrow> stopping s"
  shows "(\<forall>v. track_inv v (evs @ es) t) \<and> (failure t \<noteq> None \<longrightarrow> stopping t)"
proof (cases "drv s")
  case D_top
  with assms show ?thesis
    by (cases "stopping s"; cases "e_source_error E (source s)")
      (auto simp: driver_step_def fail_driver_def track_inv_Fail Fail_stopping)
next
  case (D_collect v obs wake)
  show ?thesis
  proof (cases "enabled (tracks s v)")
    case True
    let ?s = "Complete v (clock 0) s"
    have c: "\<forall>v. track_inv v evs ?s"
      using track_op [of evs s v "[]" ?s] Complete_inv [OF inv [rule_format]] inv by simp
    obtain r es1 s1 where D: "Deliver E v (clock 1) (clock 2) out ?s = (r, es1, s1)"
      by (cases "Deliver E v (clock 1) (clock 2) out ?s")
    have d: "\<forall>v. track_inv v (evs @ es1) s1"
      using track_op [OF c Deliver_inv [OF D c [rule_format]]] Deliver_effect [OF D] by blast
    have "failure s1 = failure s" "stopping s1 = stopping s"
      using Deliver_effect [OF D] Complete_inv(2) [OF inv [rule_format]] by (auto simp: driver_frame_def)
    with D_collect True D d assms show ?thesis
      by (cases r) (auto simp: driver_step_def fail_driver_def track_inv_Fail Fail_stopping)
  next
    case False
    obtain full src where "drain_source E v kDiscardBatch (source s) = (full, src)"
      by (cases "drain_source E v kDiscardBatch (source s)")
    moreover have "track_inv w evs (s\<lparr>source := src\<rparr>)" for w
      using inv by (simp add: track_inv_def Let_def)
    ultimately show ?thesis
      using D_collect False assms by (auto simp: driver_step_def DrainDisabled_def Let_def)
  qed
next
  case (D_prepare v obs wake)
  show ?thesis
  proof (cases "enabled (tracks s v)")
    case True
    obtain r es1 s1 where P: "Prepare E v (clock 0) s = (r, es1, s1)" by (cases "Prepare E v (clock 0) s")
    note p = Prepare_inv [OF P inv [rule_format]]
    then have d: "\<forall>v. track_inv v (evs @ es1) s1" using track_op [OF inv] by blast
    have "failure s1 = failure s" "stopping s1 = stopping s" using p by (auto simp: driver_frame_def)
    with D_prepare True P d assms show ?thesis
      by (cases r; cases v) (auto simp: driver_step_def Let_def fail_driver_def track_inv_Fail Fail_stopping)
  next
    case False
    with D_prepare assms show ?thesis by (cases v) (auto simp: driver_step_def Let_def)
  qed
next
  case (D_sleep obs wake)
  with assms show ?thesis by (auto simp: driver_step_def)
next
  case D_done
  with assms show ?thesis by (simp add: driver_step_def)
qed

lemma Start_inv:
  assumes "Start E True s0 = (True, s)"
  shows "(\<forall>v. track_inv v [] s) \<and> failure s = None \<and> \<not> stopping s"
  using assms
  by (auto simp: Start_def Let_def track_inv_def handover_def in_work_def held_back_def clear_track_def
      split: sum.splits prod.splits if_splits)

lemma run_inv:
  assumes "run E s0 evs k s"
  shows "(\<forall>v. track_inv v evs s) \<and> (failure s \<noteq> None \<longrightarrow> stopping s)"
  using assms
proof (induction rule: run.induct)
  case (boot s)
  then show ?case using Start_inv by auto
next
  case (driver evs k s out clock es t)
  then show ?case using driver_inv [OF driver.hyps(3)] by blast
next
  case (worker evs k s v es t)
  have f: "worker_frame v es s t" by (rule worker_step_frame [OF worker.hyps(2)])
  have "track_inv w (evs @ es) t" for w
  proof (cases "w = v")
    case True
    then show ?thesis using worker_inv [OF worker.hyps(2)] worker.IH by blast
  next
    case False
    then show ?thesis
      using f worker.IH by (intro track_inv_frame [of w evs s t es]) (auto simp: worker_frame_def)
  qed
  with f worker.IH show ?case by (auto simp: worker_frame_def)
next
  case (space evs k s v)
  then show ?case by (auto simp: track_inv_def Let_def)
next
  case (ready evs k s src)
  then show ?case by (auto simp: track_inv_def Let_def)
next
  case (stop evs k s)
  then show ?case
    using track_inv_frame [of _ evs s "RequestStop s" "[]"] by auto
qed


section \<open>The driver does not sleep through a result\<close>

text \<open>
  \<open>noted\<close>: a published result is still to be announced, or was announced after the revision
  that the driver compares with was recorded (\<open>j\<close> of \<open>k\<close> notifications).
\<close>

definition noted :: "('c, 'f, 's) sched \<Rightarrow> nat \<Rightarrow> nat \<Rightarrow> bool \<Rightarrow> bool" where
  "noted s j k v \<longleftrightarrow> enabled (tracks s v) \<and> completed (tracks s v) \<longrightarrow>
     (\<exists>p. workers s v = W_notify p) \<or> j < k"

definition wake_inv :: "64 word \<Rightarrow> nat \<Rightarrow> ('c, 'f, 's) sched \<Rightarrow> bool" where
  "wake_inv base k s \<longleftrightarrow>
     signal s = base + of_nat k \<and>
     (case drv s of
        D_collect v obs w \<Rightarrow> \<exists>j \<le> k. obs = base + of_nat j \<and> (\<not> v \<longrightarrow> noted s j k True)
      | D_prepare v obs w \<Rightarrow> \<exists>j \<le> k. obs = base + of_nat j \<and> (\<forall>u. noted s j k u)
      | D_sleep obs w \<Rightarrow> \<exists>j \<le> k. obs = base + of_nat j \<and> (\<forall>u. noted s j k u)
      | _ \<Rightarrow> True)"

lemma noted_drv [simp]:
  "noted (s\<lparr>drv := d\<rparr>) = noted s" "noted (s\<lparr>source := src\<rparr>) = noted s"
  by (intro ext; simp add: noted_def)+

lemma noted_all: "noted s j k True \<Longrightarrow> noted s j k False \<Longrightarrow> noted s j k u"
  by (cases u) simp_all

lemma noted_later: "j \<le> k \<Longrightarrow> noted s j (Suc k) u"
  by (simp add: noted_def)

lemma notified_le: "notified s t = 0 \<or> notified s t = 1"
  by (simp add: notified_def)

text \<open>A notification discharges the whole invariant.\<close>

lemma wake_inv_bump:
  assumes "wake_inv base k s" and "signal t = signal s + 1" and "drv t = drv s"
  shows "wake_inv base (Suc k) t"
  using assms by (cases "drv s") (auto simp: wake_inv_def noted_def intro!: le_SucI intro: le_imp_less_Suc)

lemma worker_signal:
  assumes "worker_step E v s = (es, t)" and "signal t = signal s"
  shows "noted s j k u \<Longrightarrow> noted t j k u"
proof (cases "u = v")
  case False
  then show "noted s j k u \<Longrightarrow> noted t j k u"
    using worker_step_frame [OF assms(1)] by (auto simp: worker_frame_def noted_def)
next
  case u: True
  assume n: "noted s j k u"
  show "noted t j k u"
  proof (cases "workers s v")
    case (W_wait p)
    with n u assms(1) show ?thesis
      by (cases "stopping s"; cases "enabled (tracks s v) \<and> requested (tracks s v)") (auto simp: worker_step_def noted_def)
  next
    case (W_run i p)
    obtain r es1 s1 where C: "convert E v i p s = (r, es1, s1)" by (cases "convert E v i p s")
    have "tracks s1 = tracks s" using convert_frame(1) [OF C] by (simp add: same_outside_def)
    then have "tracks t v = tracks s v"
      using C W_run assms(1) by (cases r) (auto simp: worker_step_def split: prod.splits)
    with n u W_run show ?thesis by (simp add: noted_def)
  next
    case (W_publish p o')
    with u assms(1) show ?thesis by (auto simp: worker_step_def noted_def)
  next
    case (W_notify p)
    with assms show ?thesis by (auto simp: worker_step_def set_worker_def)
  next
    case W_done
    with n assms(1) show ?thesis by (simp add: worker_step_def)
  qed
qed

lemma worker_signal_step:
  assumes "worker_step E v s = (es, t)"
  shows "signal t = signal s \<or> signal t = signal s + 1"
proof (cases "workers s v")
  case (W_run i p)
  obtain r es1 s1 where C: "convert E v i p s = (r, es1, s1)" by (cases "convert E v i p s")
  have "signal s1 = signal s" using convert_frame(1) [OF C] by (simp add: same_outside_def)
  moreover have "(\<exists>e. t = set_worker v W_done (Fail e s1)) \<or> signal t = signal s1"
    using C W_run assms by (cases r) (auto simp: worker_step_def split: prod.splits)
  ultimately show ?thesis using Fail_signal [of _ s1] by (metis set_worker_sel(4))
qed (use assms in \<open>auto simp: worker_step_def split: if_splits\<close>)

lemma wake_worker:
  assumes "worker_step E v s = (es, t)" and inv: "wake_inv base k s"
  shows "wake_inv base (k + notified s t) t"
proof (cases "signal t = signal s")
  case False
  then have "signal t = signal s + 1" using worker_signal_step [OF assms(1)] by blast
  with False wake_inv_bump [OF inv this] worker_step_frame [OF assms(1)] show ?thesis
    by (simp add: notified_def worker_frame_def)
next
  case True
  have d: "drv t = drv s" using worker_step_frame [OF assms(1)] by (simp add: worker_frame_def)
  with True inv worker_signal [OF assms(1) True] show ?thesis
    by (cases "drv s") (auto simp: notified_def wake_inv_def)
qed

lemma fail_driver_wake:
  assumes "signal s = base + of_nat k" and "signal t = signal s"
  shows "wake_inv base (k + notified s (fail_driver e t)) (fail_driver e t)"
  using assms Fail_signal [of e t] by (auto simp: fail_driver_def wake_inv_def notified_def)

lemma wake_driver:
  assumes "driver_step E clock out s = (es, t)" and inv: "wake_inv base k s"
    and ti: "\<forall>v. track_inv v evs s"
  shows "wake_inv base (k + notified s t) t"
proof -
  have sig: "signal s = base + of_nat k" using inv by (simp add: wake_inv_def)
  show ?thesis
  proof (cases "drv s")
    case D_top
    then have "t = s\<lparr>drv := D_done\<rparr> \<or> (\<exists>e. t = fail_driver e s) \<or> t = s\<lparr>drv := D_collect True (signal s) kNoWake\<rparr>"
      using assms(1) by (auto simp: driver_step_def split: if_splits option.splits)
    then show ?thesis
      using fail_driver_wake [OF sig refl] sig
      by (elim disjE exE) (simp, simp_all add: wake_inv_def notified_def, auto)
  next
    case (D_collect v obs wake)
    then obtain j where j: "j \<le> k" "obs = base + of_nat j" "\<not> v \<longrightarrow> noted s j k True"
      using inv by (auto simp: wake_inv_def)
    show ?thesis
    proof (cases "enabled (tracks s v)")
      case True
      let ?s = "Complete v (clock 0) s"
      note C = Complete_inv [OF ti [rule_format, of v], of "clock 0"]
      obtain r es1 s1 where D: "Deliver E v (clock 1) (clock 2) out ?s = (r, es1, s1)"
        by (cases "Deliver E v (clock 1) (clock 2) out ?s")
      have fr: "signal s1 = signal s" "workers s1 = workers s" "\<forall>w. w \<noteq> v \<longrightarrow> tracks s1 w = tracks s w"
        "\<not> completed (tracks s1 v)"
        using Deliver_effect [OF D] C(2,4) by (auto simp: driver_frame_def shared_def)
      then have n: "noted s1 j k v" "\<And>u. u \<noteq> v \<Longrightarrow> noted s1 j k u = noted s j k u"
        by (auto simp: noted_def)
      show ?thesis
      proof (cases r)
        case (Inl e)
        with D_collect True D assms(1) have "t = fail_driver e s1" by (auto simp: driver_step_def)
        with fail_driver_wake [OF sig fr(1)] show ?thesis by simp
      next
        case (Inr u)
        with D_collect True D assms(1) have "t = s1\<lparr>drv := (if stopping s1 then D_done
            else if v then D_collect False obs wake else D_prepare True obs wake)\<rparr>"
          by (auto simp: driver_step_def)
        moreover have "\<not> v \<Longrightarrow> \<forall>u. noted s1 j k u" "v \<Longrightarrow> noted s1 j k True"
          using n j(3) by (auto intro: noted_all)
        ultimately show ?thesis
          using sig fr(1) j(1,2) by (auto simp: wake_inv_def notified_def)
      qed
    next
      case False
      obtain full src where dr: "drain_source E v kDiscardBatch (source s) = (full, src)"
        by (cases "drain_source E v kDiscardBatch (source s)")
      have "noted s j k v" using False by (simp add: noted_def)
      then have "\<not> v \<Longrightarrow> \<forall>u. noted s j k u" "v \<Longrightarrow> noted s j k True"
        using j(3) by (auto intro: noted_all)
      moreover have "t = s\<lparr>source := src, drv := (if stopping s then D_done
            else if v then D_collect False obs (if full then clock 0 else wake)
            else D_prepare True obs (if full then clock 0 else wake))\<rparr>"
        using D_collect False assms(1) dr by (auto simp: driver_step_def DrainDisabled_def Let_def)
      ultimately show ?thesis
        using sig j(1,2) by (auto simp: wake_inv_def notified_def)
    qed
  next
    case (D_prepare v obs wake)
    then obtain j where j: "j \<le> k" "obs = base + of_nat j" "\<forall>u. noted s j k u"
      using inv by (auto simp: wake_inv_def)
    show ?thesis
    proof (cases "enabled (tracks s v)")
      case True
      obtain r es1 s1 where P: "Prepare E v (clock 0) s = (r, es1, s1)" by (cases "Prepare E v (clock 0) s")
      note p = Prepare_inv [OF P ti [rule_format, of v]]
      then have "signal s1 = signal s" "workers s1 = workers s" "\<forall>w. w \<noteq> v \<longrightarrow> tracks s1 w = tracks s w"
        "completed (tracks s1 v) = completed (tracks s v)" "enabled (tracks s1 v) = enabled (tracks s v)"
        by (auto simp: driver_frame_def)
      moreover from this have "noted s1 j k u" for u
        using j(3) by (cases "u = v") (auto simp: noted_def)
      ultimately have fr: "signal s1 = signal s" "\<forall>u. noted s1 j k u" by blast+
      show ?thesis
      proof (cases r)
        case (Inl e)
        with D_prepare True P assms(1) have "t = fail_driver e s1" by (auto simp: driver_step_def Let_def)
        with fail_driver_wake [OF sig fr(1)] show ?thesis by simp
      next
        case (Inr w)
        with D_prepare True P assms(1) fr sig j(1,2) show ?thesis
          by (cases v) (auto simp: driver_step_def Let_def wake_inv_def notified_def)
      qed
    next
      case False
      with D_prepare assms(1) sig j show ?thesis
        by (cases v) (auto simp: driver_step_def Let_def wake_inv_def notified_def)
    qed
  next
    case (D_sleep obs wake)
    with assms(1) inv show ?thesis
      by (auto simp: driver_step_def wake_inv_def notified_def split: if_splits)
  next
    case D_done
    with assms(1) inv show ?thesis by (simp add: driver_step_def notified_def)
  qed
qed

lemma run_wake:
  assumes "run E s0 evs k s"
  shows "wake_inv (signal s0) k s"
  using assms
proof (induction rule: run.induct)
  case (boot s)
  then show ?case
    by (auto simp: Start_def Let_def wake_inv_def split: sum.splits prod.splits if_splits)
next
  case (driver evs k s out clock es t)
  then show ?case using wake_driver run_inv by blast
next
  case (worker evs k s v es t)
  then show ?case using wake_worker by blast
next
  case (space evs k s v)
  show ?case by (simp add: wake_inv_bump [OF space.IH])
next
  case (ready evs k s src)
  show ?case by (simp add: wake_inv_bump [OF ready.IH])
next
  case (stop evs k s)
  show ?case by (simp add: wake_inv_bump [OF stop.IH])
qed


section \<open>The syncer is used as documented\<close>

definition held_of :: "('c, 'f, 's) sched \<Rightarrow> bool \<Rightarrow> read_result option" where
  "held_of s v = (if rr_status (head (tracks s v)) = KNull then None else Some (head (tracks s v)))"

lemma held_of_simps [simp]:
  "held_of (s\<lparr>drv := d\<rparr>) = held_of s" "held_of (s\<lparr>signal := x\<rparr>) = held_of s"
  "held_of (s\<lparr>source := y\<rparr>) = held_of s" "held_of (s\<lparr>source := y, signal := x\<rparr>) = held_of s"
  "held_of (s\<lparr>source := y, drv := d\<rparr>) = held_of s"
  "held_of (s\<lparr>output_signals := z\<rparr>) = held_of s"
  by (intro ext; simp add: held_of_def)+

text \<open>A read result as the source's queue holds it: a frame that was not moved from.\<close>

definition item_ok :: "read_result \<Rightarrow> bool" where
  "item_ok i \<longleftrightarrow> rr_frame i \<noteq> Null_frame"

text \<open>What the other components promise: in a state that satisfies its invariant \<open>good\<close> a converter
  does not dereference nothing, and it keeps the invariant; source and filter never do.\<close>

definition env_ok :: "('c, 'f, 's) sched_env \<Rightarrow> (bool \<Rightarrow> 'c \<Rightarrow> bool) \<Rightarrow> bool" where
  "env_ok E good \<longleftrightarrow>
     (\<forall>v i c. good v c \<longrightarrow> fst (e_push E v i c) \<noteq> Inl Undefined_behaviour \<and> good v (snd (e_push E v i c))) \<and>
     (\<forall>v c. good v c \<longrightarrow> fst (e_pull E v c) \<noteq> Inl Undefined_behaviour \<and> good v (snd (e_pull E v c))) \<and>
     (\<forall>v c. good v c \<longrightarrow> good v (e_restart E v c)) \<and>
     (\<forall>v i f. fst (e_filter E v i f) \<noteq> Inl Undefined_behaviour) \<and>
     (\<forall>f. e_filter_error E f \<noteq> Some Undefined_behaviour) \<and>
     (\<forall>src. e_source_error E src \<noteq> Some Undefined_behaviour) \<and>
     (\<forall>v src. item_ok (fst (e_read E v src)))"

lemma env_okD:
  assumes "env_ok E good"
  shows "e_push E v i c = (q, c') \<Longrightarrow> good v c \<Longrightarrow> q \<noteq> Inl Undefined_behaviour \<and> good v c'"
    "e_pull E v c = (q', c') \<Longrightarrow> good v c \<Longrightarrow> q' \<noteq> Inl Undefined_behaviour \<and> good v c'"
    "e_filter E v i f = (Inl e, f') \<Longrightarrow> e \<noteq> Undefined_behaviour"
    "e_filter_error E f = Some e \<Longrightarrow> e \<noteq> Undefined_behaviour"
    "e_source_error E src = Some e \<Longrightarrow> e \<noteq> Undefined_behaviour"
    "e_read E v src = (i, src') \<Longrightarrow> item_ok i"
    "good v c \<Longrightarrow> good v (e_restart E v c)"
  using assms unfolding env_ok_def by (metis fst_conv snd_conv)+

definition converters_ok :: "(bool \<Rightarrow> 'c \<Rightarrow> bool) \<Rightarrow> ('c, 'f, 's) sched \<Rightarrow> bool" where
  "converters_ok good s \<longleftrightarrow>
     (\<forall>v. (enabled (tracks s v) \<longrightarrow> good v (converters s v)) \<and>
        (\<forall>i p. workers s v = W_run i p \<longrightarrow> enabled (tracks s v)))"

lemma converters_ok_frame:
  "converters_ok good s \<Longrightarrow> converters t = converters s \<Longrightarrow> workers t = workers s \<Longrightarrow>
   \<forall>v. enabled (tracks t v) = enabled (tracks s v) \<Longrightarrow> converters_ok good t"
  by (simp add: converters_ok_def)

definition safe_inv :: "('c, 'f, 's) sched_env \<Rightarrow> syncer_config \<Rightarrow> ('c, 'f, 's) sched \<Rightarrow> bool" where
  "safe_inv E c s \<longleftrightarrow>
     failure s \<noteq> Some Undefined_behaviour \<and> im_config (sync s) = c \<and>
     (\<forall>v. item_ok (source_head (tracks s v))) \<and>
     (drv s \<noteq> D_done \<longrightarrow> session (lib E) (sync s) (held_of s))"

lemma Complete_session:
  assumes "session L (sync s) (held_of s)" and "track_inv v evs s"
  shows "session L (sync s) (held_of (Complete v now s))"
proof (cases "completed (tracks s v)")
  case False
  with assms(1) show ?thesis by (simp add: Complete_def Let_def)
next
  case True
  then have h: "held_of s v = None" using assms(2) by (auto simp: track_inv_def Let_def handover_def held_of_def)
  have "held_of (Complete v now s) = (if rr_status (result (tracks s v)) = KNull then held_of s
      else (held_of s)(v := Some (result (tracks s v))))"
    using True h by (intro ext) (auto simp: Complete_def Let_def held_of_def upd_tr_def)
  then show ?thesis using assms(1) session.offer [OF assms(1) h] by simp
qed

lemma Deliver_session:
  assumes "session (lib E) (sync s) (held_of s)" and "callback_ok out"
    and D: "Deliver E v now later out s = (r, es, t)"
  shows "r \<noteq> Inl Undefined_behaviour \<and> im_config (sync t) = im_config (sync s) \<and>
    (r = Inr () \<longrightarrow> session (lib E) (sync t) (held_of t))"
proof (cases "output_blocked (tracks s v) \<and> output_signals s v = blocked_revision (tracks s v) \<and>
    now < output_retry_us (tracks s v) \<or> \<not> output_blocked (tracks s v) \<and> now < syncer_wake_us (tracks s v)")
  case True
  with assms show ?thesis by (auto simp: Deliver_def Let_def)
next
  case False
  then have skip: "\<not> (output_blocked (tracks s v) \<and> output_signals s v = blocked_revision (tracks s v) \<and>
      now < output_retry_us (tracks s v))"
    "\<not> (\<not> output_blocked (tracks s v) \<and> now < syncer_wake_us (tracks s v))" by auto
  obtain q y where S: "Syncer_Step (lib E) v (held_of s v) now out (sync s) = (q, y)"
    by (cases "Syncer_Step (lib E) v (held_of s v) now out (sync s)")
  note S' = S [unfolded held_of_def]
  note D' = D [unfolded Deliver_def Let_def if_not_P [OF skip(1)] if_not_P [OF skip(2)] upd_tr_sel S' prod.case]
  have c: "im_config y = im_config (sync s)"
    using S by (auto simp: Syncer_Step_def split: if_splits sum.splits prod.splits)
  show ?thesis
  proof (cases q)
    case (Inl e)
    have "q \<noteq> Inl Undefined_behaviour"
      using Step_session(1) [OF session_ok [OF assms(1)] assms(2) S] .
    with Inl D' c show ?thesis by auto
  next
    case (Inr st)
    have t: "r = Inr ()" "sync t = y"
      "head (tracks t v) = (if st_consumed st then null_result else head (tracks s v))"
      "\<And>w. w \<noteq> v \<Longrightarrow> head (tracks t w) = head (tracks s w)"
      using D' by (auto simp: Inr)
    have "held_of t w = (if st_consumed st then (held_of s)(v := None) else held_of s) w" for w
      using t(3,4) by (cases "w = v") (auto simp: held_of_def)
    then have "held_of t = (if st_consumed st then (held_of s)(v := None) else held_of s)" by blast
    with session.step [OF assms(1,2) S [unfolded Inr]] t c show ?thesis by simp
  qed
qed

lemma Schedule_safe: "Schedule p now q = (Inl e, q') \<Longrightarrow> e \<noteq> Undefined_behaviour"
  by (auto simp: Schedule_def resync_def act_defs split: option.splits sum.splits prod.splits if_splits)

lemma Prepare_safe:
  assumes "Prepare E v now s = (r, es, t)" and "env_ok E good" and "item_ok (source_head (tracks s v))"
  shows "r \<noteq> Inl Undefined_behaviour \<and> item_ok (source_head (tracks t v))"
proof -
  have pace: "item_ok i \<Longrightarrow> pace E now' i p = (Inl e, p') \<Longrightarrow> e \<noteq> Undefined_behaviour" for i now' p e p'
    by (cases "rr_frame i")
      (auto simp: pace_def InputPts_def item_ok_def Let_def split: if_splits sum.splits dest: Schedule_safe)
  have null: "item_ok null_result" by (simp add: item_ok_def null_result_def)
  have rel: "Release E v now i s1 = (r1, es1, t1) \<Longrightarrow> item_ok i \<Longrightarrow> item_ok (source_head (tracks s1 v)) \<Longrightarrow>
      r1 \<noteq> Inl Undefined_behaviour \<and> item_ok (source_head (tracks t1 v))" for i s1 r1 es1 t1
    using null by (auto simp: Release_def split: prod.splits sum.splits if_splits dest: pace)
  have fet: "fetch E v s = (i, es1, s1) \<Longrightarrow> item_ok i \<and> item_ok (source_head (tracks s1 v))" for i es1 s1
    using assms(2,3) by (auto simp: fetch_def split: if_splits prod.splits dest: env_okD)
  show ?thesis
    using assms(1,3)
    by (auto simp: Prepare_def Let_def Dispatch_def split: if_splits prod.splits dest!: fet dest: rel)
qed

lemma admit_safe:
  assumes "admit E v i p s = (r, es, t)" and "env_ok E good"
  shows "r \<noteq> Inl Undefined_behaviour \<and> converters t = converters s"
  using assms(1) by (auto simp: admit_def split: if_splits prod.splits sum.splits dest: env_okD(3) [OF assms(2)])

lemma feed_safe:
  assumes "feed E v p s = (r, es, t)" and "env_ok E good" and "good v (converters s v)"
  shows "r \<noteq> Inl Undefined_behaviour \<and> good v (converters t v) \<and> (\<forall>w. w \<noteq> v \<longrightarrow> converters t w = converters s w)"
proof -
  obtain q c where q: "(if rr_status p \<noteq> KNull then e_push E v p (converters s v)
      else (Inr False, converters s v)) = (q, c)" by fastforce
  then have c: "q \<noteq> Inl Undefined_behaviour \<and> good v c"
    using env_okD(1) [OF assms(2) _ assms(3)] assms(3) by (auto split: if_splits)
  show ?thesis
  proof (cases q)
    case (Inl e)
    with q c assms(1) show ?thesis by (auto simp: feed_def)
  next
    case (Inr took)
    obtain q2 c2 where q2: "e_pull E v c = (q2, c2)" by (cases "e_pull E v c")
    have c2: "q2 \<noteq> Inl Undefined_behaviour \<and> good v c2" using env_okD(2) [OF assms(2) q2] c by blast
    show ?thesis
    proof (cases q2)
      case (Inl e)
      with \<open>q = Inr took\<close> q q2 c2 assms(1) show ?thesis by (auto simp: feed_def)
    next
      case (Inr o')
      obtain q3 f where q3: "(if \<not> v \<and> rr_status o' \<noteq> KNull then e_filter E False o' (media_filter s)
          else (Inr o', media_filter s)) = (q3, f)" by fastforce
      then have "q3 \<noteq> Inl Undefined_behaviour"
        by (auto split: if_splits dest: env_okD(3) [OF assms(2)])
      with \<open>q = Inr took\<close> Inr q q2 q3 c2 assms(1) show ?thesis
        by (cases q3) (auto simp: feed_def)
    qed
  qed
qed

lemma convert_safe:
  assumes "convert E v i p s = (r, es, t)" and "env_ok E good" and "good v (converters s v)"
  shows "r \<noteq> Inl Undefined_behaviour \<and> good v (converters t v) \<and> (\<forall>w. w \<noteq> v \<longrightarrow> converters t w = converters s w)"
proof -
  obtain r1 es1 s1 where A: "admit E v i p s = (r1, es1, s1)" by (cases "admit E v i p s")
  note a = admit_safe [OF A assms(2)]
  show ?thesis
  proof (cases r1)
    case (Inl e)
    with A a assms(1,3) show ?thesis by (auto simp: convert_def)
  next
    case (Inr p')
    obtain r2 es2 s2 where F: "feed E v p' s1 = (r2, es2, s2)" by (cases "feed E v p' s1")
    have "good v (converters s1 v)" using a assms(3) by simp
    from feed_safe [OF F assms(2) this] A F Inr a assms(1) show ?thesis by (auto simp: convert_def)
  qed
qed

lemma converters_ok_worker:
  assumes "converters_ok good s" and "converters t = converters s"
    and "\<And>w. enabled (tracks t w) = enabled (tracks s w)"
    and "\<And>w. w \<noteq> v \<Longrightarrow> workers t w = workers s w"
    and "\<forall>i p. workers t v = W_run i p \<longrightarrow> enabled (tracks s v)"
  shows "converters_ok good t"
  unfolding converters_ok_def
proof
  fix w
  show "(enabled (tracks t w) \<longrightarrow> good w (converters t w)) \<and>
      (\<forall>i p. workers t w = W_run i p \<longrightarrow> enabled (tracks t w))"
    using assms(1,2,3,5) assms(4) [of w] by (cases "w = v") (auto simp: converters_ok_def)
qed

lemma worker_safe:
  assumes "worker_step E v s = (es, t)" and "env_ok E good" and "safe_inv E c s" and "converters_ok good s"
  shows "safe_inv E c t \<and> converters_ok good t"
proof -
  have f: "worker_frame v es s t" by (rule worker_step_frame [OF assms(1)])
  have "head (tracks t w) = head (tracks s w) \<and> source_head (tracks t w) = source_head (tracks s w) \<and>
      enabled (tracks t w) = enabled (tracks s w)" for w
    using f by (cases "w = v") (auto simp: worker_frame_def)
  then have h: "held_of t = held_of s" "\<forall>w. item_ok (source_head (tracks t w))"
    and en: "\<And>w. enabled (tracks t w) = enabled (tracks s w)"
    using assms(3) by (auto simp: held_of_def safe_inv_def)
  have other: "w \<noteq> v \<Longrightarrow> workers t w = workers s w" for w using f by (simp add: worker_frame_def)
  have "failure t \<noteq> Some Undefined_behaviour \<and> converters_ok good t"
  proof (cases "workers s v")
    case (W_run i p)
    obtain r es1 s1 where C: "convert E v i p s = (r, es1, s1)" by (cases "convert E v i p s")
    have fs: "failure s1 = failure s" using convert_frame(1) [OF C] by (simp add: same_outside_def)
    have "good v (converters s v)" using assms(4) W_run by (auto simp: converters_ok_def)
    note cs = convert_safe [OF C assms(2) this]
    have "good w (converters s1 w)" if "enabled (tracks s w)" for w
      using that cs assms(4) by (cases "w = v") (auto simp: converters_ok_def)
    moreover have "converters t = converters s1 \<and> (\<forall>i p. workers t v \<noteq> W_run i p)"
      using C W_run assms(1)
      by (cases r) (auto simp: worker_step_def Fail_def WakeAll_def set_worker_def split: prod.splits)
    ultimately have "(enabled (tracks t w) \<longrightarrow> good w (converters t w)) \<and>
        (\<forall>i p. workers t w = W_run i p \<longrightarrow> enabled (tracks t w))" for w
      using en other [of w] assms(4) by (cases "w = v") (simp_all add: converters_ok_def)
    then have conv: "converters_ok good t" by (simp add: converters_ok_def)
    show ?thesis
    proof (cases r)
      case (Inl e)
      with C W_run assms(1,3) fs cs conv show ?thesis
        by (auto simp: worker_step_def safe_inv_def split: option.splits dest: env_okD(4) [OF assms(2)])
    next
      case (Inr po)
      with C W_run assms(1,3) fs conv show ?thesis by (auto simp: worker_step_def safe_inv_def split: prod.splits)
    qed
  next
    case (W_wait p)
    with assms(1,3) have "failure t = failure s" "converters t = converters s"
      "\<forall>i p. workers t v = W_run i p \<longrightarrow> enabled (tracks s v)"
      by (auto simp: worker_step_def set_worker_def upd_tr_def split: if_splits)
    with assms(3) converters_ok_worker [OF assms(4) _ en other] show ?thesis by (simp add: safe_inv_def)
  next
    case (W_publish p o')
    with assms(1,3) have "failure t = failure s" "converters t = converters s" "\<forall>i p. workers t v \<noteq> W_run i p"
      by (auto simp: worker_step_def set_worker_def upd_tr_def)
    with assms(3) converters_ok_worker [OF assms(4) _ en other] show ?thesis by (simp add: safe_inv_def)
  next
    case (W_notify p)
    with assms(1,3) have "failure t = failure s" "converters t = converters s" "\<forall>i p. workers t v \<noteq> W_run i p"
      by (auto simp: worker_step_def set_worker_def upd_tr_def)
    with assms(3) converters_ok_worker [OF assms(4) _ en other] show ?thesis by (simp add: safe_inv_def)
  next
    case W_done
    with assms(1,3,4) show ?thesis by (simp add: worker_step_def safe_inv_def)
  qed
  with h f assms(3) show ?thesis by (auto simp: safe_inv_def worker_frame_def)
qed

lemma fail_driver_safe:
  "safe_inv E c s \<or> (failure s \<noteq> Some Undefined_behaviour \<and> im_config (sync s) = c \<and>
      (\<forall>v. item_ok (source_head (tracks s v)))) \<Longrightarrow>
   e \<noteq> Undefined_behaviour \<Longrightarrow> safe_inv E c (fail_driver e s)"
  by (auto simp: safe_inv_def fail_driver_def split: option.splits)


lemma fail_driver_safe':
  "failure s \<noteq> Some Undefined_behaviour \<Longrightarrow> im_config (sync s) = c \<Longrightarrow>
   \<forall>v. item_ok (source_head (tracks s v)) \<Longrightarrow> e \<noteq> Undefined_behaviour \<Longrightarrow>
   safe_inv E c (fail_driver e s)"
  by (rule fail_driver_safe) simp_all

lemma safe_inv_drv:
  "safe_inv E c s \<Longrightarrow> drv s \<noteq> D_done \<Longrightarrow> safe_inv E c (s\<lparr>drv := d\<rparr>)"
  by (auto simp: safe_inv_def held_of_def)

lemma driver_safe:
  assumes "driver_step E clock out s = (es, t)" and env: "env_ok E good" and inv: "safe_inv E c s"
    and out: "callback_ok out" and ti: "\<forall>v. track_inv v evs s"
  shows "safe_inv E c t"
proof (cases "drv s")
  case D_top
  with inv have "safe_inv E c (s\<lparr>drv := d\<rparr>)" for d by (intro safe_inv_drv) simp_all
  then show ?thesis
    using D_top assms(1) inv fail_driver_safe [where s = s and c = c and E = E] env_okD(5) [OF env]
    by (auto simp: driver_step_def split: if_splits option.splits)
next
  case (D_collect v obs wake)
  then have ses: "session (lib E) (sync s) (held_of s)" using inv by (simp add: safe_inv_def)
  show ?thesis
  proof (cases "enabled (tracks s v)")
    case True
    let ?s = "Complete v (clock 0) s"
    note C = Complete_inv [OF ti [rule_format, of v], of "clock 0"]
    obtain r es1 s1 where D: "Deliver E v (clock 1) (clock 2) out ?s = (r, es1, s1)"
      by (cases "Deliver E v (clock 1) (clock 2) out ?s")
    have "session (lib E) (sync ?s) (held_of ?s)"
      using Complete_session [OF ses ti [rule_format, of v], of "clock 0"] C(3) by simp
    note d = Deliver_session [OF this out D]
    have "source_head (tracks ?s w) = source_head (tracks s w)" for w
      by (cases "w = v") (auto simp: Complete_def Let_def)
    moreover have "source_head (tracks s1 w) = source_head (tracks ?s w)" for w
      using Deliver_effect [OF D] by (cases "w = v") (auto simp: shared_def driver_frame_def)
    ultimately have fr: "failure s1 = failure s" "\<forall>v. item_ok (source_head (tracks s1 v))"
      using Deliver_effect [OF D] C(2) inv by (auto simp: driver_frame_def safe_inv_def)
    show ?thesis
    proof (cases r)
      case (Inl e)
      with D_collect True D assms(1) have "t = fail_driver e s1" by (auto simp: driver_step_def)
      with fail_driver_safe' [where s = s1 and c = c and e = e and E = E] d fr inv C(3) Inl show ?thesis by (auto simp: safe_inv_def)
    next
      case (Inr u)
      with D_collect True D assms(1) have "t = s1\<lparr>drv := (if stopping s1 then D_done
          else if v then D_collect False obs wake else D_prepare True obs wake)\<rparr>"
        by (auto simp: driver_step_def)
      with d fr inv C(3) Inr show ?thesis by (auto simp: safe_inv_def held_of_def)
    qed
  next
    case False
    with D_collect assms(1) inv show ?thesis
      by (auto simp: driver_step_def DrainDisabled_def Let_def safe_inv_def held_of_def split: prod.splits)
  qed
next
  case (D_prepare v obs wake)
  then have ses: "session (lib E) (sync s) (held_of s)" using inv by (simp add: safe_inv_def)
  show ?thesis
  proof (cases "enabled (tracks s v)")
    case True
    obtain r es1 s1 where P: "Prepare E v (clock 0) s = (r, es1, s1)" by (cases "Prepare E v (clock 0) s")
    note p = Prepare_inv [OF P ti [rule_format, of v]]
    have q: "r \<noteq> Inl Undefined_behaviour \<and> item_ok (source_head (tracks s1 v))"
      using Prepare_safe [OF P env] inv by (simp add: safe_inv_def)
    have h: "head (tracks s1 w) = head (tracks s w)" for w
      using p by (cases "w = v") (auto simp: driver_frame_def)
    have i: "item_ok (source_head (tracks s1 w))" for w
      using p q inv by (cases "w = v") (auto simp: driver_frame_def safe_inv_def)
    have fr: "failure s1 = failure s" "sync s1 = sync s" "held_of s1 = held_of s"
      using p h by (auto simp: driver_frame_def held_of_def fun_eq_iff)
    show ?thesis
    proof (cases r)
      case (Inl e)
      with D_prepare True P assms(1) have "t = fail_driver e s1" by (auto simp: driver_step_def Let_def)
      with fail_driver_safe' [where s = s1 and c = c and e = e and E = E] fr i q inv Inl show ?thesis by (auto simp: safe_inv_def)
    next
      case (Inr w)
      have "safe_inv E c (s1\<lparr>drv := d\<rparr>)" for d
        using fr i inv ses by (auto simp: safe_inv_def held_of_def)
      with D_prepare True P Inr assms(1) show ?thesis
        by (cases v) (auto simp: driver_step_def Let_def)
    qed
  next
    case False
    have "safe_inv E c (s\<lparr>drv := d\<rparr>)" for d using safe_inv_drv [OF inv] D_prepare by simp
    with D_prepare False assms(1) show ?thesis by (cases v) (auto simp: driver_step_def Let_def)
  qed
next
  case (D_sleep obs wake)
  have "safe_inv E c (s\<lparr>drv := d\<rparr>)" for d using safe_inv_drv [OF inv] D_sleep by simp
  with D_sleep assms(1) inv show ?thesis by (auto simp: driver_step_def split: if_splits)
next
  case D_done
  with assms(1) inv show ?thesis by (simp add: driver_step_def)
qed

text \<open>\<open>Reset\<close> rebuilds what the constructor built.\<close>

lemma Reset_fresh:
  assumes "Syncer_new L cfg b = Inr y" and "im_config im = im_config y"
    and "Syncer_Reset L im = (Inr (), im')"
  shows "im' = y"
  using assms by (cases im; cases y) (auto simp: Syncer_new_def Syncer_Reset_def Let_def split: sum.splits)

lemma Start_safe:
  assumes "Start E True s0 = (True, s)" and y: "Syncer_new (lib E) cfg b = Inr y" "im_config (sync s0) = im_config y"
  shows "safe_inv E (im_config y) s"
proof -
  obtain y' where r: "Syncer_Reset (lib E) (sync s0) = (Inr (), y')" "sync s = y'"
    "tracks s = clear_track \<circ> tracks s0" "failure s = None"
    using assms(1) by (auto simp: Start_def Let_def split: sum.splits prod.splits if_splits)
  have "y' = y" by (rule Reset_fresh [OF y r(1)])
  moreover have "held_of s = (\<lambda>_. None)" using r(3) by (auto simp: held_of_def clear_track_def)
  ultimately show ?thesis
    using session.start [OF y(1)] r by (simp add: safe_inv_def clear_track_def item_ok_def null_result_def)
qed

text \<open>The driver never touches a converter.\<close>

definition kept :: "('c, 'f, 's) sched \<Rightarrow> ('c, 'f, 's) sched \<Rightarrow> bool" where
  "kept s t \<longleftrightarrow> converters t = converters s \<and> workers t = workers s \<and>
     (\<forall>v. enabled (tracks t v) = enabled (tracks s v))"

lemma kept_refl [simp]: "kept s s" by (simp add: kept_def)

lemma kept_frame:
  assumes "driver_frame v es s t"
  shows "kept s t"
proof -
  have "enabled (tracks t w) = enabled (tracks s w)" for w
    using assms by (cases "w = v") (auto simp: driver_frame_def)
  then show ?thesis using assms by (simp add: kept_def driver_frame_def)
qed

lemma kept_fail: "kept s t \<Longrightarrow> kept s (fail_driver e t)"
  by (simp add: kept_def fail_driver_def Fail_def WakeAll_def)

lemma kept_drv: "kept s t \<Longrightarrow> kept s (t\<lparr>drv := d\<rparr>)"
  by (simp add: kept_def)

lemma driver_kept:
  assumes "driver_step E clock out s = (es, t)" and ti: "\<forall>v. track_inv v evs s"
  shows "kept s t"
proof (cases "drv s")
  case (D_collect v obs wake)
  note C = Complete_inv [OF ti [rule_format, of v], of "clock 0"]
  obtain r es1 s1 where D: "Deliver E v (clock 1) (clock 2) out (Complete v (clock 0) s) = (r, es1, s1)"
    by (cases "Deliver E v (clock 1) (clock 2) out (Complete v (clock 0) s)")
  obtain full s2 where F: "DrainDisabled E v s = (full, s2)" by (cases "DrainDisabled E v s")
  have 1: "kept s s1"
    using kept_frame [OF C(2)] kept_frame [OF Deliver_effect [OF D, THEN conjunct1]] by (simp add: kept_def)
  have 2: "kept s s2" using F by (auto simp: DrainDisabled_def kept_def split: prod.splits)
  show ?thesis
  proof (cases "enabled (tracks s v)")
    case True
    show ?thesis
    proof (cases r)
      case (Inl e)
      with True D_collect D assms(1) have "t = fail_driver e s1" by (simp add: driver_step_def)
      with 1 show ?thesis by (simp add: kept_fail)
    next
      case (Inr u)
      with True D_collect D assms(1) have "t = s1\<lparr>drv := drv t\<rparr>" by (auto simp: driver_step_def)
      with kept_drv [OF 1] show ?thesis by metis
    qed
  next
    case False
    with D_collect F assms(1) have "t = s2\<lparr>drv := drv t\<rparr>" by (auto simp: driver_step_def Let_def)
    with kept_drv [OF 2] show ?thesis by metis
  qed
next
  case (D_prepare v obs wake)
  obtain r es1 s1 where P: "Prepare E v (clock 0) s = (r, es1, s1)" by (cases "Prepare E v (clock 0) s")
  have 1: "kept s s1" using Prepare_inv [OF P ti [rule_format]] by (blast intro: kept_frame)
  show ?thesis
  proof (cases "enabled (tracks s v)")
    case True
    show ?thesis
    proof (cases r)
      case (Inl e)
      with True D_prepare P assms(1) have "t = fail_driver e s1" by (simp add: driver_step_def Let_def)
      with 1 show ?thesis by (simp add: kept_fail)
    next
      case (Inr u)
      with True D_prepare P assms(1) have "t = s1\<lparr>drv := drv t\<rparr>"
        by (cases v) (auto simp: driver_step_def Let_def)
      with kept_drv [OF 1] show ?thesis by metis
    qed
  next
    case False
    with D_prepare assms(1) have "t = s\<lparr>drv := drv t\<rparr>" by (cases v) (auto simp: driver_step_def Let_def)
    with kept_drv [OF kept_refl] show ?thesis by metis
  qed
qed (use assms in \<open>auto simp: driver_step_def intro!: kept_fail kept_drv split: if_splits option.splits\<close>)

lemma run_safe:
  assumes "run E s0 evs k s" and "env_ok E good"
    and "Syncer_new (lib E) cfg b = Inr y" "im_config (sync s0) = im_config y"
    and "\<forall>v. enabled (tracks s0 v) \<longrightarrow> good v (converters s0 v)"
  shows "safe_inv E (im_config y) s \<and> converters_ok good s"
  using assms(1)
proof (induction rule: run.induct)
  case (boot s)
  have "converters_ok good s"
    using boot assms(5) env_okD(7) [OF assms(2)]
    by (auto simp: Start_def Let_def converters_ok_def clear_track_def split: sum.splits prod.splits if_splits)
  then show ?case using boot Start_safe assms(3,4) by blast
next
  case (driver evs k s out clock es t)
  have "\<forall>v. track_inv v evs s" using run_inv [OF driver.hyps(1)] by blast
  then have "safe_inv E (im_config y) t"
    using driver_safe [OF driver.hyps(3) assms(2) _ driver.hyps(2)] driver.IH by blast
  moreover have "converters_ok good t"
    using driver_kept [OF driver.hyps(3) \<open>\<forall>v. track_inv v evs s\<close>] driver.IH by (auto simp: kept_def intro: converters_ok_frame)
  ultimately show ?case ..
next
  case (worker evs k s v es t)
  then show ?case using worker_safe [OF worker.hyps(2) assms(2)] by blast
next
  case (space evs k s v)
  then show ?case by (auto simp: safe_inv_def intro: converters_ok_frame)
next
  case (ready evs k s src)
  then show ?case by (auto simp: safe_inv_def intro: converters_ok_frame)
next
  case (stop evs k s)
  have "held_of (RequestStop s) = held_of s" by (auto simp: held_of_def)
  moreover have "converters_ok good (RequestStop s)"
    using stop.IH by (auto simp: RequestStop_def WakeAll_def intro: converters_ok_frame)
  ultimately show ?case using stop.IH by (auto simp: safe_inv_def)
qed

end
