(* ===== verification/Force_Fps.thy ===== *)
theory Force_Fps
  imports Frame_Converter
begin

text \<open>
  \<^verbatim>\<open>filter/force_fps.cc\<close>: conversion of a video track to a constant frame rate. Inputs wait in a
  bounded queue; every read emits at most one frame on the output grid, repeating the most recent
  picture where the input has a gap and dropping pictures for which there is no slot.

  \<open>ForceFps::Impl\<close> is \<open>force_fps\<close>; every public call holds the mutex for its whole body, so each is
  one function on the state. Latency observers and log messages are left out.
\<close>

section \<open>State and construction\<close>

record force_fps =
  ff_capacity :: nat
  ff_time_base :: av_rational
  ff_stopped :: bool
  ff_inputs :: "read_result list"
  ff_last :: "read_result option"
  ff_last_used :: bool
  ff_last_input :: "int option"
  ff_next :: "int option"

definition Rescale_ff :: "av_lib \<Rightarrow> int \<Rightarrow> av_rational \<Rightarrow> av_rational \<Rightarrow> int result" where
  "Rescale_ff L pts from to =
     (let r = rescale_q L pts from to
      in if r = AV_NOPTS_VALUE \<or> r = i64_max then Inl Overflow_error else Inr r)"

definition ForceFps :: "av_lib \<Rightarrow> av_rational \<Rightarrow> nat \<Rightarrow> force_fps result" where
  "ForceFps L fps cap =
     (if \<not> valid_tb fps \<or> cap = 0 then Inl Invalid_argument
      else Inr \<lparr>ff_capacity = cap, ff_time_base = reduce_q L (den fps) (num fps) 2147483647,
                ff_stopped = False, ff_inputs = [], ff_last = None, ff_last_used = False,
                ff_last_input = None, ff_next = None\<rparr>)"

section \<open>Submission\<close>

text \<open>The checks of \<open>TryPushFrame\<close> on an input that would be admitted.\<close>

definition check_ff :: "av_lib \<Rightarrow> av_rational \<Rightarrow> read_result \<Rightarrow> unit result" where
  "check_ff L tb i =
     (case rr_status i of
        KFrame \<Rightarrow>
          if \<not> has_value (rr_frame i) \<or> \<not> has_frame (rr_frame i) \<or> fr_nb_samples (in_frame i) \<noteq> 0 \<or>
             fr_width (in_frame i) \<le> 0 \<or> fr_height (in_frame i) \<le> 0 \<or>
             fr_pts (in_frame i) = AV_NOPTS_VALUE \<or> \<not> valid_tb (rr_time_base i)
          then Inl Invalid_argument
          else chain (Rescale_ff L (fr_pts (in_frame i)) (rr_time_base i) tb) (\<lambda>_. Inr ())
      | KEof \<Rightarrow>
          if has_value (rr_frame i) \<or> (rr_end_pts i \<noteq> AV_NOPTS_VALUE \<and> \<not> valid_tb (rr_time_base i))
          then Inl Invalid_argument
          else if rr_end_pts i \<noteq> AV_NOPTS_VALUE
          then chain (Rescale_ff L (rr_end_pts i) (rr_time_base i) tb) (\<lambda>_. Inr ())
          else Inr ()
      | KNull \<Rightarrow> Inl Invalid_argument)"

definition TryPushFrame_ff :: "av_lib \<Rightarrow> read_result \<Rightarrow> force_fps \<Rightarrow> bool result \<times> force_fps" where
  "TryPushFrame_ff L i s =
     (if ff_stopped s then (Inr False, s)
      else if ff_capacity s \<le> length (ff_inputs s) then (Inr False, s)
      else case check_ff L (ff_time_base s) i of
             Inl e \<Rightarrow> (Inl e, s)
           | Inr _ \<Rightarrow> (Inr True, s\<lparr>ff_inputs := ff_inputs s @ [i]\<rparr>))"

section \<open>Reading\<close>

definition IsDiscontinuity :: "av_lib \<Rightarrow> force_fps \<Rightarrow> int \<Rightarrow> bool" where
  "IsDiscontinuity L s pts =
     (case ff_last_input s of
        None \<Rightarrow> False
      | Some m \<Rightarrow>
          if pts < m then True
          else let delta = to_u64 pts - to_u64 m in
            if to_u64 i64_max < delta then True
            else 1 < delta \<and> 0 < compare_ts L (uint delta - 1) (ff_time_base s) 1 (avq 1 2))"

definition Output_ff :: "av_rational \<Rightarrow> read_result \<Rightarrow> int \<Rightarrow> bool \<Rightarrow> read_result" where
  "Output_ff tb i pts duplicate =
     i\<lparr>rr_frame := Has_frame ((in_frame i)\<lparr>fr_pts := pts, fr_best_effort := pts,
          fr_pkt_dts := AV_NOPTS_VALUE, fr_time_base := tb, fr_duration := 1,
          fr_captions := (if duplicate then False else fr_captions (in_frame i))\<rparr>),
       rr_time_base := tb\<rparr>"

definition Remember :: "read_result \<Rightarrow> bool \<Rightarrow> force_fps \<Rightarrow> force_fps" where
  "Remember i used s = s\<lparr>ff_last := Some i, ff_last_used := used\<rparr>"

definition ClearHistory :: "force_fps \<Rightarrow> force_fps" where
  "ClearHistory s = s\<lparr>ff_last := None, ff_last_used := False, ff_last_input := None, ff_next := None\<rparr>"

text \<open>The final statements of the loop body: the head becomes the output.\<close>

definition emit_head ::
    "read_result \<Rightarrow> read_result list \<Rightarrow> int \<Rightarrow> force_fps \<Rightarrow> read_result result \<times> force_fps" where
  "emit_head i rest pts s =
     (Inr (Output_ff (ff_time_base s) i pts False),
      (Remember i True s)\<lparr>ff_last_input := Some pts, ff_next := Some (pts + 1), ff_inputs := rest\<rparr>)"

text \<open>The loop of \<open>TryReadFrame\<close>; the list is the input queue.\<close>

fun read_loop ::
    "av_lib \<Rightarrow> read_result list \<Rightarrow> force_fps \<Rightarrow> read_result result \<times> force_fps" where
  "read_loop L [] s = (Inr null_result, s\<lparr>ff_inputs := []\<rparr>)"
| "read_loop L (i # rest) s =
     (if rr_status i = KEof then
        (case (if rr_end_pts i \<noteq> AV_NOPTS_VALUE
               then Rescale_ff L (rr_end_pts i) (rr_time_base i) (ff_time_base s)
               else Inr AV_NOPTS_VALUE) of
           Inl e \<Rightarrow> (Inl e, s\<lparr>ff_inputs := i # rest\<rparr>)
         | Inr end \<Rightarrow> (Inr (i\<lparr>rr_end_pts := end, rr_time_base := ff_time_base s\<rparr>),
                      ClearHistory (s\<lparr>ff_inputs := rest\<rparr>)))
      else
        (case Rescale_ff L (fr_pts (in_frame i)) (rr_time_base i) (ff_time_base s) of
           Inl e \<Rightarrow> (Inl e, s\<lparr>ff_inputs := i # rest\<rparr>)
         | Inr pts \<Rightarrow>
             (case (if IsDiscontinuity L s pts then None else ff_next s) of
                None \<Rightarrow> emit_head i rest pts s
              | Some n \<Rightarrow>
                  if pts < n then read_loop L rest (Remember i False s)
                  else if n < pts then
                    (case ff_last s of
                       None \<Rightarrow> (Inl Undefined_behaviour, s\<lparr>ff_inputs := i # rest\<rparr>)
                     | Some l \<Rightarrow> (Inr (Output_ff (ff_time_base s) l n (ff_last_used s)),
                         s\<lparr>ff_last_used := True, ff_next := Some (n + 1), ff_inputs := i # rest\<rparr>))
                  else emit_head i rest pts s)))"

definition TryReadFrame_ff :: "av_lib \<Rightarrow> force_fps \<Rightarrow> read_result result \<times> force_fps" where
  "TryReadFrame_ff L s =
     (if ff_stopped s then (Inr null_result, s) else read_loop L (ff_inputs s) s)"

definition Stop_ff :: "force_fps \<Rightarrow> force_fps" where
  "Stop_ff s = (if ff_stopped s then s else ClearHistory (s\<lparr>ff_stopped := True, ff_inputs := []\<rparr>))"

definition Reset_ff :: "force_fps \<Rightarrow> force_fps" where
  "Reset_ff s = (ClearHistory (s\<lparr>ff_inputs := []\<rparr>))\<lparr>ff_stopped := False\<rparr>"

section \<open>Invariant and interface\<close>

definition queued_ok :: "av_lib \<Rightarrow> av_rational \<Rightarrow> read_result \<Rightarrow> bool" where
  "queued_ok L tb i \<longleftrightarrow> check_ff L tb i = Inr ()"

definition ff_ok :: "av_lib \<Rightarrow> force_fps \<Rightarrow> bool" where
  "ff_ok L s \<longleftrightarrow>
     length (ff_inputs s) \<le> ff_capacity s \<and>
     (\<forall>i \<in> set (ff_inputs s). queued_ok L (ff_time_base s) i) \<and>
     (ff_next s \<noteq> None \<longrightarrow> ff_last s \<noteq> None) \<and>
     (\<forall>l. ff_last s = Some l \<longrightarrow> rr_status l = KFrame)"

text \<open>What an admitted input guarantees to the reader: its timestamp converts.\<close>

lemma queued_frame:
  assumes "queued_ok L tb i" and "rr_status i \<noteq> KEof"
  obtains pts where "Rescale_ff L (fr_pts (in_frame i)) (rr_time_base i) tb = Inr pts"
    and "has_frame (rr_frame i)" and "rr_status i = KFrame"
  using assms by (auto simp: queued_ok_def check_ff_def split: read_status.splits if_splits)

lemma queued_eof:
  assumes "queued_ok L tb i" and "rr_status i = KEof"
  shows "rr_end_pts i \<noteq> AV_NOPTS_VALUE \<Longrightarrow>
    \<exists>e. Rescale_ff L (rr_end_pts i) (rr_time_base i) tb = Inr e"
  using assms by (auto simp: queued_ok_def check_ff_def split: if_splits)

lemma Remember_sel [simp]:
  "ff_capacity (Remember i u s) = ff_capacity s" "ff_time_base (Remember i u s) = ff_time_base s"
  "ff_stopped (Remember i u s) = ff_stopped s" "ff_inputs (Remember i u s) = ff_inputs s"
  "ff_last (Remember i u s) = Some i" "ff_last_used (Remember i u s) = u"
  "ff_last_input (Remember i u s) = ff_last_input s" "ff_next (Remember i u s) = ff_next s"
  by (simp_all add: Remember_def)

lemma IsDiscontinuity_Remember [simp]: "IsDiscontinuity L (Remember i u s) p = IsDiscontinuity L s p"
  by (simp add: IsDiscontinuity_def split: option.splits)

text \<open>
  The loop keeps the configuration, ends in a well-formed state with a queue that is a suffix of
  the given one, and returns normally.
\<close>

lemma read_loop_ok:
  assumes "\<forall>i \<in> set is. queued_ok L (ff_time_base s) i" and "ff_next s \<noteq> None \<longrightarrow> ff_last s \<noteq> None"
    and "\<forall>l. ff_last s = Some l \<longrightarrow> rr_status l = KFrame"
  shows "\<exists>r t. read_loop L is s = (Inr r, t) \<and>
    ff_capacity t = ff_capacity s \<and> ff_time_base t = ff_time_base s \<and> ff_stopped t = ff_stopped s \<and>
    (ff_next t \<noteq> None \<longrightarrow> ff_last t \<noteq> None) \<and>
    (\<forall>l. ff_last t = Some l \<longrightarrow> rr_status l = KFrame) \<and> (\<exists>xs. is = xs @ ff_inputs t)"
  using assms
proof (induction L "is" s rule: read_loop.induct)
  case (1 L s)
  then show ?case by simp
next
  case (2 L i rest s)
  have i: "queued_ok L (ff_time_base s) i" using 2 by simp
  show ?case
  proof (cases "rr_status i = KEof")
    case True
    obtain e where "(if rr_end_pts i \<noteq> AV_NOPTS_VALUE
        then Rescale_ff L (rr_end_pts i) (rr_time_base i) (ff_time_base s) else Inr AV_NOPTS_VALUE) = Inr e"
      using queued_eof [OF i True] by (cases "rr_end_pts i = AV_NOPTS_VALUE") auto
    with True show ?thesis by (simp add: ClearHistory_def)
  next
    case False
    with i obtain pts where p: "Rescale_ff L (fr_pts (in_frame i)) (rr_time_base i) (ff_time_base s) = Inr pts"
      and k: "rr_status i = KFrame" by (auto elim: queued_frame)
    show ?thesis
    proof (cases "if IsDiscontinuity L s pts then None else ff_next s")
      case None
      with False p k show ?thesis by (simp add: emit_head_def)
    next
      case (Some n)
      then have n: "ff_next s = Some n" "\<not> IsDiscontinuity L s pts" by (auto split: if_splits)
      consider "pts < n" | "n < pts" | "n = pts" by linarith
      then show ?thesis
      proof cases
        case 1
        obtain r t where "read_loop L rest (Remember i False s) = (Inr r, t)"
          "ff_capacity t = ff_capacity s" "ff_time_base t = ff_time_base s" "ff_stopped t = ff_stopped s"
          "ff_next t \<noteq> None \<longrightarrow> ff_last t \<noteq> None" "\<forall>l. ff_last t = Some l \<longrightarrow> rr_status l = KFrame"
          "\<exists>xs. rest = xs @ ff_inputs t"
          using "2.IH" [OF False p Some 1] "2.prems" k by auto
        with False p n 1 show ?thesis by (auto intro: exI [of _ "i # _"])
      next
        case 2
        then show ?thesis using False p n "2.prems" by (auto simp: emit_head_def)
      next
        case 3
        then show ?thesis using False p n k by (simp add: emit_head_def)
      qed
    qed
  qed
qed

lemma TryReadFrame_ok:
  assumes "ff_ok L s"
  shows "\<exists>r t. TryReadFrame_ff L s = (Inr r, t) \<and> ff_ok L t \<and> ff_capacity t = ff_capacity s \<and>
    ff_time_base t = ff_time_base s \<and> ff_stopped t = ff_stopped s"
proof (cases "ff_stopped s")
  case True
  with assms show ?thesis by (simp add: TryReadFrame_ff_def)
next
  case False
  have pre: "\<forall>i \<in> set (ff_inputs s). queued_ok L (ff_time_base s) i" "ff_next s \<noteq> None \<longrightarrow> ff_last s \<noteq> None"
    "\<forall>l. ff_last s = Some l \<longrightarrow> rr_status l = KFrame"
    using assms by (simp_all add: ff_ok_def)
  obtain r t xs where t: "read_loop L (ff_inputs s) s = (Inr r, t)"
    "ff_capacity t = ff_capacity s" "ff_time_base t = ff_time_base s" "ff_stopped t = ff_stopped s"
    "ff_next t \<noteq> None \<longrightarrow> ff_last t \<noteq> None" "\<forall>l. ff_last t = Some l \<longrightarrow> rr_status l = KFrame"
    and xs: "ff_inputs s = xs @ ff_inputs t"
    using read_loop_ok [OF pre] by blast
  have "set (ff_inputs t) \<subseteq> set (ff_inputs s)" "length (ff_inputs t) \<le> length (ff_inputs s)"
    by (simp_all add: xs)
  with t(2,3,5,6) pre(1) assms have "ff_ok L t" unfolding ff_ok_def by auto
  with t False show ?thesis by (simp add: TryReadFrame_ff_def)
qed

interpretation ff: frame_converter "ff_ok L" "length \<circ> ff_inputs" ff_capacity "TryPushFrame_ff L"
    "TryReadFrame_ff L" Stop_ff Reset_ff
proof (unfold_locales, goal_cases)
  case (1 s a)
  then show ?case
    by (auto simp: TryPushFrame_ff_def ff_ok_def queued_ok_def split: sum.splits)
next
  case (2 s)
  then show ?case using TryReadFrame_ok [OF 2] by auto
next
  case (7 s)
  then show ?case
  proof -
    have "ff_capacity (snd (read_loop L is s)) = ff_capacity s" for "is"
      by (induction L "is" s rule: read_loop.induct)
        (auto simp: ClearHistory_def emit_head_def split: sum.splits option.splits)
    then show ?thesis by (simp add: TryReadFrame_ff_def)
  qed
next
  case (13 s e)
  then show ?case using TryReadFrame_ok [OF 13] by auto
qed (auto simp: ff_ok_def Stop_ff_def Reset_ff_def ClearHistory_def TryPushFrame_ff_def
    split: sum.splits if_splits dest: TryReadFrame_ok)


section \<open>The constant rate as a specification\<close>

text \<open>
  What a drained queue of pictures must look like: starting at slot \<open>n\<close> with the current picture
  \<open>l\<close> (\<open>used\<close> if it was already shown), every input fills the slots before its own timestamp with
  repetitions, shows itself in its own slot, and is remembered only, when its slot has passed.
\<close>

definition grid_pts :: "av_lib \<Rightarrow> av_rational \<Rightarrow> read_result \<Rightarrow> int" where
  "grid_pts L tb i = rescale_q L (fr_pts (in_frame i)) (rr_time_base i) tb"

fun constant_rate ::
    "av_lib \<Rightarrow> av_rational \<Rightarrow> int \<Rightarrow> read_result \<Rightarrow> bool \<Rightarrow> read_result list \<Rightarrow> read_result list" where
  "constant_rate L tb n l used [] = []"
| "constant_rate L tb n l used (i # is) =
     (let q = grid_pts L tb i in
      if q < n then constant_rate L tb n i False is
      else map (\<lambda>k. Output_ff tb l k (if k = n then used else True)) [n..q - 1]
           @ Output_ff tb i q False # constant_rate L tb (q + 1) i True is)"

text \<open>Inputs that never reanchor the grid: no regression and no jump beyond the tolerance.\<close>

fun steady :: "av_lib \<Rightarrow> force_fps \<Rightarrow> int \<Rightarrow> int \<Rightarrow> read_result list \<Rightarrow> bool" where
  "steady L s m n [] = True"
| "steady L s m n (i # is) =
     (let q = grid_pts L (ff_time_base s) i in
      rr_status i = KFrame \<and> \<not> IsDiscontinuity L (s\<lparr>ff_last_input := Some m\<rparr>) q \<and>
      (if q < n then steady L s m n is else steady L s q (q + 1) is))"

text \<open>\<open>k\<close> successive reads.\<close>

fun reads :: "av_lib \<Rightarrow> nat \<Rightarrow> force_fps \<Rightarrow> read_result result list" where
  "reads L 0 s = []"
| "reads L (Suc k) s = (case TryReadFrame_ff L s of (r, t) \<Rightarrow> r # reads L k t)"


lemma constant_rate_gap:
  "n < grid_pts L tb i \<Longrightarrow> constant_rate L tb n l used (i # is) =
     Output_ff tb l n used # constant_rate L tb (n + 1) l True (i # is)"
  by (simp add: Let_def upto_rec1)

lemma constant_rate_slot:
  "constant_rate L tb (grid_pts L tb i) l used (i # is) =
     Output_ff tb i (grid_pts L tb i) False # constant_rate L tb (grid_pts L tb i + 1) i True is"
  by (simp add: Let_def)

lemma disc_cong:
  "ff_last_input s = ff_last_input t \<Longrightarrow> ff_time_base s = ff_time_base t \<Longrightarrow>
   IsDiscontinuity L s q = IsDiscontinuity L t q"
  by (simp add: IsDiscontinuity_def split: option.split)

lemma steady_cong: "ff_time_base s = ff_time_base t \<Longrightarrow> steady L s m n is = steady L t m n is"
proof (induction L s m n "is" rule: steady.induct)
  case (2 L s m n i "is")
  have "IsDiscontinuity L (s\<lparr>ff_last_input := Some m\<rparr>) q = IsDiscontinuity L (t\<lparr>ff_last_input := Some m\<rparr>) q" for q
    by (rule disc_cong) (simp_all add: 2)
  with 2 show ?case by (simp add: Let_def)
qed simp

text \<open>A state in the middle of a steady stretch.\<close>

definition running :: "force_fps \<Rightarrow> int \<Rightarrow> int \<Rightarrow> read_result \<Rightarrow> bool \<Rightarrow> bool" where
  "running s m n l used \<longleftrightarrow>
     \<not> ff_stopped s \<and> ff_last_input s = Some m \<and> ff_next s = Some n \<and> ff_last s = Some l \<and>
     ff_last_used s = used"

lemma grid_Rescale:
  "queued_ok L tb i \<Longrightarrow> rr_status i = KFrame \<Longrightarrow>
   Rescale_ff L (fr_pts (in_frame i)) (rr_time_base i) tb = Inr (grid_pts L tb i)"
  by (auto simp: Rescale_ff_def grid_pts_def Let_def elim!: queued_frame split: if_splits)

lemma read_loop_inputs: "read_loop L is (s\<lparr>ff_inputs := x\<rparr>) = read_loop L is s"
proof (induction L "is" s arbitrary: x rule: read_loop.induct)
  case (2 L i rest s)
  have d: "IsDiscontinuity L (s\<lparr>ff_inputs := x\<rparr>) q = IsDiscontinuity L s q" for q
    by (rule disc_cong) simp_all
  have r: "Remember i False (s\<lparr>ff_inputs := x\<rparr>) = (Remember i False s)\<lparr>ff_inputs := x\<rparr>"
    by (simp add: Remember_def)
  have h: "emit_head i rest q (s\<lparr>ff_inputs := x\<rparr>) = emit_head i rest q s" for q
    by (simp add: emit_head_def Remember_def)
  have c: "ClearHistory (s\<lparr>ff_inputs := x\<rparr>\<lparr>ff_inputs := y\<rparr>) = ClearHistory (s\<lparr>ff_inputs := y\<rparr>)" for y
    by simp
  show ?case
    using 2 by (auto simp: d r h c split: sum.splits option.splits)
qed simp

lemma read_step:
  assumes r: "running s m n l used" and s: "ff_inputs s = i # is"
    and q: "queued_ok L (ff_time_base s) i" "rr_status i = KFrame"
    and st: "\<not> IsDiscontinuity L s (grid_pts L (ff_time_base s) i)"
  shows "grid_pts L (ff_time_base s) i < n \<Longrightarrow>
      TryReadFrame_ff L s = TryReadFrame_ff L ((Remember i False s)\<lparr>ff_inputs := is\<rparr>)"
    and "n < grid_pts L (ff_time_base s) i \<Longrightarrow>
      TryReadFrame_ff L s = (Inr (Output_ff (ff_time_base s) l n used),
        s\<lparr>ff_last_used := True, ff_next := Some (n + 1)\<rparr>)"
    and "grid_pts L (ff_time_base s) i = n \<Longrightarrow> TryReadFrame_ff L s = emit_head i is n s"
  using r s st grid_Rescale [OF q] q(2)
  by (simp_all add: running_def TryReadFrame_ff_def read_loop_inputs)

lemma reads_drain:
  assumes "running s m n l used" and "\<forall>i \<in> set (ff_inputs s). queued_ok L (ff_time_base s) i"
    and "steady L s m n (ff_inputs s)"
  shows "reads L (Suc (length (constant_rate L (ff_time_base s) n l used (ff_inputs s)))) s =
    map Inr (constant_rate L (ff_time_base s) n l used (ff_inputs s)) @ [Inr null_result]"
  using assms
proof (induction "ff_inputs s" arbitrary: s m n l used)
  case Nil
  then show ?case by (simp add: TryReadFrame_ff_def running_def flip: Nil.hyps)
next
  case (Cons i "is")
  let ?tb = "ff_time_base s"
  define q where "q = grid_pts L ?tb i"
  have i: "queued_ok L ?tb i" "rr_status i = KFrame" "\<forall>i \<in> set is. queued_ok L ?tb i"
    and st: "if q < n then steady L s m n is else steady L s q (q + 1) is"
    and nd0: "\<not> IsDiscontinuity L (s\<lparr>ff_last_input := Some m\<rparr>) q"
    using Cons.prems unfolding Cons.hyps(2) [symmetric] q_def by (auto simp: Let_def)
  have nd: "\<not> IsDiscontinuity L t q" if "running t m n' l used'" "ff_time_base t = ?tb" for t n' used'
    using that nd0 disc_cong [of t "s\<lparr>ff_last_input := Some m\<rparr>" L q] by (simp add: running_def)
  show ?case
  proof (cases "q < n")
    case True
    let ?s = "(Remember i False s)\<lparr>ff_inputs := is\<rparr>"
    have "reads L (Suc k) s = reads L (Suc k) ?s" for k
      using read_step(1) [OF Cons.prems(1) Cons.hyps(2) [symmetric] i(1,2)] nd [OF Cons.prems(1)] True
      by (simp add: q_def)
    moreover have "reads L (Suc (length (constant_rate L ?tb n i False is))) ?s =
        map Inr (constant_rate L ?tb n i False is) @ [Inr null_result]"
      using Cons.hyps(1) [of ?s m n i False] Cons.prems(1) i(3) st True steady_cong [of ?s s L m n "is"]
      by (simp add: running_def)
    ultimately show ?thesis
      using True by (simp add: Let_def q_def del: reads.simps flip: Cons.hyps(2))
  next
    case False
    have gap: "reads L (Suc (length (constant_rate L ?tb n' l used' (i # is)))) t =
        map Inr (constant_rate L ?tb n' l used' (i # is)) @ [Inr null_result]"
      if "running t m n' l used'" "ff_time_base t = ?tb" "ff_inputs t = i # is" "n' \<le> q" for t n' used'
      using that
    proof (induction "nat (q - n')" arbitrary: t n' used')
      case 0
      then have n: "n' = q" by simp
      let ?t = "(Remember i True t)\<lparr>ff_last_input := Some q, ff_next := Some (q + 1), ff_inputs := is\<rparr>"
      have step: "TryReadFrame_ff L t = (Inr (Output_ff ?tb i q False), ?t)"
        using read_step(3) [OF 0(2) 0(4), of L] i nd [OF 0(2,3)] 0(3) n
        by (simp add: q_def emit_head_def)
      have "reads L (Suc (length (constant_rate L ?tb (q + 1) i True is))) ?t =
          map Inr (constant_rate L ?tb (q + 1) i True is) @ [Inr null_result]"
        using Cons.hyps(1) [of ?t q "q + 1" i True] 0 i(3) st False steady_cong [of ?t s L q "q + 1" "is"]
        by (simp add: running_def)
      with step show ?case
        unfolding n unfolding q_def constant_rate_slot by simp
    next
      case (Suc g)
      let ?t = "t\<lparr>ff_last_used := True, ff_next := Some (n' + 1)\<rparr>"
      have n: "n' < q" using Suc.hyps(2) by simp
      have step: "TryReadFrame_ff L t = (Inr (Output_ff ?tb l n' used'), ?t)"
        using read_step(2) [OF Suc.prems(1,3), of L] i nd [OF Suc.prems(1,2)] Suc.prems(2) n
        by (simp add: q_def)
      have "reads L (Suc (length (constant_rate L ?tb (n' + 1) l True (i # is)))) ?t =
          map Inr (constant_rate L ?tb (n' + 1) l True (i # is)) @ [Inr null_result]"
        by (rule Suc.hyps(1)) (use Suc n in \<open>auto simp: running_def\<close>)
      with step n show ?case
        by (simp add: constant_rate_gap q_def del: constant_rate.simps)
    qed
    show ?thesis
      using gap [OF Cons.prems(1) refl Cons.hyps(2) [symmetric]] False
      by (simp del: constant_rate.simps reads.simps flip: Cons.hyps(2))
  qed
qed


section \<open>What one read does\<close>

text \<open>
  The three kinds of results. A frame is on the grid: either at the next slot, or it is an input
  that starts the grid anew because there is no history or it is discontinuous.
\<close>

definition frame_on_grid :: "av_lib \<Rightarrow> force_fps \<Rightarrow> read_result \<Rightarrow> force_fps \<Rightarrow> bool" where
  "frame_on_grid L s r t \<longleftrightarrow>
     (\<exists>f. rr_frame r = Has_frame f \<and> fr_duration f = 1 \<and> fr_time_base f = ff_time_base s \<and>
        rr_time_base r = ff_time_base s \<and> ff_next t = Some (fr_pts f + 1) \<and>
        (ff_next s = Some (fr_pts f) \<or>
         (ff_last_input t = Some (fr_pts f) \<and>
          (ff_next s = None \<or>
           (\<exists>i \<in> set (ff_inputs s). grid_pts L (ff_time_base s) i = fr_pts f \<and>
              IsDiscontinuity L s (fr_pts f))))))"

lemma read_loop_result:
  assumes "\<forall>i \<in> set is. queued_ok L (ff_time_base s) i" and "ff_next s \<noteq> None \<longrightarrow> ff_last s \<noteq> None"
    and "\<forall>l. ff_last s = Some l \<longrightarrow> rr_status l = KFrame"
    and "read_loop L is s = (Inr r, t)" and "set is \<subseteq> set (ff_inputs s)"
  shows "case rr_status r of
      KFrame \<Rightarrow> frame_on_grid L s r t
    | KEof \<Rightarrow> ff_next t = None \<and> ff_last t = None \<and> ff_last_input t = None \<and> rr_time_base r = ff_time_base s
    | KNull \<Rightarrow> ff_inputs t = []"
  using assms
proof (induction L "is" s rule: read_loop.induct)
  case (1 L s)
  then show ?case by (auto simp: null_result_def)
next
  case (2 L i rest s)
  have i: "queued_ok L (ff_time_base s) i" using 2 by simp
  show ?case
  proof (cases "rr_status i = KEof")
    case True
    then show ?thesis using "2.prems"(4) by (auto simp: ClearHistory_def split: sum.splits if_splits)
  next
    case False
    with i obtain pts where p: "Rescale_ff L (fr_pts (in_frame i)) (rr_time_base i) (ff_time_base s) = Inr pts"
      and k: "rr_status i = KFrame" by (auto elim: queued_frame)
    have g: "grid_pts L (ff_time_base s) i = pts" using p by (auto simp: Rescale_ff_def grid_pts_def Let_def split: if_splits)
    have head: "frame_on_grid L s r t" if "emit_head i rest pts s = (Inr r, t)"
      "IsDiscontinuity L s pts \<or> ff_next s = None \<or> ff_next s = Some pts"
      using that g "2.prems"(5) by (auto simp: emit_head_def frame_on_grid_def Output_ff_def)
    have kind: "rr_status r = KFrame" if "emit_head i rest pts s = (Inr r, t)"
      using that k by (auto simp: emit_head_def Output_ff_def)
    show ?thesis
    proof (cases "if IsDiscontinuity L s pts then None else ff_next s")
      case None
      with False p "2.prems"(4) have "emit_head i rest pts s = (Inr r, t)" by simp
      with head kind None show ?thesis by (auto split: if_splits)
    next
      case (Some n)
      then have n: "ff_next s = Some n" "\<not> IsDiscontinuity L s pts" by (auto split: if_splits)
      consider "pts < n" | "n < pts" | "n = pts" by linarith
      then show ?thesis
      proof cases
        case 1
        have "read_loop L rest (Remember i False s) = (Inr r, t)"
          using "2.prems"(4) False p n 1 by simp
        from "2.IH" [OF False p Some 1 _ _ _ this] "2.prems" k show ?thesis
          by (auto simp: frame_on_grid_def split: read_status.splits)
      next
        case 2
        then obtain l where "ff_last s = Some l" "rr_status l = KFrame" using "2.prems"(2,3) n by auto
        then show ?thesis
          using 2 False p n "2.prems"(4)
          by (auto simp: frame_on_grid_def Output_ff_def split: read_status.splits)
      next
        case 3
        then have "emit_head i rest pts s = (Inr r, t)" using False p n "2.prems"(4) by simp
        with head kind n 3 show ?thesis by auto
      qed
    qed
  qed
qed


section \<open>Concrete converters\<close>

definition sample_ff :: force_fps where
  "sample_ff = \<lparr>ff_capacity = 8, ff_time_base = avq 1 25, ff_stopped = False, ff_inputs = [],
     ff_last = None, ff_last_used = False, ff_last_input = None, ff_next = None\<rparr>"

text \<open>A picture at \<open>ms\<close> milliseconds with the buffer identity \<open>b\<close>.\<close>

definition ff_picture :: "int \<Rightarrow> nat \<Rightarrow> read_result" where
  "ff_picture ms b = null_result\<lparr>rr_status := KFrame, rr_frame := Has_frame
     \<lparr>fr_pts = ms, fr_best_effort = ms, fr_pkt_dts = ms, fr_time_base = avq 1 1000, fr_duration = 40,
      fr_width = 640, fr_height = 360, fr_format = 0, fr_nb_samples = 0, fr_sample_rate = 0,
      fr_layout = 0, fr_has_data = True, fr_captions = True, fr_full_range = False, fr_buffers = b\<rparr>,
     rr_time_base := avq 1 1000\<rparr>"

lemma sample_ff_new: "ForceFps ref_lib (avq 25 1) 8 = Inr sample_ff"
  by (simp add: ForceFps_def sample_ff_def)

text \<open>In the middle of a stretch: slot 2 is next, and three pictures are queued.\<close>

definition steady_ff :: force_fps where
  "steady_ff = sample_ff\<lparr>ff_inputs := [ff_picture 50 8, ff_picture 90 9, ff_picture 210 10],
     ff_last := Some (ff_picture 0 7), ff_last_used := True, ff_last_input := Some 0, ff_next := Some 2\<rparr>"

lemma steady_ff_ok: "ff_ok ref_lib steady_ff"
proof -
  have "list_all (queued_ok ref_lib (ff_time_base steady_ff)) (ff_inputs steady_ff) \<and>
      rr_status (ff_picture 0 7) = KFrame" by code_simp
  then show ?thesis by (simp add: ff_ok_def list_all_iff steady_ff_def sample_ff_def)
qed

section \<open>Properties\<close>



text \<open>
  C39: Every read is well defined and every frame is on the grid. A read of a well-formed converter
  returns normally. A frame has duration one in the output time base, and its timestamp is the next
  slot, unless there is no history or a queued input is discontinuous, in which case the frame
  starts the grid at that input. An end-of-stream result forgets the history; without output the
  queue is empty.
\<close>

theorem force_fps_read:
  assumes "ff_ok L s" and "\<not> ff_stopped s"
  shows "\<exists>r t. TryReadFrame_ff L s = (Inr r, t) \<and> ff_ok L t \<and>
    (case rr_status r of
       KFrame \<Rightarrow> frame_on_grid L s r t
     | KEof \<Rightarrow> ff_next t = None \<and> ff_last t = None \<and> ff_last_input t = None \<and> rr_time_base r = ff_time_base s
     | KNull \<Rightarrow> ff_inputs t = [])"
proof -
  obtain r t where "TryReadFrame_ff L s = (Inr r, t)" "ff_ok L t"
    using TryReadFrame_ok [OF assms(1)] by blast
  moreover from this(1) have "read_loop L (ff_inputs s) s = (Inr r, t)"
    using assms(2) by (simp add: TryReadFrame_ff_def)
  ultimately show ?thesis
    using read_loop_result [of "ff_inputs s" L s r t] assms(1) by (auto simp: ff_ok_def)
qed

theorem force_fps_read_witness:
  "ff_ok ref_lib steady_ff \<and> (\<exists>r t. TryReadFrame_ff ref_lib steady_ff = (Inr r, t) \<and> ff_ok ref_lib t)"
  using force_fps_read [OF steady_ff_ok] steady_ff_ok by (auto simp: steady_ff_def sample_ff_def)

text \<open>
  Whatever its threads do, the converter stays bounded and its reads never throw: after any
  sequence of submissions, reads, stops and resets on a new converter, at most \<open>cap\<close> inputs are
  queued, the next read returns normally, and a refused submission left the state unchanged.
\<close>

theorem force_fps_calls:
  assumes "ForceFps L fps cap = Inr s"
    and "t = calls (TryPushFrame_ff L) (TryReadFrame_ff L) Stop_ff Reset_ff cs s"
  shows "length (ff_inputs t) \<le> cap \<and> (\<forall>e. fst (TryReadFrame_ff L t) \<noteq> Inl e) \<and>
    (\<forall>i t'. TryPushFrame_ff L i t = (Inr False, t') \<longrightarrow> t' = t)"
proof -
  have ok: "ff_ok L s" "ff_capacity s = cap"
    using assms(1) by (auto simp: ForceFps_def ff_ok_def split: if_splits)
  then show ?thesis
    using ff.calls_bounded [OF ok(1), of cs] ff.calls_pull [OF ok(1), of cs] ff.push_refused
    by (auto simp: assms(2))
qed

theorem force_fps_calls_witness:
  "length (ff_inputs (calls (TryPushFrame_ff ref_lib) (TryReadFrame_ff ref_lib) Stop_ff Reset_ff
     [Try_push (ff_picture 0 7), Try_push (ff_picture 80 8), Try_read, Halt, Restart] sample_ff)) \<le> 8"
  using force_fps_calls [OF sample_ff_new refl] by blast

text \<open>
  The tolerance is one output period plus 500 ms. Under the documented behaviour of
  \<^verbatim>\<open>av_compare_ts\<close>, an input is discontinuous exactly when it precedes the last input shown in
  its own slot or lies more than half a second beyond the following slot; the unsigned
  subtraction makes this exact for every pair of 64-bit timestamps. The last hypothesis is the
  documented domain of \<^verbatim>\<open>av_compare_ts\<close>: the distance fits 64 bits in half seconds.
\<close>

theorem force_fps_tolerance:
  assumes "av_time L" and "valid_tb (ff_time_base s)" and "ff_last_input s = Some m" and "i64 m" and "i64 pts"
    and "m < pts \<Longrightarrow> pts - m \<le> i64_max \<Longrightarrow> fits_in (pts - m - 1) (ff_time_base s) (avq 1 2)"
    and "fits_in 1 (avq 1 2) (ff_time_base s)"
  shows "IsDiscontinuity L s pts \<longleftrightarrow> pts < m \<or> i64_max < pts - m \<or>
    den (ff_time_base s) < (pts - m - 1) * num (ff_time_base s) * 2"
proof (cases "pts < m")
  case True
  then show ?thesis by (simp add: IsDiscontinuity_def assms(3))
next
  case False
  let ?d = "to_u64 pts - to_u64 m" and ?tb = "ff_time_base s"
  have d: "uint ?d = pts - m" using False assms(4,5) by (intro unat_u64_diff) auto
  have mx: "uint (to_u64 i64_max) = i64_max" by (rule uint_to_u64) simp_all
  have big: "to_u64 i64_max < ?d \<longleftrightarrow> i64_max < pts - m" by (simp add: word_less_def d mx)
  have one: "1 < ?d \<longleftrightarrow> 1 < pts - m" by (simp add: word_less_def d)
  have pos: "0 < num ?tb" "0 < den ?tb" using assms(2) by (auto dest: valid_tbD)
  have cmp: "0 < compare_ts L (pts - m - 1) ?tb 1 (avq 1 2) \<longleftrightarrow> den ?tb < (pts - m - 1) * num ?tb * 2"
    if "m < pts" "pts - m \<le> i64_max"
  proof -
    have args: "i64 (pts - m - 1)" "i64 1" "valid_tb ?tb" "valid_tb (avq 1 2)"
      "fits_in (pts - m - 1) ?tb (avq 1 2)" "fits_in 1 (avq 1 2) ?tb"
      using that assms(2,6,7) by auto
    show ?thesis
      using av_time.compare_ts_less [OF assms(1) args] av_time.compare_ts_eq [OF assms(1) args] by auto
  qed
  show ?thesis
  proof (cases "pts - m \<le> 1")
    case True
    then have "(pts - m - 1) * num ?tb \<le> 0" using pos by (simp add: mult_nonpos_nonneg)
    with True False big one pos show ?thesis
      by (auto simp: IsDiscontinuity_def assms(3) Let_def)
  next
    case gt: False
    then show ?thesis
      using False big one cmp d by (auto simp: IsDiscontinuity_def assms(3) Let_def)
  qed
qed

theorem force_fps_tolerance_witness:
  "\<not> IsDiscontinuity ref_lib (sample_ff\<lparr>ff_last_input := Some 100\<rparr>) 113 \<and>
   IsDiscontinuity ref_lib (sample_ff\<lparr>ff_last_input := Some 100\<rparr>) 114"
  using force_fps_tolerance [OF ref_time.av_time_axioms, of "sample_ff\<lparr>ff_last_input := Some 100\<rparr>" 100 113]
    force_fps_tolerance [OF ref_time.av_time_axioms, of "sample_ff\<lparr>ff_last_input := Some 100\<rparr>" 100 114]
  by (simp add: sample_ff_def fits_in_def rescale_num_def rescale_den_def)

end
