(* ===== verification/Scheduler_Props.thy ===== *)
theory Scheduler_Props
  imports Scheduler_Lemmas Force_Fps
begin

text \<open>
  The scheduler's properties over all interleavings, and a concrete scheduler whose video track runs
  through the frame-rate converter of \<open>Force_Fps\<close> and the syncer of \<open>Syncer\<close>.
\<close>

section \<open>A concrete scheduler\<close>

text \<open>Execution of a fixed schedule of threads; \<open>None\<close> is the driver.\<close>

fun exec ::
    "('c, 'f, 's) sched_env \<Rightarrow> (bool option \<times> int) list \<Rightarrow> ('c, 'f, 's) sched \<Rightarrow>
     event list \<times> ('c, 'f, 's) sched" where
  "exec E [] s = ([], s)"
| "exec E ((who, now) # xs) s =
     (case (case who of None \<Rightarrow> driver_step E (\<lambda>_. now) None s | Some v \<Rightarrow> worker_step E v s) of
        (es, t) \<Rightarrow> (case exec E xs t of (es', u) \<Rightarrow> (es @ es', u)))"

lemma exec_run:
  "run E s0 evs k s \<Longrightarrow>
   \<exists>k' \<le> k + length xs. run E s0 (evs @ fst (exec E xs s)) k' (snd (exec E xs s))"
proof (induction E xs s arbitrary: evs k rule: exec.induct)
  case (1 E s)
  then show ?case by auto
next
  case (2 E who now xs s)
  obtain es t where st: "(case who of None \<Rightarrow> driver_step E (\<lambda>_. now) None s | Some v \<Rightarrow> worker_step E v s) = (es, t)"
    by fastforce
  have "run E s0 (evs @ es) (k + notified s t) t"
  proof (cases who)
    case None
    with st run.driver [OF 2(2), of None "\<lambda>_. now" es t] show ?thesis by (simp add: callback_ok_def)
  next
    case (Some v)
    with st run.worker [OF 2(2), of v es t] show ?thesis by simp
  qed
  from 2(1) [OF st [symmetric] this] obtain k' where
    "k' \<le> k + notified s t + length xs" "run E s0 ((evs @ es) @ fst (exec E xs t)) k' (snd (exec E xs t))"
    by blast
  with st notified_le [of s t] show ?case
    by (intro exI [of _ k']) (auto split: prod.splits)
qed

definition demo_env :: "(force_fps, unit, int list) sched_env" where
  "demo_env = \<lparr>lib = ref_lib, e_push = (\<lambda>_. TryPushFrame_ff ref_lib), e_pull = (\<lambda>_. TryReadFrame_ff ref_lib),
     e_restart = (\<lambda>_. Reset_ff), e_halt = (\<lambda>_. Stop_ff), e_filter = (\<lambda>_ i f. (Inr i, f)),
     e_filter_error = (\<lambda>_. None), e_filter_start = (\<lambda>f. (Inr (), f)), e_filter_stop = (\<lambda>f. (Inr (), f)),
     e_read = (\<lambda>v src. case src of [] \<Rightarrow> (null_result, []) | p # ps \<Rightarrow> if v then (sample_picture p, ps) else (null_result, src)),
     e_source_error = (\<lambda>_. None)\<rparr>"

definition demo_sched :: "(force_fps, unit, int list) sched" where
  "demo_sched = right (Scheduler_new ref_lib True sample_config No_frame default_realtime_config
     (\<lambda>_. ForceFps ref_lib (avq 25 1) 8) () [0])"

definition demo_boot :: "(force_fps, unit, int list) sched" where
  "demo_boot = snd (Start demo_env True demo_sched)"

text \<open>One round of the driver, the video worker's task, a second round.\<close>

definition demo_schedule :: "(bool option \<times> int) list" where
  "demo_schedule = replicate 5 (None, 1000) @ replicate 4 (Some True, 1000) @ replicate 3 (None, 2000)"

lemma demo_starts: "Start demo_env True demo_sched = (True, demo_boot)"
proof -
  have "fst (Start demo_env True demo_sched)" by code_simp
  then show ?thesis by (simp add: demo_boot_def prod_eq_iff)
qed


definition demo_events :: "event list" where
  "demo_events = fst (exec demo_env demo_schedule demo_boot)"

definition demo_end :: "(force_fps, unit, int list) sched" where
  "demo_end = snd (exec demo_env demo_schedule demo_boot)"

lemma demo_reaches:
  "\<exists>k \<le> length xs. run demo_env demo_sched (fst (exec demo_env xs demo_boot)) k (snd (exec demo_env xs demo_boot))"
  using exec_run [OF run.boot [OF demo_starts], of xs] by simp

lemma demo_run: "\<exists>k. run demo_env demo_sched demo_events k demo_end"
  using demo_reaches [of demo_schedule] by (auto simp: demo_events_def demo_end_def)

definition event_name :: "event \<Rightarrow> nat" where
  "event_name e = (case e of Taken _ _ \<Rightarrow> 1 | Dropped _ _ \<Rightarrow> 2 | Released _ _ \<Rightarrow> 3 | Entered _ _ \<Rightarrow> 4
     | Filtered _ _ \<Rightarrow> 5 | Accepted _ _ \<Rightarrow> 6 | Converted _ _ \<Rightarrow> 7 | Consumed _ _ \<Rightarrow> 8)"

text \<open>The demo's converters keep the invariant of \<open>Force_Fps\<close>.\<close>

abbreviation demo_good :: "bool \<Rightarrow> force_fps \<Rightarrow> bool" where
  "demo_good \<equiv> \<lambda>_. ff_ok ref_lib"

lemma demo_push: "fst (TryPushFrame_ff ref_lib i c) \<noteq> Inl Undefined_behaviour"
  by (auto simp: TryPushFrame_ff_def check_ff_def chain_Inl Rescale_ff_def Let_def
      split: sum.splits read_status.splits if_splits)

lemma demo_env_ok: "env_ok demo_env demo_good"
proof -
  have pull: "ff_ok ref_lib c \<Longrightarrow> fst (TryReadFrame_ff ref_lib c) \<noteq> Inl Undefined_behaviour \<and>
      ff_ok ref_lib (snd (TryReadFrame_ff ref_lib c))" for c
    using TryReadFrame_ok [of ref_lib c] by auto
  show ?thesis
    unfolding env_ok_def demo_env_def sched_env.simps
    using demo_push ff.ok_push [of ref_lib] pull ff.ok_restart [of ref_lib]
    by (auto simp: item_ok_def null_result_def sample_picture_def split: list.splits)
qed

section \<open>Properties\<close>

text \<open>
  C5: No item is lost, duplicated or reordered on its way through the scheduler. At every instant
  of every interleaving and for each track: what was read from the source is what the realtime
  mapping settled (released or dropped), in order, followed by the lookahead; what entered the
  worker is what was released, in order, up to the item in flight; what the converter accepted is
  what the filter passed on, in order, up to the pending item; what the syncer consumed is what the
  converter produced, in order, up to the result or head in the driver's hands. Only a stopped
  worker discards the items in flight.
\<close>

theorem scheduler_conserves:
  assumes "run E s0 evs k s"
  shows "taken v evs = settled v evs @ slot (source_head (tracks s v)) \<and>
    prefix (entered v evs) (released v evs) \<and> prefix (accepted v evs) (filtered v evs) \<and>
    (workers s v \<noteq> W_done \<longrightarrow>
       released v evs = entered v evs @ in_work (tracks s v) (workers s v) \<and>
       filtered v evs = accepted v evs @ held_back (workers s v)) \<and>
    converted v evs = consumed v evs @
      (if completed (tracks s v) then slot (result (tracks s v)) else []) @ slot (head (tracks s v))"
proof -
  have "track_inv v evs s" using run_inv [OF assms] by blast
  then show ?thesis by (auto simp: track_inv_def Let_def split: if_splits)
qed

theorem scheduler_conserves_witness:
  "\<exists>k. run demo_env demo_sched demo_events k demo_end \<and> map event_name demo_events = [1, 3, 4, 5, 6, 7, 8] \<and>
     converted True demo_events = consumed True demo_events @
       (if completed (tracks demo_end True) then slot (result (tracks demo_end True)) else []) @
       slot (head (tracks demo_end True))"
proof -
  obtain k where k: "run demo_env demo_sched demo_events k demo_end" using demo_run by blast
  have m: "map event_name demo_events = [1, 3, 4, 5, 6, 7, 8]" by code_simp
  from scheduler_conserves [OF k, of True] k m show ?thesis by (elim conjE, intro exI [of _ k] conjI)
qed

text \<open>
  Each track has at most one processing task, one converted result and one head, and the
  hand-over never overwrites an item: while a task is being worked on or a result is waiting, there
  is no head; a task and a result exclude each other; a worker that runs owns the only task; and a
  new input is handed to a worker only if the converter has taken the previous one.
\<close>

theorem scheduler_handover:
  assumes "run E s0 evs k s"
  shows "(busy (tracks s v) \<or> completed (tracks s v) \<longrightarrow> rr_status (head (tracks s v)) = KNull) \<and>
    \<not> (busy (tracks s v) \<and> completed (tracks s v)) \<and>
    (\<forall>i p. workers s v = W_run i p \<longrightarrow> busy (tracks s v) \<and> \<not> requested (tracks s v) \<and>
       (rr_status i \<noteq> KNull \<longrightarrow> rr_status p = KNull)) \<and>
    (\<forall>p. workers s v = W_wait p \<longrightarrow> requested (tracks s v) \<longrightarrow> rr_status (task (tracks s v)) \<noteq> KNull \<longrightarrow>
       rr_status p = KNull)"
proof -
  have "track_inv v evs s" using run_inv [OF assms] by blast
  then show ?thesis by (auto simp: track_inv_def Let_def handover_def)
qed

theorem scheduler_handover_witness:
  "\<not> (busy (tracks demo_end True) \<and> completed (tracks demo_end True)) \<and> length demo_events = 7"
proof -
  obtain k where k: "run demo_env demo_sched demo_events k demo_end" using demo_run by blast
  have "length demo_events = 7" by code_simp
  with scheduler_handover [OF k, of True] show ?thesis by blast
qed

text \<open>
  C11: The driver does not sleep through a finished conversion. Whenever the driver waits, its
  revision has not changed, and an enabled track has a completed result, the worker of that track
  has published it but not yet notified: its next step wakes the driver. The bound is the width of
  the revision counter: fewer than \<open>2 ^ 64\<close> notifications since the start.
\<close>

theorem driver_no_lost_result:
  assumes "run E s0 evs k s" and "k < 2 ^ 64"
    and "drv s = D_sleep obs wake" and "signal s = obs"
    and "enabled (tracks s v)" and "completed (tracks s v)"
  shows "\<exists>p. workers s v = W_notify p"
proof -
  have "wake_inv (signal s0) k s" by (rule run_wake [OF assms(1)])
  then obtain j where j: "j \<le> k" "signal s0 + of_nat k = signal s0 + of_nat j" "noted s j k v"
    using assms(3,4) by (auto simp: wake_inv_def)
  have "(of_nat k :: 64 word) = of_nat j" using j(2) by simp
  then have "k = j" using j(1) assms(2) by (simp add: word_unat_eq_iff unat_of_nat)
  with j(3) assms(5,6) show ?thesis by (simp add: noted_def)
qed

text \<open>The driver asleep, the worker about to notify.\<close>

definition asleep :: "(force_fps, unit, int list) sched" where
  "asleep = snd (exec demo_env (replicate 5 (None, 1000) @ replicate 3 (Some True, 1000)) demo_boot)"

theorem driver_no_lost_result_witness:
  "completed (tracks asleep True) \<and> (\<exists>p. workers asleep True = W_notify p)"
proof -
  obtain evs k where k: "k \<le> 8" "run demo_env demo_sched evs k asleep"
    using demo_reaches [of "replicate 5 (None, 1000) @ replicate 3 (Some True, 1000)"]
    by (auto simp: asleep_def)
  have "case drv asleep of D_sleep obs _ \<Rightarrow> signal asleep = obs | _ \<Rightarrow> False" by code_simp
  then obtain obs wake where d: "drv asleep = D_sleep obs wake" "signal asleep = obs"
    by (auto split: driver.splits)
  have c: "enabled (tracks asleep True)" "completed (tracks asleep True)" by code_simp+
  from driver_no_lost_result [OF k(2) _ d c] k(1) c show ?thesis by simp
qed

text \<open>
  C12: The scheduler honours the syncer's contract. With well-formed source items and converters
  that do not dereference null, the syncer is in one of its documented sessions (the scheduler
  retains every head until it is consumed, over any interleaving) as long as the driver runs, and
  no failure of the scheduler is the dereference of an empty optional.
\<close>

theorem scheduler_keeps_contract:
  assumes "run E s0 evs k s" and "env_ok E good"
    and "Syncer_new (lib E) c b = Inr y" and "im_config (sync s0) = im_config y"
    and "\<forall>v. enabled (tracks s0 v) \<longrightarrow> good v (converters s0 v)"
  shows "failure s \<noteq> Some Undefined_behaviour \<and>
    (drv s \<noteq> D_done \<longrightarrow> session (lib E) (sync s) (held_of s)) \<and>
    (\<forall>v. enabled (tracks s v) \<longrightarrow> good v (converters s v))"
  using run_safe [OF assms] by (simp add: safe_inv_def converters_ok_def)

lemma ff_ok_code [code]:
  "ff_ok L s \<longleftrightarrow> length (ff_inputs s) \<le> ff_capacity s \<and> list_all (queued_ok L (ff_time_base s)) (ff_inputs s) \<and>
     (ff_next s \<noteq> None \<longrightarrow> ff_last s \<noteq> None) \<and>
     (case ff_last s of None \<Rightarrow> True | Some l \<Rightarrow> rr_status l = KFrame)"
  by (auto simp: ff_ok_def list_all_iff split: option.split)

definition demo_syncer :: syncer_impl where
  "demo_syncer = right (Syncer_new ref_lib sample_config No_frame)"

theorem scheduler_keeps_contract_witness:
  "failure demo_end \<noteq> Some Undefined_behaviour \<and> session ref_lib (sync demo_end) (held_of demo_end)"
proof -
  obtain k where k: "run demo_env demo_sched demo_events k demo_end" using demo_run by blast
  have l: "lib demo_env = ref_lib" by (simp add: demo_env_def)
  have "case Syncer_new ref_lib sample_config No_frame of Inl _ \<Rightarrow> False | Inr _ \<Rightarrow> True" by code_simp
  then have n: "Syncer_new (lib demo_env) sample_config No_frame = Inr demo_syncer"
    by (auto simp: demo_syncer_def right_def l split: sum.splits)
  have c: "im_config (sync demo_sched) = im_config demo_syncer" by code_simp
  have d: "drv demo_end \<noteq> D_done" by code_simp
  have "ff_ok ref_lib (converters demo_sched True)" "ff_ok ref_lib (converters demo_sched False)"
    by code_simp+
  then have "enabled (tracks demo_sched v) \<longrightarrow> ff_ok ref_lib (converters demo_sched v)" for v
    by (cases v) simp_all
  then have g: "\<forall>v. enabled (tracks demo_sched v) \<longrightarrow> ff_ok ref_lib (converters demo_sched v)" by blast
  from scheduler_keeps_contract [OF k demo_env_ok n c g] d l show ?thesis by simp
qed

end
