(* ===== verification/Nal_Stream.thy ===== *)
theory Nal_Stream
  imports Mw_Prelude "HOL-Library.Sublist"
begin

text \<open>
  NAL streams as \<^verbatim>\<open>remuxer/packet_converter.cc\<close> reads and writes them: length-prefixed units
  (avcC and hvcC) and start codes (Annex B), with the two start-code scanners the converter calls
  from \<^verbatim>\<open>third_party/ZLMediaKit/ext-codec/H264.cpp\<close>.

  A position in a buffer is the suffix that remains. Lengths are read into 32-bit words as in the
  source. \<open>annex_b\<close> and \<open>length_prefixed\<close> are the reference encodings the readers are proved
  against.
\<close>

type_synonym byte = "8 word"

datatype codec = CodecH264 | CodecH265 | CodecAAC

section \<open>Start codes\<close>

text \<open>\<open>memfind\<close> with the pattern 00 00 01: a match that ends the buffer is not looked at.\<close>

fun memfind :: "byte list \<Rightarrow> nat option" where
  "memfind (a # b # c # d # xs) =
     (if a = 0 \<and> b = 0 \<and> c = 1 then Some 0 else map_option Suc (memfind (b # c # d # xs)))"
| "memfind xs = None"

lemma memfind_bound: "memfind xs = Some i \<Longrightarrow> i + 3 < length xs"
  by (induction xs arbitrary: i rule: memfind.induct) (auto split: if_splits)

definition prefixSize :: "byte list \<Rightarrow> nat" where
  "prefixSize p =
     (if length p < 4 then 0
      else if p ! 0 \<noteq> 0 \<or> p ! 1 \<noteq> 0 then 0
      else if p ! 2 = 0 \<and> p ! 3 = 1 then 4
      else if p ! 2 = 1 then 3
      else 0)"

text \<open>
  The loop of \<open>splitH264\<close>: \<open>pre\<close> is the start code before \<open>start\<close>. It yields every unit with its
  start code and the start code's length, in the order of the callbacks.
\<close>

function split_loop :: "byte list \<Rightarrow> byte list \<Rightarrow> (byte list \<times> nat) list" where
  "split_loop pre start =
     (case memfind start of
        None \<Rightarrow> [(pre @ start, length pre)]
      | Some i \<Rightarrow>
          let long = (if i = 0 then last pre else start ! (i - 1)) = 0;
              j = (if long then i - 1 else i);
              n = (if long then 4 else 3)
          in (pre @ take j start, length pre) # split_loop (take n (drop j start)) (drop (j + n) start))"
  by pat_completeness auto
termination
  by (relation "measure (\<lambda>(pre, start). length start)") (auto simp: Let_def dest!: memfind_bound)

declare split_loop.simps [simp del]

definition splitH264 :: "byte list \<Rightarrow> nat \<Rightarrow> (byte list \<times> nat) list" where
  "splitH264 p k = split_loop (take k p) (drop k p)"

section \<open>NAL headers\<close>

definition min_nal :: "codec \<Rightarrow> nat" where
  "min_nal c = (if c = CodecH264 then 2 else 3)"

lemma min_nal_pos [simp]: "0 < min_nal c"
  by (simp add: min_nal_def)

definition ValidNalHeader :: "codec \<Rightarrow> byte list \<Rightarrow> bool result" where
  "ValidNalHeader c p =
     (if length p < min_nal c then Inl Invalid_argument
      else if and (p ! 0) 0x80 \<noteq> 0 then Inr False
      else if c = CodecH264
           then let type = and (p ! 0) 0x1f
                in if type = 0 \<or> 24 \<le> type then Inl Invalid_argument else Inr True
      else Inr (and (p ! 1) 0x07 \<noteq> 0))"

definition ValidateNal :: "codec \<Rightarrow> byte list \<Rightarrow> unit result" where
  "ValidateNal c p = chain (ValidNalHeader c p) (\<lambda>ok. if ok then Inr () else Inl Invalid_argument)"

text \<open>The callbacks of \<open>HasInvalidNalHeader\<close>, one per unit.\<close>

fun any_invalid :: "codec \<Rightarrow> (byte list \<times> nat) list \<Rightarrow> bool \<Rightarrow> bool result" where
  "any_invalid c [] invalid = Inr invalid"
| "any_invalid c ((nal, k) # us) invalid =
     chain (ValidNalHeader c (drop k nal)) (\<lambda>ok. any_invalid c us (invalid \<or> \<not> ok))"

definition HasInvalidNalHeader :: "codec \<Rightarrow> byte list \<Rightarrow> bool result" where
  "HasInvalidNalHeader c p =
     (if prefixSize p = 0 then Inl Invalid_argument
      else any_invalid c (splitH264 p (prefixSize p)) False)"

section \<open>Length-prefixed units\<close>

definition be_length :: "byte list \<Rightarrow> 32 word" where
  "be_length = foldl (\<lambda>l b. or (push_bit 8 l) (ucast b)) 0"

definition ReadLength :: "nat \<Rightarrow> byte list \<Rightarrow> (nat \<times> byte list) result" where
  "ReadLength width p =
     (if length p < width then Inl Invalid_argument
      else Inr (unat (be_length (take width p)), drop width p))"

text \<open>One unit is moved from \<open>p\<close> to the output, behind a four-byte start code.\<close>

definition AppendNal ::
    "codec \<Rightarrow> nat \<Rightarrow> bool \<Rightarrow> byte list \<times> byte list \<Rightarrow> (byte list \<times> byte list) result" where
  "AppendNal c width validate_header st =
     (case st of (out, p) \<Rightarrow>
        chain (ReadLength width p) (\<lambda>(n, p).
          if n < min_nal c \<or> length p < n then Inl Invalid_argument
          else chain (if validate_header then ValidateNal c (take n p) else Inr ()) (\<lambda>_.
               Inr (out @ [0, 0, 0, 1] @ take n p, drop n p))))"

fun append_nals ::
    "codec \<Rightarrow> nat \<Rightarrow> nat \<Rightarrow> byte list \<times> byte list \<Rightarrow> (byte list \<times> byte list) result" where
  "append_nals c width 0 st = Inr st"
| "append_nals c width (Suc k) st =
     chain (AppendNal c width True st) (\<lambda>st. append_nals c width k st)"

lemma AppendNal_shrinks:
  "AppendNal c width v (out, p) = Inr (out', p') \<Longrightarrow> length p' < length p"
  by (cases c) (auto simp: AppendNal_def ReadLength_def min_nal_def split: if_splits)

text \<open>The loops of \<open>Convert\<close> and \<open>LengthPrefixed\<close> over a whole packet.\<close>

function to_annex_b :: "codec \<Rightarrow> nat \<Rightarrow> byte list \<times> byte list \<Rightarrow> byte list result" where
  "to_annex_b c width st =
     (if snd st = [] then Inr (fst st)
      else case AppendNal c width False st of Inl e \<Rightarrow> Inl e | Inr st' \<Rightarrow> to_annex_b c width st')"
  by pat_completeness auto
termination
  by (relation "measure (\<lambda>(c, width, st). length (snd st))") (auto dest: AppendNal_shrinks)

declare to_annex_b.simps [simp del]

function prefixed_loop :: "codec \<Rightarrow> nat \<Rightarrow> byte list \<Rightarrow> bool" where
  "prefixed_loop c width p =
     (if p = [] then True
      else if length p < width then False
      else let n = unat (be_length (take width p)); q = drop width p
           in if n < min_nal c \<or> length q < n then False else prefixed_loop c width (drop n q))"
  by pat_completeness auto
termination
  by (relation "measure (\<lambda>(c, width, p). length p)")
    (auto simp: min_nal_def Let_def split: if_splits)

declare prefixed_loop.simps [simp del]

definition LengthPrefixed :: "codec \<Rightarrow> byte list \<Rightarrow> nat \<Rightarrow> bool" where
  "LengthPrefixed c p width = (if width = 0 then False else prefixed_loop c width p)"

section \<open>Reference encodings\<close>

definition annex_b :: "byte list list \<Rightarrow> byte list" where
  "annex_b nals = concat (map (\<lambda>n. [0, 0, 0, 1] @ n) nals)"

lemma annex_b_simps [simp]:
  "annex_b [] = []" "annex_b (n # ns) = 0 # 0 # 0 # 1 # n @ annex_b ns"
  by (simp_all add: annex_b_def)

text \<open>A big-endian field of \<open>w\<close> bytes.\<close>

fun be_field :: "nat \<Rightarrow> nat \<Rightarrow> byte list" where
  "be_field 0 n = []"
| "be_field (Suc w) n = be_field w (n div 256) @ [word_of_nat n]"

lemma be_field_length [simp]: "length (be_field w n) = w"
  by (induction w n rule: be_field.induct) simp_all

definition length_prefixed :: "nat \<Rightarrow> byte list list \<Rightarrow> byte list" where
  "length_prefixed w nals = concat (map (\<lambda>n. be_field w (length n) @ n) nals)"

lemma length_prefixed_simps [simp]:
  "length_prefixed w [] = []"
  "length_prefixed w (n # ns) = be_field w (length n) @ n @ length_prefixed w ns"
  by (simp_all add: length_prefixed_def)

text \<open>The units a codec admits in a field of \<open>w\<close> bytes.\<close>

definition fits_nal :: "codec \<Rightarrow> nat \<Rightarrow> byte list \<Rightarrow> bool" where
  "fits_nal c w n \<longleftrightarrow> min_nal c \<le> length n \<and> length n < 256 ^ w"

text \<open>No start code inside a unit: what emulation prevention guarantees.\<close>

definition escaped :: "byte list \<Rightarrow> bool" where
  "escaped n \<longleftrightarrow> \<not> sublist [0, 0, 1] n"

section \<open>Reading a length field\<close>

lemma be_step:
  fixes l :: "32 word" and b :: byte
  assumes "unat l < 2 ^ 24"
  shows "unat (or (push_bit 8 l) (ucast b)) = unat l * 256 + unat b"
proof -
  have z: "and (push_bit 8 l) (ucast b :: 32 word) = 0"
  proof (rule bit_eqI)
    fix n
    show "bit (and (push_bit 8 l) (ucast b :: 32 word)) n = bit (0 :: 32 word) n"
      by (cases "n < 8") (auto simp: bit_simps dest: bit_imp_le_length)
  qed
  have "or (push_bit 8 l) (ucast b :: 32 word) = push_bit 8 l + ucast b"
    by (rule sym, rule disjunctive_add) (use z in \<open>auto simp: bit_eq_iff bit_simps\<close>)
  moreover have "unat (push_bit 8 l) = unat l * 256"
    using assms by (simp add: push_bit_eq_mult unat_word_ariths mult.commute)
  moreover have "unat (ucast b :: 32 word) = unat b" by transfer (simp add: take_bit_nat_eq_self)
  moreover have "unat b < 256" using unsigned_less [of b] by simp
  ultimately show ?thesis using assms by (simp add: unat_word_ariths)
qed

lemma be_length_snoc: "be_length (xs @ [b]) = or (push_bit 8 (be_length xs)) (ucast b)"
  by (simp add: be_length_def)

lemma be_length_bound: "length xs \<le> 4 \<Longrightarrow> unat (be_length xs) < 256 ^ length xs"
proof (induction xs rule: rev_induct)
  case Nil
  then show ?case by (simp add: be_length_def)
next
  case (snoc b xs)
  then have lt: "unat (be_length xs) < 256 ^ length xs" and l: "length xs \<le> 3" by simp_all
  have "(256 :: nat) ^ length xs \<le> 256 ^ 3" using l by (intro power_increasing) simp_all
  with lt have 24: "unat (be_length xs) < 2 ^ 24" by simp
  have "unat b < 256" using unsigned_less [of b] by simp
  with lt show ?case by (simp add: be_length_snoc be_step [OF 24])
qed

lemma be_field_bound: "k \<le> 3 \<Longrightarrow> unat (be_length (be_field k n)) < 2 ^ 24"
proof -
  assume k: "k \<le> 3"
  have "(256 :: nat) ^ k \<le> 256 ^ 3" using k by (intro power_increasing) simp_all
  with be_length_bound [of "be_field k n"] k show ?thesis by simp
qed

lemma be_length_field: "w \<le> 4 \<Longrightarrow> n < 256 ^ w \<Longrightarrow> unat (be_length (be_field w n)) = n"
proof (induction w n rule: be_field.induct)
  case (1 n)
  then show ?case by (simp add: be_length_def)
next
  case (2 w n)
  have "n div 256 < 256 ^ w" using 2(3) by (simp add: less_mult_imp_div_less mult.commute)
  then have "unat (be_length (be_field w (n div 256))) = n div 256" using 2 by simp
  moreover have "unat (word_of_nat n :: byte) = n mod 256" by (simp add: unat_of_nat)
  ultimately show ?case
    using be_step [OF be_field_bound [of w "n div 256"]] 2(2) by (simp add: be_length_snoc)
qed

end
