(* ===== verification/Packet_Converter.thy ===== *)
theory Packet_Converter
  imports Media_Timestamps Nal_Stream
begin

text \<open>
  \<^verbatim>\<open>remuxer/packet_converter.cc\<close>: encoded packets become ZLM frames. Length-prefixed video is
  rewritten to Annex B once, damaged NAL units are filtered, ADTS is checked frame by frame, and
  the millisecond timestamps are attached.

  A ZLM track is a value of the type variable \<open>'t\<close>; what the converter calls on it, and FFmpeg's
  \<^verbatim>\<open>filter_units\<close> bitstream filter, are the fields of \<open>zlm\<close>. \<open>zlm_frame\<close> keeps what
  \<^verbatim>\<open>FrameFromPtr\<close> and \<^verbatim>\<open>FrameCacheAble\<close> store; its presentation time is read by \<open>zlm_pts\<close>, as
  their \<^verbatim>\<open>pts()\<close> does, where a stored zero means that there is none.
\<close>

section \<open>Frames and tracks\<close>

record zlm_frame =
  zf_codec :: codec
  zf_bytes :: "byte list"
  zf_prefix :: nat
  zf_dts :: "64 word"
  zf_pts :: "64 word"
  zf_zero :: bool
  zf_index :: int

definition zlm_pts :: "zlm_frame \<Rightarrow> 64 word" where
  "zlm_pts f = (if zf_zero f then 0 else if zf_pts f \<noteq> 0 then zf_pts f else zf_dts f)"

definition aacPrefixSize :: "byte list \<Rightarrow> nat" where
  "aacPrefixSize p = (if 7 < length p \<and> p ! 0 = 0xFF \<and> and (p ! 1) 0xF0 = 0xF0 then 7 else 0)"

definition getFrameFromBuffer :: "codec \<Rightarrow> byte list \<Rightarrow> 64 word \<Rightarrow> 64 word \<Rightarrow> zlm_frame" where
  "getFrameFromBuffer c p dts pts =
     \<lparr>zf_codec = c, zf_bytes = p, zf_prefix = (if c = CodecAAC then aacPrefixSize p else prefixSize p),
      zf_dts = dts, zf_pts = (if pts \<noteq> 0 then pts else dts), zf_zero = False, zf_index = - 1\<rparr>"

record 't zlm =
  zl_track :: "codec \<Rightarrow> int \<Rightarrow> 't"
  zl_extra :: "byte list \<Rightarrow> 't \<Rightarrow> 't"
  zl_input :: "zlm_frame \<Rightarrow> 't \<Rightarrow> 't"
  zl_ready :: "'t \<Rightarrow> bool"
  zl_rate :: "'t \<Rightarrow> int"
  zl_channels :: "'t \<Rightarrow> int"
  zl_filter_units :: "codec \<Rightarrow> byte list \<Rightarrow> byte list option result"

section \<open>Codec configuration\<close>

datatype codec_id = AV_CODEC_ID_H264 | AV_CODEC_ID_HEVC | AV_CODEC_ID_AAC | AV_CODEC_ID_VP8 | AV_CODEC_ID_VP9 | AV_CODEC_ID_OTHER

record coded_stream = stream_info +
  cs_codec :: codec_id
  cs_extradata :: "byte list"
  cs_sample_rate :: int
  cs_channels :: int

definition Codec :: "coded_stream \<Rightarrow> codec result" where
  "Codec s =
     (if si_type s = Media_video \<and> cs_codec s = AV_CODEC_ID_H264 then Inr CodecH264
      else if si_type s = Media_video \<and> cs_codec s = AV_CODEC_ID_HEVC then Inr CodecH265
      else if si_type s = Media_audio \<and> cs_codec s = AV_CODEC_ID_AAC then Inr CodecAAC
      else Inl Invalid_argument)"

text \<open>The arrays of a hvcC record: a type byte, a count, and that many units.\<close>

fun append_arrays ::
    "codec \<Rightarrow> nat \<Rightarrow> byte list \<times> byte list \<Rightarrow> (byte list \<times> byte list) result" where
  "append_arrays c 0 st = Inr st"
| "append_arrays c (Suc k) (out, p) =
     (case p of
        [] \<Rightarrow> Inl Invalid_argument
      | _ # p \<Rightarrow>
          chain (ReadLength 2 p) (\<lambda>(n, p).
          chain (append_nals c 2 n (out, p)) (\<lambda>st. append_arrays c k st)))"

text \<open>The parameter sets in Annex B, and the width of the length fields of the packets.\<close>

definition Configuration :: "codec \<Rightarrow> byte list \<Rightarrow> (byte list \<times> nat) result" where
  "Configuration c d =
     (if length d < (if c = CodecH264 then 7 else 23) \<or> d ! 0 \<noteq> 1 then Inl Invalid_argument
      else if c = CodecH264 then
        chain (append_nals c 2 (unat (and (d ! 5) 0x1f)) ([], drop 6 d)) (\<lambda>(out, p).
          case p of
            [] \<Rightarrow> Inl Invalid_argument
          | k # p \<Rightarrow> chain (append_nals c 2 (unat k) (out, p)) (\<lambda>(out, _).
              Inr (out, unat (and (d ! 4) 0x03) + 1)))
      else
        chain (append_arrays c (unat (d ! 22)) ([], drop 23 d)) (\<lambda>(out, p).
          if p \<noteq> [] then Inl Invalid_argument else Inr (out, unat (and (d ! 21) 0x03) + 1)))"

section \<open>The converter\<close>

record pc_stream =
  ps_index :: int
  ps_time_base :: av_rational
  ps_codec :: codec
  ps_nal_width :: nat

record 't packet_converter =
  pc_streams :: "pc_stream list"
  pc_tracks :: "'t list"

text \<open>One stream of the constructor's loop.\<close>

definition open_stream :: "'t zlm \<Rightarrow> coded_stream \<Rightarrow> (pc_stream \<times> 't) result" where
  "open_stream Z s =
     chain (Codec s) (\<lambda>c.
     let t = zl_track Z c (si_index s); d = cs_extradata s;
         stream = (\<lambda>w. \<lparr>ps_index = si_index s, ps_time_base = si_time_base s, ps_codec = c, ps_nal_width = w\<rparr>)
     in if si_extradata_size s = 0 then Inr (stream 0, t)
        else chain
          (if c = CodecAAC then
             if length d < 2 then Inl Invalid_argument
             else let t = zl_extra Z d t
                  in if zl_rate Z t \<le> 0 \<or> zl_channels Z t \<le> 0 \<or> zl_rate Z t \<noteq> cs_sample_rate s \<or>
                        zl_channels Z t \<noteq> cs_channels s
                     then Inl Invalid_argument else Inr (0, t)
           else chain (if prefixSize d \<noteq> 0 then Inr (d, 0) else Configuration c d) (\<lambda>(config, w).
                chain (HasInvalidNalHeader c config) (\<lambda>bad.
                if bad then Inl Invalid_argument
                else Inr (w, zl_input Z ((getFrameFromBuffer c config 0 0)\<lparr>zf_index := si_index s\<rparr>) t))))
          (\<lambda>(w, t). if \<not> zl_ready Z t then Inl Invalid_argument else Inr (stream w, t)))"

fun open_streams ::
    "'t zlm \<Rightarrow> 't packet_converter \<Rightarrow> coded_stream list \<Rightarrow> 't packet_converter result" where
  "open_streams Z pc [] = Inr pc"
| "open_streams Z pc (s # ss) =
     chain (StreamInfo_Validate (stream_info.truncate s)) (\<lambda>_.
     if \<exists>t \<in> set (pc_streams pc). ps_index t = si_index s then Inl Invalid_argument
     else chain (open_stream Z s) (\<lambda>(t, tr).
          open_streams Z \<lparr>pc_streams = pc_streams pc @ [t], pc_tracks = pc_tracks pc @ [tr]\<rparr> ss))"

definition PacketConverter :: "'t zlm \<Rightarrow> coded_stream list \<Rightarrow> 't packet_converter result" where
  "PacketConverter Z ss = open_streams Z \<lparr>pc_streams = [], pc_tracks = []\<rparr> ss"

section \<open>Converting a packet\<close>

definition getAacFrameLength :: "byte list \<Rightarrow> int" where
  "getAacFrameLength p =
     (if length p < 7 then - 1
      else if p ! 0 \<noteq> 0xFF \<or> and (p ! 1) 0xF0 \<noteq> 0xF0 then - 1
      else uint (or (or (push_bit 11 (ucast (and (p ! 3) 0x03))) (push_bit 3 (ucast (p ! 4))))
                    (ucast (and (drop_bit 5 (p ! 5)) 0x07)) :: 16 word))"

text \<open>The loop over the ADTS frames of one packet; \<open>p\<close> is what remains.\<close>

function check_adts :: "byte list \<Rightarrow> unit result" where
  "check_adts p =
     (if p = [] then Inr ()
      else let n = getAacFrameLength p
           in if n \<le> 7 \<or> int (length p) < n then Inl Invalid_argument
              else check_adts (drop (nat n) p))"
  by pat_completeness auto
termination
  by (relation "measure length") auto

declare check_adts.simps [simp del]

text \<open>The video part: the Annex B bytes to be sent, \<open>None\<close> when no valid unit remains.\<close>

definition video_bytes :: "'t zlm \<Rightarrow> pc_stream \<Rightarrow> byte list \<Rightarrow> byte list option result" where
  "video_bytes Z s p =
     (let c = ps_codec s; w = ps_nal_width s in
      chain (if LengthPrefixed c p w \<or> prefixSize p = 0
             then if w = 0 then Inl Invalid_argument else to_annex_b c w ([], p)
             else Inr p) (\<lambda>q.
      chain (HasInvalidNalHeader c q) (\<lambda>bad.
      if bad then zl_filter_units Z c q else Inr (Some q))))"

text \<open>The index of the first stream with that id, as \<^verbatim>\<open>find_if\<close> finds it.\<close>

fun stream_at :: "int \<Rightarrow> pc_stream list \<Rightarrow> nat option" where
  "stream_at i [] = None"
| "stream_at i (s # ss) = (if ps_index s = i then Some 0 else map_option Suc (stream_at i ss))"

definition Convert ::
    "av_lib \<Rightarrow> 't zlm \<Rightarrow> packet \<Rightarrow> 64 word \<Rightarrow> 64 word \<Rightarrow>
     ('t packet_converter, zlm_frame option) act" where
  "Convert L Z p dts pts =
     andthen (lift (case p of None \<Rightarrow> Inl Invalid_argument
                    | Some k \<Rightarrow> if pk_bytes k = [] then Inl Invalid_argument else Inr k)) (\<lambda>k.
     andthen (gets (\<lambda>pc. stream_at (pk_stream k) (pc_streams pc))) (\<lambda>found.
     andthen (gets pc_streams) (\<lambda>ss.
     andthen (lift (case found of
                      None \<Rightarrow> Inl Invalid_argument
                    | Some i \<Rightarrow> if num (pk_time_base k) \<le> 0 \<or> den (pk_time_base k) \<le> 0 \<or>
                                   cmp_q L (pk_time_base k) (ps_time_base (ss ! i)) \<noteq> 0
                                then Inl Invalid_argument else Inr i)) (\<lambda>i.
     let s = ss ! i; c = ps_codec s in
     andthen (lift (if c \<noteq> CodecAAC then video_bytes Z s (pk_bytes k) else Inr (Some (pk_bytes k)))) (\<lambda>q.
     case q of
       None \<Rightarrow> ret None
     | Some q \<Rightarrow>
         let f = getFrameFromBuffer c q dts pts in
         andthen (lift (if c = CodecAAC \<and> zf_prefix f \<noteq> 0 then check_adts q else Inr ())) (\<lambda>_.
         andthen (gets (\<lambda>pc. pc_tracks pc ! i)) (\<lambda>t.
         andthen (if c = CodecAAC \<and> \<not> zl_ready Z t
                  then andthen (guard (zf_prefix f \<noteq> 0) Invalid_argument) (\<lambda>_.
                       andthen (modify (\<lambda>pc. pc\<lparr>pc_tracks := (pc_tracks pc)[i := zl_input Z f t]\<rparr>)) (\<lambda>_.
                       guard (zl_ready Z (zl_input Z f t)) Invalid_argument))
                  else ret ()) (\<lambda>_.
         ret (Some (f\<lparr>zf_index := ps_index s, zf_zero := (pts = 0 \<and> dts \<noteq> 0)\<rparr>))))))))))"

section \<open>Reading and writing NAL streams\<close>

text \<open>The classifier and the rewriter agree on what a length-prefixed packet is.\<close>

lemma prefixed_loop_iff:
  "prefixed_loop c w p \<longleftrightarrow> (\<exists>out'. to_annex_b c w (out, p) = Inr out')"
proof (induction c w p arbitrary: out rule: prefixed_loop.induct)
  case (1 c w p)
  note [simp] = prefixed_loop.simps [of c w p] to_annex_b.simps [of c w "(out, p)"]
  let ?n = "unat (be_length (take w p))" and ?q = "drop w p"
  show ?case
  proof (cases "p = [] \<or> length p < w \<or> ?n < min_nal c \<or> length ?q < ?n")
    case True
    then show ?thesis by (auto simp: AppendNal_def ReadLength_def)
  next
    case False
    then have "AppendNal c w False (out, p) = Inr (out @ [0, 0, 0, 1] @ take ?n ?q, drop ?n ?q)"
      by (simp add: AppendNal_def ReadLength_def)
    moreover have "prefixed_loop c w (drop ?n ?q) \<longleftrightarrow>
        (\<exists>out'. to_annex_b c w (out @ [0, 0, 0, 1] @ take ?n ?q, drop ?n ?q) = Inr out')"
      using False by (intro 1) auto
    ultimately show ?thesis using False by (simp add: Let_def)
  qed
qed

lemma read_unit:
  assumes "w \<le> 4" and "fits_nal c w n"
  shows "AppendNal c w v (out, be_field w (length n) @ n @ p) =
    (if v then chain (ValidateNal c n) (\<lambda>_. Inr (out @ [0, 0, 0, 1] @ n, p))
     else Inr (out @ [0, 0, 0, 1] @ n, p))"
  using assms by (simp add: AppendNal_def ReadLength_def fits_nal_def be_length_field)

lemma to_annex_b_prefixed:
  assumes "w \<le> 4" and "\<forall>n \<in> set nals. fits_nal c w n"
  shows "to_annex_b c w (out, length_prefixed w nals) = Inr (out @ annex_b nals)"
  using assms(2)
proof (induction nals arbitrary: out)
  case Nil
  then show ?case by (simp add: to_annex_b.simps)
next
  case (Cons n ns)
  have "n \<noteq> []" using Cons.prems min_nal_pos [of c] by (auto simp: fits_nal_def simp del: min_nal_pos)
  with Cons read_unit [OF assms(1), of c n False out "length_prefixed w ns"] show ?case
    by (simp add: to_annex_b.simps [of c w "(out, _)"])
qed

lemma append_nals_prefixed:
  assumes "\<forall>n \<in> set nals. fits_nal c 2 n \<and> ValidateNal c n = Inr ()"
  shows "append_nals c 2 (length nals) (out, length_prefixed 2 nals @ p) = Inr (out @ annex_b nals, p)"
  using assms
proof (induction nals arbitrary: out)
  case Nil
  then show ?case by simp
next
  case (Cons n ns)
  then have n: "fits_nal c 2 n" "ValidateNal c n = Inr ()"
    and ns: "\<forall>n \<in> set ns. fits_nal c 2 n \<and> ValidateNal c n = Inr ()" by simp_all
  show ?case
    using Cons.IH [OF ns] read_unit [OF _ n(1), of True out "length_prefixed 2 ns @ p"] n(2) by simp
qed

text \<open>A scan over escaped units stops exactly at their start codes.\<close>

lemma memfind_Cons:
  assumes "3 \<le> length xs"
  shows "memfind (a # xs) =
    (if a = 0 \<and> xs ! 0 = 0 \<and> xs ! 1 = 1 then Some 0 else map_option Suc (memfind xs))"
proof -
  obtain b c d ys where "xs = b # c # d # ys"
    using assms by (auto simp: numeral_3_eq_3 Suc_le_length_iff)
  then show ?thesis by simp
qed

lemma escaped_tl: "escaped (a # n) \<Longrightarrow> escaped n"
  by (auto simp: escaped_def sublist_Cons_right)

lemma escaped_head: "escaped (a # b # c # n) \<Longrightarrow> \<not> (a = 0 \<and> b = 0 \<and> c = 1)"
  by (auto simp: escaped_def sublist_Cons_right)

lemma memfind_escaped: "escaped n \<Longrightarrow> memfind n = None"
proof (induction n rule: memfind.induct)
  case (1 a b c d xs)
  then show ?case using escaped_tl [of a] escaped_head [of a b c "d # xs"] by simp
qed simp_all

lemma memfind_unit:
  assumes "escaped n" and "rest \<noteq> []"
  shows "memfind (n @ 0 # 0 # 0 # 1 # rest) = Some (length n + 1)"
  using assms(1)
proof (induction n)
  case Nil
  then show ?case using assms(2) by (cases rest) simp_all
next
  case (Cons a n)
  let ?xs = "n @ 0 # 0 # 0 # 1 # rest"
  have "\<not> (a = 0 \<and> ?xs ! 0 = 0 \<and> ?xs ! 1 = 1)"
  proof (cases n)
    case (Cons b m)
    then show ?thesis using Cons.prems escaped_head [of a b] by (cases m) auto
  qed simp
  with Cons.IH [OF escaped_tl [OF Cons.prems]] show ?case by (simp add: memfind_Cons)
qed

lemma split_units:
  assumes "escaped n" and "\<forall>m \<in> set ns. escaped m \<and> m \<noteq> []"
  shows "split_loop [0, 0, 0, 1] (n @ annex_b ns) = map (\<lambda>m. ([0, 0, 0, 1] @ m, 4)) (n # ns)"
  using assms
proof (induction ns arbitrary: n)
  case Nil
  then show ?case by (simp add: split_loop.simps memfind_escaped)
next
  case (Cons m ns)
  have "m @ annex_b ns \<noteq> []" using Cons.prems by simp
  from memfind_unit [OF Cons.prems(1) this]
  have "memfind (n @ annex_b (m # ns)) = Some (length n + 1)" by simp
  then have "split_loop [0, 0, 0, 1] (n @ annex_b (m # ns)) =
      ([0, 0, 0, 1] @ n, 4) # split_loop [0, 0, 0, 1] (m @ annex_b ns)"
    by (subst split_loop.simps) (simp add: Let_def nth_append)
  with Cons show ?case by simp
qed

lemma splitH264_annex_b:
  assumes "nals \<noteq> []" and "\<forall>m \<in> set nals. escaped m \<and> m \<noteq> []"
  shows "splitH264 (annex_b nals) (prefixSize (annex_b nals)) = map (\<lambda>m. ([0, 0, 0, 1] @ m, 4)) nals"
    and "prefixSize (annex_b nals) = 4"
proof -
  obtain n ns where n: "nals = n # ns" using assms(1) by (cases nals) auto
  then show p: "prefixSize (annex_b nals) = 4" by (simp add: prefixSize_def)
  then show "splitH264 (annex_b nals) (prefixSize (annex_b nals)) = map (\<lambda>m. ([0, 0, 0, 1] @ m, 4)) nals"
    using split_units [of n ns] assms(2) by (simp add: splitH264_def n)
qed

text \<open>The header check of a whole packet is the header check of its units.\<close>

fun headers :: "codec \<Rightarrow> byte list list \<Rightarrow> bool list result" where
  "headers c [] = Inr []"
| "headers c (n # ns) = chain (ValidNalHeader c n) (\<lambda>ok. chain (headers c ns) (\<lambda>oks. Inr (ok # oks)))"

lemma any_invalid_headers:
  "any_invalid c (map (\<lambda>m. ([0, 0, 0, 1] @ m, 4)) ns) b =
     chain (headers c ns) (\<lambda>oks. Inr (b \<or> \<not> list_all id oks))"
proof (induction ns arbitrary: b)
  case Nil
  then show ?case by simp
next
  case (Cons n ns)
  show ?case
    by (cases "ValidNalHeader c n"; cases "headers c ns") (simp_all add: Cons [simplified])
qed

lemma HasInvalid_annex_b:
  assumes "nals \<noteq> []" and "\<forall>m \<in> set nals. escaped m \<and> m \<noteq> []"
  shows "HasInvalidNalHeader c (annex_b nals) = chain (headers c nals) (\<lambda>oks. Inr (\<not> list_all id oks))"
  using splitH264_annex_b [OF assms] any_invalid_headers [of c nals False]
  by (simp add: HasInvalidNalHeader_def)

section \<open>Properties\<close>

text \<open>The state of a converter that never touches its AAC track for a video packet.\<close>

lemma video_Convert:
  assumes k: "pk_bytes k \<noteq> []" "stream_at (pk_stream k) (pc_streams pc) = Some i"
    "valid_tb (pk_time_base k)" "cmp_q L (pk_time_base k) (ps_time_base (pc_streams pc ! i)) = 0"
    and v: "ps_codec (pc_streams pc ! i) \<noteq> CodecAAC"
    and q: "video_bytes Z (pc_streams pc ! i) (pk_bytes k) = Inr q"
  shows "Convert L Z (Some k) dts pts pc =
    (Inr (case q of None \<Rightarrow> None
      | Some q \<Rightarrow> Some ((getFrameFromBuffer (ps_codec (pc_streams pc ! i)) q dts pts)
           \<lparr>zf_index := ps_index (pc_streams pc ! i), zf_zero := (pts = 0 \<and> dts \<noteq> 0)\<rparr>)), pc)"
  using k v q valid_tbD [OF k(3)]
  by (simp add: Convert_def act_defs Let_def split: option.split)

text \<open>
  C32: A length-prefixed video packet is rewritten to Annex B without loss. If the packet is the
  length-prefixed encoding of units whose headers are valid and which contain no start code, then
  conversion returns one frame whose bytes are those units behind four-byte start codes, splitting
  these bytes again gives back exactly the units, and the frame reports the requested decoding and
  presentation times, a presentation time of zero included. The converter's state is unchanged.
\<close>

theorem convert_length_prefixed:
  assumes "pk_bytes k = length_prefixed w nals" and "nals \<noteq> []" and "0 < w" "w \<le> 4"
    and "stream_at (pk_stream k) (pc_streams pc) = Some i"
    and "pc_streams pc ! i = \<lparr>ps_index = j, ps_time_base = tb, ps_codec = c, ps_nal_width = w\<rparr>"
    and "c \<noteq> CodecAAC" and "valid_tb (pk_time_base k)" and "cmp_q L (pk_time_base k) tb = 0"
    and "\<forall>n \<in> set nals. fits_nal c w n \<and> escaped n \<and> ValidNalHeader c n = Inr True"
  shows "\<exists>f. Convert L Z (Some k) dts pts pc = (Inr (Some f), pc) \<and>
    map (\<lambda>(u, m). drop m u) (splitH264 (zf_bytes f) (prefixSize (zf_bytes f))) = nals \<and>
    zf_bytes f = annex_b nals \<and> zf_dts f = dts \<and> zlm_pts f = pts \<and> zf_index f = j"
proof -
  have units: "\<forall>m \<in> set nals. escaped m \<and> m \<noteq> []"
    using assms(10) min_nal_pos [of c] by (auto simp: fits_nal_def simp del: min_nal_pos)
  have annex: "to_annex_b c w ([], length_prefixed w nals) = Inr (annex_b nals)"
    using to_annex_b_prefixed [OF assms(4), of nals c "[]"] assms(10) by simp
  then have "LengthPrefixed c (length_prefixed w nals) w"
    using assms(3) prefixed_loop_iff [of c w _ "[]"] by (simp add: LengthPrefixed_def)
  moreover have "headers c nals = Inr (map (\<lambda>_. True) nals)"
    using assms(10) by (induction nals) auto
  then have "HasInvalidNalHeader c (annex_b nals) = Inr False"
    by (simp add: HasInvalid_annex_b [OF assms(2) units] list_all_iff)
  ultimately have "video_bytes Z (pc_streams pc ! i) (pk_bytes k) = Inr (Some (annex_b nals))"
    using assms(1,3,6) annex by (simp add: video_bytes_def Let_def)
  moreover have "pk_bytes k \<noteq> []"
    using assms(1-3) by (cases nals; cases w) auto
  ultimately have "Convert L Z (Some k) dts pts pc =
      (Inr (Some ((getFrameFromBuffer c (annex_b nals) dts pts)\<lparr>zf_index := j,
         zf_zero := (pts = 0 \<and> dts \<noteq> 0)\<rparr>)), pc)"
    using video_Convert [of k pc i L Z "Some (annex_b nals)" dts pts] assms(5-9) by simp
  moreover have "map (\<lambda>(u, m). drop m u) (map (\<lambda>m. ([0, 0, 0, 1] @ m, 4)) nals) = nals"
    by (induction nals) simp_all
  ultimately show ?thesis
    using splitH264_annex_b [OF assms(2) units] by (auto simp: getFrameFromBuffer_def zlm_pts_def)
qed

definition sample_nals :: "byte list list" where
  "sample_nals = [[0x67, 0x42, 0x00], [0x65, 0x88, 0x80, 0x10]]"

definition sample_pc :: "unit packet_converter" where
  "sample_pc = \<lparr>pc_streams = [\<lparr>ps_index = 0, ps_time_base = avq 1 25, ps_codec = CodecH264,
     ps_nal_width = 4\<rparr>], pc_tracks = [()]\<rparr>"

definition sample_zlm :: "unit zlm" where
  "sample_zlm = \<lparr>zl_track = (\<lambda>_ _. ()), zl_extra = (\<lambda>_ t. t), zl_input = (\<lambda>_ t. t), zl_ready = (\<lambda>_. True),
     zl_rate = (\<lambda>_. 48000), zl_channels = (\<lambda>_. 2), zl_filter_units = (\<lambda>_ p. Inr (Some p))\<rparr>"

definition sample_packet :: "byte list \<Rightarrow> av_packet" where
  "sample_packet p = \<lparr>pk_pts = 0, pk_dts = 1, pk_time_base = avq 1 25, pk_stream = 0, pk_bytes = p, pk_side = []\<rparr>"

theorem convert_length_prefixed_witness:
  "\<exists>f. Convert ref_lib sample_zlm (Some (sample_packet (length_prefixed 4 sample_nals))) 40 0 sample_pc =
      (Inr (Some f), sample_pc) \<and> zf_bytes f = annex_b sample_nals \<and> zf_dts f = 40 \<and> zlm_pts f = 0"
proof -
  let ?k = "sample_packet (length_prefixed 4 sample_nals)"
  have "list_all (\<lambda>n. ValidNalHeader CodecH264 n = Inr True) sample_nals" by code_simp
  moreover have "\<forall>n \<in> set sample_nals. fits_nal CodecH264 4 n \<and> escaped n"
    by (simp add: sample_nals_def fits_nal_def min_nal_def escaped_def sublist_Cons_right)
  ultimately have n: "\<forall>n \<in> set sample_nals. fits_nal CodecH264 4 n \<and> escaped n \<and>
      ValidNalHeader CodecH264 n = Inr True"
    by (auto simp: list_all_iff)
  have s: "stream_at (pk_stream ?k) (pc_streams sample_pc) = Some 0"
    "pc_streams sample_pc ! 0 = \<lparr>ps_index = 0, ps_time_base = avq 1 25, ps_codec = CodecH264, ps_nal_width = 4\<rparr>"
    "valid_tb (pk_time_base ?k)" "cmp_q ref_lib (pk_time_base ?k) (avq 1 25) = 0"
    "sample_nals \<noteq> []" "pk_bytes ?k = length_prefixed 4 sample_nals"
    by (simp_all add: sample_packet_def sample_pc_def ref_lib_def sample_nals_def)
  from convert_length_prefixed [OF s(6,5) _ _ s(1,2) _ s(3,4) n, of sample_zlm 40 0] show ?thesis by auto
qed

text \<open>
  How a video packet is read. A packet is taken as length-prefixed exactly when the rewriting of
  its units succeeds, so a packet classified as such never fails half way; and a packet that begins
  with the four-byte start code is never taken as length-prefixed, whatever the width of the length
  field.
\<close>

theorem length_prefixed_decides:
  "LengthPrefixed c p w = (w \<noteq> 0 \<and> (\<exists>q. to_annex_b c w ([], p) = Inr q)) \<and>
   \<not> LengthPrefixed c ([0, 0, 0, 1] @ p) (unat (and b 0x03 :: byte) + 1)"
proof
  show "LengthPrefixed c p w = (w \<noteq> 0 \<and> (\<exists>q. to_annex_b c w ([], p) = Inr q))"
    using prefixed_loop_iff [of c w p "[]"] by (simp add: LengthPrefixed_def)
next
  let ?w = "unat (and b 0x03 :: byte) + 1"
  have "unat (and b 0x03) \<le> 3"
    using word_and_le1 [of b 3] by (simp add: word_le_nat_alt)
  then consider "?w = 1" | "?w = 2" | "?w = 3" | "?w = 4" by linarith
  then have "unat (be_length (take ?w ([0, 0, 0, 1] @ p))) \<le> 1"
    by cases (simp_all add: be_length_def)
  then have "\<not> prefixed_loop c ?w ([0, 0, 0, 1] @ p)"
    by (subst prefixed_loop.simps) (auto simp: Let_def min_nal_def)
  then show "\<not> LengthPrefixed c ([0, 0, 0, 1] @ p) ?w" by (simp add: LengthPrefixed_def)
qed

lemma low_bits:
  fixes x :: byte
  shows "unat (and x 0x1f) = unat x mod 32" "unat (and x 0x03) = unat x mod 4"
proof -
  have "and x 0x1f = take_bit 5 x" "and x 0x03 = take_bit 2 x"
    by (simp_all add: take_bit_eq_mask mask_eq_exp_minus_1)
  moreover have "unat (take_bit n x) = unat x mod 2 ^ n" for n
    by (rule trans [OF unsigned_take_bit_eq take_bit_eq_mod])
  ultimately show "unat (and x 0x1f) = unat x mod 32" "unat (and x 0x03) = unat x mod 4"
    by simp_all
qed

text \<open>The avcC record of given parameter sets.\<close>

definition avcC :: "byte list \<Rightarrow> nat \<Rightarrow> byte list list \<Rightarrow> byte list list \<Rightarrow> byte list" where
  "avcC profile w sps pps =
     1 # profile @ [word_of_nat (w - 1), word_of_nat (length sps)] @ length_prefixed 2 sps @
     word_of_nat (length pps) # length_prefixed 2 pps"



end
