(* ===== verification/File_Writer.thy ===== *)
theory File_Writer
  imports Packet_Converter
begin

text \<open>
  \<open>FileWriter\<close> of \<^verbatim>\<open>recorder/recorder.cc\<close>: encoded packets of all tracks are written to one
  MP4 file on a common presentation origin, AAC in ADTS form through a bitstream filter.

  The file context and the filter belong to FFmpeg: they are values of the type variables \<open>'m\<close> and
  \<open>'b\<close>, and the calls on them are the fields of \<open>muxer\<close>. The loop that empties the filter runs as
  long as the filter has output, so it is a partial function whose \<open>None\<close> means that it never
  returns.
\<close>

datatype received = Received av_packet | Again | Eof_received | Receive_failed

record ('m, 'b) muxer =
  mx_open :: "coded_stream list \<Rightarrow> string \<Rightarrow> 'm result"
  mx_time_base :: "'m \<Rightarrow> nat \<Rightarrow> av_rational"
  mx_rescale_ts :: "av_packet \<Rightarrow> av_rational \<Rightarrow> av_rational \<Rightarrow> av_packet"
  mx_write :: "av_packet \<Rightarrow> 'm \<Rightarrow> unit result \<times> 'm"
  mx_io_error :: "'m \<Rightarrow> bool"
  mx_trailer :: "'m \<Rightarrow> unit result \<times> 'm"
  mx_close :: "'m \<Rightarrow> unit result \<times> 'm"
  bs_new :: "coded_stream \<Rightarrow> 'b result"
  bs_send :: "av_packet option \<Rightarrow> 'b \<Rightarrow> unit result \<times> 'b"
  bs_receive :: "'b \<Rightarrow> received \<times> 'b"

record ('m, 'b) file_writer =
  fw_streams :: "coded_stream list"
  fw_context :: 'm
  fw_filter :: "'b option"
  fw_audio_index :: nat
  fw_origin :: "int option"
  fw_origin_base :: av_rational

definition FileWriter ::
    "('m, 'b) muxer \<Rightarrow> coded_stream list \<Rightarrow> string \<Rightarrow> ('m, 'b) file_writer result" where
  "FileWriter M ss path =
     chain (mx_open M ss path) (\<lambda>m.
     if mx_io_error M m then Inl Ffmpeg_error
     else Inr \<lparr>fw_streams = ss, fw_context = m, fw_filter = None, fw_audio_index = 0,
               fw_origin = None, fw_origin_base = avq 0 1\<rparr>)"

section \<open>Timestamps\<close>

text \<open>Signed 64-bit arithmetic: leaving the range is undefined in C++.\<close>

definition checked :: "int \<Rightarrow> int result" where
  "checked x = (if i64 x then Inr x else Inl Undefined_behaviour)"

definition AV_RL32 :: "byte list \<Rightarrow> int" where
  "AV_RL32 d = uint (d ! 0) + 2 ^ 8 * uint (d ! 1) + 2 ^ 16 * uint (d ! 2) + 2 ^ 24 * uint (d ! 3)"

text \<open>The first \<open>AV_PKT_DATA_SKIP_SAMPLES\<close> element of the side data.\<close>

fun skip_samples :: "(bool \<times> byte list) list \<Rightarrow> byte list option" where
  "skip_samples [] = None"
| "skip_samples ((skip, d) # xs) = (if skip then Some d else skip_samples xs)"

text \<open>The origin: the first packet's presentation time, after the padding it skips.\<close>

definition first_origin :: "av_lib \<Rightarrow> coded_stream \<Rightarrow> av_packet \<Rightarrow> int result" where
  "first_origin L s p =
     (let o' = (if pk_pts p \<noteq> AV_NOPTS_VALUE then pk_pts p else pk_dts p) in
      case skip_samples (pk_side p) of
        None \<Rightarrow> Inr o'
      | Some d \<Rightarrow>
          if 4 \<le> length d \<and> 0 < cs_sample_rate s
          then checked (o' + rescale_q L (AV_RL32 d) (avq 1 (cs_sample_rate s)) (si_time_base s))
          else Inr o')"

definition shift_ts :: "int \<Rightarrow> int \<Rightarrow> int result" where
  "shift_ts off ts = (if ts \<noteq> AV_NOPTS_VALUE then checked (ts - off) else Inr ts)"

text \<open>The packet \<open>WritePacket\<close> hands to the muxer.\<close>

definition adapt ::
    "av_lib \<Rightarrow> ('m, 'b) muxer \<Rightarrow> av_packet \<Rightarrow> nat \<Rightarrow> (('m, 'b) file_writer, av_packet) act" where
  "adapt L M p i =
     andthen (gets fw_streams) (\<lambda>ss.
     andthen (guard (i < length ss) Undefined_behaviour) (\<lambda>_.
     let s = ss ! i; base = si_time_base s in
     andthen (gets fw_origin) (\<lambda>known.
     andthen (if known = None
              then andthen (lift (first_origin L s p)) (\<lambda>o'.
                   modify (\<lambda>w. w\<lparr>fw_origin := Some o', fw_origin_base := base\<rparr>))
              else ret ()) (\<lambda>_.
     andthen (gets (\<lambda>w. rescale_q L (the (fw_origin w)) (fw_origin_base w) base)) (\<lambda>off.
     andthen (lift (shift_ts off (pk_pts p))) (\<lambda>pts.
     andthen (lift (shift_ts off (pk_dts p))) (\<lambda>dts.
     andthen (gets (\<lambda>w. mx_time_base M (fw_context w) i)) (\<lambda>tb.
     ret ((mx_rescale_ts M (p\<lparr>pk_pts := pts, pk_dts := dts\<rparr>) base tb)\<lparr>pk_stream := int i\<rparr>)))))))))"

definition CheckIo :: "('m, 'b) muxer \<Rightarrow> (('m, 'b) file_writer, unit) act" where
  "CheckIo M = andthen (gets (\<lambda>w. mx_io_error M (fw_context w))) (\<lambda>bad. guard (\<not> bad) Ffmpeg_error)"

text \<open>A library call on the file context.\<close>

definition on_context ::
    "('m \<Rightarrow> unit result \<times> 'm) \<Rightarrow> (('m, 'b) file_writer, unit) act" where
  "on_context f = (\<lambda>w. case f (fw_context w) of (r, m) \<Rightarrow> (r, w\<lparr>fw_context := m\<rparr>))"

definition WritePacket ::
    "av_lib \<Rightarrow> ('m, 'b) muxer \<Rightarrow> av_packet \<Rightarrow> nat \<Rightarrow> (('m, 'b) file_writer, unit) act" where
  "WritePacket L M p i =
     andthen (adapt L M p i) (\<lambda>q. andthen (on_context (mx_write M q)) (\<lambda>_. CheckIo M))"

section \<open>The ADTS filter\<close>

partial_function (option) receive_all ::
    "av_lib \<Rightarrow> ('m, 'b) muxer \<Rightarrow> 'b \<Rightarrow> ('m, 'b) file_writer \<Rightarrow> (unit result \<times> ('m, 'b) file_writer) option" where
  "receive_all L M b w =
     (case bs_receive M b of
        (Received q, b') \<Rightarrow>
          (case WritePacket L M q (fw_audio_index w) (w\<lparr>fw_filter := Some b'\<rparr>) of
             (Inl e, w') \<Rightarrow> Some (Inl e, w')
           | (Inr _, w') \<Rightarrow> receive_all L M b' w')
      | (Again, b') \<Rightarrow> Some (Inr (), w\<lparr>fw_filter := Some b'\<rparr>)
      | (Eof_received, b') \<Rightarrow> Some (Inr (), w\<lparr>fw_filter := Some b'\<rparr>)
      | (Receive_failed, b') \<Rightarrow> Some (Inl Ffmpeg_error, w\<lparr>fw_filter := Some b'\<rparr>))"

definition WriteAudio ::
    "av_lib \<Rightarrow> ('m, 'b) muxer \<Rightarrow> av_packet option \<Rightarrow> 'b \<Rightarrow> ('m, 'b) file_writer \<Rightarrow>
     (unit result \<times> ('m, 'b) file_writer) option" where
  "WriteAudio L M p b w =
     (case bs_send M p b of
        (Inl e, b') \<Rightarrow> Some (Inl e, w\<lparr>fw_filter := Some b'\<rparr>)
      | (Inr _, b') \<Rightarrow> receive_all L M b' (w\<lparr>fw_filter := Some b'\<rparr>))"

text \<open>The position \<^verbatim>\<open>find_if\<close> finds, the length when there is none.\<close>

fun track_slot :: "int \<Rightarrow> coded_stream list \<Rightarrow> nat" where
  "track_slot i [] = 0"
| "track_slot i (s # ss) = (if si_index s = i then 0 else Suc (track_slot i ss))"

definition is_adts :: "byte list \<Rightarrow> bool" where
  "is_adts d \<longleftrightarrow> 2 < length d \<and> d ! 0 = 0xff \<and> and (d ! 1) 0xf0 = 0xf0"

definition Write ::
    "av_lib \<Rightarrow> ('m, 'b) muxer \<Rightarrow> av_packet \<Rightarrow> ('m, 'b) file_writer \<Rightarrow>
     (unit result \<times> ('m, 'b) file_writer) option" where
  "Write L M p w =
     (let i = track_slot (pk_stream p) (fw_streams w) in
      if length (fw_streams w) \<le> i then Some (Inl Undefined_behaviour, w)
      else if cs_codec (fw_streams w ! i) = AV_CODEC_ID_AAC \<and> is_adts (pk_bytes p) then
        (case fw_filter w of
           Some b \<Rightarrow> WriteAudio L M (Some p) b w
         | None \<Rightarrow>
             (case bs_new M (fw_streams w ! i) of
                Inl e \<Rightarrow> Some (Inl e, w)
              | Inr b \<Rightarrow> WriteAudio L M (Some p) b (w\<lparr>fw_filter := Some b, fw_audio_index := i\<rparr>)))
      else Some (WritePacket L M p i w))"

definition Finish_file ::
    "av_lib \<Rightarrow> ('m, 'b) muxer \<Rightarrow> ('m, 'b) file_writer \<Rightarrow> (unit result \<times> ('m, 'b) file_writer) option" where
  "Finish_file L M w =
     (case (case fw_filter w of None \<Rightarrow> Some (Inr (), w) | Some b \<Rightarrow> WriteAudio L M None b w) of
        None \<Rightarrow> None
      | Some (Inl e, w) \<Rightarrow> Some (Inl e, w)
      | Some (Inr _, w) \<Rightarrow>
          Some (andthen (on_context (mx_trailer M)) (\<lambda>_.
                andthen (CheckIo M) (\<lambda>_. on_context (mx_close M))) w))"

section \<open>Common origin\<close>

text \<open>A timestamp in seconds.\<close>

definition sec :: "int \<Rightarrow> av_rational \<Rightarrow> rat" where
  "sec t tb = of_int t * of_int (num tb) / of_int (den tb)"

definition tick :: "av_rational \<Rightarrow> rat" where
  "tick tb = of_int (num tb) / of_int (den tb)"

lemma sec_tick: "sec t tb = of_int t * tick tb"
  by (simp add: sec_def tick_def)

lemma tick_pos: "valid_tb tb \<Longrightarrow> 0 < tick tb"
  by (simp add: tick_def valid_tb_def)

lemma sec_diff: "sec (a - b) tb = sec a tb - sec b tb"
  by (simp add: sec_def diff_divide_distrib left_diff_distrib)

text \<open>Rescaling moves a timestamp by at most half a tick of the target time base.\<close>

lemma rescale_sec:
  assumes "av_time L" and "i64 a" "valid_tb b" "valid_tb c" and "rescale_q L a b c \<noteq> i64_min"
  shows "\<bar>sec (rescale_q L a b c) c - sec a b\<bar> \<le> tick c / 2"
proof -
  let ?r = "rescale_q L a b c"
  have "2 * \<bar>?r * rescale_den b c - rescale_num a b c\<bar> \<le> rescale_den b c"
    using av_time.rescale_nearest [OF assms(1)] assms(2-5) by blast
  then have "of_int (2 * \<bar>?r * rescale_den b c - rescale_num a b c\<bar>) \<le> (of_int (rescale_den b c) :: rat)"
    by (simp only: of_int_le_iff)
  then have le: "2 * \<bar>of_int ?r * (of_int (den b) * of_int (num c)) -
      of_int a * (of_int (num b) * of_int (den c))\<bar> \<le> (of_int (den b) * of_int (num c) :: rat)"
    by (simp add: rescale_den_def rescale_num_def)
  have pos: "0 < (of_int (den b) :: rat)" "0 < (of_int (den c) :: rat)"
    using assms(3,4) by (simp_all add: valid_tb_def)
  let ?X = "of_int ?r * (of_int (den b) * of_int (num c)) - of_int a * (of_int (num b) * of_int (den c)) :: rat"
  let ?Y = "of_int (den b) * of_int (num c) :: rat" and ?D = "of_int (den b) * of_int (den c) :: rat"
  have D: "0 < ?D" using pos by simp
  have "sec ?r c - sec a b = ?X / ?D" using pos by (simp add: sec_def field_simps)
  then have "\<bar>sec ?r c - sec a b\<bar> = \<bar>?X\<bar> / ?D" using D by (simp add: abs_divide)
  also have "\<dots> \<le> (?Y / 2) / ?D" using le D by (intro divide_right_mono) simp_all
  also have "(?Y / 2) / ?D = tick c / 2" using pos by (simp add: tick_def)
  finally show ?thesis .
qed

text \<open>What \<^verbatim>\<open>av_packet_rescale_ts\<close> is documented to do with a valid presentation time.\<close>

definition rescales_pts :: "av_lib \<Rightarrow> ('m, 'b) muxer \<Rightarrow> bool" where
  "rescales_pts L M \<longleftrightarrow> (\<forall>p b c. pk_pts (mx_rescale_ts M p b c) =
     (if pk_pts p = AV_NOPTS_VALUE then AV_NOPTS_VALUE else rescale_q L (pk_pts p) b c))"

lemma adapt_cases:
  assumes "adapt L M p i w = (Inr q, w')"
  shows "\<exists>o' pts dts. i < length (fw_streams w) \<and> fw_origin w' = Some o' \<and>
    (fw_origin w \<noteq> None \<longrightarrow> w' = w) \<and>
    shift_ts (rescale_q L o' (fw_origin_base w') (si_time_base (fw_streams w ! i))) (pk_pts p) = Inr pts \<and>
    q = (mx_rescale_ts M (p\<lparr>pk_pts := pts, pk_dts := dts\<rparr>) (si_time_base (fw_streams w ! i))
          (mx_time_base M (fw_context w) i))\<lparr>pk_stream := int i\<rparr>"
  using assms by (auto simp: adapt_def act_defs Let_def split: if_splits sum.splits)

lemma adapt_time:
  assumes "av_time L" and "rescales_pts L M" and A: "adapt L M p i w = (Inr q, w')"
    and b: "b = si_time_base (fw_streams w ! i)" "valid_tb b"
    and c: "c = mx_time_base M (fw_context w) i" "valid_tb c"
    and o: "fw_origin w' = Some o'" "i64 o'" "valid_tb (fw_origin_base w')"
    and fit: "fits_in o' (fw_origin_base w') b"
    and pts: "pk_pts p \<noteq> AV_NOPTS_VALUE" "i64 (pk_pts p)" "pk_pts q \<noteq> AV_NOPTS_VALUE"
  shows "\<bar>sec (pk_pts q) c - (sec (pk_pts p) b - sec o' (fw_origin_base w'))\<bar> \<le> tick b / 2 + tick c / 2"
proof -
  let ?off = "rescale_q L o' (fw_origin_base w') b"
  obtain t dts where t: "shift_ts ?off (pk_pts p) = Inr t"
    and q: "q = (mx_rescale_ts M (p\<lparr>pk_pts := t, pk_dts := dts\<rparr>) b c)\<lparr>pk_stream := int i\<rparr>"
    using adapt_cases [OF A] b(1) c(1) o(1) by auto
  then have t': "t = pk_pts p - ?off" "i64 t"
    using pts(1) by (auto simp: shift_ts_def checked_def split: if_splits)
  have q': "pk_pts q = (if t = AV_NOPTS_VALUE then AV_NOPTS_VALUE else rescale_q L t b c)"
    using assms(2) q by (simp add: rescales_pts_def)
  with pts(3) have q2: "pk_pts q = rescale_q L t b c" "rescale_q L t b c \<noteq> i64_min" by (auto split: if_splits)
  have "?off \<noteq> i64_min" using av_time.rescale_represents [OF assms(1)] o b(2) fit by blast
  then have 1: "\<bar>sec ?off b - sec o' (fw_origin_base w')\<bar> \<le> tick b / 2"
    using rescale_sec [OF assms(1)] o b(2) by blast
  have 2: "\<bar>sec (rescale_q L t b c) c - sec t b\<bar> \<le> tick c / 2"
    using rescale_sec [OF assms(1) t'(2) b(2) c(2) q2(2)] .
  have "sec t b = sec (pk_pts p) b - sec ?off b" by (simp add: t'(1) sec_diff)
  with 1 2 q2(1) show ?thesis by (simp only: abs_le_iff) linarith
qed

text \<open>
  Recording keeps the tracks in step. Two packets of a session, of any two tracks, keep their
  distance in presentation time: the distance of what is handed to the muxer differs from the
  original one by at most half a tick of each of the four time bases involved. An origin, once
  fixed, is never moved.
\<close>

theorem recording_keeps_sync:
  assumes "av_time L" and "rescales_pts L M"
    and "adapt L M p i w = (Inr q, w1)" and "adapt L M p' i' w2 = (Inr q', w3)"
    and "fw_origin w2 = fw_origin w1" "fw_origin_base w2 = fw_origin_base w1"
    and "fw_origin w1 = Some o'" "i64 o'" "valid_tb (fw_origin_base w1)"
    and "b = si_time_base (fw_streams w ! i)" "valid_tb b" "fits_in o' (fw_origin_base w1) b"
    and "b' = si_time_base (fw_streams w2 ! i')" "valid_tb b'" "fits_in o' (fw_origin_base w1) b'"
    and "c = mx_time_base M (fw_context w) i" "valid_tb c"
    and "c' = mx_time_base M (fw_context w2) i'" "valid_tb c'"
    and "i64 (pk_pts p)" "i64 (pk_pts p')"
    and "AV_NOPTS_VALUE \<notin> {pk_pts p, pk_pts q, pk_pts p', pk_pts q'}"
  shows "w3 = w2 \<and>
    \<bar>(sec (pk_pts q) c - sec (pk_pts q') c') - (sec (pk_pts p) b - sec (pk_pts p') b')\<bar> \<le>
      (tick b + tick b' + tick c + tick c') / 2"
proof -
  have w3: "w3 = w2" using adapt_cases [OF assms(4)] assms(5,7) by auto
  have 1: "\<bar>sec (pk_pts q) c - (sec (pk_pts p) b - sec o' (fw_origin_base w1))\<bar> \<le> tick b / 2 + tick c / 2"
    by (rule adapt_time [OF assms(1,2,3)]) (use assms in auto)
  have "\<bar>sec (pk_pts q') c' - (sec (pk_pts p') b' - sec o' (fw_origin_base w3))\<bar> \<le> tick b' / 2 + tick c' / 2"
    by (rule adapt_time [OF assms(1,2,4)]) (use assms w3 in auto)
  with 1 assms(6) w3 show ?thesis by (simp add: abs_le_iff add_divide_distrib)
qed

definition sample_coded :: "media_type \<Rightarrow> codec_id \<Rightarrow> int \<Rightarrow> av_rational \<Rightarrow> coded_stream" where
  "sample_coded t c i tb = \<lparr>si_index = i, si_parameters = True, si_time_base = tb, si_codec_known = True,
     si_type = t, si_extradata_size = 0, si_extradata = False, cs_codec = c, cs_extradata = [],
     cs_sample_rate = 48000, cs_channels = 2\<rparr>"

text \<open>A muxer that keeps what it is given, with a millisecond video and a sample-rate audio track.\<close>

definition sample_muxer :: "(av_packet list, unit) muxer" where
  "sample_muxer = \<lparr>mx_open = (\<lambda>_ _. Inr []), mx_time_base = (\<lambda>_ i. if i = 0 then avq 1 1000 else avq 1 48000),
     mx_rescale_ts = (\<lambda>p b c. p\<lparr>pk_pts := if pk_pts p = AV_NOPTS_VALUE then AV_NOPTS_VALUE
         else ref_rescale (pk_pts p) b c\<rparr>),
     mx_write = (\<lambda>p m. (Inr (), m @ [p])), mx_io_error = (\<lambda>_. False), mx_trailer = (\<lambda>m. (Inr (), m)),
     mx_close = (\<lambda>m. (Inr (), m)), bs_new = (\<lambda>_. Inr ()), bs_send = (\<lambda>_ b. (Inr (), b)),
     bs_receive = (\<lambda>b. (Again, b))\<rparr>"

definition sample_writer :: "(av_packet list, unit) file_writer" where
  "sample_writer = \<lparr>fw_streams = [sample_coded Media_video AV_CODEC_ID_H264 0 (avq 1 90000),
       sample_coded Media_audio AV_CODEC_ID_AAC 1 (avq 1 44100)],
     fw_context = [], fw_filter = None, fw_audio_index = 0, fw_origin = Some 9000,
     fw_origin_base = avq 1 90000\<rparr>"

definition sample_timed :: "int \<Rightarrow> int \<Rightarrow> av_packet" where
  "sample_timed i t = \<lparr>pk_pts = t, pk_dts = t, pk_time_base = avq 1 1, pk_stream = i, pk_bytes = [1, 2, 3],
     pk_side = []\<rparr>"

theorem recording_keeps_sync_witness:
  "\<exists>q q'. adapt ref_lib sample_muxer (sample_timed 0 99000) 0 sample_writer = (Inr q, sample_writer) \<and>
     adapt ref_lib sample_muxer (sample_timed 1 50000) 1 sample_writer = (Inr q', sample_writer) \<and>
     pk_pts q = 1000 \<and> pk_pts q' = 49622 \<and>
     \<bar>(sec (pk_pts q) (avq 1 1000) - sec (pk_pts q') (avq 1 48000)) -
      (sec 99000 (avq 1 90000) - sec 50000 (avq 1 44100))\<bar> \<le>
       (tick (avq 1 90000) + tick (avq 1 44100) + tick (avq 1 1000) + tick (avq 1 48000)) / 2"
proof -
  let ?q = "(sample_timed 0 99000)\<lparr>pk_pts := 1000, pk_dts := 90000\<rparr>"
    and ?q' = "(sample_timed 1 50000)\<lparr>pk_pts := 49622, pk_dts := 45590\<rparr>"
  have A: "adapt ref_lib sample_muxer (sample_timed 0 99000) 0 sample_writer = (Inr ?q, sample_writer)"
    "adapt ref_lib sample_muxer (sample_timed 1 50000) 1 sample_writer = (Inr ?q', sample_writer)"
    by code_simp+
  have R: "rescales_pts ref_lib sample_muxer" by (simp add: rescales_pts_def sample_muxer_def ref_lib_def)
  have "\<bar>(sec (pk_pts ?q) (avq 1 1000) - sec (pk_pts ?q') (avq 1 48000)) -
      (sec (pk_pts (sample_timed 0 99000)) (avq 1 90000) - sec (pk_pts (sample_timed 1 50000)) (avq 1 44100))\<bar> \<le>
       (tick (avq 1 90000) + tick (avq 1 44100) + tick (avq 1 1000) + tick (avq 1 48000)) / 2"
    by (rule recording_keeps_sync [OF ref_time.av_time_axioms R A, where o' = 9000, THEN conjunct2])
      (simp_all add: sample_writer_def sample_coded_def sample_timed_def sample_muxer_def
        fits_in_def rescale_num_def rescale_den_def)
  with A show ?thesis by (intro exI [of _ ?q] exI [of _ ?q']) (simp add: sample_timed_def)
qed

end
