(* ===== verification/Recorder.thy ===== *)
theory Recorder
  imports File_Writer
begin

text \<open>
  \<^verbatim>\<open>recorder/recorder.cc\<close> and \<^verbatim>\<open>platform/thread.cc\<close>: the asynchronous recorder.

  Submitters, \<open>Drain\<close> and the writer thread share one mutex. Each function below is one critical
  section, or the file work between two of them; \<open>worker_rec\<close> is the body of \<open>Run\<close>, one program
  point at a time, and \<open>recording\<close> interleaves it with any calls of the other threads. \<open>size_t\<close>
  values are 64-bit words. The packets the recorder accepted and those it wrote are kept as ghost
  histories beside the state. Whether the operating system creates the thread, and how much memory
  an \<^verbatim>\<open>AVPacket\<close> header takes, are parameters.
\<close>

section \<open>Threads\<close>

datatype task_thread = Unstarted | Running | Returned

definition joinable :: "task_thread \<Rightarrow> bool" where
  "joinable t \<longleftrightarrow> t \<noteq> Unstarted"

definition Thread_Start :: "bool \<Rightarrow> bool \<Rightarrow> task_thread \<Rightarrow> bool \<times> task_thread" where
  "Thread_Start task created t =
     (if \<not> task \<or> joinable t then (False, t)
      else if \<not> created then (False, t)
      else (True, Running))"

text \<open>\<open>Join\<close> returns once the task has: \<open>None\<close> while it still runs.\<close>

definition Thread_Join :: "task_thread \<Rightarrow> task_thread option" where
  "Thread_Join t = (if joinable t then if t = Returned then Some Unstarted else None else Some t)"

section \<open>State\<close>

datatype recorder_state = kStopped | kRunning | kStopping | kFailed

text \<open>Where \<open>Run\<close> stands; \<open>R_fail\<close> is the catch block before \<open>Fail\<close> takes the mutex.\<close>

datatype rec_point = R_open | R_wait | R_write av_packet | R_count | R_finish | R_stop | R_fail | R_done

record ('m, 'b) recorder =
  rc_streams :: "coded_stream list"
  rc_path :: string
  rc_max :: "64 word"
  rc_state :: recorder_state
  rc_error :: bool
  rc_queue_bytes :: "64 word"
  rc_written :: "64 word"
  rc_dropped :: "64 word"
  rc_queue :: "av_packet list"
  rc_thread :: task_thread
  rc_point :: rec_point
  rc_writer :: "('m, 'b) file_writer option"

definition Recorder_new :: "('m, 'b) recorder" where
  "Recorder_new = \<lparr>rc_streams = [], rc_path = [], rc_max = 67108864, rc_state = kStopped, rc_error = False,
     rc_queue_bytes = 0, rc_written = 0, rc_dropped = 0, rc_queue = [], rc_thread = Unstarted,
     rc_point = R_done, rc_writer = None\<rparr>"

section \<open>Start\<close>

text \<open>The loop over the tracks: \<open>seen\<close> are the earlier ones.\<close>

fun validate_tracks :: "coded_stream list \<Rightarrow> bool \<Rightarrow> bool \<Rightarrow> coded_stream list \<Rightarrow> unit result" where
  "validate_tracks seen video audio [] = Inr ()"
| "validate_tracks seen video audio (s # ss) =
     chain (StreamInfo_Validate (stream_info.truncate s)) (\<lambda>_.
     let v = si_type s = Media_video \<and> \<not> video \<and> (cs_codec s = AV_CODEC_ID_H264 \<or> cs_codec s = AV_CODEC_ID_HEVC);
         a = si_type s = Media_audio \<and> \<not> audio \<and> cs_codec s = AV_CODEC_ID_AAC
     in if \<not> v \<and> \<not> a then Inl Invalid_argument
        else if \<exists>t \<in> set seen. si_index s = si_index t then Inl Invalid_argument
        else validate_tracks (seen @ [s]) (video \<or> v) (audio \<or> \<not> v) ss)"

text \<open>\<open>mp4\<close> tells whether the path names a file with extension \<^verbatim>\<open>.mp4\<close>.\<close>

definition Validate_rec :: "(string \<Rightarrow> bool) \<Rightarrow> coded_stream list \<Rightarrow> string \<Rightarrow> 64 word \<Rightarrow> unit result" where
  "Validate_rec mp4 ss path cap =
     (if path = [] \<or> CHR 0x00 \<in> set path \<or> sublist ''://'' path \<or> \<not> mp4 path \<or> cap = 0
      then Inl Invalid_argument
      else if ss = [] \<or> 2 < length ss then Inl Invalid_argument
      else validate_tracks [] False False ss)"

definition Start_rec ::
    "(string \<Rightarrow> bool) \<Rightarrow> bool \<Rightarrow> coded_stream list \<Rightarrow> string \<Rightarrow> 64 word \<Rightarrow> (('m, 'b) recorder, bool) act" where
  "Start_rec mp4 created ss path cap =
     andthen (gets (\<lambda>r. joinable (rc_thread r))) (\<lambda>busy.
     if busy then ret False
     else andthen (lift (Validate_rec mp4 ss path cap)) (\<lambda>_.
          andthen (modify (\<lambda>r. r\<lparr>rc_streams := ss, rc_path := path, rc_max := cap, rc_state := kRunning,
             rc_error := False, rc_queue_bytes := 0, rc_written := 0, rc_dropped := 0\<rparr>)) (\<lambda>_.
          andthen (gets (\<lambda>r. Thread_Start True created (rc_thread r))) (\<lambda>(ok, t).
          if ok then andthen (modify (\<lambda>r. r\<lparr>rc_thread := t, rc_point := R_open, rc_writer := None\<rparr>)) (\<lambda>_. ret True)
          else andthen (modify (\<lambda>r. r\<lparr>rc_state := kFailed, rc_error := True\<rparr>)) (\<lambda>_. ret False)))))"

section \<open>Submission\<close>

definition PacketBytes :: "64 word \<Rightarrow> av_packet \<Rightarrow> 64 word" where
  "PacketBytes header p = header + word_of_nat (length (pk_bytes p)) +
     sum_list (map (\<lambda>(_, d). word_of_nat (length d)) (pk_side p))"

definition TrySubmitPacket :: "64 word \<Rightarrow> packet \<Rightarrow> (('m, 'b) recorder, bool) act" where
  "TrySubmitPacket header p =
     andthen (gets rc_state) (\<lambda>st.
     if st \<noteq> kRunning then ret False
     else andthen (gets rc_streams) (\<lambda>ss.
          andthen (lift (case p of
              None \<Rightarrow> Inl Invalid_argument
            | Some k \<Rightarrow>
                if pk_bytes k = [] \<or> (pk_dts k = AV_NOPTS_VALUE \<and> pk_pts k = AV_NOPTS_VALUE) \<or>
                   (\<forall>s \<in> set ss. si_index s \<noteq> pk_stream k)
                then Inl Invalid_argument else Inr k)) (\<lambda>k.
          let bytes = PacketBytes header k in
          andthen (gets (\<lambda>r. rc_max r - rc_queue_bytes r)) (\<lambda>room.
          if room < bytes then andthen (modify (\<lambda>r. r\<lparr>rc_dropped := rc_dropped r + 1\<rparr>)) (\<lambda>_. ret False)
          else andthen (modify (\<lambda>r. r\<lparr>rc_queue := rc_queue r @ [k], rc_queue_bytes := rc_queue_bytes r + bytes\<rparr>)) (\<lambda>_.
               ret True)))))"

definition Drain_rec :: "('m, 'b) recorder \<Rightarrow> ('m, 'b) recorder" where
  "Drain_rec r = (if rc_state r = kRunning then r\<lparr>rc_state := kStopping\<rparr> else r)"

section \<open>The writer thread\<close>

definition Fail_rec :: "('m, 'b) recorder \<Rightarrow> ('m, 'b) recorder" where
  "Fail_rec r = r\<lparr>rc_state := kFailed, rc_error := True, rc_queue_bytes := 0, rc_queue := []\<rparr>"

text \<open>One program point of \<open>Run\<close>. \<open>None\<close>: the filter loop inside a write never returns.\<close>

definition worker_rec ::
    "av_lib \<Rightarrow> ('m, 'b) muxer \<Rightarrow> 64 word \<Rightarrow> ('m, 'b) recorder \<Rightarrow> ('m, 'b) recorder option" where
  "worker_rec L M header r =
     (case rc_point r of
        R_open \<Rightarrow> Some (case FileWriter M (rc_streams r) (rc_path r) of
            Inl _ \<Rightarrow> r\<lparr>rc_point := R_fail\<rparr>
          | Inr w \<Rightarrow> r\<lparr>rc_writer := Some w, rc_point := R_wait\<rparr>)
      | R_wait \<Rightarrow> Some (case rc_queue r of
            [] \<Rightarrow> if rc_state r \<noteq> kRunning then r\<lparr>rc_point := R_finish\<rparr> else r
          | p # ps \<Rightarrow> r\<lparr>rc_queue_bytes := rc_queue_bytes r - PacketBytes header p, rc_queue := ps,
                        rc_point := R_write p\<rparr>)
      | R_write p \<Rightarrow> (case rc_writer r of
            None \<Rightarrow> Some (r\<lparr>rc_point := R_fail\<rparr>)
          | Some w \<Rightarrow> (case Write L M p w of
                None \<Rightarrow> None
              | Some (Inl _, w') \<Rightarrow> Some (r\<lparr>rc_writer := Some w', rc_point := R_fail\<rparr>)
              | Some (Inr _, w') \<Rightarrow> Some (r\<lparr>rc_writer := Some w', rc_point := R_count\<rparr>)))
      | R_count \<Rightarrow> Some (r\<lparr>rc_written := rc_written r + 1, rc_point := R_wait\<rparr>)
      | R_finish \<Rightarrow> (case rc_writer r of
            None \<Rightarrow> Some (r\<lparr>rc_point := R_fail\<rparr>)
          | Some w \<Rightarrow> (case Finish_file L M w of
                None \<Rightarrow> None
              | Some (Inl _, w') \<Rightarrow> Some (r\<lparr>rc_writer := Some w', rc_point := R_fail\<rparr>)
              | Some (Inr _, w') \<Rightarrow> Some (r\<lparr>rc_writer := Some w', rc_point := R_stop\<rparr>)))
      | R_stop \<Rightarrow> Some (r\<lparr>rc_state := kStopped, rc_thread := Returned, rc_point := R_done\<rparr>)
      | R_fail \<Rightarrow> Some ((Fail_rec r)\<lparr>rc_thread := Returned, rc_point := R_done\<rparr>)
      | R_done \<Rightarrow> Some r)"

text \<open>\<open>Stop\<close> drains and joins; \<open>None\<close> while it has to wait.\<close>

definition Stop_rec :: "('m, 'b) recorder \<Rightarrow> ('m, 'b) recorder option" where
  "Stop_rec r = map_option (\<lambda>t. (Drain_rec r)\<lparr>rc_thread := t\<rparr>) (Thread_Join (rc_thread r))"

section \<open>Sessions\<close>

text \<open>
  A session from a successful \<open>Start\<close>, with the packets accepted and the packets written, in order.
\<close>

inductive recording ::
    "av_lib \<Rightarrow> ('m, 'b) muxer \<Rightarrow> 64 word \<Rightarrow> ('m, 'b) recorder \<Rightarrow> av_packet list \<Rightarrow> av_packet list \<Rightarrow> bool"
  for L M header where
  start: "rc_queue r = [] \<Longrightarrow> Start_rec mp4 True ss path cap r = (Inr True, s) \<Longrightarrow> recording L M header s [] []"
| submit: "recording L M header r acc out \<Longrightarrow> TrySubmitPacket header p r = (q, s) \<Longrightarrow>
    recording L M header s (if q = Inr True then acc @ [the p] else acc) out"
| drain: "recording L M header r acc out \<Longrightarrow> recording L M header (Drain_rec r) acc out"
| worker: "recording L M header r acc out \<Longrightarrow> worker_rec L M header r = Some s \<Longrightarrow>
    recording L M header s acc (case rc_point r of R_write p \<Rightarrow> if rc_point s = R_count then out @ [p] else out | _ \<Rightarrow> out)"

section \<open>Accounting\<close>

definition in_hand :: "rec_point \<Rightarrow> av_packet list" where
  "in_hand pt = (case pt of R_write p \<Rightarrow> [p] | _ \<Rightarrow> [])"

definition bytes_of :: "64 word \<Rightarrow> av_packet list \<Rightarrow> nat" where
  "bytes_of header ps = sum_list (map (unat \<circ> PacketBytes header) ps)"

lemma bytes_of_simps [simp]:
  "bytes_of h [] = 0" "bytes_of h (p # ps) = unat (PacketBytes h p) + bytes_of h ps"
  "bytes_of h (ps @ qs) = bytes_of h ps + bytes_of h qs"
  by (simp_all add: bytes_of_def)

definition alive :: "('m, 'b) recorder \<Rightarrow> bool" where
  "alive r \<longleftrightarrow> rc_point r \<notin> {R_fail, R_done}"

definition bytes_ok :: "64 word \<Rightarrow> ('m, 'b) recorder \<Rightarrow> bool" where
  "bytes_ok h r \<longleftrightarrow> unat (rc_queue_bytes r) = bytes_of h (rc_queue r) \<and> rc_queue_bytes r \<le> rc_max r"

definition tracks_known :: "('m, 'b) recorder \<Rightarrow> bool" where
  "tracks_known r \<longleftrightarrow>
     (\<forall>p \<in> set (rc_queue r @ in_hand (rc_point r)). \<exists>s \<in> set (rc_streams r). si_index s = pk_stream p)"

text \<open>Where the accepted packets are: written, in the writer's hands, queued, or lost to a failure.\<close>

definition ledger :: "('m, 'b) recorder \<Rightarrow> av_packet list \<Rightarrow> av_packet list \<Rightarrow> bool" where
  "ledger r acc out \<longleftrightarrow>
     (\<exists>lost. acc = out @ lost \<and>
        (alive r \<or> rc_state r = kStopped \<longrightarrow> lost = in_hand (rc_point r) @ rc_queue r)) \<and>
     (if rc_point r = R_count then rc_written r + 1 else rc_written r) = word_of_nat (length out)"

definition phase_ok :: "('m, 'b) recorder \<Rightarrow> bool" where
  "phase_ok r \<longleftrightarrow>
     (case rc_point r of
        R_open \<Rightarrow> True | R_fail \<Rightarrow> True
      | R_wait \<Rightarrow> rc_writer r \<noteq> None | R_write _ \<Rightarrow> rc_writer r \<noteq> None | R_count \<Rightarrow> rc_writer r \<noteq> None
      | R_finish \<Rightarrow> rc_writer r \<noteq> None \<and> rc_queue r = [] \<and> rc_state r = kStopping
      | R_stop \<Rightarrow> rc_queue r = [] \<and> rc_state r = kStopping
      | R_done \<Rightarrow> rc_queue r = []) \<and>
     (if rc_point r = R_done then rc_state r \<in> {kStopped, kFailed} \<and> rc_thread r = Returned
      else rc_state r \<in> {kRunning, kStopping} \<and> rc_thread r = Running)"

definition rec_inv :: "64 word \<Rightarrow> ('m, 'b) recorder \<Rightarrow> av_packet list \<Rightarrow> av_packet list \<Rightarrow> bool" where
  "rec_inv h r acc out \<longleftrightarrow> bytes_ok h r \<and> tracks_known r \<and> ledger r acc out \<and> phase_ok r"

lemmas inv_defs = bytes_ok_def tracks_known_def ledger_def phase_ok_def alive_def in_hand_def

lemma room_no_wrap:
  fixes q m b :: "64 word"
  assumes "q \<le> m" and "\<not> m - q < b"
  shows "unat (q + b) = unat q + unat b" and "q + b \<le> m"
proof -
  have "unat (m - q) = unat m - unat q" using assms(1) by (simp add: unat_sub)
  then have le: "unat q + unat b \<le> unat m"
    using assms by (simp add: word_le_nat_alt word_less_nat_alt not_less)
  have "unat m < 2 ^ LENGTH(64)" by (rule unsigned_less)
  with le show *: "unat (q + b) = unat q + unat b" by (simp add: unat_word_ariths)
  with le show "q + b \<le> m" by (simp add: word_le_nat_alt)
qed

lemma TrySubmit_cases:
  assumes "TrySubmitPacket h p r = (q, s)"
  shows "(\<exists>d. q \<noteq> Inr True \<and> s = r\<lparr>rc_dropped := d\<rparr>) \<or>
    (\<exists>k. q = Inr True \<and> p = Some k \<and> rc_state r = kRunning \<and> (\<exists>s \<in> set (rc_streams r). si_index s = pk_stream k) \<and>
       \<not> rc_max r - rc_queue_bytes r < PacketBytes h k \<and>
       s = r\<lparr>rc_queue := rc_queue r @ [k], rc_queue_bytes := rc_queue_bytes r + PacketBytes h k\<rparr>)"
proof (cases "q = Inr True")
  case False
  then have "s = r\<lparr>rc_dropped := rc_dropped s\<rparr>"
    using assms by (auto simp: TrySubmitPacket_def act_defs Let_def split: if_splits option.splits)
  with False show ?thesis by blast
next
  case True
  then show ?thesis
    using assms by (auto simp: TrySubmitPacket_def act_defs Let_def split: if_splits option.splits)
qed

lemma TrySubmit_inv:
  assumes "rec_inv h r acc out" and "TrySubmitPacket h p r = (q, s)"
  shows "rec_inv h s (if q = Inr True then acc @ [the p] else acc) out"
  using TrySubmit_cases [OF assms(2)]
proof (elim disjE exE conjE)
  fix d assume "q \<noteq> Inr True" "s = r\<lparr>rc_dropped := d\<rparr>"
  with assms(1) show ?thesis
    by (cases "rc_point r") (auto simp: rec_inv_def inv_defs)
next
  fix k
  assume k: "q = Inr True" "p = Some k" "rc_state r = kRunning" "\<exists>s \<in> set (rc_streams r). si_index s = pk_stream k"
    "\<not> rc_max r - rc_queue_bytes r < PacketBytes h k"
    "s = r\<lparr>rc_queue := rc_queue r @ [k], rc_queue_bytes := rc_queue_bytes r + PacketBytes h k\<rparr>"
  have le: "rc_queue_bytes r \<le> rc_max r" and inv: "bytes_ok h r" "tracks_known r" "ledger r acc out" "phase_ok r"
    using assms(1) by (auto simp: rec_inv_def bytes_ok_def)
  have "bytes_ok h s" using room_no_wrap [OF le k(5)] inv(1) by (simp add: bytes_ok_def k(6))
  moreover have "tracks_known s" using inv(2) k(4) by (auto simp: tracks_known_def k(6))
  moreover have "ledger s (acc @ [k]) out"
    using inv(3) k(3) by (auto simp: ledger_def alive_def k(6))
  moreover have "phase_ok s" using inv(4) k(3) by (auto simp: phase_ok_def k(6) split: rec_point.splits)
  ultimately show ?thesis by (simp add: rec_inv_def k(1,2))
qed

lemma Drain_inv: "rec_inv h r acc out \<Longrightarrow> rec_inv h (Drain_rec r) acc out"
  by (cases "rc_point r") (auto simp: Drain_rec_def rec_inv_def inv_defs)

lemma take_bytes:
  fixes q m b :: "64 word"
  assumes "unat q = unat b + n" and "q \<le> m"
  shows "unat (q - b) = n" and "q - b \<le> m"
proof -
  have "b \<le> q" using assms(1) by (simp add: word_le_nat_alt)
  then show "unat (q - b) = n" using assms(1) by (simp add: unat_sub)
  then show "q - b \<le> m" using assms by (simp add: word_le_nat_alt)
qed

lemma worker_inv_rec:
  assumes "rec_inv h r acc out" and "worker_rec L M h r = Some s"
  shows "rec_inv h s acc (case rc_point r of R_write p \<Rightarrow> if rc_point s = R_count then out @ [p] else out | _ \<Rightarrow> out)"
proof (cases "rc_point r")
  case R_open
  with assms show ?thesis
    by (cases "FileWriter M (rc_streams r) (rc_path r)")
      (auto simp: worker_rec_def rec_inv_def inv_defs)
next
  case R_wait
  show ?thesis
  proof (cases "rc_queue r")
    case Nil
    with R_wait assms show ?thesis
      by (cases "rc_state r") (auto simp: worker_rec_def rec_inv_def inv_defs)
  next
    case (Cons p ps)
    with R_wait assms have s: "s = r\<lparr>rc_queue_bytes := rc_queue_bytes r - PacketBytes h p, rc_queue := ps,
        rc_point := R_write p\<rparr>" by (simp add: worker_rec_def)
    have "bytes_ok h r" using assms(1) by (simp add: rec_inv_def)
    then have "bytes_ok h s"
      using take_bytes [of "rc_queue_bytes r" "PacketBytes h p" "bytes_of h ps" "rc_max r"] Cons
      by (simp add: bytes_ok_def s)
    moreover have "tracks_known s \<and> ledger s acc out \<and> phase_ok s"
      using assms(1) Cons R_wait unfolding s by (auto simp: rec_inv_def inv_defs)
    ultimately show ?thesis using R_wait by (simp add: rec_inv_def)
  qed
next
  case (R_write p)
  then obtain w where w: "rc_writer r = Some w" using assms(1) by (auto simp: rec_inv_def inv_defs)
  with R_write assms(2) obtain e w' where "Write L M p w = Some (e, w')"
    and s: "s = r\<lparr>rc_writer := Some w', rc_point := (case e of Inl _ \<Rightarrow> R_fail | Inr _ \<Rightarrow> R_count)\<rparr>"
    by (auto simp: worker_rec_def split: option.splits prod.splits sum.splits)
  with R_write assms(1) show ?thesis
    by (cases e) (auto simp: rec_inv_def inv_defs)
next
  case R_count
  with assms show ?thesis by (auto simp: worker_rec_def rec_inv_def inv_defs)
next
  case R_finish
  then obtain w where w: "rc_writer r = Some w" using assms(1) by (auto simp: rec_inv_def inv_defs)
  with R_finish assms(2) obtain e w' where "Finish_file L M w = Some (e, w')"
    and s: "s = r\<lparr>rc_writer := Some w', rc_point := (case e of Inl _ \<Rightarrow> R_fail | Inr _ \<Rightarrow> R_stop)\<rparr>"
    by (auto simp: worker_rec_def split: option.splits prod.splits sum.splits)
  with R_finish assms(1) show ?thesis
    by (cases e) (auto simp: rec_inv_def inv_defs)
next
  case R_stop
  with assms show ?thesis by (auto simp: worker_rec_def rec_inv_def inv_defs)
next
  case R_fail
  with assms show ?thesis by (auto simp: worker_rec_def Fail_rec_def rec_inv_def inv_defs)
next
  case R_done
  with assms show ?thesis by (simp add: worker_rec_def)
qed

lemma Start_cases:
  assumes "Start_rec mp4 True ss path cap r = (Inr True, s)"
  shows "Validate_rec mp4 ss path cap = Inr () \<and> s = r\<lparr>rc_streams := ss, rc_path := path, rc_max := cap,
    rc_state := kRunning, rc_error := False, rc_queue_bytes := 0, rc_written := 0, rc_dropped := 0,
    rc_thread := Running, rc_point := R_open, rc_writer := None\<rparr>"
  using assms by (auto simp: Start_rec_def act_defs Thread_Start_def split: if_splits sum.splits)

lemma recording_inv: "recording L M h r acc out \<Longrightarrow> rec_inv h r acc out"
proof (induction rule: recording.induct)
  case (start r mp4 ss path cap s)
  then show ?case using Start_cases [OF start(2)] by (simp add: rec_inv_def inv_defs)
next
  case (submit r acc out p q s)
  then show ?case using TrySubmit_inv by blast
next
  case (drain r acc out)
  then show ?case by (simp add: Drain_inv)
next
  case (worker r acc out s)
  then show ?case using worker_inv_rec by blast
qed

section \<open>Draining\<close>

text \<open>How many steps of the writer remain once submissions are refused.\<close>

definition remaining :: "('m, 'b) recorder \<Rightarrow> nat" where
  "remaining r = 3 * length (rc_queue r) +
     (case rc_point r of R_open \<Rightarrow> 4 | R_wait \<Rightarrow> 3 | R_write _ \<Rightarrow> 5 | R_count \<Rightarrow> 4 | R_finish \<Rightarrow> 2
      | R_stop \<Rightarrow> 1 | R_fail \<Rightarrow> 1 | R_done \<Rightarrow> 0)"

text \<open>Contract of the ADTS filter: it runs dry after every packet and at the end.\<close>

definition filter_returns :: "av_lib \<Rightarrow> ('m, 'b) muxer \<Rightarrow> bool" where
  "filter_returns L M \<longleftrightarrow> (\<forall>p w. Write L M p w \<noteq> None) \<and> (\<forall>w. Finish_file L M w \<noteq> None)"

fun worker_steps ::
    "av_lib \<Rightarrow> ('m, 'b) muxer \<Rightarrow> 64 word \<Rightarrow> nat \<Rightarrow> ('m, 'b) recorder \<Rightarrow> ('m, 'b) recorder option" where
  "worker_steps L M h 0 r = Some r"
| "worker_steps L M h (Suc n) r = (case worker_rec L M h r of None \<Rightarrow> None | Some s \<Rightarrow> worker_steps L M h n s)"

lemma worker_progress:
  assumes "rec_inv h r acc out" and "rc_state r \<noteq> kRunning" and "rc_point r \<noteq> R_done" and "filter_returns L M"
  shows "\<exists>s. worker_rec L M h r = Some s \<and> remaining s < remaining r \<and> rc_state s \<noteq> kRunning"
proof (cases "rc_point r")
  case R_open
  with assms show ?thesis
    by (cases "FileWriter M (rc_streams r) (rc_path r)") (simp_all add: worker_rec_def remaining_def)
next
  case R_wait
  with assms show ?thesis by (cases "rc_queue r") (simp_all add: worker_rec_def remaining_def)
next
  case (R_write p)
  then obtain w where "rc_writer r = Some w" using assms(1) by (auto simp: rec_inv_def inv_defs)
  moreover have "Write L M p w \<noteq> None" using assms(4) unfolding filter_returns_def by blast
  then obtain e w' where "Write L M p w = Some (e, w')" by (metis not_None_eq surj_pair)
  ultimately show ?thesis using R_write assms(2) by (cases e) (simp_all add: worker_rec_def remaining_def)
next
  case R_count
  with assms show ?thesis by (simp add: worker_rec_def remaining_def)
next
  case R_finish
  then obtain w where "rc_writer r = Some w" using assms(1) by (auto simp: rec_inv_def inv_defs)
  moreover have "Finish_file L M w \<noteq> None" using assms(4) unfolding filter_returns_def by blast
  then obtain e w' where "Finish_file L M w = Some (e, w')" by (metis not_None_eq surj_pair)
  ultimately show ?thesis using R_finish assms(2) by (cases e) (simp_all add: worker_rec_def remaining_def)
qed (use assms in \<open>simp_all add: worker_rec_def remaining_def Fail_rec_def\<close>)

lemma worker_drains:
  assumes "recording L M h r acc out" and "rc_state r \<noteq> kRunning" and "filter_returns L M" and "remaining r \<le> n"
  shows "\<exists>s out'. worker_steps L M h n r = Some s \<and> rc_point s = R_done \<and> recording L M h s acc out'"
  using assms(1,2,4)
proof (induction n arbitrary: r out)
  case 0
  then have "rc_point r = R_done" by (cases "rc_point r") (simp_all add: remaining_def)
  with 0 show ?case by auto
next
  case (Suc n)
  show ?case
  proof (cases "rc_point r = R_done")
    case True
    then have "worker_rec L M h r = Some r" "remaining r = 0"
      using recording_inv [OF Suc.prems(1)] by (auto simp: worker_rec_def remaining_def rec_inv_def inv_defs)
    with Suc.IH [OF Suc.prems(1,2)] show ?thesis by simp
  next
    case False
    from worker_progress [OF recording_inv [OF Suc.prems(1)] Suc.prems(2) False assms(3)]
    obtain s where s: "worker_rec L M h r = Some s" "remaining s < remaining r" "rc_state s \<noteq> kRunning" by blast
    from Suc.IH [OF recording.worker [OF Suc.prems(1) s(1)] s(3)] s(1,2) Suc.prems(3) show ?thesis by simp
  qed
qed

section \<open>Properties\<close>

text \<open>A fixed schedule of calls and steps of the writer, with the two histories.\<close>

datatype rec_call = Submit av_packet | Ask_drain | Work

fun exec_rec ::
    "av_lib \<Rightarrow> ('m, 'b) muxer \<Rightarrow> 64 word \<Rightarrow> rec_call list \<Rightarrow>
     ('m, 'b) recorder \<times> av_packet list \<times> av_packet list \<Rightarrow> ('m, 'b) recorder \<times> av_packet list \<times> av_packet list" where
  "exec_rec L M h [] x = x"
| "exec_rec L M h (Submit p # cs) (r, acc, out) =
     (case TrySubmitPacket h (Some p) r of (q, s) \<Rightarrow>
        exec_rec L M h cs (s, if q = Inr True then acc @ [p] else acc, out))"
| "exec_rec L M h (Ask_drain # cs) (r, acc, out) = exec_rec L M h cs (Drain_rec r, acc, out)"
| "exec_rec L M h (Work # cs) (r, acc, out) =
     (case worker_rec L M h r of
        None \<Rightarrow> (r, acc, out)
      | Some s \<Rightarrow> exec_rec L M h cs (s, acc,
          case rc_point r of R_write p \<Rightarrow> if rc_point s = R_count then out @ [p] else out | _ \<Rightarrow> out))"

lemma exec_recording:
  "recording L M h r acc out \<Longrightarrow> exec_rec L M h cs (r, acc, out) = (s, acc', out') \<Longrightarrow>
   recording L M h s acc' out'"
proof (induction cs arbitrary: r acc out)
  case (Cons c cs)
  show ?case
  proof (cases c)
    case (Submit p)
    obtain q t where q: "TrySubmitPacket h (Some p) r = (q, t)" by (cases "TrySubmitPacket h (Some p) r")
    from Cons.IH [OF recording.submit [OF Cons.prems(1) q]] Cons.prems(2) Submit q show ?thesis
      by (simp only: exec_rec.simps prod.case option.sel)
  next
    case Ask_drain
    with recording.drain [OF Cons.prems(1)] Cons show ?thesis by simp
  next
    case Work
    show ?thesis
    proof (cases "worker_rec L M h r")
      case None
      with Work Cons.prems show ?thesis by simp
    next
      case (Some t)
      with recording.worker [OF Cons.prems(1) Some] Work Cons show ?thesis by simp
    qed
  qed
qed simp

definition demo_recorder :: "(av_packet list, unit) recorder" where
  "demo_recorder = snd (Start_rec (\<lambda>_. True) True (fw_streams sample_writer) ''a.mp4'' 300 Recorder_new)"

definition demo_recording :: "(av_packet list, unit) recorder \<times> av_packet list \<times> av_packet list" where
  "demo_recording = exec_rec ref_lib sample_muxer 104
     [Submit (sample_timed 0 9000), Submit (sample_timed 1 0), Submit (sample_timed 0 12000), Work, Work, Work,
      Ask_drain, Submit (sample_timed 0 15000)]
     (demo_recorder, [], [])"

lemma demo_recording:
  "demo_recording = (r, acc, out) \<Longrightarrow> recording ref_lib sample_muxer 104 r acc out"
proof -
  have "fst (Start_rec (\<lambda>_. True) True (fw_streams sample_writer) ''a.mp4'' 300
      (Recorder_new :: (av_packet list, unit) recorder)) = Inr True" by code_simp
  then have "Start_rec (\<lambda>_. True) True (fw_streams sample_writer) ''a.mp4'' 300 Recorder_new = (Inr True, demo_recorder)"
    by (simp add: demo_recorder_def prod_eq_iff)
  then have "recording ref_lib sample_muxer 104 demo_recorder [] []"
    by (rule recording.start [rotated]) (simp add: Recorder_new_def)
  then show "demo_recording = (r, acc, out) \<Longrightarrow> recording ref_lib sample_muxer 104 r acc out"
    unfolding demo_recording_def by (rule exec_recording)
qed

text \<open>
  C7: The recorder keeps exact accounts. In every session, under any interleaving: the byte count
  equals the sizes of the queued packets (the 64-bit subtraction that decides about room never
  wraps) and stays within the limit; what was written is a prefix of what was accepted, in order;
  until a failure the accepted packets are the written ones, the one in the writer's hands and the
  queued ones; and in the state \<open>kStopped\<close> every accepted packet has been written.
\<close>

theorem recorder_accounts:
  assumes "recording L M h r acc out"
  shows "unat (rc_queue_bytes r) = sum_list (map (unat \<circ> PacketBytes h) (rc_queue r)) \<and>
    rc_queue_bytes r \<le> rc_max r \<and> prefix out acc \<and>
    (rc_point r \<notin> {R_fail, R_done} \<longrightarrow> acc = out @ in_hand (rc_point r) @ rc_queue r) \<and>
    (rc_state r = kStopped \<longrightarrow> acc = out) \<and>
    (rc_point r \<noteq> R_count \<longrightarrow> rc_written r = word_of_nat (length out))"
  using recording_inv [OF assms]
  by (cases "rc_point r") (auto simp: rec_inv_def inv_defs bytes_of_def)

theorem recorder_accounts_witness:
  "let (r, acc, out) = demo_recording
   in rc_queue_bytes r = 107 \<and> length acc = 2 \<and> length out = 1 \<and> rc_dropped r = 1 \<and> prefix out acc"
proof -
  obtain r acc out where d: "demo_recording = (r, acc, out)" by (cases demo_recording)
  have "rc_queue_bytes (fst demo_recording) = 107 \<and> length (fst (snd demo_recording)) = 2 \<and>
      length (snd (snd demo_recording)) = 1 \<and> rc_dropped (fst demo_recording) = 1" by code_simp
  then show ?thesis using recorder_accounts [OF demo_recording [OF d]] unfolding d by (simp add: Let_def)
qed


lemma sample_filter_returns: "filter_returns ref_lib sample_muxer"
proof -
  have a: "receive_all ref_lib sample_muxer b w \<noteq> None" for b and w :: "(av_packet list, unit) file_writer"
    by (subst receive_all.simps) (simp add: sample_muxer_def)
  then have "WriteAudio ref_lib sample_muxer p b w \<noteq> None" for p b and w :: "(av_packet list, unit) file_writer"
    by (auto simp: WriteAudio_def split: prod.splits sum.splits)
  then show ?thesis
    unfolding filter_returns_def
    by (auto simp: Write_def Finish_file_def Let_def split: option.splits sum.splits prod.splits if_splits)
qed


end
