(* ===== verification/Output_Registration.thy ===== *)
theory Output_Registration
  imports Mw_Prelude "HOL-Library.Sublist"
begin

text \<open>
  The registration half of \<^verbatim>\<open>remuxer/remux_output.cc\<close>: which outputs a session has. Push targets
  and recordings may be many, RTSP and HLS publications are unique. URLs are built as the source
  formats them. The file system and the clock are parameters of \<open>RecordingPath\<close>; a path is a POSIX
  path, whose last component ends at the last slash.
\<close>

section \<open>Entries\<close>

datatype output_kind = kPush | kRtsp | kHls | kRecording

record out_entry =
  en_kind :: output_kind
  en_original :: string
  en_actual :: string
  en_app :: string
  en_stream :: string
  en_ip :: string
  en_port :: nat
  en_tls :: bool

definition blank_entry :: "output_kind \<Rightarrow> out_entry" where
  "blank_entry k = \<lparr>en_kind = k, en_original = [], en_actual = [], en_app = [], en_stream = [], en_ip = [],
     en_port = 0, en_tls = False\<rparr>"

record output_info =
  output_urls :: "string list"
  rtsp_url :: string
  hls_url :: string

record remuxer_config =
  rx_app :: string
  rx_stream :: string
  recording_queue_bytes :: "64 word"

section \<open>Names\<close>

definition segment_char :: "char \<Rightarrow> bool" where
  "segment_char c \<longleftrightarrow>
     (let n = of_char c :: nat in
      (97 \<le> n \<and> n \<le> 122) \<or> (65 \<le> n \<and> n \<le> 90) \<or> (48 \<le> n \<and> n \<le> 57) \<or> c \<in> set ''_-.'')"

definition ValidSegment :: "string \<Rightarrow> bool" where
  "ValidSegment s \<longleftrightarrow> s \<noteq> [] \<and> s \<noteq> ''.'' \<and> s \<noteq> ''..'' \<and> list_all segment_char s"

definition ValidatePublish :: "output_kind \<Rightarrow> string \<Rightarrow> string \<Rightarrow> string \<Rightarrow> nat \<Rightarrow> unit result" where
  "ValidatePublish k app stream ip port =
     (if k = kRtsp then
        if app = [] \<or> stream = [] \<or> ip = [] \<or> port = 0 \<or> CHR ''/'' \<in> set app \<or> CHR 0x5C \<in> set app \<or>
           CHR ''/'' \<in> set stream \<or> CHR 0x5C \<in> set stream
        then Inl Invalid_argument else Inr ()
      else if \<not> ValidSegment app \<or> \<not> ValidSegment stream \<or> ip = [] \<or> port = 0 then Inl Invalid_argument
      else Inr ())"

text \<open>The last component of a path, its extension and its stem.\<close>

definition filename :: "string \<Rightarrow> string" where
  "filename p = rev (takeWhile (\<lambda>c. c \<noteq> CHR ''/'') (rev p))"

definition parent_path :: "string \<Rightarrow> string" where
  "parent_path p = rev (tl (dropWhile (\<lambda>c. c \<noteq> CHR ''/'') (rev p)))"

definition extension :: "string \<Rightarrow> string" where
  "extension p =
     (let f = filename p; ext = rev (takeWhile (\<lambda>c. c \<noteq> CHR ''.'') (rev f)); n = length f - length ext in
      if f = ''.'' \<or> f = ''..'' \<or> CHR ''.'' \<notin> set f \<or> n = 1 then [] else CHR ''.'' # ext)"

definition stem :: "string \<Rightarrow> string" where
  "stem p = take (length (filename p) - length (extension p)) (filename p)"

datatype schema = S_rtsp | S_rtmp | S_ts | S_file

definition Schema :: "string \<Rightarrow> schema result" where
  "Schema url =
     (if prefix ''rtsp://'' url \<or> prefix ''rtsps://'' url then Inr S_rtsp
      else if prefix ''rtmp://'' url \<or> prefix ''rtmps://'' url then Inr S_rtmp
      else if prefix ''srt://'' url then Inr S_ts
      else if \<not> sublist ''://'' url \<and> extension url = ''.mp4'' then Inr S_file
      else Inl Invalid_argument)"

section \<open>Decimal numbers\<close>

fun digits :: "nat \<Rightarrow> string" where
  "digits n = (if n < 10 then [char_of (48 + n)] else digits (n div 10) @ [char_of (48 + n mod 10)])"

declare digits.simps [simp del]

section \<open>Preparation\<close>

text \<open>The configuration; an empty stream name is replaced by one made from a process-wide counter.\<close>

definition PrepareConfig :: "nat \<Rightarrow> remuxer_config \<Rightarrow> remuxer_config result \<times> nat" where
  "PrepareConfig next_source_id c =
     (if recording_queue_bytes c = 0 then (Inl Invalid_argument, next_source_id)
      else let n = (if rx_stream c = [] then next_source_id + 1 else next_source_id);
               c = (if rx_stream c = [] then c\<lparr>rx_stream := ''stream_'' @ digits n\<rparr> else c)
           in if \<not> ValidSegment (rx_app c) \<or> \<not> ValidSegment (rx_stream c) then (Inl Invalid_argument, n)
              else (Inr c, n))"

text \<open>
  The recording path: a free name made from the stem, the time and a process-wide counter. \<open>None\<close>
  if no name is ever free.
\<close>

record file_system =
  fs_absolute :: "string \<Rightarrow> string"
  fs_exists :: "string \<Rightarrow> bool"
  fs_time :: string

definition candidate :: "file_system \<Rightarrow> string \<Rightarrow> nat \<Rightarrow> string" where
  "candidate F path n =
     (let s = fs_absolute F path in
      parent_path s @ ''/'' @ stem s @ ''_'' @ fs_time F @ ''_'' @ digits n @ extension s)"

partial_function (option) RecordingPath :: "file_system \<Rightarrow> string \<Rightarrow> nat \<Rightarrow> (string \<times> nat) option" where
  "RecordingPath F path n =
     (if fs_exists F (candidate F path (n + 1)) then RecordingPath F path (n + 1)
      else Some (candidate F path (n + 1), n + 1))"

definition PreparePush :: "file_system \<Rightarrow> string \<Rightarrow> nat \<Rightarrow> (out_entry result \<times> nat) option" where
  "PreparePush F url n =
     (case Schema url of
        Inl e \<Rightarrow> Some (Inl e, n)
      | Inr sc \<Rightarrow>
          if sc = S_file
          then map_option (\<lambda>(p, n). (Inr ((blank_entry kRecording)\<lparr>en_original := url, en_actual := p\<rparr>), n))
                 (RecordingPath F url n)
          else Some (Inr ((blank_entry kPush)\<lparr>en_original := url, en_actual := url\<rparr>), n))"

definition publish_url :: "output_kind \<Rightarrow> string \<Rightarrow> string \<Rightarrow> string \<Rightarrow> nat \<Rightarrow> bool \<Rightarrow> string" where
  "publish_url k app stream ip port tls =
     (let host = (if CHR '':'' \<in> set ip then ''['' @ ip @ '']'' else ip);
          scheme = (if k = kRtsp then if tls then ''rtsps'' else ''rtsp'' else if tls then ''https'' else ''http'')
      in scheme @ ''://'' @ host @ '':'' @ digits port @ ''/'' @ app @ ''/'' @ stream @
         (if k = kHls then ''/hls.m3u8'' else []))"

definition PreparePublish ::
    "output_kind \<Rightarrow> string \<Rightarrow> string \<Rightarrow> string \<Rightarrow> nat \<Rightarrow> bool \<Rightarrow> out_entry result" where
  "PreparePublish k app stream ip port tls =
     chain (ValidatePublish k app stream ip port) (\<lambda>_.
     Inr \<lparr>en_kind = k, en_original = [], en_actual = publish_url k app stream ip port tls, en_app = app,
          en_stream = stream, en_ip = ip, en_port = port, en_tls = tls\<rparr>)"

section \<open>The registration\<close>

definition is_target :: "out_entry \<Rightarrow> bool" where
  "is_target e \<longleftrightarrow> en_kind e = kPush \<or> en_kind e = kRecording"

definition FindPush :: "string \<Rightarrow> out_entry list \<Rightarrow> out_entry option" where
  "FindPush url es = List.find (\<lambda>e. is_target e \<and> en_original e = url) es"

definition Add_entry :: "out_entry \<Rightarrow> out_entry list \<Rightarrow> out_entry list result" where
  "Add_entry e es =
     (if \<not> is_target e \<and> (\<exists>x \<in> set es. en_kind x = en_kind e) then Inl Logic_error else Inr (es @ [e]))"

definition add_info :: "out_entry \<Rightarrow> output_info \<Rightarrow> output_info" where
  "add_info e i =
     (case en_kind e of
        kPush \<Rightarrow> i\<lparr>output_urls := output_urls i @ [en_actual e]\<rparr>
      | kRecording \<Rightarrow> i\<lparr>output_urls := output_urls i @ [en_actual e]\<rparr>
      | kRtsp \<Rightarrow> i\<lparr>rtsp_url := en_actual e\<rparr>
      | kHls \<Rightarrow> i\<lparr>hls_url := en_actual e\<rparr>)"

definition info :: "out_entry list \<Rightarrow> output_info" where
  "info es = fold add_info es \<lparr>output_urls = [], rtsp_url = [], hls_url = []\<rparr>"

section \<open>Lemmas\<close>

lemma info_snoc: "info (es @ [e]) = add_info e (info es)"
  by (simp add: info_def)

definition single :: "output_kind \<Rightarrow> out_entry list \<Rightarrow> bool" where
  "single k es \<longleftrightarrow> length (filter (\<lambda>e. en_kind e = k) es) \<le> 1"

lemma Add_single:
  assumes "Add_entry e es = Inr es'" and "single k es" and "k = kRtsp \<or> k = kHls"
  shows "single k es'"
proof (cases "en_kind e = k")
  case True
  with assms(3) have "\<not> is_target e" by (auto simp: is_target_def)
  with assms(1) True have "\<forall>x \<in> set es. en_kind x \<noteq> k" and e: "es' = es @ [e]"
    by (auto simp: Add_entry_def split: if_splits)
  then have "filter (\<lambda>e. en_kind e = k) es = []" by (simp add: filter_empty_conv)
  with e show ?thesis by (simp add: single_def)
next
  case False
  with assms(1,2) show ?thesis by (auto simp: Add_entry_def single_def split: if_splits)
qed

lemma Add_urls:
  assumes "Add_entry e es = Inr es'"
  shows "output_urls (info es') = output_urls (info es) @ (if is_target e then [en_actual e] else [])"
  using assms by (auto simp: Add_entry_def info_snoc add_info_def is_target_def split: if_splits output_kind.splits)

lemma info_urls: "output_urls (info es) = map en_actual (filter is_target es)"
proof (induction es rule: rev_induct)
  case (snoc e es)
  then show ?case by (auto simp: info_snoc add_info_def is_target_def split: output_kind.splits)
qed (simp add: info_def)

lemma find_append: "List.find P (xs @ ys) = (case List.find P xs of None \<Rightarrow> List.find P ys | Some x \<Rightarrow> Some x)"
  by (induction xs) auto

lemma RecordingPath_result:
  assumes "RecordingPath F path n = Some q"
  shows "n < snd q \<and> fst q = candidate F path (snd q) \<and> \<not> fs_exists F (fst q)"
proof (rule RecordingPath.raw_induct [where P = "\<lambda>F path n q. n < snd q \<and> fst q = candidate F path (snd q) \<and>
    \<not> fs_exists F (fst q)", OF _ assms])
  fix rp F path n q
  assume step: "\<And>F path n q. rp F path n = Some q \<Longrightarrow>
      n < snd q \<and> fst q = candidate F path (snd q) \<and> \<not> fs_exists F (fst q)"
    and body: "(if fs_exists F (candidate F path (n + 1)) then rp F path (n + 1)
      else Some (candidate F path (n + 1), n + 1)) = Some q"
  show "n < snd q \<and> fst q = candidate F path (snd q) \<and> \<not> fs_exists F (fst q)"
  proof (cases "fs_exists F (candidate F path (n + 1))")
    case True
    then have "rp F path (n + 1) = Some q" using body by (simp only: if_True)
    from step [OF this] show ?thesis by (elim conjE, intro conjI) (linarith | assumption)+
  next
    case False
    with body show ?thesis by auto
  qed
qed

text \<open>Decimal printing is injective, so no two counters give the same name.\<close>

fun value_of :: "string \<Rightarrow> nat" where
  "value_of s = foldl (\<lambda>n c. 10 * n + (of_char c - 48)) 0 s"

declare value_of.simps [simp del]

lemma value_digits: "value_of (digits n) = n"
proof (induction n rule: digits.induct)
  case (1 n)
  show ?case
  proof (cases "n < 10")
    case True
    then show ?thesis by (subst digits.simps) (simp add: value_of.simps of_char_of)
  next
    case False
    then have "value_of (digits n) = 10 * value_of (digits (n div 10)) + n mod 10"
      by (subst digits.simps) (simp add: value_of.simps of_char_of)
    with 1 False show ?thesis by simp
  qed
qed

lemma digits_inj [simp]: "digits m = digits n \<longleftrightarrow> m = n"
  by (metis value_digits)

lemma candidate_inj: "candidate F path m = candidate F path n \<longleftrightarrow> m = n"
  by (auto simp: candidate_def Let_def)

section \<open>Properties\<close>

text \<open>All requests in order; a rejected one leaves the registration as it was.\<close>

definition register_all :: "out_entry list \<Rightarrow> out_entry list" where
  "register_all reqs = fold (\<lambda>e es. case Add_entry e es of Inl _ \<Rightarrow> es | Inr es' \<Rightarrow> es') reqs []"

lemma register_all_snoc:
  "register_all (reqs @ [e]) = (case Add_entry e (register_all reqs) of Inl _ \<Rightarrow> register_all reqs | Inr es \<Rightarrow> es)"
  by (simp add: register_all_def split: sum.split)

text \<open>
  Registration keeps what may be many and refuses what must be unique. Whatever outputs are
  requested in whatever order, every push target and recording is registered and reported in order,
  while at most one RTSP and one HLS publication exist.
\<close>

theorem registration_unique:
  "filter is_target (register_all reqs) = filter is_target reqs \<and>
   output_urls (info (register_all reqs)) = map en_actual (filter is_target reqs) \<and>
   single kRtsp (register_all reqs) \<and> single kHls (register_all reqs)"
proof -
  have "filter is_target (register_all reqs) = filter is_target reqs \<and>
      single kRtsp (register_all reqs) \<and> single kHls (register_all reqs)"
  proof (induction reqs rule: rev_induct)
    case Nil
    show ?case by (simp add: register_all_def single_def)
  next
    case (snoc e reqs)
    show ?case
    proof (cases "Add_entry e (register_all reqs)")
      case (Inl x)
      then have "\<not> is_target e" by (auto simp: Add_entry_def split: if_splits)
      with Inl snoc show ?thesis by (simp add: register_all_snoc)
    next
      case (Inr es)
      then have "es = register_all reqs @ [e]" by (auto simp: Add_entry_def split: if_splits)
      with Inr snoc Add_single [OF Inr] show ?thesis by (simp add: register_all_snoc)
    qed
  qed
  then show ?thesis by (simp add: info_urls)
qed

text \<open>
  Recordings never share a file. Two recordings to the same target get different names even
  when the first file does not exist yet, and neither name is that of an existing file.
\<close>

theorem recordings_distinct:
  assumes "RecordingPath F path n = Some (p, m)" and "RecordingPath F path m = Some (q, k)"
  shows "p \<noteq> q \<and> \<not> fs_exists F p \<and> \<not> fs_exists F q"
  using RecordingPath_result [OF assms(1)] RecordingPath_result [OF assms(2)]
  by (metis candidate_inj fst_conv snd_conv less_irrefl)

definition sample_fs :: file_system where
  "sample_fs = \<lparr>fs_absolute = (\<lambda>p. ''/rec/'' @ p), fs_exists = (\<lambda>p. p = ''/rec/a_noon_1.mp4''), fs_time = ''noon''\<rparr>"

theorem recordings_distinct_witness:
  "RecordingPath sample_fs ''a.mp4'' 0 = Some (''/rec/a_noon_2.mp4'', 2) \<and>
   RecordingPath sample_fs ''a.mp4'' 2 = Some (''/rec/a_noon_3.mp4'', 3) \<and>
   ''/rec/a_noon_2.mp4'' \<noteq> ''/rec/a_noon_3.mp4''"
proof -
  have c: "candidate sample_fs ''a.mp4'' (0 + 1) = ''/rec/a_noon_1.mp4''" "candidate sample_fs ''a.mp4'' (1 + 1) = ''/rec/a_noon_2.mp4''"
    "candidate sample_fs ''a.mp4'' (2 + 1) = ''/rec/a_noon_3.mp4''" by code_simp+
  have e: "fs_exists sample_fs ''/rec/a_noon_1.mp4'' = True" "fs_exists sample_fs ''/rec/a_noon_2.mp4'' = False"
    "fs_exists sample_fs ''/rec/a_noon_3.mp4'' = False" by (simp_all add: sample_fs_def)
  have 1: "RecordingPath sample_fs ''a.mp4'' (0 + 1) = Some (''/rec/a_noon_2.mp4'', 1 + 1)"
    by (subst RecordingPath.simps) (simp only: c e if_False add_0)
  have "RecordingPath sample_fs ''a.mp4'' 0 = Some (''/rec/a_noon_2.mp4'', 1 + 1)"
    by (subst RecordingPath.simps) (simp only: c e if_True 1)
  then have "RecordingPath sample_fs ''a.mp4'' 0 = Some (''/rec/a_noon_2.mp4'', 2)" by simp
  moreover have "RecordingPath sample_fs ''a.mp4'' 2 = Some (''/rec/a_noon_3.mp4'', 2 + 1)"
    by (subst RecordingPath.simps) (simp only: c e if_False)
  then have "RecordingPath sample_fs ''a.mp4'' 2 = Some (''/rec/a_noon_3.mp4'', 3)" by simp
  ultimately show ?thesis using recordings_distinct by blast
qed

end
