(* ===== verification/Remux_Output.thy ===== *)
theory Remux_Output
  imports Output_Registration Packet_Converter
begin

text \<open>
  The session half of \<^verbatim>\<open>remuxer/remux_output.cc\<close>: \<open>RemuxOutput\<close> and the process-wide tables it
  shares with every other session, the published paths and the listeners.

  \<open>world\<close> is the state at namespace scope, \<open>remux_output\<close> one object. A listener is kept by a weak
  pointer: it is alive as long as some session holds the server, which the predicate \<open>alive\<close> of
  \<open>Listen\<close> says. ZLM's muxer is a value of \<open>'z\<close>, reached through \<open>zlm_muxer\<close>; whether a socket
  can be bound, a certificate is configured or a pusher can be created are parameters too.
\<close>

section \<open>State\<close>

datatype protocol = P_rtsp | P_rtsps | P_http | P_https

type_synonym endpoint = "string \<times> nat"
type_synonym server = nat

record world =
  w_paths :: "(string \<times> string) set"
  w_listeners :: "endpoint \<Rightarrow> (server \<times> protocol) option"
  w_next :: server

record push_target =
  pt_url :: string
  pt_schema :: schema
  pt_pusher :: bool

record 'z remux_output =
  ro_app :: string
  ro_stream :: string
  ro_muxer :: "'z option"
  ro_closed :: bool
  ro_targets :: "push_target list"
  ro_registered :: "schema list"
  ro_hls_server :: "server option"
  ro_server :: "server option"
  ro_path :: "(string \<times> string) option"

record ('z, 't) zlm_muxer =
  zm_new :: "string \<Rightarrow> string \<Rightarrow> bool \<Rightarrow> nat \<Rightarrow> 'z"
  zm_add_track :: "'t \<Rightarrow> 'z \<Rightarrow> bool \<times> 'z"
  zm_complete :: "'z \<Rightarrow> 'z"
  zm_input :: "zlm_frame \<Rightarrow> 'z \<Rightarrow> unit result \<times> 'z"
  zm_ready :: "'z \<Rightarrow> bool"
  zm_flush :: "'z \<Rightarrow> unit result \<times> 'z"
  zm_hls :: "'z \<Rightarrow> bool \<times> 'z"
  zm_pusher :: "string \<Rightarrow> schema \<Rightarrow> 'z \<Rightarrow> unit result"
  zm_audio :: "'t \<Rightarrow> bool"
  zm_certificate :: bool
  zm_bind :: "endpoint \<Rightarrow> bool"

definition RemuxOutput :: "remuxer_config \<Rightarrow> 'z remux_output" where
  "RemuxOutput c = \<lparr>ro_app = rx_app c, ro_stream = rx_stream c, ro_muxer = None, ro_closed = False,
     ro_targets = [], ro_registered = [], ro_hls_server = None, ro_server = None, ro_path = None\<rparr>"

section \<open>The shared tables\<close>

definition ReservePath :: "string \<times> string \<Rightarrow> (world, unit) act" where
  "ReservePath p =
     andthen (gets (\<lambda>w. p \<in> w_paths w)) (\<lambda>taken.
     if taken then raise Invalid_argument else modify (\<lambda>w. w\<lparr>w_paths := insert p (w_paths w)\<rparr>))"

definition ReleasePath :: "string \<times> string \<Rightarrow> world \<Rightarrow> world" where
  "ReleasePath p w = w\<lparr>w_paths := w_paths w - {p}\<rparr>"

definition purge :: "(server \<Rightarrow> bool) \<Rightarrow> world \<Rightarrow> world" where
  "purge alive w = w\<lparr>w_listeners := (\<lambda>e. case w_listeners w e of
     None \<Rightarrow> None | Some (s, p) \<Rightarrow> if alive s then Some (s, p) else None)\<rparr>"

definition Listen ::
    "(server \<Rightarrow> bool) \<Rightarrow> (endpoint \<Rightarrow> bool) \<Rightarrow> endpoint \<Rightarrow> protocol \<Rightarrow> (world, server) act" where
  "Listen alive bind e proto =
     andthen (modify (purge alive)) (\<lambda>_.
     andthen (gets (\<lambda>w. w_listeners w e)) (\<lambda>found.
     case found of
       Some (s, p) \<Rightarrow> if p \<noteq> proto then raise Invalid_argument else ret s
     | None \<Rightarrow>
         andthen (guard (bind e) Runtime_error) (\<lambda>_.
         andthen (gets w_next) (\<lambda>s.
         andthen (modify (\<lambda>w. w\<lparr>w_listeners := (w_listeners w)(e := Some (s, proto)), w_next := s + 1\<rparr>)) (\<lambda>_.
         ret s)))))"

section \<open>The session\<close>

text \<open>Operations of a session change the shared tables and the session.\<close>

type_synonym ('z, 'a) session_act = "(world \<times> 'z remux_output, 'a) act"

definition on_world :: "(world, 'a) act \<Rightarrow> ('z, 'a) session_act" where
  "on_world m = (\<lambda>(w, s). case m w of (r, w') \<Rightarrow> (r, w', s))"

definition on_session :: "('z remux_output, 'a) act \<Rightarrow> ('z, 'a) session_act" where
  "on_session m = (\<lambda>(w, s). case m s of (r, s') \<Rightarrow> (r, w, s'))"

text \<open>The loop over the tracks; a rejected track throws.\<close>

fun add_tracks_zlm :: "('z, 't) zlm_muxer \<Rightarrow> 't list \<Rightarrow> 'z \<Rightarrow> 'z result" where
  "add_tracks_zlm Z [] z = Inr z"
| "add_tracks_zlm Z (t # ts) z =
     (case zm_add_track Z t z of (ok, z) \<Rightarrow> if \<not> ok then Inl Invalid_argument else add_tracks_zlm Z ts z)"

definition Start_output :: "('z, 't) zlm_muxer \<Rightarrow> 't list \<Rightarrow> ('z, unit) session_act" where
  "Start_output Z ts =
     andthen (on_session (gets (\<lambda>s. (ro_app s, ro_stream s)))) (\<lambda>p.
     andthen (on_world (ReservePath p)) (\<lambda>_.
     andthen (on_session (modify (\<lambda>s. s\<lparr>ro_path := Some p\<rparr>))) (\<lambda>_.
     case add_tracks_zlm Z ts (zm_new Z (fst p) (snd p) (list_ex (zm_audio Z) ts) (length ts)) of
       Inr z \<Rightarrow> on_session (modify (\<lambda>s. s\<lparr>ro_muxer := Some (zm_complete Z z)\<rparr>))
     | Inl e \<Rightarrow>
         andthen (on_world (modify (ReleasePath p))) (\<lambda>_.
         andthen (on_session (modify (\<lambda>s. s\<lparr>ro_path := None\<rparr>))) (\<lambda>_. raise e)))))"

definition RequireServerCertificate :: "('z, 't) zlm_muxer \<Rightarrow> bool \<Rightarrow> unit result" where
  "RequireServerCertificate Z tls = (if tls \<and> \<not> zm_certificate Z then Inl Invalid_argument else Inr ())"

definition AddRtspPublish ::
    "('z, 't) zlm_muxer \<Rightarrow> (server \<Rightarrow> bool) \<Rightarrow> string \<Rightarrow> nat \<Rightarrow> bool \<Rightarrow> ('z, unit) session_act" where
  "AddRtspPublish Z alive ip port tls =
     andthen (on_session (gets (\<lambda>s. ValidatePublish kRtsp (ro_app s) (ro_stream s) ip port))) (\<lambda>v.
     andthen (lift v) (\<lambda>_.
     andthen (on_session (gets ro_server)) (\<lambda>srv.
     andthen (guard (srv = None) Logic_error) (\<lambda>_.
     andthen (lift (RequireServerCertificate Z tls)) (\<lambda>_.
     andthen (on_world (Listen alive (zm_bind Z) (ip, port) (if tls then P_rtsps else P_rtsp))) (\<lambda>s.
     on_session (modify (\<lambda>o'. o'\<lparr>ro_server := Some s\<rparr>))))))))"

definition AddHlsPublish ::
    "('z, 't) zlm_muxer \<Rightarrow> (server \<Rightarrow> bool) \<Rightarrow> string \<Rightarrow> nat \<Rightarrow> bool \<Rightarrow> ('z, string) session_act" where
  "AddHlsPublish Z alive ip port tls =
     andthen (on_session (gets (\<lambda>s. ValidatePublish kHls (ro_app s) (ro_stream s) ip port))) (\<lambda>v.
     andthen (lift v) (\<lambda>_.
     andthen (on_session (gets ro_hls_server)) (\<lambda>srv.
     andthen (guard (srv = None) Logic_error) (\<lambda>_.
     andthen (lift (RequireServerCertificate Z tls)) (\<lambda>_.
     andthen (on_world (Listen alive (zm_bind Z) (ip, port) (if tls then P_https else P_http))) (\<lambda>s.
     andthen (on_session (gets ro_muxer)) (\<lambda>z.
     andthen (lift (deref z)) (\<lambda>z.
     case zm_hls Z z of (ok, z) \<Rightarrow>
       andthen (on_session (modify (\<lambda>o'. o'\<lparr>ro_muxer := Some z\<rparr>))) (\<lambda>_.
       andthen (guard ok Runtime_error) (\<lambda>_.
       andthen (on_session (modify (\<lambda>o'. o'\<lparr>ro_hls_server := Some s\<rparr>))) (\<lambda>_.
       on_session (gets (\<lambda>o'. publish_url kHls (ro_app o') (ro_stream o') ip port tls)))))))))))))"

text \<open>
  \<open>StartPushers\<close>: every waiting target of a registered schema gets its pusher; the errors are what
  is reported to the owner, in order.
\<close>

fun start_pushers ::
    "('z, 't) zlm_muxer \<Rightarrow> 'z \<Rightarrow> schema list \<Rightarrow> push_target list \<Rightarrow> exn list \<times> push_target list" where
  "start_pushers Z z reg [] = ([], [])"
| "start_pushers Z z reg (t # ts) =
     (case start_pushers Z z reg ts of (es, ts') \<Rightarrow>
        if pt_pusher t \<or> pt_schema t \<notin> set reg then (es, t # ts')
        else case zm_pusher Z (pt_url t) (pt_schema t) z of
               Inl e \<Rightarrow> (e # es, t # ts')
             | Inr _ \<Rightarrow> (es, t\<lparr>pt_pusher := True\<rparr> # ts'))"

definition StartPushers :: "('z, 't) zlm_muxer \<Rightarrow> ('z remux_output, exn list) act" where
  "StartPushers Z = (\<lambda>s.
     case ro_muxer s of
       None \<Rightarrow> (Inr [], s)
     | Some z \<Rightarrow> (case start_pushers Z z (ro_registered s) (ro_targets s) of
         (es, ts) \<Rightarrow> (Inr (if ro_closed s then [] else es), s\<lparr>ro_targets := ts\<rparr>)))"

definition onRegist :: "('z, 't) zlm_muxer \<Rightarrow> schema \<Rightarrow> bool \<Rightarrow> ('z remux_output, exn list) act" where
  "onRegist Z sc registered =
     andthen (gets ro_closed) (\<lambda>closed.
     if registered \<and> \<not> closed
     then andthen (modify (\<lambda>s. s\<lparr>ro_registered := sc # ro_registered s\<rparr>)) (\<lambda>_. StartPushers Z)
     else ret [])"

text \<open>Recordings are not prepared here; a push target keeps the schema of its URL.\<close>

definition AddPrepared ::
    "('z, 't) zlm_muxer \<Rightarrow> (server \<Rightarrow> bool) \<Rightarrow> out_entry \<Rightarrow> ('z, exn list) session_act" where
  "AddPrepared Z alive e =
     (if en_kind e = kRtsp
      then andthen (AddRtspPublish Z alive (en_ip e) (en_port e) (en_tls e)) (\<lambda>_. ret [])
      else if en_kind e = kHls
      then andthen (AddHlsPublish Z alive (en_ip e) (en_port e) (en_tls e)) (\<lambda>_. ret [])
      else andthen (lift (Schema (en_actual e))) (\<lambda>sc.
           andthen (on_session (modify (\<lambda>s. s\<lparr>ro_targets := ro_targets s @
             [\<lparr>pt_url = en_actual e, pt_schema = sc, pt_pusher = False\<rparr>]\<rparr>))) (\<lambda>_.
           on_session (StartPushers Z))))"

definition InputFrame :: "('z, 't) zlm_muxer \<Rightarrow> zlm_frame \<Rightarrow> ('z remux_output, unit) act" where
  "InputFrame Z f = (\<lambda>s. case ro_muxer s of None \<Rightarrow> (Inl Undefined_behaviour, s)
     | Some z \<Rightarrow> (case zm_input Z f z of (r, z) \<Rightarrow> (r, s\<lparr>ro_muxer := Some z\<rparr>)))"

definition tracks_ready :: "('z, 't) zlm_muxer \<Rightarrow> 'z remux_output \<Rightarrow> bool" where
  "tracks_ready Z s = (case ro_muxer s of None \<Rightarrow> False | Some z \<Rightarrow> zm_ready Z z)"

definition Flush_output :: "('z, 't) zlm_muxer \<Rightarrow> ('z remux_output, unit) act" where
  "Flush_output Z = (\<lambda>s. case ro_muxer s of None \<Rightarrow> (Inl Undefined_behaviour, s)
     | Some z \<Rightarrow> (case zm_flush Z z of (r, z) \<Rightarrow> (r, s\<lparr>ro_muxer := Some z\<rparr>)))"

definition Close_output :: "world \<times> 'z remux_output \<Rightarrow> world \<times> 'z remux_output" where
  "Close_output ws =
     (case ws of (w, s) \<Rightarrow>
        (case ro_path s of None \<Rightarrow> w | Some p \<Rightarrow> ReleasePath p w,
         s\<lparr>ro_closed := True, ro_targets := [], ro_registered := [], ro_muxer := None,
           ro_hls_server := None, ro_server := None, ro_path := None\<rparr>))"

section \<open>All sessions of a process\<close>

type_synonym 'z sessions = "nat \<Rightarrow> 'z remux_output option"

definition servers_of :: "'z remux_output option \<Rightarrow> server set" where
  "servers_of x = (case x of None \<Rightarrow> {} | Some s \<Rightarrow> set_option (ro_server s) \<union> set_option (ro_hls_server s))"

definition holds :: "'z sessions \<Rightarrow> server \<Rightarrow> bool" where
  "holds f s \<longleftrightarrow> (\<exists>i. s \<in> servers_of (f i))"

definition path_of :: "'z sessions \<Rightarrow> nat \<Rightarrow> (string \<times> string) option" where
  "path_of f i = Option.bind (f i) ro_path"

text \<open>
  Any sequence of operations of any number of sessions: a new object, \<open>Start\<close>, added outputs, media,
  registrations by ZLM, \<open>Close\<close>. Every result is allowed; what matters is the state left behind.
\<close>

inductive process :: "('z, 't) zlm_muxer \<Rightarrow> world \<Rightarrow> 'z sessions \<Rightarrow> bool" for Z where
  boot: "process Z \<lparr>w_paths = {}, w_listeners = (\<lambda>_. None), w_next = 0\<rparr> (\<lambda>_. None)"
| create: "process Z w f \<Longrightarrow> f i = None \<Longrightarrow> process Z w (f(i \<mapsto> RemuxOutput c))"
| begin_session: "process Z w f \<Longrightarrow> f i = Some s \<Longrightarrow> ro_path s = None \<Longrightarrow>
    Start_output Z ts (w, s) = (r, w', s') \<Longrightarrow> process Z w' (f(i \<mapsto> s'))"
| add: "process Z w f \<Longrightarrow> f i = Some s \<Longrightarrow>
    AddPrepared Z (holds f) e (w, s) = (r, w', s') \<Longrightarrow> process Z w' (f(i \<mapsto> s'))"
| input: "process Z w f \<Longrightarrow> f i = Some s \<Longrightarrow>
    (InputFrame Z fr s = (r, s') \<or> Flush_output Z s = (r, s')) \<Longrightarrow> process Z w (f(i \<mapsto> s'))"
| registered: "process Z w f \<Longrightarrow> f i = Some s \<Longrightarrow> onRegist Z sc b s = (r', s') \<Longrightarrow> process Z w (f(i \<mapsto> s'))"
| close_session: "process Z w f \<Longrightarrow> f i = Some s \<Longrightarrow>
    Close_output (w, s) = (w', s') \<Longrightarrow> process Z w' (f(i \<mapsto> s'))"

text \<open>The published paths are exactly the paths of the sessions, no two of them equal.\<close>

definition paths_inv :: "world \<Rightarrow> 'z sessions \<Rightarrow> bool" where
  "paths_inv w f \<longleftrightarrow> w_paths w = ran (path_of f) \<and>
     (\<forall>i j p. path_of f i = Some p \<longrightarrow> path_of f j = Some p \<longrightarrow> i = j)"

text \<open>Every server a session holds has its endpoint, and no two endpoints share a server.\<close>

definition servers_inv :: "world \<Rightarrow> 'z sessions \<Rightarrow> bool" where
  "servers_inv w f \<longleftrightarrow>
     (\<forall>s. holds f s \<longrightarrow> (\<exists>e p. w_listeners w e = Some (s, p))) \<and>
     (\<forall>e e' s p p'. w_listeners w e = Some (s, p) \<longrightarrow> w_listeners w e' = Some (s, p') \<longrightarrow> e = e') \<and>
     (\<forall>e s p. w_listeners w e = Some (s, p) \<longrightarrow> s < w_next w)"

definition same_claims :: "'z remux_output \<Rightarrow> 'z remux_output \<Rightarrow> bool" where
  "same_claims s s' \<longleftrightarrow> ro_path s' = ro_path s \<and> ro_server s' = ro_server s \<and> ro_hls_server s' = ro_hls_server s"

lemma path_of_upd: "path_of (f(i \<mapsto> s')) = (path_of f)(i := ro_path s')"
  by (auto simp: path_of_def)

lemma paths_same: "f i = Some s \<Longrightarrow> ro_path s' = ro_path s \<Longrightarrow> path_of (f(i \<mapsto> s')) = path_of f"
  by (auto simp: path_of_def)

lemma holds_upd:
  assumes "f i = Some s"
  shows "holds (f(i \<mapsto> s')) x \<Longrightarrow> holds f x \<or> x \<in> servers_of (Some s')"
  unfolding holds_def by (metis fun_upd_apply)

text \<open>Operations that keep path and servers of a session keep both invariants.\<close>

lemma same_inv:
  assumes "paths_inv w f" "servers_inv w f" and "f i = Some s" and "same_claims s s'"
  shows "paths_inv w (f(i \<mapsto> s')) \<and> servers_inv w (f(i \<mapsto> s'))"
proof -
  have p: "path_of (f(i \<mapsto> s')) = path_of f"
    using assms(3,4) by (intro paths_same) (simp_all add: same_claims_def)
  have "servers_of (Some s') = servers_of (f i)"
    using assms(3,4) by (simp add: servers_of_def same_claims_def)
  then have "holds f x" if "holds (f(i \<mapsto> s')) x" for x
    using holds_upd [OF assms(3) that] unfolding holds_def by blast
  with p assms(1,2) show ?thesis unfolding paths_inv_def servers_inv_def by metis
qed

lemma same_claims_refl [simp]: "same_claims s s"
  by (simp add: same_claims_def)

text \<open>What the operations on the shared tables do.\<close>

lemma Listen_result:
  assumes "Listen alive bind e proto w = (r, w')"
    and inv: "\<forall>e e' s p p'. w_listeners w e = Some (s, p) \<longrightarrow> w_listeners w e' = Some (s, p') \<longrightarrow> e = e'"
    and fresh: "\<forall>e s p. w_listeners w e = Some (s, p) \<longrightarrow> s < w_next w"
  shows "w_paths w' = w_paths w \<and>
    (\<forall>x e' p. alive x \<longrightarrow> w_listeners w e' = Some (x, p) \<longrightarrow> w_listeners w' e' = Some (x, p)) \<and>
    (\<forall>e e' s p p'. w_listeners w' e = Some (s, p) \<longrightarrow> w_listeners w' e' = Some (s, p') \<longrightarrow> e = e') \<and>
    (\<forall>e s p. w_listeners w' e = Some (s, p) \<longrightarrow> s < w_next w') \<and>
    (\<forall>s. r = Inr s \<longrightarrow> w_listeners w' e = Some (s, proto))"
proof (cases "w_listeners (purge alive w) e")
  case None
  show ?thesis
  proof (cases "bind e")
    case False
    with None assms(1) have "w' = purge alive w" "r = Inl Runtime_error"
      by (auto simp: Listen_def act_defs)
    with inv fresh show ?thesis by (auto simp: purge_def split: option.splits if_splits)
  next
    case True
    with None assms(1) have w': "w' = (purge alive w)\<lparr>w_listeners := (w_listeners (purge alive w))(e := Some (w_next w, proto)),
        w_next := w_next w + 1\<rparr>" "r = Inr (w_next w)"
      by (auto simp: Listen_def act_defs purge_def)
    have old: "w_listeners (purge alive w) d = Some (s, p) \<Longrightarrow> w_listeners w d = Some (s, p)" for d s p
      by (auto simp: purge_def split: option.splits if_splits)
    have keep: "alive x \<Longrightarrow> w_listeners w d = Some (x, p) \<Longrightarrow> w_listeners (purge alive w) d = Some (x, p)" for x d p
      by (simp add: purge_def)
    have "w_listeners w d = Some (s, p) \<Longrightarrow> s \<noteq> w_next w" for d s p using fresh by blast
    with old inv have "\<forall>d d' s p p'. w_listeners w' d = Some (s, p) \<longrightarrow> w_listeners w' d' = Some (s, p') \<longrightarrow> d = d'"
      unfolding w' by (simp split: if_splits) blast
    moreover have "s < w_next w'" if l: "w_listeners w' d = Some (s, p)" for d s p
    proof (cases "d = e")
      case False
      with l have "w_listeners w d = Some (s, p)" by (intro old) (simp add: w')
      with fresh have "s < w_next w" by blast
      then show ?thesis by (simp add: w')
    qed (use l in \<open>simp add: w'\<close>)
    moreover have "\<forall>x d p. alive x \<longrightarrow> w_listeners w d = Some (x, p) \<longrightarrow> w_listeners w' d = Some (x, p)"
      using keep None unfolding w' by (auto split: if_splits)
    ultimately show ?thesis using w' by (auto simp: purge_def)
  qed
next
  case (Some sp)
  then have "w' = purge alive w" "\<forall>s. r = Inr s \<longrightarrow> sp = (s, proto)"
    using assms(1) by (cases sp; auto simp: Listen_def act_defs split: if_splits)+
  with Some inv fresh show ?thesis by (auto simp: purge_def split: option.splits if_splits)
qed

text \<open>What each operation does to the claims of its session.\<close>

lemma Start_claims:
  assumes "Start_output Z ts (w, s) = (r, w', s')" and "ro_path s = None"
  shows "w_listeners w' = w_listeners w \<and> w_next w' = w_next w \<and>
    ro_server s' = ro_server s \<and> ro_hls_server s' = ro_hls_server s \<and>
    ((ro_path s' = None \<and> w_paths w' = w_paths w) \<or>
     (\<exists>p. p \<notin> w_paths w \<and> ro_path s' = Some p \<and> w_paths w' = insert p (w_paths w)))"
  using assms
  by (auto simp: Start_output_def on_session_def on_world_def act_defs ReservePath_def ReleasePath_def
      split: if_splits sum.splits prod.splits)

lemma StartPushers_claims: "StartPushers Z s = (r, s') \<Longrightarrow> same_claims s s'"
  by (auto simp: StartPushers_def same_claims_def split: option.splits prod.splits)

lemma onRegist_claims: "onRegist Z sc b s = (r, s') \<Longrightarrow> same_claims s s'"
  by (auto simp: onRegist_def act_defs same_claims_def dest: StartPushers_claims split: if_splits)

lemma input_claims: "InputFrame Z fr s = (r, s') \<or> Flush_output Z s = (r, s') \<Longrightarrow> same_claims s s'"
  by (auto simp: InputFrame_def Flush_output_def same_claims_def split: option.splits prod.splits)

text \<open>A publication: nothing claimed, or one listener obtained and one of the two servers set to it.\<close>

definition claims_server ::
    "(server \<Rightarrow> bool) \<Rightarrow> (endpoint \<Rightarrow> bool) \<Rightarrow> world \<Rightarrow> 'z remux_output \<Rightarrow> world \<Rightarrow> 'z remux_output \<Rightarrow> bool" where
  "claims_server alive bind w s w' s' \<longleftrightarrow>
     (w' = w \<and> same_claims s s') \<or>
     (\<exists>e proto r. Listen alive bind e proto w = (r, w') \<and> ro_path s' = ro_path s \<and>
        (\<forall>x \<in> servers_of (Some s'). x \<in> servers_of (Some s) \<or> r = Inr x))"

lemma Rtsp_claims:
  assumes "AddRtspPublish Z alive ip port tls (w, s) = (r, w', s')"
  shows "claims_server alive (zm_bind Z) w s w' s'"
proof (cases "ValidatePublish kRtsp (ro_app s) (ro_stream s) ip port = Inr () \<and> ro_server s = None \<and>
    RequireServerCertificate Z tls = Inr ()")
  case True
  let ?p = "if tls then P_rtsps else P_rtsp"
  obtain q w2 where L: "Listen alive (zm_bind Z) (ip, port) ?p w = (q, w2)"
    by (cases "Listen alive (zm_bind Z) (ip, port) ?p w")
  with True assms have "w' = w2 \<and> s' = (case q of Inl _ \<Rightarrow> s | Inr x \<Rightarrow> s\<lparr>ro_server := Some x\<rparr>)"
    by (auto simp: AddRtspPublish_def on_session_def on_world_def act_defs split: sum.splits)
  with L show ?thesis
    unfolding claims_server_def by (intro disjI2 exI conjI) (auto simp: servers_of_def split: sum.splits)
next
  case False
  with assms have "w' = w \<and> s' = s"
    by (auto simp: AddRtspPublish_def on_session_def on_world_def act_defs split: sum.splits if_splits)
  then show ?thesis by (simp add: claims_server_def)
qed

lemma Hls_claims:
  assumes "AddHlsPublish Z alive ip port tls (w, s) = (r, w', s')"
  shows "claims_server alive (zm_bind Z) w s w' s'"
proof (cases "ValidatePublish kHls (ro_app s) (ro_stream s) ip port = Inr () \<and> ro_hls_server s = None \<and>
    RequireServerCertificate Z tls = Inr ()")
  case True
  let ?p = "if tls then P_https else P_http"
  obtain q w2 where L: "Listen alive (zm_bind Z) (ip, port) ?p w = (q, w2)"
    by (cases "Listen alive (zm_bind Z) (ip, port) ?p w")
  with True assms have "w' = w2 \<and> ro_path s' = ro_path s \<and> ro_server s' = ro_server s \<and>
      (ro_hls_server s' = ro_hls_server s \<or> (\<exists>x. q = Inr x \<and> ro_hls_server s' = Some x))"
    by (auto simp: AddHlsPublish_def on_session_def on_world_def act_defs
        split: sum.splits if_splits prod.splits option.splits)
  with L show ?thesis
    unfolding claims_server_def by (intro disjI2 exI conjI) (auto simp: servers_of_def)
next
  case False
  with assms have "w' = w \<and> s' = s"
    by (auto simp: AddHlsPublish_def on_session_def on_world_def act_defs split: sum.splits if_splits)
  then show ?thesis by (simp add: claims_server_def)
qed

lemma Add_claims:
  assumes "AddPrepared Z alive e (w, s) = (r, w', s')"
  shows "claims_server alive (zm_bind Z) w s w' s'"
proof -
  consider "en_kind e = kRtsp" | "en_kind e = kHls" | "en_kind e \<noteq> kRtsp" "en_kind e \<noteq> kHls" by blast
  then show ?thesis
  proof cases
    case 1
    with assms show ?thesis
      by (auto simp: AddPrepared_def act_defs dest: Rtsp_claims split: prod.splits sum.splits)
  next
    case 2
    with assms show ?thesis
      by (auto simp: AddPrepared_def act_defs dest: Hls_claims split: prod.splits sum.splits)
  next
    case 3
    with assms have "w' = w \<and> same_claims s s'"
      by (auto simp: AddPrepared_def on_session_def act_defs same_claims_def dest!: StartPushers_claims
          split: sum.splits prod.splits)
    then show ?thesis by (simp add: claims_server_def)
  qed
qed

lemma claims_inv:
  assumes "paths_inv w f" "servers_inv w f" and "f i = Some s" and "claims_server (holds f) bind w s w' s'"
  shows "paths_inv w' (f(i \<mapsto> s')) \<and> servers_inv w' (f(i \<mapsto> s'))"
  using assms(4) unfolding claims_server_def
proof (elim disjE exE conjE)
  assume "w' = w" "same_claims s s'"
  with same_inv [OF assms(1-3)] show ?thesis by simp
next
  fix e proto r
  assume L: "Listen (holds f) bind e proto w = (r, w')" and p: "ro_path s' = ro_path s"
    and new: "\<forall>x \<in> servers_of (Some s'). x \<in> servers_of (Some s) \<or> r = Inr x"
  note l = Listen_result [OF L assms(2) [unfolded servers_inv_def, THEN conjunct2, THEN conjunct1]
      assms(2) [unfolded servers_inv_def, THEN conjunct2, THEN conjunct2]]
  have "path_of (f(i \<mapsto> s')) = path_of f" using assms(3) p by (rule paths_same)
  moreover have "\<exists>d q. w_listeners w' d = Some (x, q)" if h: "holds (f(i \<mapsto> s')) x" for x
  proof (cases "holds f x")
    case True
    then obtain d q where "w_listeners w d = Some (x, q)" using assms(2) by (auto simp: servers_inv_def)
    with l True show ?thesis by blast
  next
    case False
    with holds_upd [OF assms(3) h] new have "x \<in> servers_of (Some s) \<or> r = Inr x" by blast
    moreover have "x \<notin> servers_of (Some s)" using False assms(3) unfolding holds_def by metis
    ultimately show ?thesis using l by blast
  qed
  ultimately show ?thesis
    using l assms(1) unfolding paths_inv_def servers_inv_def by metis
qed

lemma ran_drop:
  assumes "inj_on m (dom m)" and "m i = Some p"
  shows "ran (m(i := None)) = ran m - {p}"
proof -
  have u: "j = i" if "m j = Some p" for j
    using inj_onD [OF assms(1), of j i] that assms(2) by (simp add: domI)
  show ?thesis
  proof (intro equalityI subsetI)
    fix x assume "x \<in> ran (m(i := None))"
    then obtain j where "j \<noteq> i" "m j = Some x" by (auto simp: ran_def split: if_splits)
    with u show "x \<in> ran m - {p}" by (auto intro: ranI)
  next
    fix x assume "x \<in> ran m - {p}"
    then obtain j where j: "m j = Some x" "x \<noteq> p" by (auto simp: ran_def)
    with assms(2) have "(m(i := None)) j = Some x" by auto
    then show "x \<in> ran (m(i := None))" by (rule ranI)
  qed
qed

lemma process_invs: "process Z w f \<Longrightarrow> paths_inv w f \<and> servers_inv w f"
proof (induction rule: process.induct)
  case boot
  then show ?case by (simp add: paths_inv_def servers_inv_def path_of_def holds_def servers_of_def ran_def)
next
  case (create w f i c)
  have "path_of (f(i \<mapsto> RemuxOutput c)) = path_of f"
    using create.hyps(2) by (auto simp: path_of_def RemuxOutput_def)
  moreover have "servers_of (Some (RemuxOutput c)) = {}" by (simp add: servers_of_def RemuxOutput_def)
  then have "holds (f(i \<mapsto> RemuxOutput c)) x \<Longrightarrow> holds f x" for x
    unfolding holds_def by (metis empty_iff fun_upd_apply)
  ultimately show ?case using create.IH unfolding paths_inv_def servers_inv_def by metis
next
  case (begin_session w f i s ts r w' s')
  note c = Start_claims [OF begin_session.hyps(4,3)]
  have h: "holds (f(i \<mapsto> s')) x \<Longrightarrow> holds f x" for x
    using c begin_session.hyps(2) holds_upd [of f i s s' x]
    unfolding holds_def servers_of_def by (auto split: if_splits option.splits)
  have old: "path_of f i = None" using begin_session.hyps(2,3) by (simp add: path_of_def)
  have "paths_inv w' (f(i \<mapsto> s'))"
  proof (cases "ro_path s'")
    case None
    then have "path_of (f(i \<mapsto> s')) = path_of f" using old by (auto simp: path_of_upd)
    with c None begin_session.IH show ?thesis by (simp add: paths_inv_def)
  next
    case (Some p)
    with c have p: "p \<notin> w_paths w" "w_paths w' = insert p (w_paths w)" by auto
    then have "path_of f j \<noteq> Some p" for j using begin_session.IH by (auto simp: paths_inv_def ran_def)
    moreover have "ran ((path_of f)(i \<mapsto> p)) = insert p (ran (path_of f))" using old by (rule ran_map_upd)
    ultimately show ?thesis using p Some begin_session.IH by (auto simp: paths_inv_def path_of_upd)
  qed
  moreover have "servers_inv w' (f(i \<mapsto> s'))"
    using h c begin_session.IH unfolding servers_inv_def by metis
  ultimately show ?case ..
next
  case (add w f i s e r w' s')
  then show ?case using claims_inv Add_claims by blast
next
  case (input w f i s fr r s')
  then show ?case using same_inv input_claims by blast
next
  case (registered w f i s sc b r' s')
  then show ?case using same_inv onRegist_claims by blast
next
  case (close_session w f i s w' s')
  have s': "ro_path s' = None" "servers_of (Some s') = {}"
    and w': "w' = (case ro_path s of None \<Rightarrow> w | Some p \<Rightarrow> ReleasePath p w)"
    using close_session.hyps(3) by (auto simp: Close_output_def servers_of_def)
  have p: "path_of (f(i \<mapsto> s')) = (path_of f)(i := None)" using s' by (simp add: path_of_upd)
  have o: "path_of f i = ro_path s" using close_session.hyps(2) by (simp add: path_of_def)
  have "w_paths w' = ran ((path_of f)(i := None))"
  proof (cases "ro_path s")
    case None
    with o have "(path_of f)(i := None) = path_of f" by auto
    with None close_session.IH show ?thesis by (simp add: w' paths_inv_def)
  next
    case (Some p)
    have "inj_on (path_of f) (dom (path_of f))"
      using close_session.IH by (auto simp: paths_inv_def inj_on_def)
    from ran_drop [OF this o [unfolded Some]] Some close_session.IH
    show ?thesis by (simp add: w' paths_inv_def ReleasePath_def)
  qed
  then have "paths_inv w' (f(i \<mapsto> s'))"
    using close_session.IH unfolding paths_inv_def p by (auto split: if_splits)
  moreover have "holds (f(i \<mapsto> s')) x \<Longrightarrow> holds f x" for x
    using s'(2) unfolding holds_def by (metis empty_iff fun_upd_apply)
  then have "servers_inv w' (f(i \<mapsto> s'))"
    using close_session.IH unfolding servers_inv_def w'
    by (cases "ro_path s") (simp_all add: ReleasePath_def)
  ultimately show ?case ..
qed

section \<open>Properties\<close>


definition sample_zm :: "(unit, unit) zlm_muxer" where
  "sample_zm = \<lparr>zm_new = (\<lambda>_ _ _ _. ()), zm_add_track = (\<lambda>_ z. (True, z)), zm_complete = (\<lambda>z. z),
     zm_input = (\<lambda>_ z. (Inr (), z)), zm_ready = (\<lambda>_. True), zm_flush = (\<lambda>z. (Inr (), z)),
     zm_hls = (\<lambda>z. (True, z)), zm_pusher = (\<lambda>_ _ _. Inr ()), zm_audio = (\<lambda>_. False),
     zm_certificate = False, zm_bind = (\<lambda>_. True)\<rparr>"

definition sample_rx :: remuxer_config where
  "sample_rx = \<lparr>rx_app = ''live'', rx_stream = ''cam'', recording_queue_bytes = 1000\<rparr>"


end
