(* ===== verification/Remuxer.thy ===== *)
theory Remuxer
  imports Blocking_Queue Packet_Interleaver Recorder Remux_Output
begin

text \<open>
  \<^verbatim>\<open>remuxer/remuxer.cc\<close>: the session that carries encoded packets from any number of producers to
  the protocol outputs and the file recorders.

  Producers, the control thread and the output poller share the state mutex. Every function below
  is one critical section of the source, or the work of the poller between two of them, whose state
  (converter, timestamps, output, \<open>record_only\<close>) only the poller touches; \<open>remuxing\<close> interleaves
  them. Every session has its own hand-over queue: a producer keeps the queue it captured,
  so the queues are a store indexed by session, and \<open>rm_queue\<close> names the current one. The tasks
  posted to the poller are a list; \<open>rm_point\<close> is where the poller stands inside \<open>Process\<close>.

  The fields \<open>hm_\<close> are histories of the current session: packets that entered the hand-over
  queue, packets merged, packets released by the interleaver, packets whose turn of the delivery
  loop completed, and calls of the error callback.
\<close>

section \<open>State\<close>

datatype task = T_process | T_finish | T_end

datatype poll_point =
    P_idle
  | P_deliver "av_packet list" nat bool "int list"
  | P_error exn
  | P_closing
  | P_flush
  | P_flush_error exn
  | P_post

datatype ctl = Ctl_idle | Ctl_add out_entry | Ctl_commit out_entry | Ctl_wait bool | Ctl_join

datatype producer = Admitted nat av_packet | Pushed nat

record ('z, 't, 'm, 'b) remuxer =
  rm_config :: remuxer_config
  rm_entries :: "out_entry list"
  rm_info :: output_info
  rm_recs :: "(string \<times> ('m, 'b) recorder) list"
  rm_streams :: "coded_stream list"
  rm_queues :: "nat \<Rightarrow> av_packet bq"
  rm_next :: nat
  rm_queue :: "nat option"
  rm_running :: bool
  rm_accepting :: bool
  rm_draining :: bool
  rm_closing :: bool
  rm_scheduled :: bool
  rm_reported :: bool
  rm_error :: "exn option"
  rm_record_only :: bool
  rm_poller :: bool
  rm_output :: "'z remux_output option"
  rm_interleaver :: "interleaver option"
  rm_converter :: "'t packet_converter option"
  rm_timestamps :: "timestamp_converter option"
  rm_tasks :: "task list"
  rm_point :: poll_point
  rm_ctl :: ctl
  rm_producers :: "producer multiset"
  rm_world :: world
  hm_in :: "av_packet list"
  hm_merged :: "av_packet list"
  hm_out :: "av_packet list"
  hm_sent :: "av_packet list"
  hm_calls :: nat

text \<open>The libraries: libavutil, ZLM's tracks and muxer, the MP4 muxer, the file system.\<close>

record ('z, 't, 'm, 'b) env =
  ev_lib :: av_lib
  ev_zlm :: "'t zlm"
  ev_mux :: "('z, 't) zlm_muxer"
  ev_file :: "('m, 'b) muxer"
  ev_header :: "64 word"
  ev_mp4 :: "string \<Rightarrow> bool"
  ev_thread :: bool

definition handoff :: "av_packet bq" where
  "handoff = \<lparr>capacity = 1, items = [], read_signal = None, write_signal = None, closed = False\<rparr>"

definition Remuxer_new :: "remuxer_config \<Rightarrow> ('z, 't, 'm, 'b) remuxer" where
  "Remuxer_new c =
     \<lparr>rm_config = c, rm_entries = [], rm_info = info [], rm_recs = [], rm_streams = [],
      rm_queues = (\<lambda>_. handoff), rm_next = 0, rm_queue = None, rm_running = False, rm_accepting = False,
      rm_draining = False, rm_closing = False, rm_scheduled = False, rm_reported = False, rm_error = None,
      rm_record_only = False, rm_poller = False, rm_output = None, rm_interleaver = None,
      rm_converter = None, rm_timestamps = None, rm_tasks = [], rm_point = P_idle, rm_ctl = Ctl_idle,
      rm_producers = {#}, rm_world = \<lparr>w_paths = {}, w_listeners = (\<lambda>_. None), w_next = 0\<rparr>,
      hm_in = [], hm_merged = [], hm_out = [], hm_sent = [], hm_calls = 0\<rparr>"

section \<open>Scheduling, draining and errors\<close>

definition Schedule_rm :: "('z, 't, 'm, 'b) remuxer \<Rightarrow> ('z, 't, 'm, 'b) remuxer" where
  "Schedule_rm s =
     (if rm_scheduled s \<or> rm_closing s then s
      else s\<lparr>rm_scheduled := True, rm_tasks := rm_tasks s @ [T_process]\<rparr>)"

definition close_handoff :: "('z, 't, 'm, 'b) remuxer \<Rightarrow> ('z, 't, 'm, 'b) remuxer" where
  "close_handoff s =
     (case rm_queue s of
        None \<Rightarrow> s
      | Some g \<Rightarrow> s\<lparr>rm_queues := (rm_queues s)(g := fst (close_body (rm_queues s g)))\<rparr>)"

definition Drain_rm :: "('z, 't, 'm, 'b) remuxer \<Rightarrow> ('z, 't, 'm, 'b) remuxer" where
  "Drain_rm s =
     (if \<not> rm_running s \<or> rm_closing s then s
      else Schedule_rm ((close_handoff (s\<lparr>rm_accepting := False\<rparr>))\<lparr>rm_draining := True\<rparr>))"

text \<open>The first error of a session is kept, drains the session and is passed to the callback.\<close>

definition Error_rm :: "exn \<Rightarrow> ('z, 't, 'm, 'b) remuxer \<Rightarrow> ('z, 't, 'm, 'b) remuxer" where
  "Error_rm e s =
     (if \<not> rm_running s \<or> rm_reported s then s
      else let s1 = (close_handoff (s\<lparr>rm_reported := True,
                       rm_error := (case rm_error s of None \<Rightarrow> Some e | Some x \<Rightarrow> Some x),
                       rm_accepting := False\<rparr>))\<lparr>rm_draining := True\<rparr>;
               s2 = (if rm_closing s1 then s1 else Schedule_rm s1)
           in s2\<lparr>hm_calls := hm_calls s2 + 1\<rparr>)"

section \<open>Producers\<close>

text \<open>Admission: \<open>Inr None\<close> is a refusal, \<open>Inr (Some g)\<close> captures the queue \<open>g\<close>.\<close>

definition submit_admit ::
    "('z, 't, 'm, 'b) env \<Rightarrow> bool \<Rightarrow> packet \<Rightarrow> ('z, 't, 'm, 'b) remuxer \<Rightarrow> nat option result" where
  "submit_admit E on_poller p s =
     (if rm_poller s \<and> on_poller then Inl Logic_error
      else if \<not> rm_accepting s then Inr None
      else chain (deref (rm_interleaver s)) (\<lambda>il.
           chain (Validate_packet (ev_lib E) (tc_streams (validation il)) p) (\<lambda>_.
           chain (deref (rm_queue s)) (\<lambda>g. Inr (Some g)))))"

definition submit_push ::
    "nat \<Rightarrow> av_packet \<Rightarrow> ('z, 't, 'm, 'b) remuxer \<Rightarrow> bq_result result \<times> ('z, 't, 'm, 'b) remuxer" where
  "submit_push g k s =
     (case push_body True k (rm_queues s g) of
        (r, q, _) \<Rightarrow> (r, s\<lparr>rm_queues := (rm_queues s)(g := q), hm_in := hm_in s @ accepted_by r k\<rparr>))"

definition submit_tail :: "nat \<Rightarrow> ('z, 't, 'm, 'b) remuxer \<Rightarrow> ('z, 't, 'm, 'b) remuxer" where
  "submit_tail g s = (if rm_queue s = Some g \<and> rm_running s then Schedule_rm s else s)"

section \<open>Starting a session\<close>

text \<open>The protocol outputs, in registration order; servers of other sessions stay alive.\<close>

fun prepare_all ::
    "('z, 't) zlm_muxer \<Rightarrow> (server \<Rightarrow> bool) \<Rightarrow> out_entry list \<Rightarrow> ('z, unit) session_act" where
  "prepare_all Z others [] = ret ()"
| "prepare_all Z others (e # es) =
     (if en_kind e = kRecording then prepare_all Z others es
      else andthen (\<lambda>(w, o'). AddPrepared Z (\<lambda>x. others x \<or> x \<in> servers_of (Some o')) e (w, o'))
             (\<lambda>_. prepare_all Z others es))"

definition StartRecording ::
    "('z, 't, 'm, 'b) env \<Rightarrow> remuxer_config \<Rightarrow> coded_stream list \<Rightarrow> string \<Rightarrow>
     (string \<times> ('m, 'b) recorder) result" where
  "StartRecording E c ss path =
     (case Start_rec (ev_mp4 E) (ev_thread E) ss path (recording_queue_bytes c) Recorder_new of
        (Inl e, r) \<Rightarrow> Inl e | (Inr _, r) \<Rightarrow> Inr (path, r))"

fun start_recordings ::
    "('z, 't, 'm, 'b) env \<Rightarrow> remuxer_config \<Rightarrow> coded_stream list \<Rightarrow> out_entry list \<Rightarrow>
     (string \<times> ('m, 'b) recorder) list result" where
  "start_recordings E c ss [] = Inr []"
| "start_recordings E c ss (e # es) =
     (if en_kind e \<noteq> kRecording then start_recordings E c ss es
      else chain (StartRecording E c ss (en_actual e)) (\<lambda>r.
           chain (start_recordings E c ss es) (\<lambda>rs. Inr (r # rs))))"

text \<open>The action \<open>Start\<close> runs on the poller, up to the commit.\<close>

definition open_session ::
    "('z, 't, 'm, 'b) env \<Rightarrow> (server \<Rightarrow> bool) \<Rightarrow> remuxer_config \<Rightarrow> out_entry list \<Rightarrow> coded_stream list \<Rightarrow>
     world \<Rightarrow> (interleaver \<times> 't packet_converter \<times> timestamp_converter \<times> 'z remux_output \<times>
       (string \<times> ('m, 'b) recorder) list) result \<times> world" where
  "open_session E others c es ss w =
     (case chain (PacketInterleaver (map stream_info.truncate ss)) (\<lambda>il.
           chain (PacketConverter (ev_zlm E) ss) (\<lambda>pc.
           chain (MediaTimestampConverter (map stream_info.truncate ss)) (\<lambda>tc. Inr (il, pc, tc)))) of
        Inl e \<Rightarrow> (Inl e, w)
      | Inr (il, pc, tc) \<Rightarrow>
          (case Start_output (ev_mux E) (pc_tracks pc) (w, RemuxOutput c) of
             (Inl e, w, o') \<Rightarrow> (Inl e, w)
           | (Inr _, w, o') \<Rightarrow>
               (case prepare_all (ev_mux E) others es (w, o') of
                  (Inl e, wo) \<Rightarrow> (Inl e, fst (Close_output wo))
                | (Inr _, wo) \<Rightarrow>
                    (case start_recordings E c ss es of
                       Inl e \<Rightarrow> (Inl e, fst (Close_output wo))
                     | Inr recs \<Rightarrow> (Inr (il, pc, tc, snd wo, recs), fst wo)))))"

text \<open>Joining the recorders: \<open>None\<close> while one of them still writes.\<close>

definition join_all :: "(string \<times> ('m, 'b) recorder) list \<Rightarrow> (string \<times> ('m, 'b) recorder) list option" where
  "join_all recs = those (map (\<lambda>(p, r). map_option (Pair p) (Stop_rec r)) recs)"

definition Start_rm ::
    "('z, 't, 'm, 'b) env \<Rightarrow> (server \<Rightarrow> bool) \<Rightarrow> coded_stream list \<Rightarrow> ('z, 't, 'm, 'b) remuxer \<Rightarrow>
     (bool result \<times> ('z, 't, 'm, 'b) remuxer) option" where
  "Start_rm E others ss s =
     (if rm_running s then Some (Inr False, s)
      else map_option (\<lambda>recs.
        let s = s\<lparr>rm_error := None, rm_recs := recs, rm_info := info (rm_entries s)\<rparr> in
        case open_session E others (rm_config s) (rm_entries s) ss (rm_world s) of
          (Inl e, w) \<Rightarrow> (Inl e, s\<lparr>rm_world := w\<rparr>)
        | (Inr (il, pc, tc, o', recs), w) \<Rightarrow>
            (Inr True, s\<lparr>rm_world := w, rm_output := Some o', rm_converter := Some pc,
               rm_record_only := (rm_entries s \<noteq> [] \<and> (\<forall>e \<in> set (rm_entries s). en_kind e = kRecording)),
               rm_recs := recs, rm_streams := ss, rm_poller := True, rm_interleaver := Some il,
               rm_timestamps := Some tc, rm_queues := (rm_queues s)(rm_next s := handoff),
               rm_queue := Some (rm_next s), rm_next := rm_next s + 1,
               rm_running := True, rm_accepting := True, rm_draining := False, rm_closing := False,
               rm_scheduled := False, rm_reported := False,
               hm_in := [], hm_merged := [], hm_out := [], hm_sent := [], hm_calls := 0\<rparr>))
        (join_all (rm_recs s)))"

definition SetStartError :: "exn \<Rightarrow> ('z, 't, 'm, 'b) remuxer \<Rightarrow> ('z, 't, 'm, 'b) remuxer" where
  "SetStartError e s = (if \<not> rm_running s \<and> rm_error s = None then s\<lparr>rm_error := Some e\<rparr> else s)"

definition Remuxer_Start ::
    "('z, 't, 'm, 'b) env \<Rightarrow> (server \<Rightarrow> bool) \<Rightarrow> coded_stream list \<Rightarrow> ('z, 't, 'm, 'b) remuxer \<Rightarrow>
     (bool \<times> ('z, 't, 'm, 'b) remuxer) option" where
  "Remuxer_Start E others ss s =
     map_option (\<lambda>(r, s). case r of Inl e \<Rightarrow> (False, SetStartError e s) | Inr b \<Rightarrow> (b, s)) (Start_rm E others ss s)"

section \<open>Registering outputs\<close>

definition RequireRegisterable :: "('z, 't, 'm, 'b) remuxer \<Rightarrow> bool result" where
  "RequireRegisterable s =
     (if (rm_running s \<and> \<not> rm_accepting s) \<or> rm_draining s \<or> rm_closing s then Inl Logic_error
      else Inr (rm_running s))"

definition RequireAccepting :: "('z, 't, 'm, 'b) remuxer \<Rightarrow> unit result" where
  "RequireAccepting s = (if \<not> rm_accepting s then Inl Logic_error else Inr ())"

text \<open>
  \<open>Register\<close> up to the point where an active session is extended (control point \<open>Ctl_add\<close>), the
  extension (for a protocol output on the poller), and the commit. No other control call can run
  in between.
\<close>

definition register_commit :: "out_entry \<Rightarrow> ('z, 't, 'm, 'b) remuxer \<Rightarrow> ('z, 't, 'm, 'b) remuxer" where
  "register_commit e s =
     (case Add_entry e (rm_entries s) of
        Inl _ \<Rightarrow> s\<lparr>rm_ctl := Ctl_idle\<rparr>
      | Inr es \<Rightarrow> s\<lparr>rm_entries := es, rm_info := info es, rm_ctl := Ctl_idle\<rparr>)"

definition register_begin :: "out_entry \<Rightarrow> (('z, 't, 'm, 'b) remuxer, unit) act" where
  "register_begin e =
     andthen (\<lambda>s. (RequireRegisterable s, s)) (\<lambda>active.
     andthen (\<lambda>s. (Add_entry e (rm_entries s), s)) (\<lambda>_.
     modify (if active then (\<lambda>s. s\<lparr>rm_ctl := Ctl_add e\<rparr>) else register_commit e)))"

definition register_recording ::
    "('z, 't, 'm, 'b) env \<Rightarrow> out_entry \<Rightarrow> (('z, 't, 'm, 'b) remuxer, unit) act" where
  "register_recording E e = (\<lambda>s.
     case StartRecording E (rm_config s) (rm_streams s) (en_actual e) of
       Inl x \<Rightarrow> (Inl x, s\<lparr>rm_ctl := Ctl_idle\<rparr>)
     | Inr r \<Rightarrow>
         (case RequireAccepting s of
            Inl x \<Rightarrow> (Inl x, s\<lparr>rm_ctl := Ctl_idle\<rparr>)
          | Inr _ \<Rightarrow> (Inr (), s\<lparr>rm_recs := rm_recs s @ [r], rm_ctl := Ctl_commit e\<rparr>)))"

text \<open>Errors that pushers raise while an output is added reach the owner before the caller continues.\<close>

definition register_protocol ::
    "('z, 't, 'm, 'b) env \<Rightarrow> (server \<Rightarrow> bool) \<Rightarrow> out_entry \<Rightarrow> (('z, 't, 'm, 'b) remuxer, unit) act" where
  "register_protocol E others e = (\<lambda>s.
     case chain (RequireAccepting s) (\<lambda>_. deref (rm_output s)) of
       Inl x \<Rightarrow> (Inl x, s\<lparr>rm_ctl := Ctl_idle\<rparr>)
     | Inr o' \<Rightarrow>
         (case AddPrepared (ev_mux E) (\<lambda>x. others x \<or> x \<in> servers_of (Some o')) e (rm_world s, o') of
            (r, w, o') \<Rightarrow>
              let s = s\<lparr>rm_world := w, rm_output := Some o'\<rparr> in
              case r of
                Inl x \<Rightarrow> (Inl x, s\<lparr>rm_ctl := Ctl_idle\<rparr>)
              | Inr xs \<Rightarrow> (Inr (), (fold Error_rm xs s)\<lparr>rm_record_only := False, rm_ctl := Ctl_commit e\<rparr>)))"

text \<open>The public calls up to \<open>register_begin\<close>; a target that is registered already keeps its entry.\<close>

definition AddPushUrl ::
    "file_system \<Rightarrow> string \<Rightarrow> nat \<Rightarrow> ('z, 't, 'm, 'b) remuxer \<Rightarrow>
     (string result \<times> ('z, 't, 'm, 'b) remuxer \<times> nat) option" where
  "AddPushUrl F url n s =
     (case RequireRegisterable s of
        Inl x \<Rightarrow> Some (Inl x, s, n)
      | Inr _ \<Rightarrow>
          (case FindPush url (rm_entries s) of
             Some e \<Rightarrow> Some (Inr (en_actual e), s, n)
           | None \<Rightarrow>
               map_option (\<lambda>(r, n). case r of
                   Inl x \<Rightarrow> (Inl x, s, n)
                 | Inr e \<Rightarrow> (case register_begin e s of
                     (Inl x, s) \<Rightarrow> (Inl x, s, n) | (Inr _, s) \<Rightarrow> (Inr (en_actual e), s, n)))
                 (PreparePush F url n)))"

definition AddPublish ::
    "output_kind \<Rightarrow> string \<Rightarrow> nat \<Rightarrow> bool \<Rightarrow> (('z, 't, 'm, 'b) remuxer, string) act" where
  "AddPublish kind ip port tls =
     andthen (\<lambda>s. (PreparePublish kind (rx_app (rm_config s)) (rx_stream (rm_config s)) ip port tls, s)) (\<lambda>e.
     andthen (register_begin e) (\<lambda>_. ret (en_actual e)))"

section \<open>The poller\<close>

definition on_interleaver :: "(interleaver, 'a) act \<Rightarrow> (('z, 't, 'm, 'b) remuxer, 'a) act" where
  "on_interleaver m = (\<lambda>s. case rm_interleaver s of None \<Rightarrow> (Inl Undefined_behaviour, s)
     | Some il \<Rightarrow> (case m il of (r, il') \<Rightarrow> (r, s\<lparr>rm_interleaver := Some il'\<rparr>)))"

definition on_timestamps :: "(timestamp_converter, 'a) act \<Rightarrow> (('z, 't, 'm, 'b) remuxer, 'a) act" where
  "on_timestamps m = (\<lambda>s. case rm_timestamps s of None \<Rightarrow> (Inl Undefined_behaviour, s)
     | Some tc \<Rightarrow> (case m tc of (r, tc') \<Rightarrow> (r, s\<lparr>rm_timestamps := Some tc'\<rparr>)))"

definition on_converter :: "('t packet_converter, 'a) act \<Rightarrow> (('z, 't, 'm, 'b) remuxer, 'a) act" where
  "on_converter m = (\<lambda>s. case rm_converter s of None \<Rightarrow> (Inl Undefined_behaviour, s)
     | Some pc \<Rightarrow> (case m pc of (r, pc') \<Rightarrow> (r, s\<lparr>rm_converter := Some pc'\<rparr>)))"

definition on_out :: "('z remux_output, 'a) act \<Rightarrow> (('z, 't, 'm, 'b) remuxer, 'a) act" where
  "on_out m = (\<lambda>s. case rm_output s of None \<Rightarrow> (Inl Undefined_behaviour, s)
     | Some o' \<Rightarrow> (case m o' of (r, o'') \<Rightarrow> (r, s\<lparr>rm_output := Some o''\<rparr>)))"

definition TryPop_handoff :: "(('z, 't, 'm, 'b) remuxer, av_packet option) act" where
  "TryPop_handoff = (\<lambda>s. case rm_queue s of None \<Rightarrow> (Inl Undefined_behaviour, s)
     | Some g \<Rightarrow> (case pop_body True (rm_queues s g) of
         ((r, k), q, _) \<Rightarrow> (chain r (\<lambda>_. Inr k), s\<lparr>rm_queues := (rm_queues s)(g := q)\<rparr>)))"

text \<open>The locked part of \<open>Process\<close>: the first packets, the released packets, whether to finish.\<close>

definition process_locked ::
    "('z, 't, 'm, 'b) env \<Rightarrow> (('z, 't, 'm, 'b) remuxer, av_packet list \<times> av_packet list \<times> bool) act" where
  "process_locked E =
     andthen TryPop_handoff (\<lambda>k.
     andthen (case k of None \<Rightarrow> ret ()
              | Some p \<Rightarrow> andthen (on_interleaver (Push (ev_lib E) (Some p))) (\<lambda>_.
                  modify (\<lambda>s. s\<lparr>hm_merged := hm_merged s @ [p]\<rparr>))) (\<lambda>_.
     andthen (on_timestamps (gets shift_ms)) (\<lambda>shift.
     andthen (if shift = None then on_interleaver (gets FirstPackets) else ret []) (\<lambda>first.
     andthen (gets rm_draining) (\<lambda>finish.
     andthen (on_interleaver (PopReady (ev_lib E) finish)) (\<lambda>ks.
     andthen (modify (\<lambda>s. s\<lparr>hm_out := hm_out s @ ks, rm_scheduled := False\<rparr>)) (\<lambda>_.
     ret (first, ks, finish))))))))"

text \<open>The common shift, and which tracks still have to be announced at the end of the stream.\<close>

definition process_init ::
    "('z, 't, 'm, 'b) env \<Rightarrow> av_packet list \<Rightarrow> av_packet list \<Rightarrow> bool \<Rightarrow> (('z, 't, 'm, 'b) remuxer, int list) act" where
  "process_init E first ks finish =
     andthen (on_timestamps (gets shift_ms)) (\<lambda>shift.
     andthen (if ks \<noteq> [] \<and> shift = None then on_timestamps (Initialize_shift (ev_lib E) first) else ret ()) (\<lambda>_.
     andthen (gets rm_record_only) (\<lambda>ro.
     if finish \<and> \<not> ro
     then andthen (on_out (gets (tracks_ready (ev_mux E)))) (\<lambda>ready.
          ret (if ready then [] else map pk_stream ks))
     else ret [])))"

definition Process_take ::
    "('z, 't, 'm, 'b) env \<Rightarrow> ('z, 't, 'm, 'b) remuxer \<Rightarrow> ('z, 't, 'm, 'b) remuxer" where
  "Process_take E s =
     (if \<not> rm_running s \<or> rm_closing s then s\<lparr>rm_scheduled := False\<rparr>
      else case process_locked E s of
        (Inl e, s) \<Rightarrow> s\<lparr>rm_point := P_error e\<rparr>
      | (Inr (first, ks, finish), s) \<Rightarrow>
          (case process_init E first ks finish s of
             (Inl e, s') \<Rightarrow> s'\<lparr>rm_point := P_error e\<rparr>
           | (Inr eof, s') \<Rightarrow> s'\<lparr>rm_point := P_deliver ks (length (rm_recs s)) finish eof\<rparr>))"

text \<open>The recordings of the snapshot get the packet; a refusal is ignored, an exception is not.\<close>

fun submit_all ::
    "64 word \<Rightarrow> av_packet \<Rightarrow> (string \<times> ('m, 'b) recorder) list \<Rightarrow>
     unit result \<times> (string \<times> ('m, 'b) recorder) list" where
  "submit_all h k [] = (Inr (), [])"
| "submit_all h k ((p, r) # rs) =
     (case TrySubmitPacket h (Some k) r of
        (Inl e, r) \<Rightarrow> (Inl e, (p, r) # rs)
      | (Inr _, r) \<Rightarrow> (case submit_all h k rs of (x, rs) \<Rightarrow> (x, (p, r) # rs)))"

definition deliver_recordings ::
    "('z, 't, 'm, 'b) env \<Rightarrow> nat \<Rightarrow> av_packet \<Rightarrow> (('z, 't, 'm, 'b) remuxer, unit) act" where
  "deliver_recordings E n k = (\<lambda>s. case submit_all (ev_header E) k (take n (rm_recs s)) of
     (x, rs) \<Rightarrow> (x, s\<lparr>rm_recs := rs @ drop n (rm_recs s)\<rparr>))"

text \<open>One turn of the delivery loop; the result is the set of tracks still to be announced.\<close>

definition deliver_packet ::
    "('z, 't, 'm, 'b) env \<Rightarrow> nat \<Rightarrow> av_packet \<Rightarrow> int list \<Rightarrow> (('z, 't, 'm, 'b) remuxer, int list) act" where
  "deliver_packet E n k eof =
     andthen (deliver_recordings E n k) (\<lambda>_.
     andthen (gets rm_record_only) (\<lambda>ro.
     if ro then ret eof
     else andthen (on_timestamps (\<lambda>tc. (Convert_timestamps (ev_lib E) tc (Some k), tc))) (\<lambda>t.
          andthen (on_converter (Convert (ev_lib E) (ev_zlm E) (Some k) (dts_ms t) (pts_ms t))) (\<lambda>f.
          case f of
            None \<Rightarrow> ret eof
          | Some frame \<Rightarrow>
              andthen (on_out (InputFrame (ev_mux E) frame)) (\<lambda>_.
              if eof = [] then ret []
              else let rest = filter (\<lambda>i. i \<noteq> pk_stream k) eof in
                   andthen (on_out (gets (tracks_ready (ev_mux E)))) (\<lambda>ready.
                   if rest = [] \<and> \<not> ready then andthen (on_out (Flush_output (ev_mux E))) (\<lambda>_. ret [])
                   else ret rest))))))"

definition close_section :: "('z, 't, 'm, 'b) remuxer \<Rightarrow> ('z, 't, 'm, 'b) remuxer" where
  "close_section s = (close_handoff (s\<lparr>rm_accepting := False\<rparr>))\<lparr>rm_closing := True, rm_point := P_flush\<rparr>"

definition Finish_rm :: "('z, 't, 'm, 'b) remuxer \<Rightarrow> ('z, 't, 'm, 'b) remuxer" where
  "Finish_rm s =
     (let s = (case rm_output s of None \<Rightarrow> s
               | Some o' \<Rightarrow> s\<lparr>rm_world := fst (Close_output (rm_world s, o'))\<rparr>)
      in s\<lparr>rm_output := None, rm_converter := None, rm_timestamps := None, rm_record_only := False,
           rm_recs := map (\<lambda>(p, r). (p, Drain_rec r)) (rm_recs s), rm_tasks := rm_tasks s @ [T_end]\<rparr>)"

definition end_section :: "('z, 't, 'm, 'b) remuxer \<Rightarrow> ('z, 't, 'm, 'b) remuxer" where
  "end_section s = s\<lparr>rm_queue := None, rm_interleaver := None, rm_running := False, rm_scheduled := False\<rparr>"

text \<open>One step of the poller: the next task, or the next part of \<open>Process\<close>.\<close>

definition poll :: "('z, 't, 'm, 'b) env \<Rightarrow> ('z, 't, 'm, 'b) remuxer \<Rightarrow> ('z, 't, 'm, 'b) remuxer" where
  "poll E s =
     (case rm_point s of
        P_idle \<Rightarrow> (case rm_tasks s of
            [] \<Rightarrow> s
          | T_process # ts \<Rightarrow> Process_take E (s\<lparr>rm_tasks := ts\<rparr>)
          | T_finish # ts \<Rightarrow> Finish_rm (s\<lparr>rm_tasks := ts\<rparr>)
          | T_end # ts \<Rightarrow> end_section (s\<lparr>rm_tasks := ts\<rparr>))
      | P_deliver ks n finish eof \<Rightarrow>
          (case ks of
             [] \<Rightarrow> s\<lparr>rm_point := (if finish then P_closing else P_idle)\<rparr>
           | k # ks' \<Rightarrow> (case deliver_packet E n k eof s of
               (Inl e, s) \<Rightarrow> s\<lparr>rm_point := P_error e\<rparr>
             | (Inr eof', s) \<Rightarrow> s\<lparr>rm_point := P_deliver ks' n finish eof', hm_sent := hm_sent s @ [k]\<rparr>))
      | P_error e \<Rightarrow> (Error_rm e s)\<lparr>rm_point := P_closing\<rparr>
      | P_closing \<Rightarrow> close_section s
      | P_flush \<Rightarrow>
          if rm_record_only s then s\<lparr>rm_point := P_post\<rparr>
          else (case on_out (Flush_output (ev_mux E)) s of
                  (Inl e, s) \<Rightarrow> s\<lparr>rm_point := P_flush_error e\<rparr>
                | (Inr _, s) \<Rightarrow> s\<lparr>rm_point := P_post\<rparr>)
      | P_flush_error e \<Rightarrow> (Error_rm e s)\<lparr>rm_point := P_post\<rparr>
      | P_post \<Rightarrow> s\<lparr>rm_point := P_idle, rm_tasks := rm_tasks s @ [T_finish]\<rparr>)"

section \<open>Stopping\<close>

definition stop_end :: "bool \<Rightarrow> ('z, 't, 'm, 'b) remuxer \<Rightarrow> ('z, 't, 'm, 'b) remuxer" where
  "stop_end join s = s\<lparr>rm_entries := [], rm_draining := False, rm_closing := False,
     rm_ctl := (if join then Ctl_join else Ctl_idle)\<rparr>"

end
