(* ===== verification/Remuxer_Inv.thy ===== *)
theory Remuxer_Inv
  imports Remuxer
begin

text \<open>
  All interleavings of a remuxer: any number of producers, one control thread, ZLM's callbacks, the
  recorder threads and the output poller. The invariants say where the accepted packets are and
  which task is still owed; every step keeps them.
\<close>

section \<open>Interleavings\<close>

inductive remuxing ::
    "('z, 't, 'm, 'b) env \<Rightarrow> av_rational set \<Rightarrow> ('z, 't, 'm, 'b) remuxer \<Rightarrow> bool" for E tbs where
  create: "remuxing E tbs (Remuxer_new c)"
| world: "remuxing E tbs s \<Longrightarrow> remuxing E tbs (s\<lparr>rm_world := w\<rparr>)"
| begin_session: "remuxing E tbs s \<Longrightarrow> rm_ctl s = Ctl_idle \<Longrightarrow> rm_point s = P_idle \<Longrightarrow>
    Remuxer_Start E others ss s = Some (b, t) \<Longrightarrow> remuxing E tbs t"
| admit: "remuxing E tbs s \<Longrightarrow> submit_admit E on_poller (Some k) s = Inr (Some g) \<Longrightarrow> regular tbs k \<Longrightarrow>
    remuxing E tbs (s\<lparr>rm_producers := rm_producers s + {#Admitted g k#}\<rparr>)"
| push: "remuxing E tbs s \<Longrightarrow> rm_producers s = M + {#Admitted g k#} \<Longrightarrow> push_ready (rm_queues s g) \<Longrightarrow>
    submit_push g k s = (r, t) \<Longrightarrow>
    remuxing E tbs (t\<lparr>rm_producers := M + (if r = Inr KSuccess then {#Pushed g#} else {#})\<rparr>)"
| tail: "remuxing E tbs s \<Longrightarrow> rm_producers s = M + {#Pushed g#} \<Longrightarrow>
    remuxing E tbs ((submit_tail g s)\<lparr>rm_producers := M\<rparr>)"
| drain: "remuxing E tbs s \<Longrightarrow> remuxing E tbs (Drain_rm s)"
| add_push: "remuxing E tbs s \<Longrightarrow> rm_ctl s = Ctl_idle \<Longrightarrow> AddPushUrl F url n s = Some (r, t, m) \<Longrightarrow>
    remuxing E tbs t"
| add_publish: "remuxing E tbs s \<Longrightarrow> rm_ctl s = Ctl_idle \<Longrightarrow> AddPublish kind ip port tls s = (q, t) \<Longrightarrow>
    remuxing E tbs t"
| add_recording: "remuxing E tbs s \<Longrightarrow> rm_ctl s = Ctl_add e \<Longrightarrow> en_kind e = kRecording \<Longrightarrow>
    register_recording E e s = (u, t) \<Longrightarrow> remuxing E tbs t"
| add_protocol: "remuxing E tbs s \<Longrightarrow> rm_ctl s = Ctl_add e \<Longrightarrow> en_kind e \<noteq> kRecording \<Longrightarrow>
    rm_point s = P_idle \<Longrightarrow> register_protocol E others e s = (u, t) \<Longrightarrow> remuxing E tbs t"
| commit: "remuxing E tbs s \<Longrightarrow> rm_ctl s = Ctl_commit e \<Longrightarrow> remuxing E tbs (register_commit e s)"
| stop: "remuxing E tbs s \<Longrightarrow> rm_ctl s = Ctl_idle \<Longrightarrow>
    remuxing E tbs ((Drain_rm s)\<lparr>rm_ctl := Ctl_wait join\<rparr>)"
| stopped: "remuxing E tbs s \<Longrightarrow> rm_ctl s = Ctl_wait join \<Longrightarrow> \<not> rm_running s \<Longrightarrow>
    remuxing E tbs (stop_end join s)"
| joined: "remuxing E tbs s \<Longrightarrow> rm_ctl s = Ctl_join \<Longrightarrow> join_all (rm_recs s) = Some recs \<Longrightarrow>
    remuxing E tbs (s\<lparr>rm_recs := recs, rm_ctl := Ctl_idle\<rparr>)"
| registered: "remuxing E tbs s \<Longrightarrow> rm_output s = Some o' \<Longrightarrow> onRegist (ev_mux E) sc on o' = (Inr es, o'') \<Longrightarrow>
    remuxing E tbs (fold Error_rm es (s\<lparr>rm_output := Some o''\<rparr>))"
| pusher_closed: "remuxing E tbs s \<Longrightarrow> rm_output s = Some o' \<Longrightarrow> \<not> ro_closed o' \<Longrightarrow>
    remuxing E tbs (Error_rm e s)"
| recorder_thread: "remuxing E tbs s \<Longrightarrow> i < length (rm_recs s) \<Longrightarrow> rm_recs s ! i = (p, r) \<Longrightarrow>
    worker_rec (ev_lib E) (ev_file E) (ev_header E) r = Some r' \<Longrightarrow>
    remuxing E tbs (s\<lparr>rm_recs := (rm_recs s)[i := (p, r')]\<rparr>)"
| poller: "remuxing E tbs s \<Longrightarrow> remuxing E tbs (poll E s)"

section \<open>Invariants\<close>

definition cur :: "('z, 't, 'm, 'b) remuxer \<Rightarrow> av_packet bq" where
  "cur s = rm_queues s (the (rm_queue s))"

text \<open>The poller is past the decision to finish, or about to take it after an exception.\<close>

fun finishing :: "poll_point \<Rightarrow> bool" where
  "finishing P_idle = False"
| "finishing (P_deliver ks n f eof) = f"
| "finishing p = True"

fun failing :: "poll_point \<Rightarrow> bool" where
  "failing (P_error e) = True"
| "failing p = False"

lemma failing_finishing: "failing p \<Longrightarrow> finishing p"
  by (cases p) simp_all

fun delivering :: "poll_point \<Rightarrow> av_packet list" where
  "delivering (P_deliver ks n f eof) = ks"
| "delivering p = []"

definition pends :: "('z, 't, 'm, 'b) remuxer \<Rightarrow> bool" where
  "pends s \<longleftrightarrow> rm_tasks s = [T_process]"

text \<open>Which tasks are queued at which point of the session.\<close>

definition shape :: "('z, 't, 'm, 'b) remuxer \<Rightarrow> bool" where
  "shape s \<longleftrightarrow>
     (if \<not> rm_running s then rm_tasks s = [] \<and> rm_point s = P_idle \<and> rm_queue s = None
      else (\<exists>g < rm_next s. rm_queue s = Some g) \<and> (\<exists>il. rm_interleaver s = Some il) \<and>
       (case rm_point s of
          P_idle \<Rightarrow> if rm_closing s
             then rm_tasks s = [T_process, T_finish] \<or> rm_tasks s = [T_finish] \<or> rm_tasks s = [T_end]
             else rm_tasks s = [] \<or> pends s
        | P_deliver ks n f eof \<Rightarrow> \<not> rm_closing s \<and> (rm_tasks s = [] \<or> pends s)
        | P_error e \<Rightarrow> \<not> rm_closing s \<and> (rm_tasks s = [] \<or> pends s)
        | P_closing \<Rightarrow> \<not> rm_closing s \<and> (rm_tasks s = [] \<or> pends s)
        | P_flush \<Rightarrow> rm_closing s \<and> (rm_tasks s = [] \<or> pends s)
        | P_flush_error e \<Rightarrow> rm_closing s \<and> (rm_tasks s = [] \<or> pends s)
        | P_post \<Rightarrow> rm_closing s \<and> (rm_tasks s = [] \<or> pends s)))"

definition flow :: "('z, 't, 'm, 'b) remuxer \<Rightarrow> bool" where
  "flow s \<longleftrightarrow>
     (rm_accepting s \<longrightarrow> rm_running s \<and> \<not> rm_draining s \<and> \<not> rm_closing s) \<and>
     (rm_running s \<longrightarrow> \<not> rm_closing s \<longrightarrow>
        (pends s \<longrightarrow> rm_scheduled s) \<and>
        (rm_scheduled s \<longrightarrow> pends s \<or> failing (rm_point s) \<or> rm_point s = P_closing) \<and>
        (rm_draining s \<longrightarrow> pends s \<or> finishing (rm_point s))) \<and>
     (rm_running s \<longrightarrow> finishing (rm_point s) \<longrightarrow> rm_draining s \<or> failing (rm_point s)) \<and>
     (rm_running s \<longrightarrow> rm_closing s \<longrightarrow> rm_draining s)"

definition queues_ok :: "('z, 't, 'm, 'b) remuxer \<Rightarrow> bool" where
  "queues_ok s \<longleftrightarrow>
     (\<forall>g. capacity (rm_queues s g) = 1 \<and> length (items (rm_queues s g)) \<le> 1) \<and>
     (\<forall>g < rm_next s. rm_queue s \<noteq> Some g \<longrightarrow> bq.closed (rm_queues s g)) \<and>
     (\<forall>p \<in># rm_producers s. \<forall>g k. p = Admitted g k \<longrightarrow> g < rm_next s) \<and>
     (rm_running s \<longrightarrow> rm_draining s \<longrightarrow> bq.closed (cur s))"

definition owed_ok :: "('z, 't, 'm, 'b) remuxer \<Rightarrow> bool" where
  "owed_ok s \<longleftrightarrow>
     (rm_running s \<longrightarrow> \<not> rm_closing s \<longrightarrow> items (cur s) \<noteq> [] \<longrightarrow>
        pends s \<or> Pushed (the (rm_queue s)) \<in># rm_producers s \<or> finishing (rm_point s))"

definition complete :: "('z, 't, 'm, 'b) remuxer \<Rightarrow> bool" where
  "complete s \<longleftrightarrow> hm_in s = hm_merged s \<and>
     (\<forall>i. filter (\<lambda>k. pk_stream k = i) (hm_merged s) = filter (\<lambda>k. pk_stream k = i) (hm_out s))"

definition history :: "av_lib \<Rightarrow> av_rational set \<Rightarrow> ('z, 't, 'm, 'b) remuxer \<Rightarrow> bool" where
  "history L tbs s \<longleftrightarrow>
     (\<forall>p \<in># rm_producers s. \<forall>g k. p = Admitted g k \<longrightarrow> regular tbs k) \<and>
     (rm_running s \<longrightarrow> (\<forall>k \<in> set (items (cur s)). regular tbs k) \<and>
        (\<exists>ss il. rm_interleaver s = Some il \<and> merge_session L ss tbs False il (hm_merged s) (hm_out s))) \<and>
     (rm_reported s \<or> failing (rm_point s) \<or>
        (rm_running s \<longrightarrow> hm_in s = hm_merged s @ items (cur s)) \<and>
        hm_sent s @ delivering (rm_point s) = hm_out s \<and>
        (\<not> rm_running s \<or> rm_closing s \<or> finishing (rm_point s) \<longrightarrow> complete s))"

definition calls_ok :: "('z, 't, 'm, 'b) remuxer \<Rightarrow> bool" where
  "calls_ok s \<longleftrightarrow> hm_calls s = (if rm_reported s then 1 else 0) \<and>
     (rm_reported s \<longrightarrow> \<not> rm_accepting s \<and> (rm_running s \<longrightarrow> rm_draining s))"

definition parts_ok :: "('z, 't, 'm, 'b) remuxer \<Rightarrow> bool" where
  "parts_ok s \<longleftrightarrow> (rm_running s \<longrightarrow> rm_tasks s \<noteq> [T_end] \<longrightarrow>
     rm_output s \<noteq> None \<and> rm_converter s \<noteq> None \<and> rm_timestamps s \<noteq> None)"

definition rm_inv :: "av_lib \<Rightarrow> av_rational set \<Rightarrow> ('z, 't, 'm, 'b) remuxer \<Rightarrow> bool" where
  "rm_inv L tbs s \<longleftrightarrow>
     shape s \<and> flow s \<and> queues_ok s \<and> owed_ok s \<and> history L tbs s \<and> calls_ok s \<and> parts_ok s"

lemmas rm_inv_defs = shape_def flow_def queues_ok_def owed_ok_def history_def calls_ok_def parts_ok_def
  complete_def pends_def cur_def

text \<open>The invariant does not depend on the other fields.\<close>

definition same_core :: "('z, 't, 'm, 'b) remuxer \<Rightarrow> ('z, 't, 'm, 'b) remuxer \<Rightarrow> bool" where
  "same_core s t \<longleftrightarrow>
     rm_queues t = rm_queues s \<and> rm_next t = rm_next s \<and> rm_queue t = rm_queue s \<and>
     rm_running t = rm_running s \<and> rm_accepting t = rm_accepting s \<and> rm_draining t = rm_draining s \<and>
     rm_closing t = rm_closing s \<and> rm_scheduled t = rm_scheduled s \<and> rm_reported t = rm_reported s \<and>
     (rm_output t = None \<longleftrightarrow> rm_output s = None) \<and> (rm_converter t = None \<longleftrightarrow> rm_converter s = None) \<and>
     (rm_timestamps t = None \<longleftrightarrow> rm_timestamps s = None) \<and> rm_interleaver t = rm_interleaver s \<and>
     rm_tasks t = rm_tasks s \<and> rm_producers t = rm_producers s \<and> hm_in t = hm_in s \<and>
     hm_merged t = hm_merged s \<and> hm_out t = hm_out s \<and> hm_calls t = hm_calls s \<and>
     rm_point t = rm_point s \<and> hm_sent t = hm_sent s"

lemma core_inv:
  assumes "same_core s t" and "rm_inv L tbs s"
  shows "rm_inv L tbs t"
proof -
  have c: "cur t = cur s" "pends t = pends s" "complete t = complete s"
    using assms(1) by (simp_all add: same_core_def cur_def pends_def complete_def)
  note e = assms(1) [unfolded same_core_def] c
  have "shape t = shape s" by (simp only: shape_def e)
  moreover have "flow t = flow s" by (simp only: flow_def e)
  moreover have "queues_ok t = queues_ok s" by (simp only: queues_ok_def e)
  moreover have "owed_ok t = owed_ok s" by (simp only: owed_ok_def e)
  moreover have "history L tbs t = history L tbs s" by (simp only: history_def e)
  moreover have "calls_ok t = calls_ok s" by (simp only: calls_ok_def e)
  moreover have "parts_ok t = parts_ok s" by (simp only: parts_ok_def e)
  ultimately show ?thesis using assms(2) by (simp add: rm_inv_def)
qed

section \<open>Draining and errors\<close>

lemma close_body_fst [simp]: "fst (close_body q) = q\<lparr>closed := True\<rparr>"
  by (simp add: close_body_def)

text \<open>\<open>stop_intake\<close> is what \<open>Drain\<close> and \<open>Error\<close> share.\<close>

definition stop_intake :: "('z, 't, 'm, 'b) remuxer \<Rightarrow> ('z, 't, 'm, 'b) remuxer" where
  "stop_intake s = (let s' = (close_handoff (s\<lparr>rm_accepting := False\<rparr>))\<lparr>rm_draining := True\<rparr>
     in if rm_closing s then s' else Schedule_rm s')"

lemma stop_intake_eq:
  assumes "rm_queue s = Some g"
  shows "stop_intake s = s\<lparr>rm_accepting := False, rm_draining := True,
    rm_queues := (rm_queues s)(g := (rm_queues s g)\<lparr>closed := True\<rparr>),
    rm_scheduled := rm_scheduled s \<or> \<not> rm_closing s,
    rm_tasks := (if rm_scheduled s \<or> rm_closing s then rm_tasks s else rm_tasks s @ [T_process])\<rparr>"
  using assms by (simp add: stop_intake_def close_handoff_def Schedule_rm_def Let_def)

lemma stop_intake_inv:
  assumes "rm_inv L tbs s" and "rm_running s"
  shows "rm_inv L tbs (stop_intake s)"
proof -
  from assms obtain g where g: "rm_queue s = Some g" "g < rm_next s"
    by (auto simp: rm_inv_def shape_def)
  have i: "shape s" "flow s" "queues_ok s" "owed_ok s" "history L tbs s" "calls_ok s" "parts_ok s"
    using assms(1) by (simp_all add: rm_inv_def)
  let ?t = "stop_intake s"
  note t = stop_intake_eq [OF g(1)]
  have f: "rm_running ?t = rm_running s" "rm_point ?t = rm_point s" "rm_closing ?t = rm_closing s"
    "rm_queue ?t = rm_queue s" "rm_next ?t = rm_next s" "rm_interleaver ?t = rm_interleaver s"
    "rm_tasks ?t = (if rm_scheduled s \<or> rm_closing s then rm_tasks s else rm_tasks s @ [T_process])"
    "rm_scheduled ?t = (rm_scheduled s \<or> \<not> rm_closing s)" "rm_accepting ?t = False"
    "rm_draining ?t = True" "rm_reported ?t = rm_reported s" "rm_producers ?t = rm_producers s"
    "rm_output ?t = rm_output s" "rm_converter ?t = rm_converter s" "rm_timestamps ?t = rm_timestamps s"
    "hm_in ?t = hm_in s" "hm_merged ?t = hm_merged s" "hm_out ?t = hm_out s" "hm_sent ?t = hm_sent s"
    "hm_calls ?t = hm_calls s" "items (cur ?t) = items (cur s)" "bq.closed (cur ?t)"
    "rm_queues ?t = (rm_queues s)(g := (rm_queues s g)\<lparr>closed := True\<rparr>)"
    by (simp_all add: t cur_def g)
  have pend: "rm_tasks s = [] \<or> rm_tasks s = [T_process]" "rm_tasks s = [T_process] \<longrightarrow> rm_scheduled s"
    if "\<not> rm_closing s"
    using that i(1,2) assms(2) by (cases "rm_point s"; simp add: shape_def flow_def pends_def; fail)+
  have tasks: "rm_tasks ?t = rm_tasks s \<or> rm_tasks ?t = [T_process] \<and> rm_tasks s = []"
    "\<not> rm_closing s \<Longrightarrow> rm_tasks ?t = [T_process] \<or> rm_scheduled s \<and> rm_tasks s = [] \<and> rm_tasks ?t = []"
    using pend unfolding f by auto
  have "shape ?t"
    using i(1) tasks(1) assms(2) unfolding shape_def pends_def f(1-6)
    by (cases "rm_point s") (auto simp del: f)
  moreover have "flow ?t"
    using i(2) tasks(2) assms(2) failing_finishing [of "rm_point s"]
    unfolding flow_def pends_def f(1-3,8-10) by auto
  moreover have "queues_ok ?t" using i(3) g f(22) unfolding queues_ok_def f by simp
  moreover have "owed_ok ?t"
    using i(2,4) tasks(2) assms(2) failing_finishing [of "rm_point s"] unfolding owed_ok_def flow_def pends_def f(1-6,12,21) by auto
  moreover have "history L tbs ?t" using i(5) unfolding history_def complete_def f .
  moreover have "calls_ok ?t" using i(6) unfolding calls_ok_def f by simp
  moreover have "parts_ok ?t" using i(7) tasks(1) unfolding parts_ok_def f(1,13-15) by auto
  ultimately show ?thesis by (simp add: rm_inv_def)
qed

lemma Drain_eq: "Drain_rm s = (if \<not> rm_running s \<or> rm_closing s then s else stop_intake s)"
  by (simp add: Drain_rm_def stop_intake_def Let_def)

lemma Drain_rm_inv: "rm_inv L tbs s \<Longrightarrow> rm_inv L tbs (Drain_rm s)"
  by (simp add: Drain_eq stop_intake_inv)

lemma Error_eq:
  "Error_rm e s =
     (if \<not> rm_running s \<or> rm_reported s then s
      else (stop_intake s)\<lparr>rm_reported := True, hm_calls := hm_calls s + 1,
             rm_error := (case rm_error s of None \<Rightarrow> Some e | Some x \<Rightarrow> Some x)\<rparr>)"
  by (cases "rm_queue s")
    (simp_all add: Error_rm_def stop_intake_def close_handoff_def Schedule_rm_def Let_def)

lemma Error_inv:
  assumes "rm_inv L tbs s"
  shows "rm_inv L tbs (Error_rm e s)"
proof (cases "\<not> rm_running s \<or> rm_reported s")
  case False
  let ?t = "stop_intake s"
  let ?u = "?t\<lparr>rm_reported := True, hm_calls := hm_calls s + 1,
      rm_error := (case rm_error s of None \<Rightarrow> Some e | Some x \<Rightarrow> Some x)\<rparr>"
  have i: "rm_inv L tbs ?t" using False assms by (simp add: stop_intake_inv)
  obtain g where g: "rm_queue s = Some g" using False assms by (auto simp: rm_inv_def shape_def)
  have r: "hm_calls s = 0" using False assms by (auto simp: rm_inv_def calls_ok_def)
  have "shape ?u = shape ?t" by (simp add: shape_def pends_def cong: poll_point.case_cong)
  moreover have "flow ?u = flow ?t" by (simp add: flow_def pends_def)
  moreover have "queues_ok ?u = queues_ok ?t" by (simp add: queues_ok_def cur_def)
  moreover have "owed_ok ?u = owed_ok ?t" by (simp add: owed_ok_def pends_def cur_def)
  moreover have "parts_ok ?u = parts_ok ?t" by (simp add: parts_ok_def)
  moreover have "history L tbs ?t \<Longrightarrow> history L tbs ?u" by (simp add: history_def cur_def)
  moreover have "calls_ok ?u" unfolding stop_intake_eq [OF g] by (simp add: calls_ok_def r)
  ultimately have "rm_inv L tbs ?u" using i unfolding rm_inv_def by blast
  with False show ?thesis by (simp add: Error_eq)
qed (simp add: Error_eq assms)

lemma Errors_inv: "rm_inv L tbs s \<Longrightarrow> rm_inv L tbs (fold Error_rm es s)"
  by (induction es arbitrary: s) (simp_all add: Error_inv)

section \<open>Operations that leave the flow of packets alone\<close>

definition framed :: "(('z, 't, 'm, 'b) remuxer, 'a) act \<Rightarrow> bool" where
  "framed m \<longleftrightarrow> (\<forall>s r t. m s = (r, t) \<longrightarrow> same_core s t)"

named_theorems frames \<open>computations that keep the core of the state\<close>

lemma same_core_refl [simp]: "same_core s s"
  by (simp add: same_core_def)

lemma same_core_trans: "same_core s t \<Longrightarrow> same_core t u \<Longrightarrow> same_core s u"
  unfolding same_core_def by simp

lemma framedD: "framed m \<Longrightarrow> m s = (r, t) \<Longrightarrow> same_core s t"
  by (simp add: framed_def)

lemma framed_basic [frames]:
  "framed (ret a)" "framed (lift x)" "framed (gets f)" "framed (\<lambda>s. (g s, s))"
  by (simp_all add: framed_def act_defs)

lemma framed_modify [frames]: "(\<And>s. same_core s (f s)) \<Longrightarrow> framed (modify f)"
  by (simp add: framed_def act_defs)

lemma framed_andthen [frames]: "framed m \<Longrightarrow> (\<And>a. framed (k a)) \<Longrightarrow> framed (andthen m k)"
  unfolding framed_def andthen_def
proof (intro allI impI)
  fix s r t
  assume m: "\<forall>s r t. m s = (r, t) \<longrightarrow> same_core s t"
    and k: "\<And>a. \<forall>s r t. k a s = (r, t) \<longrightarrow> same_core s t"
    and x: "(case m s of (Inl e, s') \<Rightarrow> (Inl e, s') | (Inr a, s') \<Rightarrow> k a s') = (r, t)"
  obtain y u where y: "m s = (y, u)" by fastforce
  with m have su: "same_core s u" by blast
  show "same_core s t"
  proof (cases y)
    case (Inr a)
    with x y have "k a u = (r, t)" by simp
    with k have "same_core u t" by blast
    with su show ?thesis by (rule same_core_trans)
  qed (use x y su in auto)
qed

lemma framed_if [frames]: "framed m \<Longrightarrow> framed n \<Longrightarrow> framed (if b then m else n)"
  by simp

lemma framed_on [frames]:
  "framed (on_timestamps m)" "framed (on_converter m')" "framed (on_out m'')" "framed (deliver_recordings E n k)"
  by (auto simp: framed_def same_core_def on_timestamps_def on_converter_def on_out_def deliver_recordings_def
      split: option.splits prod.splits)

lemma framed_deliver: "framed (deliver_packet E n k eof)"
  unfolding deliver_packet_def
  by (intro frames) (auto simp: Let_def split: option.split intro!: frames)

lemma framed_init: "framed (process_init E first ks finish)"
  unfolding process_init_def by (intro frames)

lemma commit_frame: "same_core s (register_commit e s)"
  by (auto simp: register_commit_def same_core_def split: sum.splits)

lemma core_ctl [simp]: "same_core s (s\<lparr>rm_ctl := c\<rparr>)"
  by (simp add: same_core_def)

lemma framed_begin: "framed (register_begin e)"
  unfolding register_begin_def by (intro frames) (simp add: commit_frame split: if_splits)

lemma framed_publish: "framed (AddPublish kind ip port tls)"
  unfolding AddPublish_def by (intro frames framed_begin)

lemma framed_recording: "framed (register_recording E e)"
  by (auto simp: framed_def register_recording_def same_core_def split: sum.splits)

lemma push_url_frame:
  assumes "AddPushUrl F url n s = Some (r, t, m)"
  shows "same_core s t"
proof -
  have "s = t \<or> (\<exists>e u. register_begin e s = (u, t))"
  proof (cases "RequireRegisterable s")
    case (Inr act)
    show ?thesis
    proof (cases "FindPush url (rm_entries s)")
      case None
      with assms Inr obtain q j where q: "PreparePush F url n = Some (q, j)"
        by (auto simp: AddPushUrl_def)
      then show ?thesis
      proof (cases q)
        case (Inr e)
        obtain x u where "register_begin e s = (x, u)" by fastforce
        with assms \<open>RequireRegisterable s = Inr act\<close> None q Inr show ?thesis
          by (cases x) (auto simp: AddPushUrl_def)
      qed (use assms Inr None q in \<open>simp add: AddPushUrl_def\<close>)
    qed (use assms Inr in \<open>simp add: AddPushUrl_def\<close>)
  qed (use assms in \<open>simp add: AddPushUrl_def\<close>)
  then show ?thesis using framedD [OF framed_begin] by (elim disjE exE) (simp, blast)
qed

lemma protocol_inv:
  assumes "register_protocol E others e s = (u, t)" and "rm_inv L tbs s"
  shows "rm_inv L tbs t"
proof -
  obtain x where s0: "same_core s x" and
    t: "t = x \<or> (\<exists>xs. t = (fold Error_rm xs x)\<lparr>rm_record_only := False, rm_ctl := Ctl_commit e\<rparr>)"
  proof (cases "chain (RequireAccepting s) (\<lambda>_. deref (rm_output s))")
    case (Inl x)
    with assms(1) that [of t] show ?thesis by (auto simp: register_protocol_def)
  next
    case (Inr o')
    obtain y w o'' where a: "AddPrepared (ev_mux E) (\<lambda>x. others x \<or> x \<in> servers_of (Some o')) e (rm_world s, o') =
        (y, w, o'')" by (metis prod_cases3)
    have "rm_output s = Some o'" using Inr by simp
    then have c: "same_core s (s\<lparr>rm_world := w, rm_output := Some o''\<rparr>)" by (simp add: same_core_def)
    from Inr assms(1) a have "t = (case y of
        Inl x \<Rightarrow> s\<lparr>rm_world := w, rm_output := Some o'', rm_ctl := Ctl_idle\<rparr>
      | Inr xs \<Rightarrow> (fold Error_rm xs (s\<lparr>rm_world := w, rm_output := Some o''\<rparr>))
          \<lparr>rm_record_only := False, rm_ctl := Ctl_commit e\<rparr>)"
      by (simp add: register_protocol_def Let_def split: sum.splits)
    then show ?thesis
    proof (cases y)
      case (Inl x)
      with \<open>t = _\<close> have "same_core s t" using \<open>rm_output s = Some o'\<close> by (simp add: same_core_def)
      then show ?thesis using that [of t] by blast
    next
      case (Inr xs)
      with \<open>t = _\<close> that [OF c] show ?thesis by auto
    qed
  qed
  have i: "rm_inv L tbs x" by (rule core_inv [OF s0 assms(2)])
  from t show ?thesis
  proof (elim disjE exE)
    fix xs assume t: "t = (fold Error_rm xs x)\<lparr>rm_record_only := False, rm_ctl := Ctl_commit e\<rparr>"
    have "same_core (fold Error_rm xs x) t" by (simp add: t same_core_def)
    then show ?thesis by (rule core_inv) (rule Errors_inv [OF i])
  qed (use i in simp)
qed

section \<open>Producers and the start of a session\<close>

lemma inv_parts:
  "rm_inv L tbs s \<Longrightarrow> shape s" "rm_inv L tbs s \<Longrightarrow> flow s" "rm_inv L tbs s \<Longrightarrow> queues_ok s"
  "rm_inv L tbs s \<Longrightarrow> owed_ok s" "rm_inv L tbs s \<Longrightarrow> history L tbs s" "rm_inv L tbs s \<Longrightarrow> calls_ok s"
  "rm_inv L tbs s \<Longrightarrow> parts_ok s"
  by (simp_all add: rm_inv_def)

lemma rm_invI:
  "shape s \<Longrightarrow> flow s \<Longrightarrow> queues_ok s \<Longrightarrow> owed_ok s \<Longrightarrow> history L tbs s \<Longrightarrow> calls_ok s \<Longrightarrow> parts_ok s \<Longrightarrow>
    rm_inv L tbs s"
  by (simp add: rm_inv_def)

lemma admit_inv:
  assumes "rm_inv L tbs s" and "submit_admit E on_poller (Some k) s = Inr (Some g)" and "regular tbs k"
  shows "rm_inv L tbs (s\<lparr>rm_producers := rm_producers s + {#Admitted g k#}\<rparr>)"
proof -
  note i = inv_parts [OF assms(1)]
  have "rm_accepting s" "rm_queue s = Some g"
    using assms(2) by (auto simp: submit_admit_def chain_Inl split: if_splits)
  with i(1,2) have g: "g < rm_next s" by (auto simp: shape_def flow_def)
  show ?thesis
  proof (rule rm_invI)
    let ?t = "s\<lparr>rm_producers := rm_producers s + {#Admitted g k#}\<rparr>"
    have "shape ?t = shape s" by (simp add: shape_def pends_def cong: poll_point.case_cong)
    then show "shape ?t" using i(1) by simp
    show "flow ?t" using i(2) by (simp add: flow_def pends_def)
    show "queues_ok ?t" using i(3) g by (auto simp: queues_ok_def cur_def)
    show "owed_ok ?t" using i(4) by (simp add: owed_ok_def pends_def cur_def)
    show "history L tbs ?t" using i(5) assms(3) by (auto simp: history_def cur_def complete_def)
    show "calls_ok ?t" using i(6) by (simp add: calls_ok_def)
    show "parts_ok ?t" using i(7) by (simp add: parts_ok_def)
  qed
qed

text \<open>A push into a closed queue fails and changes nothing; otherwise the queue is the current one.\<close>

lemma push_inv:
  assumes "rm_inv L tbs s" and p: "rm_producers s = M + {#Admitted g k#}" and "push_ready (rm_queues s g)"
    and "submit_push g k s = (r, t)"
  shows "rm_inv L tbs (t\<lparr>rm_producers := M + (if r = Inr KSuccess then {#Pushed g#} else {#})\<rparr>)"
    (is "rm_inv L tbs ?t")
proof -
  note i = inv_parts [OF assms(1)]
  from i(3) p have g: "g < rm_next s" by (simp add: queues_ok_def)
  from i(5) p have reg: "regular tbs k" by (simp add: history_def)
  show ?thesis
  proof (cases "bq.closed (rm_queues s g)")
    case True
    with assms(4) have t: "?t = s\<lparr>rm_producers := M\<rparr>" by (auto simp: submit_push_def push_body_def accepted_by_def)
    show ?thesis unfolding t
    proof (rule rm_invI)
      let ?t = "s\<lparr>rm_producers := M\<rparr>"
      have "shape ?t = shape s" by (simp add: shape_def pends_def cong: poll_point.case_cong)
    then show "shape ?t" using i(1) by simp
      show "flow ?t" using i(2) by (simp add: flow_def pends_def)
      show "queues_ok ?t" using i(3) p by (auto simp: queues_ok_def cur_def)
      show "owed_ok ?t" using i(4) p by (simp add: owed_ok_def pends_def cur_def)
      show "history L tbs ?t" using i(5) p by (auto simp: history_def cur_def complete_def)
      show "calls_ok ?t" using i(6) by (simp add: calls_ok_def)
      show "parts_ok ?t" using i(7) by (simp add: parts_ok_def)
    qed
  next
    case False
    with i(3) g have c: "rm_queue s = Some g" by (auto simp: queues_ok_def)
    then have run: "rm_running s" using i(1) by (auto simp: shape_def split: if_splits)
    have e: "items (rm_queues s g) = []"
      using assms(3) False i(3) by (auto simp: push_ready_def queues_ok_def)
    have d: "\<not> rm_draining s" using i(3) run False c by (auto simp: queues_ok_def cur_def)
    then have fin: "finishing (rm_point s) \<longrightarrow> failing (rm_point s)" "\<not> rm_closing s"
      using i(2) run by (auto simp: flow_def)
    from assms(4) False have r: "r = Inr KSuccess" and
      t: "?t = s\<lparr>rm_queues := (rm_queues s)(g := (rm_queues s g)\<lparr>items := [k]\<rparr>), hm_in := hm_in s @ [k],
        rm_producers := M + {#Pushed g#}\<rparr>"
      by (auto simp: submit_push_def push_body_def accepted_by_def e)
    let ?u = "s\<lparr>rm_queues := (rm_queues s)(g := (rm_queues s g)\<lparr>items := [k]\<rparr>), hm_in := hm_in s @ [k],
        rm_producers := M + {#Pushed g#}\<rparr>"
    show ?thesis unfolding t
    proof (rule rm_invI)
      have "shape ?u = shape s" by (simp add: shape_def pends_def cong: poll_point.case_cong)
      then show "shape ?u" using i(1) by simp
      show "flow ?u" using i(2) by (simp add: flow_def pends_def)
      show "queues_ok ?u" using i(3) p c d by (auto simp: queues_ok_def cur_def)
      show "owed_ok ?u" using c by (simp add: owed_ok_def)
      show "history L tbs ?u"
        using i(5) p reg e c run fin by (auto simp: history_def cur_def)
      show "calls_ok ?u" using i(6) by (simp add: calls_ok_def)
      show "parts_ok ?u" using i(7) by (simp add: parts_ok_def)
    qed
  qed
qed

lemma tail_inv:
  assumes "rm_inv L tbs s" and p: "rm_producers s = M + {#Pushed g#}"
  shows "rm_inv L tbs ((submit_tail g s)\<lparr>rm_producers := M\<rparr>)"
proof -
  note i = inv_parts [OF assms(1)]
  define go where "go \<longleftrightarrow> rm_queue s = Some g \<and> rm_running s \<and> \<not> rm_scheduled s \<and> \<not> rm_closing s"
  let ?u = "s\<lparr>rm_scheduled := rm_scheduled s \<or> go, rm_tasks := rm_tasks s @ (if go then [T_process] else []),
      rm_producers := M\<rparr>"
  have t: "(submit_tail g s)\<lparr>rm_producers := M\<rparr> = ?u"
    by (simp add: submit_tail_def Schedule_rm_def go_def)
  have pend: "rm_tasks s = []" if go
    using that i(1,2) by (cases "rm_point s"; simp add: go_def shape_def flow_def pends_def)
  have q: "rm_queue s = Some (the (rm_queue s))" if "rm_running s"
    using that i(1) by (auto simp: shape_def)
  show ?thesis unfolding t
  proof (rule rm_invI)
    show "shape ?u"
      using i(1) pend by (cases go) (auto simp: go_def shape_def pends_def cong: poll_point.case_cong split: poll_point.splits)
    show "flow ?u" using i(2) pend by (cases go) (auto simp: go_def flow_def pends_def)
    show "queues_ok ?u" using i(3) p by (auto simp: queues_ok_def cur_def)
    show "owed_ok ?u"
      using i(2,4) p q pend failing_finishing [of "rm_point s"]
      by (cases go) (auto simp: go_def owed_ok_def flow_def pends_def cur_def)
    show "history L tbs ?u" using i(5) p by (auto simp: history_def cur_def complete_def)
    show "calls_ok ?u" using i(6) by (simp add: calls_ok_def)
    show "parts_ok ?u" using i(7) pend by (cases go) (auto simp: parts_ok_def go_def)
  qed
qed

lemma begin_cases:
  assumes "Remuxer_Start E others ss s = Some (b, t)"
  obtains "same_core s t"
  | il ss' where "\<not> rm_running s" "PacketInterleaver ss' = Inr il" "rm_interleaver t = Some il"
      "rm_output t \<noteq> None" "rm_converter t \<noteq> None" "rm_timestamps t \<noteq> None"
      "rm_queues t = (rm_queues s)(rm_next s := handoff)" "rm_queue t = Some (rm_next s)" "rm_next t = rm_next s + 1"
      "rm_running t" "\<not> rm_draining t" "\<not> rm_closing t" "\<not> rm_scheduled t" "\<not> rm_reported t"
      "rm_tasks t = rm_tasks s" "rm_point t = rm_point s" "rm_producers t = rm_producers s"
      "hm_in t = []" "hm_merged t = []" "hm_out t = []" "hm_sent t = []" "hm_calls t = 0"
proof (cases "rm_running s")
  case True
  with assms have "t = s" by (auto simp: Remuxer_Start_def Start_rm_def)
  with that(1) show ?thesis by simp
next
  case False
  with assms obtain recs where j: "join_all (rm_recs s) = Some recs"
    by (auto simp: Remuxer_Start_def Start_rm_def)
  let ?s = "s\<lparr>rm_error := None, rm_recs := recs, rm_info := info (rm_entries s)\<rparr>"
  obtain x w where o: "open_session E others (rm_config s) (rm_entries s) ss (rm_world s) = (x, w)" by fastforce
  show ?thesis
  proof (cases x)
    case (Inl e)
    with assms False j o have "t = SetStartError e (?s\<lparr>rm_world := w\<rparr>)"
      by (simp add: Remuxer_Start_def Start_rm_def Let_def)
    then have "same_core s t" by (simp add: SetStartError_def same_core_def)
    with that(1) show ?thesis by simp
  next
    case (Inr y)
    obtain il pc tc o' recs' where y: "y = (il, pc, tc, o', recs')" by (cases y)
    have "PacketInterleaver (map stream_info.truncate ss) = Inr il"
      using o unfolding Inr y open_session_def by (auto split: sum.splits prod.splits)
    with assms False j o show ?thesis unfolding Inr y
      by (intro that(2)) (auto simp: Remuxer_Start_def Start_rm_def Let_def)
  qed
qed

lemma begin_inv:
  assumes "rm_inv L tbs s" and "Remuxer_Start E others ss s = Some (b, t)"
  shows "rm_inv L tbs t"
  using assms(2)
proof (cases rule: begin_cases)
  case 1
  then show ?thesis by (rule core_inv) (rule assms(1))
next
  case (2 il ss')
  note i = inv_parts [OF assms(1)]
  from i(1) 2(1) have idle: "rm_tasks t = []" "rm_point t = P_idle" "rm_queue s = None"
    using 2 by (simp_all add: shape_def)
  show ?thesis
  proof (rule rm_invI)
    show "shape t" using 2 idle by (simp add: shape_def)
    show "flow t" using 2 idle by (simp add: flow_def pends_def)
    show "queues_ok t" using i(3) 2 idle
      by (auto simp: queues_ok_def handoff_def less_Suc_eq cur_def)
    show "owed_ok t" using 2 by (simp add: owed_ok_def cur_def handoff_def)
    show "history L tbs t" using i(5) 2 idle merge_session.start [OF 2(2), of L tbs False]
      by (auto simp: history_def cur_def handoff_def)
    show "calls_ok t" using 2 by (simp add: calls_ok_def)
    show "parts_ok t" using 2 by (simp add: parts_ok_def)
  qed
qed

lemma stop_end_inv:
  assumes "rm_inv L tbs s" and "\<not> rm_running s"
  shows "rm_inv L tbs (stop_end join s)"
proof -
  note i = inv_parts [OF assms(1)]
  show ?thesis
  proof (rule rm_invI)
    let ?t = "stop_end join s"
    show "shape ?t" using i(1) assms(2) by (simp add: shape_def stop_end_def)
    show "flow ?t" using i(2) assms(2) by (simp add: flow_def stop_end_def)
    show "queues_ok ?t" using i(3) assms(2) by (simp add: queues_ok_def stop_end_def)
    show "owed_ok ?t" using assms(2) by (simp add: owed_ok_def stop_end_def)
    show "history L tbs ?t" using i(5) assms(2) by (auto simp: history_def stop_end_def complete_def)
    show "calls_ok ?t" using i(6) assms(2) by (simp add: calls_ok_def stop_end_def)
    show "parts_ok ?t" using assms(2) by (simp add: parts_ok_def stop_end_def)
  qed
qed

section \<open>The poller\<close>

text \<open>What the locked part of \<open>Process\<close> does: it can fail before or after the merge.\<close>

lemma pop_body_cases:
  "pop_body True q = (case items q of [] \<Rightarrow> ((Inr (if bq.closed q then KClosed else KEmpty), None), q, [])
     | x # xs \<Rightarrow> ((Inr KSuccess, Some x), q\<lparr>items := xs\<rparr>, Wake_one_not_full # owe_write (write_signal q)))"
  by (simp add: pop_body_def split: list.splits)

lemma andthen_step:
  "m s = (Inr a, s') \<Longrightarrow> andthen m k s = k a s'" "m s = (Inl e, s') \<Longrightarrow> andthen m k s = (Inl e, s')"
  by (simp_all add: andthen_def)

lemma on_gets:
  "rm_timestamps s = Some tc \<Longrightarrow> on_timestamps (gets f) s = (Inr (f tc), s)"
  "rm_interleaver s = Some il \<Longrightarrow> on_interleaver (gets g) s = (Inr (g il), s)"
  by (cases s; simp add: on_timestamps_def on_interleaver_def gets_def)+

lemma locked_rest:
  fixes u :: "('z, 't, 'm, 'b) remuxer"
  assumes "rm_interleaver u = Some il" and "rm_timestamps u = Some tc"
    and "PopReady (ev_lib E) (rm_draining u) il = (y, il')"
  obtains first where
    "andthen (on_timestamps (gets shift_ms)) (\<lambda>shift.
     andthen (if shift = None then on_interleaver (gets FirstPackets) else ret []) (\<lambda>first.
     andthen (gets rm_draining) (\<lambda>finish.
     andthen (on_interleaver (PopReady (ev_lib E) finish)) (\<lambda>ks.
     andthen (modify (\<lambda>s. s\<lparr>hm_out := hm_out s @ ks, rm_scheduled := False\<rparr>)) (\<lambda>_.
     ret (first, ks, finish)))))) u =
     (case y of Inl e \<Rightarrow> (Inl e, u\<lparr>rm_interleaver := Some il'\<rparr>)
      | Inr ks \<Rightarrow> (Inr (first, ks, rm_draining u),
          u\<lparr>rm_interleaver := Some il', hm_out := hm_out u @ ks, rm_scheduled := False\<rparr>))"
proof -
  let ?first = "if shift_ms tc = None then FirstPackets il else []"
  have f: "(if shift_ms tc = None then on_interleaver (gets FirstPackets) else ret []) u = (Inr ?first, u)"
    by (simp add: on_gets(2) [OF assms(1)] ret_def)
  have p: "on_interleaver (PopReady (ev_lib E) (rm_draining u)) u = (y, u\<lparr>rm_interleaver := Some il'\<rparr>)"
    using assms(1,3) by (simp add: on_interleaver_def)
  have t: "on_timestamps (gets shift_ms) u = (Inr (shift_ms tc), u)" by (rule on_gets(1) [OF assms(2)])
  have apps: "gets rm_draining u = (Inr (rm_draining u), u)" "modify h w = (Inr (), h w)" "ret a w = (Inr a, w)"
    for h :: "('z, 't, 'm, 'b) remuxer \<Rightarrow> ('z, 't, 'm, 'b) remuxer" and w and a :: "av_packet list \<times> av_packet list \<times> bool"
    by (simp_all add: act_defs)
  show ?thesis
    by (rule that [of ?first], cases y) (simp_all add: andthen_def t f apps p)
qed

lemma process_locked_cases:
  assumes "process_locked E s = (r, t)" and "rm_queue s = Some g" and "rm_interleaver s = Some il"
    and "rm_timestamps s \<noteq> None"
  obtains (merge_failed) x xs e il' where "items (rm_queues s g) = x # xs" "Push (ev_lib E) (Some x) il = (Inl e, il')"
      "r = Inl e" "t = s\<lparr>rm_queues := (rm_queues s)(g := (rm_queues s g)\<lparr>items := xs\<rparr>), rm_interleaver := Some il'\<rparr>"
  | (merged) xs ps il' q il'' where
      "items (rm_queues s g) = ps @ xs" "length ps \<le> 1" "ps = [] \<longrightarrow> xs = [] \<and> il' = il"
      "\<forall>p \<in> set ps. Push (ev_lib E) (Some p) il = (Inr (), il')"
      "PopReady (ev_lib E) (rm_draining s) il' = (q, il'')"
      "case q of
         Inl e \<Rightarrow> r = Inl e \<and> t = s\<lparr>rm_queues := (rm_queues s)(g := (rm_queues s g)\<lparr>items := xs\<rparr>),
           rm_interleaver := Some il'', hm_merged := hm_merged s @ ps\<rparr>
       | Inr ks \<Rightarrow> (\<exists>first. r = Inr (first, ks, rm_draining s)) \<and>
           t = s\<lparr>rm_queues := (rm_queues s)(g := (rm_queues s g)\<lparr>items := xs\<rparr>),
             rm_interleaver := Some il'', hm_merged := hm_merged s @ ps, hm_out := hm_out s @ ks,
             rm_scheduled := False\<rparr>"
proof -
  obtain tc where tc: "rm_timestamps s = Some tc" using assms(4) by blast
  show ?thesis
  proof (cases "items (rm_queues s g)")
    case Nil
    have q: "(rm_queues s)(g := (rm_queues s g)\<lparr>items := []\<rparr>) = rm_queues s" using Nil by auto
    have pop: "TryPop_handoff s = (Inr None, s)"
      using Nil assms(2) by (cases s) (simp add: TryPop_handoff_def pop_body_cases fun_upd_idem)
    obtain y il'' where y: "PopReady (ev_lib E) (rm_draining s) il = (y, il'')" by fastforce
    show ?thesis
    proof (rule locked_rest [OF assms(3) tc y])
      fix first
      assume rest: "andthen (on_timestamps (gets shift_ms)) (\<lambda>shift.
         andthen (if shift = None then on_interleaver (gets FirstPackets) else ret []) (\<lambda>first.
         andthen (gets rm_draining) (\<lambda>finish.
         andthen (on_interleaver (PopReady (ev_lib E) finish)) (\<lambda>ks.
         andthen (modify (\<lambda>s. s\<lparr>hm_out := hm_out s @ ks, rm_scheduled := False\<rparr>)) (\<lambda>_.
         ret (first, ks, finish)))))) s = (case y of Inl e \<Rightarrow> (Inl e, s\<lparr>rm_interleaver := Some il''\<rparr>)
          | Inr ks \<Rightarrow> (Inr (first, ks, rm_draining s),
              s\<lparr>rm_interleaver := Some il'', hm_out := hm_out s @ ks, rm_scheduled := False\<rparr>))"
      have "process_locked E s = (r, t)" by (rule assms(1))
      then have "(case y of Inl e \<Rightarrow> (Inl e, s\<lparr>rm_interleaver := Some il''\<rparr>)
          | Inr ks \<Rightarrow> (Inr (first, ks, rm_draining s),
              s\<lparr>rm_interleaver := Some il'', hm_out := hm_out s @ ks, rm_scheduled := False\<rparr>)) = (r, t)"
        by (simp only: process_locked_def andthen_step(1) [of TryPop_handoff, OF pop] option.case
            andthen_step(1) [of "ret ()", OF ret_def [THEN fun_cong]] rest)
      then show ?thesis
        using Nil y by (intro merged [of "[]" "[]" il y il'']) (auto simp: q split: sum.splits)
    qed
  next
    case (Cons x xs)
    let ?s = "s\<lparr>rm_queues := (rm_queues s)(g := (rm_queues s g)\<lparr>items := xs\<rparr>)\<rparr>"
    have pop: "TryPop_handoff s = (Inr (Some x), ?s)"
      using Cons assms(2) by (simp add: TryPop_handoff_def pop_body_cases)
    obtain u il' where u: "Push (ev_lib E) (Some x) il = (u, il')" by fastforce
    have o: "on_interleaver (Push (ev_lib E) (Some x)) ?s = (u, ?s\<lparr>rm_interleaver := Some il'\<rparr>)"
      using assms(3) u by (simp add: on_interleaver_def)
    show ?thesis
    proof (cases u)
      case (Inl e)
      have "process_locked E s = (Inl e, ?s\<lparr>rm_interleaver := Some il'\<rparr>)"
        by (simp only: process_locked_def andthen_step(1) [of TryPop_handoff, OF pop] option.case
            andthen_step(2) [of "andthen _ _", OF andthen_step(2) [of "on_interleaver _", OF o [unfolded Inl]]])
      with Inl Cons u assms(1) show ?thesis by (intro merge_failed [of x xs e il']) simp_all
    next
      case (Inr v)
      let ?u = "?s\<lparr>rm_interleaver := Some il', hm_merged := hm_merged s @ [x]\<rparr>"
      have m: "andthen (on_interleaver (Push (ev_lib E) (Some x))) (\<lambda>_.
          modify (\<lambda>s. s\<lparr>hm_merged := hm_merged s @ [x]\<rparr>)) ?s = (Inr (), ?u)"
        by (simp add: andthen_step(1) [of "on_interleaver _", OF o [unfolded Inr]] modify_def)
      obtain y il'' where y: "PopReady (ev_lib E) (rm_draining ?u) il' = (y, il'')" by fastforce
      have "rm_interleaver ?u = Some il'" "rm_timestamps ?u = Some tc" using tc by simp_all
      then show ?thesis
      proof (rule locked_rest [OF _ _ y])
        fix first
        assume rest: "andthen (on_timestamps (gets shift_ms)) (\<lambda>shift.
           andthen (if shift = None then on_interleaver (gets FirstPackets) else ret []) (\<lambda>first.
           andthen (gets rm_draining) (\<lambda>finish.
           andthen (on_interleaver (PopReady (ev_lib E) finish)) (\<lambda>ks.
           andthen (modify (\<lambda>s. s\<lparr>hm_out := hm_out s @ ks, rm_scheduled := False\<rparr>)) (\<lambda>_.
           ret (first, ks, finish)))))) ?u = (case y of Inl e \<Rightarrow> (Inl e, ?u\<lparr>rm_interleaver := Some il''\<rparr>)
            | Inr ks \<Rightarrow> (Inr (first, ks, rm_draining ?u),
                ?u\<lparr>rm_interleaver := Some il'', hm_out := hm_out ?u @ ks, rm_scheduled := False\<rparr>))"
        have "process_locked E s = (r, t)" by (rule assms(1))
        then have "(case y of Inl e \<Rightarrow> (Inl e, ?u\<lparr>rm_interleaver := Some il''\<rparr>)
            | Inr ks \<Rightarrow> (Inr (first, ks, rm_draining ?u),
                ?u\<lparr>rm_interleaver := Some il'', hm_out := hm_out ?u @ ks, rm_scheduled := False\<rparr>)) = (r, t)"
          by (simp only: process_locked_def andthen_step(1) [of TryPop_handoff, OF pop] option.case andthen_step(1) [of "andthen _ _", OF m] rest)
        then show ?thesis
          using Cons u y Inr by (intro merged [of "[x]" xs il' y il'']) (auto split: sum.splits)
      qed
    qed
  qed
qed

text \<open>A state that differs from an invariant one only in its point and in core-equal parts.\<close>

lemma point_core: "same_core s t \<Longrightarrow> same_core (s\<lparr>rm_point := p\<rparr>) (t\<lparr>rm_point := p\<rparr>)"
  by (simp add: same_core_def)

lemma flush_complete:
  assumes "av_time L" and "merge_session L ss tbs False il ps out" and "PopReady L True il = (Inr ks, il')"
  shows "filter (\<lambda>k. pk_stream k = i) ps = filter (\<lambda>k. pk_stream k = i) (out @ ks)"
proof -
  have "il_queue il' = []" using wp_InrD [OF PopReady_wp assms(3)] by (auto simp: release_flush)
  moreover have "merge_session L ss tbs False il' ps (out @ ks)"
    by (rule merge_session.pop [OF assms(2,3)]) simp
  ultimately show ?thesis using session_invs [OF assms(1)] by (force simp: history_inv_def)
qed

lemma take_inv:
  fixes E :: "('z, 't, 'm, 'b) env"
  assumes L: "av_time (ev_lib E)" and inv: "rm_inv (ev_lib E) tbs s" and idle: "rm_point s = P_idle"
    and tasks: "rm_tasks s = [T_process]" and run: "rm_running s" "\<not> rm_closing s"
  shows "rm_inv (ev_lib E) tbs (Process_take E (s\<lparr>rm_tasks := []\<rparr>))"
proof -
  note i = inv_parts [OF inv]
  let ?s = "s\<lparr>rm_tasks := []\<rparr>"
  obtain g il where g: "rm_queue s = Some g" "g < rm_next s" and il: "rm_interleaver s = Some il"
    using i(1) run by (auto simp: shape_def)
  have ts: "rm_timestamps s \<noteq> None" using i(7) run tasks by (simp add: parts_ok_def)
  obtain ss where ms: "merge_session (ev_lib E) ss tbs False il (hm_merged s) (hm_out s)"
    and reg: "\<forall>k \<in> set (items (rm_queues s g)). regular tbs k"
    using i(5) run il g(1) by (auto simp: history_def cur_def)
  have hist: "rm_reported s \<or> hm_in s = hm_merged s @ items (rm_queues s g) \<and> hm_sent s = hm_out s"
    using i(5) run idle g(1) by (auto simp: history_def cur_def)
  obtain r t where pl: "process_locked E ?s = (r, t)" by fastforce
  have take: "Process_take E ?s = (case r of Inl e \<Rightarrow> t\<lparr>rm_point := P_error e\<rparr>
      | Inr (first, ks, finish) \<Rightarrow> (case process_init E first ks finish t of
          (Inl e, u) \<Rightarrow> u\<lparr>rm_point := P_error e\<rparr>
        | (Inr eof, u) \<Rightarrow> u\<lparr>rm_point := P_deliver ks (length (rm_recs t)) finish eof\<rparr>))"
    using run by (cases r) (simp_all add: Process_take_def pl split: prod.split)
  have f: "rm_queue ?s = Some g" "rm_interleaver ?s = Some il" "rm_timestamps ?s \<noteq> None"
    using g il ts by simp_all
  from pl f show ?thesis
  proof (cases rule: process_locked_cases)
    case (merge_failed x xs e il')
    let ?u = "s\<lparr>rm_tasks := [], rm_queues := (rm_queues s)(g := (rm_queues s g)\<lparr>items := xs\<rparr>),
      rm_interleaver := Some il', rm_point := P_error e\<rparr>"
    have "rm_inv (ev_lib E) tbs ?u"
    proof (rule rm_invI)
      show "shape ?u" using run g by (simp add: shape_def)
      show "flow ?u" using i(2) run by (auto simp: flow_def pends_def)
      show "queues_ok ?u" using i(3) g merge_failed(1)
        by (auto simp: queues_ok_def cur_def dest: spec [where x = g])
      show "owed_ok ?u" by (simp add: owed_ok_def)
      show "history (ev_lib E) tbs ?u"
        using i(5) reg merge_failed(1) merge_session.push_fail [OF ms merge_failed(2)] g
        by (auto simp: history_def cur_def)
      show "calls_ok ?u" using i(6) by (simp add: calls_ok_def)
      show "parts_ok ?u" using i(7) run tasks by (simp add: parts_ok_def)
    qed
    with merge_failed take show ?thesis by simp
  next
    case (merged xs ps il' q il'')
    have q1: "length (items (rm_queues s g)) \<le> 1" using i(3) by (simp add: queues_ok_def)
    have xs: "xs = []" using merged(1-3) q1 by (cases ps) auto
    have ms': "merge_session (ev_lib E) ss tbs False il' (hm_merged s @ ps) (hm_out s)"
    proof (cases ps)
      case Nil
      with merged(3) ms show ?thesis by simp
    next
      case (Cons p ps')
      with merged(1,2) have p: "ps = [p]" "p \<in> set (items (rm_queues s g))" by auto
      then show ?thesis
        using merge_session.push [OF ms, of p il'] reg merged(4) by simp
    qed
    show ?thesis
    proof (cases q)
      case (Inl e)
      let ?u = "s\<lparr>rm_tasks := [], rm_queues := (rm_queues s)(g := (rm_queues s g)\<lparr>items := []\<rparr>),
        rm_interleaver := Some il'', hm_merged := hm_merged s @ ps, rm_point := P_error e\<rparr>"
      have "rm_inv (ev_lib E) tbs ?u"
      proof (rule rm_invI)
        show "shape ?u" using run g by (simp add: shape_def)
        show "flow ?u" using i(2) run by (auto simp: flow_def pends_def)
        show "queues_ok ?u" using i(3) g by (auto simp: queues_ok_def cur_def)
        show "owed_ok ?u" by (simp add: owed_ok_def)
        show "history (ev_lib E) tbs ?u"
          using i(5) merge_session.pop_fail [OF ms' merged(5) [unfolded Inl]] g
          by (auto simp: history_def cur_def)
        show "calls_ok ?u" using i(6) by (simp add: calls_ok_def)
        show "parts_ok ?u" using i(7) run tasks by (simp add: parts_ok_def)
      qed
      with Inl merged(6) take show ?thesis by (simp add: xs)
    next
      case (Inr ks)
      with merged(6) obtain first where r: "r = Inr (first, ks, rm_draining s)" and
        t: "t = s\<lparr>rm_tasks := [], rm_queues := (rm_queues s)(g := (rm_queues s g)\<lparr>items := []\<rparr>),
          rm_interleaver := Some il'', hm_merged := hm_merged s @ ps, hm_out := hm_out s @ ks,
          rm_scheduled := False\<rparr>" by (auto simp: xs)
      have ms'': "merge_session (ev_lib E) ss tbs False il'' (hm_merged s @ ps) (hm_out s @ ks)"
        by (rule merge_session.pop [OF ms' merged(5) [unfolded Inr]]) simp
      have P: "rm_inv (ev_lib E) tbs (t\<lparr>rm_point := pt\<rparr>)"
        if pt: "(\<exists>e. pt = P_error e) \<or> (\<exists>n eof. pt = P_deliver ks n (rm_draining s) eof)" for pt
      proof (rule rm_invI)
        let ?u = "t\<lparr>rm_point := pt\<rparr>"
        show "shape ?u" using run g pt by (auto simp: t shape_def)
        show "flow ?u" using i(2) run pt by (auto simp: t flow_def pends_def)
        show "queues_ok ?u" using i(3) g by (auto simp: t queues_ok_def cur_def)
        show "owed_ok ?u" using g by (simp add: t owed_ok_def cur_def)
        have "rm_draining s \<Longrightarrow> filter (\<lambda>k. pk_stream k = i) (hm_merged s @ ps) =
            filter (\<lambda>k. pk_stream k = i) (hm_out s @ ks)" for i
          using flush_complete [OF L ms'] merged(5) Inr by simp
        then show "history (ev_lib E) tbs ?u"
          using i(5) ms'' g hist pt merged(1) xs run
          by (auto simp: t history_def cur_def complete_def)
        show "calls_ok ?u" using i(6) by (simp add: t calls_ok_def)
        show "parts_ok ?u" using i(7) run tasks by (simp add: t parts_ok_def)
      qed
      obtain z u where z: "process_init E first ks (rm_draining s) t = (z, u)" by fastforce
      have c: "same_core t u" by (rule framedD [OF framed_init z])
      from core_inv [OF point_core [OF c] P] show ?thesis
        unfolding take r by (cases z) (simp_all add: z)
    qed
  qed
qed

text \<open>The other steps of the poller: fields that change, everything else as before.\<close>

lemma idle_inv:
  assumes L: "av_time (ev_lib E)" and inv: "rm_inv (ev_lib E) tbs s" and idle: "rm_point s = P_idle"
    and run: "rm_running s"
  shows "rm_inv (ev_lib E) tbs (poll E s)"
proof -
  note i = inv_parts [OF inv]
  consider (rest) "rm_tasks s = []" | (take) "\<not> rm_closing s" "rm_tasks s = [T_process]"
    | (late) "rm_closing s" "rm_tasks s = [T_process, T_finish]" | (finish) "rm_closing s" "rm_tasks s = [T_finish]"
    | (ended) "rm_closing s" "rm_tasks s = [T_end]"
    using i(1) run idle by (auto simp: shape_def pends_def split: if_splits)
  then show ?thesis
  proof cases
    case rest
    with idle inv show ?thesis by (simp add: poll_def)
  next
    case take
    with take_inv [OF L inv idle take(2) run take(1)] idle show ?thesis by (simp add: poll_def)
  next
    case late
    let ?u = "s\<lparr>rm_tasks := [T_finish], rm_scheduled := False\<rparr>"
    have "poll E s = ?u" using idle run late by (simp add: poll_def Process_take_def)
    moreover have "rm_inv (ev_lib E) tbs ?u"
    proof (rule rm_invI)
      show "shape ?u" using i(1) run idle late by (simp add: shape_def)
      show "flow ?u" using i(2) late idle by (simp add: flow_def)
      show "queues_ok ?u" using i(3) by (simp add: queues_ok_def cur_def)
      show "owed_ok ?u" using late by (simp add: owed_ok_def)
      show "history (ev_lib E) tbs ?u" using i(5) by (simp add: history_def cur_def complete_def)
      show "calls_ok ?u" using i(6) by (simp add: calls_ok_def)
      show "parts_ok ?u" using i(7) late by (simp add: parts_ok_def)
    qed
    ultimately show ?thesis by simp
  next
    case finish
    obtain w where u: "poll E s = s\<lparr>rm_world := w, rm_output := None, rm_converter := None, rm_timestamps := None,
        rm_record_only := False, rm_recs := map (\<lambda>(p, r). (p, Drain_rec r)) (rm_recs s), rm_tasks := [T_end]\<rparr>"
      using idle finish i(7) run
      by (cases "rm_output s") (auto simp: poll_def Finish_rm_def Let_def parts_ok_def)
    show ?thesis unfolding u
    proof (rule rm_invI)
      let ?u = "s\<lparr>rm_world := w, rm_output := None, rm_converter := None, rm_timestamps := None,
        rm_record_only := False, rm_recs := map (\<lambda>(p, r). (p, Drain_rec r)) (rm_recs s), rm_tasks := [T_end]\<rparr>"
      show "shape ?u" using i(1) run idle finish by (simp add: shape_def)
      show "flow ?u" using i(2) finish idle by (simp add: flow_def)
      show "queues_ok ?u" using i(3) by (simp add: queues_ok_def cur_def)
      show "owed_ok ?u" using finish by (simp add: owed_ok_def)
      show "history (ev_lib E) tbs ?u" using i(5) by (simp add: history_def cur_def complete_def)
      show "calls_ok ?u" using i(6) by (simp add: calls_ok_def)
      show "parts_ok ?u" by (simp add: parts_ok_def)
    qed
  next
    case ended
    let ?u = "s\<lparr>rm_tasks := [], rm_queue := None, rm_interleaver := None, rm_running := False, rm_scheduled := False\<rparr>"
    have u: "poll E s = ?u" using idle ended by (simp add: poll_def end_section_def)
    have d: "rm_draining s" "\<not> rm_accepting s" using i(2) run ended by (auto simp: flow_def)
    show ?thesis unfolding u
    proof (rule rm_invI)
      show "shape ?u" using idle by (simp add: shape_def)
      show "flow ?u" using d by (simp add: flow_def)
      show "queues_ok ?u" using i(3) run d by (auto simp: queues_ok_def cur_def)
      show "owed_ok ?u" by (simp add: owed_ok_def)
      show "history (ev_lib E) tbs ?u"
        using i(5) idle ended by (auto simp: history_def complete_def)
      show "calls_ok ?u" using i(6) by (simp add: calls_ok_def)
      show "parts_ok ?u" by (simp add: parts_ok_def)
    qed
  qed
qed

lemma deliver_inv:
  fixes E :: "('z, 't, 'm, 'b) env"
  assumes inv: "rm_inv (ev_lib E) tbs s" and pt: "rm_point s = P_deliver ks n fin eof"
  shows "rm_inv (ev_lib E) tbs (poll E s)"
proof -
  note i = inv_parts [OF inv]
  have run: "rm_running s" "\<not> rm_closing s" using i(1) pt by (auto simp: shape_def split: if_splits)
  show ?thesis
  proof (cases ks)
    case Nil
    let ?u = "s\<lparr>rm_point := if fin then P_closing else P_idle\<rparr>"
    have "rm_inv (ev_lib E) tbs ?u"
    proof (rule rm_invI)
      show "shape ?u" using i(1) run pt by (simp add: shape_def pends_def)
      show "flow ?u" using i(2) run pt by (auto simp: flow_def pends_def)
      show "queues_ok ?u" using i(3) by (simp add: queues_ok_def cur_def)
      show "owed_ok ?u" using i(4) pt by (auto simp: owed_ok_def cur_def pends_def)
      show "history (ev_lib E) tbs ?u" using i(5) pt Nil run by (auto simp: history_def cur_def complete_def)
      show "calls_ok ?u" using i(6) by (simp add: calls_ok_def)
      show "parts_ok ?u" using i(7) by (simp add: parts_ok_def)
    qed
    with pt Nil show ?thesis by (simp add: poll_def)
  next
    case (Cons k ks')
    obtain z u where z: "deliver_packet E n k eof s = (z, u)" by fastforce
    have c: "same_core s u" by (rule framedD [OF framed_deliver z])
    note iu = inv_parts [OF core_inv [OF c inv]]
    have pu: "rm_point u = P_deliver (k # ks') n fin eof" using c pt Cons by (simp add: same_core_def)
    have ru: "rm_running u" "\<not> rm_closing u" using c run by (simp_all add: same_core_def)
    have e: "rm_inv (ev_lib E) tbs (u\<lparr>rm_point := P_error x\<rparr>)" for x
    proof (rule rm_invI)
      let ?u = "u\<lparr>rm_point := P_error x\<rparr>"
      show "shape ?u" using iu(1) ru pu by (simp add: shape_def pends_def)
      show "flow ?u" using iu(2) ru by (auto simp: flow_def pends_def)
      show "queues_ok ?u" using iu(3) by (simp add: queues_ok_def cur_def)
      show "owed_ok ?u" by (simp add: owed_ok_def)
      show "history (ev_lib E) tbs ?u" using iu(5) by (simp add: history_def cur_def)
      show "calls_ok ?u" using iu(6) by (simp add: calls_ok_def)
      show "parts_ok ?u" using iu(7) by (simp add: parts_ok_def)
    qed
    have d: "rm_inv (ev_lib E) tbs (u\<lparr>rm_point := P_deliver ks' n fin y, hm_sent := hm_sent u @ [k]\<rparr>)" for y
    proof (rule rm_invI)
      let ?u = "u\<lparr>rm_point := P_deliver ks' n fin y, hm_sent := hm_sent u @ [k]\<rparr>"
      show "shape ?u" using iu(1) ru pu by (simp add: shape_def pends_def)
      show "flow ?u" using iu(2) ru pu by (auto simp: flow_def pends_def)
      show "queues_ok ?u" using iu(3) by (simp add: queues_ok_def cur_def)
      show "owed_ok ?u" using iu(4) pu by (auto simp: owed_ok_def cur_def pends_def)
      show "history (ev_lib E) tbs ?u" using iu(5) pu by (auto simp: history_def cur_def complete_def)
      show "calls_ok ?u" using iu(6) by (simp add: calls_ok_def)
      show "parts_ok ?u" using iu(7) by (simp add: parts_ok_def)
    qed
    have "poll E s = (case z of Inl e \<Rightarrow> u\<lparr>rm_point := P_error e\<rparr>
        | Inr y \<Rightarrow> u\<lparr>rm_point := P_deliver ks' n fin y, hm_sent := hm_sent u @ [k]\<rparr>)"
      using pt Cons z by (simp add: poll_def split: sum.splits)
    then show ?thesis using e d by (cases z) simp_all
  qed
qed

lemma Error_point [simp]: "rm_point (Error_rm e s) = rm_point s"
  by (cases "rm_queue s") (simp_all add: Error_rm_def close_handoff_def Schedule_rm_def Let_def)

lemma Error_running [simp]: "rm_running (Error_rm e s) = rm_running s" "rm_closing (Error_rm e s) = rm_closing s"
  by (cases "rm_queue s"; simp add: Error_rm_def close_handoff_def Schedule_rm_def Let_def)+

lemma Error_reported: "rm_running s \<Longrightarrow> rm_reported (Error_rm e s)"
  by (cases "rm_queue s") (simp_all add: Error_rm_def close_handoff_def Schedule_rm_def Let_def)

lemma error_inv:
  assumes inv: "rm_inv L tbs s" and pt: "rm_point s = P_error e \<and> p = P_closing \<or> rm_point s = P_flush_error e \<and> p = P_post"
  shows "rm_inv L tbs ((Error_rm e s)\<lparr>rm_point := p\<rparr>)"
proof -
  let ?t = "Error_rm e s"
  note i = inv_parts [OF inv] and it = inv_parts [OF Error_inv [OF inv, of e]]
  have run: "rm_running s" using i(1) pt by (auto simp: shape_def split: if_splits)
  have cl: "rm_closing s \<longleftrightarrow> p = P_post" using i(1) pt run by (auto simp: shape_def)
  have r: "rm_reported ?t" by (rule Error_reported [OF run])
  then have d: "rm_draining ?t" using it(6) run by (simp add: calls_ok_def)
  show ?thesis
  proof (rule rm_invI)
    let ?u = "?t\<lparr>rm_point := p\<rparr>"
    show "shape ?u" using it(1) run pt cl by (auto simp: shape_def pends_def)
    show "flow ?u" using it(2) run pt cl d by (auto simp: flow_def pends_def)
    show "queues_ok ?u" using it(3) by (simp add: queues_ok_def cur_def)
    show "owed_ok ?u" using it(4) pt by (auto simp: owed_ok_def)
    show "history L tbs ?u" using it(5) r by (simp add: history_def cur_def)
    show "calls_ok ?u" using it(6) by (simp add: calls_ok_def)
    show "parts_ok ?u" using it(7) by (simp add: parts_ok_def)
  qed
qed

lemma closing_inv:
  assumes inv: "rm_inv L tbs s" and pt: "rm_point s = P_closing"
  shows "rm_inv L tbs (close_section s)"
proof -
  note i = inv_parts [OF inv]
  have run: "rm_running s" "\<not> rm_closing s" "rm_draining s"
    using i(1,2) pt by (auto simp: shape_def flow_def split: if_splits)
  obtain g where g: "rm_queue s = Some g" using i(1) run by (auto simp: shape_def)
  let ?u = "s\<lparr>rm_accepting := False, rm_queues := (rm_queues s)(g := (rm_queues s g)\<lparr>closed := True\<rparr>),
    rm_closing := True, rm_point := P_flush\<rparr>"
  have u: "close_section s = ?u" using g by (simp add: close_section_def close_handoff_def)
  show ?thesis unfolding u
  proof (rule rm_invI)
    show "shape ?u" using i(1) run pt by (simp add: shape_def pends_def)
    show "flow ?u" using i(2) run by (simp add: flow_def)
    show "queues_ok ?u" using i(3) g by (auto simp: queues_ok_def cur_def)
    show "owed_ok ?u" by (simp add: owed_ok_def)
    show "history L tbs ?u" using i(5) g pt by (auto simp: history_def cur_def complete_def)
    show "calls_ok ?u" using i(6) by (simp add: calls_ok_def)
    show "parts_ok ?u" using i(7) by (simp add: parts_ok_def)
  qed
qed

lemma flush_inv:
  assumes inv: "rm_inv L tbs s" and pt: "rm_point s = P_flush" and p: "p = P_post \<or> (\<exists>e. p = P_flush_error e)"
  shows "rm_inv L tbs (s\<lparr>rm_point := p\<rparr>)"
proof -
  note i = inv_parts [OF inv]
  have run: "rm_running s" "rm_closing s" using i(1) pt by (auto simp: shape_def split: if_splits)
  show ?thesis
  proof (rule rm_invI)
    let ?u = "s\<lparr>rm_point := p\<rparr>"
    show "shape ?u" using i(1) run pt p by (auto simp: shape_def pends_def)
    show "flow ?u" using i(2) run by (simp add: flow_def)
    show "queues_ok ?u" using i(3) by (simp add: queues_ok_def cur_def)
    show "owed_ok ?u" using run by (simp add: owed_ok_def)
    show "history L tbs ?u" using i(5) pt p by (auto simp: history_def cur_def complete_def)
    show "calls_ok ?u" using i(6) by (simp add: calls_ok_def)
    show "parts_ok ?u" using i(7) by (simp add: parts_ok_def)
  qed
qed

lemma post_inv:
  assumes inv: "rm_inv L tbs s" and pt: "rm_point s = P_post"
  shows "rm_inv L tbs (s\<lparr>rm_point := P_idle, rm_tasks := rm_tasks s @ [T_finish]\<rparr>)" (is "rm_inv L tbs ?u")
proof -
  note i = inv_parts [OF inv]
  have run: "rm_running s" "rm_closing s" using i(1) pt by (auto simp: shape_def split: if_splits)
  show ?thesis
  proof (rule rm_invI)
    show "shape ?u" using i(1) run pt by (auto simp: shape_def pends_def)
    show "flow ?u" using i(2) run by (simp add: flow_def)
    show "queues_ok ?u" using i(3) by (simp add: queues_ok_def cur_def)
    show "owed_ok ?u" using run by (simp add: owed_ok_def)
    show "history L tbs ?u" using i(5) pt run by (auto simp: history_def cur_def complete_def)
    show "calls_ok ?u" using i(6) by (simp add: calls_ok_def)
    show "parts_ok ?u" using i(1,7) run pt by (auto simp: parts_ok_def shape_def pends_def)
  qed
qed

lemma on_out_frame: "on_out m s = (r, t) \<Longrightarrow> same_core s t"
  by (rule framedD [OF framed_on(3)])

lemma poll_inv:
  assumes L: "av_time (ev_lib E)" and inv: "rm_inv (ev_lib E) tbs s"
  shows "rm_inv (ev_lib E) tbs (poll E s)"
proof (cases "rm_running s")
  case False
  then have "poll E s = s" using inv_parts(1) [OF inv] by (simp add: shape_def poll_def)
  with inv show ?thesis by simp
next
  case True
  show ?thesis
  proof (cases "rm_point s")
    case P_idle
    then show ?thesis by (rule idle_inv [OF L inv _ True])
  next
    case P_deliver
    then show ?thesis by (rule deliver_inv [OF inv])
  next
    case (P_error e)
    with error_inv [OF inv, of e P_closing] show ?thesis by (simp add: poll_def)
  next
    case P_closing
    with closing_inv [OF inv] show ?thesis by (simp add: poll_def)
  next
    case P_flush
    obtain r t where o: "on_out (Flush_output (ev_mux E)) s = (r, t)" by fastforce
    have c: "same_core s t" by (rule on_out_frame [OF o])
    then have "rm_point t = P_flush" using P_flush by (simp add: same_core_def)
    then have t: "rm_inv (ev_lib E) tbs (t\<lparr>rm_point := p\<rparr>)" if "p = P_post \<or> (\<exists>e. p = P_flush_error e)" for p
      using flush_inv [OF core_inv [OF c inv] _ that] by simp
    show ?thesis
      using P_flush flush_inv [OF inv P_flush, of P_post] t
      by (cases r) (simp_all add: poll_def o)
  next
    case (P_flush_error e)
    with error_inv [OF inv, of e P_post] show ?thesis by (simp add: poll_def)
  next
    case P_post
    with post_inv [OF inv] show ?thesis by (simp add: poll_def)
  qed
qed

section \<open>All states\<close>

lemma new_inv: "rm_inv L tbs (Remuxer_new c)"
  by (rule rm_invI) (simp_all add: Remuxer_new_def shape_def flow_def queues_ok_def owed_ok_def history_def
      calls_ok_def parts_ok_def complete_def handoff_def)

lemma remuxing_inv:
  assumes L: "av_time (ev_lib E)" and "remuxing E tbs s"
  shows "rm_inv (ev_lib E) tbs s"
  using assms(2)
proof (induction rule: remuxing.induct)
  case (create c)
  show ?case by (rule new_inv)
next
  case (world s w)
  show ?case by (rule core_inv [OF _ world.IH]) (simp add: same_core_def)
next
  case (begin_session s others ss b t)
  then show ?case using begin_inv by blast
next
  case (admit s on_poller k g)
  then show ?case using admit_inv by blast
next
  case (push s M g k r t)
  show ?case by (rule push_inv [OF push.IH push.hyps(2-4)])
next
  case (tail s M g)
  show ?case by (rule tail_inv [OF tail.IH tail.hyps(2)])
next
  case (drain s)
  then show ?case by (simp add: Drain_rm_inv)
next
  case (add_push s F url n r t m)
  then show ?case using core_inv [OF push_url_frame] by blast
next
  case (add_publish s kind ip port tls q t)
  then show ?case using core_inv [OF framedD [OF framed_publish]] by blast
next
  case (add_recording s e u t)
  then show ?case using core_inv [OF framedD [OF framed_recording]] by blast
next
  case (add_protocol s e others u t)
  then show ?case using protocol_inv by blast
next
  case (commit s e)
  show ?case by (rule core_inv [OF commit_frame commit.IH])
next
  case (stop s join)
  show ?case by (rule core_inv [OF core_ctl Drain_rm_inv [OF stop.IH]])
next
  case (stopped s join)
  then show ?case by (simp add: stop_end_inv)
next
  case (joined s recs)
  show ?case by (rule core_inv [OF _ joined.IH]) (simp add: same_core_def)
next
  case (registered s o' sc on es o'')
  have "same_core s (s\<lparr>rm_output := Some o''\<rparr>)" using registered.hyps(2) by (simp add: same_core_def)
  from core_inv [OF this registered.IH] show ?case by (rule Errors_inv)
next
  case (pusher_closed s o' e)
  then show ?case by (simp add: Error_inv)
next
  case (recorder_thread s i p r r')
  show ?case by (rule core_inv [OF _ recorder_thread.IH]) (simp add: same_core_def)
next
  case (poller s)
  show ?case by (rule poll_inv [OF L poller.IH])
qed

end
