(* ===== verification/Remuxer_Props.thy ===== *)
theory Remuxer_Props
  imports Remuxer_Inv
begin

text \<open>
  What the invariants of the remuxer give: every accepted packet is delivered, no accepted packet is
  forgotten, a draining session ends, and an error is reported once.
\<close>

section \<open>Work that is left\<close>

text \<open>
  An upper bound of the poller steps that a draining session still needs. A queued \<open>Process\<close> costs
  one step once the decision to finish is taken, and before that a whole flush.
\<close>

definition pending :: "('z, 't, 'm, 'b) remuxer \<Rightarrow> nat" where
  "pending s = (case rm_interleaver s of None \<Rightarrow> 0 | Some il \<Rightarrow> length (il_queue il)) + length (items (cur s))"

fun point_work :: "poll_point \<Rightarrow> nat" where
  "point_work P_idle = 0"
| "point_work (P_deliver ks n f eof) = 9 + length ks"
| "point_work (P_error e) = 8"
| "point_work P_closing = 6"
| "point_work P_flush = 5"
| "point_work (P_flush_error e) = 4"
| "point_work P_post = 3"

definition task_work :: "('z, 't, 'm, 'b) remuxer \<Rightarrow> task \<Rightarrow> nat" where
  "task_work s t = (case t of
     T_process \<Rightarrow> if rm_closing s \<or> finishing (rm_point s) then 1 else 10 + pending s
   | T_finish \<Rightarrow> 2 | T_end \<Rightarrow> 1)"

definition work :: "('z, 't, 'm, 'b) remuxer \<Rightarrow> nat" where
  "work s = point_work (rm_point s) + sum_list (map (task_work s) (rm_tasks s))"

lemma work_late:
  assumes "rm_closing s \<or> finishing (rm_point s)" and "rm_tasks s = [] \<or> rm_tasks s = [T_process]"
  shows "point_work (rm_point s) \<le> work s" "work s \<le> point_work (rm_point s) + 1"
  using assms by (auto simp: work_def task_work_def)

lemma length_insert_upper [simp]: "length (insert_upper L ts k q) = length q + 1"
proof -
  have "length q = length (takeWhile (\<lambda>e. \<not> precedes L ts k e) q) + length (dropWhile (\<lambda>e. \<not> precedes L ts k e) q)"
    by (metis length_append takeWhile_dropWhile_id)
  then show ?thesis by (simp add: insert_upper_def)
qed

lemma pop_length:
  assumes "PopReady L fl il = (Inr ks, il')"
  shows "length ks \<le> length (il_queue il)"
proof -
  have "\<exists>rest. ks @ rest = il_queue il \<or> ks = []"
    using wp_InrD [OF PopReady_wp assms] by (auto split: if_splits dest!: release_append [OF sym])
  then show ?thesis by (metis le_add1 length_append list.size(3) zero_le)
qed

lemma push_length:
  assumes "Push L (Some k) il = (Inr u, il')"
  shows "length (il_queue il') = length (il_queue il) + 1"
  using wp_InrD [OF Push_wp assms] by auto

lemma take_work:
  fixes E :: "('z, 't, 'm, 'b) env"
  assumes inv: "rm_inv (ev_lib E) tbs s" and idle: "rm_point s = P_idle"
    and tasks: "rm_tasks s = [T_process]" and run: "rm_running s" "\<not> rm_closing s" "rm_draining s"
    and u: "u = Process_take E (s\<lparr>rm_tasks := []\<rparr>)"
  shows "rm_tasks u = [] \<and> rm_draining u \<and> point_work (rm_point u) \<le> 9 + pending s"
proof -
  note i = inv_parts [OF inv]
  let ?s = "s\<lparr>rm_tasks := []\<rparr>"
  obtain g il where g: "rm_queue s = Some g" and il: "rm_interleaver s = Some il"
    using i(1) run by (auto simp: shape_def)
  have ts: "rm_timestamps s \<noteq> None" using i(7) run tasks by (simp add: parts_ok_def)
  obtain r t where pl: "process_locked E ?s = (r, t)" by fastforce
  have take: "u = (case r of Inl e \<Rightarrow> t\<lparr>rm_point := P_error e\<rparr>
      | Inr (first, ks, finish) \<Rightarrow> (case process_init E first ks finish t of
          (Inl e, v) \<Rightarrow> v\<lparr>rm_point := P_error e\<rparr>
        | (Inr eof, v) \<Rightarrow> v\<lparr>rm_point := P_deliver ks (length (rm_recs t)) finish eof\<rparr>))"
    using run unfolding u by (cases r) (simp_all add: Process_take_def pl split: prod.split)
  have f: "rm_queue ?s = Some g" "rm_interleaver ?s = Some il" "rm_timestamps ?s \<noteq> None"
    using g il ts by simp_all
  from pl f show ?thesis
  proof (cases rule: process_locked_cases)
    case (merge_failed x xs e il')
    with take run show ?thesis by simp
  next
    case (merged xs ps il' q il'')
    have len: "length (il_queue il') \<le> pending s"
    proof (cases ps)
      case Nil
      with merged(3) il show ?thesis by (simp add: pending_def)
    next
      case (Cons p ps')
      with merged(4) have "Push (ev_lib E) (Some p) il = (Inr (), il')" by simp
      from push_length [OF this] Cons merged(1) il g show ?thesis by (simp add: pending_def cur_def)
    qed
    show ?thesis
    proof (cases q)
      case (Inl e)
      with merged(6) take run show ?thesis by simp
    next
      case (Inr ks)
      with merged(6) obtain first where r: "r = Inr (first, ks, rm_draining s)" and
        t: "rm_tasks t = []" "rm_draining t" using run by auto
      obtain z v where z: "process_init E first ks (rm_draining s) t = (z, v)" by fastforce
      have c: "same_core t v" by (rule framedD [OF framed_init z])
      have "length ks \<le> pending s" using pop_length merged(5) Inr len by fastforce
      with t c show ?thesis unfolding take r by (cases z) (simp_all add: z same_core_def)
    qed
  qed
qed

lemma Error_draining: "rm_running s \<Longrightarrow> rm_reported s \<longrightarrow> rm_draining s \<Longrightarrow> rm_draining (Error_rm e s)"
  by (cases "rm_queue s") (simp_all add: Error_rm_def close_handoff_def Schedule_rm_def Let_def)

lemma Error_tasks: "rm_closing s \<Longrightarrow> rm_tasks (Error_rm e s) = rm_tasks s"
  by (cases "rm_queue s") (simp_all add: Error_rm_def close_handoff_def Let_def)

lemma core_pending: "same_core s t \<Longrightarrow> pending t = pending s"
  by (simp add: same_core_def pending_def cur_def)

lemma poll_work:
  assumes L: "av_time (ev_lib E)" and inv: "rm_inv (ev_lib E) tbs s" and run: "rm_running s" and d: "rm_draining s"
  shows "\<not> rm_running (poll E s) \<or> rm_draining (poll E s) \<and> work (poll E s) < work s"
proof -
  note i = inv_parts [OF inv]
  have late: "rm_tasks s = [] \<or> rm_tasks s = [T_process]" if "rm_point s \<noteq> P_idle"
    using that i(1) run by (cases "rm_point s") (auto simp: shape_def pends_def)
  show ?thesis
  proof (cases "rm_point s")
    case P_idle
    consider (take) "\<not> rm_closing s" "rm_tasks s = [T_process]"
      | (late) "rm_closing s" "rm_tasks s = [T_process, T_finish]" | (finish) "rm_closing s" "rm_tasks s = [T_finish]"
      | (ended) "rm_closing s" "rm_tasks s = [T_end]"
      using i(1,2) run d P_idle by (auto simp: shape_def flow_def pends_def split: if_splits)
    then show ?thesis
    proof cases
      case take
      let ?u = "Process_take E (s\<lparr>rm_tasks := []\<rparr>)"
      have "poll E s = ?u" using P_idle take by (simp add: poll_def)
      with take_work [OF inv P_idle take(2) run take(1) d refl] P_idle take show ?thesis
        by (simp add: work_def task_work_def)
    next
      case late
      with P_idle d show ?thesis by (simp add: poll_def Process_take_def work_def task_work_def)
    next
      case finish
      with P_idle d show ?thesis
        by (cases "rm_output s") (simp_all add: poll_def Finish_rm_def Let_def work_def task_work_def)
    next
      case ended
      with P_idle show ?thesis by (simp add: poll_def end_section_def)
    qed
  next
    case (P_deliver ks n f eof)
    have cl: "\<not> rm_closing s" using i(1) run P_deliver by (simp add: shape_def)
    show ?thesis
    proof (cases ks)
      case Nil
      with P_deliver late cl d show ?thesis
        by (auto simp: poll_def work_def task_work_def pending_def cur_def)
    next
      case (Cons k ks')
      obtain z u where z: "deliver_packet E n k eof s = (z, u)" by fastforce
      have c: "same_core s u" by (rule framedD [OF framed_deliver z])
      have p: "pending (u\<lparr>rm_point := pt, hm_sent := x\<rparr>) = pending s" "pending (u\<lparr>rm_point := pt\<rparr>) = pending s"
        for pt x using core_pending [OF c] by (simp_all add: pending_def cur_def)
      from P_deliver Cons late cl d z c p show ?thesis
        by (cases z) (auto simp: poll_def work_def task_work_def same_core_def)
    qed
  next
    case (P_error e)
    let ?u = "(Error_rm e s)\<lparr>rm_point := P_closing\<rparr>"
    have u: "poll E s = ?u" using P_error by (simp add: poll_def)
    have "rm_tasks ?u = [] \<or> rm_tasks ?u = [T_process]"
      using inv_parts(1) [OF error_inv [OF inv, of e P_closing]] P_error run by (simp add: shape_def pends_def)
    from work_late(2) [OF _ this] have "work ?u \<le> 7" by simp
    moreover have "8 \<le> work s" using work_late(1) [of s] late P_error by simp
    moreover have "rm_draining ?u" using Error_draining [OF run, of e] d by simp
    ultimately show ?thesis by (simp add: u)
  next
    case P_closing
    obtain g where "rm_queue s = Some g" using i(1) run by (auto simp: shape_def)
    with P_closing d late show ?thesis
      by (auto simp: poll_def close_section_def close_handoff_def work_def task_work_def)
  next
    case P_flush
    have cl: "rm_closing s" using i(1) run P_flush by (simp add: shape_def)
    obtain r t where o: "on_out (Flush_output (ev_mux E)) s = (r, t)" by fastforce
    have c: "same_core s t" by (rule on_out_frame [OF o])
    obtain v p where u: "poll E s = v\<lparr>rm_point := p\<rparr>" and "same_core s v" and p: "point_work p \<le> 4"
    proof (cases "rm_record_only s")
      case True
      with P_flush that [of P_post s] show ?thesis by (simp add: poll_def)
    next
      case False
      show ?thesis
      proof (cases r)
        case (Inl e)
        with P_flush False o c that [of "P_flush_error e" t] show ?thesis by (simp add: poll_def)
      next
        case (Inr a)
        with P_flush False o c that [of P_post t] show ?thesis by (simp add: poll_def)
      qed
    qed
    then have v: "rm_tasks v = rm_tasks s" "rm_closing v" "rm_draining v"
      using cl d by (simp_all add: same_core_def)
    from late P_flush have "rm_tasks s = [] \<or> rm_tasks s = [T_process]" by simp
    with u v p P_flush cl show ?thesis
      by (elim disjE) (simp_all add: work_def task_work_def)
  next
    case (P_flush_error e)
    have cl: "rm_closing s" using i(1) run P_flush_error by (simp add: shape_def)
    with P_flush_error d late run show ?thesis
      by (auto simp: poll_def work_def task_work_def Error_tasks intro: Error_draining)
  next
    case P_post
    have cl: "rm_closing s" using i(1) run P_post by (simp add: shape_def)
    with P_post d late show ?thesis by (auto simp: poll_def work_def task_work_def)
  qed
qed

section \<open>A sample session\<close>

text \<open>One raw AAC track without outputs, one packet, then \<open>Drain\<close> and the poller alone.\<close>

definition sample_env :: "(unit, unit, av_packet list, unit) env" where
  "sample_env = \<lparr>ev_lib = ref_lib,
     ev_zlm = \<lparr>zl_track = (\<lambda>_ _. ()), zl_extra = (\<lambda>_ _. ()), zl_input = (\<lambda>_ _. ()), zl_ready = (\<lambda>_. True),
       zl_rate = (\<lambda>_. 48000), zl_channels = (\<lambda>_. 2), zl_filter_units = (\<lambda>_ _. Inr None)\<rparr>,
     ev_mux = sample_zm, ev_file = sample_muxer, ev_header = 64, ev_mp4 = (\<lambda>_. True), ev_thread = True\<rparr>"

definition sample_unit :: "int \<Rightarrow> av_packet" where
  "sample_unit t = \<lparr>pk_pts = t, pk_dts = t, pk_time_base = avq 1 48000, pk_stream = 1, pk_bytes = [1], pk_side = []\<rparr>"

definition sample_aac :: coded_stream where
  "sample_aac = \<lparr>si_index = 1, si_parameters = True, si_time_base = avq 1 48000, si_codec_known = True,
     si_type = Media_audio, si_extradata_size = 0, si_extradata = False, cs_codec = AV_CODEC_ID_AAC,
     cs_extradata = [], cs_sample_rate = 48000, cs_channels = 2\<rparr>"

type_synonym sample_state = "(unit, unit, av_packet list, unit) remuxer"

definition sample_new :: sample_state where
  "sample_new = Remuxer_new sample_rx"

definition sample_open :: sample_state where
  "sample_open = snd (the (Remuxer_Start sample_env (\<lambda>_. False) [sample_aac] sample_new))"

definition sample_admitted :: sample_state where
  "sample_admitted = sample_open\<lparr>rm_producers := {#Admitted 0 (sample_unit 480)#}\<rparr>"

definition sample_pushed :: sample_state where
  "sample_pushed = (snd (submit_push 0 (sample_unit 480) sample_admitted))\<lparr>rm_producers := {#Pushed 0#}\<rparr>"

definition sample_delivered :: sample_state where
  "sample_delivered = poll sample_env (poll sample_env (Drain_rm sample_pushed))"

definition sample_done :: sample_state where
  "sample_done = (poll sample_env ^^ 6) sample_delivered"

lemma sample_admits: "submit_admit sample_env False (Some (sample_unit 480)) sample_open = Inr (Some 0)"
  by code_simp

lemma sample_pushes: "fst (submit_push 0 (sample_unit 480) sample_admitted) = Inr KSuccess"
  "push_ready (rm_queues sample_admitted 0)"
  by code_simp+

lemma sample_delivered_fields:
  "rm_point sample_delivered = P_deliver [] 0 True [] \<and> rm_tasks sample_delivered = [] \<and>
    \<not> rm_closing sample_delivered \<and> rm_queue sample_delivered = Some 0 \<and> \<not> rm_record_only sample_delivered \<and>
    Option.bind (rm_output sample_delivered) ro_muxer = Some () \<and>
    hm_sent sample_delivered = [sample_unit 480] \<and> hm_in sample_delivered = [sample_unit 480] \<and>
    hm_calls sample_delivered = 0"
  by code_simp

text \<open>From the end of the delivery loop a draining session needs six steps to end.\<close>

lemma finish_run:
  assumes "rm_point s = P_deliver [] n True eof" and "rm_tasks s = []" and "\<not> rm_closing s" and "rm_queue s = Some g"
    and "\<not> rm_record_only s" and "rm_output s = Some o'" and "ro_muxer o' = Some z"
    and "zm_flush (ev_mux E) z = (Inr u, z')"
  shows "let t = (poll E ^^ 6) s in rm_point t = P_idle \<and> \<not> rm_running t \<and> hm_sent t = hm_sent s \<and>
    hm_in t = hm_in s \<and> hm_calls t = hm_calls s"
proof -
  have 6: "(6 :: nat) = Suc (Suc (Suc (Suc (Suc (Suc 0)))))" by simp
  define s2 where "s2 = poll E (poll E s)"
  have s2: "rm_point s2 = P_flush" "rm_tasks s2 = []" "\<not> rm_record_only s2" "rm_output s2 = Some o'"
    "hm_sent s2 = hm_sent s" "hm_in s2 = hm_in s" "hm_calls s2 = hm_calls s"
    using assms by (simp_all add: s2_def poll_def close_section_def close_handoff_def)
  define s4 where "s4 = poll E (poll E s2)"
  have s4: "rm_point s4 = P_idle" "rm_tasks s4 = [T_finish]"
    "hm_sent s4 = hm_sent s" "hm_in s4 = hm_in s" "hm_calls s4 = hm_calls s"
    using s2 assms(7,8) by (simp_all add: s4_def poll_def on_out_def Flush_output_def)
  define s5 where "s5 = poll E s4"
  have s5: "rm_point s5 = P_idle" "rm_tasks s5 = [T_end]"
    "hm_sent s5 = hm_sent s" "hm_in s5 = hm_in s" "hm_calls s5 = hm_calls s"
    using s4 by (cases "rm_output s4"; simp add: s5_def poll_def Finish_rm_def Let_def)+
  have "(poll E ^^ 6) s = poll E s5" by (simp add: 6 funpow_swap1 s5_def s4_def s2_def)
  with s5 show ?thesis by (simp add: poll_def end_section_def)
qed

lemma sample_done_fields:
  "rm_point sample_done = P_idle" "\<not> rm_running sample_done" "hm_sent sample_done = [sample_unit 480]"
  "hm_in sample_done = [sample_unit 480]" "hm_calls sample_done = 0"
proof -
  obtain o' where o: "rm_output sample_delivered = Some o'" "ro_muxer o' = Some ()"
    using sample_delivered_fields by (auto simp: bind_eq_Some_conv)
  have f: "zm_flush (ev_mux sample_env) () = (Inr (), ())" by (simp add: sample_env_def sample_zm_def)
  from finish_run [of sample_delivered 0 "[]" 0, OF _ _ _ _ _ o f] sample_delivered_fields
  show "rm_point sample_done = P_idle" "\<not> rm_running sample_done" "hm_sent sample_done = [sample_unit 480]"
    "hm_in sample_done = [sample_unit 480]" "hm_calls sample_done = 0"
    by (simp_all add: sample_done_def Let_def)
qed

definition sample_set :: "av_rational set" where
  "sample_set = {avq 1 48000}"

lemma sample_open_reached: "remuxing sample_env sample_set sample_open"
proof -
  have "Remuxer_Start sample_env (\<lambda>_. False) [sample_aac] sample_new \<noteq> None"
    by (simp add: Remuxer_Start_def Start_rm_def join_all_def sample_new_def Remuxer_new_def)
  then obtain b t where t: "Remuxer_Start sample_env (\<lambda>_. False) [sample_aac] sample_new = Some (b, t)" by auto
  have "rm_ctl sample_new = Ctl_idle" "rm_point sample_new = P_idle"
    by (simp_all add: sample_new_def Remuxer_new_def)
  moreover have "remuxing sample_env sample_set sample_new" unfolding sample_new_def by (rule remuxing.create)
  ultimately have "remuxing sample_env sample_set t" using t by (metis remuxing.begin_session)
  then
  show ?thesis by (simp add: sample_open_def t)
qed

lemma sample_pushed_reached: "remuxing sample_env sample_set sample_pushed"
proof -
  have r: "regular sample_set (sample_unit 480)"
    by (simp add: regular_def sample_set_def sample_unit_def fits_in_def rescale_num_def rescale_den_def)
  have "rm_producers sample_open = {#}" by code_simp
  with remuxing.admit [OF sample_open_reached sample_admits r]
  have a: "remuxing sample_env sample_set sample_admitted" by (simp add: sample_admitted_def)
  obtain t where t: "submit_push 0 (sample_unit 480) sample_admitted = (Inr KSuccess, t)"
    using sample_pushes(1) by (metis prod.collapse)
  have "rm_producers sample_admitted = {#} + {#Admitted 0 (sample_unit 480)#}" by (simp add: sample_admitted_def)
  from remuxing.push [OF a this sample_pushes(2) t] show ?thesis by (simp add: sample_pushed_def t)
qed

lemma poll_reached: "remuxing E tbs s \<Longrightarrow> remuxing E tbs ((poll E ^^ n) s)"
  by (induction n) (simp_all add: remuxing.poller)

lemma sample_done_reached: "remuxing sample_env sample_set sample_done"
  unfolding sample_done_def sample_delivered_def
  by (intro poll_reached remuxing.poller remuxing.drain sample_pushed_reached)

section \<open>Properties\<close>



text \<open>
  C6: \<open>Stop\<close> is not stuck. After \<open>Drain\<close> in any reachable state, with whatever tasks, errors and
  half-delivered batches, the poller alone ends the session; it needs at most twenty steps more
  than there are packets in its hands, in the interleaver and in the hand-over queue.
\<close>

theorem remuxer_stops:
  assumes "av_time (ev_lib E)" and "remuxing E tbs s"
  shows "\<exists>n \<le> 20 + length (delivering (rm_point s)) + pending s. \<not> rm_running ((poll E ^^ n) (Drain_rm s))"
proof -
  have ends: "\<exists>n \<le> work u + 1. \<not> rm_running ((poll E ^^ n) u)"
    if "rm_inv (ev_lib E) tbs u" "rm_running u \<longrightarrow> rm_draining u" for u :: "('a, 'b, 'c, 'd) remuxer"
    using that
  proof (induction "work u" arbitrary: u rule: less_induct)
    case less
    show ?case
    proof (cases "rm_running u")
      case True
      with less.prems poll_work [OF assms(1) less.prems(1)]
      consider "\<not> rm_running (poll E u)" | "rm_draining (poll E u)" "work (poll E u) < work u" by blast
      then show ?thesis
      proof cases
        case 1
        then show ?thesis by (intro exI [of _ 1]) simp
      next
        case 2
        with less.hyps poll_inv [OF assms(1) less.prems(1)]
        obtain n where "n \<le> work (poll E u) + 1" "\<not> rm_running ((poll E ^^ n) (poll E u))" by blast
        with 2 show ?thesis by (intro exI [of _ "Suc n"]) (simp add: funpow_swap1)
      qed
    qed (intro exI [of _ 0], simp)
  qed
  let ?u = "Drain_rm s"
  have inv: "rm_inv (ev_lib E) tbs s" by (rule remuxing_inv [OF assms])
  have iu: "rm_inv (ev_lib E) tbs ?u" by (rule Drain_rm_inv [OF inv])
  have d: "rm_running ?u \<longrightarrow> rm_draining ?u \<and> rm_point ?u = rm_point s \<and> pending ?u = pending s"
  proof (cases "\<not> rm_running s \<or> rm_closing s")
    case True
    with inv_parts(2) [OF inv] show ?thesis by (auto simp: Drain_eq flow_def)
  next
    case False
    with inv_parts(1) [OF inv] obtain g where g: "rm_queue s = Some g" by (auto simp: shape_def)
    with False show ?thesis by (simp add: Drain_eq stop_intake_eq [OF g] pending_def cur_def)
  qed
  show ?thesis
  proof (cases "rm_running ?u")
    case True
    have "work ?u \<le> 19 + length (delivering (rm_point ?u)) + pending ?u"
      using inv_parts(1) [OF iu] True
      by (cases "rm_point ?u") (auto simp: shape_def pends_def work_def task_work_def split: if_splits)
    moreover obtain n where "n \<le> work ?u + 1" "\<not> rm_running ((poll E ^^ n) ?u)" using ends [OF iu] d by blast
    ultimately show ?thesis using True d by (intro exI [of _ n]) simp
  qed (intro exI [of _ 0], simp)
qed

theorem remuxer_stops_witness:
  "\<exists>n \<le> 21. \<not> rm_running ((poll sample_env ^^ n) (Drain_rm sample_pushed))"
proof -
  have "av_time (ev_lib sample_env)" by (simp add: sample_env_def ref_time.av_time_axioms)
  moreover have "delivering (rm_point sample_pushed) = [] \<and> pending sample_pushed = 1" by code_simp
  ultimately show ?thesis using remuxer_stops [OF _ sample_pushed_reached] by simp
qed

text \<open>
  C34: No accepted packet is forgotten in the hand-over queue. While a packet waits
  there, \<open>Process\<close> is queued on the poller, or the producer that brought it has still to schedule it, or an error
  ends the session.
\<close>

theorem handoff_not_forgotten:
  assumes "av_time (ev_lib E)" and "remuxing E tbs s" and "rm_queue s = Some g" and "items (rm_queues s g) \<noteq> []"
  shows "rm_tasks s = [T_process] \<or> Pushed g \<in># rm_producers s \<or> rm_reported s \<or> (\<exists>e. rm_point s = P_error e)"
proof -
  note i = inv_parts [OF remuxing_inv [OF assms(1,2)]]
  have run: "rm_running s" using i(1) assms(3) by (auto simp: shape_def split: if_splits)
  have c: "cur s = rm_queues s g" using assms(3) by (simp add: cur_def)
  have f: "failing (rm_point s) \<longleftrightarrow> (\<exists>e. rm_point s = P_error e)" by (cases "rm_point s") simp_all
  show ?thesis
  proof (cases "rm_closing s \<or> finishing (rm_point s)")
    case True
    with i(5) run assms(4) c f show ?thesis by (auto simp: history_def complete_def)
  next
    case False
    with i(4) run assms(3,4) c show ?thesis by (auto simp: owed_ok_def pends_def)
  qed
qed

theorem handoff_not_forgotten_witness:
  "remuxing sample_env sample_set sample_pushed \<and> items (rm_queues sample_pushed 0) = [sample_unit 480] \<and>
   (rm_tasks sample_pushed = [T_process] \<or> Pushed 0 \<in># rm_producers sample_pushed \<or>
    rm_reported sample_pushed \<or> (\<exists>e. rm_point sample_pushed = P_error e))"
proof -
  have a: "av_time (ev_lib sample_env)" by (simp add: sample_env_def ref_time.av_time_axioms)
  have q: "rm_queue sample_pushed = Some 0" "items (rm_queues sample_pushed 0) = [sample_unit 480]" by code_simp+
  with handoff_not_forgotten [OF a sample_pushed_reached q(1)] sample_pushed_reached show ?thesis by simp
qed

text \<open>
  An error is reported once and ends the intake. The callback is called at most once in a
  session; once it was, no packet is accepted any more, and a session still running is draining with
  its hand-over queue closed.
\<close>

theorem error_reported_once:
  assumes "av_time (ev_lib E)" and "remuxing E tbs s"
  shows "hm_calls s \<le> 1 \<and> (hm_calls s = 1 \<longrightarrow> \<not> rm_accepting s \<and>
    (rm_running s \<longrightarrow> rm_draining s \<and> (\<exists>g. rm_queue s = Some g \<and> bq.closed (rm_queues s g))))"
proof -
  note i = inv_parts [OF remuxing_inv [OF assms]]
  have "rm_running s \<Longrightarrow> \<exists>g. rm_queue s = Some g" using i(1) by (auto simp: shape_def)
  with i(3,6) show ?thesis by (auto simp: calls_ok_def queues_ok_def cur_def)
qed

theorem error_reported_once_witness:
  "\<exists>s. remuxing sample_env sample_set s \<and> hm_calls s = 1 \<and> \<not> rm_accepting s \<and> rm_running s \<and> rm_draining s"
proof -
  let ?s = "Error_rm Runtime_error sample_pushed"
  have a: "av_time (ev_lib sample_env)" by (simp add: sample_env_def ref_time.av_time_axioms)
  obtain o' where o: "rm_output sample_pushed = Some o'" "\<not> ro_closed o'"
  proof -
    have "map_option ro_closed (rm_output sample_pushed) = Some False" by code_simp
    with that show ?thesis by auto
  qed
  have r: "remuxing sample_env sample_set ?s"
    by (rule remuxing.pusher_closed [where E = sample_env, OF sample_pushed_reached o])
  have "hm_calls ?s = 1 \<and> rm_running ?s" by code_simp
  with error_reported_once [OF a r] r show ?thesis by blast
qed

text \<open>
  The poller and the producers never reach for a part that is gone: whenever packets are
  accepted, \<open>Process\<close> is under way or the only queued task is \<open>Process\<close>, the queue, the
  interleaver, the output, the converter and the timestamps of the session exist.
\<close>

theorem remuxer_parts_exist:
  assumes "av_time (ev_lib E)" and "remuxing E tbs s"
    and "rm_accepting s \<or> rm_point s \<noteq> P_idle \<or> rm_tasks s = [T_process]"
  shows "rm_queue s \<noteq> None \<and> rm_interleaver s \<noteq> None \<and> rm_output s \<noteq> None \<and> rm_converter s \<noteq> None \<and>
    rm_timestamps s \<noteq> None"
proof -
  note i = inv_parts [OF remuxing_inv [OF assms(1,2)]]
  have run: "rm_running s" using i(1,2) assms(3) by (auto simp: shape_def flow_def split: if_splits)
  have "rm_tasks s \<noteq> [T_end]"
    using i(1,2) run assms(3) by (cases "rm_point s") (auto simp: shape_def flow_def pends_def split: if_splits)
  with i(1,7) run show ?thesis by (auto simp: shape_def parts_ok_def)
qed

theorem remuxer_parts_exist_witness: "rm_converter sample_pushed \<noteq> None \<and> rm_timestamps sample_pushed \<noteq> None"
proof -
  have a: "av_time (ev_lib sample_env)" by (simp add: sample_env_def ref_time.av_time_axioms)
  have "rm_accepting sample_pushed" by code_simp
  with remuxer_parts_exist [OF a sample_pushed_reached] show ?thesis by blast
qed

end
