(* ===== verification/Decoder.thy ===== *)
theory Decoder
  imports Blocking_Queue Packet_Converter
begin

text \<open>
  \<^verbatim>\<open>decoder/av_decoder.cc\<close>: one decoder per track, with a bounded packet queue, a worker thread around
  the codec, and a bounded frame queue.

  The codec context is a value of the type variable \<open>'c\<close>, reached through \<open>codec_lib\<close>. State, flags
  and queues are \<open>decoder\<close>; \<open>worker_dec\<close> is the body of \<open>Run\<close>, one program point at a time, and \<open>decoding\<close>
  interleaves it with the producer, the consumer and any number of stop requests. Calls of the single
  producer and the single consumer are split where they release the mutex; where they stand is
  \<open>dc_producer\<close> and \<open>dc_consumer\<close>.

  Histories: inputs accepted, calls on the codec with their outcome, results put into the frame queue,
  results returned to the consumer, calls of the error callback.
\<close>

section \<open>Codec and configuration\<close>

datatype hw_device = Dev_cuda | Dev_other

datatype pix_fmt = YUV420P | YUV422P | YUV444P | YUVA420P | YUVA422P | YUVA444P | PF_CUDA | PF_other nat

record codec_desc =
  co_name :: string
  co_id :: codec_id
  co_type :: media_type
  co_hardware :: bool
  co_configs :: "bool list"

record decoder_stream = coded_stream +
  ds_frame_rate :: av_rational
  ds_aspect :: av_rational
  ds_alpha_mode :: "string option"

record decoder_config =
  dn_name :: string
  dn_packet_capacity :: nat
  dn_frame_capacity :: nat
  dn_thread_count :: int

datatype answer = A_frame av_frame | A_again | A_eof | A_failed

record 'c codec_lib =
  cl_by_name :: "string \<Rightarrow> codec_desc option"
  cl_by_id :: "codec_id \<Rightarrow> codec_desc option"
  cl_context :: "codec_desc \<Rightarrow> coded_stream \<Rightarrow> 'c result"
  cl_set_threads :: "int \<Rightarrow> 'c \<Rightarrow> 'c"
  cl_set_rate :: "av_rational \<Rightarrow> 'c \<Rightarrow> 'c"
  cl_set_aspect :: "av_rational \<Rightarrow> 'c \<Rightarrow> 'c"
  cl_pix_fmt :: "'c \<Rightarrow> pix_fmt"
  cl_set_pix_fmt :: "pix_fmt \<Rightarrow> 'c \<Rightarrow> 'c"
  cl_set_device :: "'c \<Rightarrow> 'c"
  cl_open :: "'c \<Rightarrow> 'c result"
  cl_send :: "av_packet option \<Rightarrow> 'c \<Rightarrow> unit result \<times> 'c"
  cl_receive :: "'c \<Rightarrow> answer \<times> 'c"
  cl_flush :: "'c \<Rightarrow> 'c"
  cl_rate :: "'c \<Rightarrow> av_rational"
  cl_sample_rate :: "'c \<Rightarrow> int"
  cl_cuda_frame :: "av_frame \<Rightarrow> bool"

text \<open>A device is \<open>None\<close> where the code has none, or one without a native context.\<close>

definition FindDecoder ::
    "'c codec_lib \<Rightarrow> coded_stream \<Rightarrow> string \<Rightarrow> hw_device option \<Rightarrow> codec_desc result" where
  "FindDecoder C s name device =
     chain (StreamInfo_Validate (stream_info.truncate s)) (\<lambda>_.
     if CHR 0x00 \<in> set name then Inl Invalid_argument
     else
       let id = cs_codec s; hardware = device \<noteq> None \<and> si_type s = Media_video;
           first = (if name \<noteq> [] then cl_by_name C name
                    else if \<not> hardware \<and> id = AV_CODEC_ID_VP9 then cl_by_name C ''libvpx-vp9''
                    else if \<not> hardware \<and> id = AV_CODEC_ID_VP8 then cl_by_name C ''libvpx''
                    else None);
           codec = (if name = [] \<and> first = None then cl_by_id C id else first)
       in case codec of
            None \<Rightarrow> Inl Ffmpeg_error
          | Some c \<Rightarrow> if co_id c \<noteq> id \<or> co_type c \<noteq> si_type s then Inl Invalid_argument else Inr c)"

text \<open>The callback with which the codec chooses its pixel format.\<close>

definition HardwareFormat :: "pix_fmt list \<Rightarrow> pix_fmt option" where
  "HardwareFormat fs = List.find (\<lambda>f. f = PF_CUDA) fs"

definition AlphaFormat :: "pix_fmt \<Rightarrow> pix_fmt" where
  "AlphaFormat f = (case f of YUV420P \<Rightarrow> YUVA420P | YUV422P \<Rightarrow> YUVA422P | YUV444P \<Rightarrow> YUVA444P | _ \<Rightarrow> f)"

definition ConfigureDevice ::
    "'c codec_lib \<Rightarrow> hw_device \<Rightarrow> codec_desc \<Rightarrow> int \<Rightarrow> 'c \<Rightarrow> 'c result" where
  "ConfigureDevice C device desc tn c =
     (if device \<noteq> Dev_cuda then Inl Invalid_argument
      else if \<not> list_ex (\<lambda>b. b) (co_configs desc) then Inl Invalid_argument
      else Inr (cl_set_threads C (if tn = 0 then 2 else tn) (cl_set_device C c)))"

section \<open>State\<close>

datatype dec_input = In_packet av_packet | In_eof | In_reset

datatype dec_point =
    D_top
  | D_receive
  | D_emit read_result bool
  | D_pop
  | D_input dec_input
  | D_send "av_packet option"
  | D_failed exn
  | D_close_packets
  | D_close_frames
  | D_discard
  | D_notify
  | D_done

datatype dec_producer = U_idle | U_push dec_input | U_mark dec_input

datatype dec_consumer = V_idle | V_pop bool | V_check read_result

text \<open>The calls on the codec; an answer is kept with the context it leaves.\<close>

datatype 'c codec_call = C_send "av_packet option" | C_answer answer 'c | C_flush

record 'c decoder =
  dc_stream :: decoder_stream
  dc_config :: decoder_config
  dc_context :: 'c
  dc_hw :: bool
  dc_stopping :: bool
  dc_submitted_eof :: bool
  dc_error :: "exn option"
  dc_callback :: bool
  dc_report :: bool
  dc_packets :: "dec_input bq"
  dc_frames :: "read_result bq"
  dc_point :: dec_point
  dc_started :: bool
  dc_drained :: bool
  dc_next_pts :: int
  dc_producer :: dec_producer
  dc_consumer :: dec_consumer
  dh_in :: "dec_input list"
  dh_calls :: "'c codec_call list"
  dh_out :: "read_result list"
  dh_read :: "read_result list"
  dh_reports :: nat

text \<open>The members as they are when the worker starts.\<close>

definition AvDecoder_members ::
    "decoder_stream \<Rightarrow> decoder_config \<Rightarrow> 'c \<Rightarrow> bool \<Rightarrow> dec_input bq \<Rightarrow> read_result bq \<Rightarrow> 'c decoder" where
  "AvDecoder_members s c ctx hw packets frames =
     \<lparr>dc_stream = s, dc_config = c, dc_context = ctx, dc_hw = hw, dc_stopping = False,
      dc_submitted_eof = False, dc_error = None, dc_callback = False, dc_report = False, dc_packets = packets,
      dc_frames = frames, dc_point = D_top, dc_started = False, dc_drained = False,
      dc_next_pts = AV_NOPTS_VALUE, dc_producer = U_idle, dc_consumer = V_idle,
      dh_in = [], dh_calls = [], dh_out = [], dh_read = [], dh_reports = 0\<rparr>"

text \<open>What the constructor copies from the stream into the codec context.\<close>

definition stream_hints :: "'c codec_lib \<Rightarrow> decoder_stream \<Rightarrow> int \<Rightarrow> 'c \<Rightarrow> 'c" where
  "stream_hints C s tn ctx =
     (let video = (si_type s = Media_video);
          ctx = cl_set_threads C tn ctx;
          ctx = (if video \<and> valid_tb (ds_frame_rate s) then cl_set_rate C (ds_frame_rate s) ctx else ctx);
          ctx = (if video \<and> valid_tb (ds_aspect s) then cl_set_aspect C (ds_aspect s) ctx else ctx)
      in if video \<and> (case ds_alpha_mode s of None \<Rightarrow> False | Some v \<Rightarrow> v \<noteq> [] \<and> hd v = CHR ''1'')
         then cl_set_pix_fmt C (AlphaFormat (cl_pix_fmt C ctx)) ctx else ctx)"

text \<open>The constructor; \<open>created\<close> tells whether the operating system creates the thread.\<close>

definition AvDecoder_new ::
    "'c codec_lib \<Rightarrow> bool \<Rightarrow> decoder_stream \<Rightarrow> decoder_config \<Rightarrow> hw_device option \<Rightarrow> 'c decoder result" where
  "AvDecoder_new C created s c device =
     (let cs = coded_stream.truncate s in
      chain (FindDecoder C cs (dn_name c) device) (\<lambda>desc.
      chain (bq_new (dn_packet_capacity c)) (\<lambda>packets.
      chain (bq_new (dn_frame_capacity c)) (\<lambda>frames.
      if dn_thread_count c < 0 then Inl Invalid_argument
      else chain (cl_context C desc cs) (\<lambda>ctx.
        let ctx = stream_hints C s (dn_thread_count c) ctx;
            hw = (device \<noteq> None \<and> si_type s = Media_video)
        in chain (if hw then ConfigureDevice C (the device) desc (dn_thread_count c) ctx else Inr ctx) (\<lambda>ctx.
           if co_hardware desc \<and> \<not> hw then Inl Invalid_argument
           else chain (cl_open C ctx) (\<lambda>ctx.
                if \<not> created then Inl Runtime_error
                else Inr (AvDecoder_members s c ctx hw packets frames))))))))"

definition SetOnError_dec :: "bool \<Rightarrow> 'c decoder \<Rightarrow> 'c decoder" where
  "SetOnError_dec b s = s\<lparr>dc_callback := b\<rparr>"

section \<open>The producer\<close>

definition PushPacket_check :: "packet \<Rightarrow> 'c decoder \<Rightarrow> dec_input result" where
  "PushPacket_check p s =
     (case p of None \<Rightarrow> Inl Invalid_argument
      | Some k \<Rightarrow> if pk_bytes k = [] \<or> pk_stream k \<noteq> si_index (dc_stream s) then Inl Invalid_argument
                  else Inr (In_packet k))"

definition push_mark :: "dec_input \<Rightarrow> 'c decoder \<Rightarrow> 'c decoder" where
  "push_mark i s = s\<lparr>dc_submitted_eof := (i = In_eof), dc_producer := U_idle\<rparr>"

definition push_queue :: "dec_input \<Rightarrow> 'c decoder \<Rightarrow> 'c decoder" where
  "push_queue i s =
     (case push_body True i (dc_packets s) of
        (r, q, _) \<Rightarrow> s\<lparr>dc_packets := q, dh_in := dh_in s @ accepted_by r i,
                       dc_producer := (if r = Inr KSuccess then U_mark i else U_idle)\<rparr>)"

text \<open>\<open>Push\<close> up to the point where it waits; without waiting the whole call is one section.\<close>

definition Push_dec :: "bool \<Rightarrow> dec_input \<Rightarrow> ('c decoder, bool) act" where
  "Push_dec wait i =
     andthen (gets (\<lambda>s. dc_stopping s \<or> dc_error s \<noteq> None)) (\<lambda>over.
     if over then ret False
     else andthen (gets (\<lambda>s. dc_submitted_eof s \<and> i \<noteq> In_reset)) (\<lambda>late.
          andthen (guard (\<not> late) Logic_error) (\<lambda>_.
          if wait then andthen (modify (\<lambda>s. s\<lparr>dc_producer := U_push i\<rparr>)) (\<lambda>_. ret True)
          else andthen (gets (\<lambda>s. dn_packet_capacity (dc_config s) \<le> Size (dc_packets s))) (\<lambda>full.
               if full then ret False
               else andthen (modify (push_queue i)) (\<lambda>_.
                    andthen (gets dc_producer) (\<lambda>p.
                    if p = U_mark i then andthen (modify (push_mark i)) (\<lambda>_. ret True) else ret False))))))"

definition PushPacket_dec :: "bool \<Rightarrow> packet \<Rightarrow> ('c decoder, bool) act" where
  "PushPacket_dec wait p =
     andthen (gets (PushPacket_check p)) (\<lambda>r. andthen (lift r) (\<lambda>i. Push_dec wait i))"

definition PushEof_dec :: "bool \<Rightarrow> ('c decoder, bool) act" where
  "PushEof_dec wait = Push_dec wait In_eof"

definition Reset_dec :: "bool \<Rightarrow> ('c decoder, bool) act" where
  "Reset_dec wait = Push_dec wait In_reset"

section \<open>The consumer\<close>

definition blank_result :: "decoder_stream \<Rightarrow> read_result" where
  "blank_result st = null_result\<lparr>rr_stream := si_index st, rr_time_base := si_time_base st\<rparr>"

definition read_begin :: "bool \<Rightarrow> 'c decoder \<Rightarrow> 'c decoder" where
  "read_begin wait s = (if dc_stopping s then s else s\<lparr>dc_consumer := V_pop wait\<rparr>)"

definition read_pop :: "'c decoder \<Rightarrow> 'c decoder" where
  "read_pop s =
     (case pop_body True (dc_frames s) of
        ((r, x), q, _) \<Rightarrow> s\<lparr>dc_frames := q,
          dc_consumer := V_check (case x of None \<Rightarrow> blank_result (dc_stream s) | Some y \<Rightarrow> y)\<rparr>)"

definition read_check :: "read_result \<Rightarrow> 'c decoder \<Rightarrow> read_result \<times> 'c decoder" where
  "read_check x s =
     (let y = (if dc_stopping s then blank_result (dc_stream s) else x)
      in (y, s\<lparr>dc_consumer := V_idle, dh_read := dh_read s @ (if rr_status y = KNull then [] else [y])\<rparr>))"

section \<open>The worker\<close>

definition FrameEndPts ::
    "av_lib \<Rightarrow> 'c codec_lib \<Rightarrow> decoder_stream \<Rightarrow> 'c \<Rightarrow> av_frame \<Rightarrow> int" where
  "FrameEndPts L C st c f =
     (if fr_pts f = AV_NOPTS_VALUE then AV_NOPTS_VALUE
      else
        let rate = cl_rate C c; sr = cl_sample_rate C c; tb = si_time_base st;
            d = (if 0 < fr_duration f then fr_duration f
                 else if si_type st = Media_video \<and> valid_tb rate then rescale_q L 1 (inv_q L rate) tb
                 else if si_type st = Media_audio \<and> 0 < sr then rescale_q L (fr_nb_samples f) (avq 1 sr) tb
                 else fr_duration f)
        in if d \<le> 0 \<or> i64_max - d < fr_pts f then AV_NOPTS_VALUE else fr_pts f + d)"

definition stamped :: "decoder_stream \<Rightarrow> av_frame \<Rightarrow> av_frame" where
  "stamped st f = f\<lparr>fr_pts := fr_best_effort f, fr_time_base := si_time_base st\<rparr>"

definition frame_result :: "decoder_stream \<Rightarrow> av_frame \<Rightarrow> read_result" where
  "frame_result st f = (blank_result st)\<lparr>rr_status := KFrame, rr_frame := Has_frame f\<rparr>"

definition eof_result :: "decoder_stream \<Rightarrow> int \<Rightarrow> read_result" where
  "eof_result st pts = (blank_result st)\<lparr>rr_status := KEof, rr_end_pts := pts\<rparr>"

definition receive_step :: "av_lib \<Rightarrow> 'c codec_lib \<Rightarrow> 'c decoder \<Rightarrow> 'c decoder" where
  "receive_step L C s =
     (case cl_receive C (dc_context s) of
        (a, c) \<Rightarrow>
          let s = s\<lparr>dc_context := c, dh_calls := dh_calls s @ [C_answer a c]\<rparr> in
          case a of
            A_eof \<Rightarrow> s\<lparr>dc_point := D_emit (eof_result (dc_stream s) (dc_next_pts s)) True\<rparr>
          | A_again \<Rightarrow> s\<lparr>dc_point := D_pop\<rparr>
          | A_failed \<Rightarrow> s\<lparr>dc_point := D_failed Ffmpeg_error\<rparr>
          | A_frame f \<Rightarrow>
              if dc_hw s \<and> \<not> cl_cuda_frame C f then s\<lparr>dc_point := D_failed Ffmpeg_error\<rparr>
              else let f = stamped (dc_stream s) f
                   in s\<lparr>dc_next_pts := FrameEndPts L C (dc_stream s) c f,
                        dc_point := D_emit (frame_result (dc_stream s) f) False\<rparr>)"

definition emit_step :: "read_result \<Rightarrow> bool \<Rightarrow> 'c decoder \<Rightarrow> 'c decoder" where
  "emit_step x eof s =
     (case push_body True x (dc_frames s) of
        (r, q, _) \<Rightarrow>
          if r = Inr KSuccess
          then s\<lparr>dc_frames := q, dh_out := dh_out s @ [x], dc_drained := dc_drained s \<or> eof, dc_point := D_top\<rparr>
          else s\<lparr>dc_frames := q, dc_point := D_done\<rparr>)"

definition pop_step :: "'c decoder \<Rightarrow> 'c decoder" where
  "pop_step s =
     (case pop_body True (dc_packets s) of
        ((r, x), q, _) \<Rightarrow> s\<lparr>dc_packets := q, dc_point := (case x of None \<Rightarrow> D_done | Some i \<Rightarrow> D_input i)\<rparr>)"

definition input_step :: "'c codec_lib \<Rightarrow> dec_input \<Rightarrow> 'c decoder \<Rightarrow> 'c decoder" where
  "input_step C i s =
     (if dc_stopping s then s\<lparr>dc_point := D_done\<rparr>
      else case i of
        In_reset \<Rightarrow> s\<lparr>dc_context := cl_flush C (dc_context s), dh_calls := dh_calls s @ [C_flush],
          dc_started := False, dc_drained := False, dc_next_pts := AV_NOPTS_VALUE, dc_point := D_top\<rparr>
      | In_packet k \<Rightarrow> s\<lparr>dc_point := D_send (Some k)\<rparr>
      | In_eof \<Rightarrow> s\<lparr>dc_point := D_send None\<rparr>)"

definition send_step :: "'c codec_lib \<Rightarrow> av_packet option \<Rightarrow> 'c decoder \<Rightarrow> 'c decoder" where
  "send_step C k s =
     (case cl_send C k (dc_context s) of
        (r, c) \<Rightarrow>
          let s = s\<lparr>dc_context := c, dh_calls := dh_calls s @ [C_send k]\<rparr> in
          case r of
            Inl e \<Rightarrow> s\<lparr>dc_point := D_failed e\<rparr>
          | Inr _ \<Rightarrow> s\<lparr>dc_started := True, dc_point := D_top\<rparr>)"

text \<open>Whether the worker can go on: it waits for room, for input, or has returned.\<close>

definition worker_ready :: "'c decoder \<Rightarrow> bool" where
  "worker_ready s =
     (case dc_point s of
        D_emit _ _ \<Rightarrow> push_ready (dc_frames s) | D_pop \<Rightarrow> pop_ready (dc_packets s) | D_done \<Rightarrow> False | _ \<Rightarrow> True)"

definition worker_dec :: "av_lib \<Rightarrow> 'c codec_lib \<Rightarrow> 'c decoder \<Rightarrow> 'c decoder" where
  "worker_dec L C s =
     (case dc_point s of
        D_top \<Rightarrow> s\<lparr>dc_point := (if dc_stopping s then D_done
                              else if dc_started s \<and> \<not> dc_drained s then D_receive else D_pop)\<rparr>
      | D_receive \<Rightarrow> receive_step L C s
      | D_emit x eof \<Rightarrow> emit_step x eof s
      | D_pop \<Rightarrow> pop_step s
      | D_input i \<Rightarrow> input_step C i s
      | D_send k \<Rightarrow> send_step C k s
      | D_failed e \<Rightarrow> s\<lparr>dc_error := Some e, dc_report := dc_callback s, dc_callback := False, dc_point := D_close_packets\<rparr>
      | D_close_packets \<Rightarrow> s\<lparr>dc_packets := fst (close_body (dc_packets s)), dc_point := D_close_frames\<rparr>
      | D_close_frames \<Rightarrow> s\<lparr>dc_frames := fst (close_body (dc_frames s)), dc_point := D_discard\<rparr>
      | D_discard \<Rightarrow> (case pop_body True (dc_packets s) of
          ((r, x), q, _) \<Rightarrow> s\<lparr>dc_packets := q, dc_point := (if x = None then D_notify else D_discard)\<rparr>)
      | D_notify \<Rightarrow> s\<lparr>dh_reports := dh_reports s + (if dc_report s then 1 else 0), dc_point := D_done\<rparr>
      | D_done \<Rightarrow> s)"

section \<open>Stopping\<close>

definition request_stop :: "'c decoder \<Rightarrow> 'c decoder" where
  "request_stop s = s\<lparr>dc_stopping := True\<rparr>"

definition stop_packets :: "'c decoder \<Rightarrow> 'c decoder" where
  "stop_packets s = s\<lparr>dc_packets := fst (close_body (dc_packets s))\<rparr>"

definition stop_frames :: "'c decoder \<Rightarrow> 'c decoder" where
  "stop_frames s = s\<lparr>dc_frames := fst (close_body (dc_frames s))\<rparr>"

text \<open>The end of \<open>Stop\<close>, after the worker was joined: both queues are emptied.\<close>

definition stop_discard :: "'c decoder \<Rightarrow> 'c decoder" where
  "stop_discard s = s\<lparr>dc_packets := (dc_packets s)\<lparr>items := []\<rparr>, dc_frames := (dc_frames s)\<lparr>items := []\<rparr>\<rparr>"

section \<open>Interleavings\<close>

text \<open>One producer, one consumer, the worker, and any number of threads that stop the decoder.\<close>

inductive decoding :: "av_lib \<Rightarrow> 'c codec_lib \<Rightarrow> 'c decoder \<Rightarrow> 'c decoder \<Rightarrow> bool"
  for L :: av_lib and C :: "'c codec_lib" where
  worker: "worker_ready s \<Longrightarrow> decoding L C s (worker_dec L C s)"
| push: "dc_producer s = U_idle \<Longrightarrow>
    m = PushPacket_dec wait p \<or> m = PushEof_dec wait \<or> m = Reset_dec wait \<Longrightarrow>
    m s = (r, t) \<Longrightarrow> decoding L C s t"
| push_queue: "dc_producer s = U_push i \<Longrightarrow> push_ready (dc_packets s) \<Longrightarrow> decoding L C s (push_queue i s)"
| push_mark: "dc_producer s = U_mark i \<Longrightarrow> decoding L C s (push_mark i s)"
| read_begin: "dc_consumer s = V_idle \<Longrightarrow> decoding L C s (read_begin wait s)"
| read_pop: "dc_consumer s = V_pop wait \<Longrightarrow> wait \<longrightarrow> pop_ready (dc_frames s) \<Longrightarrow> decoding L C s (read_pop s)"
| read_check: "dc_consumer s = V_check x \<Longrightarrow> decoding L C s (snd (read_check x s))"
| observe: "decoding L C s (SetOnError_dec b s)"
| request: "decoding L C s (request_stop s)"
| stop_packets: "dc_stopping s \<Longrightarrow> decoding L C s (stop_packets s)"
| stop_frames: "dc_stopping s \<Longrightarrow> decoding L C s (stop_frames s)"
| discard: "dc_stopping s \<Longrightarrow> dc_point s = D_done \<Longrightarrow> decoding L C s (stop_discard s)"

definition decoder_runs :: "av_lib \<Rightarrow> 'c codec_lib \<Rightarrow> 'c decoder \<Rightarrow> bool" where
  "decoder_runs L C t \<longleftrightarrow>
     (\<exists>st cfg device s. AvDecoder_new C True st cfg device = Inr s \<and> (decoding L C)\<^sup>*\<^sup>* s t)"

section \<open>What the histories say\<close>

fun given_by :: "'c codec_call \<Rightarrow> dec_input list" where
  "given_by (C_send (Some k)) = [In_packet k]"
| "given_by (C_send None) = [In_eof]"
| "given_by C_flush = [In_reset]"
| "given_by (C_answer _ _) = []"

definition inputs_of :: "'c codec_call list \<Rightarrow> dec_input list" where
  "inputs_of cs = concat (map given_by cs)"

text \<open>The results an answer sequence stands for, with the end pts of the last frame.\<close>

definition answer_step :: "av_lib \<Rightarrow> 'c codec_lib \<Rightarrow> decoder_stream \<Rightarrow> bool \<Rightarrow> int \<times> read_result list \<Rightarrow>
    'c codec_call \<Rightarrow> int \<times> read_result list" where
  "answer_step L C st hw r call =
     (case call of
        C_answer (A_frame f) c \<Rightarrow>
          if hw \<and> \<not> cl_cuda_frame C f then r
          else (FrameEndPts L C st c (stamped st f), snd r @ [frame_result st (stamped st f)])
      | C_answer A_eof c \<Rightarrow> (fst r, snd r @ [eof_result st (fst r)])
      | C_flush \<Rightarrow> (AV_NOPTS_VALUE, snd r)
      | _ \<Rightarrow> r)"

definition outputs_of :: "av_lib \<Rightarrow> 'c codec_lib \<Rightarrow> decoder_stream \<Rightarrow> bool \<Rightarrow> 'c codec_call list \<Rightarrow>
    int \<times> read_result list" where
  "outputs_of L C st hw cs = foldl (answer_step L C st hw) (AV_NOPTS_VALUE, []) cs"

text \<open>
  The order of calls FFmpeg documents for send and receive. \<open>Off\<close> is entered when the codec answers end
  of stream without having been sent it, or asks for input while draining: what is called then is not
  judged.
\<close>

datatype codec_phase = Ready | Busy | Draining | Drained | Broken | Off | Violated

fun phase_step :: "codec_phase \<Rightarrow> 'c codec_call \<Rightarrow> codec_phase" where
  "phase_step Off _ = Off"
| "phase_step Violated _ = Violated"
| "phase_step _ C_flush = Ready"
| "phase_step Ready (C_send (Some k)) = Busy"
| "phase_step Ready (C_send None) = Draining"
| "phase_step Busy (C_answer (A_frame f) c) = Busy"
| "phase_step Busy (C_answer A_again c) = Ready"
| "phase_step Busy (C_answer A_eof c) = Off"
| "phase_step Draining (C_answer (A_frame f) c) = Draining"
| "phase_step Draining (C_answer A_eof c) = Drained"
| "phase_step Draining (C_answer A_again c) = Off"
| "phase_step Busy (C_answer A_failed c) = Broken"
| "phase_step Draining (C_answer A_failed c) = Broken"
| "phase_step _ _ = Violated"

definition phase_of :: "'c codec_call list \<Rightarrow> codec_phase" where
  "phase_of cs = foldl phase_step Ready cs"

end
