(* ===== verification/Decoder_Props.thy ===== *)
theory Decoder_Props
  imports Decoder
begin

text \<open>The invariants of \<open>decoding\<close>, one group per claim, and the properties of the decoder.\<close>

section \<open>Pure facts about the histories\<close>

lemma inputs_of_simps [simp]:
  "inputs_of [] = []" "inputs_of (cs @ ds) = inputs_of cs @ inputs_of ds"
  "inputs_of [c] = given_by c"
  by (simp_all add: inputs_of_def)

lemma given_by_send [simp]: "given_by (C_send k) = (case k of None \<Rightarrow> [In_eof] | Some p \<Rightarrow> [In_packet p])"
  by (cases k) simp_all

lemma outputs_of_simps [simp]:
  "outputs_of L C st hw [] = (AV_NOPTS_VALUE, [])"
  "outputs_of L C st hw (cs @ [c]) = answer_step L C st hw (outputs_of L C st hw cs) c"
  by (simp_all add: outputs_of_def)

lemma phase_of_simps [simp]:
  "phase_of [] = Ready" "phase_of (cs @ [c]) = phase_step (phase_of cs) c"
  by (simp_all add: phase_of_def)

lemma phase_send [simp]: "phase_step Ready (C_send k) = (case k of None \<Rightarrow> Draining | Some p \<Rightarrow> Busy)"
  by (cases k) simp_all

lemma draining_after_eof:
  "phase_of cs \<in> {Draining, Drained} \<Longrightarrow> inputs_of cs \<noteq> [] \<and> last (inputs_of cs) = In_eof"
proof (induction cs rule: rev_induct)
  case (snoc c cs)
  then show ?case
    by (cases "phase_of cs"; cases "(phase_of cs, c)" rule: phase_step.cases) auto
qed simp

section \<open>The shape of the operations\<close>

definition ordered :: "dec_input list \<Rightarrow> bool" where
  "ordered = successively (\<lambda>a b. a = In_eof \<longrightarrow> b = In_reset)"

lemma ordered_Nil [simp]: "ordered []"
  by (simp add: ordered_def)

lemma ordered_snoc:
  "ordered (xs @ [i]) \<longleftrightarrow> ordered xs \<and> (xs \<noteq> [] \<and> last xs = In_eof \<longrightarrow> i = In_reset)"
  by (auto simp: ordered_def successively_append_iff)

lemma ordered_at: "ordered (xs @ i # ys) \<Longrightarrow> xs \<noteq> [] \<Longrightarrow> last xs = In_eof \<Longrightarrow> i = In_reset"
  by (auto simp: ordered_def successively_append_iff)

lemma Push_dec_effect:
  assumes "Push_dec wait i s = (r, t)"
  shows "t = s \<or>
    \<not> dc_stopping s \<and> dc_error s = None \<and> (dc_submitted_eof s \<longrightarrow> i = In_reset) \<and>
      (t = s\<lparr>dc_producer := U_push i\<rparr> \<or>
       Size (dc_packets s) < dn_packet_capacity (dc_config s) \<and>
         (t = push_queue i s \<or> dc_producer (push_queue i s) = U_mark i \<and> t = push_mark i (push_queue i s)))"
  using assms
  by (auto simp: Push_dec_def act_defs split: if_splits prod.splits)

lemma accept_effect:
  assumes "m = PushPacket_dec wait p \<or> m = PushEof_dec wait \<or> m = Reset_dec wait" "m s = (r, t)"
  shows "t = s \<or> (\<exists>i. \<not> dc_stopping s \<and> dc_error s = None \<and> (dc_submitted_eof s \<longrightarrow> i = In_reset) \<and>
      (t = s\<lparr>dc_producer := U_push i\<rparr> \<or>
       Size (dc_packets s) < dn_packet_capacity (dc_config s) \<and>
         (t = push_queue i s \<or> dc_producer (push_queue i s) = U_mark i \<and> t = push_mark i (push_queue i s))))"
proof -
  consider "t = s" | i where "Push_dec wait i s = (r, t)"
    using assms
    by (auto simp: PushPacket_dec_def PushEof_dec_def Reset_dec_def act_defs split: sum.splits)
  then show ?thesis
  proof cases
    case 2
    from Push_dec_effect [OF this] show ?thesis by blast
  qed simp
qed

text \<open>Every step is one of these, with the non-waiting push taken apart.\<close>

inductive dec_step :: "av_lib \<Rightarrow> 'c codec_lib \<Rightarrow> 'c decoder \<Rightarrow> 'c decoder \<Rightarrow> bool"
  for L :: av_lib and C :: "'c codec_lib" where
  worker: "worker_ready s \<Longrightarrow> dec_step L C s (worker_dec L C s)"
| enter: "dc_producer s = U_idle \<Longrightarrow> \<not> dc_stopping s \<Longrightarrow> dc_error s = None \<Longrightarrow>
    (dc_submitted_eof s \<longrightarrow> i = In_reset) \<Longrightarrow> dec_step L C s (s\<lparr>dc_producer := U_push i\<rparr>)"
| queue: "dc_producer s = U_push i \<Longrightarrow>
    push_ready (dc_packets s) \<or> Size (dc_packets s) < dn_packet_capacity (dc_config s) \<Longrightarrow>
    dec_step L C s (push_queue i s)"
| mark: "dc_producer s = U_mark i \<Longrightarrow> dec_step L C s (push_mark i s)"
| read_begin: "dc_consumer s = V_idle \<Longrightarrow> dec_step L C s (read_begin wait s)"
| read_pop: "dc_consumer s = V_pop wait \<Longrightarrow> dec_step L C s (read_pop s)"
| read_check: "dc_consumer s = V_check x \<Longrightarrow> dec_step L C s (snd (read_check x s))"
| observe: "dec_step L C s (SetOnError_dec b s)"
| request: "dec_step L C s (request_stop s)"
| close_packets: "dc_stopping s \<Longrightarrow> dec_step L C s (stop_packets s)"
| close_frames: "dc_stopping s \<Longrightarrow> dec_step L C s (stop_frames s)"
| discard: "dc_stopping s \<Longrightarrow> dc_point s = D_done \<Longrightarrow> dec_step L C s (stop_discard s)"

lemma push_queue_entered [simp]: "push_queue i (s\<lparr>dc_producer := x\<rparr>) = push_queue i s"
  by (simp add: push_queue_def split: prod.split)

lemma decoding_steps:
  assumes "decoding L C s t"
  shows "(dec_step L C)\<^sup>*\<^sup>* s t"
  using assms
proof cases
  case (push m wait p r)
  from accept_effect [OF push(2,3)] show ?thesis
  proof (elim disjE exE conjE)
    fix i assume a: "\<not> dc_stopping s" "dc_error s = None" "dc_submitted_eof s \<longrightarrow> i = In_reset"
    let ?u = "s\<lparr>dc_producer := U_push i\<rparr>"
    from push(1) a have e: "dec_step L C s ?u" by (rule dec_step.enter)
    {
      assume "t = ?u"
      with e show ?thesis by blast
    }
    assume full: "Size (dc_packets s) < dn_packet_capacity (dc_config s)"
    have "dec_step L C ?u (push_queue i ?u)"
      by (rule dec_step.queue) (simp_all add: full)
    with e have q: "(dec_step L C)\<^sup>*\<^sup>* s (push_queue i s)" by (simp add: converse_rtranclp_into_rtranclp)
    {
      assume "t = push_queue i s"
      with q show ?thesis by simp
    }
    assume "dc_producer (push_queue i s) = U_mark i" "t = push_mark i (push_queue i s)"
    with q show ?thesis by (metis dec_step.mark rtranclp.simps)
  qed simp
qed (auto intro: dec_step.intros)

lemma decoding_star: "(decoding L C)\<^sup>*\<^sup>* s t \<Longrightarrow> (dec_step L C)\<^sup>*\<^sup>* s t"
  by (induction rule: rtranclp_induct) (auto dest: decoding_steps)

text \<open>A property of the states that all steps keep holds in every run that starts with it.\<close>

lemma run_keeps:
  assumes step: "\<And>s t. dec_step L C s t \<Longrightarrow> P s \<Longrightarrow> P t" and run: "(decoding L C)\<^sup>*\<^sup>* s t" and P: "P s"
  shows "P t"
  using decoding_star [OF run] P by (induction rule: rtranclp_induct) (auto dest: step)

section \<open>Invariants\<close>

definition ends_in_eof :: "dec_input list \<Rightarrow> bool" where
  "ends_in_eof xs = (xs \<noteq> [] \<and> last xs = In_eof)"

fun accounted :: "dec_producer \<Rightarrow> bool \<Rightarrow> dec_input list \<Rightarrow> bool" where
  "accounted U_idle eof xs = (eof = ends_in_eof xs)"
| "accounted (U_push i) eof xs = (eof = ends_in_eof xs \<and> (eof \<longrightarrow> i = In_reset))"
| "accounted (U_mark i) eof xs = (xs \<noteq> [] \<and> last xs = i)"

definition admission :: "'c decoder \<Rightarrow> bool" where
  "admission s \<longleftrightarrow> ordered (dh_in s) \<and> accounted (dc_producer s) (dc_submitted_eof s) (dh_in s)"

definition sizes :: "'c decoder \<Rightarrow> bool" where
  "sizes s \<longleftrightarrow> capacity (dc_packets s) = dn_packet_capacity (dc_config s) \<and>
     length (items (dc_packets s)) \<le> dn_packet_capacity (dc_config s) \<and>
     capacity (dc_frames s) = dn_frame_capacity (dc_config s) \<and>
     length (items (dc_frames s)) \<le> dn_frame_capacity (dc_config s)"

fun dec_failing :: "dec_point \<Rightarrow> bool" where
  "dec_failing D_close_packets = True"
| "dec_failing D_close_frames = True"
| "dec_failing D_discard = True"
| "dec_failing D_notify = True"
| "dec_failing _ = False"

fun live :: "dec_point \<Rightarrow> bool" where
  "live D_discard = False"
| "live D_notify = False"
| "live D_done = False"
| "live _ = True"

fun dec_hand :: "dec_point \<Rightarrow> dec_input list" where
  "dec_hand (D_input i) = [i]"
| "dec_hand (D_send k) = (case k of None \<Rightarrow> [In_eof] | Some p \<Rightarrow> [In_packet p])"
| "dec_hand _ = []"

fun out_hand :: "dec_point \<Rightarrow> read_result list" where
  "out_hand (D_emit x _) = [x]"
| "out_hand _ = []"

fun read_hand :: "dec_consumer \<Rightarrow> read_result list" where
  "read_hand (V_check x) = (if rr_status x = KNull then [] else [x])"
| "read_hand _ = []"

definition flow_in :: "'c decoder \<Rightarrow> bool" where
  "flow_in s \<longleftrightarrow>
     (if live (dc_point s) then dh_in s = inputs_of (dh_calls s) @ dec_hand (dc_point s) @ items (dc_packets s)
      else prefix (inputs_of (dh_calls s)) (dh_in s))"

definition flow_out :: "av_lib \<Rightarrow> 'c codec_lib \<Rightarrow> 'c decoder \<Rightarrow> bool" where
  "flow_out L C s \<longleftrightarrow>
     (let r = outputs_of L C (dc_stream s) (dc_hw s) (dh_calls s) in
      prefix (dh_out s) (snd r) \<and>
      (dc_point s \<noteq> D_done \<or> dc_error s \<noteq> None \<longrightarrow>
         fst r = dc_next_pts s \<and> snd r = dh_out s @ out_hand (dc_point s)))"

definition flow_read :: "'c decoder \<Rightarrow> bool" where
  "flow_read s \<longleftrightarrow> prefix (dh_read s) (dh_out s) \<and>
     (\<not> dc_stopping s \<longrightarrow> dh_out s = dh_read s @ read_hand (dc_consumer s) @ items (dc_frames s)) \<and>
     (\<forall>x \<in> set (dh_out s @ out_hand (dc_point s)). rr_status x \<noteq> KNull)"

fun fits :: "dec_point \<Rightarrow> bool \<Rightarrow> bool \<Rightarrow> codec_phase \<Rightarrow> bool" where
  "fits D_top st dr p = ((dr \<longrightarrow> st) \<and>
     (p = Off \<or> (if \<not> st then p = Ready else if dr then p = Drained else p = Busy \<or> p = Draining)))"
| "fits D_receive st dr p = (st \<and> \<not> dr \<and> (p = Busy \<or> p = Draining \<or> p = Off))"
| "fits (D_emit x eof) st dr p = (st \<and> \<not> dr \<and>
     (p = Off \<or> (if eof then p = Drained else p = Busy \<or> p = Draining)))"
| "fits D_pop st dr p = ((dr \<longrightarrow> st) \<and> (p = Off \<or> p = Drained \<or> p = Ready \<and> \<not> dr))"
| "fits (D_input i) st dr p = ((dr \<longrightarrow> st) \<and> (p = Off \<or> p = Drained \<and> i = In_reset \<or> p = Ready \<and> \<not> dr))"
| "fits (D_send k) st dr p = ((dr \<longrightarrow> st) \<and> (p = Off \<or> p = Ready \<and> \<not> dr))"
| "fits _ st dr p = (p \<noteq> Violated)"

definition judged :: "'c decoder \<Rightarrow> bool" where
  "judged s \<longleftrightarrow> fits (dc_point s) (dc_started s) (dc_drained s) (phase_of (dh_calls s))"

definition error_at :: "'c decoder \<Rightarrow> bool" where
  "error_at s \<longleftrightarrow> (dec_failing (dc_point s) \<longrightarrow> dc_error s \<noteq> None) \<and>
     (dc_error s \<noteq> None \<longrightarrow> dec_failing (dc_point s) \<or> dc_point s = D_done)"

definition over :: "'c decoder \<Rightarrow> bool" where
  "over s \<longleftrightarrow> dc_stopping s \<or> dc_error s \<noteq> None"

definition reasons :: "'c decoder \<Rightarrow> bool" where
  "reasons s \<longleftrightarrow>
     (dc_point s = D_done \<or> bq.closed (dc_packets s) \<or> bq.closed (dc_frames s) \<longrightarrow> over s)"

definition shut :: "'c decoder \<Rightarrow> bool" where
  "shut s \<longleftrightarrow> dc_error s \<noteq> None \<longrightarrow>
     (dc_point s \<noteq> D_close_packets \<longrightarrow> bq.closed (dc_packets s)) \<and>
     (\<not> live (dc_point s) \<longrightarrow> bq.closed (dc_frames s)) \<and>
     (dc_point s = D_notify \<or> dc_point s = D_done \<longrightarrow> items (dc_packets s) = [])"

definition reported :: "'c decoder \<Rightarrow> bool" where
  "reported s \<longleftrightarrow> dh_reports s = (if dc_point s = D_done \<and> dc_report s then 1 else 0) \<and>
     (dc_report s \<longrightarrow> dc_error s \<noteq> None)"

lemmas dec_op_defs = push_queue_def push_mark_def read_begin_def read_pop_def read_check_def SetOnError_dec_def
  request_stop_def stop_packets_def stop_frames_def stop_discard_def body_defs accepted_by_def Let_def

lemmas worker_defs = worker_dec_def receive_step_def emit_step_def pop_step_def input_step_def send_step_def
  worker_ready_def body_defs Let_def

lemmas worker_splits = dec_point.splits answer.splits sum.splits list.splits dec_input.splits option.splits
  prod.splits if_splits

lemma admission_step: "dec_step L C s t \<Longrightarrow> admission s \<Longrightarrow> admission t"
proof (induction rule: dec_step.induct)
  case (worker s)
  then show ?case
    by (auto simp: worker_defs admission_def split: worker_splits)
qed (auto simp: dec_op_defs admission_def ends_in_eof_def ordered_snoc split: list.splits)

lemma sizes_step: "dec_step L C s t \<Longrightarrow> sizes s \<Longrightarrow> sizes t"
proof (induction rule: dec_step.induct)
  case (worker s)
  then show ?case
    by (auto simp: worker_defs sizes_def push_ready_def split: worker_splits)
qed (auto simp: dec_op_defs sizes_def push_ready_def Size_def split: list.splits if_splits)

lemma flow_in_step: "dec_step L C s t \<Longrightarrow> flow_in s \<Longrightarrow> flow_in t"
proof (induction rule: dec_step.induct)
  case (worker s)
  then show ?case
    by (auto simp: worker_defs flow_in_def split: worker_splits)
qed (auto simp: dec_op_defs flow_in_def split: list.splits if_splits)

lemma error_at_step: "dec_step L C s t \<Longrightarrow> error_at s \<Longrightarrow> error_at t"
proof (induction rule: dec_step.induct)
  case (worker s)
  then show ?case
    by (cases "dc_point s") (auto simp: worker_defs error_at_def split: worker_splits)
qed (auto simp: dec_op_defs error_at_def split: list.splits)

lemma reasons_step: "dec_step L C s t \<Longrightarrow> error_at s \<Longrightarrow> reasons s \<Longrightarrow> reasons t"
proof (induction rule: dec_step.induct)
  case (worker s)
  then show ?case
    by (cases "dc_point s") (auto simp: worker_defs error_at_def reasons_def over_def split: worker_splits)
qed (auto simp: dec_op_defs reasons_def over_def split: list.splits)

lemma shut_step: "dec_step L C s t \<Longrightarrow> error_at s \<Longrightarrow> shut s \<Longrightarrow> shut t"
proof (induction rule: dec_step.induct)
  case (worker s)
  then show ?case
    by (cases "dc_point s") (auto simp: worker_defs error_at_def shut_def split: worker_splits)
qed (auto simp: dec_op_defs shut_def split: list.splits)

lemma reported_step: "dec_step L C s t \<Longrightarrow> error_at s \<Longrightarrow> reported s \<Longrightarrow> reported t"
proof (induction rule: dec_step.induct)
  case (worker s)
  then show ?case
    by (cases "dc_point s") (auto simp: worker_defs error_at_def reported_def split: worker_splits)
qed (auto simp: dec_op_defs reported_def split: list.splits)

lemma flow_out_step: "dec_step L C s t \<Longrightarrow> error_at s \<Longrightarrow> flow_out L C s \<Longrightarrow> flow_out L C t"
proof (induction rule: dec_step.induct)
  case (worker s)
  then show ?case
    by (cases "dc_point s") (auto simp: worker_defs error_at_def flow_out_def answer_step_def split: worker_splits)
qed (auto simp: dec_op_defs flow_out_def split: list.splits if_splits)

lemma flow_read_step: "dec_step L C s t \<Longrightarrow> flow_read s \<Longrightarrow> flow_read t"
proof (induction rule: dec_step.induct)
  case (worker s)
  then show ?case
    by (cases "dc_point s") (auto simp: worker_defs flow_read_def frame_result_def eof_result_def split: worker_splits)
next
  case (read_pop s wait)
  then show ?case
    by (cases "items (dc_frames s)") (auto simp: flow_read_def read_pop_def pop_body_def blank_result_def)
next
  case (read_check s x)
  then show ?case
    by (cases "dc_stopping s"; cases "rr_status x = KNull") (auto simp: flow_read_def read_check_def blank_result_def Let_def)
next
  case (queue s i)
  then show ?case by (simp add: flow_read_def push_queue_def push_body_def)
qed (simp_all add: flow_read_def push_mark_def read_begin_def SetOnError_dec_def request_stop_def stop_packets_def
    stop_frames_def stop_discard_def close_body_def)

lemma judged_step: "dec_step L C s t \<Longrightarrow> admission s \<Longrightarrow> flow_in s \<Longrightarrow> judged s \<Longrightarrow> judged t"
proof (induction rule: dec_step.induct)
  case (worker s)
  show ?case
  proof (cases "dc_point s = D_pop")
    case True
    have reset: "i = In_reset" if "phase_of (dh_calls s) = Drained" "items (dc_packets s) = i # is" for i "is"
      using draining_after_eof [of "dh_calls s"] ordered_at [of "inputs_of (dh_calls s)" i "is"] that True worker.prems(1,2)
      by (auto simp: admission_def flow_in_def)
    from True worker show ?thesis
      by (auto simp: worker_defs judged_def dest: reset split: list.splits)
  next
    case False
    with worker show ?thesis
      by (cases "dc_point s") (auto simp: worker_defs judged_def split: worker_splits)
  qed
qed (simp_all add: judged_def push_queue_def push_mark_def read_begin_def read_pop_def read_check_def SetOnError_dec_def
    request_stop_def stop_packets_def stop_frames_def stop_discard_def close_body_def Let_def split: prod.split)

text \<open>All of them together, and what a run starts with.\<close>

definition dec_inv :: "av_lib \<Rightarrow> 'c codec_lib \<Rightarrow> 'c decoder \<Rightarrow> bool" where
  "dec_inv L C s \<longleftrightarrow> admission s \<and> sizes s \<and> flow_in s \<and> flow_out L C s \<and> flow_read s \<and> judged s \<and>
     error_at s \<and> reasons s \<and> shut s \<and> reported s"

lemma dec_inv_step: "dec_step L C s t \<Longrightarrow> dec_inv L C s \<Longrightarrow> dec_inv L C t"
  by (simp add: dec_inv_def admission_step sizes_step flow_in_step flow_out_step flow_read_step judged_step
      error_at_step reasons_step shut_step reported_step)

lemma guarded_Inr: "(if b then Inl e else r) = Inr x \<longleftrightarrow> \<not> b \<and> r = Inr x"
  by simp

lemma AvDecoder_new_members:
  assumes "AvDecoder_new C created st cfg device = Inr s"
  obtains ctx hw packets frames where
    "s = AvDecoder_members st cfg ctx hw packets frames"
    "bq_new (dn_packet_capacity cfg) = Inr packets" "bq_new (dn_frame_capacity cfg) = Inr frames"
  using assms unfolding AvDecoder_new_def Let_def by (simp only: chain_Inr guarded_Inr) auto

lemma dec_inv_start: "AvDecoder_new C created st cfg device = Inr s \<Longrightarrow> dec_inv L C s"
  by (erule AvDecoder_new_members)
    (auto simp: AvDecoder_members_def dec_inv_def admission_def sizes_def flow_in_def flow_out_def flow_read_def
      judged_def error_at_def reasons_def shut_def reported_def ends_in_eof_def bq_new_def over_def split: if_splits)

lemma decoder_runs_inv: "decoder_runs L C t \<Longrightarrow> dec_inv L C t"
  unfolding decoder_runs_def by (auto intro: run_keeps [of L C "dec_inv L C"] dec_inv_step dec_inv_start)

lemma fits_phase: "fits x st dr p \<Longrightarrow> p \<noteq> Violated"
  by (cases x) (auto split: if_splits)

section \<open>Stopping\<close>

text \<open>What the worker has left once both queues are closed: at most the packets it throws away after a failure.\<close>

fun left :: "dec_point \<Rightarrow> nat \<Rightarrow> nat" where
  "left D_done n = 0"
| "left D_notify n = 1"
| "left D_discard n = n + 2"
| "left D_close_frames n = n + 3"
| "left D_close_packets n = n + 4"
| "left (D_failed _) n = n + 5"
| "left (D_send _) n = n + 6"
| "left D_receive n = n + 6"
| "left D_pop n = 2"
| "left _ n = 1"

definition halted :: "'c decoder \<Rightarrow> bool" where
  "halted s \<longleftrightarrow> dc_stopping s \<and> bq.closed (dc_packets s) \<and> bq.closed (dc_frames s)"

definition worker_left :: "'c decoder \<Rightarrow> nat" where
  "worker_left s = left (dc_point s) (length (items (dc_packets s)))"

lemma left_le: "m \<le> n \<Longrightarrow> left p m \<le> left p n"
  by (cases p) simp_all

lemma left_bound: "left p n \<le> n + 6"
  by (cases p) simp_all

lemma halted_worker:
  assumes "halted s" "dc_point s \<noteq> D_done"
  shows "worker_ready s" "halted (worker_dec L C s)" "worker_left (worker_dec L C s) < worker_left s"
proof -
  show "worker_ready s"
    using assms by (cases "dc_point s") (auto simp: halted_def worker_ready_def push_ready_def pop_ready_def)
  show "halted (worker_dec L C s)"
    using assms by (cases "dc_point s") (auto simp: halted_def worker_defs split: worker_splits)
  show "worker_left (worker_dec L C s) < worker_left s"
    using assms by (cases "dc_point s") (auto simp: halted_def worker_left_def worker_defs split: worker_splits)
qed

lemma halted_step: "dec_step L C s t \<Longrightarrow> halted s \<Longrightarrow> halted t \<and> worker_left t \<le> worker_left s"
proof (induction rule: dec_step.induct)
  case (worker s)
  then have "dc_point s \<noteq> D_done" by (auto simp: worker_ready_def)
  with worker halted_worker(2,3) [of s L C] show ?case by simp
next
  case (discard s)
  then show ?case by (simp add: halted_def worker_left_def stop_discard_def)
next
  case (queue s i)
  then show ?case by (simp add: halted_def worker_left_def push_queue_def push_body_def)
qed (simp_all add: halted_def worker_left_def push_mark_def read_begin_def read_pop_def read_check_def pop_body_def
    SetOnError_dec_def request_stop_def stop_packets_def stop_frames_def close_body_def Let_def
    split: list.split)

lemma worker_finishes: "halted s \<Longrightarrow> worker_left s \<le> n \<Longrightarrow> dc_point ((worker_dec L C ^^ n) s) = D_done"
proof (induction n arbitrary: s)
  case 0
  then show ?case by (cases "dc_point s") (simp_all add: worker_left_def)
next
  case (Suc n)
  show ?case
  proof (cases "dc_point s = D_done")
    case True
    then have "worker_dec L C s = s" by (simp add: worker_dec_def)
    then have "(worker_dec L C ^^ k) s = s" for k by (induction k) simp_all
    from this [of "Suc n"] True show ?thesis by simp
  next
    case False
    with Suc show ?thesis
      using halted_worker(2,3) [OF Suc.prems(1) False, of L C] by (simp add: funpow_swap1)
  qed
qed

lemma halted_run: "(decoding L C)\<^sup>*\<^sup>* s t \<Longrightarrow> halted s \<Longrightarrow> halted t \<and> worker_left t \<le> worker_left s"
  by (rule run_keeps [of L C "\<lambda>t. halted t \<and> worker_left t \<le> worker_left s"])
    (use halted_step in fastforce)+

section \<open>Properties\<close>

lemma worker_ready_or: "\<not> worker_ready s \<Longrightarrow> dc_point s = D_done \<or>
    (\<exists>x eof. dc_point s = D_emit x eof \<and> \<not> push_ready (dc_frames s)) \<or>
    dc_point s = D_pop \<and> \<not> pop_ready (dc_packets s)"
  by (cases "dc_point s") (simp_all add: worker_ready_def)

lemma dec_running:
  assumes inv: "dec_inv L C t" and on: "\<not> over t"
  shows "live (dc_point t)" "dc_point t \<noteq> D_done" "\<not> bq.closed (dc_packets t)" "\<not> bq.closed (dc_frames t)"
    "dh_in t = inputs_of (dh_calls t) @ dec_hand (dc_point t) @ items (dc_packets t)"
    "snd (outputs_of L C (dc_stream t) (dc_hw t) (dh_calls t)) =
       dh_read t @ read_hand (dc_consumer t) @ items (dc_frames t) @ out_hand (dc_point t)"
proof -
  from on inv show run: "live (dc_point t)" "dc_point t \<noteq> D_done" "\<not> bq.closed (dc_packets t)" "\<not> bq.closed (dc_frames t)"
    by (cases "dc_point t"; auto simp: dec_inv_def reasons_def error_at_def over_def)+
  with on inv show "dh_in t = inputs_of (dh_calls t) @ dec_hand (dc_point t) @ items (dc_packets t)"
    "snd (outputs_of L C (dc_stream t) (dc_hw t) (dh_calls t)) =
       dh_read t @ read_hand (dc_consumer t) @ items (dc_frames t) @ out_hand (dc_point t)"
    by (simp_all add: dec_inv_def flow_in_def flow_out_def flow_read_def over_def Let_def)
qed

lemma dec_settled:
  assumes inv: "dec_inv L C t" and on: "\<not> over t"
    and "\<not> worker_ready t" "Size (dc_frames t) < dn_frame_capacity (dc_config t)"
  shows "inputs_of (dh_calls t) = dh_in t" "dh_out t = snd (outputs_of L C (dc_stream t) (dc_hw t) (dh_calls t))"
proof -
  note run = dec_running [OF inv on]
  from assms(3,4) run(1-4) inv have "dc_point t = D_pop" "items (dc_packets t) = []"
    by (auto dest!: worker_ready_or simp: push_ready_def pop_ready_def dec_inv_def sizes_def Size_def)
  with run inv show "inputs_of (dh_calls t) = dh_in t" "dh_out t = snd (outputs_of L C (dc_stream t) (dc_hw t) (dh_calls t))"
    by (simp_all add: dec_inv_def flow_out_def Let_def)
qed

text \<open>
  C14: A decoder never calls the codec out of order: it sends only when the codec asked for input, was just
  flushed or opened, keeps receiving until it is told to stop, and sends nothing after the end of stream
  until it has flushed the codec; the one exception \<open>Off\<close> needs a codec that ends or starves by itself.
\<close>
theorem decoder_protocol: "decoder_runs L C t \<Longrightarrow> phase_of (dh_calls t) \<noteq> Violated"
  using fits_phase by (fastforce dest: decoder_runs_inv simp: dec_inv_def judged_def)

text \<open>
  C13: Nothing is lost, repeated or reordered on the way through a decoder. The codec is given a prefix of
  the accepted inputs, with nothing after an end of stream but a reset; the consumer reads a prefix of the
  results the codec's answers stand for; neither queue exceeds its capacity. While nobody stopped it and it
  did not fail, the rest is in the worker's hands or in the queues, and a worker that waits although the
  frame queue has room has passed on every accepted input and every result.
\<close>
theorem decoder_delivers:
  assumes "decoder_runs L C t"
  shows "let results = snd (outputs_of L C (dc_stream t) (dc_hw t) (dh_calls t)) in
    prefix (inputs_of (dh_calls t)) (dh_in t) \<and> ordered (dh_in t) \<and>
    prefix (dh_read t) (dh_out t) \<and> prefix (dh_out t) results \<and>
    Size (dc_packets t) \<le> dn_packet_capacity (dc_config t) \<and> Size (dc_frames t) \<le> dn_frame_capacity (dc_config t) \<and>
    (\<not> over t \<longrightarrow>
       dh_in t = inputs_of (dh_calls t) @ dec_hand (dc_point t) @ items (dc_packets t) \<and>
       results = dh_read t @ read_hand (dc_consumer t) @ items (dc_frames t) @ out_hand (dc_point t)) \<and>
    (\<not> over t \<and> \<not> worker_ready t \<and> Size (dc_frames t) < dn_frame_capacity (dc_config t) \<longrightarrow>
       inputs_of (dh_calls t) = dh_in t \<and> dh_out t = results)"
proof -
  note inv = decoder_runs_inv [OF assms]
  show ?thesis
    unfolding Let_def
  proof (intro conjI impI; (elim conjE)?)
    assume on: "\<not> over t"
    from dec_running [OF inv on]
    show "dh_in t = inputs_of (dh_calls t) @ dec_hand (dc_point t) @ items (dc_packets t)"
      "snd (outputs_of L C (dc_stream t) (dc_hw t) (dh_calls t)) =
         dh_read t @ read_hand (dc_consumer t) @ items (dc_frames t) @ out_hand (dc_point t)" by simp_all
    assume "\<not> worker_ready t" "Size (dc_frames t) < dn_frame_capacity (dc_config t)"
    from dec_settled [OF inv on this]
    show "inputs_of (dh_calls t) = dh_in t" "dh_out t = snd (outputs_of L C (dc_stream t) (dc_hw t) (dh_calls t))"
      by simp_all
  qed (use inv in \<open>auto simp: dec_inv_def flow_in_def admission_def flow_read_def flow_out_def sizes_def Size_def Let_def
        split: if_splits\<close>)
qed



section \<open>A sample session\<close>

text \<open>The codec keeps the answers it owes; it refuses an empty-handed packet whose first byte is 0.\<close>

definition demo_frame :: "int \<Rightarrow> av_frame" where
  "demo_frame pts = \<lparr>fr_pts = AV_NOPTS_VALUE, fr_best_effort = pts, fr_pkt_dts = pts, fr_time_base = avq 0 1,
     fr_duration = 40, fr_width = 640, fr_height = 360, fr_format = 0, fr_nb_samples = 0, fr_sample_rate = 0,
     fr_layout = 0, fr_has_data = True, fr_captions = False, fr_full_range = False, fr_buffers = 1\<rparr>"

definition demo_codec :: "answer list codec_lib" where
  "demo_codec = \<lparr>cl_by_name = (\<lambda>_. None),
     cl_by_id = (\<lambda>i. Some \<lparr>co_name = ''h264'', co_id = i, co_type = Media_video, co_hardware = False, co_configs = []\<rparr>),
     cl_context = (\<lambda>_ _. Inr []), cl_set_threads = (\<lambda>_ c. c), cl_set_rate = (\<lambda>_ c. c), cl_set_aspect = (\<lambda>_ c. c),
     cl_pix_fmt = (\<lambda>_. YUV420P), cl_set_pix_fmt = (\<lambda>_ c. c), cl_set_device = (\<lambda>c. c), cl_open = (\<lambda>c. Inr c),
     cl_send = (\<lambda>k c. case k of None \<Rightarrow> (Inr (), c @ [A_eof])
       | Some p \<Rightarrow> if hd (pk_bytes p) = 0 then (Inl Ffmpeg_error, c) else (Inr (), c @ [A_frame (demo_frame (pk_pts p)), A_again])),
     cl_receive = (\<lambda>c. case c of [] \<Rightarrow> (A_again, []) | a # c \<Rightarrow> (a, c)), cl_flush = (\<lambda>_. []),
     cl_rate = (\<lambda>_. avq 25 1), cl_sample_rate = (\<lambda>_. 0), cl_cuda_frame = (\<lambda>_. False)\<rparr>"

definition demo_stream :: decoder_stream where
  "demo_stream = \<lparr>si_index = 0, si_parameters = True, si_time_base = avq 1 1000, si_codec_known = True,
     si_type = Media_video, si_extradata_size = 0, si_extradata = False, cs_codec = AV_CODEC_ID_H264,
     cs_extradata = [], cs_sample_rate = 0, cs_channels = 0, ds_frame_rate = avq 25 1, ds_aspect = avq 1 1,
     ds_alpha_mode = None\<rparr>"

definition demo_config :: decoder_config where
  "demo_config = \<lparr>dn_name = [], dn_packet_capacity = 2, dn_frame_capacity = 1, dn_thread_count = 0\<rparr>"

definition demo_packet :: "8 word \<Rightarrow> int \<Rightarrow> av_packet" where
  "demo_packet b t = \<lparr>pk_pts = t, pk_dts = t, pk_time_base = avq 1 1000, pk_stream = 0, pk_bytes = [b], pk_side = []\<rparr>"

definition demo_new :: "answer list decoder" where
  "demo_new = AvDecoder_members demo_stream demo_config [] False
     \<lparr>capacity = 2, items = [], read_signal = None, write_signal = None, closed = False\<rparr>
     \<lparr>capacity = 1, items = [], read_signal = None, write_signal = None, closed = False\<rparr>"

lemma demo_created: "AvDecoder_new demo_codec True demo_stream demo_config None = Inr demo_new"
  by (simp add: AvDecoder_new_def demo_new_def demo_codec_def demo_stream_def demo_config_def FindDecoder_def
      StreamInfo_Validate_def stream_info.truncate_def coded_stream.truncate_def bq_new_def stream_hints_def Let_def)

fun drive :: "av_lib \<Rightarrow> 'c codec_lib \<Rightarrow> nat \<Rightarrow> 'c decoder \<Rightarrow> 'c decoder option" where
  "drive L C 0 s = Some s"
| "drive L C (Suc n) s = (if worker_ready s then drive L C n (worker_dec L C s) else None)"

lemma drive_run: "drive L C n s = Some t \<Longrightarrow> (decoding L C)\<^sup>*\<^sup>* s t"
  by (induction n arbitrary: s) (auto split: if_splits intro: decoding.worker converse_rtranclp_into_rtranclp)

definition demo_pushed :: "8 word \<Rightarrow> answer list decoder" where
  "demo_pushed b = push_mark (In_packet (demo_packet b 80)) (push_queue (In_packet (demo_packet b 80)) demo_new)"

lemma demo_pushing: "decoding L C demo_new (demo_pushed b)"
  by (rule decoding.push [where m = "PushPacket_dec False (Some (demo_packet b 80))" and wait = False and p = "Some (demo_packet b 80)" and r = "Inr True"])
    (simp_all add: demo_pushed_def PushPacket_dec_def PushPacket_check_def Push_dec_def act_defs demo_new_def
      AvDecoder_members_def demo_packet_def demo_stream_def demo_config_def Size_def push_queue_def push_mark_def
      push_body_def accepted_by_def)

lemmas demo_state = demo_pushed_def push_queue_def push_mark_def push_body_def accepted_by_def demo_new_def
  AvDecoder_members_def demo_stream_def demo_config_def demo_packet_def demo_codec_def demo_frame_def

definition demo_result :: read_result where
  "demo_result = frame_result demo_stream (stamped demo_stream (demo_frame 80))"

lemma demo_decoded:
  "\<exists>t. drive ref_lib demo_codec 9 (demo_pushed 1) = Some t \<and> dc_point t = D_pop \<and> \<not> over t \<and>
     items (dc_packets t) = [] \<and> dh_read t = [] \<and> dc_consumer t = V_idle \<and> items (dc_frames t) = [demo_result] \<and> dh_out t = [demo_result] \<and> dc_next_pts t = 120"
  by (simp add: eval_nat_numeral worker_defs demo_state demo_result_def stamped_def FrameEndPts_def frame_result_def
      over_def)

lemma demo_failed:
  "\<exists>t. drive ref_lib demo_codec 9 (demo_pushed 0) = Some t \<and> dc_point t = D_done \<and> dc_error t = Some Ffmpeg_error"
  by (simp add: eval_nat_numeral worker_defs demo_state)

lemma demo_runs: "drive ref_lib demo_codec n (demo_pushed b) = Some t \<Longrightarrow> decoder_runs ref_lib demo_codec t"
  unfolding decoder_runs_def using demo_created demo_pushing [of ref_lib demo_codec b]
  by (blast intro: drive_run converse_rtranclp_into_rtranclp)

theorem decoder_protocol_witness:
  "\<exists>t. drive ref_lib demo_codec 9 (demo_pushed 1) = Some t \<and> phase_of (dh_calls t) \<noteq> Violated"
  using demo_decoded decoder_protocol demo_runs by metis

theorem decoder_delivers_witness:
  "\<exists>t. drive ref_lib demo_codec 9 (demo_pushed 1) = Some t \<and> inputs_of (dh_calls t) = dh_in t \<and>
     dh_read t @ read_hand (dc_consumer t) @ items (dc_frames t) = [demo_result]"
proof -
  obtain t where t: "drive ref_lib demo_codec 9 (demo_pushed 1) = Some t" "dc_point t = D_pop" "\<not> over t"
      "items (dc_packets t) = []" "items (dc_frames t) = [demo_result]" "dh_read t = []" "dc_consumer t = V_idle"
    using demo_decoded by blast
  with decoder_delivers [OF demo_runs [OF t(1)]] show ?thesis by (simp add: Let_def)
qed


definition demo_halted :: "answer list decoder" where
  "demo_halted = stop_frames (stop_packets (request_stop (demo_pushed 1)))"


end
