(* ===== verification/Stream_Info.thy ===== *)
theory Stream_Info
  imports Decoder
begin

text \<open>
  \<^verbatim>\<open>ffmpeg/stream_info.cc\<close>: the description of a demultiplexed stream. The fields the program reads of
  the codec parameters are those of \<open>stream_info\<close>, \<open>coded_stream\<close> and \<open>decoder_stream\<close> with the ones
  added here; \<open>stream_equal\<close> is \<^verbatim>\<open>operator==\<close>, which compares the media format and not the codec's set-up.
\<close>

record media_stream = decoder_stream +
  me_format :: int
  me_width :: int
  me_height :: int
  me_framerate :: av_rational
  me_layout :: channel_layout
  me_profile :: int
  me_level :: int

definition SameRatio :: "av_lib \<Rightarrow> av_rational \<Rightarrow> av_rational \<Rightarrow> bool" where
  "SameRatio L a b \<longleftrightarrow> num a = 0 \<and> num b = 0 \<or> cmp_q L a b = 0"

definition stream_equal :: "av_lib \<Rightarrow> media_stream \<Rightarrow> media_stream \<Rightarrow> bool" where
  "stream_equal L a b =
     (if si_index a \<noteq> si_index b \<or> \<not> SameRatio L (si_time_base a) (si_time_base b) then False
      else if \<not> si_parameters a \<or> \<not> si_parameters b then si_parameters a = si_parameters b
      else if si_type a \<noteq> si_type b \<or> cs_codec a \<noteq> cs_codec b then False
      else case si_type a of
        Media_video \<Rightarrow> me_format a = me_format b \<and> me_width a = me_width b \<and> me_height a = me_height b \<and>
          SameRatio L (me_framerate a) (me_framerate b)
      | Media_audio \<Rightarrow> me_format a = me_format b \<and> cs_sample_rate a = cs_sample_rate b \<and>
          layout_compare L (me_layout a) (me_layout b) = 0
      | _ \<Rightarrow> True)"

end
