(* ===== verification/Input.thy ===== *)
theory Input
  imports Stream_Info
begin

text \<open>
  \<^verbatim>\<open>input/av_input.cc\<close>: one demultiplexer connection with a reader thread and a bounded packet queue.

  FFmpeg's demultiplexer is \<open>demux_lib\<close> over the type \<open>'d\<close> of opened contexts. The threads are the one
  that controls the connection (\<open>Open\<close>, \<open>Close\<close>), the reader worker (\<open>Run\<close>), one consumer, and any
  number that cancel. Where each stands is \<open>iv_control\<close>, \<open>iv_point\<close> and \<open>iv_reader\<close>; a step runs to the
  next release of the mutex or the next effect on another thread. The clock is an argument of the steps
  that read it.

  Histories: packets of the selected streams, packets returned, whether the demultiplexer has ended, and
  the states given to the observer.
\<close>

section \<open>Descriptions\<close>

record input_info =
  ii_streams :: "media_stream list"
  ii_video :: int
  ii_audio :: int
  ii_start :: int
  ii_duration :: int
  ii_jumps :: bool

definition empty_info :: input_info where
  "empty_info = \<lparr>ii_streams = [], ii_video = - 1, ii_audio = - 1, ii_start = AV_NOPTS_VALUE,
     ii_duration = AV_NOPTS_VALUE, ii_jumps = False\<rparr>"

record format_desc =
  fd_streams :: "media_stream list"
  fd_start :: int
  fd_duration :: int
  fd_jumps :: bool

text \<open>The loop of \<open>MakeInputInfo\<close>.\<close>

fun note_stream :: "input_info \<Rightarrow> media_stream \<Rightarrow> input_info" where
  "note_stream i s =
     (let i = i\<lparr>ii_streams := ii_streams i @ [s]\<rparr> in
      if si_type s = Media_video \<and> ii_video i < 0 then i\<lparr>ii_video := si_index s\<rparr>
      else if si_type s = Media_audio \<and> ii_audio i < 0 then i\<lparr>ii_audio := si_index s\<rparr>
      else i)"

definition MakeInputInfo :: "format_desc \<Rightarrow> input_info" where
  "MakeInputInfo f =
     foldl note_stream (empty_info\<lparr>ii_jumps := fd_jumps f, ii_start := fd_start f, ii_duration := fd_duration f\<rparr>)
       (fd_streams f)"

section \<open>State\<close>

datatype input_state = IS_closed | IS_opening | IS_opened | IS_ended | IS_failed | IS_cancelled

record input_status =
  is_state :: input_state
  is_error :: "exn option"

record input_config =
  ic_capacity :: nat
  ic_open_timeout :: int
  ic_read_timeout :: int
  ic_format :: string

datatype demux_answer = M_packet av_packet | M_eof | M_again | M_error exn

record 'd demux_lib =
  dl_known :: "string \<Rightarrow> bool"
  dl_open :: "string \<Rightarrow> string \<Rightarrow> 'd result"
  dl_probe :: "'d \<Rightarrow> unit result \<times> 'd"
  dl_describe :: "'d \<Rightarrow> format_desc"
  dl_read :: "'d \<Rightarrow> demux_answer \<times> 'd"

datatype input_point =
    I_none
  | I_loop
  | I_read
  | I_check demux_answer
  | I_push av_packet
  | I_drain
  | I_fail exn
  | I_stop
  | I_status input_status
  | I_close input_status
  | I_call input_status
  | I_done

datatype after_publish = Then_connect string | Then_start | Then_throw exn | Then_closed

datatype control_point =
    C_idle
  | C_status input_status after_publish
  | C_close input_status after_publish
  | C_call input_status after_publish
  | C_format string
  | C_connect string
  | C_connected "unit result"
  | C_probe
  | C_probed "unit result"
  | C_describe
  | C_start
  | C_failed exn
  | C_return "exn option"
  | C_cancel
  | C_cancel_queue
  | C_join
  | C_detach
  | C_discard

datatype reader_point = X_idle | X_pop bool | X_check "av_packet option"

datatype read_answer = R_packet av_packet | R_eof | R_null

record 'd input =
  iv_config :: input_config
  iv_cancelled :: bool
  iv_deadline :: int
  iv_status :: input_status
  iv_info :: input_info
  iv_attached :: bool
  iv_queue :: "av_packet bq"
  iv_format :: "'d option"
  iv_thread :: bool
  iv_point :: input_point
  iv_control :: control_point
  iv_reader :: reader_point
  ih_seen :: "av_packet list"
  ih_got :: "av_packet list"
  ih_eof :: bool
  ih_calls :: "input_state list"

definition status_of :: "input_state \<Rightarrow> input_status" where
  "status_of st = \<lparr>is_state = st, is_error = None\<rparr>"

definition AvInput_new :: "input_config \<Rightarrow> 'd input result" where
  "AvInput_new c =
     (if ic_capacity c = 0 \<or> ic_open_timeout c \<le> 0 \<or> ic_read_timeout c \<le> 0 then Inl Invalid_argument
      else Inr \<lparr>iv_config = c, iv_cancelled = False, iv_deadline = 0, iv_status = status_of IS_closed,
        iv_info = empty_info, iv_attached = False,
        iv_queue = \<lparr>capacity = ic_capacity c, items = [], read_signal = None, write_signal = None, closed = False\<rparr>,
        iv_format = None, iv_thread = False, iv_point = I_none, iv_control = C_idle, iv_reader = X_idle,
        ih_seen = [], ih_got = [], ih_eof = False, ih_calls = []\<rparr>)"

section \<open>Time and publication\<close>

definition BeginIo :: "int \<Rightarrow> int \<Rightarrow> 'd input \<Rightarrow> 'd input" where
  "BeginIo now timeout s = s\<lparr>iv_deadline := now + timeout * 1000000\<rparr>"

definition CheckIo_in :: "int \<Rightarrow> unit result \<Rightarrow> 'd input \<Rightarrow> unit result" where
  "CheckIo_in now r s =
     (if iv_cancelled s then Inl Ffmpeg_error
      else if iv_deadline s \<noteq> 0 \<and> iv_deadline s \<le> now then Inl Ffmpeg_error
      else r)"

definition final_state :: "input_state \<Rightarrow> bool" where
  "final_state st \<longleftrightarrow> st = IS_ended \<or> st = IS_failed \<or> st = IS_cancelled"

text \<open>\<open>Publish\<close>: under the mutex, then closing the queue, then the observer.\<close>

definition publish_status :: "input_status \<Rightarrow> 'd input \<Rightarrow> 'd input" where
  "publish_status st s = s\<lparr>iv_status := st\<rparr>"

definition publish_close :: "input_status \<Rightarrow> 'd input \<Rightarrow> 'd input" where
  "publish_close st s =
     (if final_state (is_state st) \<and> iv_attached s then s\<lparr>iv_queue := fst (close_body (iv_queue s))\<rparr> else s)"

definition publish_call :: "input_status \<Rightarrow> 'd input \<Rightarrow> 'd input" where
  "publish_call st s = s\<lparr>ih_calls := ih_calls s @ [is_state st]\<rparr>"

text \<open>What \<open>FinishFailure\<close> and \<open>OpenFailed\<close> publish.\<close>

definition failure_status :: "exn \<Rightarrow> 'd input \<Rightarrow> input_status" where
  "failure_status e s =
     (if iv_cancelled s then status_of IS_cancelled else \<lparr>is_state = IS_failed, is_error = Some e\<rparr>)"

section \<open>The worker\<close>

definition selected :: "input_info \<Rightarrow> av_packet \<Rightarrow> bool" where
  "selected i p \<longleftrightarrow> pk_stream p = ii_video i \<or> pk_stream p = ii_audio i"

definition loop_step :: "int \<Rightarrow> 'd input \<Rightarrow> 'd input" where
  "loop_step now s =
     (if iv_cancelled s then s\<lparr>iv_point := I_stop\<rparr>
      else let s = (if iv_deadline s = 0 then BeginIo now (ic_read_timeout (iv_config s)) s else s)
           in s\<lparr>iv_point := I_read\<rparr>)"

definition demux_step :: "'d demux_lib \<Rightarrow> 'd input \<Rightarrow> 'd input" where
  "demux_step D s =
     (case iv_format s of
        None \<Rightarrow> s\<lparr>iv_point := I_fail Undefined_behaviour\<rparr>
      | Some d \<Rightarrow> (case dl_read D d of (a, d) \<Rightarrow> s\<lparr>iv_format := Some d, iv_point := I_check a\<rparr>))"

definition check_step :: "int \<Rightarrow> demux_answer \<Rightarrow> 'd input \<Rightarrow> 'd input" where
  "check_step now a s =
     (if iv_cancelled s then s\<lparr>iv_point := I_stop\<rparr>
      else case CheckIo_in now (case a of M_error e \<Rightarrow> Inl e | _ \<Rightarrow> Inr ()) s of
        Inl e \<Rightarrow> s\<lparr>iv_point := I_fail e\<rparr>
      | Inr _ \<Rightarrow>
          (case a of
             M_eof \<Rightarrow> s\<lparr>iv_deadline := 0, ih_eof := True, iv_point := I_drain\<rparr>
           | M_packet p \<Rightarrow>
               if selected (iv_info s) p
               then s\<lparr>iv_deadline := 0, ih_seen := ih_seen s @ [p], iv_point := I_push p\<rparr>
               else s\<lparr>iv_deadline := 0, iv_point := I_loop\<rparr>
           | _ \<Rightarrow> s\<lparr>iv_point := I_loop\<rparr>))"

definition put_step :: "av_packet \<Rightarrow> 'd input \<Rightarrow> 'd input" where
  "put_step p s =
     (case push_body True p (iv_queue s) of
        (r, q, _) \<Rightarrow> s\<lparr>iv_queue := q, iv_point := (if r = Inr KSuccess then I_loop else I_stop)\<rparr>)"

definition worker_in :: "'d demux_lib \<Rightarrow> int \<Rightarrow> 'd input \<Rightarrow> 'd input" where
  "worker_in D now s =
     (case iv_point s of
        I_loop \<Rightarrow> loop_step now s
      | I_read \<Rightarrow> demux_step D s
      | I_check a \<Rightarrow> check_step now a s
      | I_push p \<Rightarrow> put_step p s
      | I_drain \<Rightarrow> s\<lparr>iv_point := (if iv_cancelled s then I_stop else I_status (status_of IS_ended))\<rparr>
      | I_fail e \<Rightarrow> s\<lparr>iv_deadline := 0, iv_point := I_status (failure_status e s)\<rparr>
      | I_stop \<Rightarrow> s\<lparr>iv_deadline := 0, iv_point := I_status (status_of IS_cancelled)\<rparr>
      | I_status st \<Rightarrow> (publish_status st s)\<lparr>iv_point := I_close st\<rparr>
      | I_close st \<Rightarrow> (publish_close st s)\<lparr>iv_point := I_call st\<rparr>
      | I_call st \<Rightarrow> (publish_call st s)\<lparr>iv_point := I_done\<rparr>
      | _ \<Rightarrow> s)"

text \<open>Whether the worker can go on: it waits for room in the queue, and for the queue to be drained.\<close>

definition input_ready :: "'d input \<Rightarrow> bool" where
  "input_ready s =
     (case iv_point s of
        I_none \<Rightarrow> False
      | I_done \<Rightarrow> False
      | I_push p \<Rightarrow> push_ready (iv_queue s)
      | I_drain \<Rightarrow> iv_cancelled s \<or> items (iv_queue s) = []
      | _ \<Rightarrow> True)"

section \<open>Open and Close\<close>

definition bad_address :: "string \<Rightarrow> bool" where
  "bad_address url \<longleftrightarrow>
     url = [] \<or> CHR 0x00 \<in> set url \<or>
     list_all (\<lambda>c. c \<in> {CHR '' '', CHR 0x09, CHR 0x0D, CHR 0x0A, CHR 0x0C, CHR 0x0B}) url"

text \<open>\<open>Open\<close> up to its first notification; an exception of the checks leaves the object as it was.\<close>

definition begin_open :: "string \<Rightarrow> 'd input \<Rightarrow> exn option \<times> 'd input" where
  "begin_open url s =
     (if bad_address url then (Some Invalid_argument, s)
      else if is_state (iv_status s) \<noteq> IS_closed then (Some Logic_error, s)
      else case bq_new (ic_capacity (iv_config s)) of
        Inl e \<Rightarrow> (Some e, s\<lparr>iv_cancelled := False, iv_info := empty_info\<rparr>)
      | Inr q \<Rightarrow>
          (None, s\<lparr>iv_cancelled := False, iv_info := empty_info, iv_attached := True, iv_queue := q,
             ih_seen := [], ih_got := [], ih_eof := False,
             iv_control := C_status (status_of IS_opening) (Then_connect url)\<rparr>))"

definition begin_close :: "'d input \<Rightarrow> 'd input" where
  "begin_close s = (if is_state (iv_status s) = IS_closed then s else s\<lparr>iv_control := C_cancel\<rparr>)"

fun resume :: "after_publish \<Rightarrow> control_point" where
  "resume (Then_connect url) = C_format url"
| "resume Then_start = C_start"
| "resume (Then_throw e) = C_return (Some e)"
| "resume Then_closed = C_idle"

text \<open>The rest of \<open>Close\<close>: cancelling, joining the worker, giving up the queue and emptying it.\<close>

definition close_cancel :: "'d input \<Rightarrow> 'd input" where
  "close_cancel s = s\<lparr>iv_cancelled := True, iv_control := C_cancel_queue\<rparr>"

definition close_queue :: "'d input \<Rightarrow> 'd input" where
  "close_queue s = (if iv_attached s then s\<lparr>iv_queue := fst (close_body (iv_queue s))\<rparr> else s)\<lparr>iv_control := C_join\<rparr>"

definition close_join :: "'d input \<Rightarrow> 'd input" where
  "close_join s =
     s\<lparr>iv_thread := False, iv_point := I_none, iv_format := None, iv_deadline := 0, iv_control := C_detach\<rparr>"

definition close_detach :: "'d input \<Rightarrow> 'd input" where
  "close_detach s = s\<lparr>iv_attached := False, iv_control := C_discard\<rparr>"

definition close_discard :: "'d input \<Rightarrow> 'd input" where
  "close_discard s =
     s\<lparr>iv_queue := (iv_queue s)\<lparr>items := []\<rparr>, iv_control := C_status (status_of IS_closed) Then_closed\<rparr>"

declare close_cancel_def [simp] close_queue_def [simp] close_join_def [simp] close_detach_def [simp] close_discard_def [simp]

text \<open>The control thread; \<open>started\<close> tells whether the operating system creates the worker.\<close>

definition control_in :: "'d demux_lib \<Rightarrow> bool \<Rightarrow> int \<Rightarrow> 'd input \<Rightarrow> 'd input" where
  "control_in D started now s =
     (case iv_control s of
        C_status st k \<Rightarrow> (publish_status st s)\<lparr>iv_control := C_close st k\<rparr>
      | C_close st k \<Rightarrow> (publish_close st s)\<lparr>iv_control := C_call st k\<rparr>
      | C_call st k \<Rightarrow> (publish_call st s)\<lparr>iv_control := resume k\<rparr>
      | C_format url \<Rightarrow>
          if ic_format (iv_config s) \<noteq> [] \<and> \<not> dl_known D (ic_format (iv_config s))
          then s\<lparr>iv_control := C_failed Ffmpeg_error\<rparr>
          else (BeginIo now (ic_open_timeout (iv_config s)) s)\<lparr>iv_control := C_connect url\<rparr>
      | C_connect url \<Rightarrow>
          (case dl_open D (ic_format (iv_config s)) url of
             Inl e \<Rightarrow> s\<lparr>iv_control := C_connected (Inl e)\<rparr>
           | Inr d \<Rightarrow> s\<lparr>iv_format := Some d, iv_control := C_connected (Inr ())\<rparr>)
      | C_connected r \<Rightarrow>
          (case CheckIo_in now r s of
             Inl e \<Rightarrow> s\<lparr>iv_control := C_failed e\<rparr> | Inr _ \<Rightarrow> s\<lparr>iv_control := C_probe\<rparr>)
      | C_probe \<Rightarrow>
          (case iv_format s of
             None \<Rightarrow> s\<lparr>iv_control := C_failed Undefined_behaviour\<rparr>
           | Some d \<Rightarrow> (case dl_probe D d of (r, d) \<Rightarrow> s\<lparr>iv_format := Some d, iv_control := C_probed r\<rparr>))
      | C_probed r \<Rightarrow>
          (case CheckIo_in now r s of
             Inl e \<Rightarrow> s\<lparr>iv_control := C_failed e\<rparr>
           | Inr _ \<Rightarrow> s\<lparr>iv_deadline := 0, iv_control := C_describe\<rparr>)
      | C_describe \<Rightarrow>
          (case iv_format s of
             None \<Rightarrow> s\<lparr>iv_control := C_failed Undefined_behaviour\<rparr>
           | Some d \<Rightarrow> s\<lparr>iv_info := MakeInputInfo (dl_describe D d),
                         iv_control := C_status (status_of IS_opened) Then_start\<rparr>)
      | C_start \<Rightarrow>
          if started then s\<lparr>iv_thread := True, iv_point := I_loop, iv_control := C_return None\<rparr>
          else s\<lparr>iv_control := C_failed Runtime_error\<rparr>
      | C_failed e \<Rightarrow>
          s\<lparr>iv_deadline := 0, iv_format := None, iv_control := C_status (failure_status e s) (Then_throw e)\<rparr>
      | C_cancel \<Rightarrow> close_cancel s
      | C_cancel_queue \<Rightarrow> close_queue s
      | C_join \<Rightarrow> close_join s
      | C_detach \<Rightarrow> close_detach s
      | C_discard \<Rightarrow> close_discard s
      | _ \<Rightarrow> s)"

text \<open>The control thread only ever waits for the worker, in \<open>Close\<close>.\<close>

definition control_ready :: "'d input \<Rightarrow> bool" where
  "control_ready s =
     (case iv_control s of
        C_idle \<Rightarrow> False
      | C_return r \<Rightarrow> False
      | C_join \<Rightarrow> \<not> iv_thread s \<or> iv_point s = I_done
      | _ \<Rightarrow> True)"

definition end_call :: "'d input \<Rightarrow> 'd input" where
  "end_call s = s\<lparr>iv_control := C_idle\<rparr>"

text \<open>\<open>RequestCancel\<close>: the flag under the mutex, then the queue.\<close>

definition cancel_flag :: "'d input \<Rightarrow> 'd input" where
  "cancel_flag s = s\<lparr>iv_cancelled := True\<rparr>"

definition cancel_queue :: "'d input \<Rightarrow> 'd input" where
  "cancel_queue s = s\<lparr>iv_queue := fst (close_body (iv_queue s))\<rparr>"

section \<open>The consumer\<close>

definition read_enter :: "bool \<Rightarrow> 'd input \<Rightarrow> 'd input" where
  "read_enter wait s = (if iv_cancelled s \<or> \<not> iv_attached s then s else s\<lparr>iv_reader := X_pop wait\<rparr>)"

definition read_take :: "'d input \<Rightarrow> 'd input" where
  "read_take s =
     (case pop_body True (iv_queue s) of ((r, x), q, _) \<Rightarrow> s\<lparr>iv_queue := q, iv_reader := X_check x\<rparr>)"

definition read_finish :: "av_packet option \<Rightarrow> 'd input \<Rightarrow> read_answer \<times> 'd input" where
  "read_finish x s =
     (let st = is_state (iv_status s); s = s\<lparr>iv_reader := X_idle\<rparr> in
      if iv_cancelled s \<or> st = IS_closed \<or> st = IS_cancelled \<or> \<not> iv_attached s then (R_null, s)
      else case x of
        Some p \<Rightarrow> (R_packet p, s\<lparr>ih_got := ih_got s @ [p]\<rparr>)
      | None \<Rightarrow> if st = IS_ended then (R_eof, s) else (R_null, s))"

section \<open>Interleavings\<close>

inductive inputting :: "'d demux_lib \<Rightarrow> 'd input \<Rightarrow> 'd input \<Rightarrow> bool" for D :: "'d demux_lib" where
  worker: "input_ready s \<Longrightarrow> inputting D s (worker_in D now s)"
| control: "control_ready s \<Longrightarrow> inputting D s (control_in D started now s)"
| cancel: "inputting D s (cancel_flag s)"
| cancel_queue: "iv_cancelled s \<Longrightarrow> inputting D s (cancel_queue s)"
| open_call: "iv_control s = C_idle \<Longrightarrow> iv_reader s = X_idle \<Longrightarrow> inputting D s (snd (begin_open url s))"
| close_call: "iv_control s = C_idle \<Longrightarrow> inputting D s (begin_close s)"
| returned: "iv_control s = C_return r \<Longrightarrow> inputting D s (end_call s)"
| read_enter: "iv_reader s = X_idle \<Longrightarrow> inputting D s (read_enter wait s)"
| read_take: "iv_reader s = X_pop wait \<Longrightarrow> wait \<longrightarrow> pop_ready (iv_queue s) \<Longrightarrow> inputting D s (read_take s)"
| read_finish: "iv_reader s = X_check x \<Longrightarrow> inputting D s (snd (read_finish x s))"

definition input_runs :: "'d demux_lib \<Rightarrow> 'd input \<Rightarrow> bool" where
  "input_runs D t \<longleftrightarrow> (\<exists>c s. AvInput_new c = Inr s \<and> (inputting D)\<^sup>*\<^sup>* s t)"

end
