(* ===== verification/Simulation.thy ===== *)
theory Simulation
  imports Main
begin

text \<open>
  Functional refinement of step relations: every step of the detailed model is a step of the
  specification between the abstract states, or leaves the abstract state as it is.
\<close>

locale simulation =
  fixes cstep :: "'c \<Rightarrow> 'c \<Rightarrow> bool" and astep :: "'a \<Rightarrow> 'a \<Rightarrow> bool" and abs :: "'c \<Rightarrow> 'a" and inv :: "'c \<Rightarrow> bool"
  assumes keeps: "cstep s t \<Longrightarrow> inv s \<Longrightarrow> inv t"
    and simulates: "cstep s t \<Longrightarrow> inv s \<Longrightarrow> abs t = abs s \<or> astep (abs s) (abs t)"
begin

lemma steps_keep: "cstep\<^sup>*\<^sup>* s t \<Longrightarrow> inv s \<Longrightarrow> inv t"
  by (induction rule: rtranclp_induct) (auto intro: keeps)

lemma run_refines: "cstep\<^sup>*\<^sup>* s t \<Longrightarrow> inv s \<Longrightarrow> astep\<^sup>*\<^sup>* (abs s) (abs t)"
proof (induction rule: rtranclp_induct)
  case (step t u)
  then have "inv t" by (blast intro: steps_keep)
  from simulates [OF step.hyps(2) this] step show ?case by (auto intro: rtranclp.rtrancl_into_rtrancl)
qed simp

text \<open>An invariant of the specification holds of the abstraction of every reachable state.\<close>

lemma transfers:
  assumes "\<And>a b. astep a b \<Longrightarrow> P a \<Longrightarrow> P b" and "cstep\<^sup>*\<^sup>* s t" "inv s" "P (abs s)"
  shows "P (abs t)"
  using run_refines [OF assms(2,3)] assms(4) by (induction rule: rtranclp_induct) (auto intro: assms(1))

end

end
