(* ===== verification/Input_Props.thy ===== *)
theory Input_Props
  imports Input Simulation
begin

text \<open>The invariants of \<open>inputting\<close> and the properties of a connection.\<close>

section \<open>Where the threads stand\<close>

fun worker_fits :: "input_point \<Rightarrow> input_state \<Rightarrow> bool" where
  "worker_fits I_none st = False"
| "worker_fits (I_status u) st = (st = IS_opened \<and> final_state (is_state u))"
| "worker_fits (I_close u) st = (st = is_state u \<and> final_state st)"
| "worker_fits (I_call u) st = (st = is_state u \<and> final_state st)"
| "worker_fits I_done st = final_state st"
| "worker_fits _ st = (st = IS_opened)"

text \<open>The control thread, by whether the worker has been started and not joined.\<close>

fun published_fits :: "input_state \<Rightarrow> after_publish \<Rightarrow> bool" where
  "published_fits u (Then_connect url) = (u = IS_opening)"
| "published_fits u Then_start = (u = IS_opened)"
| "published_fits u (Then_throw e) = (u = IS_failed \<or> u = IS_cancelled)"
| "published_fits u Then_closed = (u = IS_closed)"

fun before_publish :: "input_state \<Rightarrow> after_publish \<Rightarrow> bool" where
  "before_publish st (Then_connect url) = (st = IS_closed)"
| "before_publish st Then_start = (st = IS_opening)"
| "before_publish st (Then_throw e) = (st = IS_opening \<or> st = IS_opened)"
| "before_publish st Then_closed = final_state st"

fun control_fits :: "control_point \<Rightarrow> bool \<Rightarrow> input_state \<Rightarrow> bool" where
  "control_fits C_idle th st = (th \<or> st = IS_closed \<or> st = IS_failed \<or> st = IS_cancelled)"
| "control_fits (C_status u k) th st = (\<not> th \<and> published_fits (is_state u) k \<and> before_publish st k)"
| "control_fits (C_close u k) th st = (\<not> th \<and> published_fits (is_state u) k \<and> st = is_state u)"
| "control_fits (C_call u k) th st = (\<not> th \<and> published_fits (is_state u) k \<and> st = is_state u)"
| "control_fits C_start th st = (\<not> th \<and> st = IS_opened)"
| "control_fits (C_failed e) th st = (\<not> th \<and> (st = IS_opening \<or> st = IS_opened))"
| "control_fits (C_return r) th st = (if r = None then th else \<not> th \<and> (st = IS_failed \<or> st = IS_cancelled))"
| "control_fits C_cancel th st = (th \<or> final_state st)"
| "control_fits C_cancel_queue th st = (th \<or> final_state st)"
| "control_fits C_join th st = (th \<or> final_state st)"
| "control_fits C_detach th st = (\<not> th \<and> final_state st)"
| "control_fits C_discard th st = (\<not> th \<and> final_state st)"
| "control_fits _ th st = (\<not> th \<and> st = IS_opening)"

lemma control_fits_thread: "control_fits c True st = control_fits c True st'"
  by (cases c) simp_all

fun closing :: "control_point \<Rightarrow> bool" where
  "closing C_cancel_queue = True"
| "closing C_join = True"
| "closing C_detach = True"
| "closing C_discard = True"
| "closing (C_status u Then_closed) = True"
| "closing (C_close u Then_closed) = True"
| "closing (C_call u Then_closed) = True"
| "closing _ = False"

lemma worker_fits_closed [simp]: "\<not> worker_fits p IS_closed"
  by (cases p) (auto simp: final_state_def)

definition stand :: "'d input \<Rightarrow> bool" where
  "stand s \<longleftrightarrow> control_fits (iv_control s) (iv_thread s) (is_state (iv_status s)) \<and>
     (if iv_thread s then worker_fits (iv_point s) (is_state (iv_status s)) else iv_point s = I_none)"

definition opened_parts :: "'d input \<Rightarrow> bool" where
  "opened_parts s \<longleftrightarrow>
     (iv_thread s \<or> iv_control s = C_probe \<or> (\<exists>r. iv_control s = C_probed r) \<or> iv_control s = C_describe \<or>
      iv_control s = C_start \<or> (\<exists>u. iv_control s = C_status u Then_start \<or> iv_control s = C_close u Then_start \<or>
        iv_control s = C_call u Then_start) \<or> iv_control s = C_connected (Inr ()) \<longrightarrow> iv_format s \<noteq> None)"

section \<open>Publication order\<close>

fun follows :: "input_state \<Rightarrow> input_state \<Rightarrow> bool" where
  "follows IS_closed st = (st = IS_opening)"
| "follows IS_opening st = (st = IS_opened \<or> st = IS_failed \<or> st = IS_cancelled)"
| "follows IS_opened st = final_state st"
| "follows _ st = (st = IS_closed)"

fun owed_worker :: "input_point \<Rightarrow> input_state list" where
  "owed_worker (I_close u) = [is_state u]"
| "owed_worker (I_call u) = [is_state u]"
| "owed_worker _ = []"

fun owed_control :: "control_point \<Rightarrow> input_state list" where
  "owed_control (C_close u k) = [is_state u]"
| "owed_control (C_call u k) = [is_state u]"
| "owed_control _ = []"

lemma owed_alone: "control_fits c True st \<Longrightarrow> owed_control c = []"
  by (cases c) simp_all

lemma follows_snoc [simp]:
  "successively follows (a # xs @ [y]) \<longleftrightarrow> successively follows (a # xs) \<and> follows (last (a # xs)) y"
  using successively_append_iff [of follows "a # xs" "[y]"] by simp

definition history_in :: "'d input \<Rightarrow> input_state list" where
  "history_in s = IS_closed # ih_calls s @ owed_worker (iv_point s) @ owed_control (iv_control s)"

definition published :: "'d input \<Rightarrow> bool" where
  "published s \<longleftrightarrow> successively follows (history_in s) \<and> last (history_in s) = is_state (iv_status s)"

section \<open>Cancellation and the queue\<close>

fun serving :: "input_point \<Rightarrow> bool" where
  "serving I_loop = True"
| "serving I_read = True"
| "serving (I_check a) = True"
| "serving (I_push p) = True"
| "serving I_drain = True"
| "serving _ = False"

fun stops :: "input_point \<Rightarrow> bool" where
  "stops I_stop = True"
| "stops (I_status u) = (is_state u = IS_cancelled)"
| "stops _ = False"

fun preparing :: "control_point \<Rightarrow> bool" where
  "preparing (C_status u (Then_connect url)) = True"
| "preparing (C_status u Then_start) = True"
| "preparing (C_close u (Then_connect url)) = True"
| "preparing (C_close u Then_start) = True"
| "preparing (C_call u (Then_connect url)) = True"
| "preparing (C_call u Then_start) = True"
| "preparing (C_format url) = True"
| "preparing (C_connect url) = True"
| "preparing (C_connected r) = True"
| "preparing C_probe = True"
| "preparing (C_probed r) = True"
| "preparing C_describe = True"
| "preparing C_start = True"
| "preparing _ = False"

lemma preparing_alone: "preparing c \<Longrightarrow> control_fits c th st \<Longrightarrow> \<not> th"
  by (cases c rule: preparing.cases) simp_all

definition withdrawn :: "'d input \<Rightarrow> bool" where
  "withdrawn s \<longleftrightarrow>
     ((serving (iv_point s) \<or> preparing (iv_control s)) \<and> bq.closed (iv_queue s) \<longrightarrow> iv_cancelled s) \<and>
     (stops (iv_point s) \<longrightarrow> iv_cancelled s) \<and>
     (closing (iv_control s) \<longrightarrow> iv_cancelled s) \<and>
     (iv_reader s \<noteq> X_idle \<and> \<not> iv_attached s \<longrightarrow> iv_cancelled s)"

definition cancels :: "'d input \<Rightarrow> bool" where
  "cancels s \<longleftrightarrow>
     (\<forall>u k. iv_control s = C_status u k \<and> is_state u = IS_cancelled \<longrightarrow> iv_cancelled s) \<and>
     (is_state (iv_status s) = IS_cancelled \<longrightarrow> iv_cancelled s) \<and>
     ((iv_attached s \<or> iv_reader s \<noteq> X_idle) \<and> is_state (iv_status s) = IS_closed \<longrightarrow>
        iv_cancelled s \<or> preparing (iv_control s))"

definition bounded :: "'d input \<Rightarrow> bool" where
  "bounded s \<longleftrightarrow> 0 < ic_capacity (iv_config s) \<and> capacity (iv_queue s) = ic_capacity (iv_config s) \<and>
     length (items (iv_queue s)) \<le> ic_capacity (iv_config s)"

lemmas in_worker_defs = worker_in_def loop_step_def demux_step_def check_step_def put_step_def BeginIo_def CheckIo_in_def
  publish_status_def publish_close_def publish_call_def failure_status_def status_of_def input_ready_def body_defs Let_def

lemmas in_control_defs = control_in_def BeginIo_def CheckIo_in_def publish_status_def publish_close_def publish_call_def
  failure_status_def status_of_def control_ready_def body_defs Let_def

lemmas in_call_defs = cancel_flag_def cancel_queue_def begin_open_def begin_close_def end_call_def read_enter_def
  read_take_def read_finish_def bq_new_def status_of_def body_defs Let_def

lemmas in_worker_splits = input_point.splits demux_answer.splits sum.splits option.splits prod.splits if_splits

lemmas in_control_splits = control_point.splits after_publish.splits sum.splits option.splits prod.splits if_splits

lemma stand_step: "inputting D s t \<Longrightarrow> stand s \<Longrightarrow> stand t"
proof (induction rule: inputting.induct)
  case (worker s now)
  then show ?case
    by (cases "iv_point s")
      (auto simp: in_worker_defs stand_def final_state_def control_fits_thread [of _ IS_opened] split: in_worker_splits
        intro: control_fits_thread [THEN iffD1])
next
  case (control s started now)
  then show ?case
    by (cases "iv_control s" rule: preparing.cases)
      (auto simp: in_control_defs stand_def final_state_def split: after_publish.splits sum.splits option.splits prod.splits if_splits)
qed (auto simp: in_call_defs stand_def final_state_def split: list.splits option.splits if_splits)

lemma parts_step: "inputting D s t \<Longrightarrow> stand s \<Longrightarrow> opened_parts s \<Longrightarrow> opened_parts t"
proof (induction rule: inputting.induct)
  case (worker s now)
  then show ?case
    by (cases "iv_point s") (auto simp: in_worker_defs stand_def opened_parts_def split: in_worker_splits)
next
  case (control s started now)
  then show ?case
    by (cases "iv_control s" rule: preparing.cases)
      (auto simp: in_control_defs stand_def opened_parts_def split: after_publish.splits sum.splits option.splits prod.splits if_splits)
qed (auto simp: in_call_defs stand_def opened_parts_def split: list.splits option.splits if_splits)

lemma published_step: "inputting D s t \<Longrightarrow> stand s \<Longrightarrow> published s \<Longrightarrow> published t"
proof (induction rule: inputting.induct)
  case (worker s now)
  then show ?case
    by (cases "iv_point s")
      (auto simp: in_worker_defs stand_def published_def history_in_def final_state_def dest!: owed_alone split: in_worker_splits)
next
  case (control s started now)
  then show ?case
    by (cases "iv_control s" rule: preparing.cases)
      (auto simp: in_control_defs stand_def published_def history_in_def final_state_def
        split: after_publish.splits sum.splits option.splits prod.splits if_splits)
qed (auto simp: in_call_defs stand_def published_def history_in_def final_state_def split: list.splits option.splits if_splits)

lemma withdrawn_step: "inputting D s t \<Longrightarrow> stand s \<Longrightarrow> withdrawn s \<Longrightarrow> withdrawn t"
proof (induction rule: inputting.induct)
  case (worker s now)
  then show ?case
    by (cases "iv_point s")
      (auto simp: in_worker_defs stand_def withdrawn_def final_state_def dest: preparing_alone split: in_worker_splits)
next
  case (control s started now)
  then show ?case
    by (cases "iv_control s" rule: preparing.cases)
      (auto simp: in_control_defs stand_def withdrawn_def final_state_def
        split: after_publish.splits sum.splits option.splits prod.splits if_splits)
qed (auto simp: in_call_defs stand_def withdrawn_def split: list.splits option.splits if_splits)

lemma cancels_step: "inputting D s t \<Longrightarrow> stand s \<Longrightarrow> withdrawn s \<Longrightarrow> bounded s \<Longrightarrow> cancels s \<Longrightarrow> cancels t"
proof (induction rule: inputting.induct)
  case (worker s now)
  then show ?case
    by (cases "iv_point s")
      (auto simp: in_worker_defs stand_def withdrawn_def cancels_def final_state_def dest: preparing_alone split: in_worker_splits)
next
  case (control s started now)
  then show ?case
    by (cases "iv_control s" rule: preparing.cases)
      (auto simp: in_control_defs stand_def withdrawn_def cancels_def final_state_def
        split: after_publish.splits sum.splits option.splits prod.splits if_splits)
qed (auto simp: in_call_defs stand_def bounded_def cancels_def split: list.splits option.splits if_splits)

lemma bounded_step: "inputting D s t \<Longrightarrow> bounded s \<Longrightarrow> bounded t"
proof (induction rule: inputting.induct)
  case (worker s now)
  then show ?case
    by (cases "iv_point s") (auto simp: in_worker_defs bounded_def push_ready_def split: in_worker_splits)
next
  case (control s started now)
  then show ?case
    by (cases "iv_control s" rule: preparing.cases)
      (auto simp: in_control_defs bounded_def split: sum.splits option.splits prod.splits if_splits)
qed (auto simp: in_call_defs bounded_def split: list.splits option.splits if_splits)

section \<open>Packets\<close>

fun hand_in :: "input_point \<Rightarrow> av_packet list" where
  "hand_in (I_push p) = [p]"
| "hand_in _ = []"

fun taken_in :: "reader_point \<Rightarrow> av_packet list" where
  "taken_in (X_check (Some p)) = [p]"
| "taken_in _ = []"

definition passing :: "'d input \<Rightarrow> bool" where
  "passing s \<longleftrightarrow>
     (preparing (iv_control s) \<longrightarrow> ih_seen s = []) \<and>
     (\<not> iv_cancelled s \<longrightarrow>
        ih_seen s = ih_got s @ taken_in (iv_reader s) @ items (iv_queue s) @ hand_in (iv_point s)) \<and>
     prefix (ih_got s) (ih_seen s)"

text \<open>The point from which on the worker reports the end of the stream.\<close>

fun ending_in :: "input_point \<Rightarrow> bool" where
  "ending_in (I_status u) = (is_state u = IS_ended)"
| "ending_in (I_close u) = (is_state u = IS_ended)"
| "ending_in (I_call u) = (is_state u = IS_ended)"
| "ending_in _ = False"

fun reading :: "input_point \<Rightarrow> bool" where
  "reading I_loop = True"
| "reading I_read = True"
| "reading (I_check a) = True"
| "reading (I_push p) = True"
| "reading _ = False"

definition drained_in :: "'d input \<Rightarrow> bool" where
  "drained_in s \<longleftrightarrow>
     (iv_point s = I_drain \<or> ending_in (iv_point s) \<or> is_state (iv_status s) = IS_ended \<longrightarrow> ih_eof s) \<and>
     (preparing (iv_control s) \<or> reading (iv_point s) \<longrightarrow> \<not> ih_eof s) \<and>
     ((ending_in (iv_point s) \<or> is_state (iv_status s) = IS_ended) \<and> \<not> iv_cancelled s \<longrightarrow> items (iv_queue s) = [])"

lemma drained_step: "inputting D s t \<Longrightarrow> stand s \<Longrightarrow> bounded s \<Longrightarrow> drained_in s \<Longrightarrow> drained_in t"
proof (induction rule: inputting.induct)
  case (worker s now)
  then show ?case
    by (cases "iv_point s")
      (auto simp: in_worker_defs stand_def drained_in_def final_state_def dest: preparing_alone split: in_worker_splits)
next
  case (control s started now)
  then show ?case
    by (cases "iv_control s" rule: preparing.cases)
      (auto simp: in_control_defs stand_def drained_in_def final_state_def
        split: after_publish.splits sum.splits option.splits prod.splits if_splits)
qed (auto simp: in_call_defs stand_def bounded_def drained_in_def split: list.splits option.splits if_splits)

lemma passing_step:
  "inputting D s t \<Longrightarrow> stand s \<Longrightarrow> withdrawn s \<Longrightarrow> bounded s \<Longrightarrow> cancels s \<Longrightarrow> passing s \<Longrightarrow> passing t"
proof (induction rule: inputting.induct)
  case (worker s now)
  then show ?case
    by (cases "iv_point s")
      (auto simp: in_worker_defs stand_def withdrawn_def passing_def dest: preparing_alone split: in_worker_splits)
next
  case (control s started now)
  then show ?case
    by (cases "iv_control s" rule: preparing.cases)
      (auto simp: in_control_defs stand_def withdrawn_def passing_def
        split: after_publish.splits sum.splits option.splits prod.splits if_splits)
next
  case (read_take s wait)
  then show ?case
    by (cases "items (iv_queue s)") (auto simp: passing_def read_take_def pop_body_def)
next
  case (read_finish s x)
  show ?case
  proof (cases "iv_cancelled s \<or> is_state (iv_status s) = IS_closed")
    case True
    have "ih_seen s = []" if "\<not> iv_cancelled s"
      using read_finish that True by (auto simp: cancels_def passing_def)
    with True read_finish show ?thesis
      by (cases x) (auto simp: passing_def read_finish_def Let_def)
  next
    case False
    with read_finish have "is_state (iv_status s) \<noteq> IS_cancelled" "iv_attached s"
      by (auto simp: cancels_def withdrawn_def)
    with False read_finish show ?thesis
      by (cases x) (auto simp: passing_def read_finish_def Let_def)
  qed
next
  case (open_call s url)
  then show ?case
    by (auto simp: passing_def begin_open_def bq_new_def stand_def status_of_def bounded_def split: if_splits)
qed (auto simp: passing_def cancel_flag_def cancel_queue_def close_body_def begin_close_def end_call_def read_enter_def)

definition in_inv :: "'d input \<Rightarrow> bool" where
  "in_inv s \<longleftrightarrow> stand s \<and> opened_parts s \<and> published s \<and> withdrawn s \<and> cancels s \<and> bounded s \<and> passing s \<and> drained_in s"

lemma in_inv_step: "inputting D s t \<Longrightarrow> in_inv s \<Longrightarrow> in_inv t"
  unfolding in_inv_def
  by (blast intro: stand_step parts_step published_step withdrawn_step cancels_step bounded_step passing_step drained_step)

lemma in_inv_start: "AvInput_new c = Inr s \<Longrightarrow> in_inv s"
  by (auto simp: AvInput_new_def in_inv_def stand_def opened_parts_def published_def history_in_def withdrawn_def
      cancels_def bounded_def passing_def drained_in_def status_of_def split: if_splits)

lemma input_runs_inv: "input_runs D t \<Longrightarrow> in_inv t"
proof -
  assume "input_runs D t"
  then obtain c s where "AvInput_new c = Inr s" "(inputting D)\<^sup>*\<^sup>* s t" by (auto simp: input_runs_def)
  from this(2) in_inv_start [OF this(1)] show "in_inv t"
    by (induction rule: rtranclp_induct) (auto intro: in_inv_step)
qed

section \<open>Cancelling\<close>

fun in_left :: "input_point \<Rightarrow> nat" where
  "in_left I_none = 0"
| "in_left I_done = 0"
| "in_left (I_call u) = 1"
| "in_left (I_close u) = 2"
| "in_left (I_status u) = 3"
| "in_left I_stop = 4"
| "in_left (I_fail e) = 4"
| "in_left I_drain = 5"
| "in_left (I_push p) = 5"
| "in_left (I_check a) = 5"
| "in_left I_loop = 5"
| "in_left I_read = 6"

definition cut :: "'d input \<Rightarrow> bool" where
  "cut s \<longleftrightarrow> iv_cancelled s \<and> bq.closed (iv_queue s)"

definition ended_worker :: "'d input \<Rightarrow> bool" where
  "ended_worker s \<longleftrightarrow> iv_point s = I_none \<or> iv_point s = I_done"

lemma cut_worker:
  assumes "cut s"
  shows "cut (worker_in D now s)"
    "\<not> ended_worker s \<Longrightarrow> input_ready s \<and> in_left (iv_point (worker_in D now s)) < in_left (iv_point s)"
  using assms
  by (cases "iv_point s"; auto simp: cut_def ended_worker_def in_worker_defs push_ready_def split: option.splits prod.splits)+

lemma cut_ends:
  "cut s \<Longrightarrow> in_left (iv_point s) \<le> length nows \<Longrightarrow> ended_worker (fold (worker_in D) nows s)"
proof (induction nows arbitrary: s)
  case Nil
  then show ?case by (cases "iv_point s") (simp_all add: ended_worker_def)
next
  case (Cons now nows)
  show ?case
  proof (cases "ended_worker s")
    case True
    then have "worker_in D now s = s" for now by (auto simp: ended_worker_def worker_in_def)
    then have "fold (worker_in D) ns s = s" for ns by (induction ns) simp_all
    with True show ?thesis by metis
  next
    case False
    with Cons.prems cut_worker [of s D now] show ?thesis by (auto intro!: Cons.IH)
  qed
qed

lemma in_left_bound: "in_left p \<le> 6"
  by (cases p) simp_all

section \<open>The specification of a connection\<close>

text \<open>
  What the observer and the consumer of a connection can rely on, without threads and queue: a state, the
  packets that have arrived and are not yet read, those that were read, and whether the source has ended.
  A cancelled connection promises no packet; when it has ended, at most the packet that is being returned
  is pending.
\<close>

record link =
  ln_state :: input_state
  ln_pending :: "av_packet list"
  ln_got :: "av_packet list"
  ln_ended :: bool
  ln_cancelled :: bool

inductive link_step :: "link \<Rightarrow> link \<Rightarrow> bool" where
  arrive: "ln_state l = IS_opened \<Longrightarrow> \<not> ln_ended l \<Longrightarrow> \<not> ln_cancelled l \<Longrightarrow>
    link_step l (l\<lparr>ln_pending := ln_pending l @ [p]\<rparr>)"
| read: "ln_pending l = p # ps \<Longrightarrow> \<not> ln_cancelled l \<Longrightarrow> link_step l (l\<lparr>ln_pending := ps, ln_got := ln_got l @ [p]\<rparr>)"
| source_ends: "ln_state l = IS_opened \<Longrightarrow> link_step l (l\<lparr>ln_ended := True\<rparr>)"
| cancel: "link_step l (l\<lparr>ln_cancelled := True, ln_pending := []\<rparr>)"
| renew: "ln_state l = IS_closed \<Longrightarrow>
    link_step l (l\<lparr>ln_pending := [], ln_got := [], ln_ended := False, ln_cancelled := False\<rparr>)"
| move: "follows (ln_state l) st \<Longrightarrow> (st = IS_ended \<longrightarrow> ln_ended l \<and> length (ln_pending l) \<le> 1) \<Longrightarrow>
    (st = IS_cancelled \<or> st = IS_closed \<longrightarrow> ln_cancelled l) \<Longrightarrow> link_step l (l\<lparr>ln_state := st\<rparr>)"

definition link_of :: "'d input \<Rightarrow> link" where
  "link_of s = \<lparr>ln_state = is_state (iv_status s),
     ln_pending = (if iv_cancelled s then []
       else taken_in (iv_reader s) @ items (iv_queue s) @ hand_in (iv_point s)),
     ln_got = ih_got s, ln_ended = ih_eof s, ln_cancelled = iv_cancelled s\<rparr>"

lemma taken_one: "length (taken_in r) \<le> 1"
  by (cases r rule: taken_in.cases) simp_all

lemma link_move:
  assumes "follows (is_state (iv_status s)) (is_state u)"
    "is_state u = IS_ended \<Longrightarrow> ih_eof s \<and> length (ln_pending (link_of s)) \<le> 1"
    "is_state u = IS_cancelled \<or> is_state u = IS_closed \<Longrightarrow> iv_cancelled s"
    "link_of t = (link_of s)\<lparr>ln_state := is_state u\<rparr>"
  shows "link_step (link_of s) (link_of t)"
  unfolding assms(4) by (rule link_step.move) (use assms in \<open>auto simp: link_of_def\<close>)

lemma link_worker:
  assumes "in_inv s" "input_ready s"
  shows "link_of (worker_in D now s) = link_of s \<or> link_step (link_of s) (link_of (worker_in D now s))"
proof -
  have th: "iv_thread s" "worker_fits (iv_point s) (is_state (iv_status s))"
    using assms by (auto simp: in_inv_def stand_def input_ready_def split: if_splits)
  consider (check) a where "iv_point s = I_check a" | (status) u where "iv_point s = I_status u"
    | (other) "\<forall>a u. iv_point s \<noteq> I_check a \<and> iv_point s \<noteq> I_status u" by blast
  then show ?thesis
  proof cases
    case check
    with th have st: "is_state (iv_status s) = IS_opened" by simp
    from check assms have ne: "\<not> ih_eof s" by (simp add: in_inv_def drained_in_def)
    let ?t = "worker_in D now s"
    have "link_of ?t = link_of s \<or>
        (\<exists>p. \<not> iv_cancelled s \<and> link_of ?t = (link_of s)\<lparr>ln_pending := ln_pending (link_of s) @ [p]\<rparr>) \<or>
        link_of ?t = (link_of s)\<lparr>ln_ended := True\<rparr>"
      using check by (auto simp: in_worker_defs link_of_def split: demux_answer.splits sum.splits)
    then show ?thesis
      using link_step.arrive [of "link_of s"] link_step.source_ends [of "link_of s"] st ne
      by (auto simp: link_of_def)
  next
    case status
    with th have st: "follows (is_state (iv_status s)) (is_state u)" by simp
    have e: "link_of (worker_in D now s) = (link_of s)\<lparr>ln_state := is_state u\<rparr>"
      using status by (simp add: in_worker_defs link_of_def)
    have "link_step (link_of s) (link_of (worker_in D now s))"
      by (rule link_move [OF st _ _ e])
        (use status assms st taken_one [of "iv_reader s"] in
          \<open>auto simp: in_inv_def withdrawn_def drained_in_def link_of_def final_state_def stand_def split: if_splits\<close>)
    then show ?thesis ..
  next
    case other
    with assms show ?thesis
      by (cases "iv_point s") (auto simp: in_worker_defs in_inv_def withdrawn_def link_of_def split: option.splits prod.splits)
  qed
qed

lemma link_control:
  assumes "in_inv s" "control_ready s"
  shows "link_of (control_in D started now s) = link_of s \<or> link_step (link_of s) (link_of (control_in D started now s))"
proof -
  consider (status) u k where "iv_control s = C_status u k" | (cancel) "iv_control s = C_cancel"
    | (other) "\<forall>u k. iv_control s \<noteq> C_status u k" "iv_control s \<noteq> C_cancel" by blast
  then show ?thesis
  proof cases
    case status
    with assms have st: "follows (is_state (iv_status s)) (is_state u)"
      by (cases k) (auto simp: in_inv_def stand_def final_state_def)
    have e: "link_of (control_in D started now s) = (link_of s)\<lparr>ln_state := is_state u\<rparr>"
      using status by (simp add: in_control_defs link_of_def)
    have "link_step (link_of s) (link_of (control_in D started now s))"
      by (rule link_move [OF st _ _ e]) (use status assms in \<open>cases k; auto simp: in_inv_def stand_def withdrawn_def cancels_def\<close>)+
    then show ?thesis ..
  next
    case cancel
    then have "link_of (control_in D started now s) = (link_of s)\<lparr>ln_cancelled := True, ln_pending := []\<rparr>"
      by (simp add: in_control_defs link_of_def)
    then show ?thesis by (metis link_step.cancel)
  next
    case other
    with assms show ?thesis
      by (cases "iv_control s" rule: preparing.cases)
        (auto simp: in_control_defs in_inv_def stand_def withdrawn_def link_of_def split: sum.splits option.splits prod.splits)
  qed
qed

lemma link_read:
  assumes "in_inv s" "iv_reader s = X_check x"
  shows "link_of (snd (read_finish x s)) = link_of s \<or> link_step (link_of s) (link_of (snd (read_finish x s)))"
proof (cases "iv_cancelled s \<or> x = None")
  case True
  with assms(2) show ?thesis by (auto simp: read_finish_def link_of_def Let_def)
next
  case False
  then obtain p where p: "x = Some p" "\<not> iv_cancelled s" by auto
  with assms have "iv_attached s" "is_state (iv_status s) \<noteq> IS_closed" "is_state (iv_status s) \<noteq> IS_cancelled"
    by (auto simp: in_inv_def cancels_def withdrawn_def passing_def)
  with p have e: "link_of (snd (read_finish x s)) =
      (link_of s)\<lparr>ln_pending := items (iv_queue s) @ hand_in (iv_point s), ln_got := ln_got (link_of s) @ [p]\<rparr>"
    by (simp add: read_finish_def link_of_def Let_def)
  have "ln_pending (link_of s) = p # items (iv_queue s) @ hand_in (iv_point s)"
    using p assms(2) by (simp add: link_of_def)
  then show ?thesis
    unfolding e by (intro disjI2 link_step.read) (simp_all add: p(2) link_of_def)
qed

lemma link_open:
  assumes "in_inv s" "iv_control s = C_idle" "iv_reader s = X_idle"
  shows "link_of (snd (begin_open url s)) = link_of s \<or> link_step (link_of s) (link_of (snd (begin_open url s)))"
proof (cases "bad_address url \<or> is_state (iv_status s) \<noteq> IS_closed")
  case True
  then show ?thesis by (auto simp: begin_open_def)
next
  case False
  with assms have "0 < ic_capacity (iv_config s)" "iv_point s = I_none"
    by (auto simp: in_inv_def bounded_def stand_def split: if_splits)
  with False assms(3) have e: "link_of (snd (begin_open url s)) =
      (link_of s)\<lparr>ln_pending := [], ln_got := [], ln_ended := False, ln_cancelled := False\<rparr>"
    by (simp add: begin_open_def bq_new_def link_of_def)
  show ?thesis
    unfolding e by (intro disjI2 link_step.renew) (use False in \<open>simp add: link_of_def\<close>)
qed

lemma link_simulates: "inputting D s t \<Longrightarrow> in_inv s \<Longrightarrow> link_of t = link_of s \<or> link_step (link_of s) (link_of t)"
proof (induction rule: inputting.induct)
  case (cancel s)
  then have "link_of (cancel_flag s) = (link_of s)\<lparr>ln_cancelled := True, ln_pending := []\<rparr>"
    by (simp add: link_of_def cancel_flag_def)
  then show ?case by (metis link_step.cancel)
next
  case (read_take s wait)
  then show ?case
    by (cases "items (iv_queue s)") (auto simp: link_of_def read_take_def pop_body_def)
qed (auto simp: link_worker link_control link_read link_open, auto simp: link_of_def cancel_queue_def close_body_def
    begin_close_def end_call_def read_enter_def)

interpretation in_link: simulation "inputting D" link_step link_of in_inv
  by unfold_locales (auto intro: in_inv_step dest: link_simulates)

section \<open>Properties\<close>

text \<open>
  C16: A connection neither loses, repeats nor reorders a packet of the selected streams. The packets read
  are a prefix of those the demultiplexer delivered, the queue keeps its capacity, and while the connection
  is not cancelled the rest is held by the consumer's call, the queue or the worker. End of stream is only
  answered when the demultiplexer has ended and every packet has been returned.
\<close>
theorem input_delivers:
  assumes "input_runs D t"
  shows "prefix (ih_got t) (ih_seen t) \<and> Size (iv_queue t) \<le> ic_capacity (iv_config t) \<and>
    (\<not> iv_cancelled t \<longrightarrow> ih_seen t = ih_got t @ taken_in (iv_reader t) @ items (iv_queue t) @ hand_in (iv_point t)) \<and>
    (iv_reader t = X_check x \<and> fst (read_finish x t) = R_eof \<longrightarrow> ih_eof t \<and> ih_got t = ih_seen t)"
proof -
  have inv: "in_inv t" by (rule input_runs_inv [OF assms])
  have "ih_eof t \<and> ih_got t = ih_seen t" if x: "iv_reader t = X_check x" "fst (read_finish x t) = R_eof"
  proof -
    from x(2) have e: "\<not> iv_cancelled t" "x = None" "is_state (iv_status t) = IS_ended"
      by (auto simp: read_finish_def Let_def split: if_splits option.splits)
    with inv have "hand_in (iv_point t) = []"
      by (cases "iv_point t") (auto simp: in_inv_def stand_def split: if_splits)
    with e inv x(1) show ?thesis by (simp add: in_inv_def drained_in_def passing_def)
  qed
  with inv show ?thesis by (auto simp: in_inv_def passing_def bounded_def Size_def)
qed

text \<open>
  The observer is told every state once and in the documented order, over any number of sessions: an
  opening is followed by opened or by one final state, opened by one final state, and that by closed.
\<close>
theorem input_states: "input_runs D t \<Longrightarrow> successively follows (IS_closed # ih_calls t)"
  using successively_append_iff [of follows "IS_closed # ih_calls t"]
  by (auto dest!: input_runs_inv simp: in_inv_def published_def history_in_def)

text \<open>
  C17: The threads and the queue of a connection implement the specification \<open>link_step\<close>.
\<close>
theorem input_refines:
  "AvInput_new c = Inr s \<Longrightarrow> (inputting D)\<^sup>*\<^sup>* s t \<Longrightarrow> link_step\<^sup>*\<^sup>* (link_of s) (link_of t)"
  by (rule in_link.run_refines, assumption) (rule in_inv_start)

text \<open>
  After a cancellation has closed the queue, the worker is never blocked and has ended after six steps,
  however long each of them takes.
\<close>
theorem input_cancels:
  "cut s \<Longrightarrow> (ended_worker s \<or> input_ready s) \<and> (6 \<le> length nows \<longrightarrow> ended_worker (fold (worker_in D) nows s))"
  using cut_worker(2) cut_ends in_left_bound order_trans by blast

section \<open>A sample connection\<close>

definition sample_track :: "int \<Rightarrow> media_type \<Rightarrow> media_stream" where
  "sample_track i m = \<lparr>si_index = i, si_parameters = True, si_time_base = avq 1 1000, si_codec_known = True,
     si_type = m, si_extradata_size = 0, si_extradata = False,
     cs_codec = (if m = Media_video then AV_CODEC_ID_H264 else AV_CODEC_ID_AAC), cs_extradata = [], cs_sample_rate = 48000,
     cs_channels = 2, ds_frame_rate = avq 25 1, ds_aspect = avq 1 1, ds_alpha_mode = None, me_format = 0, me_width = 16,
     me_height = 16, me_framerate = avq 25 1, me_layout = 2, me_profile = 0, me_level = 0\<rparr>"

definition piece :: "int \<Rightarrow> av_packet" where
  "piece i = \<lparr>pk_pts = 0, pk_dts = 0, pk_time_base = avq 1 1000, pk_stream = i, pk_bytes = [1], pk_side = []\<rparr>"

text \<open>The demultiplexer gives a list of answers, then ends; stream 2 is not selected.\<close>

definition sample_demux :: "demux_answer list demux_lib" where
  "sample_demux = \<lparr>dl_known = (\<lambda>_. True), dl_open = (\<lambda>_ _. Inr [M_packet (piece 0), M_packet (piece 2)]), dl_probe = (\<lambda>d. (Inr (), d)),
     dl_describe = (\<lambda>_. \<lparr>fd_streams = [sample_track 0 Media_video, sample_track 1 Media_audio, sample_track 2 Media_video],
       fd_start = 0, fd_duration = 0, fd_jumps = False\<rparr>),
     dl_read = (\<lambda>d. case d of [] \<Rightarrow> (M_eof, []) | a # d \<Rightarrow> (a, d))\<rparr>"

definition sample_in_config :: input_config where
  "sample_in_config = \<lparr>ic_capacity = 1, ic_open_timeout = 1, ic_read_timeout = 1, ic_format = []\<rparr>"

definition the_input :: "'d input result \<Rightarrow> 'd input" where
  "the_input r = (case r of Inr s \<Rightarrow> s | Inl e \<Rightarrow> undefined)"

definition fresh_input :: "demux_answer list input" where
  "fresh_input = the_input (AvInput_new sample_in_config)"

lemma fresh_input: "AvInput_new sample_in_config = Inr fresh_input"
  by (simp add: fresh_input_def the_input_def AvInput_new_def sample_in_config_def)

fun steer :: "'d demux_lib \<Rightarrow> nat \<Rightarrow> 'd input \<Rightarrow> 'd input" where
  "steer D 0 s = s"
| "steer D (Suc n) s = (if control_ready s then steer D n (control_in D True 0 s) else s)"

lemma steer_run: "(inputting D)\<^sup>*\<^sup>* s (steer D n s)"
  by (induction n arbitrary: s) (auto intro: inputting.control converse_rtranclp_into_rtranclp)

definition opened_input :: "demux_answer list input" where
  "opened_input = steer sample_demux 14 (snd (begin_open ''a'' fresh_input))"

lemma opened_run: "(inputting sample_demux)\<^sup>*\<^sup>* fresh_input opened_input"
proof -
  have "inputting sample_demux fresh_input (snd (begin_open ''a'' fresh_input))"
    by (rule inputting.open_call) (simp_all add: fresh_input_def the_input_def AvInput_new_def sample_in_config_def)
  with steer_run show ?thesis unfolding opened_input_def by (blast intro: converse_rtranclp_into_rtranclp)
qed

lemmas sample_in_defs = opened_input_def fresh_input_def the_input_def AvInput_new_def sample_in_config_def sample_demux_def
  begin_open_def bad_address_def bq_new_def MakeInputInfo_def empty_info_def sample_track_def

fun toil :: "'d demux_lib \<Rightarrow> nat \<Rightarrow> 'd input \<Rightarrow> 'd input" where
  "toil D 0 s = s"
| "toil D (Suc n) s = (if input_ready s then toil D n (worker_in D 0 s) else s)"

lemma toil_run: "(inputting D)\<^sup>*\<^sup>* s (toil D n s)"
  by (induction n arbitrary: s) (auto intro: inputting.worker converse_rtranclp_into_rtranclp)

definition filled_input :: "demux_answer list input" where
  "filled_input = toil sample_demux 4 opened_input"

definition got_input :: "demux_answer list input" where
  "got_input = snd (read_finish (Some (piece 0)) (read_take (read_enter True filled_input)))"

definition ended_input :: "demux_answer list input" where
  "ended_input = read_take (read_enter True (toil sample_demux 12 got_input))"

lemma filled_fields:
  "filled_input = opened_input\<lparr>iv_format := Some [M_packet (piece 2)], iv_deadline := 0, iv_point := I_loop,
     ih_seen := [piece 0], iv_queue := (iv_queue opened_input)\<lparr>items := [piece 0]\<rparr>\<rparr>"
  by (simp add: filled_input_def eval_nat_numeral sample_in_defs in_control_defs in_worker_defs final_state_def
      push_ready_def selected_def piece_def)

lemma opened_fields:
  "iv_config opened_input = sample_in_config" "\<not> iv_cancelled opened_input" "iv_attached opened_input"
  "is_state (iv_status opened_input) = IS_opened" "iv_reader opened_input = X_idle" "ih_got opened_input = []"
  "ii_video (iv_info opened_input) = 0" "ii_audio (iv_info opened_input) = 1" "ih_calls opened_input = [IS_opening, IS_opened]"
  "iv_queue opened_input = \<lparr>capacity = 1, items = [], read_signal = None, write_signal = None, closed = False\<rparr>"
  by (simp_all add: eval_nat_numeral sample_in_defs in_control_defs final_state_def)

lemma got_fields:
  "got_input = opened_input\<lparr>iv_format := Some [M_packet (piece 2)], iv_deadline := 0, iv_point := I_loop,
     ih_seen := [piece 0], ih_got := [piece 0]\<rparr>"
  "iv_reader (read_take (read_enter True filled_input)) = X_check (Some (piece 0))"
  by (simp_all add: got_input_def filled_fields read_enter_def read_take_def read_finish_def pop_body_def opened_fields
      Let_def)

lemma ended_fields:
  "iv_reader ended_input = X_check None \<and> fst (read_finish None ended_input) = R_eof \<and> ih_got ended_input = [piece 0]"
  by (simp add: ended_input_def eval_nat_numeral got_fields in_worker_defs opened_fields sample_demux_def
      sample_in_config_def final_state_def selected_def piece_def read_enter_def read_take_def read_finish_def)

lemma read_run:
  assumes "iv_reader s = X_idle" "iv_reader (read_enter True s) = X_pop True" "pop_ready (iv_queue (read_enter True s))"
  shows "(inputting D)\<^sup>*\<^sup>* s (read_take (read_enter True s))"
  using inputting.read_enter [OF assms(1), of D True] inputting.read_take [OF assms(2), of D] assms(3) by simp

lemma got_run: "(inputting sample_demux)\<^sup>*\<^sup>* fresh_input got_input"
proof -
  have "(inputting sample_demux)\<^sup>*\<^sup>* fresh_input filled_input"
    unfolding filled_input_def by (rule rtranclp_trans [OF opened_run toil_run])
  also have "(inputting sample_demux)\<^sup>*\<^sup>* filled_input (read_take (read_enter True filled_input))"
    by (rule read_run) (simp_all add: filled_fields opened_fields read_enter_def pop_ready_def)
  also have "inputting sample_demux (read_take (read_enter True filled_input)) got_input"
    unfolding got_input_def by (rule inputting.read_finish) (rule got_fields(2))
  finally show ?thesis .
qed

lemma ended_run: "(inputting sample_demux)\<^sup>*\<^sup>* fresh_input ended_input"
proof -
  let ?s = "toil sample_demux 12 got_input"
  have "(inputting sample_demux)\<^sup>*\<^sup>* fresh_input ?s" by (rule rtranclp_trans [OF got_run toil_run])
  also have "(inputting sample_demux)\<^sup>*\<^sup>* ?s ended_input"
    unfolding ended_input_def
    by (rule read_run) (simp_all add: eval_nat_numeral got_fields in_worker_defs opened_fields sample_demux_def
      sample_in_config_def final_state_def selected_def piece_def read_enter_def pop_ready_def)
  finally show ?thesis .
qed

lemma ended_runs: "input_runs sample_demux ended_input"
  unfolding input_runs_def using fresh_input ended_run by blast

theorem input_delivers_witness: "ih_eof ended_input \<and> ih_seen ended_input = [piece 0]"
  using input_delivers [OF ended_runs, of None] ended_fields by auto

theorem input_states_witness: "successively follows (IS_closed # ih_calls ended_input)"
  by (rule input_states [OF ended_runs])

theorem input_refines_witness: "link_step\<^sup>*\<^sup>* (link_of fresh_input) (link_of ended_input)"
  by (rule input_refines [OF fresh_input ended_run])

theorem input_cancels_witness:
  "ended_worker (fold (worker_in sample_demux) [1, 2, 3, 4, 5, 6] (cancel_queue (cancel_flag filled_input)))"
proof -
  have "cut (cancel_queue (cancel_flag filled_input))"
    by (simp add: cut_def cancel_queue_def cancel_flag_def close_body_def)
  from input_cancels [OF this, of "[1, 2, 3, 4, 5, 6]"] show ?thesis by simp
qed

end
