(* ===== verification/Input_Proxy.thy ===== *)
theory Input_Proxy
  imports Input_Props
begin

text \<open>
  \<^verbatim>\<open>input/av_input_proxy.cc\<close>: a connection that is reopened after failures and, when it loops, after its end.

  The connections are those of \<open>Input\<close>: \<open>px_inputs\<close> holds every \<^verbatim>\<open>AvInput\<close> the proxy has made, so that a
  consumer can go on using one that has been replaced, and \<open>px_current\<close> is \<^verbatim>\<open>input_\<close>. The worker is
  \<open>Run\<close> by program point; while it is in \<open>Open\<close> or \<open>Close\<close> the control thread of that connection runs.
  \<open>px_cancels\<close> are the connections that calls of \<open>RequestStop\<close> have picked and not yet cancelled.

  Histories: what reads returned, with the connection it came from and its description; the outcome of
  every attempt; the states the observer was given.
\<close>

section \<open>State\<close>

datatype proxy_state = PS_stopped | PS_connecting | PS_connected | PS_waiting | PS_ended | PS_failed

definition Terminal :: "proxy_state \<Rightarrow> bool" where
  "Terminal st \<longleftrightarrow> st = PS_stopped \<or> st = PS_ended \<or> st = PS_failed"

text \<open>Seconds to wait before the given retry, counted from 1.\<close>

definition RetryDelay :: "nat \<Rightarrow> int" where
  "RetryDelay n = [1, 2, 4, 8] ! min (n - 1) 3"

record proxy_config =
  pc_input :: input_config
  pc_loop :: bool
  pc_max :: int

datatype after_px = A_connecting | A_connected | A_delay | A_done

datatype proxy_point =
    W_none
  | W_loop
  | W_create
  | W_publish proxy_state nat int "exn option" after_px
  | W_observe proxy_state after_px
  | W_wake after_px
  | W_connecting
  | W_open
  | W_opening
  | W_describe
  | W_opened
  | W_avail
  | W_wait
  | W_retire input_status
  | W_close input_status
  | W_closing input_status
  | W_after input_status
  | W_delay
  | W_caught exn
  | W_final
  | W_done

datatype consumer_point =
    Y_idle
  | Y_begin bool bool
  | Y_input nat "input_info option" bool bool
  | Y_pop nat "input_info option" bool bool
  | Y_check nat "input_info option" bool bool
  | Y_eof nat "input_info option"
  | Y_again nat bool

record proxy_answer =
  pa_input :: nat
  pa_packet :: "av_packet option"
  pa_info :: "input_info option"

record 'd proxy =
  px_config :: proxy_config
  px_stopping :: bool
  px_available :: bool
  px_changed :: bool
  px_state :: proxy_state
  px_retries :: nat
  px_delay :: int
  px_error :: "exn option"
  px_info :: "input_info option"
  px_terminal :: "input_status option"
  px_current :: "nat option"
  px_inputs :: "'d input list"
  px_url :: string
  px_thread :: bool
  px_point :: proxy_point
  px_count :: nat
  px_consumer :: consumer_point
  px_cancels :: "nat list"
  ph_answers :: "proxy_answer list"
  ph_attempts :: "(bool \<times> input_state) list"
  ph_states :: "proxy_state list"

definition AvInputProxy_new :: "proxy_config \<Rightarrow> 'd proxy result" where
  "AvInputProxy_new c =
     (if pc_max c < - 1 then Inl Invalid_argument
      else chain (AvInput_new (pc_input c) :: 'd input result) (\<lambda>_.
        Inr \<lparr>px_config = c, px_stopping = False, px_available = False, px_changed = False, px_state = PS_stopped,
          px_retries = 0, px_delay = 0, px_error = None, px_info = None, px_terminal = None, px_current = None,
          px_inputs = [], px_url = [], px_thread = False, px_point = W_none, px_count = 0, px_consumer = Y_idle,
          px_cancels = [], ph_answers = [], ph_attempts = [], ph_states = []\<rparr>))"

definition on_input :: "nat \<Rightarrow> ('d input \<Rightarrow> 'd input) \<Rightarrow> 'd proxy \<Rightarrow> 'd proxy" where
  "on_input i f s = s\<lparr>px_inputs := (px_inputs s)[i := f (px_inputs s ! i)]\<rparr>"

text \<open>\<open>Start\<close>; \<open>created\<close> tells whether the operating system creates the worker.\<close>

definition Start_px :: "bool \<Rightarrow> string \<Rightarrow> 'd proxy \<Rightarrow> bool \<times> 'd proxy" where
  "Start_px created url s =
     (if bad_address url then (False, s)
      else if px_thread s then (False, s)
      else
        let s = s\<lparr>px_url := url, px_stopping := False, px_available := False, px_changed := False,
                  px_state := PS_connecting, px_retries := 0, px_delay := 0, px_error := None, px_info := None,
                  px_terminal := None\<rparr>
        in if created then (True, s\<lparr>px_thread := True, px_point := W_loop, px_count := 0, ph_attempts := [], ph_states := []\<rparr>)
           else (False, s\<lparr>px_stopping := True, px_state := PS_stopped, px_url := []\<rparr>))"

section \<open>Notifications of a connection\<close>

definition InputChanged :: "nat \<Rightarrow> input_status \<Rightarrow> 'd proxy \<Rightarrow> 'd proxy" where
  "InputChanged i st s =
     (if px_current s \<noteq> Some i then s
      else
        let s = (if px_terminal s = None \<and> (is_state st = IS_failed \<or> is_state st = IS_cancelled)
                 then s\<lparr>px_terminal := Some st\<rparr> else s)
        in if px_stopping s \<and> is_state st = IS_opening then on_input i cancel_flag s else s)"

text \<open>A step of the worker or of the control thread of a connection, with the observer it calls.\<close>

definition step_input_worker :: "'d demux_lib \<Rightarrow> int \<Rightarrow> nat \<Rightarrow> 'd proxy \<Rightarrow> 'd proxy" where
  "step_input_worker D now i s =
     (let t = on_input i (worker_in D now) s in
      case iv_point (px_inputs s ! i) of I_call st \<Rightarrow> InputChanged i st t | _ \<Rightarrow> t)"

definition step_input_control :: "'d demux_lib \<Rightarrow> bool \<Rightarrow> int \<Rightarrow> nat \<Rightarrow> 'd proxy \<Rightarrow> 'd proxy" where
  "step_input_control D started now i s =
     (let t = on_input i (control_in D started now) s in
      case iv_control (px_inputs s ! i) of C_call st k \<Rightarrow> InputChanged i st t | _ \<Rightarrow> t)"

section \<open>The worker\<close>

definition Retire_available :: "input_status \<Rightarrow> 'd proxy \<Rightarrow> 'd proxy" where
  "Retire_available st s = s\<lparr>px_available := False, px_point := W_close st\<rparr>"

text \<open>\<open>Publish\<close>: the status under the mutex, the observer, and the mark for the reader.\<close>

definition publish_px :: "proxy_state \<Rightarrow> nat \<Rightarrow> int \<Rightarrow> exn option \<Rightarrow> after_px \<Rightarrow> 'd proxy \<Rightarrow> 'd proxy" where
  "publish_px st n d e k s =
     s\<lparr>px_state := st, px_retries := n, px_delay := d, px_error := e, px_point := W_observe st k\<rparr>"

definition observe_px :: "proxy_state \<Rightarrow> after_px \<Rightarrow> 'd proxy \<Rightarrow> 'd proxy" where
  "observe_px st k s = s\<lparr>ph_states := ph_states s @ [st], px_point := W_wake k\<rparr>"

definition wake_px :: "after_px \<Rightarrow> 'd proxy \<Rightarrow> 'd proxy" where
  "wake_px k s =
     s\<lparr>px_changed := True, px_point := (case k of A_connecting \<Rightarrow> W_connecting | A_connected \<Rightarrow> W_avail
        | A_delay \<Rightarrow> W_delay | A_done \<Rightarrow> W_done)\<rparr>"

declare publish_px_def [simp] observe_px_def [simp] wake_px_def [simp]

text \<open>What follows an attempt, the connection being closed and released.\<close>

definition after_attempt :: "input_status \<Rightarrow> 'd proxy \<Rightarrow> 'd proxy" where
  "after_attempt st s =
     (if px_stopping s then s\<lparr>px_point := W_final\<rparr>
      else if is_state st = IS_ended then
        (if pc_loop (px_config s) then s\<lparr>px_point := W_loop\<rparr>
         else s\<lparr>px_point := W_publish PS_ended 0 0 None A_done\<rparr>)
      else if is_state st = IS_failed then
        (if 0 \<le> pc_max (px_config s) \<and> nat (pc_max (px_config s)) \<le> px_count s
         then s\<lparr>px_point := W_publish PS_failed (px_count s) 0 (is_error st) A_done\<rparr>
         else s\<lparr>px_count := px_count s + 1,
                px_point := W_publish PS_waiting (px_count s + 1) (RetryDelay (px_count s + 1)) (is_error st) A_delay\<rparr>)
      else s\<lparr>px_point := W_final\<rparr>)"

definition worker_px :: "'d proxy \<Rightarrow> 'd proxy" where
  "worker_px s =
     (case px_point s of
        W_loop \<Rightarrow> s\<lparr>px_point := (if px_stopping s then W_final else W_create)\<rparr>
      | W_create \<Rightarrow>
          (case AvInput_new (pc_input (px_config s)) of
             Inl e \<Rightarrow> s\<lparr>px_point := W_caught e\<rparr>
           | Inr i \<Rightarrow> s\<lparr>px_inputs := px_inputs s @ [i], px_current := Some (length (px_inputs s)), px_info := None,
                        px_terminal := None,
                        px_point := W_publish PS_connecting (px_count s) 0 None A_connecting\<rparr>)
      | W_publish st n d e k \<Rightarrow> publish_px st n d e k s
      | W_observe st k \<Rightarrow> observe_px st k s
      | W_wake k \<Rightarrow> wake_px k s
      | W_connecting \<Rightarrow> s\<lparr>px_point := (if px_stopping s then W_retire (status_of IS_closed) else W_open)\<rparr>
      | W_open \<Rightarrow>
          (case px_current s of
             None \<Rightarrow> s\<lparr>px_point := W_caught Undefined_behaviour\<rparr>
           | Some i \<Rightarrow>
               (case begin_open (px_url s) (px_inputs s ! i) of
                  (None, t) \<Rightarrow> (on_input i (\<lambda>_. t) s)\<lparr>px_point := W_opening\<rparr>
                | (Some e, t) \<Rightarrow> (on_input i (\<lambda>_. t) s)\<lparr>ph_attempts := ph_attempts s @ [(False, IS_failed)],
                    px_point := W_retire \<lparr>is_state = IS_failed, is_error = Some e\<rparr>\<rparr>))
      | W_opening \<Rightarrow>
          (case px_current s of
             None \<Rightarrow> s\<lparr>px_point := W_caught Undefined_behaviour\<rparr>
           | Some i \<Rightarrow>
               (case iv_control (px_inputs s ! i) of
                  C_return (Some e) \<Rightarrow> (on_input i end_call s)\<lparr>ph_attempts := ph_attempts s @ [(False, IS_failed)],
                    px_point := W_retire \<lparr>is_state = IS_failed, is_error = Some e\<rparr>\<rparr>
                | C_return None \<Rightarrow> (on_input i end_call s)\<lparr>px_point := W_describe\<rparr>
                | _ \<Rightarrow> s))
      | W_describe \<Rightarrow>
          s\<lparr>px_info := map_option (\<lambda>i. iv_info (px_inputs s ! i)) (px_current s), px_count := 0, px_point := W_opened\<rparr>
      | W_opened \<Rightarrow>
          s\<lparr>px_point := (if px_stopping s then W_avail else W_publish PS_connected 0 0 None A_connected)\<rparr>
      | W_avail \<Rightarrow> s\<lparr>px_available := \<not> px_stopping s, px_point := W_wait\<rparr>
      | W_wait \<Rightarrow>
          (let st = (if px_stopping s then status_of IS_closed
                     else case px_terminal s of None \<Rightarrow> status_of IS_closed | Some st \<Rightarrow> st)
           in s\<lparr>ph_attempts := ph_attempts s @ [(True, is_state st)], px_point := W_retire st\<rparr>)
      | W_retire st \<Rightarrow> Retire_available st s
      | W_close st \<Rightarrow>
          (case px_current s of
             None \<Rightarrow> s\<lparr>px_point := W_caught Undefined_behaviour\<rparr>
           | Some i \<Rightarrow> (on_input i begin_close s)\<lparr>px_point := W_closing st\<rparr>)
      | W_closing st \<Rightarrow> s\<lparr>px_current := None, px_point := W_after st\<rparr>
      | W_after st \<Rightarrow> after_attempt st s
      | W_delay \<Rightarrow> s\<lparr>px_point := (if px_stopping s then W_final else W_loop)\<rparr>
      | W_caught e \<Rightarrow>
          s\<lparr>px_point := (if px_stopping s then W_final else W_publish PS_failed (px_count s) 0 (Some e) A_done)\<rparr>
      | W_final \<Rightarrow> s\<lparr>px_point := W_publish PS_stopped 0 0 None A_done\<rparr>
      | _ \<Rightarrow> s)"

text \<open>The worker waits in \<open>Open\<close>, in \<open>Close\<close>, and for the end of the connection; the delay may always elapse.\<close>

definition proxy_ready :: "'d proxy \<Rightarrow> bool" where
  "proxy_ready s =
     (case px_point s of
        W_none \<Rightarrow> False
      | W_done \<Rightarrow> False
      | W_opening \<Rightarrow> (case px_current s of None \<Rightarrow> True
          | Some i \<Rightarrow> (case iv_control (px_inputs s ! i) of C_return r \<Rightarrow> True | _ \<Rightarrow> False))
      | W_closing st \<Rightarrow> (case px_current s of None \<Rightarrow> True | Some i \<Rightarrow> iv_control (px_inputs s ! i) = C_idle)
      | W_wait \<Rightarrow> px_stopping s \<or> px_terminal s \<noteq> None
      | _ \<Rightarrow> True)"

section \<open>The consumer\<close>

text \<open>\<open>ReadPacket(wait, on_change)\<close>; the first section, entered when it need not wait.\<close>

definition source_over :: "'d proxy \<Rightarrow> bool" where
  "source_over s \<longleftrightarrow> \<not> pc_loop (px_config s) \<and>
     (case px_terminal s of None \<Rightarrow> False | Some st \<Rightarrow> is_state st = IS_ended)"

definition read_ready :: "bool \<Rightarrow> 'd proxy \<Rightarrow> bool" where
  "read_ready on_change s \<longleftrightarrow>
     px_stopping s \<or> px_available s \<or> Terminal (px_state s) \<or> on_change \<and> px_changed s \<or> source_over s"

definition read_first :: "bool \<Rightarrow> bool \<Rightarrow> 'd proxy \<Rightarrow> read_answer option \<times> 'd proxy" where
  "read_first wait on_change s =
     (if on_change \<and> px_changed s then (Some R_null, s\<lparr>px_changed := False, px_consumer := Y_idle\<rparr>)
      else if px_stopping s \<or> px_state s = PS_stopped \<or> px_state s = PS_failed
      then (Some R_null, s\<lparr>px_consumer := Y_idle\<rparr>)
      else if px_state s = PS_ended \<or> source_over s then (Some R_eof, s\<lparr>px_consumer := Y_idle\<rparr>)
      else if \<not> px_available s then (Some R_null, s\<lparr>px_consumer := Y_idle\<rparr>)
      else case px_current s of
        None \<Rightarrow> (Some R_null, s\<lparr>px_consumer := Y_idle\<rparr>)
      | Some i \<Rightarrow> (None, s\<lparr>px_consumer := Y_input i (px_info s) wait on_change\<rparr>))"

text \<open>The rest, as the sections of the connection's \<open>ReadPacket\<close> and what the proxy makes of its result.\<close>

definition no_packet :: "nat \<Rightarrow> bool \<Rightarrow> bool \<Rightarrow> 'd proxy \<Rightarrow> 'd proxy" where
  "no_packet i wait on_change s = s\<lparr>px_consumer := (if wait then Y_again i on_change else Y_idle)\<rparr>"

definition consume_px :: "'d proxy \<Rightarrow> 'd proxy" where
  "consume_px s =
     (case px_consumer s of
        Y_begin wait on_change \<Rightarrow> snd (read_first wait on_change s)
      | Y_input i d wait on_change \<Rightarrow>
          (let t = on_input i (read_enter wait) s in
           if iv_reader (px_inputs t ! i) = X_idle then no_packet i wait on_change t
           else t\<lparr>px_consumer := Y_pop i d wait on_change\<rparr>)
      | Y_pop i d wait on_change \<Rightarrow> (on_input i read_take s)\<lparr>px_consumer := Y_check i d wait on_change\<rparr>
      | Y_check i d wait on_change \<Rightarrow>
          (case iv_reader (px_inputs s ! i) of
             X_check x \<Rightarrow>
               (case read_finish x (px_inputs s ! i) of
                  (R_packet p, t) \<Rightarrow> (on_input i (\<lambda>_. t) s)\<lparr>px_consumer := Y_idle,
                     ph_answers := ph_answers s @ [\<lparr>pa_input = i, pa_packet = Some p, pa_info = d\<rparr>]\<rparr>
                | (R_eof, t) \<Rightarrow> (on_input i (\<lambda>_. t) s)\<lparr>px_consumer := Y_eof i d\<rparr>
                | (R_null, t) \<Rightarrow> no_packet i wait on_change (on_input i (\<lambda>_. t) s))
           | _ \<Rightarrow> s)
      | Y_eof i d \<Rightarrow>
          (let t = (if \<not> px_stopping s \<and> px_current s = Some i \<and> px_terminal s = None
                    then s\<lparr>px_terminal := Some (status_of IS_ended),
                           px_available := (px_available s \<and> \<not> pc_loop (px_config s))\<rparr>
                    else s)
           in t\<lparr>px_consumer := Y_idle, ph_answers := ph_answers s @ [\<lparr>pa_input = i, pa_packet = None, pa_info = d\<rparr>]\<rparr>)
      | Y_again i on_change \<Rightarrow> s\<lparr>px_consumer := Y_begin True on_change\<rparr>
      | Y_idle \<Rightarrow> s)"

definition consumer_ready :: "'d proxy \<Rightarrow> bool" where
  "consumer_ready s =
     (case px_consumer s of
        Y_idle \<Rightarrow> False
      | Y_begin wait on_change \<Rightarrow> wait \<longrightarrow> read_ready on_change s
      | Y_pop i d wait on_change \<Rightarrow> wait \<longrightarrow> pop_ready (iv_queue (px_inputs s ! i))
      | Y_again i on_change \<Rightarrow>
          px_stopping s \<or> Terminal (px_state s) \<or> on_change \<and> px_changed s \<or> px_available s \<and> px_current s \<noteq> Some i
      | _ \<Rightarrow> True)"

section \<open>Stopping\<close>

definition stop_flag :: "'d proxy \<Rightarrow> 'd proxy" where
  "stop_flag s =
     s\<lparr>px_stopping := True,
       px_cancels := (case px_current s of None \<Rightarrow> px_cancels s | Some i \<Rightarrow> i # px_cancels s)\<rparr>"

definition stop_cancel :: "nat \<Rightarrow> 'd proxy \<Rightarrow> 'd proxy" where
  "stop_cancel i s = (on_input i cancel_flag s)\<lparr>px_cancels := remove1 i (px_cancels s)\<rparr>"

definition stop_join :: "'d proxy \<Rightarrow> 'd proxy" where
  "stop_join s = s\<lparr>px_thread := False, px_point := W_none\<rparr>"

section \<open>Interleavings\<close>

inductive proxying :: "'d demux_lib \<Rightarrow> 'd proxy \<Rightarrow> 'd proxy \<Rightarrow> bool" for D :: "'d demux_lib" where
  worker: "proxy_ready s \<Longrightarrow> proxying D s (worker_px s)"
| input_worker: "i < length (px_inputs s) \<Longrightarrow> input_ready (px_inputs s ! i) \<Longrightarrow>
    proxying D s (step_input_worker D now i s)"
| input_control: "i < length (px_inputs s) \<Longrightarrow> control_ready (px_inputs s ! i) \<Longrightarrow>
    proxying D s (step_input_control D started now i s)"
| input_cancel: "i < length (px_inputs s) \<Longrightarrow> iv_cancelled (px_inputs s ! i) \<Longrightarrow>
    proxying D s (on_input i cancel_queue s)"
| read_call: "px_consumer s = Y_idle \<Longrightarrow> proxying D s (s\<lparr>px_consumer := Y_begin wait on_change\<rparr>)"
| consumer: "consumer_ready s \<Longrightarrow> proxying D s (consume_px s)"
| stop_flag: "proxying D s (stop_flag s)"
| stop_cancel: "i \<in> set (px_cancels s) \<Longrightarrow> proxying D s (stop_cancel i s)"
| stop_join: "px_stopping s \<Longrightarrow> px_point s = W_done \<Longrightarrow> proxying D s (stop_join s)"
| start: "px_consumer s = Y_idle \<Longrightarrow> px_cancels s = [] \<Longrightarrow> proxying D s (snd (Start_px created url s))"

definition proxy_runs :: "'d demux_lib \<Rightarrow> 'd proxy \<Rightarrow> bool" where
  "proxy_runs D t \<longleftrightarrow> (\<exists>c s. AvInputProxy_new c = Inr s \<and> (proxying D)\<^sup>*\<^sup>* s t)"

end
