(* ===== verification/Media_Source.thy ===== *)
theory Media_Source
  imports Input_Proxy
begin

text \<open>
  \<^verbatim>\<open>input/av_media_source.cc\<close>: a proxy, one decoder per selected track, and the worker that passes packets
  from the one to the others. The proxy is that of \<open>Input_Proxy\<close> and the decoders are those of \<open>Decoder\<close>, with
  all their threads.

  The worker is \<open>Run\<close> by program point; a point may carry the point at which it goes on. Its local variables are
  fields (\<open>ms_observed\<close>, \<open>ms_progress\<close>, \<open>ms_batch\<close>, \<open>ms_result\<close>, \<open>ms_local\<close>, \<open>ms_ended\<close>). \<open>True\<close> stands for the video
  track. What other threads still have to do in calls of the source is in \<open>ms_helpers\<close>, by thread: callers of
  \<open>RequestStop\<close>, the observer of the proxy, the error callbacks of the decoders. A description shared by pointer
  is a pair of the connection it describes and its value. Read signals, which wake the consumer, and log
  messages are left out.

  Histories: the results of reads of the proxy and the states given to the observer, since the last start.
\<close>

section \<open>State\<close>

type_synonym description = "nat \<times> input_info"

record proxy_event =
  pe_state :: proxy_state
  pe_retries :: nat
  pe_delay :: int
  pe_error :: "exn option"
  pe_info :: "description option"

datatype source_state = ST_stopped | ST_connecting | ST_running | ST_waiting | ST_draining | ST_ended | ST_failed

record source_status =
  ss_state :: source_state
  ss_retries :: nat
  ss_delay :: int
  ss_error :: "exn option"
  ss_info :: "description option"

definition no_status :: source_status where
  "no_status = \<lparr>ss_state = ST_stopped, ss_retries = 0, ss_delay = 0, ss_error = None, ss_info = None\<rparr>"

record source_config =
  sc_proxy :: proxy_config
  sc_video :: decoder_config
  sc_audio :: decoder_config
  sc_device :: "hw_device option"

datatype stop_op = Q_flag | Q_packets | Q_frames

datatype action =
    Z_fail exn
  | Z_pick
  | Z_stop bool stop_op
  | Z_proxy
  | Z_join bool
  | Z_discard bool
  | Z_join_proxy
  | Z_reset

datatype owner = Own_caller | Own_observer | Own_track bool

datatype source_point =
    S_none
  | S_start
  | S_publish source_state "proxy_event option" bool source_point
  | S_call source_state source_point
  | S_proxy_check
  | S_proxy
  | S_loop
  | S_revision
  | S_check source_point
  | S_swap
  | S_events
  | S_events_stop
  | S_event
  | S_init "description option" source_point
  | S_session source_point
  | S_over
  | S_drained
  | S_read
  | S_reading
  | S_observer
  | S_dispatch
  | S_described
  | S_submitted
  | S_push bool dec_input source_point
  | S_queue bool dec_input source_point
  | S_mark bool dec_input source_point
  | S_refused bool
  | S_turn bool
  | S_wait
  | S_throw exn
  | S_acts "action list" source_point
  | S_finish
  | S_cleanup
  | S_report
  | S_done

datatype ms_reader = G_idle | G_call | G_busy | G_mark

record ('d, 'c) source =
  ms_config :: source_config
  ms_proxy :: "'d proxy"
  ms_revision :: "64 word"
  ms_stopping :: bool
  ms_failure :: "exn option"
  ms_status :: source_status
  ms_events :: "proxy_event list"
  ms_session :: bool
  ms_eofs :: "bool \<Rightarrow> bool"
  ms_final :: bool
  ms_url :: string
  ms_thread :: bool
  ms_description :: input_info
  ms_dispatched :: "nat option"
  ms_decoders :: "bool \<Rightarrow> 'c decoder option"
  ms_point :: source_point
  ms_observed :: "64 word"
  ms_progress :: bool
  ms_batch :: "proxy_event list"
  ms_result :: "read_answer \<times> description option"
  ms_local :: bool
  ms_ended :: bool
  ms_readers :: "bool \<Rightarrow> ms_reader"
  ms_helpers :: "(owner \<times> action list) list"
  mh_taken :: "(read_answer \<times> description option) list"
  mh_states :: "source_state list"

definition ValidateDecoderConfig :: "decoder_config \<Rightarrow> unit result" where
  "ValidateDecoderConfig c =
     (if dn_packet_capacity c = 0 \<or> dn_frame_capacity c = 0 \<or> dn_thread_count c < 0 \<or> CHR 0x00 \<in> set (dn_name c)
      then Inl Invalid_argument else Inr ())"

definition AvMediaSource_new :: "source_config \<Rightarrow> ('d, 'c) source result" where
  "AvMediaSource_new c =
     chain (AvInputProxy_new (sc_proxy c)) (\<lambda>p.
     chain (ValidateDecoderConfig (sc_video c)) (\<lambda>_.
     chain (ValidateDecoderConfig (sc_audio c)) (\<lambda>_.
     Inr \<lparr>ms_config = c, ms_proxy = p, ms_revision = 0, ms_stopping = False, ms_failure = None, ms_status = no_status,
       ms_events = [], ms_session = False, ms_eofs = (\<lambda>_. False), ms_final = False, ms_url = [], ms_thread = False,
       ms_description = empty_info, ms_dispatched = None, ms_decoders = (\<lambda>_. None), ms_point = S_none, ms_observed = 0,
       ms_progress = False, ms_batch = [], ms_result = (R_null, None), ms_local = False, ms_ended = False,
       ms_readers = (\<lambda>_. G_idle), ms_helpers = [], mh_taken = [], mh_states = []\<rparr>)))"

definition on_proxy :: "('d proxy \<Rightarrow> 'd proxy) \<Rightarrow> ('d, 'c) source \<Rightarrow> ('d, 'c) source" where
  "on_proxy f s = s\<lparr>ms_proxy := f (ms_proxy s)\<rparr>"

definition on_decoder :: "bool \<Rightarrow> ('c decoder \<Rightarrow> 'c decoder) \<Rightarrow> ('d, 'c) source \<Rightarrow> ('d, 'c) source" where
  "on_decoder v f s = s\<lparr>ms_decoders := (ms_decoders s)(v := map_option f (ms_decoders s v))\<rparr>"

definition set_reader :: "bool \<Rightarrow> ms_reader \<Rightarrow> ('d, 'c) source \<Rightarrow> ('d, 'c) source" where
  "set_reader v g s = s\<lparr>ms_readers := (ms_readers s)(v := g)\<rparr>"

text \<open>
  \<open>Start\<close>; \<open>created\<close> tells whether the operating system creates the worker. The last session is gone by then.
\<close>

definition Start_ms :: "bool \<Rightarrow> string \<Rightarrow> ('d, 'c) source \<Rightarrow> bool \<times> ('d, 'c) source" where
  "Start_ms created url s =
     (if bad_address url then (False, s)
      else if ms_thread s then (False, s)
      else
        let s = s\<lparr>ms_url := url, ms_stopping := False, ms_failure := None,
                  ms_status := no_status\<lparr>ss_state := ST_connecting\<rparr>, ms_events := [], ms_eofs := (\<lambda>_. False),
                  ms_final := False, ms_decoders := (\<lambda>_. None)\<rparr>
        in if created
           then (True, s\<lparr>ms_thread := True, ms_point := S_start, ms_local := False, ms_ended := False, mh_taken := [],
                         mh_states := []\<rparr>)
           else (False, s\<lparr>ms_stopping := True, ms_failure := None, ms_status := no_status, ms_events := [],
                          ms_eofs := (\<lambda>_. False), ms_final := False, ms_url := []\<rparr>))"

section \<open>Status\<close>

definition closing_state :: "source_state \<Rightarrow> bool" where
  "closing_state st \<longleftrightarrow> st = ST_failed \<or> st = ST_stopped \<or> st = ST_ended"

definition next_status :: "source_state \<Rightarrow> proxy_event option \<Rightarrow> ('d, 'c) source \<Rightarrow> source_status" where
  "next_status st c s =
     (let n = (ms_status s)\<lparr>ss_state := st\<rparr> in
      case c of
        Some c \<Rightarrow> n\<lparr>ss_retries := pe_retries c, ss_delay := pe_delay c, ss_error := pe_error c, ss_info := pe_info c\<rparr>
      | None \<Rightarrow> if st = ST_failed then n\<lparr>ss_error := ms_failure s\<rparr>
                else n\<lparr>ss_error := None, ss_retries := 0, ss_delay := 0\<rparr>)"

text \<open>\<open>Publish\<close> up to the observer's call. Exceptions are compared by kind.\<close>

definition Publish_ms :: "source_state \<Rightarrow> proxy_event option \<Rightarrow> bool \<Rightarrow> source_point \<Rightarrow> ('d, 'c) source \<Rightarrow> ('d, 'c) source" where
  "Publish_ms st c force k s =
     (if (ms_stopping s \<or> ms_failure s \<noteq> None) \<and> \<not> closing_state st then s\<lparr>ms_point := k\<rparr>
      else if \<not> force \<and> next_status st c s = ms_status s then s\<lparr>ms_point := k\<rparr>
      else s\<lparr>ms_status := next_status st c s, ms_point := S_call st k\<rparr>)"

text \<open>What the observer of the proxy does in the source.\<close>

definition event_of :: "proxy_state \<Rightarrow> 'd proxy \<Rightarrow> proxy_event" where
  "event_of st p = \<lparr>pe_state = st, pe_retries = px_retries p, pe_delay = px_delay p, pe_error = px_error p,
     pe_info = map_option (\<lambda>d. (length (px_inputs p) - 1, d)) (px_info p)\<rparr>"

definition ProxyChanged :: "proxy_event \<Rightarrow> ('d, 'c) source \<Rightarrow> ('d, 'c) source" where
  "ProxyChanged e s =
     s\<lparr>ms_failure := (if pe_state e = PS_failed \<and> ms_failure s = None then pe_error e else ms_failure s),
       ms_events := ms_events s @ [e], ms_revision := ms_revision s + 1,
       ms_helpers := ms_helpers s @ (if pe_state e = PS_failed then [(Own_observer, [Z_pick])] else [])\<rparr>"

section \<open>Sessions\<close>

definition FindStream :: "input_info \<Rightarrow> int \<Rightarrow> media_stream option result" where
  "FindStream d i =
     (if i < 0 then Inr None
      else case find (\<lambda>s. si_index s = i) (ii_streams d) of None \<Rightarrow> Inl Invalid_argument | Some s \<Rightarrow> Inr (Some s))"

definition same_setup :: "media_stream \<Rightarrow> media_stream \<Rightarrow> bool" where
  "same_setup p c \<longleftrightarrow> me_profile p = me_profile c \<and> me_level p = me_level c \<and> si_extradata_size p = si_extradata_size c \<and>
     (0 < si_extradata_size p \<longrightarrow>
        take (nat (si_extradata_size p)) (cs_extradata p) = take (nat (si_extradata_size p)) (cs_extradata c))"

definition validate_track :: "av_lib \<Rightarrow> input_info \<Rightarrow> input_info \<Rightarrow> int \<Rightarrow> unit result" where
  "validate_track L original d i =
     (if i < 0 then Inr ()
      else
        chain (FindStream original i) (\<lambda>p. chain (deref p) (\<lambda>p.
        chain (FindStream d i) (\<lambda>c. chain (deref c) (\<lambda>c.
        if \<not> stream_equal L p c then Inl Invalid_argument
        else if \<not> si_parameters p \<or> \<not> si_parameters c then Inl Undefined_behaviour
        else if \<not> same_setup p c then Inl Invalid_argument else Inr ())))))"

definition ValidateTracks :: "av_lib \<Rightarrow> input_info \<Rightarrow> input_info \<Rightarrow> unit result" where
  "ValidateTracks L original d =
     (if ii_video original \<noteq> ii_video d \<or> ii_audio original \<noteq> ii_audio d then Inl Invalid_argument
      else chain (validate_track L original d (ii_video d)) (\<lambda>_. validate_track L original d (ii_audio d)))"

text \<open>The decoders of a new session; \<open>created\<close> tells for which the operating system creates the worker.\<close>

definition make_decoder :: "'c codec_lib \<Rightarrow> bool \<Rightarrow> decoder_config \<Rightarrow> hw_device option \<Rightarrow> media_stream option \<Rightarrow>
    'c decoder option result" where
  "make_decoder C created c device st =
     (case st of
        None \<Rightarrow> Inr None
      | Some st \<Rightarrow> chain (AvDecoder_new C created (decoder_stream.truncate st) c device) (\<lambda>d. Inr (Some (SetOnError_dec True d))))"

definition make_session :: "'c codec_lib \<Rightarrow> (bool \<Rightarrow> bool) \<Rightarrow> source_config \<Rightarrow> input_info \<Rightarrow> (bool \<Rightarrow> 'c decoder option) result" where
  "make_session C created c d =
     chain (FindStream d (ii_video d)) (\<lambda>st.
     chain (make_decoder C (created True) (sc_video c) (sc_device c) st) (\<lambda>video.
     chain (FindStream d (ii_audio d)) (\<lambda>st.
     chain (make_decoder C (created False) (sc_audio c) None st) (\<lambda>audio.
     if video = None \<and> audio = None then Inl Invalid_argument
     else Inr (\<lambda>v. if v then video else audio)))))"

definition present :: "(bool \<Rightarrow> 'c decoder option) \<Rightarrow> bool list" where
  "present ds = filter (\<lambda>v. ds v \<noteq> None) [True, False]"

definition stop_track :: "bool \<Rightarrow> action list" where
  "stop_track v = [Z_stop v Q_flag, Z_stop v Q_packets, Z_stop v Q_frames]"

definition stop_session :: "(bool \<Rightarrow> 'c decoder option) \<Rightarrow> action list" where
  "stop_session ds = concat (map stop_track (present ds))"

definition close_session :: "(bool \<Rightarrow> 'c decoder option) \<Rightarrow> action list" where
  "close_session ds = concat (map (\<lambda>v. stop_track v @ [Z_join v, Z_discard v]) (present ds))"

text \<open>\<open>Initialize\<close>, up to the publication of a new session.\<close>

definition Initialize_ms :: "av_lib \<Rightarrow> 'c codec_lib \<Rightarrow> (bool \<Rightarrow> bool) \<Rightarrow> description option \<Rightarrow> source_point \<Rightarrow>
    ('d, 'c) source \<Rightarrow> ('d, 'c) source" where
  "Initialize_ms L C created d k s =
     (case d of
        None \<Rightarrow> s\<lparr>ms_point := S_throw Logic_error\<rparr>
      | Some (i, info) \<Rightarrow>
          if ms_local s then
            (case ValidateTracks L (ms_description s) info of
               Inl e \<Rightarrow> s\<lparr>ms_point := S_throw e\<rparr>
             | Inr _ \<Rightarrow> s\<lparr>ms_point := k\<rparr>)
          else
            (case make_session C created (ms_config s) info of
               Inl e \<Rightarrow> s\<lparr>ms_point := S_throw e\<rparr>
             | Inr ds \<Rightarrow> s\<lparr>ms_decoders := ds, ms_description := info, ms_dispatched := None, ms_local := True,
                           ms_point := S_session k\<rparr>))"

definition publish_session :: "source_point \<Rightarrow> ('d, 'c) source \<Rightarrow> ('d, 'c) source" where
  "publish_session k s =
     s\<lparr>ms_session := True,
       ms_point := (if ms_stopping s \<or> ms_failure s \<noteq> None then S_acts (stop_session (ms_decoders s)) k else k)\<rparr>"

section \<open>Calls on the parts\<close>

definition stop_part :: "stop_op \<Rightarrow> 'c decoder \<Rightarrow> 'c decoder" where
  "stop_part q = (case q of Q_flag \<Rightarrow> request_stop | Q_packets \<Rightarrow> stop_packets | Q_frames \<Rightarrow> stop_frames)"

definition do_action :: "action \<Rightarrow> ('d, 'c) source \<Rightarrow> action list \<times> ('d, 'c) source" where
  "do_action z s =
     (case z of
        Z_fail e \<Rightarrow> ([], s\<lparr>ms_failure := (if ms_failure s = None then Some e else ms_failure s)\<rparr>)
      | Z_pick \<Rightarrow> (if ms_session s then stop_session (ms_decoders s) else [], s)
      | Z_stop v q \<Rightarrow> ([], on_decoder v (stop_part q) s)
      | Z_proxy \<Rightarrow> ([], on_proxy stop_flag s)
      | Z_join v \<Rightarrow> ([], s)
      | Z_discard v \<Rightarrow> ([], on_decoder v stop_discard s)
      | Z_join_proxy \<Rightarrow> ([], on_proxy (\<lambda>p. if px_thread p then stop_join p else p) s)
      | Z_reset \<Rightarrow> ([], s\<lparr>ms_session := False, ms_events := [], ms_local := False\<rparr>))"

definition has_helper :: "owner \<Rightarrow> ('d, 'c) source \<Rightarrow> bool" where
  "has_helper w s \<longleftrightarrow> list_ex (\<lambda>h. fst h = w) (ms_helpers s)"

text \<open>Joins wait for a thread and what it still has to do in the source.\<close>

definition action_ready :: "action \<Rightarrow> ('d, 'c) source \<Rightarrow> bool" where
  "action_ready z s =
     (case z of
        Z_join v \<Rightarrow> (case ms_decoders s v of None \<Rightarrow> True | Some d \<Rightarrow> dc_point d = D_done) \<and> \<not> has_helper (Own_track v) s
      | Z_join_proxy \<Rightarrow> (px_thread (ms_proxy s) \<longrightarrow> px_point (ms_proxy s) = W_done) \<and> \<not> has_helper Own_observer s
      | _ \<Rightarrow> True)"

text \<open>What a read of the proxy returns in the step of \<open>consume_px\<close> in which it returns.\<close>

definition read_outcome :: "'d proxy \<Rightarrow> (read_answer \<times> description option) option" where
  "read_outcome p =
     (let current = map_option (\<lambda>d. (length (px_inputs p) - 1, d)) (px_info p) in
      case px_consumer p of
        Y_begin wait on_change \<Rightarrow> map_option (\<lambda>r. (r, current)) (fst (read_first wait on_change p))
      | Y_input i d wait on_change \<Rightarrow>
          if iv_reader (read_enter wait (px_inputs p ! i)) = X_idle \<and> \<not> wait
          then Some (R_null, map_option (Pair i) d) else None
      | Y_check i d wait on_change \<Rightarrow>
          (case iv_reader (px_inputs p ! i) of
             X_check x \<Rightarrow>
               (case fst (read_finish x (px_inputs p ! i)) of
                  R_packet k \<Rightarrow> Some (R_packet k, map_option (Pair i) d)
                | R_eof \<Rightarrow> None
                | R_null \<Rightarrow> if wait then None else Some (R_null, map_option (Pair i) d))
           | _ \<Rightarrow> None)
      | Y_eof i d \<Rightarrow> Some (R_eof, map_option (Pair i) d)
      | _ \<Rightarrow> None)"

text \<open>\<open>SubmitControl\<close>: each present decoder in turn.\<close>

definition submit_all_ms :: "dec_input \<Rightarrow> bool list \<Rightarrow> source_point \<Rightarrow> source_point" where
  "submit_all_ms i vs k = foldr (\<lambda>v. S_push v i) vs k"

definition Drained_ms :: "('d, 'c) source \<Rightarrow> bool" where
  "Drained_ms s \<longleftrightarrow> ms_final s \<and> ms_local s \<and> list_all (ms_eofs s) (present (ms_decoders s))"

section \<open>The worker\<close>

text \<open>What the operating system and the packet observer do in a step.\<close>

record ambience =
  en_thread :: bool
  en_decoder :: "bool \<Rightarrow> bool"
  en_observer :: "exn option"

definition process_event :: "('d, 'c) source \<Rightarrow> ('d, 'c) source" where
  "process_event s =
     (case ms_batch s of
        [] \<Rightarrow> s\<lparr>ms_point := S_events\<rparr>
      | e # es \<Rightarrow>
          let s = s\<lparr>ms_batch := es\<rparr> in
          case pe_state e of
            PS_connecting \<Rightarrow> s\<lparr>ms_point := S_publish ST_connecting (Some e) False S_events\<rparr>
          | PS_connected \<Rightarrow> s\<lparr>ms_status := (ms_status s)\<lparr>ss_info := pe_info e\<rparr>,
              ms_point := S_init (pe_info e) (S_publish ST_running (Some e) False S_events)\<rparr>
          | PS_waiting \<Rightarrow> s\<lparr>ms_point := S_publish ST_waiting (Some e) False S_events\<rparr>
          | PS_failed \<Rightarrow> s\<lparr>ms_point := S_check S_events\<rparr>
          | _ \<Rightarrow> s\<lparr>ms_point := S_events\<rparr>)"

definition read_proxy :: "('d, 'c) source \<Rightarrow> ('d, 'c) source" where
  "read_proxy s =
     (let t = on_proxy consume_px s in
      case read_outcome (ms_proxy s) of
        None \<Rightarrow> t
      | Some (x, d) \<Rightarrow>
          if x = R_null then t\<lparr>ms_point := S_turn False\<rparr>
          else t\<lparr>ms_result := (x, d), mh_taken := mh_taken s @ [(x, d)], ms_point := S_init d S_observer\<rparr>)"

definition dispatch :: "('d, 'c) source \<Rightarrow> ('d, 'c) source" where
  "dispatch s =
     (if ms_stopping s then s\<lparr>ms_point := S_turn False\<rparr>
      else s\<lparr>ms_point :=
        (if ms_dispatched s \<noteq> None \<and> ms_dispatched s \<noteq> map_option fst (snd (ms_result s))
         then submit_all_ms In_reset (present (ms_decoders s)) S_described else S_described)\<rparr>)"

definition packet_track :: "av_packet \<Rightarrow> ('d, 'c) source \<Rightarrow> bool" where
  "packet_track p s \<longleftrightarrow> pk_stream p = ii_video (ms_description s)"

definition submit_result :: "('d, 'c) source \<Rightarrow> ('d, 'c) source" where
  "submit_result s =
     (let s = s\<lparr>ms_dispatched := map_option fst (snd (ms_result s))\<rparr> in
      case fst (ms_result s) of
        R_packet p \<Rightarrow>
          (case ms_decoders s (packet_track p s) of
             None \<Rightarrow> s\<lparr>ms_point := S_throw Logic_error\<rparr>
           | Some d \<Rightarrow>
               (case PushPacket_check (Some p) d of
                  Inl e \<Rightarrow> s\<lparr>ms_point := S_throw e\<rparr>
                | Inr i \<Rightarrow> s\<lparr>ms_point := S_push (packet_track p s) i (S_turn True)\<rparr>))
      | _ \<Rightarrow> s\<lparr>ms_point := submit_all_ms In_eof (present (ms_decoders s)) S_submitted\<rparr>)"

definition begin_push :: "bool \<Rightarrow> dec_input \<Rightarrow> source_point \<Rightarrow> ('d, 'c) source \<Rightarrow> ('d, 'c) source" where
  "begin_push v i k s =
     (case ms_decoders s v of
        None \<Rightarrow> s\<lparr>ms_point := S_throw Undefined_behaviour\<rparr>
      | Some d \<Rightarrow>
          (case Push_dec True i d of
             (Inl e, d) \<Rightarrow> s\<lparr>ms_point := S_throw e\<rparr>
           | (Inr ok, d) \<Rightarrow> s\<lparr>ms_decoders := (ms_decoders s)(v := Some d),
                              ms_point := (if ok then S_queue v i k else S_check (S_refused v))\<rparr>))"

definition queue_push :: "bool \<Rightarrow> dec_input \<Rightarrow> source_point \<Rightarrow> ('d, 'c) source \<Rightarrow> ('d, 'c) source" where
  "queue_push v i k s =
     (let t = on_decoder v (push_queue i) s in
      case ms_decoders t v of
        None \<Rightarrow> t\<lparr>ms_point := S_throw Undefined_behaviour\<rparr>
      | Some d \<Rightarrow> t\<lparr>ms_point := (if dc_producer d = U_idle then S_check (S_refused v) else S_mark v i k)\<rparr>)"

definition refused :: "bool \<Rightarrow> ('d, 'c) source \<Rightarrow> ('d, 'c) source" where
  "refused v s =
     (case ms_decoders s v of
        None \<Rightarrow> s\<lparr>ms_point := S_throw Undefined_behaviour\<rparr>
      | Some d \<Rightarrow> s\<lparr>ms_point := (case dc_error d of Some e \<Rightarrow> S_throw e | None \<Rightarrow> S_turn False)\<rparr>)"

definition after_turn :: "bool \<Rightarrow> ('d, 'c) source \<Rightarrow> source_point" where
  "after_turn b s = (if \<not> (ms_progress s \<or> b) \<and> ms_final s then S_wait else S_loop)"

definition report_state :: "('d, 'c) source \<Rightarrow> source_state" where
  "report_state s = (if ms_failure s \<noteq> None then ST_failed else if ms_ended s then ST_ended else ST_stopped)"

definition worker_ms :: "av_lib \<Rightarrow> 'c codec_lib \<Rightarrow> ambience \<Rightarrow> ('d, 'c) source \<Rightarrow> ('d, 'c) source" where
  "worker_ms L C E s =
     (case ms_point s of
        S_start \<Rightarrow> s\<lparr>ms_point := S_publish ST_connecting None True S_proxy_check\<rparr>
      | S_publish st c force k \<Rightarrow> Publish_ms st c force k s
      | S_call st k \<Rightarrow> s\<lparr>mh_states := mh_states s @ [st], ms_point := k\<rparr>
      | S_proxy_check \<Rightarrow> s\<lparr>ms_point := (if ms_stopping s then S_loop else S_proxy)\<rparr>
      | S_proxy \<Rightarrow>
          (case Start_px (en_thread E) (ms_url s) (ms_proxy s) of
             (ok, p) \<Rightarrow> s\<lparr>ms_proxy := p, ms_point := (if ok then S_loop else S_throw Runtime_error)\<rparr>)
      | S_loop \<Rightarrow> s\<lparr>ms_point := (if ms_stopping s then S_finish else S_revision)\<rparr>
      | S_revision \<Rightarrow> s\<lparr>ms_observed := ms_revision s, ms_point := S_check S_swap\<rparr>
      | S_check k \<Rightarrow> s\<lparr>ms_point := (case ms_failure s of None \<Rightarrow> k | Some e \<Rightarrow> S_throw e)\<rparr>
      | S_swap \<Rightarrow> s\<lparr>ms_batch := ms_events s, ms_events := [], ms_progress := (ms_events s \<noteq> []), ms_point := S_events\<rparr>
      | S_events \<Rightarrow> s\<lparr>ms_point := S_check (if ms_batch s = [] then S_over else S_events_stop)\<rparr>
      | S_events_stop \<Rightarrow> s\<lparr>ms_point := (if ms_stopping s then S_check S_over else S_event)\<rparr>
      | S_event \<Rightarrow> process_event s
      | S_init d k \<Rightarrow> Initialize_ms L C (en_decoder E) d k s
      | S_session k \<Rightarrow> publish_session k s
      | S_over \<Rightarrow> s\<lparr>ms_point := (if ms_stopping s then S_finish else S_drained)\<rparr>
      | S_drained \<Rightarrow>
          if Drained_ms s then s\<lparr>ms_ended := True, ms_point := S_finish\<rparr>
          else if ms_final s then s\<lparr>ms_point := after_turn False s\<rparr>
          else s\<lparr>ms_point := S_read\<rparr>
      | S_read \<Rightarrow> on_proxy (\<lambda>p. p\<lparr>px_consumer := Y_begin True True\<rparr>) (s\<lparr>ms_point := S_reading\<rparr>)
      | S_reading \<Rightarrow> read_proxy s
      | S_observer \<Rightarrow>
          s\<lparr>ms_point := (case fst (ms_result s) of
               R_packet p \<Rightarrow> (case en_observer E of Some e \<Rightarrow> S_throw e | None \<Rightarrow> S_check S_dispatch)
             | _ \<Rightarrow> S_check S_dispatch)\<rparr>
      | S_dispatch \<Rightarrow> dispatch s
      | S_described \<Rightarrow> submit_result s
      | S_submitted \<Rightarrow>
          if pc_loop (sc_proxy (ms_config s)) then s\<lparr>ms_point := S_turn True\<rparr>
          else s\<lparr>ms_final := True, ms_point := S_publish ST_draining None False (S_turn True)\<rparr>
      | S_push v i k \<Rightarrow> begin_push v i k s
      | S_queue v i k \<Rightarrow> queue_push v i k s
      | S_mark v i k \<Rightarrow> on_decoder v (push_mark i) (s\<lparr>ms_point := k\<rparr>)
      | S_refused v \<Rightarrow> refused v s
      | S_turn b \<Rightarrow> s\<lparr>ms_progress := ms_progress s \<or> b, ms_point := after_turn b s\<rparr>
      | S_wait \<Rightarrow> s\<lparr>ms_point := S_loop\<rparr>
      | S_throw e \<Rightarrow> s\<lparr>ms_point := S_acts [Z_fail e, Z_pick, Z_proxy] S_finish\<rparr>
      | S_acts zs k \<Rightarrow>
          (case zs of
             [] \<Rightarrow> s\<lparr>ms_point := k\<rparr>
           | z # zs \<Rightarrow> (case do_action z s of (new, t) \<Rightarrow> t\<lparr>ms_point := S_acts (new @ zs) k\<rparr>))
      | S_finish \<Rightarrow> s\<lparr>ms_point := (if ms_failure s \<noteq> None then S_publish ST_failed None False S_cleanup else S_cleanup)\<rparr>
      | S_cleanup \<Rightarrow>
          s\<lparr>ms_point := S_acts (Z_proxy # (if ms_local s then close_session (ms_decoders s) else []) @
              [Z_proxy, Z_join_proxy, Z_reset]) S_report\<rparr>
      | S_report \<Rightarrow> s\<lparr>ms_point := S_publish (report_state s) None False S_done\<rparr>
      | _ \<Rightarrow> s)"

definition source_ready :: "('d, 'c) source \<Rightarrow> bool" where
  "source_ready s =
     (case ms_point s of
        S_none \<Rightarrow> False
      | S_done \<Rightarrow> False
      | S_reading \<Rightarrow> consumer_ready (ms_proxy s)
      | S_queue v i k \<Rightarrow> (case ms_decoders s v of None \<Rightarrow> True | Some d \<Rightarrow> push_ready (dc_packets d))
      | S_wait \<Rightarrow> ms_stopping s \<or> ms_failure s \<noteq> None \<or> ms_revision s \<noteq> ms_observed s \<or> ms_events s \<noteq> []
      | S_acts (z # zs) k \<Rightarrow> action_ready z s
      | _ \<Rightarrow> True)"

section \<open>The other threads\<close>

definition step_proxy :: "('d, 'c) source \<Rightarrow> ('d, 'c) source" where
  "step_proxy s =
     (let t = on_proxy worker_px s in
      case px_point (ms_proxy s) of W_observe st k \<Rightarrow> ProxyChanged (event_of st (ms_proxy s)) t | _ \<Rightarrow> t)"

definition DecoderFailed :: "bool \<Rightarrow> 'c decoder \<Rightarrow> ('d, 'c) source \<Rightarrow> ('d, 'c) source" where
  "DecoderFailed v d s =
     (case dc_error d of
        None \<Rightarrow> s
      | Some e \<Rightarrow> s\<lparr>ms_helpers := ms_helpers s @ [(Own_track v, [Z_fail e, Z_pick, Z_proxy])]\<rparr>)"

definition step_decoder :: "av_lib \<Rightarrow> 'c codec_lib \<Rightarrow> bool \<Rightarrow> ('d, 'c) source \<Rightarrow> ('d, 'c) source" where
  "step_decoder L C v s =
     (let t = on_decoder v (worker_dec L C) s in
      case ms_decoders s v of
        Some d \<Rightarrow> if dc_point d = D_notify \<and> dc_report d then DecoderFailed v d t else t
      | None \<Rightarrow> t)"

definition step_helper :: "nat \<Rightarrow> ('d, 'c) source \<Rightarrow> ('d, 'c) source" where
  "step_helper i s =
     (case ms_helpers s ! i of
        (w, []) \<Rightarrow> s\<lparr>ms_helpers := take i (ms_helpers s) @ drop (Suc i) (ms_helpers s)\<rparr>
      | (w, z # zs) \<Rightarrow> (case do_action z s of (new, t) \<Rightarrow> t\<lparr>ms_helpers := (ms_helpers t)[i := (w, new @ zs)]\<rparr>))"

definition RequestStop_ms :: "('d, 'c) source \<Rightarrow> ('d, 'c) source" where
  "RequestStop_ms s =
     s\<lparr>ms_stopping := True,
       ms_helpers := ms_helpers s @ [(Own_caller, Z_proxy # (if ms_session s then stop_session (ms_decoders s) else []))]\<rparr>"

definition join_ms :: "('d, 'c) source \<Rightarrow> ('d, 'c) source" where
  "join_ms s = s\<lparr>ms_thread := False, ms_point := S_none\<rparr>"

text \<open>\<open>ReadFrame\<close>, by section; a reader without a session or decoder returns at once.\<close>

definition ReadSession :: "bool \<Rightarrow> ('d, 'c) source \<Rightarrow> ('d, 'c) source" where
  "ReadSession v s =
     (if ms_stopping s \<or> ms_failure s \<noteq> None \<or> ss_state (ms_status s) = ST_ended \<or> \<not> ms_session s \<or> ms_decoders s v = None
      then s else set_reader v G_call s)"

definition ReadFrame_ms :: "bool \<Rightarrow> ('d, 'c) source \<Rightarrow> ('d, 'c) source" where
  "ReadFrame_ms v s =
     (case (ms_readers s v, ms_decoders s v) of
        (G_call, Some d) \<Rightarrow>
          on_decoder v (read_begin False) (set_reader v (if dc_stopping d then G_idle else G_busy) s)
      | (G_busy, Some d) \<Rightarrow>
          (case dc_consumer d of
             V_pop w \<Rightarrow> on_decoder v read_pop s
           | V_check x \<Rightarrow>
               (case read_check x d of
                  (y, d) \<Rightarrow> set_reader v (if rr_status y = KEof then G_mark else G_idle)
                    (s\<lparr>ms_decoders := (ms_decoders s)(v := Some d)\<rparr>))
           | V_idle \<Rightarrow> s)
      | (G_mark, _) \<Rightarrow> set_reader v G_idle (s\<lparr>ms_eofs := (ms_eofs s)(v := True), ms_revision := ms_revision s + 1\<rparr>)
      | _ \<Rightarrow> s)"

section \<open>Interleavings\<close>

definition quiet :: "('d, 'c) source \<Rightarrow> bool" where
  "quiet s \<longleftrightarrow> ms_helpers s = [] \<and> ms_readers s = (\<lambda>_. G_idle) \<and> px_cancels (ms_proxy s) = []"

inductive sourcing :: "av_lib \<Rightarrow> 'c codec_lib \<Rightarrow> 'd demux_lib \<Rightarrow> ('d, 'c) source \<Rightarrow> ('d, 'c) source \<Rightarrow> bool"
  for L :: av_lib and C :: "'c codec_lib" and D :: "'d demux_lib" where
  worker: "source_ready s \<Longrightarrow> sourcing L C D s (worker_ms L C E s)"
| proxy_worker: "proxy_ready (ms_proxy s) \<Longrightarrow> \<not> has_helper Own_observer s \<Longrightarrow> sourcing L C D s (step_proxy s)"
| input_worker: "i < length (px_inputs (ms_proxy s)) \<Longrightarrow> input_ready (px_inputs (ms_proxy s) ! i) \<Longrightarrow>
    sourcing L C D s (on_proxy (step_input_worker D now i) s)"
| input_control: "i < length (px_inputs (ms_proxy s)) \<Longrightarrow> control_ready (px_inputs (ms_proxy s) ! i) \<Longrightarrow>
    sourcing L C D s (on_proxy (step_input_control D started now i) s)"
| input_cancel: "i < length (px_inputs (ms_proxy s)) \<Longrightarrow> iv_cancelled (px_inputs (ms_proxy s) ! i) \<Longrightarrow>
    sourcing L C D s (on_proxy (on_input i cancel_queue) s)"
| proxy_cancel: "i \<in> set (px_cancels (ms_proxy s)) \<Longrightarrow> sourcing L C D s (on_proxy (stop_cancel i) s)"
| decoder_worker: "ms_decoders s v = Some d \<Longrightarrow> worker_ready d \<Longrightarrow> sourcing L C D s (step_decoder L C v s)"
| helper: "i < length (ms_helpers s) \<Longrightarrow> sourcing L C D s (step_helper i s)"
| request: "sourcing L C D s (RequestStop_ms s)"
| read_session: "ms_readers s v = G_idle \<Longrightarrow> sourcing L C D s (ReadSession v s)"
| read_frame: "ms_readers s v \<noteq> G_idle \<Longrightarrow> sourcing L C D s (ReadFrame_ms v s)"
| join: "ms_stopping s \<Longrightarrow> ms_point s = S_done \<Longrightarrow> sourcing L C D s (join_ms s)"
| start: "quiet s \<Longrightarrow> sourcing L C D s (snd (Start_ms created url s))"

definition source_runs :: "av_lib \<Rightarrow> 'c codec_lib \<Rightarrow> 'd demux_lib \<Rightarrow> ('d, 'c) source \<Rightarrow> bool" where
  "source_runs L C D t \<longleftrightarrow> (\<exists>c s. AvMediaSource_new c = Inr s \<and> (sourcing L C D)\<^sup>*\<^sup>* s t)"

end
