(* ===== verification/Proxy_Inv.thy ===== *)
theory Proxy_Inv
  imports Input_Proxy
begin

text \<open>The invariants of \<open>proxying\<close>.\<close>

section \<open>What the steps of a connection leave alone\<close>

abbreviation conn :: "'d proxy \<Rightarrow> nat \<Rightarrow> 'd input" where
  "conn s i \<equiv> px_inputs s ! i"

lemma worker_in_keeps [simp]:
  "iv_config (worker_in D now s) = iv_config s" "iv_cancelled (worker_in D now s) = iv_cancelled s"
  "iv_info (worker_in D now s) = iv_info s" "iv_attached (worker_in D now s) = iv_attached s"
  "iv_thread (worker_in D now s) = iv_thread s" "iv_control (worker_in D now s) = iv_control s"
  "iv_reader (worker_in D now s) = iv_reader s" "ih_got (worker_in D now s) = ih_got s"
  by (auto simp: in_worker_defs split: in_worker_splits)

lemma control_in_keeps [simp]:
  "iv_config (control_in D started now s) = iv_config s" "iv_reader (control_in D started now s) = iv_reader s"
  "ih_got (control_in D started now s) = ih_got s" "ih_seen (control_in D started now s) = ih_seen s"
  "ih_eof (control_in D started now s) = ih_eof s"
  by (auto simp: in_control_defs split: control_point.splits sum.splits option.splits prod.splits if_splits)

lemma cancel_keeps [simp]:
  "cancel_flag s = s\<lparr>iv_cancelled := True\<rparr>" "cancel_queue s = s\<lparr>iv_queue := (iv_queue s)\<lparr>closed := True\<rparr>\<rparr>"
  "end_call s = s\<lparr>iv_control := C_idle\<rparr>"
  by (simp_all add: cancel_flag_def cancel_queue_def end_call_def close_body_def)

lemma read_keeps [simp]:
  "iv_config (read_take s) = iv_config s" "iv_cancelled (read_take s) = iv_cancelled s"
  "iv_status (read_take s) = iv_status s" "iv_info (read_take s) = iv_info s"
  "iv_attached (read_take s) = iv_attached s" "iv_thread (read_take s) = iv_thread s"
  "iv_point (read_take s) = iv_point s" "iv_control (read_take s) = iv_control s"
  "ih_got (read_take s) = ih_got s" "ih_seen (read_take s) = ih_seen s" "ih_eof (read_take s) = ih_eof s"
  "\<exists>x. iv_reader (read_take s) = X_check x"
  by (cases "items (iv_queue s)"; simp add: read_take_def pop_body_def)+

lemma enter_keeps [simp]:
  "iv_config (read_enter w s) = iv_config s" "iv_cancelled (read_enter w s) = iv_cancelled s"
  "iv_status (read_enter w s) = iv_status s" "iv_info (read_enter w s) = iv_info s"
  "iv_attached (read_enter w s) = iv_attached s" "iv_thread (read_enter w s) = iv_thread s"
  "iv_point (read_enter w s) = iv_point s" "iv_control (read_enter w s) = iv_control s"
  "ih_got (read_enter w s) = ih_got s" "ih_seen (read_enter w s) = ih_seen s" "ih_eof (read_enter w s) = ih_eof s"
  "iv_reader (read_enter w s) = (if iv_cancelled s \<or> \<not> iv_attached s then iv_reader s else X_pop w)"
  by (simp_all add: read_enter_def)

lemma finish_keeps:
  assumes "read_finish x s = (a, t)"
  shows "iv_config t = iv_config s" "iv_cancelled t = iv_cancelled s" "iv_status t = iv_status s" "iv_info t = iv_info s"
    "iv_attached t = iv_attached s" "iv_thread t = iv_thread s" "iv_point t = iv_point s" "iv_control t = iv_control s"
    "ih_seen t = ih_seen s" "ih_eof t = ih_eof s" "iv_reader t = X_idle"
    "ih_got t = (case a of R_packet p \<Rightarrow> ih_got s @ [p] | _ \<Rightarrow> ih_got s)"
  using assms by (auto simp: read_finish_def Let_def split: if_splits option.splits)

lemma on_input_keeps [simp]:
  "px_config (on_input i f s) = px_config s" "px_stopping (on_input i f s) = px_stopping s"
  "px_available (on_input i f s) = px_available s" "px_changed (on_input i f s) = px_changed s"
  "px_state (on_input i f s) = px_state s" "px_retries (on_input i f s) = px_retries s"
  "px_delay (on_input i f s) = px_delay s" "px_error (on_input i f s) = px_error s" "px_info (on_input i f s) = px_info s"
  "px_terminal (on_input i f s) = px_terminal s" "px_current (on_input i f s) = px_current s"
  "px_url (on_input i f s) = px_url s" "px_thread (on_input i f s) = px_thread s" "px_point (on_input i f s) = px_point s"
  "px_count (on_input i f s) = px_count s" "px_consumer (on_input i f s) = px_consumer s"
  "px_cancels (on_input i f s) = px_cancels s" "ph_answers (on_input i f s) = ph_answers s"
  "ph_attempts (on_input i f s) = ph_attempts s" "ph_states (on_input i f s) = ph_states s"
  "px_inputs (on_input i f s) = (px_inputs s)[i := f (conn s i)]"
  by (simp_all add: on_input_def)

text \<open>The effect of a notification on the proxy.\<close>

definition marks :: "nat \<Rightarrow> input_status \<Rightarrow> 'd proxy \<Rightarrow> bool" where
  "marks i st s \<longleftrightarrow> px_current s = Some i \<and> px_terminal s = None \<and> (is_state st = IS_failed \<or> is_state st = IS_cancelled)"

lemma InputChanged_keeps [simp]:
  "px_config (InputChanged i st s) = px_config s" "px_stopping (InputChanged i st s) = px_stopping s"
  "px_available (InputChanged i st s) = px_available s" "px_changed (InputChanged i st s) = px_changed s"
  "px_state (InputChanged i st s) = px_state s" "px_retries (InputChanged i st s) = px_retries s"
  "px_delay (InputChanged i st s) = px_delay s" "px_error (InputChanged i st s) = px_error s"
  "px_info (InputChanged i st s) = px_info s" "px_current (InputChanged i st s) = px_current s"
  "px_url (InputChanged i st s) = px_url s" "px_thread (InputChanged i st s) = px_thread s"
  "px_point (InputChanged i st s) = px_point s" "px_count (InputChanged i st s) = px_count s"
  "px_consumer (InputChanged i st s) = px_consumer s" "px_cancels (InputChanged i st s) = px_cancels s"
  "ph_answers (InputChanged i st s) = ph_answers s" "ph_attempts (InputChanged i st s) = ph_attempts s"
  "ph_states (InputChanged i st s) = ph_states s"
  "px_terminal (InputChanged i st s) = (if marks i st s then Some st else px_terminal s)"
  "px_inputs (InputChanged i st s) =
     (if px_current s = Some i \<and> px_stopping s \<and> is_state st = IS_opening
      then (px_inputs s)[i := (conn s i)\<lparr>iv_cancelled := True\<rparr>] else px_inputs s)"
  by (auto simp: InputChanged_def marks_def Let_def)

section \<open>Attempts\<close>

datatype phase = Fresh | Joining | Live | Leaving | Closing | Absent

fun phase_of_next :: "after_px \<Rightarrow> phase" where
  "phase_of_next A_connecting = Fresh"
| "phase_of_next A_connected = Live"
| "phase_of_next _ = Absent"

fun phase_at :: "proxy_point \<Rightarrow> phase" where
  "phase_at (W_publish st n d e k) = phase_of_next k"
| "phase_at (W_observe st k) = phase_of_next k"
| "phase_at (W_wake k) = phase_of_next k"
| "phase_at W_connecting = Fresh"
| "phase_at W_open = Fresh"
| "phase_at W_opening = Joining"
| "phase_at W_describe = Live"
| "phase_at W_opened = Live"
| "phase_at W_avail = Live"
| "phase_at W_wait = Live"
| "phase_at (W_retire st) = Leaving"
| "phase_at (W_close st) = Leaving"
| "phase_at (W_closing st) = Closing"
| "phase_at _ = Absent"

fun opening_control :: "control_point \<Rightarrow> bool" where
  "opening_control (C_failed e) = True"
| "opening_control (C_return r) = True"
| "opening_control (C_status u (Then_throw e)) = True"
| "opening_control (C_close u (Then_throw e)) = True"
| "opening_control (C_call u (Then_throw e)) = True"
| "opening_control c = preparing c"

definition gone :: "'d input \<Rightarrow> bool" where
  "gone i \<longleftrightarrow> iv_control i = C_idle \<and> is_state (iv_status i) = IS_closed"

fun in_phase :: "phase \<Rightarrow> 'd input \<Rightarrow> bool" where
  "in_phase Fresh i = (gone i \<and> \<not> iv_attached i \<and> ih_seen i = [] \<and> \<not> ih_eof i)"
| "in_phase Joining i = opening_control (iv_control i)"
| "in_phase Live i = (iv_control i = C_idle \<and> iv_thread i)"
| "in_phase Leaving i = (iv_control i = C_idle)"
| "in_phase Closing i = (gone i \<or> iv_control i = C_cancel \<or> closing (iv_control i))"
| "in_phase Absent i = True"

definition shape_px :: "'d proxy \<Rightarrow> bool" where
  "shape_px s \<longleftrightarrow>
     (\<forall>i < length (px_inputs s). px_current s \<noteq> Some i \<longrightarrow> gone (conn s i)) \<and>
     (\<forall>i. px_current s = Some i \<longrightarrow> Suc i = length (px_inputs s) \<and> in_phase (phase_at (px_point s)) (conn s i)) \<and>
     (px_current s = None \<longleftrightarrow> phase_at (px_point s) = Absent) \<and>
     (px_thread s \<longleftrightarrow> px_point s \<noteq> W_none) \<and> (\<exists>i :: 'd input. AvInput_new (pc_input (px_config s)) = Inr i)"

fun reader_fits :: "consumer_point \<Rightarrow> nat \<Rightarrow> reader_point \<Rightarrow> bool" where
  "reader_fits (Y_pop j d w r) i x = (x = (if i = j then X_pop w else X_idle))"
| "reader_fits (Y_check j d w r) i x = (if i = j then \<exists>y. x = X_check y else x = X_idle)"
| "reader_fits _ i x = (x = X_idle)"

fun engaged :: "consumer_point \<Rightarrow> nat option" where
  "engaged (Y_input i d w r) = Some i"
| "engaged (Y_pop i d w r) = Some i"
| "engaged (Y_check i d w r) = Some i"
| "engaged (Y_eof i d) = Some i"
| "engaged _ = None"

fun avail_at :: "proxy_point \<Rightarrow> bool" where
  "avail_at W_wait = True"
| "avail_at (W_retire st) = True"
| "avail_at _ = False"

fun standing :: "phase \<Rightarrow> bool" where
  "standing Live = True"
| "standing Leaving = True"
| "standing Closing = True"
| "standing _ = False"

fun served :: "proxy_point \<Rightarrow> bool" where
  "served W_wait = True"
| "served (W_retire st) = True"
| "served (W_close st) = True"
| "served (W_closing st) = True"
| "served _ = False"

lemma avail_standing: "avail_at p \<Longrightarrow> standing (phase_at p)"
  by (cases p) simp_all

lemma avail_served: "avail_at p \<Longrightarrow> served p"
  by (cases p) simp_all

definition readers :: "'d proxy \<Rightarrow> bool" where
  "readers s \<longleftrightarrow>
     (\<forall>i < length (px_inputs s). reader_fits (px_consumer s) i (iv_reader (conn s i))) \<and>
     (\<forall>i. engaged (px_consumer s) = Some i \<longrightarrow> i < length (px_inputs s)) \<and>
     (\<forall>i \<in> set (px_cancels s). i < length (px_inputs s)) \<and>
     (px_available s \<longrightarrow> avail_at (px_point s)) \<and>
     (px_current s \<noteq> None \<and> engaged (px_consumer s) = px_current s \<longrightarrow> served (px_point s))"

definition inputs_ok :: "'d proxy \<Rightarrow> bool" where
  "inputs_ok s \<longleftrightarrow> (\<forall>i < length (px_inputs s). in_inv (conn s i))"

text \<open>Steps of the control thread within \<open>Open\<close> and within \<open>Close\<close>.\<close>

lemma control_opening: "opening_control (iv_control i) \<Longrightarrow> opening_control (iv_control (control_in D started now i))"
  by (cases "iv_control i" rule: opening_control.cases)
    (auto simp: in_control_defs split: sum.splits option.splits prod.splits)

lemma control_closing:
  assumes "iv_control i = C_cancel \<or> closing (iv_control i)" "stand i"
  shows "in_phase Closing (control_in D started now i)"
  using assms
  by (cases "iv_control i" rule: closing.cases)
    (auto simp: in_control_defs gone_def stand_def final_state_def split: sum.splits option.splits prod.splits)

lemma gone_worker: "gone i \<Longrightarrow> stand i \<Longrightarrow> \<not> input_ready i"
  by (auto simp: gone_def stand_def input_ready_def split: if_splits)

lemma idle_control: "iv_control i = C_idle \<Longrightarrow> \<not> control_ready i"
  by (simp add: control_ready_def)

lemmas px_worker_defs = worker_px_def Retire_available_def after_attempt_def proxy_ready_def Let_def

lemma AvInput_new_fresh:
  "AvInput_new c = Inr i \<Longrightarrow> gone i \<and> \<not> iv_attached i \<and> ih_seen i = [] \<and> ih_got i = [] \<and> \<not> ih_eof i \<and>
     iv_reader i = X_idle \<and> \<not> iv_cancelled i \<and> in_inv i"
  using in_inv_start [of c i] by (auto simp: AvInput_new_def gone_def status_of_def split: if_splits)

lemma begin_open_cases:
  assumes "begin_open url i = (r, t)" "gone i"
  obtains (fails) e where "r = Some e" "gone t"  "iv_reader t = iv_reader i" "iv_info t = iv_info i \<or> iv_info t = empty_info" "ih_seen t = ih_seen i" "ih_got t = ih_got i" "ih_eof t = ih_eof i"
  | (begins) "r = None" "opening_control (iv_control t)" "iv_reader t = iv_reader i" "ih_seen t = []" "ih_got t = []" "\<not> ih_eof t"
      "iv_control t = C_status (status_of IS_opening) (Then_connect url)" "\<not> iv_cancelled t" "iv_status t = iv_status i"
      "iv_thread t = iv_thread i" "iv_point t = iv_point i"
  using assms by (auto simp: begin_open_def gone_def split: if_splits sum.splits)

lemma begin_close_phase: "iv_control i = C_idle \<Longrightarrow> in_phase Closing (begin_close i)"
  by (auto simp: begin_close_def gone_def)

lemma shape_worker:
  assumes "shape_px s" "proxy_ready s" "inputs_ok s"
  shows "shape_px (worker_px s)"
proof -
  note s = assms(1) [unfolded shape_px_def]
  consider (create) "px_point s = W_create" | (opens) "px_point s = W_open" | (joins) "px_point s = W_opening"
    | (closes) st where "px_point s = W_close st" | (closed) st where "px_point s = W_closing st"
    | (other) "px_point s \<noteq> W_create" "px_point s \<noteq> W_open" "px_point s \<noteq> W_opening" "\<forall>st. px_point s \<noteq> W_close st"
        "\<forall>st. px_point s \<noteq> W_closing st" by blast
  then show ?thesis
  proof cases
    case create
    obtain i :: "'a input" where i: "AvInput_new (pc_input (px_config s)) = Inr i" using s by blast
    from AvInput_new_fresh [OF i] s create show ?thesis
      by (auto simp: worker_px_def shape_px_def i nth_append less_Suc_eq)
  next
    case opens
    with s obtain i where i: "px_current s = Some i" "Suc i = length (px_inputs s)" by fastforce
    with s opens have "gone (conn s i)" by simp
    obtain r t where t: "begin_open (px_url s) (conn s i) = (r, t)" by fastforce
    from t \<open>gone (conn s i)\<close> show ?thesis
    proof (cases rule: begin_open_cases)
      case (fails e)
      with s opens i t show ?thesis by (auto simp: worker_px_def shape_px_def nth_list_update gone_def)
    next
      case begins
      with s opens i t show ?thesis by (auto simp: worker_px_def shape_px_def nth_list_update)
    qed
  next
    case joins
    with s obtain i where i: "px_current s = Some i" "Suc i = length (px_inputs s)" by fastforce
    with s joins assms(3) have "stand (conn s i)" by (auto simp: inputs_ok_def in_inv_def)
    with s joins i assms(2) show ?thesis
      by (cases "iv_control (conn s i)")
        (auto simp: worker_px_def shape_px_def nth_list_update proxy_ready_def stand_def split: option.splits)
  next
    case closes
    with s obtain i where i: "px_current s = Some i" "Suc i = length (px_inputs s)" by fastforce
    with s closes show ?thesis
      using begin_close_phase [of "conn s i"] by (auto simp: worker_px_def shape_px_def nth_list_update)
  next
    case closed
    with s obtain i where i: "px_current s = Some i" "Suc i = length (px_inputs s)" by fastforce
    with s closed assms(2) have "gone (conn s i)" by (auto simp: proxy_ready_def)
    with s closed i show ?thesis by (auto simp: worker_px_def shape_px_def)
  next
    case other
    with s show ?thesis
      by (cases "px_point s") (auto simp: px_worker_defs shape_px_def gone_def split: after_px.splits option.splits)
  qed
qed

lemma phase_worker:
  assumes "in_phase ph i" "input_ready i" "stand i"
  shows "in_phase ph (worker_in D now i)"
  using assms gone_worker [of i] by (cases ph) (auto simp: gone_def)

lemma phase_control:
  assumes "in_phase ph i" "control_ready i" "stand i"
  shows "in_phase ph (control_in D started now i)"
proof (cases ph)
  case Closing
  with assms control_closing [of i D started now] show ?thesis
    by (auto simp: gone_def dest: idle_control)
qed (use assms control_opening [of i D started now] in \<open>auto simp: gone_def dest: idle_control\<close>)

lemma phase_same:
  assumes "iv_control t = iv_control i" "iv_status t = iv_status i" "iv_thread t = iv_thread i"
    "iv_attached t = iv_attached i" "ih_seen t = ih_seen i" "ih_eof t = ih_eof i"
  shows "in_phase ph t = in_phase ph i" "gone t = gone i"
  using assms by (cases ph; simp add: gone_def)+

lemma phase_cancel [simp]:
  "in_phase ph (c\<lparr>iv_cancelled := b\<rparr>) = in_phase ph c" "gone (c\<lparr>iv_cancelled := b\<rparr>) = gone c"
  "in_phase ph (c\<lparr>iv_queue := q\<rparr>) = in_phase ph c" "gone (c\<lparr>iv_queue := q\<rparr>) = gone c"
  by (rule phase_same; simp)+

lemma update_nth: "j < length xs \<Longrightarrow> xs[i := x] ! j = (if i = j then x else xs ! j)"
  by (cases "i = j") simp_all

lemma shape_same:
  assumes "shape_px s" "px_inputs t = px_inputs s" "px_current t = px_current s" "px_point t = px_point s"
    "px_thread t = px_thread s" "px_config t = px_config s"
  shows "shape_px t"
  using assms by (simp add: shape_px_def)

text \<open>A step of one connection that respects its phase.\<close>

lemma shape_input:
  assumes "shape_px s" "i < length (px_inputs s)" "gone (conn s i) \<Longrightarrow> gone c"
    "px_current s = Some i \<Longrightarrow> in_phase (phase_at (px_point s)) (conn s i) \<Longrightarrow> in_phase (phase_at (px_point s)) c"
    "px_inputs t = (px_inputs s)[i := c]" "px_current t = px_current s" "px_point t = px_point s"
    "px_thread t = px_thread s" "px_config t = px_config s"
  shows "shape_px t"
  using assms by (auto simp: shape_px_def nth_list_update)

lemma consume_px_keeps [simp]:
  "px_config (consume_px s) = px_config s" "px_stopping (consume_px s) = px_stopping s"
  "px_state (consume_px s) = px_state s" "px_retries (consume_px s) = px_retries s" "px_delay (consume_px s) = px_delay s"
  "px_error (consume_px s) = px_error s" "px_info (consume_px s) = px_info s" "px_current (consume_px s) = px_current s"
  "px_url (consume_px s) = px_url s" "px_thread (consume_px s) = px_thread s" "px_point (consume_px s) = px_point s"
  "px_count (consume_px s) = px_count s" "px_cancels (consume_px s) = px_cancels s"
  "ph_attempts (consume_px s) = ph_attempts s" "ph_states (consume_px s) = ph_states s"
  by (auto simp: consume_px_def read_first_def no_packet_def Let_def
      split: consumer_point.splits option.splits reader_point.splits prod.splits read_answer.splits)

text \<open>What a consumer's step does to the connections.\<close>

lemma consume_px_inputs:
  "px_inputs (consume_px s) =
     (case px_consumer s of
        Y_input i d w r \<Rightarrow> (px_inputs s)[i := read_enter w (conn s i)]
      | Y_pop i d w r \<Rightarrow> (px_inputs s)[i := read_take (conn s i)]
      | Y_check i d w r \<Rightarrow> (case iv_reader (conn s i) of X_check x \<Rightarrow> (px_inputs s)[i := snd (read_finish x (conn s i))]
          | _ \<Rightarrow> px_inputs s)
      | _ \<Rightarrow> px_inputs s)"
  by (auto simp: consume_px_def read_first_def no_packet_def Let_def
      split: consumer_point.splits option.splits reader_point.splits prod.splits read_answer.splits)

lemma consumer_effect:
  assumes "readers s"
  obtains (none) "px_inputs (consume_px s) = px_inputs s"
  | (conn) i c where "i < length (px_inputs s)" "px_inputs (consume_px s) = (px_inputs s)[i := c]"
      "iv_control c = iv_control (conn s i)" "iv_status c = iv_status (conn s i)" "iv_thread c = iv_thread (conn s i)"
      "iv_attached c = iv_attached (conn s i)" "ih_seen c = ih_seen (conn s i)" "ih_eof c = ih_eof (conn s i)"
proof (cases "px_consumer s")
  case (Y_input i d w r)
  with assms show ?thesis by (intro conn [of i "read_enter w (conn s i)"]) (simp_all add: consume_px_inputs readers_def)
next
  case (Y_pop i d w r)
  with assms show ?thesis by (intro conn [of i "read_take (conn s i)"]) (simp_all add: consume_px_inputs readers_def)
next
  case (Y_check i d w r)
  with assms have i: "i < length (px_inputs s)" by (simp add: readers_def)
  show ?thesis
  proof (cases "iv_reader (conn s i)")
    case (X_check x)
    obtain a c where c: "read_finish x (conn s i) = (a, c)" by fastforce
    show ?thesis
      by (rule conn [of i c]) (simp_all add: consume_px_inputs Y_check X_check i c finish_keeps [OF c])
  qed (simp_all add: none consume_px_inputs Y_check)
qed (simp_all add: none consume_px_inputs)

lemma step_worker_inputs:
  assumes "stand (conn s i)" "input_ready (conn s i)" "i < length (px_inputs s)"
  shows "px_inputs (step_input_worker D now i s) = (px_inputs s)[i := worker_in D now (conn s i)]"
  using assms by (auto simp: step_input_worker_def Let_def stand_def final_state_def input_ready_def split: input_point.split if_splits)

definition reapplies :: "'d proxy \<Rightarrow> nat \<Rightarrow> bool" where
  "reapplies s i \<longleftrightarrow> px_current s = Some i \<and> px_stopping s \<and>
     (\<exists>st k. iv_control (conn s i) = C_call st k \<and> is_state st = IS_opening)"

lemma step_control_inputs:
  assumes "i < length (px_inputs s)"
  shows "px_inputs (step_input_control D started now i s) = (px_inputs s)[i :=
     (if reapplies s i then (control_in D started now (conn s i))\<lparr>iv_cancelled := True\<rparr>
      else control_in D started now (conn s i))]"
  using assms by (auto simp: step_input_control_def Let_def reapplies_def split: control_point.split)

text \<open>The other fields of the proxy, in a step of a connection.\<close>

lemma step_input_keeps [simp]:
  "px_config (step_input_worker D now i s) = px_config s" "px_stopping (step_input_worker D now i s) = px_stopping s"
  "px_available (step_input_worker D now i s) = px_available s" "px_state (step_input_worker D now i s) = px_state s"
  "px_retries (step_input_worker D now i s) = px_retries s" "px_delay (step_input_worker D now i s) = px_delay s"
  "px_info (step_input_worker D now i s) = px_info s" "px_current (step_input_worker D now i s) = px_current s"
  "px_thread (step_input_worker D now i s) = px_thread s" "px_point (step_input_worker D now i s) = px_point s"
  "px_count (step_input_worker D now i s) = px_count s" "px_consumer (step_input_worker D now i s) = px_consumer s"
  "px_cancels (step_input_worker D now i s) = px_cancels s" "ph_answers (step_input_worker D now i s) = ph_answers s"
  "ph_attempts (step_input_worker D now i s) = ph_attempts s" "ph_states (step_input_worker D now i s) = ph_states s"
  "px_config (step_input_control D b now i s) = px_config s" "px_stopping (step_input_control D b now i s) = px_stopping s"
  "px_available (step_input_control D b now i s) = px_available s" "px_state (step_input_control D b now i s) = px_state s"
  "px_retries (step_input_control D b now i s) = px_retries s" "px_delay (step_input_control D b now i s) = px_delay s"
  "px_info (step_input_control D b now i s) = px_info s" "px_current (step_input_control D b now i s) = px_current s"
  "px_thread (step_input_control D b now i s) = px_thread s" "px_point (step_input_control D b now i s) = px_point s"
  "px_count (step_input_control D b now i s) = px_count s" "px_consumer (step_input_control D b now i s) = px_consumer s"
  "px_cancels (step_input_control D b now i s) = px_cancels s" "ph_answers (step_input_control D b now i s) = ph_answers s"
  "ph_attempts (step_input_control D b now i s) = ph_attempts s" "ph_states (step_input_control D b now i s) = ph_states s"
  by (simp_all add: step_input_worker_def step_input_control_def Let_def split: input_point.split control_point.split)

lemma shape_step:
  assumes "proxying D s t" "shape_px s" "inputs_ok s" "readers s"
  shows "shape_px t"
  using assms
proof (induction rule: proxying.induct)
  case (worker s)
  then show ?case by (blast intro: shape_worker)
next
  case (input_worker i s now)
  then have st: "stand (conn s i)" by (simp add: inputs_ok_def in_inv_def)
  show ?case
    by (rule shape_input [OF input_worker(3,1) _ _ step_worker_inputs [OF st input_worker(2,1)]])
      (use gone_worker [OF _ st] input_worker(2) phase_worker [OF _ input_worker(2) st] in auto)
next
  case (input_control i s started now)
  then have st: "stand (conn s i)" by (simp add: inputs_ok_def in_inv_def)
  show ?case
    by (rule shape_input [OF input_control(3,1) _ _ step_control_inputs [OF input_control(1)]])
      (use input_control(2) phase_control [OF _ input_control(2) st] in \<open>auto simp: gone_def dest: idle_control\<close>)
next
  case (consumer s)
  from consumer(4) show ?case
  proof (cases rule: consumer_effect)
    case none
    then show ?thesis by (rule shape_same [OF consumer(2)]) simp_all
  next
    case (conn i c)
    show ?thesis
      by (rule shape_input [OF consumer(2) conn(1) _ _ conn(2)]) (simp_all add: phase_same [OF conn(3-8)])
  qed
qed (auto simp: shape_px_def update_nth stop_flag_def stop_cancel_def stop_join_def Start_px_def Let_def)

lemma readers_worker:
  assumes "proxy_ready s" "shape_px s" "readers s"
  shows "readers (worker_px s)"
proof -
  note r = assms(3) [unfolded readers_def] and h = assms(2) [unfolded shape_px_def]
  consider (create) "px_point s = W_create" | (opens) "px_point s = W_open" | (joins) "px_point s = W_opening"
    | (closes) st where "px_point s = W_close st"
    | (other) "px_point s \<noteq> W_create" "px_point s \<noteq> W_open" "px_point s \<noteq> W_opening" "\<forall>st. px_point s \<noteq> W_close st"
    by blast
  then show ?thesis
  proof cases
    case create
    obtain i :: "'a input" where i: "AvInput_new (pc_input (px_config s)) = Inr i" using h by blast
    have "reader_fits (px_consumer s) (length (px_inputs s)) X_idle"
      using r by (cases "px_consumer s") auto
    with AvInput_new_fresh [OF i] r create show ?thesis
      by (auto simp: worker_px_def readers_def i nth_append less_Suc_eq)
  next
    case opens
    with h obtain i where i: "px_current s = Some i" "Suc i = length (px_inputs s)" by fastforce
    with h opens have "gone (conn s i)" by simp
    obtain e t where t: "begin_open (px_url s) (conn s i) = (e, t)" by fastforce
    from t \<open>gone (conn s i)\<close> have "iv_reader t = iv_reader (conn s i)" by (rule begin_open_cases)
    with r opens i t show ?thesis
      by (auto simp: worker_px_def readers_def update_nth split: option.split)
  next
    case joins
    with r show ?thesis
      by (auto simp: worker_px_def readers_def update_nth split: option.split control_point.split)
  next
    case closes
    with r show ?thesis
      by (auto simp: worker_px_def readers_def update_nth begin_close_def split: option.split)
  next
    case other
    with r show ?thesis
      by (cases "px_point s") (auto simp: px_worker_defs readers_def split: after_px.splits option.splits)
  qed
qed

lemma read_first_cases:
  obtains (answered) a where "read_first wait oc s = (Some a, s\<lparr>px_consumer := Y_idle\<rparr>)"
      | (noted) "oc" "px_changed s" "read_first wait oc s = (Some R_null, s\<lparr>px_changed := False, px_consumer := Y_idle\<rparr>)"
      | (engages) i where "px_available s" "px_current s = Some i" "\<not> px_stopping s" "\<not> source_over s"
      "px_state s \<noteq> PS_ended" "read_first wait oc s = (None, s\<lparr>px_consumer := Y_input i (px_info s) wait oc\<rparr>)"
proof -
  let ?go = "px_available s \<and> px_current s \<noteq> None \<and> \<not> px_stopping s \<and> \<not> source_over s \<and>
    px_state s \<noteq> PS_ended \<and> px_state s \<noteq> PS_stopped \<and> px_state s \<noteq> PS_failed"
  consider "oc \<and> px_changed s" | "\<not> (oc \<and> px_changed s)" ?go | "\<not> (oc \<and> px_changed s)" "\<not> ?go" by blast
  then show ?thesis
  proof cases
    case 1
    then show ?thesis by (intro noted) (simp_all add: read_first_def)
  next
    case 2
    then obtain i where "px_current s = Some i" by blast
    with 2 show ?thesis by (intro engages [of i]) (auto simp: read_first_def)
  next
    case 3
    show ?thesis
      by (rule answered [of "if px_stopping s \<or> px_state s = PS_stopped \<or> px_state s = PS_failed then R_null
            else if px_state s = PS_ended \<or> source_over s then R_eof else R_null"])
        (use 3 in \<open>auto simp: read_first_def split: option.splits\<close>)
  qed
qed

lemma readers_consumer:
  assumes "readers s" "shape_px s"
  shows "readers (consume_px s)"
proof (cases "px_consumer s")
  case (Y_begin wait oc)
  note r = assms(1) [unfolded readers_def] and h = assms(2) [unfolded shape_px_def]
  show ?thesis
  proof (cases rule: read_first_cases [of wait oc s])
    case (engages i)
    with r h Y_begin show ?thesis by (auto simp: consume_px_def readers_def avail_served)
  qed (use r Y_begin in \<open>auto simp: consume_px_def readers_def\<close>)
next
  case (Y_input i d w oc)
  with assms(1) show ?thesis
    by (auto simp: consume_px_def readers_def no_packet_def Let_def update_nth)
next
  case (Y_pop i d w oc)
  with assms(1) show ?thesis
    by (auto simp: consume_px_def readers_def update_nth)
next
  case (Y_check i d w oc)
  with assms(1) have "i < length (px_inputs s)" "reader_fits (px_consumer s) i (iv_reader (conn s i))"
    by (auto simp: readers_def)
  with Y_check obtain x where x: "iv_reader (conn s i) = X_check x" by auto
  obtain a c where c: "read_finish x (conn s i) = (a, c)" by fastforce
  from Y_check assms(1) x c show ?thesis
    by (cases a) (auto simp: consume_px_def readers_def no_packet_def update_nth finish_keeps(11) [OF c])
next
  case (Y_eof i d)
  with assms(1) show ?thesis by (auto simp: consume_px_def readers_def Let_def)
qed (use assms(1) in \<open>auto simp: consume_px_def readers_def\<close>)

lemma readers_step:
  assumes "proxying D s t" "shape_px s" "inputs_ok s" "readers s"
  shows "readers t"
  using assms
proof (induction rule: proxying.induct)
  case (worker s)
  then show ?case by (blast intro: readers_worker)
next
  case (input_worker i s now)
  then have st: "stand (conn s i)" by (simp add: inputs_ok_def in_inv_def)
  from input_worker(5) show ?case
    by (auto simp: readers_def step_worker_inputs [OF st input_worker(2,1)] update_nth)
next
  case (input_control i s started now)
  then show ?case
    by (auto simp: readers_def step_control_inputs [OF input_control(1)] update_nth)
next
  case (consumer s)
  then show ?case by (blast intro: readers_consumer)
next
  case (stop_cancel i s)
  then show ?case
    by (auto simp: readers_def stop_cancel_def update_nth dest: notin_set_remove1)
next
  case (start s created url)
  then show ?case by (auto simp: readers_def Start_px_def Let_def shape_px_def)
qed (auto simp: readers_def update_nth stop_flag_def stop_join_def shape_px_def)

lemma inputs_okI:
  assumes "inputs_ok s" "inputting D (conn s i) c" "px_inputs t = (px_inputs s)[i := c]" "i < length (px_inputs s)"
  shows "inputs_ok t"
  using assms in_inv_step [OF assms(2)] by (auto simp: inputs_ok_def update_nth)

lemma inputs_ok_worker:
  assumes "proxy_ready s" "shape_px s" "inputs_ok s" "readers s"
  shows "inputs_ok (worker_px s)"
proof -
  note h = assms(2) [unfolded shape_px_def] and ok = assms(3) [unfolded inputs_ok_def]
  fix D :: "'a demux_lib"
  consider (create) "px_point s = W_create" | (opens) "px_point s = W_open" | (joins) "px_point s = W_opening"
    | (closes) st where "px_point s = W_close st"
    | (other) "px_point s \<noteq> W_create" "px_point s \<noteq> W_open" "px_point s \<noteq> W_opening" "\<forall>st. px_point s \<noteq> W_close st"
    by blast
  then show ?thesis
  proof cases
    case create
    obtain i :: "'a input" where i: "AvInput_new (pc_input (px_config s)) = Inr i" using h by blast
    from AvInput_new_fresh [OF i] ok create show ?thesis
      by (auto simp: worker_px_def inputs_ok_def i nth_append less_Suc_eq)
  next
    case opens
    with h obtain i where i: "px_current s = Some i" "Suc i = length (px_inputs s)" by fastforce
    with h opens have g: "iv_control (conn s i) = C_idle" by (simp add: gone_def)
    from opens i assms(4) have "engaged (px_consumer s) \<noteq> Some i" "reader_fits (px_consumer s) i (iv_reader (conn s i))"
      by (auto simp: readers_def)
    then have x: "iv_reader (conn s i) = X_idle"
      by (cases "px_consumer s") auto
    obtain e t where t: "begin_open (px_url s) (conn s i) = (e, t)" by fastforce
    from inputting.open_call [OF g x, of D "px_url s"] t have st: "inputting D (conn s i) t" by simp
    show ?thesis
      by (rule inputs_okI [OF assms(3) st]) (use opens i t in \<open>auto simp: worker_px_def split: option.split\<close>)
  next
    case joins
    with h obtain i where i: "px_current s = Some i" "Suc i = length (px_inputs s)" by fastforce
    with joins assms(1) obtain r where r: "iv_control (conn s i) = C_return r"
      by (auto simp: proxy_ready_def split: control_point.splits)
    show ?thesis
      by (rule inputs_okI [OF assms(3) inputting.returned [OF r]]) (use joins i r in \<open>auto simp: worker_px_def split: option.split\<close>)
  next
    case closes
    with h obtain i where i: "px_current s = Some i" "Suc i = length (px_inputs s)" by fastforce
    with h closes have g: "iv_control (conn s i) = C_idle" by simp
    show ?thesis
      by (rule inputs_okI [OF assms(3) inputting.close_call [OF g]]) (use closes i in \<open>auto simp: worker_px_def\<close>)
  next
    case other
    with ok show ?thesis
      by (cases "px_point s") (auto simp: px_worker_defs inputs_ok_def)
  qed
qed

lemma inputs_ok_consumer:
  assumes "consumer_ready s" "inputs_ok s" "readers s"
  shows "inputs_ok (consume_px s)"
proof (cases "px_consumer s")
  case (Y_input i d w oc)
  with assms(3) have i: "i < length (px_inputs s)" "iv_reader (conn s i) = X_idle" by (auto simp: readers_def)
  show ?thesis
    by (rule inputs_okI [OF assms(2) inputting.read_enter [OF i(2), of _ w] _ i(1)]) (simp add: consume_px_inputs Y_input)
next
  case (Y_pop i d w oc)
  with assms(3) have i: "i < length (px_inputs s)" "iv_reader (conn s i) = X_pop w" by (auto simp: readers_def)
  from Y_pop assms(1) have "w \<longrightarrow> pop_ready (iv_queue (conn s i))" by (simp add: consumer_ready_def)
  from inputting.read_take [OF i(2) this] show ?thesis
    by (rule inputs_okI [OF assms(2) _ _ i(1)]) (simp add: consume_px_inputs Y_pop)
next
  case (Y_check i d w oc)
  with assms(3) have i: "i < length (px_inputs s)" and "reader_fits (px_consumer s) i (iv_reader (conn s i))"
    by (auto simp: readers_def)
  with Y_check obtain x where x: "iv_reader (conn s i) = X_check x" by auto
  show ?thesis
    by (rule inputs_okI [OF assms(2) inputting.read_finish [OF x] _ i]) (simp add: consume_px_inputs Y_check x)
qed (use assms(2) in \<open>auto simp: inputs_ok_def consume_px_inputs\<close>)

lemma inputs_ok_step:
  assumes "proxying D s t" "shape_px s" "inputs_ok s" "readers s"
  shows "inputs_ok t"
  using assms
proof (induction rule: proxying.induct)
  case (worker s)
  then show ?case by (blast intro: inputs_ok_worker)
next
  case (input_worker i s now)
  then have st: "stand (conn s i)" by (simp add: inputs_ok_def in_inv_def)
  show ?case
    by (rule inputs_okI [OF input_worker(4) inputting.worker [OF input_worker(2)] _ input_worker(1)])
      (rule step_worker_inputs [OF st input_worker(2,1)])
next
  case (input_control i s started now)
  then have "in_inv (control_in D started now (conn s i))"
    by (meson in_inv_step inputs_ok_def inputting.control)
  then have "in_inv (if reapplies s i then (control_in D started now (conn s i))\<lparr>iv_cancelled := True\<rparr>
      else control_in D started now (conn s i))"
    using in_inv_step [OF inputting.cancel, of "control_in D started now (conn s i)"] by simp
  with input_control(4) show ?case
    by (auto simp: inputs_ok_def step_control_inputs [OF input_control(1)] update_nth)
next
  case (input_cancel i s)
  show ?case
    by (rule inputs_okI [OF input_cancel(4) inputting.cancel_queue [OF input_cancel(2)] _ input_cancel(1)]) simp
next
  case (consumer s)
  then show ?case by (blast intro: inputs_ok_consumer)
next
  case (stop_cancel i s)
  then have i: "i < length (px_inputs s)" by (simp add: readers_def)
  show ?case
    by (rule inputs_okI [OF stop_cancel(3) inputting.cancel _ i]) (simp add: stop_cancel_def)
qed (auto simp: inputs_ok_def stop_flag_def stop_join_def Start_px_def Let_def)

section \<open>Connections a consumer may have seen\<close>

definition past :: "'d proxy \<Rightarrow> nat \<Rightarrow> bool" where
  "past s i \<longleftrightarrow> i < length (px_inputs s) \<and> (px_current s = Some i \<longrightarrow> standing (phase_at (px_point s)))"

text \<open>What stays true of such a connection.\<close>

definition over_in :: "'d input \<Rightarrow> bool" where
  "over_in c \<longleftrightarrow> is_state (iv_status c) = IS_ended \<or> is_state (iv_status c) = IS_closed"

definition lasting :: "'d input \<Rightarrow> 'd input \<Rightarrow> bool" where
  "lasting c c' \<longleftrightarrow> iv_info c' = iv_info c \<and> (ih_eof c \<longrightarrow> ih_eof c' \<and> ih_seen c' = ih_seen c) \<and>
     (over_in c \<longrightarrow> over_in c')"

lemma lasting_refl [simp]: "lasting c c"
  by (simp add: lasting_def)

lemma lasting_worker: "in_inv i \<Longrightarrow> lasting i (worker_in D now i)"
  by (cases "iv_point i")
    (auto simp: lasting_def over_in_def in_worker_defs in_inv_def drained_in_def stand_def split: if_splits option.splits prod.splits demux_answer.splits sum.splits)

lemma lasting_control:
  "standing ph \<Longrightarrow> in_phase ph i \<Longrightarrow> control_ready i \<Longrightarrow> stand i \<Longrightarrow> lasting i (control_in D started now i)"
  by (cases ph; cases "iv_control i" rule: closing.cases)
    (auto simp: lasting_def over_in_def stand_def gone_def in_control_defs split: sum.splits option.splits prod.splits)

lemma past_worker:
  assumes "proxy_ready s" "shape_px s" "past s i"
  shows "past (worker_px s) i \<and> lasting (conn s i) (conn (worker_px s) i)"
proof -
  note h = assms(2) [unfolded shape_px_def] and p = assms(3) [unfolded past_def]
  consider (create) "px_point s = W_create" | (opens) "px_point s = W_open" | (joins) "px_point s = W_opening"
    | (closes) st where "px_point s = W_close st"
    | (other) "px_point s \<noteq> W_create" "px_point s \<noteq> W_open" "px_point s \<noteq> W_opening" "\<forall>st. px_point s \<noteq> W_close st"
    by blast
  then show ?thesis
  proof cases
    case create
    obtain i :: "'a input" where i: "AvInput_new (pc_input (px_config s)) = Inr i" using h by blast
    from p create show ?thesis by (auto simp: worker_px_def past_def i nth_append)
  next
    case opens
    with h obtain j where j: "px_current s = Some j" by fastforce
    with p opens have "i \<noteq> j" by auto
    with p opens j show ?thesis by (auto simp: worker_px_def past_def update_nth split: option.split prod.split)
  next
    case joins
    with p show ?thesis
      by (auto simp: worker_px_def past_def update_nth split: option.split control_point.split)
  next
    case closes
    with p show ?thesis
      by (auto simp: worker_px_def past_def update_nth begin_close_def lasting_def over_in_def split: option.split)
  next
    case other
    with p show ?thesis
      by (cases "px_point s") (auto simp: px_worker_defs past_def split: after_px.splits)
  qed
qed

lemma past_consumer:
  assumes "readers s" "past s i"
  shows "past (consume_px s) i \<and> lasting (conn s i) (conn (consume_px s) i)"
proof (cases "px_consumer s")
  case (Y_check j d w oc)
  with assms(1) have "j < length (px_inputs s)" "reader_fits (px_consumer s) j (iv_reader (conn s j))"
    by (auto simp: readers_def)
  with Y_check obtain x where x: "iv_reader (conn s j) = X_check x" by auto
  obtain a c where c: "read_finish x (conn s j) = (a, c)" by fastforce
  from assms(2) x c show ?thesis
    by (auto simp: past_def consume_px_inputs Y_check update_nth lasting_def over_in_def finish_keeps [OF c])
qed (use assms(2) in \<open>auto simp: past_def consume_px_inputs update_nth lasting_def over_in_def\<close>)

lemma past_step:
  assumes "proxying D s t" "shape_px s" "inputs_ok s" "readers s" "past s i"
  shows "past t i \<and> lasting (conn s i) (conn t i)"
  using assms
proof (induction rule: proxying.induct)
  case (worker s)
  from past_worker [OF worker(1,2,5)] show ?case .
next
  case (input_worker j s now)
  then have inv: "in_inv (conn s j)" by (simp add: inputs_ok_def)
  then have st: "stand (conn s j)" by (simp add: in_inv_def)
  from input_worker lasting_worker [OF inv] show ?case
    by (auto simp: past_def step_worker_inputs [OF st input_worker(2,1)] update_nth)
next
  case (input_control j s started now)
  have "lasting (conn s j) (control_in D started now (conn s j))" if "i = j"
  proof (cases "px_current s = Some j")
    case True
    with input_control that show ?thesis
      by (auto simp: past_def shape_px_def inputs_ok_def in_inv_def intro!: lasting_control)
  next
    case False
    with input_control have "gone (conn s j)" by (auto simp: shape_px_def)
    with input_control(2) show ?thesis by (auto simp: gone_def dest: idle_control)
  qed
  with input_control show ?case
    by (auto simp: past_def step_control_inputs [OF input_control(1)] update_nth lasting_def over_in_def)
next
  case (consumer s)
  from past_consumer [OF consumer(4,5)] show ?case .
next
  case (start s created url)
  then show ?case by (auto simp: past_def shape_px_def Start_px_def Let_def)
qed (auto simp: past_def update_nth lasting_def over_in_def stop_flag_def stop_cancel_def stop_join_def shape_px_def)

section \<open>Descriptions\<close>

fun attached_info :: "consumer_point \<Rightarrow> (nat \<times> input_info option) option" where
  "attached_info (Y_input i d w r) = Some (i, d)"
| "attached_info (Y_pop i d w r) = Some (i, d)"
| "attached_info (Y_check i d w r) = Some (i, d)"
| "attached_info (Y_eof i d) = Some (i, d)"
| "attached_info _ = None"

fun knows :: "proxy_point \<Rightarrow> bool" where
  "knows (W_publish st n d e k) = (k = A_connected)"
| "knows (W_observe st k) = (k = A_connected)"
| "knows (W_wake k) = (k = A_connected)"
| "knows W_opened = True"
| "knows W_avail = True"
| "knows W_wait = True"
| "knows _ = False"

definition described :: "'d proxy \<Rightarrow> bool" where
  "described s \<longleftrightarrow>
     (px_available s \<or> knows (px_point s) \<longrightarrow> (\<exists>i. px_current s = Some i \<and> px_info s = Some (iv_info (conn s i)))) \<and>
     (\<forall>i d. attached_info (px_consumer s) = Some (i, d) \<longrightarrow> past s i \<and> d = Some (iv_info (conn s i))) \<and>
     (\<forall>a \<in> set (ph_answers s). past s (pa_input a) \<and> pa_info a = Some (iv_info (conn s (pa_input a))))"

lemma knows_standing: "knows p \<Longrightarrow> standing (phase_at p)"
  by (cases p) auto

lemma described_keeps:
  assumes "described s" "proxying D s t" "shape_px s" "inputs_ok s" "readers s"
    and "px_available t \<or> knows (px_point t) \<Longrightarrow>
      (px_available s \<or> knows (px_point s)) \<and> px_current t = px_current s \<and> px_info t = px_info s \<or>
      (\<exists>i. px_current t = Some i \<and> px_info t = Some (iv_info (conn t i)))"
    and "\<And>i d. attached_info (px_consumer t) = Some (i, d) \<Longrightarrow> attached_info (px_consumer s) = Some (i, d) \<or>
      px_current s = Some i \<and> d = px_info s \<and> px_available s"
    and "\<And>a. a \<in> set (ph_answers t) \<Longrightarrow> a \<in> set (ph_answers s) \<or> attached_info (px_consumer s) = Some (pa_input a, pa_info a)"
  shows "described t"
proof -
  have last: "past t i \<and> iv_info (conn t i) = iv_info (conn s i)" if "past s i" for i
    using past_step [OF assms(2-5) that] by (simp add: lasting_def)
  have cur: "past s i" if "px_current s = Some i" "px_available s" for i
    using that assms(3,5) by (auto simp: past_def shape_px_def readers_def avail_standing)
  note d = assms(1) [unfolded described_def]
  show ?thesis
    unfolding described_def
  proof (intro conjI allI impI ballI)
    fix i x assume "attached_info (px_consumer t) = Some (i, x)"
    from assms(7) [OF this] show "past t i" "x = Some (iv_info (conn t i))"
      using d last cur by auto
  next
    fix a assume "a \<in> set (ph_answers t)"
    from assms(8) [OF this] show "past t (pa_input a)" "pa_info a = Some (iv_info (conn t (pa_input a)))"
      using d last by auto
  next
    assume "px_available t \<or> knows (px_point t)"
    with assms(6) consider
        (old) "px_available s \<or> knows (px_point s)" "px_current t = px_current s" "px_info t = px_info s"
      | (new) "\<exists>i. px_current t = Some i \<and> px_info t = Some (iv_info (conn t i))" by blast
    then show "\<exists>i. px_current t = Some i \<and> px_info t = Some (iv_info (conn t i))"
    proof cases
      case old
      with d obtain i where i: "px_current s = Some i" "px_info s = Some (iv_info (conn s i))" by blast
      have "standing (phase_at (px_point s))"
        using old(1) assms(5) by (auto simp: readers_def avail_standing knows_standing)
      with i assms(3) have "past s i" by (auto simp: past_def shape_px_def)
      with last i old show ?thesis by simp
    qed
  qed
qed

lemma described_worker:
  assumes "proxy_ready s" "shape_px s" "inputs_ok s" "readers s" "described s"
  shows "described (worker_px s)"
proof -
  fix D :: "'a demux_lib"
  note r = assms(4) [unfolded readers_def] and h = assms(2) [unfolded shape_px_def]
  have keep: "px_consumer (worker_px s) = px_consumer s" "ph_answers (worker_px s) = ph_answers s"
    by (auto simp: px_worker_defs split: proxy_point.splits sum.splits option.splits prod.splits control_point.splits)
  show ?thesis
    by (rule described_keeps [OF assms(5) proxying.worker [OF assms(1)] assms(2,3,4)])
      (use keep r h in \<open>cases "px_point s"; auto simp: px_worker_defs split: sum.splits option.splits prod.splits
        control_point.splits after_px.splits if_splits\<close>)+
qed

lemma described_consumer:
  assumes "consumer_ready s" "shape_px s" "inputs_ok s" "readers s" "described s"
  shows "described (consume_px s)"
proof -
  fix D :: "'a demux_lib"
  show ?thesis
  proof (rule described_keeps [OF assms(5) proxying.consumer [OF assms(1)] assms(2,3,4)])
    assume "px_available (consume_px s) \<or> knows (px_point (consume_px s))"
    then have "px_available s \<or> knows (px_point s)"
      by (auto simp: consume_px_def read_first_def no_packet_def Let_def
        split: consumer_point.splits option.splits reader_point.splits prod.splits read_answer.splits if_splits)
    then show "(px_available s \<or> knows (px_point s)) \<and> px_current (consume_px s) = px_current s \<and>
        px_info (consume_px s) = px_info s \<or>
      (\<exists>i. px_current (consume_px s) = Some i \<and> px_info (consume_px s) = Some (iv_info (conn (consume_px s) i)))" by simp
  next
    fix i d assume "attached_info (px_consumer (consume_px s)) = Some (i, d)"
    then show "attached_info (px_consumer s) = Some (i, d) \<or> px_current s = Some i \<and> d = px_info s \<and> px_available s"
      by (auto simp: consume_px_def read_first_def no_packet_def Let_def
        split: consumer_point.splits option.splits reader_point.splits prod.splits read_answer.splits if_splits)
  next
    fix a assume "a \<in> set (ph_answers (consume_px s))"
    then show "a \<in> set (ph_answers s) \<or> attached_info (px_consumer s) = Some (pa_input a, pa_info a)"
      by (auto simp: consume_px_def read_first_def no_packet_def Let_def
        split: consumer_point.splits option.splits reader_point.splits prod.splits read_answer.splits if_splits)
  qed
qed

lemma described_step:
  assumes "proxying D s t" "shape_px s" "inputs_ok s" "readers s" "described s"
  shows "described t"
proof -
  note keeps = described_keeps [OF assms(5,1-4)]
  from assms show ?thesis
  proof (induction rule: proxying.induct)
    case (worker s)
    then show ?case by (blast intro: described_worker)
  next
    case (input_worker i s now)
    show ?case
      by (rule described_keeps [OF input_worker(6) proxying.input_worker [OF input_worker(1,2)] input_worker(3-5)]) auto
  next
    case (input_control i s started now)
    show ?case
      by (rule described_keeps [OF input_control(6) proxying.input_control [OF input_control(1,2)] input_control(3-5)]) auto
  next
    case (input_cancel i s)
    show ?case
      by (rule described_keeps [OF input_cancel(6) proxying.input_cancel [OF input_cancel(1,2)] input_cancel(3-5)]) auto
  next
    case (consumer s)
    then show ?case by (blast intro: described_consumer)
  next
    case (stop_cancel i s)
    show ?case
      by (rule described_keeps [OF stop_cancel(5) proxying.stop_cancel [OF stop_cancel(1)] stop_cancel(2-4)])
        (auto simp: stop_cancel_def)
  next
    case (start s created url)
    show ?case
      by (rule described_keeps [OF start(6) proxying.start [OF start(1,2)] start(3-5)])
        (use start in \<open>auto simp: Start_px_def Let_def shape_px_def split: if_splits\<close>)
  qed (auto simp: described_def past_def stop_flag_def stop_join_def shape_px_def)
qed

section \<open>What reads have returned\<close>

definition answered :: "nat \<Rightarrow> 'd proxy \<Rightarrow> av_packet list" where
  "answered i s = map (the \<circ> pa_packet) (filter (\<lambda>a. pa_input a = i \<and> pa_packet a \<noteq> None) (ph_answers s))"

definition gathered :: "'d proxy \<Rightarrow> bool" where
  "gathered s \<longleftrightarrow> (\<forall>i < length (px_inputs s). answered i s = ih_got (conn s i))"

lemma worker_px_keeps [simp]:
  "px_consumer (worker_px s) = px_consumer s" "ph_answers (worker_px s) = ph_answers s"
  "px_stopping (worker_px s) = px_stopping s" "px_config (worker_px s) = px_config s"
  "px_cancels (worker_px s) = px_cancels s" "px_thread (worker_px s) = px_thread s"
  by (auto simp: px_worker_defs split: proxy_point.splits sum.splits option.splits prod.splits control_point.splits)

lemma gathered_worker:
  assumes "proxy_ready s" "shape_px s" "inputs_ok s" "described s" "gathered s"
  shows "gathered (worker_px s)"
proof -
  note h = assms(2) [unfolded shape_px_def] and g = assms(5) [unfolded gathered_def]
  have a: "answered i (worker_px s) = answered i s" for i
    by (simp add: answered_def)
  consider (create) "px_point s = W_create" | (opens) "px_point s = W_open" | (joins) "px_point s = W_opening"
    | (closes) st where "px_point s = W_close st"
    | (other) "px_point s \<noteq> W_create" "px_point s \<noteq> W_open" "px_point s \<noteq> W_opening" "\<forall>st. px_point s \<noteq> W_close st"
    by blast
  then show ?thesis
  proof cases
    case create
    obtain i :: "'a input" where i: "AvInput_new (pc_input (px_config s)) = Inr i" using h by blast
    have "answered (length (px_inputs s)) s = []"
      using assms(4) by (auto simp: answered_def described_def past_def filter_empty_conv)
    with AvInput_new_fresh [OF i] g create show ?thesis
      unfolding gathered_def a by (auto simp: worker_px_def i nth_append less_Suc_eq)
  next
    case opens
    with h obtain i where i: "px_current s = Some i" "Suc i = length (px_inputs s)" by fastforce
    with h opens have f: "gone (conn s i)" "ih_seen (conn s i) = []" by simp_all
    from assms(3) i have "in_inv (conn s i)" by (simp add: inputs_ok_def)
    with f have got: "ih_got (conn s i) = []" by (simp add: in_inv_def passing_def)
    obtain e t where t: "begin_open (px_url s) (conn s i) = (e, t)" by fastforce
    from t f(1) got have "ih_got t = []" by (cases rule: begin_open_cases) simp_all
    with g opens i t got show ?thesis
      unfolding gathered_def a by (auto simp: worker_px_def update_nth split: option.split)
  next
    case joins
    with g show ?thesis
      unfolding gathered_def a by (auto simp: worker_px_def update_nth split: option.split control_point.split)
  next
    case closes
    with g show ?thesis
      unfolding gathered_def a by (auto simp: worker_px_def update_nth begin_close_def split: option.split)
  next
    case other
    with g show ?thesis
      unfolding gathered_def a by (cases "px_point s") (auto simp: px_worker_defs)
  qed
qed

lemma read_first_answers: "ph_answers (snd (read_first w oc s)) = ph_answers s"
  by (cases rule: read_first_cases [of w oc s]) simp_all

lemma consumer_answers:
  "ph_answers (consume_px s) = ph_answers s @
     (case px_consumer s of
        Y_check i d w r \<Rightarrow> (case iv_reader (conn s i) of
            X_check x \<Rightarrow> (case fst (read_finish x (conn s i)) of
                R_packet p \<Rightarrow> [\<lparr>pa_input = i, pa_packet = Some p, pa_info = d\<rparr>] | _ \<Rightarrow> [])
          | _ \<Rightarrow> [])
      | Y_eof i d \<Rightarrow> [\<lparr>pa_input = i, pa_packet = None, pa_info = d\<rparr>]
      | _ \<Rightarrow> [])"
  by (cases "px_consumer s")
    (auto simp: consume_px_def read_first_answers no_packet_def Let_def split: reader_point.split prod.split read_answer.split)

lemma gathered_consumer:
  assumes "readers s" "gathered s"
  shows "gathered (consume_px s)"
proof (cases "px_consumer s")
  case (Y_check i d w oc)
  with assms(1) have "i < length (px_inputs s)" "reader_fits (px_consumer s) i (iv_reader (conn s i))"
    by (auto simp: readers_def)
  with Y_check obtain x where x: "iv_reader (conn s i) = X_check x" by auto
  obtain a c where c: "read_finish x (conn s i) = (a, c)" by fastforce
  from assms(2) x c show ?thesis
    by (cases a) (auto simp: gathered_def answered_def consumer_answers consume_px_inputs Y_check update_nth finish_keeps [OF c])
qed (use assms(2) in \<open>auto simp: gathered_def answered_def consumer_answers consume_px_inputs update_nth\<close>)

lemma gathered_step:
  assumes "proxying D s t" "shape_px s" "inputs_ok s" "readers s" "described s" "gathered s"
  shows "gathered t"
  using assms
proof (induction rule: proxying.induct)
  case (worker s)
  from gathered_worker [OF worker(1,2,3,5,6)] show ?case .
next
  case (input_worker i s now)
  then have st: "stand (conn s i)" by (simp add: inputs_ok_def in_inv_def)
  from input_worker(7) show ?case
    by (auto simp: gathered_def answered_def step_worker_inputs [OF st input_worker(2,1)] update_nth)
next
  case (input_control i s started now)
  then show ?case
    by (auto simp: gathered_def answered_def step_control_inputs [OF input_control(1)] update_nth)
next
  case (consumer s)
  from gathered_consumer [OF consumer(4,6)] show ?case .
qed (auto simp: gathered_def answered_def update_nth stop_flag_def stop_cancel_def stop_join_def Start_px_def Let_def)

end
