(* ===== verification/Proxy_Order.thy ===== *)
theory Proxy_Order
  imports Proxy_Inv
begin

text \<open>
  The order of what a proxy returns, for \<open>Input_Proxy\<close>: an answer never comes from a connection older
  than that of an answer before it (\<open>sequenced\<close>), which rests on what \<open>px_terminal\<close> records of the current
  connection (\<open>terminals\<close>); and an end of file is returned only when every packet that its connection took
  from the demuxer has been returned (\<open>completed\<close>).
\<close>

section \<open>The order of what is returned\<close>

definition earlier :: "proxy_answer \<Rightarrow> proxy_answer \<Rightarrow> bool" where
  "earlier a b \<longleftrightarrow> pa_input a < pa_input b \<or> pa_input a = pa_input b \<and> pa_packet a \<noteq> None"

definition clear_for :: "'d proxy \<Rightarrow> nat \<Rightarrow> bool" where
  "clear_for s i \<longleftrightarrow> (\<forall>a \<in> set (ph_answers s). pa_input a < i \<or> pa_input a = i \<and> pa_packet a \<noteq> None)"

definition ended_px :: "'d proxy \<Rightarrow> bool" where
  "ended_px s \<longleftrightarrow> (\<exists>st. px_terminal s = Some st \<and> is_state st = IS_ended)"

definition broken_px :: "'d proxy \<Rightarrow> bool" where
  "broken_px s \<longleftrightarrow> (\<exists>st. px_terminal s = Some st \<and> is_state st \<noteq> IS_ended)"

fun at_eof :: "consumer_point \<Rightarrow> nat option" where
  "at_eof (Y_eof i d) = Some i"
| "at_eof _ = None"

lemma at_eof_engaged: "at_eof c = Some i \<Longrightarrow> engaged c = Some i"
  by (cases c) simp_all

definition terminals :: "'d proxy \<Rightarrow> bool" where
  "terminals s \<longleftrightarrow>
     (\<forall>i. px_current s = Some i \<and> broken_px s \<longrightarrow>
        is_state (iv_status (conn s i)) = IS_failed \<or> is_state (iv_status (conn s i)) = IS_cancelled \<or>
        is_state (iv_status (conn s i)) = IS_closed \<and> phase_at (px_point s) = Closing) \<and>
     (\<forall>i. px_current s = Some i \<and> broken_px s \<longrightarrow> at_eof (px_consumer s) \<noteq> Some i) \<and>
     (\<forall>i. px_current s = Some i \<and> ended_px s \<longrightarrow>
        engaged (px_consumer s) \<noteq> Some i \<and> (pc_loop (px_config s) \<longrightarrow> \<not> px_available s) \<and> served (px_point s)) \<and>
     (\<forall>i. at_eof (px_consumer s) = Some i \<longrightarrow> over_in (conn s i))"

definition sequenced :: "'d proxy \<Rightarrow> bool" where
  "sequenced s \<longleftrightarrow> successively earlier (ph_answers s) \<and>
     (\<forall>i. engaged (px_consumer s) = Some i \<longrightarrow> clear_for s i) \<and>
     (\<forall>i. px_current s = Some i \<and> \<not> px_stopping s \<and> \<not> ended_px s \<longrightarrow> clear_for s i)"

definition complete_in :: "'d input \<Rightarrow> bool" where
  "complete_in c \<longleftrightarrow> ih_eof c \<and> ih_got c = ih_seen c"

definition completed :: "'d proxy \<Rightarrow> bool" where
  "completed s \<longleftrightarrow>
     (\<forall>i. at_eof (px_consumer s) = Some i \<longrightarrow> complete_in (conn s i)) \<and>
     (\<forall>a \<in> set (ph_answers s). pa_packet a = None \<longrightarrow> complete_in (conn s (pa_input a)))"

text \<open>\<open>terminals\<close>, step by step of the current connection.\<close>

lemma failed_worker:
  "in_inv c \<Longrightarrow> is_state (iv_status c) = IS_failed \<or> is_state (iv_status c) = IS_cancelled \<or> is_state (iv_status c) = IS_closed \<Longrightarrow>
   is_state (iv_status (worker_in D now c)) = is_state (iv_status c)"
  by (cases "iv_point c") (auto simp: in_inv_def stand_def in_worker_defs split: if_splits option.splits prod.splits demux_answer.splits sum.splits)

lemma failed_control:
  "in_inv c \<Longrightarrow> in_phase ph c \<Longrightarrow> ph \<noteq> Absent \<Longrightarrow> is_state (iv_status c) = IS_failed \<or> is_state (iv_status c) = IS_cancelled \<or>
     is_state (iv_status c) = IS_closed \<and> ph = Closing \<Longrightarrow> control_ready c \<Longrightarrow>
   is_state (iv_status (control_in D started now c)) = IS_failed \<or>
   is_state (iv_status (control_in D started now c)) = IS_cancelled \<or>
   is_state (iv_status (control_in D started now c)) = IS_closed \<and> ph = Closing"
  by (cases ph; cases "iv_control c" rule: opening_control.cases)
    (auto simp: gone_def in_inv_def stand_def control_ready_def in_control_defs split: if_splits option.splits prod.splits sum.splits)

lemma phase_next_closing: "phase_of_next k = Closing \<Longrightarrow> False"
  by (cases k) simp_all

lemma worker_effect:
  assumes "px_point s \<noteq> W_create" "shape_px s"
  shows "px_terminal (worker_px s) = px_terminal s" "iv_status (conn (worker_px s) i) = iv_status (conn s i)"
    "px_current (worker_px s) = Some i \<Longrightarrow> px_current s = Some i"
    "px_current (worker_px s) = Some i \<Longrightarrow> phase_at (px_point s) = Closing \<Longrightarrow> phase_at (px_point (worker_px s)) = Closing"
    "px_available (worker_px s) \<Longrightarrow> px_available s \<or> px_point s = W_avail"
    "length (px_inputs (worker_px s)) = length (px_inputs s)"
    "px_current (worker_px s) = Some i \<Longrightarrow> served (px_point s) \<Longrightarrow> served (px_point (worker_px s))"
proof -
  have st: "iv_status (f (conn s j)) = iv_status (conn s j) \<Longrightarrow> iv_status ((px_inputs s)[j := f (conn s j)] ! i) = iv_status (conn s i)" for f j
    by (cases "j = i"; cases "i < length (px_inputs s)") (auto simp: list_update_beyond)
  have op: "iv_status (snd (begin_open u c)) = iv_status c" for u and c :: "'a input"
    by (auto simp: begin_open_def split: sum.split)
  have cl: "iv_status (begin_close c) = iv_status c" for c :: "'a input"
    by (simp add: begin_close_def)
  show "iv_status (conn (worker_px s) i) = iv_status (conn s i)"
  proof (cases "px_point s")
    case W_open
    show ?thesis
    proof (cases "px_current s")
      case (Some j)
      obtain e t where t: "begin_open (px_url s) (conn s j) = (e, t)" by fastforce
      with op [of "px_url s" "conn s j"] have "iv_status t = iv_status (conn s j)" by simp
      with W_open Some t st [of "\<lambda>_. t" j] show ?thesis by (auto simp: worker_px_def split: option.split)
    qed (simp add: worker_px_def W_open)
  next
    case W_opening
    then show ?thesis
      using st [of "\<lambda>c. c\<lparr>iv_control := C_idle\<rparr>"] by (auto simp: worker_px_def split: option.split control_point.split)
  next
    case (W_close x)
    then show ?thesis
      using st [of begin_close] cl by (auto simp: worker_px_def split: option.split)
  qed (use assms(1) in \<open>auto simp: px_worker_defs\<close>)
  show "px_terminal (worker_px s) = px_terminal s"
    using assms(1) by (cases "px_point s") (auto simp: px_worker_defs split: option.split prod.split control_point.split)
  show "px_current (worker_px s) = Some i \<Longrightarrow> px_current s = Some i"
    using assms(1) by (cases "px_point s") (auto simp: px_worker_defs split: option.splits prod.splits control_point.splits if_splits)
  show "px_current (worker_px s) = Some i \<Longrightarrow> phase_at (px_point s) = Closing \<Longrightarrow> phase_at (px_point (worker_px s)) = Closing"
    by (cases "px_point s") (auto simp: px_worker_defs dest: phase_next_closing)
  show "px_available (worker_px s) \<Longrightarrow> px_available s \<or> px_point s = W_avail"
    using assms(1) by (cases "px_point s") (auto simp: px_worker_defs split: option.splits prod.splits control_point.splits if_splits)
  show "length (px_inputs (worker_px s)) = length (px_inputs s)"
    using assms(1) by (cases "px_point s") (auto simp: px_worker_defs split: option.split prod.split control_point.split)
  show "px_current (worker_px s) = Some i \<Longrightarrow> served (px_point s) \<Longrightarrow> served (px_point (worker_px s))"
    using assms(2) by (cases "px_point s") (auto simp: px_worker_defs shape_px_def split: option.splits)
qed

lemma terminals_worker:
  assumes "proxy_ready s" "shape_px s" "inputs_ok s" "readers s" "described s" "terminals s"
  shows "terminals (worker_px s)"
proof -
  note h = assms(2) [unfolded shape_px_def] and r = assms(4) [unfolded readers_def] and t = assms(6) [unfolded terminals_def]
  have eof: "over_in (conn (worker_px s) i)" if "at_eof (px_consumer s) = Some i" for i
  proof -
    from that have "past s i" using assms(5) by (cases "px_consumer s") (auto simp: described_def)
    from past_worker [OF assms(1,2) this] t that show ?thesis by (auto simp: lasting_def)
  qed
  show ?thesis
  proof (cases "px_point s = W_create")
    case True
    obtain i :: "'a input" where i: "AvInput_new (pc_input (px_config s)) = Inr i" using h by blast
    with True eof show ?thesis by (auto simp: terminals_def worker_px_def broken_px_def ended_px_def)
  next
    case False
    note e = worker_effect [OF False assms(2)]
    have b: "broken_px (worker_px s) = broken_px s" "ended_px (worker_px s) = ended_px s"
      by (simp_all add: broken_px_def ended_px_def e(1))
    have av: "\<not> px_available (worker_px s)" if "px_current s = Some i" "ended_px s" "pc_loop (px_config s)" for i
      using e(5) t that by fastforce
    show ?thesis
      unfolding terminals_def b e(2) worker_px_keeps
      using t e(3,4,7) eof av by blast
  qed
qed

lemma step_terminal:
  "px_terminal (step_input_worker D now i s) = px_terminal s \<or>
   (\<exists>st. iv_point (conn s i) = I_call st \<and> px_current s = Some i \<and> px_terminal s = None \<and>
      (is_state st = IS_failed \<or> is_state st = IS_cancelled) \<and> px_terminal (step_input_worker D now i s) = Some st)"
  "px_terminal (step_input_control D started now i s) = px_terminal s \<or>
   (\<exists>st k. iv_control (conn s i) = C_call st k \<and> px_current s = Some i \<and> px_terminal s = None \<and>
      (is_state st = IS_failed \<or> is_state st = IS_cancelled) \<and> px_terminal (step_input_control D started now i s) = Some st)"
  by (auto simp: step_input_worker_def step_input_control_def Let_def marks_def split: input_point.split control_point.split)

text \<open>Common to the steps of a connection: its status, and what the observer did with it.\<close>

lemma terminals_input:
  assumes "terminals s" "described s" "\<And>j. past s j \<Longrightarrow> past t j \<and> lasting (conn s j) (conn t j)"
    and "px_inputs t = (px_inputs s)[i := c]" "i < length (px_inputs s)"
    and "px_current t = px_current s" "px_point t = px_point s" "px_consumer t = px_consumer s" "px_config t = px_config s"
      "px_available t = px_available s"
    and "px_terminal t = px_terminal s \<or>
      (\<exists>st. px_current s = Some i \<and> px_terminal t = Some st \<and> (is_state st = IS_failed \<or> is_state st = IS_cancelled) \<and>
         is_state (iv_status (conn s i)) = is_state st \<and> is_state (iv_status c) = is_state st)"
    and "px_current s = Some i \<Longrightarrow> is_state (iv_status (conn s i)) = IS_failed \<or> is_state (iv_status (conn s i)) = IS_cancelled \<or>
        is_state (iv_status (conn s i)) = IS_closed \<and> phase_at (px_point s) = Closing \<Longrightarrow>
      is_state (iv_status c) = IS_failed \<or> is_state (iv_status c) = IS_cancelled \<or>
        is_state (iv_status c) = IS_closed \<and> phase_at (px_point s) = Closing"
  shows "terminals t"
proof -
  note t = assms(1) [unfolded terminals_def]
  have eof: "over_in (conn t j)" if "at_eof (px_consumer s) = Some j" for j
  proof -
    from that have "past s j" using assms(2) by (cases "px_consumer s") (auto simp: described_def)
    from assms(3) [OF this] t that show ?thesis by (auto simp: lasting_def)
  qed
  from assms(11) show ?thesis
  proof
    assume e: "px_terminal t = px_terminal s"
    then have "broken_px t = broken_px s" "ended_px t = ended_px s" by (simp_all add: broken_px_def ended_px_def)
    with t eof assms(4-10,12) show ?thesis by (auto simp: terminals_def nth_list_update)
  next
    assume "\<exists>st. px_current s = Some i \<and> px_terminal t = Some st \<and> (is_state st = IS_failed \<or> is_state st = IS_cancelled) \<and>
         is_state (iv_status (conn s i)) = is_state st \<and> is_state (iv_status c) = is_state st"
    then obtain st where st: "px_current s = Some i" "px_terminal t = Some st" "is_state st = IS_failed \<or> is_state st = IS_cancelled"
        "is_state (iv_status (conn s i)) = is_state st" "is_state (iv_status c) = is_state st" by blast
    from st have "\<not> ended_px t" by (auto simp: ended_px_def)
    moreover from st t have "at_eof (px_consumer s) \<noteq> Some i" by (auto simp: over_in_def)
    ultimately show ?thesis using st eof assms(4-10) by (auto simp: terminals_def nth_list_update)
  qed
qed

lemma terminals_consumer:
  assumes "consumer_ready s" "shape_px s" "inputs_ok s" "readers s" "described s" "terminals s"
  shows "terminals (consume_px s)"
proof -
  note t = assms(6) [unfolded terminals_def]
  have r: "engaged (px_consumer s) = Some i \<Longrightarrow> i < length (px_inputs s)" for i
    using assms(4) by (simp add: readers_def)
  show ?thesis
  proof (cases "px_consumer s")
    case (Y_begin wait oc)
    show ?thesis
    proof (cases rule: read_first_cases [of wait oc s])
      case (engages i)
      then have "\<not> ended_px s"
        using t by (auto simp: ended_px_def source_over_def split: option.splits)
      with engages Y_begin t show ?thesis by (auto simp: terminals_def consume_px_def broken_px_def ended_px_def)
    qed (use t Y_begin in \<open>auto simp: terminals_def consume_px_def broken_px_def ended_px_def\<close>)
  next
    case (Y_input i d w oc)
    with t r [of i] show ?thesis
      by (auto simp: terminals_def consume_px_def no_packet_def Let_def broken_px_def ended_px_def nth_list_update)
  next
    case (Y_pop i d w oc)
    with t r [of i] show ?thesis
      by (auto simp: terminals_def consume_px_def broken_px_def ended_px_def nth_list_update)
  next
    case (Y_check i d w oc)
    with assms(4) have "i < length (px_inputs s)" "reader_fits (px_consumer s) i (iv_reader (conn s i))"
      by (auto simp: readers_def)
    with Y_check obtain x where x: "iv_reader (conn s i) = X_check x" by auto
    obtain a c where c: "read_finish x (conn s i) = (a, c)" by fastforce
    have e: "is_state (iv_status (conn s i)) = IS_ended" if "a = R_eof"
      using c that by (auto simp: read_finish_def Let_def split: if_splits option.splits)
    from t Y_check x c r [of i] e show ?thesis
      by (cases a) (auto simp: terminals_def consume_px_def no_packet_def broken_px_def ended_px_def over_in_def nth_list_update
        finish_keeps [OF c])
  next
    case (Y_eof i d)
    with assms(4) have sv: "px_current s = Some i \<Longrightarrow> served (px_point s)" by (auto simp: readers_def)
    show ?thesis
    proof (cases "\<not> px_stopping s \<and> px_current s = Some i \<and> px_terminal s = None")
      case True
      with sv Y_eof have "consume_px s = s\<lparr>px_terminal := Some (status_of IS_ended),
          px_available := (px_available s \<and> \<not> pc_loop (px_config s)), px_consumer := Y_idle,
          ph_answers := ph_answers s @ [\<lparr>pa_input = i, pa_packet = None, pa_info = d\<rparr>]\<rparr>"
        by (simp add: consume_px_def)
      with True sv show ?thesis by (simp add: terminals_def broken_px_def ended_px_def status_of_def)
    next
      case False
      then have "consume_px s = s\<lparr>px_consumer := Y_idle,
          ph_answers := ph_answers s @ [\<lparr>pa_input = i, pa_packet = None, pa_info = d\<rparr>]\<rparr>"
        using Y_eof by (auto simp: consume_px_def)
      with t show ?thesis by (simp add: terminals_def broken_px_def ended_px_def)
    qed
  qed (use t in \<open>auto simp: terminals_def consume_px_def broken_px_def ended_px_def\<close>)
qed

lemma terminals_step:
  assumes "proxying D s t" "shape_px s" "inputs_ok s" "readers s" "described s" "terminals s"
  shows "terminals t"
  using assms
proof (induction rule: proxying.induct)
  case (worker s)
  then show ?case by (rule terminals_worker)
next
  case (input_worker i s now)
  then have inv: "in_inv (conn s i)" by (simp add: inputs_ok_def)
  then have st: "stand (conn s i)" by (simp add: in_inv_def)
  have call: "is_state (iv_status (worker_in D now (conn s i))) = is_state u \<and> is_state (iv_status (conn s i)) = is_state u"
    if "iv_point (conn s i) = I_call u" for u
    using that st by (auto simp: stand_def in_worker_defs split: if_splits)
  let ?t = "step_input_worker D now i s"
  have tm: "px_terminal ?t = px_terminal s \<or>
      (\<exists>st. px_current s = Some i \<and> px_terminal ?t = Some st \<and> (is_state st = IS_failed \<or> is_state st = IS_cancelled) \<and>
         is_state (iv_status (conn s i)) = is_state st \<and> is_state (iv_status (worker_in D now (conn s i))) = is_state st)"
    using step_terminal(1) [of D now i s] call by blast
  show ?case
    by (rule terminals_input [OF input_worker(7,6) past_step [OF proxying.input_worker [OF input_worker(1,2)] input_worker(3-5)]
        step_worker_inputs [OF st input_worker(2,1)] input_worker(1) _ _ _ _ _ tm])
      (simp, simp, simp, simp, simp, use failed_worker [OF inv, of D now] in auto)
next
  case (input_control i s started now)
  then have inv: "in_inv (conn s i)" by (simp add: inputs_ok_def)
  then have st: "stand (conn s i)" by (simp add: in_inv_def)
  have call: "is_state (iv_status (control_in D started now (conn s i))) = is_state u \<and> is_state (iv_status (conn s i)) = is_state u"
    if "iv_control (conn s i) = C_call u k" for u k
    using that st by (auto simp: stand_def in_control_defs)
  have fc: "px_current s = Some i \<Longrightarrow> is_state (iv_status (conn s i)) = IS_failed \<or> is_state (iv_status (conn s i)) = IS_cancelled \<or>
        is_state (iv_status (conn s i)) = IS_closed \<and> phase_at (px_point s) = Closing \<Longrightarrow>
      is_state (iv_status (control_in D started now (conn s i))) = IS_failed \<or>
      is_state (iv_status (control_in D started now (conn s i))) = IS_cancelled \<or>
      is_state (iv_status (control_in D started now (conn s i))) = IS_closed \<and> phase_at (px_point s) = Closing"
    using failed_control [OF inv, of "phase_at (px_point s)" D started now] input_control(2,3) by (auto simp: shape_px_def)
  let ?t = "step_input_control D started now i s"
  let ?c = "if reapplies s i then (control_in D started now (conn s i))\<lparr>iv_cancelled := True\<rparr>
      else control_in D started now (conn s i)"
  have tm: "px_terminal ?t = px_terminal s \<or>
      (\<exists>st. px_current s = Some i \<and> px_terminal ?t = Some st \<and> (is_state st = IS_failed \<or> is_state st = IS_cancelled) \<and>
         is_state (iv_status (conn s i)) = is_state st \<and> is_state (iv_status ?c) = is_state st)"
    using step_terminal(2) [of D started now i s] call by fastforce
  show ?case
    by (rule terminals_input [OF input_control(7,6) past_step [OF proxying.input_control [OF input_control(1,2)] input_control(3-5)]
        step_control_inputs [OF input_control(1)] input_control(1) _ _ _ _ _ tm])
      (simp, simp, simp, simp, simp, use fc in auto)
next
  case (input_cancel i s)
  show ?case
    by (rule terminals_input [where c = "cancel_queue (conn s i)",
        OF input_cancel(7,6) past_step [OF proxying.input_cancel [OF input_cancel(1,2)] input_cancel(3-5)] _ input_cancel(1)]) auto
next
  case (consumer s)
  then show ?case by (rule terminals_consumer)
next
  case (stop_cancel i s)
  then have i: "i < length (px_inputs s)" by (simp add: readers_def)
  show ?case
    by (rule terminals_input [where c = "cancel_flag (conn s i)",
        OF stop_cancel(6,5) past_step [OF proxying.stop_cancel [OF stop_cancel(1)] stop_cancel(2-4)] _ i])
      (auto simp: stop_cancel_def)
next
  case (start s created url)
  then show ?case
    by (auto simp: terminals_def Start_px_def Let_def shape_px_def broken_px_def ended_px_def)
qed (auto simp: terminals_def broken_px_def ended_px_def stop_flag_def stop_join_def shape_px_def)

lemma answers_below:
  assumes "described s" "shape_px s" "a \<in> set (ph_answers s)"
  shows "pa_input a < length (px_inputs s)" "px_current s = Some i \<Longrightarrow> pa_input a \<le> i"
proof -
  from assms(1,3) show l: "pa_input a < length (px_inputs s)" by (auto simp: described_def past_def)
  show "pa_input a \<le> i" if "px_current s = Some i" using l assms(2) that by (auto simp: shape_px_def)
qed

lemma sequenced_same:
  assumes "sequenced s" "ph_answers t = ph_answers s" "engaged (px_consumer t) = engaged (px_consumer s)"
    and "\<And>i. px_current t = Some i \<Longrightarrow> \<not> px_stopping t \<Longrightarrow> \<not> ended_px t \<Longrightarrow>
      px_current s = Some i \<and> \<not> px_stopping s \<and> \<not> ended_px s \<or> clear_for s i"
  shows "sequenced t"
proof -
  have "clear_for t = clear_for s" by (simp add: clear_for_def fun_eq_iff assms(2))
  with assms show ?thesis unfolding sequenced_def by auto
qed

lemma sequenced_worker:
  assumes "shape_px s" "described s" "sequenced s"
  shows "sequenced (worker_px s)"
proof (rule sequenced_same [OF assms(3)])
  fix i assume w: "px_current (worker_px s) = Some i" "\<not> px_stopping (worker_px s)" "\<not> ended_px (worker_px s)"
  show "px_current s = Some i \<and> \<not> px_stopping s \<and> \<not> ended_px s \<or> clear_for s i"
  proof (cases "px_point s = W_create")
    case True
    obtain c :: "'a input" where "AvInput_new (pc_input (px_config s)) = Inr c" using assms(1) by (auto simp: shape_px_def)
    with True w have "i = length (px_inputs s)" by (simp add: worker_px_def)
    with answers_below(1) [OF assms(2,1)] show ?thesis by (auto simp: clear_for_def)
  next
    case False
    from worker_effect(1,3) [OF False assms(1)] w show ?thesis by (simp add: ended_px_def)
  qed
qed simp_all

lemma successively_snoc: "successively P (xs @ [x]) \<longleftrightarrow> successively P xs \<and> (xs \<noteq> [] \<longrightarrow> P (last xs) x)"
  by (auto simp: successively_append_iff)

lemma sequenced_append:
  assumes "sequenced s" "described s" "shape_px s" "engaged (px_consumer s) = Some (pa_input a)"
    and "ph_answers t = ph_answers s @ [a]" "engaged (px_consumer t) = None" "px_current t = px_current s"
    and "\<And>i. px_current s = Some i \<Longrightarrow> \<not> px_stopping t \<Longrightarrow> \<not> ended_px t \<Longrightarrow>
      \<not> px_stopping s \<and> \<not> ended_px s \<and> (pa_input a = i \<longrightarrow> pa_packet a \<noteq> None)"
  shows "sequenced t"
proof -
  from assms(1,4) have c: "clear_for s (pa_input a)" and ord: "successively earlier (ph_answers s)"
    by (auto simp: sequenced_def)
  have "earlier (last (ph_answers s)) a" if "ph_answers s \<noteq> []"
    using c last_in_set [OF that] by (auto simp: clear_for_def earlier_def)
  with ord have "successively earlier (ph_answers t)" by (simp add: assms(5) successively_snoc)
  moreover have "clear_for t i" if "px_current s = Some i" "\<not> px_stopping t" "\<not> ended_px t" for i
  proof -
    have "clear_for s i" "pa_input a = i \<longrightarrow> pa_packet a \<noteq> None"
      using assms(8) [OF that] assms(1) that(1) by (auto simp: sequenced_def)
    moreover have "pa_input a \<le> i"
    proof -
      have "past s (pa_input a)" using assms(2,4) by (cases "px_consumer s") (auto simp: described_def)
      with that(1) assms(3) show ?thesis by (auto simp: past_def shape_px_def)
    qed
    ultimately show ?thesis by (auto simp: clear_for_def assms(5))
  qed
  ultimately show ?thesis by (simp add: sequenced_def assms(6,7))
qed

lemma sequenced_consumer:
  assumes "shape_px s" "readers s" "described s" "terminals s" "sequenced s"
  shows "sequenced (consume_px s)"
proof (cases "px_consumer s")
  case (Y_begin wait oc)
  show ?thesis
  proof (cases rule: read_first_cases [of wait oc s])
    case (engages i)
    then have "\<not> ended_px s"
      using assms(4) by (auto simp: terminals_def ended_px_def source_over_def split: option.splits)
    with engages assms(5) Y_begin show ?thesis
      by (auto simp: sequenced_def consume_px_def clear_for_def ended_px_def)
  qed (use assms(5) Y_begin in \<open>auto simp: sequenced_def consume_px_def clear_for_def ended_px_def\<close>)
next
  case (Y_check i d w oc)
  with assms(2) have "i < length (px_inputs s)" "reader_fits (px_consumer s) i (iv_reader (conn s i))"
    by (auto simp: readers_def)
  with Y_check obtain x where x: "iv_reader (conn s i) = X_check x" by auto
  obtain a c where c: "read_finish x (conn s i) = (a, c)" by fastforce
  show ?thesis
  proof (cases a)
    case (R_packet p)
    show ?thesis
      by (rule sequenced_append [OF assms(5,3,1), of "\<lparr>pa_input = i, pa_packet = Some p, pa_info = d\<rparr>"])
        (use Y_check x c R_packet in \<open>simp_all add: consume_px_def ended_px_def\<close>)
  qed (use Y_check x c assms(5) in \<open>auto simp: consume_px_def no_packet_def sequenced_def clear_for_def ended_px_def\<close>)
next
  case (Y_eof i d)
  have tm: "px_terminal s = None" if "px_current s = Some i"
    using that assms(4) Y_eof by (auto simp: terminals_def broken_px_def ended_px_def)
  show ?thesis
    by (rule sequenced_append [OF assms(5,3,1), of "\<lparr>pa_input = i, pa_packet = None, pa_info = d\<rparr>"])
      (use Y_eof tm in \<open>auto simp: consume_px_def ended_px_def status_of_def Let_def split: if_splits\<close>)
qed (use assms(5) in \<open>auto simp: sequenced_def consume_px_def clear_for_def ended_px_def no_packet_def Let_def\<close>)

lemma ended_input_step:
  "ended_px (step_input_worker D now i s) = ended_px s" "ended_px (step_input_control D started now i s) = ended_px s"
proof -
  have "ended_px t = ended_px s"
    if "px_terminal t = px_terminal s \<or>
      px_terminal s = None \<and> (\<exists>st. px_terminal t = Some st \<and> is_state st \<noteq> IS_ended)" for t :: "'a proxy"
    using that unfolding ended_px_def by (elim disjE) (simp, fastforce)
  note k = this
  show "ended_px (step_input_worker D now i s) = ended_px s"
    by (rule k) (use step_terminal(1) [of D now i s] in auto)
  show "ended_px (step_input_control D started now i s) = ended_px s"
    by (rule k) (use step_terminal(2) [of D started now i s] in auto)
qed
lemma sequenced_step:
  assumes "proxying D s t" "shape_px s" "inputs_ok s" "readers s" "described s" "terminals s" "sequenced s"
  shows "sequenced t"
  using assms
proof (induction rule: proxying.induct)
  case (worker s)
  from sequenced_worker [OF worker(2,5,7)] show ?case .
next
  case (consumer s)
  from sequenced_consumer [OF consumer(2,4,5,6,7)] show ?case .
next
  case (input_worker i s now)
  show ?case by (rule sequenced_same [OF input_worker(8)]) (simp_all add: ended_input_step)
next
  case (input_control i s started now)
  show ?case by (rule sequenced_same [OF input_control(8)]) (simp_all add: ended_input_step)
next
  case (start s created url)
  show ?case
    by (rule sequenced_same [OF start(8)])
      (use start in \<open>auto simp: Start_px_def Let_def shape_px_def ended_px_def split: if_splits\<close>)
qed (auto intro!: sequenced_same simp: ended_px_def stop_flag_def stop_cancel_def stop_join_def sequenced_def clear_for_def)

lemma completed_keeps:
  assumes "completed s" "described s" "\<And>i. past s i \<Longrightarrow> past t i \<and> lasting (conn s i) (conn t i)"
    and "\<And>i. past s i \<Longrightarrow> complete_in (conn s i) \<Longrightarrow> ih_got (conn t i) = ih_got (conn s i)"
    and "\<And>i. at_eof (px_consumer t) = Some i \<Longrightarrow> at_eof (px_consumer s) = Some i \<or> complete_in (conn t i)"
    and "\<And>a. a \<in> set (ph_answers t) \<Longrightarrow> a \<in> set (ph_answers s) \<or> pa_packet a \<noteq> None \<or> at_eof (px_consumer s) = Some (pa_input a)"
  shows "completed t"
proof -
  have last: "complete_in (conn t i)" if "past s i" "complete_in (conn s i)" for i
    using assms(3) [OF that(1)] assms(4) [OF that] that(2) by (simp add: lasting_def complete_in_def)
  have eof: "past s i \<and> complete_in (conn s i)" if "at_eof (px_consumer s) = Some i" for i
    using that assms(1,2) by (cases "px_consumer s") (auto simp: described_def completed_def)
  show ?thesis
    unfolding completed_def
  proof (intro conjI allI ballI impI)
    fix i assume "at_eof (px_consumer t) = Some i"
    from assms(5) [OF this] show "complete_in (conn t i)" using eof last by blast
  next
    fix a assume a: "a \<in> set (ph_answers t)" "pa_packet a = None"
    from assms(6) [OF a(1)] a(2) consider "a \<in> set (ph_answers s)" | "at_eof (px_consumer s) = Some (pa_input a)" by blast
    then show "complete_in (conn t (pa_input a))"
      using assms(1,2) a(2) eof last by cases (auto simp: completed_def described_def)
  qed
qed

lemma eof_complete:
  assumes "in_inv c" "iv_reader c = X_check x" "read_finish x c = (R_eof, c')"
  shows "complete_in c'"
proof -
  from assms(3) have e: "\<not> iv_cancelled c" "x = None" "is_state (iv_status c) = IS_ended"
    by (auto simp: read_finish_def Let_def split: if_splits option.splits)
  with assms(1) have "hand_in (iv_point c) = []"
    by (cases "iv_point c") (auto simp: in_inv_def stand_def split: if_splits)
  with e assms(1,2) show ?thesis
    by (simp add: in_inv_def drained_in_def passing_def complete_in_def finish_keeps [OF assms(3)])
qed

lemma got_complete:
  assumes "in_inv c" "complete_in c" "iv_reader c = X_check x" "read_finish x c = (R_packet p, c')"
  shows False
proof -
  from assms(4) have "\<not> iv_cancelled c" "x = Some p" by (auto simp: read_finish_def Let_def split: if_splits option.splits)
  with assms(1-3) show False by (simp add: in_inv_def passing_def complete_in_def)
qed

lemma got_worker:
  assumes "proxy_ready s" "shape_px s" "past s i"
  shows "ih_got (conn (worker_px s) i) = ih_got (conn s i)"
proof -
  note h = assms(2) [unfolded shape_px_def] and p = assms(3) [unfolded past_def]
  consider (create) "px_point s = W_create" | (opens) "px_point s = W_open" | (joins) "px_point s = W_opening"
    | (closes) st where "px_point s = W_close st"
    | (other) "px_point s \<noteq> W_create" "px_point s \<noteq> W_open" "px_point s \<noteq> W_opening" "\<forall>st. px_point s \<noteq> W_close st"
    by blast
  then show ?thesis
  proof cases
    case create
    obtain c :: "'a input" where c: "AvInput_new (pc_input (px_config s)) = Inr c" using h by blast
    from p create show ?thesis by (auto simp: worker_px_def c nth_append)
  next
    case opens
    with p have "px_current s \<noteq> Some i" by auto
    with p opens show ?thesis by (auto simp: worker_px_def update_nth split: option.split prod.split)
  qed (use p in \<open>auto simp: px_worker_defs update_nth begin_close_def
      split: proxy_point.split option.split control_point.split\<close>)
qed

lemma completed_consumer:
  assumes "consumer_ready s" "shape_px s" "inputs_ok s" "readers s" "described s" "completed s"
  shows "completed (consume_px s)"
proof -
  note past = past_consumer [OF assms(4)]
  show ?thesis
  proof (cases "px_consumer s")
    case (Y_check i d w oc)
    with assms(4) have i: "i < length (px_inputs s)" and "reader_fits (px_consumer s) i (iv_reader (conn s i))"
      by (auto simp: readers_def)
    with Y_check obtain x where x: "iv_reader (conn s i) = X_check x" by auto
    obtain a c where c: "read_finish x (conn s i) = (a, c)" by fastforce
    from assms(3) i have inv: "in_inv (conn s i)" by (simp add: inputs_ok_def)
    have ins: "px_inputs (consume_px s) = (px_inputs s)[i := c]" by (simp add: consume_px_inputs Y_check x c)
    show ?thesis
    proof (rule completed_keeps [OF assms(6,5) past])
      fix j assume j: "complete_in (conn s j)"
      show "ih_got (conn (consume_px s) j) = ih_got (conn s j)"
      proof (cases "i = j")
        case True
        with got_complete [OF inv _ x] c j finish_keeps(12) [OF c] i show ?thesis
          unfolding ins by (cases a) auto
      qed (simp add: ins)
    next
      fix j assume "at_eof (px_consumer (consume_px s)) = Some j"
      then have "a = R_eof" "j = i"
        using Y_check x c by (cases a; auto simp: consume_px_def no_packet_def split: if_splits)+
      with eof_complete [OF inv x] c i show "at_eof (px_consumer s) = Some j \<or> complete_in (conn (consume_px s) j)"
        by (simp add: ins)
    qed (use Y_check x c in \<open>auto simp: consumer_answers split: read_answer.splits\<close>)
  next
    case (Y_begin wait oc)
    have e: "at_eof (px_consumer (consume_px s)) = None"
      using Y_begin by (cases rule: read_first_cases [of wait oc s]) (simp_all add: consume_px_def)
    show ?thesis
      by (rule completed_keeps [OF assms(6,5) past])
        (auto simp: e consumer_answers consume_px_inputs Y_begin)
  qed (rule completed_keeps [OF assms(6,5) past];
      auto simp: consumer_answers consume_px_inputs consume_px_def no_packet_def Let_def update_nth past_def split: if_splits)+
qed

lemma control_got [simp]: "ih_got (control_in D started now c) = ih_got c"
  by (auto simp: in_control_defs split: control_point.splits sum.splits option.splits prod.splits after_publish.splits)

lemma worker_got [simp]: "ih_got (worker_in D now c) = ih_got c"
  by (auto simp: in_worker_defs split: input_point.splits if_splits option.splits prod.splits demux_answer.splits sum.splits)

lemma completed_step:
  assumes "proxying D s t" "shape_px s" "inputs_ok s" "readers s" "described s" "completed s"
  shows "completed t"
proof -
  note past = past_step [OF assms(1-4)]
  note keep = completed_keeps [OF assms(6,5) past]
  have ats: "at_eof c = Some i \<Longrightarrow> engaged c = Some i" for c i by (rule at_eof_engaged)
  from assms(1) show ?thesis
  proof cases
    case worker
    show ?thesis
      by (rule keep) (use got_worker [OF worker(2) assms(2)] worker(1) in auto)
  next
    case (input_worker i now)
    then have st: "stand (conn s i)" using assms(3) by (simp add: inputs_ok_def in_inv_def)
    show ?thesis
      by (rule keep) (auto simp: input_worker(1) step_worker_inputs [OF st input_worker(3,2)] update_nth past_def)
  next
    case (input_control i started now)
    show ?thesis
      by (rule keep) (auto simp: input_control(1) step_control_inputs [OF input_control(2)] update_nth past_def)
  next
    case consumer
    with completed_consumer [OF _ assms(2-6)] show ?thesis by simp
  next
    case (start created url)
    show ?thesis
      by (rule keep) (auto simp: start Start_px_def Let_def split: if_splits)
  qed (rule keep; auto simp: past_def update_nth stop_flag_def stop_cancel_def stop_join_def)+
qed

section \<open>The invariant\<close>

definition proxy_inv :: "'d proxy \<Rightarrow> bool" where
  "proxy_inv s \<longleftrightarrow> shape_px s \<and> inputs_ok s \<and> readers s \<and> described s \<and> gathered s \<and> terminals s \<and> sequenced s \<and> completed s"

lemma proxy_inv_step:
  assumes "proxying D s t" "proxy_inv s"
  shows "proxy_inv t"
proof -
  from assms(2) have h: "shape_px s" "inputs_ok s" "readers s" "described s" "gathered s" "terminals s" "sequenced s" "completed s"
    by (simp_all add: proxy_inv_def)
  show ?thesis
    unfolding proxy_inv_def
    using shape_step [OF assms(1)] inputs_ok_step [OF assms(1)] readers_step [OF assms(1)] described_step [OF assms(1)]
      gathered_step [OF assms(1)] terminals_step [OF assms(1)] sequenced_step [OF assms(1)] completed_step [OF assms(1)] h
    by simp
qed

lemma proxy_inv_start: "AvInputProxy_new c = Inr s \<Longrightarrow> proxy_inv s"
  by (auto simp: AvInputProxy_new_def chain_def proxy_inv_def shape_px_def inputs_ok_def readers_def described_def gathered_def
      terminals_def sequenced_def completed_def answered_def split: if_splits sum.splits)

lemma proxy_runs_inv:
  assumes "proxy_runs D t"
  shows "proxy_inv t"
proof -
  from assms obtain c s where s: "AvInputProxy_new c = Inr s" "(proxying D)\<^sup>*\<^sup>* s t" by (auto simp: proxy_runs_def)
  from this(2) proxy_inv_start [OF this(1)] show ?thesis by induction (auto intro: proxy_inv_step)
qed

end
