(* ===== verification/Proxy_Retry.thy ===== *)
theory Proxy_Retry
  imports Proxy_Order
begin

text \<open>
  What the worker of a proxy publishes and how it counts, for \<open>Input_Proxy\<close>: \<open>on_course\<close> ties the program
  point of the worker to the state it published last, to the count of retries, and to the attempts made;
  \<open>unlost\<close> is the rule by which a stop reaches the connection that is being opened.
\<close>

section \<open>States and attempts\<close>

text \<open>Which state follows which.\<close>

fun state_next :: "proxy_state \<Rightarrow> proxy_state \<Rightarrow> bool" where
  "state_next PS_connecting st = (st = PS_connected \<or> st = PS_waiting \<or> st = PS_failed \<or> st = PS_stopped)"
| "state_next PS_connected st = (st = PS_connecting \<or> st = PS_waiting \<or> st = PS_failed \<or> st = PS_ended \<or> st = PS_stopped)"
| "state_next PS_waiting st = (st = PS_connecting \<or> st = PS_stopped)"
| "state_next _ st = False"

text \<open>Failures since the last attempt that opened its connection, that one included if it failed in the end.\<close>

definition note_attempt :: "nat \<Rightarrow> bool \<times> input_state \<Rightarrow> nat" where
  "note_attempt n a = (if fst a then 0 else n) + (if snd a = IS_failed then 1 else 0)"

definition failures :: "(bool \<times> input_state) list \<Rightarrow> nat" where
  "failures as = foldl note_attempt 0 as"

lemma failures_simps [simp]:
  "failures [] = 0" "failures (as @ [(True, st)]) = (if st = IS_failed then 1 else 0)"
  "failures (as @ [(False, IS_failed)]) = failures as + 1"
  by (simp_all add: failures_def note_attempt_def)

definition affordable :: "int \<Rightarrow> nat \<Rightarrow> bool" where
  "affordable m n \<longleftrightarrow> m < 0 \<or> int n \<le> m"

definition trying :: "'d proxy \<Rightarrow> bool" where
  "trying s \<longleftrightarrow> px_count s = failures (ph_attempts s) \<and> affordable (pc_max (px_config s)) (px_count s)"

text \<open>The last state published, and whether \<open>st\<close> may be published now.\<close>

definition shown :: "'d proxy \<Rightarrow> bool" where
  "shown s \<longleftrightarrow> (if ph_states s = [] then px_state s = PS_connecting else last (ph_states s) = px_state s)"

definition showable :: "proxy_state \<Rightarrow> 'd proxy \<Rightarrow> bool" where
  "showable st s \<longleftrightarrow> (if ph_states s = [] then st = PS_connecting \<or> st = PS_stopped else state_next (last (ph_states s)) st)"

definition assessed :: "input_status \<Rightarrow> 'd proxy \<Rightarrow> bool" where
  "assessed st s \<longleftrightarrow> shown s \<and> ph_states s \<noteq> [] \<and> (px_state s = PS_connecting \<or> px_state s = PS_connected) \<and> affordable (pc_max (px_config s)) (px_count s) \<and>
     (is_state st = IS_failed \<longrightarrow> failures (ph_attempts s) = px_count s + 1) \<and>
     (is_state st = IS_ended \<longrightarrow> px_state s = PS_connected \<and> px_count s = 0 \<and> failures (ph_attempts s) = 0)"

definition exhausted :: "int \<Rightarrow> nat \<Rightarrow> bool" where
  "exhausted m n \<longleftrightarrow> 0 \<le> m \<and> int n = m + 1"

text \<open>What a publication of each state means.\<close>

fun warranted :: "proxy_state \<Rightarrow> nat \<Rightarrow> int \<Rightarrow> nat \<Rightarrow> int \<Rightarrow> bool" where
  "warranted PS_waiting n d f m = (n = f \<and> d = RetryDelay n \<and> 1 \<le> n \<and> affordable m n)"
| "warranted PS_failed n d f m = exhausted m f"
| "warranted _ n d f m = True"

fun leads :: "proxy_state \<Rightarrow> after_px \<Rightarrow> 'd proxy \<Rightarrow> bool" where
  "leads st A_connecting s = (st = PS_connecting \<and> trying s)"
| "leads st A_connected s = (st = PS_connected \<and> px_count s = 0)"
| "leads st A_delay s = (st = PS_waiting \<and> trying s)"
| "leads st A_done s = Terminal st"

fun on_course :: "proxy_point \<Rightarrow> 'd proxy \<Rightarrow> bool" where
  "on_course W_none s = Terminal (px_state s)"
| "on_course W_loop s = (trying s \<and> shown s \<and> \<not> Terminal (px_state s) \<and> (ph_states s \<noteq> [] \<longrightarrow> px_state s \<noteq> PS_connecting))"
| "on_course W_create s = (trying s \<and> shown s \<and> \<not> Terminal (px_state s) \<and> (ph_states s \<noteq> [] \<longrightarrow> px_state s \<noteq> PS_connecting))"
| "on_course (W_publish st n d e k) s = (leads st k s \<and> showable st s \<and> warranted st n d (failures (ph_attempts s)) (pc_max (px_config s)) \<and> \<not> Terminal (px_state s))"
| "on_course (W_observe st k) s = (leads st k s \<and> showable st s \<and> px_state s = st)"
| "on_course (W_wake k) s = (leads (px_state s) k s \<and> shown s \<and> ph_states s \<noteq> [])"
| "on_course W_connecting s = (trying s \<and> shown s \<and> ph_states s \<noteq> [] \<and> px_state s = PS_connecting)"
| "on_course W_open s = (trying s \<and> shown s \<and> ph_states s \<noteq> [] \<and> px_state s = PS_connecting)"
| "on_course W_opening s = (trying s \<and> shown s \<and> ph_states s \<noteq> [] \<and> px_state s = PS_connecting)"
| "on_course W_describe s = (trying s \<and> shown s \<and> ph_states s \<noteq> [] \<and> px_state s = PS_connecting)"
| "on_course W_opened s = (px_count s = 0 \<and> shown s \<and> ph_states s \<noteq> [] \<and> px_state s = PS_connecting)"
| "on_course W_avail s = (px_count s = 0 \<and> shown s \<and> ph_states s \<noteq> [] \<and>
     (px_state s = PS_connected \<or> px_state s = PS_connecting \<and> px_stopping s))"
| "on_course W_wait s = (px_count s = 0 \<and> shown s \<and> ph_states s \<noteq> [] \<and>
     (px_state s = PS_connected \<or> px_state s = PS_connecting \<and> px_stopping s))"
| "on_course (W_retire st) s = assessed st s"
| "on_course (W_close st) s = assessed st s"
| "on_course (W_closing st) s = assessed st s"
| "on_course (W_after st) s = assessed st s"
| "on_course W_delay s = (trying s \<and> shown s \<and> ph_states s \<noteq> [] \<and> px_state s = PS_waiting)"
| "on_course (W_caught e) s = False"
| "on_course W_final s = (shown s \<and> \<not> Terminal (px_state s))"
| "on_course W_done s = (Terminal (px_state s) \<and> shown s)"

definition course :: "'d proxy \<Rightarrow> bool" where
  "course s \<longleftrightarrow> on_course (px_point s) s \<and> warranted (px_state s) (px_retries s) (px_delay s) (failures (ph_attempts s)) (pc_max (px_config s)) \<and>
     successively state_next (ph_states s)"

lemmas course_defs = trying_def affordable_def shown_def showable_def assessed_def exhausted_def Terminal_def

lemma state_next_cases:
  "state_next st PS_stopped = (st = PS_connecting \<or> st = PS_connected \<or> st = PS_waiting)"
  "state_next st PS_connecting = (st = PS_connected \<or> st = PS_waiting)"
  "state_next st PS_connected = (st = PS_connecting)"
  "state_next st PS_waiting = (st = PS_connecting \<or> st = PS_connected)"
  "state_next st PS_failed = (st = PS_connecting \<or> st = PS_connected)"
  "state_next st PS_ended = (st = PS_connected)"
  by (cases st; simp)+

lemma course_worker:
  assumes "course s" "proxy_ready s" "shape_px s"
  shows "course (worker_px s)"
proof -
  note c = assms(1) [unfolded course_def]
  show ?thesis
  proof (cases "px_point s")
    case W_create
    obtain i :: "'a input" where i: "AvInput_new (pc_input (px_config s)) = Inr i" using assms(3) by (auto simp: shape_px_def)
    from c W_create show ?thesis
      by (cases "px_state s") (auto simp: course_def worker_px_def i course_defs state_next_cases split: if_splits)
  next
    case (W_publish st n d e k)
    with c show ?thesis
      by (cases k) (auto simp: course_def worker_px_def course_defs)
  next
    case (W_observe st k)
    with c show ?thesis
      by (cases k) (auto simp: course_def worker_px_def course_defs successively_append_iff split: if_splits)
  next
    case (W_wake k)
    with c show ?thesis
      by (cases k) (auto simp: course_def worker_px_def course_defs split: if_splits)
  next
    case W_open
    then obtain i where i: "px_current s = Some i" using assms(3) by (fastforce simp: shape_px_def)
    from c W_open i show ?thesis
      by (cases "px_state s") (auto simp: course_def worker_px_def course_defs split: prod.splits option.splits)
  next
    case W_opening
    then obtain i where i: "px_current s = Some i" using assms(3) by (fastforce simp: shape_px_def)
    from c W_opening i show ?thesis
      by (cases "px_state s") (auto simp: course_def worker_px_def course_defs split: control_point.splits option.splits)
  next
    case (W_close st)
    then obtain i where i: "px_current s = Some i" using assms(3) by (fastforce simp: shape_px_def)
    from c W_close i show ?thesis
      by (cases "px_state s") (auto simp: course_def worker_px_def course_defs)
  next
    case W_wait
    with c assms(2) show ?thesis
      by (cases "px_state s") (auto simp: course_def worker_px_def course_defs Let_def status_of_def proxy_ready_def split: option.splits)
  next
    case (W_after st)
    with c show ?thesis
      by (cases "px_state s"; cases "is_state st")
        (auto simp: course_def worker_px_def after_attempt_def course_defs state_next_cases split: if_splits)
  next
    case W_final
    with c show ?thesis
      by (cases "px_state s") (auto simp: course_def worker_px_def course_defs)
  next
    case W_delay
    with c show ?thesis by (auto simp: course_def worker_px_def course_defs)
  next
    case W_loop
    with c show ?thesis by (cases "px_state s") (auto simp: course_def worker_px_def course_defs)
  next
    case W_opened
    with c show ?thesis by (auto simp: course_def worker_px_def course_defs)
  next
    case W_connecting
    with c show ?thesis by (auto simp: course_def worker_px_def course_defs status_of_def)
  next
    case W_describe
    with c show ?thesis by (auto simp: course_def worker_px_def course_defs)
  next
    case W_avail
    with c show ?thesis by (auto simp: course_def worker_px_def course_defs)
  qed (use c in \<open>auto simp: course_def worker_px_def Retire_available_def course_defs\<close>)
qed

lemma course_same:
  assumes "course s" "px_point t = px_point s" "px_count t = px_count s" "px_state t = px_state s" "px_retries t = px_retries s"
    "px_delay t = px_delay s" "ph_attempts t = ph_attempts s" "ph_states t = ph_states s" "px_config t = px_config s"
    and "px_stopping s \<Longrightarrow> px_stopping t"
  shows "course t"
proof -
  have l: "leads st k t = leads st k s" for st k by (cases k) (simp_all add: trying_def assms)
  have j: "assessed st t = assessed st s" for st by (simp add: assessed_def shown_def assms)
  from assms(1,10) show ?thesis
    unfolding course_def assms(2-9)
    by (cases "px_point s") (auto simp: l j trying_def shown_def showable_def assms(3-9))
qed

lemma course_step:
  assumes "proxying D s t" "shape_px s" "course s"
  shows "course t"
  using assms(1)
proof cases
  case worker
  with course_worker [OF assms(3) _ assms(2)] show ?thesis by simp
next
  case stop_join
  with assms(3) show ?thesis by (auto simp: course_def stop_join_def)
next
  case (start created url)
  from assms(2) have "\<not> px_thread s \<Longrightarrow> px_point s = W_none" by (simp add: shape_px_def)
  with assms(3) show ?thesis
    by (auto simp: start(1) Start_px_def Let_def course_def course_defs split: if_splits)
qed (rule course_same [OF assms(3)]; simp add: stop_flag_def stop_cancel_def)+

section \<open>Stopping\<close>

text \<open>The control thread of a connection before its observer has heard that it is opening.\<close>

fun unannounced :: "control_point \<Rightarrow> bool" where
  "unannounced (C_status u (Then_connect url)) = True"
| "unannounced (C_close u (Then_connect url)) = True"
| "unannounced (C_call u (Then_connect url)) = True"
| "unannounced _ = False"

definition unlost :: "'d proxy \<Rightarrow> bool" where
  "unlost s \<longleftrightarrow>
     (\<forall>i. px_stopping s \<and> px_point s = W_opening \<and> px_current s = Some i \<and> \<not> unannounced (iv_control (conn s i)) \<longrightarrow>
        iv_cancelled (conn s i) \<or> i \<in> set (px_cancels s))"

lemma control_announces:
  assumes "\<not> unannounced (iv_control (control_in D started now c))" "unannounced (iv_control c)" "stand c"
  shows "\<exists>st k. iv_control c = C_call st k \<and> is_state st = IS_opening"
  using assms by (cases "iv_control c" rule: unannounced.cases) (auto simp: control_in_def stand_def)

lemma control_cancelled: "iv_cancelled c \<Longrightarrow> iv_cancelled (control_in D started now c)"
  by (cases "iv_control c") (auto simp: in_control_defs split: sum.splits option.splits prod.splits)

lemma unlost_same:
  assumes "unlost s"
    and "\<And>i. px_stopping t \<Longrightarrow> px_point t = W_opening \<Longrightarrow> px_current t = Some i \<Longrightarrow> \<not> unannounced (iv_control (conn t i)) \<Longrightarrow>
      iv_cancelled (conn t i) \<or> i \<in> set (px_cancels t) \<or>
      px_stopping s \<and> px_point s = W_opening \<and> px_current s = Some i \<and> \<not> unannounced (iv_control (conn s i)) \<and>
      (i \<in> set (px_cancels s) \<longrightarrow> i \<in> set (px_cancels t)) \<and> (iv_cancelled (conn s i) \<longrightarrow> iv_cancelled (conn t i))"
  shows "unlost t"
  using assms unfolding unlost_def by blast

lemma unlost_worker:
  assumes "unlost s" "shape_px s"
  shows "unlost (worker_px s)"
proof (cases "px_point s = W_opening")
  case True
  then obtain i where i: "px_current s = Some i" using assms(2) by (fastforce simp: shape_px_def)
  show ?thesis
    by (rule unlost_same [OF assms(1)]) (use True i in \<open>auto simp: worker_px_def split: control_point.splits option.splits\<close>)
next
  case False
  show ?thesis
  proof (cases "px_point s = W_open")
    case True
    then obtain i where i: "px_current s = Some i" using assms(2) by (fastforce simp: shape_px_def)
    with assms(2) have "i < length (px_inputs s)" by (auto simp: shape_px_def)
    with True i show ?thesis
      by (auto simp: unlost_def worker_px_def begin_open_def split: if_splits sum.splits)
  next
    case other: False
    have "px_point (worker_px s) \<noteq> W_opening"
      using False other
      by (auto simp: px_worker_defs split: proxy_point.splits sum.splits option.splits prod.splits control_point.splits after_px.splits)
    then show ?thesis by (simp add: unlost_def)
  qed
qed

lemma consumer_control:
  assumes "readers s"
  shows "iv_control (conn (consume_px s) i) = iv_control (conn s i)" "iv_cancelled (conn (consume_px s) i) = iv_cancelled (conn s i)"
proof -
  have "iv_control (conn (consume_px s) i) = iv_control (conn s i) \<and> iv_cancelled (conn (consume_px s) i) = iv_cancelled (conn s i)"
  proof (cases "px_consumer s")
    case (Y_check j d w r)
    with assms have "j < length (px_inputs s)" "reader_fits (px_consumer s) j (iv_reader (conn s j))"
      by (auto simp: readers_def)
    with Y_check obtain x where x: "iv_reader (conn s j) = X_check x" and j: "j < length (px_inputs s)" by auto
    obtain a c where c: "read_finish x (conn s j) = (a, c)" by fastforce
    from j x c show ?thesis by (auto simp: consume_px_inputs Y_check nth_list_update finish_keeps [OF c])
  qed (use assms in \<open>auto simp: consume_px_inputs readers_def nth_list_update\<close>)
  then show "iv_control (conn (consume_px s) i) = iv_control (conn s i)"
    "iv_cancelled (conn (consume_px s) i) = iv_cancelled (conn s i)" by simp_all
qed

lemma unlost_step:
  assumes "proxying D s t" "shape_px s" "inputs_ok s" "readers s" "unlost s"
  shows "unlost t"
proof -
  note keep = unlost_same [OF assms(5)]
  from assms(2) have len: "px_current s = Some i \<Longrightarrow> i < length (px_inputs s)" for i by (auto simp: shape_px_def)
  from assms(1) show ?thesis
  proof cases
    case worker
    with unlost_worker [OF assms(5,2)] show ?thesis by simp
  next
    case (input_worker j now)
    then have st: "stand (conn s j)" using assms(3) by (simp add: inputs_ok_def in_inv_def)
    show ?thesis
      by (rule keep)
        (auto simp: input_worker(1) step_worker_inputs [OF st input_worker(3,2)] nth_list_update input_worker(2) split: if_splits)
  next
    case (input_control j started now)
    then have st: "stand (conn s j)" using assms(3) by (simp add: inputs_ok_def in_inv_def)
    show ?thesis
    proof (rule keep)
      fix i assume t: "px_stopping t" "px_point t = W_opening" "px_current t = Some i" "\<not> unannounced (iv_control (conn t i))"
      note conns = step_control_inputs [OF input_control(2), of D started now, folded input_control(1)]
      show "iv_cancelled (conn t i) \<or> i \<in> set (px_cancels t) \<or>
        px_stopping s \<and> px_point s = W_opening \<and> px_current s = Some i \<and> \<not> unannounced (iv_control (conn s i)) \<and>
        (i \<in> set (px_cancels s) \<longrightarrow> i \<in> set (px_cancels t)) \<and> (iv_cancelled (conn s i) \<longrightarrow> iv_cancelled (conn t i))"
      proof (cases "i = j \<and> unannounced (iv_control (conn s i))")
        case True
        with t input_control(2) conns have "\<not> unannounced (iv_control (control_in D started now (conn s j)))"
          by (auto split: if_splits)
        from control_announces [OF this _ st] True t input_control(1) have "reapplies s j" by (auto simp: reapplies_def)
        with True conns input_control(2) show ?thesis by simp
      next
        case False
        with t conns input_control(1,2) show ?thesis
          by (auto simp: nth_list_update control_cancelled split: if_splits)
      qed
    qed
  next
    case consumer
    then show ?thesis by (intro keep) (auto simp: consumer_control [OF assms(4)])
  next
    case (stop_cancel j)
    show ?thesis
    proof (rule keep)
      fix i assume t: "px_stopping t" "px_point t = W_opening" "px_current t = Some i" "\<not> unannounced (iv_control (conn t i))"
      with len have "i < length (px_inputs s)" by (simp add: stop_cancel stop_cancel_def)
      with t show "iv_cancelled (conn t i) \<or> i \<in> set (px_cancels t) \<or>
        px_stopping s \<and> px_point s = W_opening \<and> px_current s = Some i \<and> \<not> unannounced (iv_control (conn s i)) \<and>
        (i \<in> set (px_cancels s) \<longrightarrow> i \<in> set (px_cancels t)) \<and> (iv_cancelled (conn s i) \<longrightarrow> iv_cancelled (conn t i))"
        by (auto simp: stop_cancel stop_cancel_def update_nth in_set_remove1 split: if_splits)
    qed
  next
    case (start created url)
    with assms(2) show ?thesis
      by (intro keep) (auto simp: Start_px_def Let_def shape_px_def split: if_splits)
  qed (rule keep; use len in \<open>auto simp: stop_flag_def stop_join_def update_nth split: if_splits\<close>)+
qed

section \<open>Runs\<close>

lemma course_start: "AvInputProxy_new c = Inr s \<Longrightarrow> course s \<and> unlost s"
  by (auto simp: AvInputProxy_new_def course_def unlost_def Terminal_def split: if_splits)

lemma proxy_runs_course:
  assumes "proxy_runs D t"
  shows "proxy_inv t \<and> course t \<and> unlost t"
proof -
  from assms obtain c s where s: "AvInputProxy_new c = Inr s" "(proxying D)\<^sup>*\<^sup>* s t" by (auto simp: proxy_runs_def)
  from this(2) show ?thesis
  proof induction
    case base
    show ?case using proxy_inv_start [OF s(1)] course_start [OF s(1)] by simp
  next
    case (step t u)
    from step(3) have "shape_px t" "inputs_ok t" "readers t" by (simp_all add: proxy_inv_def)
    with step(2,3) show ?case by (blast intro: proxy_inv_step course_step unlost_step)
  qed
qed

section \<open>Connections by themselves\<close>

text \<open>A step of the proxy is, for each connection, nothing or steps of \<open>inputting\<close>.\<close>

definition moves :: "'d demux_lib \<Rightarrow> 'd input \<Rightarrow> 'd input \<Rightarrow> bool" where
  "moves D c c' \<longleftrightarrow> (inputting D)\<^sup>*\<^sup>* c c'"

lemma moves_refl [simp]: "moves D c c"
  by (simp add: moves_def)

lemma moves_one: "inputting D c c' \<Longrightarrow> moves D c c'"
  by (simp add: moves_def)

lemma moves_at:
  assumes "moves D (conn s j) c" "j < length (px_inputs s)"
  shows "moves D (conn s i) ((px_inputs s)[j := c] ! i)"
  using assms by (cases "i = j") simp_all

lemma moves_worker:
  assumes "proxy_ready s" "shape_px s" "readers s" "i < length (px_inputs s)"
  shows "moves D (conn s i) (conn (worker_px s) i)"
proof -
  note h = assms(2) [unfolded shape_px_def]
  have len: "px_current s = Some j \<Longrightarrow> j < length (px_inputs s)" for j using h by auto
  consider (create) "px_point s = W_create" | (opens) "px_point s = W_open" | (joins) "px_point s = W_opening"
    | (closes) st where "px_point s = W_close st"
    | (other) "px_point s \<noteq> W_create" "px_point s \<noteq> W_open" "px_point s \<noteq> W_opening" "\<forall>st. px_point s \<noteq> W_close st"
    by blast
  then show ?thesis
  proof cases
    case create
    obtain c :: "'a input" where c: "AvInput_new (pc_input (px_config s)) = Inr c" using h by blast
    from create assms(4) show ?thesis by (simp add: worker_px_def c nth_append)
  next
    case opens
    then obtain j where j: "px_current s = Some j" using h by fastforce
    from j opens h have g: "gone (conn s j)" by fastforce
    from j opens assms(3) have "engaged (px_consumer s) \<noteq> Some j" by (auto simp: readers_def)
    with assms(3) len [OF j] have "iv_reader (conn s j) = X_idle"
      by (cases "px_consumer s") (auto simp: readers_def split: if_splits)
    with g have "moves D (conn s j) (snd (begin_open (px_url s) (conn s j)))"
      by (intro moves_one inputting.open_call) (simp_all add: gone_def)
    from moves_at [OF this len [OF j], of i] show ?thesis
      using j opens by (auto simp: worker_px_def split: prod.split option.split)
  next
    case joins
    then obtain j where j: "px_current s = Some j" using h by fastforce
    show ?thesis
    proof (cases "iv_control (conn s j)")
      case (C_return r)
      have "moves D (conn s j) (end_call (conn s j))" by (intro moves_one inputting.returned) (rule C_return)
      from moves_at [OF this len [OF j], of i] show ?thesis
        using j joins C_return by (auto simp: worker_px_def split: option.split)
    qed (use j joins in \<open>simp_all add: worker_px_def\<close>)
  next
    case closes
    then obtain j where j: "px_current s = Some j" using h by fastforce
    from j closes h have "iv_control (conn s j) = C_idle" by fastforce
    then have "moves D (conn s j) (begin_close (conn s j))" by (intro moves_one inputting.close_call)
    from moves_at [OF this len [OF j], of i] show ?thesis
      using j closes by (simp add: worker_px_def)
  next
    case other
    then have "px_inputs (worker_px s) = px_inputs s"
      by (cases "px_point s") (auto simp: px_worker_defs)
    then show ?thesis by simp
  qed
qed

lemma moves_consumer:
  assumes "consumer_ready s" "readers s"
  shows "moves D (conn s i) (conn (consume_px s) i)"
proof (cases "px_consumer s")
  case (Y_input j d w r)
  with assms(2) have j: "j < length (px_inputs s)" "iv_reader (conn s j) = X_idle" by (auto simp: readers_def)
  then have "moves D (conn s j) (read_enter w (conn s j))" by (intro moves_one inputting.read_enter)
  from moves_at [OF this j(1), of i] show ?thesis by (simp add: consume_px_inputs Y_input)
next
  case (Y_pop j d w r)
  with assms(2) have j: "j < length (px_inputs s)" "iv_reader (conn s j) = X_pop w" by (auto simp: readers_def)
  with assms(1) Y_pop have "moves D (conn s j) (read_take (conn s j))"
    by (intro moves_one inputting.read_take) (auto simp: consumer_ready_def)
  from moves_at [OF this j(1), of i] show ?thesis by (simp add: consume_px_inputs Y_pop)
next
  case (Y_check j d w r)
  with assms(2) have j: "j < length (px_inputs s)" and "reader_fits (px_consumer s) j (iv_reader (conn s j))"
    by (auto simp: readers_def)
  with Y_check obtain x where x: "iv_reader (conn s j) = X_check x" by auto
  then have "moves D (conn s j) (snd (read_finish x (conn s j)))" by (intro moves_one inputting.read_finish)
  from moves_at [OF this j, of i] show ?thesis by (simp add: consume_px_inputs Y_check x)
qed (simp_all add: consume_px_inputs)

lemma moves_step:
  assumes "proxying D s t" "shape_px s" "inputs_ok s" "readers s" "i < length (px_inputs s)"
  shows "moves D (conn s i) (conn t i)"
  using assms(1)
proof cases
  case worker
  with moves_worker [OF _ assms(2,4,5)] show ?thesis by simp
next
  case (input_worker j now)
  then have st: "stand (conn s j)" using assms(3) by (simp add: inputs_ok_def in_inv_def)
  have "moves D (conn s j) (worker_in D now (conn s j))"
    by (intro moves_one inputting.worker input_worker(3))
  from moves_at [OF this input_worker(2), of i] show ?thesis
    by (simp add: input_worker(1) step_worker_inputs [OF st input_worker(3,2)])
next
  case (input_control j started now)
  have m: "moves D (conn s j) (control_in D started now (conn s j))"
    by (intro moves_one inputting.control input_control(3))
  have "inputting D (control_in D started now (conn s j)) (cancel_flag (control_in D started now (conn s j)))"
    by (rule inputting.cancel)
  with m have "moves D (conn s j) ((control_in D started now (conn s j))\<lparr>iv_cancelled := True\<rparr>)"
    unfolding moves_def cancel_flag_def by (rule rtranclp.rtrancl_into_rtrancl)
  from moves_at [OF this input_control(2), of i] moves_at [OF m input_control(2), of i] show ?thesis
    by (simp add: input_control(1) step_control_inputs [OF input_control(2)])
next
  case (input_cancel j)
  have "moves D (conn s j) (cancel_queue (conn s j))" by (intro moves_one inputting.cancel_queue input_cancel(3))
  from moves_at [OF this input_cancel(2), of i] show ?thesis by (simp add: input_cancel(1))
next
  case consumer
  with moves_consumer [OF _ assms(4)] show ?thesis by simp
next
  case (stop_cancel j)
  with assms(4) have j: "j < length (px_inputs s)" by (auto simp: readers_def)
  have "moves D (conn s j) (cancel_flag (conn s j))" by (intro moves_one inputting.cancel)
  from moves_at [OF this j, of i] show ?thesis by (simp add: stop_cancel(1) stop_cancel_def)
next
  case (start created url)
  then show ?thesis by (auto simp: Start_px_def Let_def)
qed (simp_all add: stop_flag_def stop_join_def)

text \<open>New connections come from \<open>AvInput_new\<close>.\<close>

lemma inputs_step:
  assumes "proxying D s t" "shape_px s" "inputs_ok s" "readers s" "i < length (px_inputs t)"
  shows "i < length (px_inputs s) \<or> AvInput_new (pc_input (px_config s)) = Inr (conn t i)"
  using assms(1)
proof cases
  case worker
  obtain c :: "'a input" where c: "AvInput_new (pc_input (px_config s)) = Inr c" using assms(2) by (auto simp: shape_px_def)
  show ?thesis
  proof (cases "px_point s = W_create")
    case True
    with assms(5) c worker show ?thesis by (auto simp: worker_px_def nth_append less_Suc_eq)
  next
    case False
    from worker_effect(6) [OF False assms(2)] assms(5) worker show ?thesis by simp
  qed
next
  case (input_worker j now)
  then have st: "stand (conn s j)" using assms(3) by (simp add: inputs_ok_def in_inv_def)
  from assms(5) show ?thesis by (simp add: input_worker(1) step_worker_inputs [OF st input_worker(3,2)])
next
  case (input_control j started now)
  from assms(5) show ?thesis by (simp add: input_control(1) step_control_inputs [OF input_control(2)])
next
  case consumer
  have "length (px_inputs (consume_px s)) = length (px_inputs s)"
    by (cases rule: consumer_effect [OF assms(4)]) simp_all
  with assms(5) consumer show ?thesis by simp
next
  case (start created url)
  with assms(5) show ?thesis by (auto simp: Start_px_def Let_def split: if_splits)
qed (use assms(5) in \<open>simp_all add: stop_flag_def stop_join_def stop_cancel_def\<close>)

lemma connections_run:
  assumes "proxy_runs D t" "i < length (px_inputs t)"
  shows "input_runs D (conn t i)"
proof -
  from assms(1) obtain c s where s: "AvInputProxy_new c = Inr s" "(proxying D)\<^sup>*\<^sup>* s t" by (auto simp: proxy_runs_def)
  from s(2) have "proxy_inv t \<and> (\<forall>i < length (px_inputs t). input_runs D (conn t i))"
  proof induction
    case base
    from s(1) show ?case using proxy_inv_start [OF s(1)] by (auto simp: AvInputProxy_new_def split: if_splits)
  next
    case (step t u)
    from step(3) have h: "shape_px t" "inputs_ok t" "readers t" by (simp_all add: proxy_inv_def)
    have "input_runs D (conn u i)" if "i < length (px_inputs u)" for i
      using inputs_step [OF step(2) h that]
    proof
      assume i: "i < length (px_inputs t)"
      with step(3) have "input_runs D (conn t i)" by blast
      with moves_step [OF step(2) h i] show ?thesis
        unfolding input_runs_def moves_def by (meson rtranclp_trans)
    qed (auto simp: input_runs_def)
    with proxy_inv_step [OF step(2)] step(3) show ?case by blast
  qed
  with assms(2) show ?thesis by blast
qed

end
