(* ===== verification/Proxy_Props.thy ===== *)
theory Proxy_Props
  imports Proxy_Retry
begin

text \<open>The properties of the proxy of \<open>Input_Proxy\<close>.\<close>

section \<open>Closing a connection\<close>

definition closes_down :: "'d input \<Rightarrow> bool" where
  "closes_down c \<longleftrightarrow> (iv_thread c \<or> preparing (iv_control c) \<longrightarrow> iv_attached c) \<and>
     (iv_control c = C_join \<and> iv_thread c \<longrightarrow> bq.closed (iv_queue c))"

lemma closes_down_worker: "closes_down c \<Longrightarrow> closes_down (worker_in D now c)"
  by (cases "iv_point c")
    (auto simp: closes_down_def in_worker_defs split: if_splits option.splits prod.splits demux_answer.splits sum.splits)

lemma closes_down_control:
  assumes "closes_down c" "stand c"
  shows "closes_down (control_in D started now c)"
proof (cases "iv_control c")
  case (C_status u k)
  with assms show ?thesis by (cases k) (auto simp: closes_down_def in_control_defs)
next
  case (C_close u k)
  with assms show ?thesis by (cases k) (auto simp: closes_down_def in_control_defs stand_def)
next
  case (C_call u k)
  with assms show ?thesis by (cases k) (auto simp: closes_down_def in_control_defs)
qed (use assms in \<open>auto simp: closes_down_def in_control_defs stand_def body_defs split: sum.splits option.splits prod.splits if_splits\<close>)

lemma closes_down_step: "inputting D s t \<Longrightarrow> in_inv s \<Longrightarrow> closes_down s \<Longrightarrow> closes_down t"
proof (induction rule: inputting.induct)
  case (worker s now)
  then show ?case by (blast intro: closes_down_worker)
next
  case (control s started now)
  then show ?case by (auto simp: in_inv_def intro: closes_down_control)
next
  case (read_take s wait)
  then show ?case by (auto simp: closes_down_def read_take_def pop_body_def split: list.splits)
next
  case (read_finish s x)
  then show ?case by (auto simp: closes_down_def read_finish_def Let_def split: option.splits)
next
  case (open_call s url)
  then show ?case by (auto simp: closes_down_def begin_open_def split: sum.splits)
qed (auto simp: closes_down_def cancel_flag_def cancel_queue_def close_body_def begin_close_def end_call_def read_enter_def)

lemma runs_closes_down:
  assumes "input_runs D t"
  shows "in_inv t \<and> closes_down t"
proof -
  from assms obtain c s where s: "AvInput_new c = Inr s" "(inputting D)\<^sup>*\<^sup>* s t" by (auto simp: input_runs_def)
  from s(2) show ?thesis
  proof induction
    case base
    from s(1) in_inv_start [OF s(1)] show ?case by (auto simp: closes_down_def AvInput_new_def split: if_splits)
  qed (auto intro: in_inv_step closes_down_step)
qed

lemma closing_moves:
  assumes "in_inv c" "closes_down c" "in_phase Closing c"
  shows "iv_control c = C_idle \<or> control_ready c \<or> input_ready c"
proof (cases "iv_control c = C_join \<and> iv_thread c \<and> iv_point c \<noteq> I_done")
  case True
  with assms(1,2) have "cut c" "iv_point c \<noteq> I_none"
    by (auto simp: in_inv_def withdrawn_def stand_def closes_down_def cut_def)
  with True cut_worker(2) [of c] show ?thesis by (auto simp: ended_worker_def)
next
  case False
  with assms(3) show ?thesis
    by (cases "iv_control c" rule: closing.cases) (auto simp: control_ready_def gone_def)
qed

section \<open>Properties\<close>


text \<open>
  Connections follow one another: every connection other than the current one is closed and its threads
  are gone, the current one is the newest, and reads are let in only when there is a current one, whose
  description is the one they get.
\<close>
theorem proxy_single:
  assumes "proxy_runs D t"
  shows "(\<forall>i < length (px_inputs t). px_current t \<noteq> Some i \<longrightarrow>
      is_state (iv_status (px_inputs t ! i)) = IS_closed \<and> iv_control (px_inputs t ! i) = C_idle \<and> \<not> iv_thread (px_inputs t ! i)) \<and>
    (\<forall>i. px_current t = Some i \<longrightarrow> Suc i = length (px_inputs t)) \<and>
    (px_available t \<longrightarrow> (\<exists>i. px_current t = Some i \<and> px_info t = Some (iv_info (px_inputs t ! i))))"
proof -
  from proxy_runs_inv [OF assms] have inv: "shape_px t" "inputs_ok t" "described t"
    by (simp_all add: proxy_inv_def)
  then show ?thesis
    by (fastforce simp: shape_px_def inputs_ok_def described_def gone_def in_inv_def stand_def split: if_splits)
qed

text \<open>
  C18: While the proxy waits to retry, the count it publishes is the number of failures since a connection was
  last opened, it is at least one and within the limit, and the delay is that of the count; and it gives up
  only with a limit, after exactly one failure more than the limit.
\<close>
theorem proxy_retries:
  assumes "proxy_runs D t"
  shows "(px_state t = PS_waiting \<longrightarrow> px_retries t = failures (ph_attempts t) \<and> 1 \<le> px_retries t \<and>
      (0 \<le> pc_max (px_config t) \<longrightarrow> int (px_retries t) \<le> pc_max (px_config t)) \<and> px_delay t = RetryDelay (px_retries t)) \<and>
    (px_state t = PS_failed \<longrightarrow> 0 \<le> pc_max (px_config t) \<and> int (failures (ph_attempts t)) = pc_max (px_config t) + 1)"
  using proxy_runs_course [OF assms] by (auto simp: course_def exhausted_def affordable_def)

text \<open>
  The states the observer is given follow one another as the state machine allows, and nothing follows a
  terminal state.
\<close>
theorem proxy_states: "proxy_runs D t \<Longrightarrow> successively state_next (ph_states t)"
  using proxy_runs_course by (auto simp: course_def)

text \<open>
  C19: A stop is not lost to a connection that is being opened, although opening clears the connection's own
  cancellation: once the observer has been told that it is opening, the connection is cancelled or a call of
  RequestStop that has picked it has yet to cancel it.
\<close>
theorem proxy_stop_reaches:
  "proxy_runs D t \<Longrightarrow> px_stopping t \<Longrightarrow> px_point t = W_opening \<Longrightarrow> px_current t = Some i \<Longrightarrow>
   \<not> unannounced (iv_control (px_inputs t ! i)) \<Longrightarrow> iv_cancelled (px_inputs t ! i) \<or> i \<in> set (px_cancels t)"
  using proxy_runs_course by (auto simp: unlost_def)

text \<open>
  C20: The worker of the proxy is never stuck before it is done, in \<open>Open\<close>, in \<open>Close\<close> or elsewhere: it can go on,
  or a thread of the current connection can; only while a connection is open and neither ended nor to be
  stopped does it wait.
\<close>
theorem proxy_progress:
  assumes "proxy_runs D t" "px_thread t" "px_point t \<noteq> W_done"
    and "px_point t = W_wait \<Longrightarrow> px_stopping t \<or> px_terminal t \<noteq> None"
  shows "proxy_ready t \<or> (\<exists>i. px_current t = Some i \<and> (control_ready (px_inputs t ! i) \<or> input_ready (px_inputs t ! i)))"
proof -
  from proxy_runs_inv [OF assms(1)] have sh: "shape_px t" by (simp add: proxy_inv_def)
  then have cur: "phase_at (px_point t) \<noteq> Absent \<Longrightarrow>
      \<exists>i. px_current t = Some i \<and> i < length (px_inputs t) \<and> in_phase (phase_at (px_point t)) (conn t i)"
    by (fastforce simp: shape_px_def)
  show ?thesis
  proof (cases "px_point t")
    case W_opening
    with cur obtain i where i: "px_current t = Some i" "opening_control (iv_control (conn t i))" by auto
    then show ?thesis
      using W_opening by (cases "iv_control (conn t i)") (auto simp: proxy_ready_def control_ready_def)
  next
    case (W_closing st)
    with cur obtain i where i: "px_current t = Some i" "i < length (px_inputs t)" "in_phase Closing (conn t i)" by auto
    from runs_closes_down [OF connections_run [OF assms(1) i(2)]] closing_moves [of "conn t i"] i W_closing
    show ?thesis by (auto simp: proxy_ready_def)
  qed (use assms(2-4) sh in \<open>auto simp: proxy_ready_def shape_px_def\<close>)
qed

text \<open>
  A connection of a proxy does only what a connection does by itself, from its constructor on, so that
  every property of connections holds of those of a proxy.
\<close>
theorem proxy_connections:
  "proxy_runs D t \<Longrightarrow> i < length (px_inputs t) \<Longrightarrow> input_runs D (px_inputs t ! i)"
  by (rule connections_run)

section \<open>A sample proxy\<close>

text \<open>A scheduler of the threads: the consumer first, then the worker, then the current connection.\<close>

definition turn :: "'d demux_lib \<Rightarrow> 'd proxy \<Rightarrow> 'd proxy" where
  "turn D s =
     (if consumer_ready s then consume_px s
      else if proxy_ready s then worker_px s
      else case px_current s of
        None \<Rightarrow> s
      | Some i \<Rightarrow>
          if length (px_inputs s) \<le> i then s
          else if control_ready (px_inputs s ! i) then step_input_control D True 0 i s
          else if input_ready (px_inputs s ! i) then step_input_worker D 0 i s
          else if px_consumer s = Y_idle then s\<lparr>px_consumer := Y_begin True False\<rparr> else s)"

fun drive_px :: "'d demux_lib \<Rightarrow> nat \<Rightarrow> 'd proxy \<Rightarrow> 'd proxy" where
  "drive_px D 0 s = s"
| "drive_px D (Suc n) s = drive_px D n (turn D s)"

lemma turn_run: "(proxying D)\<^sup>*\<^sup>* s (turn D s)"
  by (auto simp: turn_def not_le intro: proxying.intros split: option.splits)

lemma drive_px_run: "(proxying D)\<^sup>*\<^sup>* s (drive_px D n s)"
proof (induction n arbitrary: s)
  case (Suc n)
  from rtranclp_trans [OF turn_run Suc] show ?case by simp
qed simp

definition sample_px_config :: proxy_config where
  "sample_px_config = \<lparr>pc_input = sample_in_config, pc_loop = False, pc_max = 1\<rparr>"

definition the_proxy :: "'d proxy result \<Rightarrow> 'd proxy" where
  "the_proxy r = (case r of Inr s \<Rightarrow> s | Inl e \<Rightarrow> undefined)"

definition fresh_proxy :: "demux_answer list proxy" where
  "fresh_proxy = the_proxy (AvInputProxy_new sample_px_config)"

lemma fresh_proxy: "AvInputProxy_new sample_px_config = Inr fresh_proxy"
  by (simp add: fresh_proxy_def the_proxy_def AvInputProxy_new_def sample_px_config_def AvInput_new_def sample_in_config_def)

definition started_proxy :: "demux_answer list proxy" where
  "started_proxy = snd (Start_px True ''a'' fresh_proxy)"

definition failing_demux :: "demux_answer list demux_lib" where
  "failing_demux = sample_demux\<lparr>dl_open := \<lambda>_ _. Inl Ffmpeg_error\<rparr>"

lemma started_runs: "proxy_runs D (drive_px D n started_proxy)"
proof -
  have "proxying D fresh_proxy started_proxy"
    unfolding started_proxy_def
    by (rule proxying.start) (simp_all add: fresh_proxy_def the_proxy_def AvInputProxy_new_def sample_px_config_def
      AvInput_new_def sample_in_config_def)
  with drive_px_run fresh_proxy show ?thesis
    unfolding proxy_runs_def by (blast intro: converse_rtranclp_into_rtranclp)
qed


theorem proxy_single_witness: "\<exists>i. px_current (drive_px sample_demux 27 started_proxy) = Some i"
proof -
  have "px_available (drive_px sample_demux 27 started_proxy)" by code_simp
  with proxy_single [OF started_runs, of sample_demux 27] show ?thesis by blast
qed

theorem proxy_retries_witness:
  "px_retries (drive_px failing_demux 31 started_proxy) = failures (ph_attempts (drive_px failing_demux 31 started_proxy))"
proof -
  have "px_state (drive_px failing_demux 31 started_proxy) = PS_waiting" by code_simp
  with proxy_retries [OF started_runs, of failing_demux 31] show ?thesis by blast
qed

theorem proxy_states_witness: "successively state_next (ph_states (drive_px failing_demux 80 started_proxy))"
  by (rule proxy_states [OF started_runs])

definition stopped_proxy :: "demux_answer list proxy" where
  "stopped_proxy = stop_flag (drive_px sample_demux 11 started_proxy)"

lemma stopped_runs: "proxy_runs sample_demux stopped_proxy"
  using started_runs [of sample_demux 11] proxying.stop_flag [of sample_demux "drive_px sample_demux 11 started_proxy"]
  unfolding stopped_proxy_def proxy_runs_def by (blast intro: rtranclp.rtrancl_into_rtrancl)

theorem proxy_stop_reaches_witness:
  "iv_cancelled (px_inputs stopped_proxy ! 0) \<or> 0 \<in> set (px_cancels stopped_proxy)"
  by (rule proxy_stop_reaches [OF stopped_runs]; code_simp)

theorem proxy_progress_witness:
  "proxy_ready stopped_proxy \<or>
   (\<exists>i. px_current stopped_proxy = Some i \<and> (control_ready (px_inputs stopped_proxy ! i) \<or> input_ready (px_inputs stopped_proxy ! i)))"
  by (rule proxy_progress [OF stopped_runs]; code_simp)

theorem proxy_connections_witness: "input_runs sample_demux (px_inputs (drive_px sample_demux 60 started_proxy) ! 0)"
proof -
  have "0 < length (px_inputs (drive_px sample_demux 60 started_proxy))" by code_simp
  from proxy_connections [OF started_runs this] show ?thesis .
qed

end
