(* ===== verification/Source_Inv.thy ===== *)
theory Source_Inv
  imports Media_Source Proxy_Props Decoder_Props
begin

text \<open>
  What the steps of \<open>Media_Source\<close> keep: the points the worker can be at, that its proxy and its decoders only do
  what they do by themselves, and that stops reach them.
\<close>

section \<open>Points\<close>

fun pub_next :: "source_point \<Rightarrow> bool" where
  "pub_next S_proxy_check = True"
| "pub_next S_events = True"
| "pub_next (S_turn True) = True"
| "pub_next S_cleanup = True"
| "pub_next S_done = True"
| "pub_next _ = False"

fun init_next :: "source_point \<Rightarrow> bool" where
  "init_next S_observer = True"
| "init_next (S_publish ST_running (Some e) False S_events) = True"
| "init_next _ = False"

fun check_next :: "source_point \<Rightarrow> bool" where
  "check_next S_swap = True"
| "check_next S_over = True"
| "check_next S_events = True"
| "check_next S_events_stop = True"
| "check_next S_dispatch = True"
| "check_next (S_refused v) = True"
| "check_next _ = False"

fun push_next :: "source_point \<Rightarrow> bool" where
  "push_next S_described = True"
| "push_next S_submitted = True"
| "push_next (S_turn True) = True"
| "push_next (S_push v i k) = ((i = In_eof \<or> i = In_reset) \<and> push_next k)"
| "push_next _ = False"

fun shaped :: "source_point \<Rightarrow> bool" where
  "shaped (S_publish st c f k) = pub_next k"
| "shaped (S_call st k) = pub_next k"
| "shaped (S_check k) = check_next k"
| "shaped (S_init d k) = init_next k"
| "shaped (S_session k) = init_next k"
| "shaped (S_acts zs k) = (init_next k \<or> k = S_finish \<or> k = S_report)"
| "shaped (S_push v i k) = push_next k"
| "shaped (S_queue v i k) = push_next k"
| "shaped (S_mark v i k) = push_next k"
| "shaped _ = True"

lemma init_next_shaped: "init_next k \<Longrightarrow> shaped k"
  by (induction k rule: init_next.induct) simp_all

lemma push_next_shaped: "push_next k \<Longrightarrow> shaped k"
  by (induction k rule: push_next.induct) simp_all

lemma pub_next_shaped: "pub_next k \<Longrightarrow> shaped k"
  by (induction k rule: pub_next.induct) simp_all

lemma check_next_shaped: "check_next k \<Longrightarrow> shaped k"
  by (induction k rule: check_next.induct) simp_all

lemma submit_all_next: "push_next k \<Longrightarrow> i = In_eof \<or> i = In_reset \<Longrightarrow> push_next (submit_all_ms i vs k)"
  by (induction vs) (simp_all add: submit_all_ms_def)

lemmas shaped_intros = init_next_shaped push_next_shaped pub_next_shaped check_next_shaped

lemmas worker_ms_defs = worker_ms_def Publish_ms_def Initialize_ms_def publish_session_def process_event_def read_proxy_def
  dispatch_def submit_result_def begin_push_def queue_push_def refused_def after_turn_def

lemma act_point [simp]: "ms_point (snd (do_action z s)) = ms_point s"
  by (simp add: do_action_def on_decoder_def on_proxy_def split: action.split)

lemma on_fields [simp]:
  "ms_point (on_proxy f s) = ms_point s" "ms_point (on_decoder v g s) = ms_point s" "ms_point (set_reader v x s) = ms_point s"
  "ms_decoders (on_proxy f s) = ms_decoders s" "ms_proxy (on_decoder v g s) = ms_proxy s" "ms_proxy (set_reader v x s) = ms_proxy s"
  "ms_proxy (on_proxy f s) = f (ms_proxy s)" "ms_decoders (set_reader v x s) = ms_decoders s"
  "ms_decoders (on_decoder v g s) = (ms_decoders s)(v := map_option g (ms_decoders s v))"
  by (simp_all add: on_proxy_def on_decoder_def set_reader_def)

lemma shaped_worker:
  assumes "shaped (ms_point s)"
  shows "shaped (ms_point (worker_ms L C E s))"
proof (cases "ms_point s")
  case (S_acts zs k)
  with assms show ?thesis
    by (cases zs) (auto simp: worker_ms_def split: prod.split intro: shaped_intros)
qed (use assms in \<open>auto simp: worker_ms_defs Let_def submit_all_next push_next_shaped
    split: option.splits sum.splits prod.splits read_answer.splits list.splits proxy_state.splits intro: shaped_intros\<close>)

section \<open>The threads' remaining actions\<close>

definition halts :: "('d, 'c) source \<Rightarrow> bool \<Rightarrow> bool" where
  "halts s v \<longleftrightarrow> (case ms_decoders s v of None \<Rightarrow> True | Some d \<Rightarrow> dc_stopping d)"

definition gone_dec :: "('d, 'c) source \<Rightarrow> bool \<Rightarrow> bool" where
  "gone_dec s v \<longleftrightarrow> (case ms_decoders s v of None \<Rightarrow> True | Some d \<Rightarrow> dc_point d = D_done)"

text \<open>A list of actions keeps the order in which a decoder and the proxy may be stopped, joined and emptied.\<close>

fun acts_ok :: "(bool \<Rightarrow> bool) \<Rightarrow> (bool \<Rightarrow> bool) \<Rightarrow> bool \<Rightarrow> action list \<Rightarrow> bool" where
  "acts_ok st jn px [] = True"
| "acts_ok st jn px (Z_stop v q # zs) = (if q = Q_flag then acts_ok (st(v := True)) jn px zs else st v \<and> acts_ok st jn px zs)"
| "acts_ok st jn px (Z_join v # zs) = acts_ok st (jn(v := True)) px zs"
| "acts_ok st jn px (Z_discard v # zs) = (st v \<and> jn v \<and> acts_ok st jn px zs)"
| "acts_ok st jn px (Z_proxy # zs) = acts_ok st jn True zs"
| "acts_ok st jn px (Z_join_proxy # zs) = (px \<and> acts_ok st jn px zs)"
| "acts_ok st jn px (z # zs) = acts_ok st jn px zs"

lemma acts_ok_mono:
  "acts_ok st jn px zs \<Longrightarrow> (\<And>v. st v \<Longrightarrow> st' v) \<Longrightarrow> (\<And>v. jn v \<Longrightarrow> jn' v) \<Longrightarrow> (px \<Longrightarrow> px') \<Longrightarrow> acts_ok st' jn' px' zs"
proof (induction zs arbitrary: st jn px st' jn' px')
  case (Cons z zs)
  then show ?case by (cases z) (auto split: if_splits intro: Cons.IH [of _ _ _])
qed simp

fun helping :: "action \<Rightarrow> bool" where
  "helping (Z_fail e) = True"
| "helping Z_pick = True"
| "helping (Z_stop v q) = True"
| "helping Z_proxy = True"
| "helping _ = False"

fun stops_dec :: "action \<Rightarrow> bool" where
  "stops_dec (Z_stop v q) = True"
| "stops_dec _ = False"

lemma acts_ok_track [simp]: "acts_ok st jn px (stop_track v @ zs) = acts_ok (st(v := True)) jn px zs"
  by (simp add: stop_track_def)

lemma present_cases: "present ds = (if ds True = None then [] else [True]) @ (if ds False = None then [] else [False])"
  by (simp add: present_def)

lemma acts_ok_stop:
  assumes "acts_ok st jn px zs"
  shows "acts_ok st jn px (stop_session ds @ zs)"
  by (auto simp: stop_session_def present_cases intro!: acts_ok_mono [OF assms])

lemma acts_ok_close:
  assumes "acts_ok st jn px zs"
  shows "acts_ok st jn px (close_session ds @ zs)"
  by (auto simp: close_session_def present_cases stop_track_def intro!: acts_ok_mono [OF assms])

lemma helping_stop [simp]: "list_all helping (stop_session ds)"
  by (simp add: stop_session_def present_cases stop_track_def)

section \<open>Phases of a run\<close>

fun exiting :: "source_point \<Rightarrow> bool" where
  "exiting S_none = True"
| "exiting (S_throw e) = True"
| "exiting S_finish = True"
| "exiting S_cleanup = True"
| "exiting S_report = True"
| "exiting S_done = True"
| "exiting (S_publish st c f k) = (k = S_cleanup \<or> k = S_done)"
| "exiting (S_call st k) = (k = S_cleanup \<or> k = S_done)"
| "exiting (S_acts zs k) = (k = S_finish \<or> k = S_report)"
| "exiting _ = False"

fun released_ms :: "source_point \<Rightarrow> bool" where
  "released_ms S_none = True"
| "released_ms S_report = True"
| "released_ms S_done = True"
| "released_ms (S_publish st c f k) = (k = S_done)"
| "released_ms (S_call st k) = (k = S_done)"
| "released_ms _ = False"

fun starting :: "source_point \<Rightarrow> bool" where
  "starting S_start = True"
| "starting S_proxy_check = True"
| "starting S_proxy = True"
| "starting (S_publish st c f k) = (k = S_proxy_check)"
| "starting (S_call st k) = (k = S_proxy_check)"
| "starting _ = False"

definition lists_ok :: "('d, 'c) source \<Rightarrow> bool" where
  "lists_ok s \<longleftrightarrow>
     (\<forall>h \<in> set (ms_helpers s). list_all helping (snd h) \<and> acts_ok (halts s) (gone_dec s) (px_stopping (ms_proxy s)) (snd h)) \<and>
     (case ms_point s of
        S_acts zs k \<Rightarrow> acts_ok (halts s) (gone_dec s) (px_stopping (ms_proxy s)) zs \<and>
          (if k = S_report then zs \<noteq> [] \<longrightarrow> last zs = Z_reset \<and> list_all (\<lambda>z. z \<noteq> Z_reset) (butlast zs) else list_all helping zs)
      | _ \<Rightarrow> True)"

definition no_stops :: "('d, 'c) source \<Rightarrow> bool" where
  "no_stops s \<longleftrightarrow> ms_decoders s = (\<lambda>_. None) \<and> ms_readers s = (\<lambda>_. G_idle) \<and>
     (\<forall>h \<in> set (ms_helpers s). list_all (\<lambda>z. \<not> stops_dec z) (snd h))"

fun list_phase :: "bool \<Rightarrow> source_point \<Rightarrow> bool" where
  "list_phase l (S_acts zs k) = ((k = S_report \<and> zs = [] \<longrightarrow> \<not> l) \<and> (k \<noteq> S_report \<and> \<not> l \<longrightarrow> list_all (\<lambda>z. \<not> stops_dec z) zs))"
| "list_phase l (S_session k) = l"
| "list_phase l _ = True"

definition phases :: "('d, 'c) source \<Rightarrow> bool" where
  "phases s \<longleftrightarrow>
     (ms_session s \<longrightarrow> ms_local s) \<and>
     (\<not> exiting (ms_point s) \<and> \<not> ms_local s \<longrightarrow> no_stops s) \<and>
     (released_ms (ms_point s) \<longrightarrow> \<not> ms_local s) \<and> (ms_thread s \<longleftrightarrow> ms_point s \<noteq> S_none) \<and> list_phase (ms_local s) (ms_point s)"

definition proxy_calls :: "('d, 'c) source \<Rightarrow> bool" where
  "proxy_calls s \<longleftrightarrow>
     (px_consumer (ms_proxy s) = Y_idle \<longleftrightarrow> ms_point s \<noteq> S_reading) \<and>
     (starting (ms_point s) \<or> released_ms (ms_point s) \<longrightarrow> \<not> px_thread (ms_proxy s)) \<and>
     (starting (ms_point s) \<longrightarrow> px_cancels (ms_proxy s) = []) \<and>
     (case ms_point s of S_acts zs k \<Rightarrow> k = S_report \<and> Z_join_proxy \<notin> set zs \<longrightarrow> \<not> px_thread (ms_proxy s) | _ \<Rightarrow> True)"

fun producer_at :: "source_point \<Rightarrow> bool \<Rightarrow> dec_producer" where
  "producer_at (S_queue w i k) v = (if w = v then U_push i else U_idle)"
| "producer_at (S_mark w i k) v = (if w = v then U_mark i else U_idle)"
| "producer_at _ v = U_idle"

fun consumer_at :: "ms_reader \<Rightarrow> dec_consumer \<Rightarrow> bool" where
  "consumer_at G_busy (V_pop w) = (\<not> w)"
| "consumer_at G_busy (V_check x) = True"
| "consumer_at G_busy V_idle = False"
| "consumer_at g c = (c = V_idle)"

definition decoder_calls :: "('d, 'c) source \<Rightarrow> bool" where
  "decoder_calls s \<longleftrightarrow>
     (\<forall>v d. ms_decoders s v = Some d \<longrightarrow> dc_producer d = producer_at (ms_point s) v \<and>
        consumer_at (ms_readers s v) (dc_consumer d)) \<and>
     (case ms_point s of
        S_push v (In_packet q) k \<Rightarrow> \<forall>d. ms_decoders s v = Some d \<longrightarrow> PushPacket_check (Some q) d = Inr (In_packet q)
      | _ \<Rightarrow> True)"

section \<open>The decoders\<close>

definition dec_moves :: "av_lib \<Rightarrow> 'c codec_lib \<Rightarrow> ('d, 'c) source \<Rightarrow> ('d, 'c) source \<Rightarrow> bool" where
  "dec_moves L C s t \<longleftrightarrow> (\<forall>v. rel_option (\<lambda>d d'. d' = d \<or> decoding L C d d') (ms_decoders s v) (ms_decoders t v))"

lemma dec_moves_same: "ms_decoders t = ms_decoders s \<Longrightarrow> dec_moves L C s t"
  by (simp add: dec_moves_def option.rel_refl)

lemma dec_moves_one:
  assumes "ms_decoders t = (ms_decoders s)(v := Some d')" "ms_decoders s v = Some d" "d' = d \<or> decoding L C d d'"
  shows "dec_moves L C s t"
  using assms by (auto simp: dec_moves_def option.rel_refl)

lemma dec_moves_on:
  assumes "ms_decoders t = (ms_decoders s)(v := map_option f (ms_decoders s v))"
    and "\<And>d. ms_decoders s v = Some d \<Longrightarrow> f d = d \<or> decoding L C d (f d)"
  shows "dec_moves L C s t"
  using assms by (auto simp: dec_moves_def option.rel_refl option.rel_map rel_option_iff split: option.split)

definition dec_grows :: "'c decoder \<Rightarrow> 'c decoder \<Rightarrow> bool" where
  "dec_grows s t \<longleftrightarrow> (dc_stopping s \<longrightarrow> dc_stopping t) \<and> (dc_point s = D_done \<longrightarrow> dc_point t = D_done) \<and>
     dc_stream t = dc_stream s \<and> prefix (dh_in s) (dh_in t) \<and> prefix (dh_read s) (dh_read t)"

lemma dec_grows_step: "dec_step L C s t \<Longrightarrow> dec_grows r s \<Longrightarrow> dec_grows r t"
proof (induction rule: dec_step.induct)
  case (worker s)
  then show ?case
    by (cases "dc_point s")
      (auto simp: dec_grows_def worker_dec_def receive_step_def emit_step_def pop_step_def input_step_def send_step_def Let_def
        worker_ready_def split: prod.splits answer.splits sum.splits dec_input.splits option.splits)
next
  case (queue s i)
  then show ?case by (auto simp: dec_grows_def push_queue_def split: prod.splits)
next
  case (read_pop s wait)
  then show ?case by (auto simp: dec_grows_def read_pop_def split: prod.splits)
next
  case (read_check s x)
  then show ?case by (auto simp: dec_grows_def read_check_def Let_def)
qed (auto simp: dec_grows_def push_mark_def read_begin_def SetOnError_dec_def request_stop_def stop_packets_def stop_frames_def
    stop_discard_def)

lemma decoding_grows:
  assumes "decoding L C s t"
  shows "dec_grows s t"
proof -
  have "dec_grows s s" by (simp add: dec_grows_def)
  with assms show ?thesis by (auto intro: run_keeps [of L C "dec_grows s"] dec_grows_step)
qed

lemma decoder_runs_step: "decoder_runs L C d \<Longrightarrow> decoding L C d d' \<Longrightarrow> decoder_runs L C d'"
  unfolding decoder_runs_def by (blast intro: rtranclp.rtrancl_into_rtrancl)

text \<open>The steps of the worker on a decoder.\<close>

lemma stop_part_decoding: "q = Q_flag \<or> dc_stopping d \<Longrightarrow> decoding L C d (stop_part q d)"
  by (cases q) (auto simp: stop_part_def intro: decoding.intros)

lemma act_moves:
  assumes "acts_ok (halts s) (gone_dec s) px (z # zs)"
  shows "dec_moves L C s (snd (do_action z s))"
proof (cases z)
  case (Z_stop v q)
  with assms show ?thesis
    by (intro dec_moves_on [where v = v and f = "stop_part q"])
      (auto simp: do_action_def halts_def intro!: stop_part_decoding split: if_splits)
next
  case (Z_discard v)
  with assms show ?thesis
    by (intro dec_moves_on [where v = v and f = stop_discard])
      (auto simp: do_action_def halts_def gone_dec_def intro: decoding.discard)
qed (auto simp: do_action_def on_proxy_def intro!: dec_moves_same)

lemma push_begins:
  assumes "Push_dec True i d = (Inr ok, d')" "dc_producer d = U_idle"
    and "\<And>q. i = In_packet q \<Longrightarrow> PushPacket_check (Some q) d = Inr (In_packet q)"
  shows "decoding L C d d'" "dc_producer d' = (if ok then U_push i else U_idle)" "dc_consumer d' = dc_consumer d"
    "dc_stream d' = dc_stream d"
proof -
  let ?m = "case i of In_packet q \<Rightarrow> PushPacket_dec True (Some q) | In_eof \<Rightarrow> PushEof_dec True | In_reset \<Rightarrow> Reset_dec True"
  have "?m d = (Inr ok, d')"
    using assms(1,3) by (auto simp: PushPacket_dec_def PushEof_dec_def Reset_dec_def act_defs split: dec_input.split)
  then show "decoding L C d d'"
    by (rule decoding.push [OF assms(2), rotated, where wait = True and p = "case i of In_packet q \<Rightarrow> Some q | _ \<Rightarrow> None"])
      (auto split: dec_input.splits)
  show "dc_producer d' = (if ok then U_push i else U_idle)" "dc_consumer d' = dc_consumer d" "dc_stream d' = dc_stream d"
    using assms(1,2) by (auto simp: Push_dec_def act_defs split: if_splits)
qed

lemma worker_moves:
  assumes "source_ready s" "lists_ok s" "decoder_calls s" "\<And>d k. ms_point s = S_init d k \<Longrightarrow> ms_local s"
  shows "dec_moves L C s (worker_ms L C E s)"
proof (cases "ms_point s")
  case (S_acts zs k)
  show ?thesis
  proof (cases zs)
    case (Cons z rest)
    with S_acts assms(2) have "dec_moves L C s (snd (do_action z s))"
      by (intro act_moves) (auto simp: lists_ok_def)
    then show ?thesis using S_acts Cons by (cases "do_action z s") (simp add: worker_ms_def dec_moves_def)
  qed (use S_acts in \<open>auto simp: worker_ms_def intro: dec_moves_same\<close>)
next
  case (S_push v i k)
  show ?thesis
  proof (cases "ms_decoders s v")
    case (Some d)
    obtain r d' where r: "Push_dec True i d = (r, d')" by fastforce
    show ?thesis
    proof (cases r)
      case (Inr ok)
      with assms(3) r S_push Some have "decoding L C d d'"
        by (intro push_begins(1) [of i d ok d']) (auto simp: decoder_calls_def)
      with S_push Some r Inr show ?thesis
        by (intro dec_moves_one [of _ _ v d' d]) (auto simp: worker_ms_def begin_push_def)
    qed (use S_push Some r in \<open>auto simp: worker_ms_def begin_push_def intro: dec_moves_same\<close>)
  qed (use S_push in \<open>auto simp: worker_ms_def begin_push_def intro: dec_moves_same\<close>)
next
  case (S_queue v i k)
  with assms(1,3) show ?thesis
    by (intro dec_moves_on [where v = v and f = "push_queue i"])
      (auto simp: worker_ms_def queue_push_def Let_def source_ready_def decoder_calls_def intro: decoding.push_queue split: option.splits)
next
  case (S_mark v i k)
  with assms(3) show ?thesis
    by (intro dec_moves_on [where v = v and f = "push_mark i"])
      (auto simp: worker_ms_def decoder_calls_def intro: decoding.push_mark)
next
  case (S_init d k)
  with assms(4) show ?thesis
    by (auto simp: worker_ms_def Initialize_ms_def intro!: dec_moves_same split: option.split sum.split)
qed (auto simp: worker_ms_defs Let_def intro!: dec_moves_same
    split: option.splits sum.splits prod.splits read_answer.splits list.splits proxy_state.splits)

lemma reader_moves:
  assumes "decoder_calls s"
  shows "dec_moves L C s (ReadFrame_ms v s)"
proof (cases "ms_decoders s v")
  case (Some d)
  show ?thesis
  proof (cases "ms_readers s v")
    case G_call
    with Some assms have "dc_consumer d = V_idle" unfolding decoder_calls_def by (metis consumer_at.simps(5))
    with Some G_call show ?thesis
      by (intro dec_moves_on [where v = v and f = "read_begin False"])
        (auto simp: ReadFrame_ms_def intro: decoding.read_begin)
  next
    case G_busy
    show ?thesis
    proof (cases "dc_consumer d")
      case (V_pop w)
      with Some G_busy assms have "\<not> w" unfolding decoder_calls_def by (metis consumer_at.simps(1))
      with Some G_busy V_pop show ?thesis
        by (intro dec_moves_on [where v = v and f = read_pop]) (auto simp: ReadFrame_ms_def intro: decoding.read_pop)
    next
      case (V_check x)
      with Some G_busy show ?thesis
        by (intro dec_moves_one [of _ _ v "snd (read_check x d)" d])
          (auto simp: ReadFrame_ms_def intro: decoding.read_check split: prod.split)
    qed (use Some G_busy in \<open>auto simp: ReadFrame_ms_def intro: dec_moves_same\<close>)
  qed (use Some in \<open>auto simp: ReadFrame_ms_def intro: dec_moves_same\<close>)
qed (auto simp: ReadFrame_ms_def intro: dec_moves_same split: ms_reader.split)

section \<open>The proxy\<close>

lemma act_proxy:
  assumes "acts_ok (halts s) (gone_dec s) (px_stopping (ms_proxy s)) (z # zs)" "action_ready z s"
  shows "ms_proxy (snd (do_action z s)) = ms_proxy s \<or> proxying D (ms_proxy s) (ms_proxy (snd (do_action z s)))"
  using assms by (cases z) (auto simp: do_action_def action_ready_def intro: proxying.stop_flag proxying.stop_join)

lemma worker_proxy:
  assumes "source_ready s" "lists_ok s" "proxy_calls s"
  shows "ms_proxy (worker_ms L C E s) = ms_proxy s \<or> proxying D (ms_proxy s) (ms_proxy (worker_ms L C E s))"
proof (cases "ms_point s")
  case (S_acts zs k)
  show ?thesis
  proof (cases zs)
    case (Cons z rest)
    with S_acts assms act_proxy [of s z rest D] show ?thesis
      by (cases "do_action z s") (auto simp: lists_ok_def source_ready_def worker_ms_def)
  qed (use S_acts in \<open>simp add: worker_ms_def\<close>)
next
  case S_proxy
  with assms(3) have "proxying D (ms_proxy s) (snd (Start_px (en_thread E) (ms_url s) (ms_proxy s)))"
    by (intro proxying.start) (auto simp: proxy_calls_def)
  with S_proxy show ?thesis by (auto simp: worker_ms_def split: prod.split)
next
  case S_read
  with assms(3) have "proxying D (ms_proxy s) ((ms_proxy s)\<lparr>px_consumer := Y_begin True True\<rparr>)"
    by (intro proxying.read_call) (auto simp: proxy_calls_def)
  with S_read show ?thesis by (simp add: worker_ms_def on_proxy_def)
next
  case S_reading
  with assms(1) have "proxying D (ms_proxy s) (consume_px (ms_proxy s))"
    by (intro proxying.consumer) (simp add: source_ready_def)
  with S_reading show ?thesis by (simp add: worker_ms_def read_proxy_def Let_def on_proxy_def split: option.split prod.split)
next
  case (S_init d k)
  then show ?thesis by (auto simp: worker_ms_def Initialize_ms_def split: option.split sum.split)
qed (auto simp: worker_ms_defs Let_def on_decoder_def split: option.splits sum.splits prod.splits read_answer.splits list.splits proxy_state.splits)

text \<open>Which steps of a proxy leave its worker, its caller's position and its stop as they are.\<close>

lemma proxying_stopping:
  assumes "proxying D p q" "px_stopping p" "\<And>created url. q \<noteq> snd (Start_px created url p)"
  shows "px_stopping q"
  using assms(1)
proof cases
  case worker
  with assms(2) show ?thesis by simp
next
  case (input_worker i now)
  with assms(2) show ?thesis by (auto simp: step_input_worker_def Let_def split: input_point.split)
next
  case (input_control i started now)
  with assms(2) show ?thesis by (auto simp: step_input_control_def Let_def split: control_point.split)
next
  case consumer
  with assms(2) show ?thesis by simp
next
  case (start created url)
  with assms(3) show ?thesis by blast
qed (use assms(2) in \<open>auto simp: stop_flag_def stop_cancel_def stop_join_def\<close>)

section \<open>Lists of actions\<close>

definition grows :: "('d, 'c) source \<Rightarrow> ('d, 'c) source \<Rightarrow> bool" where
  "grows s t \<longleftrightarrow> (\<forall>v. halts s v \<longrightarrow> halts t v) \<and> (\<forall>v. gone_dec s v \<longrightarrow> gone_dec t v) \<and>
     (px_stopping (ms_proxy s) \<longrightarrow> px_stopping (ms_proxy t))"

lemma dec_moves_grow:
  assumes "dec_moves L C s t"
  shows "halts s v \<Longrightarrow> halts t v" "gone_dec s v \<Longrightarrow> gone_dec t v"
proof -
  from assms have r: "rel_option (\<lambda>d d'. d' = d \<or> decoding L C d d') (ms_decoders s v) (ms_decoders t v)"
    by (simp add: dec_moves_def)
  show "halts s v \<Longrightarrow> halts t v" "gone_dec s v \<Longrightarrow> gone_dec t v"
    using r by (cases "ms_decoders s v"; cases "ms_decoders t v";
      auto simp: halts_def gone_dec_def dec_grows_def dest: decoding_grows)+
qed

lemma grows_acts: "acts_ok (halts s) (gone_dec s) (px_stopping (ms_proxy s)) zs \<Longrightarrow> grows s t \<Longrightarrow>
    acts_ok (halts t) (gone_dec t) (px_stopping (ms_proxy t)) zs"
  by (erule acts_ok_mono) (auto simp: grows_def)

lemma acts_plain: "list_all (\<lambda>z. helping z \<and> \<not> stops_dec z) zs \<Longrightarrow> acts_ok st jn px zs"
proof (induction zs arbitrary: px)
  case (Cons z zs)
  then show ?case by (cases z) auto
qed simp

lemma acts_helping: "list_all helping zs \<Longrightarrow> acts_ok st jn px zs \<Longrightarrow> acts_ok st jn px' zs"
proof (induction zs arbitrary: st px px')
  case (Cons z zs)
  then show ?case by (cases z) (auto split: if_splits)
qed simp

lemma act_grows:
  assumes "acts_ok (halts s) (gone_dec s) (px_stopping (ms_proxy s)) (z # zs)"
  shows "grows s (snd (do_action z s))"
proof -
  have "px_stopping (ms_proxy s) \<longrightarrow> px_stopping (ms_proxy (snd (do_action z s)))"
    by (cases z) (auto simp: do_action_def stop_flag_def stop_join_def)
  then show ?thesis
    using dec_moves_grow [OF act_moves [where L = undefined and C = undefined, OF assms]] by (simp add: grows_def)
qed

lemma act_next:
  assumes "acts_ok (halts s) (gone_dec s) (px_stopping (ms_proxy s)) (z # zs)" "action_ready z s"
  shows "acts_ok (halts (snd (do_action z s))) (gone_dec (snd (do_action z s))) (px_stopping (ms_proxy (snd (do_action z s)))) (fst (do_action z s) @ zs)"
proof -
  note g = act_grows [OF assms(1)]
  let ?t = "snd (do_action z s)"
  have ok: "acts_ok (halts ?t) (gone_dec ?t) (px_stopping (ms_proxy ?t)) zs"
    if "acts_ok st jn px zs" "\<And>v. st v \<Longrightarrow> halts ?t v" "\<And>v. jn v \<Longrightarrow> gone_dec ?t v" "px \<Longrightarrow> px_stopping (ms_proxy ?t)" for st jn px
    using that by (rule acts_ok_mono)
  from g have h: "\<And>v. halts s v \<Longrightarrow> halts ?t v" "\<And>v. gone_dec s v \<Longrightarrow> gone_dec ?t v"
    "px_stopping (ms_proxy s) \<Longrightarrow> px_stopping (ms_proxy ?t)" by (simp_all add: grows_def)
  show ?thesis
  proof (cases z)
    case (Z_stop v q)
    have flag: "halts ?t v" if "q = Q_flag" using that Z_stop
      by (auto simp: do_action_def halts_def stop_part_def request_stop_def split: option.split)
    have acts: "acts_ok (if q = Q_flag then (halts s)(v := True) else halts s) (gone_dec s) (px_stopping (ms_proxy s)) zs"
      using assms(1) Z_stop by (simp split: if_splits)
    have "acts_ok (halts ?t) (gone_dec ?t) (px_stopping (ms_proxy ?t)) zs"
      by (rule ok [OF acts]) (use h flag in \<open>auto split: if_splits\<close>)
    then show ?thesis by (simp add: Z_stop do_action_def)
  next
    case (Z_join v)
    with assms(2) have "gone_dec s v" by (auto simp: action_ready_def gone_dec_def split: option.splits)
    with assms(1) Z_join have "acts_ok (halts s) (gone_dec s) (px_stopping (ms_proxy s)) zs" by (simp add: fun_upd_idem)
    then show ?thesis using Z_join by (simp add: do_action_def)
  next
    case Z_pick
    with assms(1) show ?thesis by (auto simp: do_action_def intro: acts_ok_stop)
  next
    case Z_proxy
    have "px_stopping (ms_proxy ?t)" using Z_proxy by (simp add: do_action_def stop_flag_def)
    with assms(1) Z_proxy h show ?thesis
      using ok [of "halts s" "gone_dec s" True] by (simp add: do_action_def)
  qed (use assms(1) ok [of "halts s" "gone_dec s" "px_stopping (ms_proxy s)"] h in \<open>auto simp: do_action_def\<close>)
qed

section \<open>Keeping the phases\<close>

lemmas ms_splits = option.splits sum.splits prod.splits read_answer.splits list.splits proxy_state.splits


lemma act_same [simp]:
  "ms_readers (snd (do_action z s)) = ms_readers s" "ms_helpers (snd (do_action z s)) = ms_helpers s" "ms_thread (snd (do_action z s)) = ms_thread s"
  "ms_stopping (snd (do_action z s)) = ms_stopping s" "ms_config (snd (do_action z s)) = ms_config s" "ms_final (snd (do_action z s)) = ms_final s"
  "ms_eofs (snd (do_action z s)) = ms_eofs s" "ms_ended (snd (do_action z s)) = ms_ended s" "ms_status (snd (do_action z s)) = ms_status s"
  "ms_description (snd (do_action z s)) = ms_description s" "ms_dispatched (snd (do_action z s)) = ms_dispatched s"
  "ms_result (snd (do_action z s)) = ms_result s" "ms_progress (snd (do_action z s)) = ms_progress s" "ms_batch (snd (do_action z s)) = ms_batch s"
  "mh_taken (snd (do_action z s)) = mh_taken s" "mh_states (snd (do_action z s)) = mh_states s" "ms_url (snd (do_action z s)) = ms_url s"
  "ms_revision (snd (do_action z s)) = ms_revision s" "ms_observed (snd (do_action z s)) = ms_observed s"
  by (simp_all add: do_action_def on_decoder_def on_proxy_def split: action.split)

lemma act_session:
  "ms_session (snd (do_action z s)) = (z \<noteq> Z_reset \<and> ms_session s)" "ms_local (snd (do_action z s)) = (z \<noteq> Z_reset \<and> ms_local s)"
  by (simp_all add: do_action_def on_decoder_def on_proxy_def split: action.split)

lemma act_no_decoders: "ms_decoders s = (\<lambda>_. None) \<Longrightarrow> ms_decoders (snd (do_action z s)) = (\<lambda>_. None)"
  by (cases z) (auto simp: do_action_def)

lemma act_new: "\<not> ms_session s \<Longrightarrow> fst (do_action z s) = []"
  by (cases z) (auto simp: do_action_def)

lemma worker_act:
  "ms_point s = S_acts (z # zs) k \<Longrightarrow> worker_ms L C E s = (snd (do_action z s))\<lparr>ms_point := S_acts (fst (do_action z s) @ zs) k\<rparr>"
  by (cases "do_action z s") (simp add: worker_ms_def)

text \<open>What most steps of the worker leave alone.\<close>

definition calm :: "('d, 'c) source \<Rightarrow> ('d, 'c) source \<Rightarrow> bool" where
  "calm s t \<longleftrightarrow> ms_session t = ms_session s \<and> ms_local t = ms_local s \<and> ms_readers t = ms_readers s \<and>
     ms_helpers t = ms_helpers s \<and> ms_thread t = ms_thread s \<and> (ms_decoders s = (\<lambda>_. None) \<longrightarrow> ms_decoders t = (\<lambda>_. None))"

fun plain_point :: "source_point \<Rightarrow> bool" where
  "plain_point (S_acts zs k) = (zs = [])"
| "plain_point (S_init d k) = False"
| "plain_point (S_session k) = False"
| "plain_point _ = True"

lemma calm_worker:
  assumes "plain_point (ms_point s)"
  shows "calm s (worker_ms L C E s)"
  using assms
  by (cases "ms_point s")
    (auto simp: calm_def worker_ms_def Publish_ms_def process_event_def read_proxy_def dispatch_def submit_result_def begin_push_def
      queue_push_def refused_def on_proxy_def on_decoder_def Let_def split: ms_splits)

lemma phases_move:
  assumes "phases s" "calm s t" "\<not> exiting (ms_point t) \<Longrightarrow> \<not> exiting (ms_point s)"
    and "released_ms (ms_point t) \<Longrightarrow> released_ms (ms_point s) \<or> \<not> ms_local s" "ms_point s = S_none \<longleftrightarrow> ms_point t = S_none" "list_phase (ms_local t) (ms_point t)"
  shows "phases t"
  using assms by (auto simp: phases_def calm_def no_stops_def)

lemma submit_all_points [simp]:
  "exiting k = False \<Longrightarrow> \<not> exiting (submit_all_ms i vs k)" "released_ms k = False \<Longrightarrow> \<not> released_ms (submit_all_ms i vs k)"
  "\<not> starting k \<Longrightarrow> \<not> starting (submit_all_ms i vs k)" "k \<noteq> S_none \<Longrightarrow> submit_all_ms i vs k \<noteq> S_none"
  "list_phase l k \<Longrightarrow> list_phase l (submit_all_ms i vs k)"
  by (induction vs) (simp_all add: submit_all_ms_def)

definition leads_ms :: "source_point \<Rightarrow> bool \<Rightarrow> source_point \<Rightarrow> bool" where
  "leads_ms p l q \<longleftrightarrow> (exiting p \<longrightarrow> exiting q) \<and> (released_ms q \<longrightarrow> released_ms p \<or> \<not> l) \<and> q \<noteq> S_none \<and> (\<forall>l. list_phase l q)"

lemma leads_pub: "pub_next k \<Longrightarrow> leads_ms (S_publish st c f k) l k" "pub_next k \<Longrightarrow> leads_ms (S_call st k) l k"
  "pub_next k \<Longrightarrow> leads_ms (S_publish st c f k) l (S_call st k)"
  by (induction k rule: pub_next.induct) (simp_all add: leads_ms_def)

lemma leads_check: "check_next k \<Longrightarrow> leads_ms (S_check k) l k"
  by (induction k rule: check_next.induct) (simp_all add: leads_ms_def)

lemma leads_init: "init_next k \<Longrightarrow> leads_ms (S_init d k) l k" "init_next k \<Longrightarrow> leads_ms (S_acts [] k) l k"
  by (induction k rule: init_next.induct) (simp_all add: leads_ms_def)

lemma leads_push: "push_next k \<Longrightarrow> leads_ms (S_mark v i k) l k"
  by (induction k rule: push_next.induct) (simp_all add: leads_ms_def)

lemma worker_leads:
  assumes "shaped (ms_point s)" "plain_point (ms_point s)" "ms_point s \<noteq> S_none" "list_phase (ms_local s) (ms_point s)"
  shows "leads_ms (ms_point s) (ms_local s) (ms_point (worker_ms L C E s))"
proof (cases "ms_point s")
  case (S_publish st c f k)
  with assms(1) show ?thesis by (simp add: worker_ms_def Publish_ms_def leads_pub)
next
  case (S_call st k)
  with assms(1) show ?thesis by (simp add: worker_ms_def leads_pub)
next
  case (S_check k)
  with assms(1) show ?thesis by (simp add: worker_ms_def leads_check split: option.split) (simp add: leads_ms_def)
next
  case (S_acts zs k)
  with assms(1,2,4) show ?thesis by (auto simp: worker_ms_def leads_init) (simp_all add: leads_ms_def)
next
  case (S_mark v i k)
  with assms(1) show ?thesis by (simp add: worker_ms_def leads_push)
next
  case S_event
  then show ?thesis
    by (simp add: worker_ms_def process_event_def Let_def split: list.split proxy_state.split) (simp add: leads_ms_def)
next
  case S_reading
  then show ?thesis by (simp add: worker_ms_def read_proxy_def Let_def split: option.split prod.split) (simp add: leads_ms_def)
next
  case S_dispatch
  then show ?thesis by (simp add: worker_ms_def dispatch_def leads_ms_def)
next
  case S_described
  then show ?thesis
    by (simp add: worker_ms_def submit_result_def Let_def leads_ms_def split: option.split sum.split read_answer.split)
next
  case (S_push v i k)
  then show ?thesis by (simp add: worker_ms_def begin_push_def leads_ms_def split: option.split sum.split prod.split)
next
  case (S_queue v i k)
  then show ?thesis by (simp add: worker_ms_def queue_push_def Let_def leads_ms_def split: option.split)
next
  case (S_refused v)
  then show ?thesis by (simp add: worker_ms_def refused_def leads_ms_def split: option.split)
next
  case (S_turn b)
  then show ?thesis by (simp add: worker_ms_def after_turn_def leads_ms_def)
next
  case S_drained
  then show ?thesis by (simp add: worker_ms_def after_turn_def leads_ms_def)
next
  case S_observer
  then show ?thesis by (simp add: worker_ms_def leads_ms_def split: option.split read_answer.split)
next
  case S_proxy
  then show ?thesis by (simp add: worker_ms_def leads_ms_def split: prod.split)
qed (use assms in \<open>simp_all add: worker_ms_def leads_ms_def\<close>)

lemma phases_worker:
  assumes "source_ready s" "shaped (ms_point s)" "lists_ok s" "phases s"
  shows "phases (worker_ms L C E s)"
proof (cases "plain_point (ms_point s)")
  case True
  from assms(1) have "ms_point s \<noteq> S_none" by (auto simp: source_ready_def)
  with worker_leads [OF assms(2) True this] assms(4) show ?thesis
    by (intro phases_move [OF assms(4) calm_worker [OF True]]) (auto simp: leads_ms_def phases_def)
next
  case False
  then consider z rest k where "ms_point s = S_acts (z # rest) k" | d k where "ms_point s = S_init d k" | k where "ms_point s = S_session k"
    by (cases "ms_point s" rule: plain_point.cases) (auto simp: neq_Nil_conv)
  then show ?thesis
  proof cases
    case (1 z rest k)
    note S_acts = 1
    then have t: "worker_ms L C E s = (snd (do_action z s))\<lparr>ms_point := S_acts (fst (do_action z s) @ rest) k\<rparr>"
      by (rule worker_act)
    show ?thesis
    proof (cases "k = S_report")
      case True
      with S_acts assms(3,4) show ?thesis
        by (auto simp: t phases_def lists_ok_def act_session act_new split: if_splits)
    next
      case False
      with S_acts assms(3) have h: "helping z" "z \<noteq> Z_reset" by (auto simp: lists_ok_def)
      with S_acts assms(2,4) False show ?thesis
        by (auto simp: t phases_def act_session act_new no_stops_def act_no_decoders)
    qed
  next
    case (2 d k)
    with assms(2) have "init_next k" by simp
    then have k: "\<not> exiting k" "\<not> released_ms k" "list_phase l k" "k \<noteq> S_none" for l
      by (induction k rule: init_next.induct) simp_all
    with 2 assms(4) show ?thesis
      by (simp add: worker_ms_def Initialize_ms_def split: option.split prod.split sum.split) (auto simp: phases_def no_stops_def)
  next
    case (3 k)
    with assms(2) have "init_next k" by simp
    then have k: "\<not> exiting k" "\<not> released_ms k" "list_phase l k" "k \<noteq> S_none" "k \<noteq> S_finish" "k \<noteq> S_report" for l
      by (induction k rule: init_next.induct) simp_all
    with 3 assms(4) show ?thesis
      by (auto simp: worker_ms_def publish_session_def phases_def no_stops_def)
  qed
qed

section \<open>The other threads\<close>

text \<open>What the threads other than the worker leave alone.\<close>

definition beside :: "('d, 'c) source \<Rightarrow> ('d, 'c) source \<Rightarrow> bool" where
  "beside s t \<longleftrightarrow> ms_point t = ms_point s \<and> ms_local t = ms_local s \<and> ms_session t = ms_session s \<and> ms_thread t = ms_thread s \<and>
     ms_config t = ms_config s \<and> ms_final t = ms_final s \<and> ms_ended t = ms_ended s \<and> ms_status t = ms_status s \<and>
     ms_description t = ms_description s \<and> ms_dispatched t = ms_dispatched s \<and> ms_result t = ms_result s \<and>
     ms_progress t = ms_progress s \<and> ms_batch t = ms_batch s \<and> mh_taken t = mh_taken s \<and> mh_states t = mh_states s \<and>
     ms_observed t = ms_observed s \<and> (\<forall>v. ms_decoders t v = None \<longleftrightarrow> ms_decoders s v = None) \<and>
     (ms_stopping s \<longrightarrow> ms_stopping t) \<and> (ms_failure s \<noteq> None \<longrightarrow> ms_failure t = ms_failure s) \<and> (\<forall>v. ms_eofs s v \<longrightarrow> ms_eofs t v)"

definition helper_at :: "nat \<Rightarrow> ('d, 'c) source \<Rightarrow> owner \<times> action list" where
  "helper_at i s = ms_helpers s ! i"

lemma step_helper_cases:
  assumes "i < length (ms_helpers s)"
  obtains (over) w where "ms_helpers s ! i = (w, [])"
      "step_helper i s = s\<lparr>ms_helpers := take i (ms_helpers s) @ drop (Suc i) (ms_helpers s)\<rparr>"
  | (act) w z zs where "ms_helpers s ! i = (w, z # zs)" "(w, z # zs) \<in> set (ms_helpers s)"
      "step_helper i s = (snd (do_action z s))\<lparr>ms_helpers := (ms_helpers s)[i := (w, fst (do_action z s) @ zs)]\<rparr>"
proof -
  obtain w zs where h: "ms_helpers s ! i = (w, zs)" by fastforce
  have m: "(w, zs) \<in> set (ms_helpers s)" using nth_mem [OF assms] h by simp
  show ?thesis
  proof (cases zs)
    case Nil
    with h show ?thesis by (intro over) (simp_all add: step_helper_def)
  next
    case (Cons z rest)
    obtain new t where t: "do_action z s = (new, t)" by fastforce
    with act_same(2) [of z s] have "ms_helpers t = ms_helpers s" by simp
    with h m Cons t show ?thesis by (intro act [of w z rest]) (simp_all add: step_helper_def)
  qed
qed

lemma act_beside:
  assumes "helping z"
  shows "beside s ((snd (do_action z s))\<lparr>ms_helpers := hs\<rparr>)"
proof -
  have "ms_decoders (snd (do_action z s)) v = None \<longleftrightarrow> ms_decoders s v = None" for v
    by (cases z) (simp_all add: do_action_def)
  moreover have "ms_failure s \<noteq> None \<longrightarrow> ms_failure (snd (do_action z s)) = ms_failure s"
    by (cases z) (simp_all add: do_action_def on_decoder_def on_proxy_def)
  ultimately show ?thesis using assms by (auto simp: beside_def act_session)
qed

lemma helper_beside:
  assumes "i < length (ms_helpers s)" "lists_ok s"
  shows "beside s (step_helper i s)"
  using assms(1)
proof (cases rule: step_helper_cases)
  case (over w)
  then show ?thesis by (simp add: beside_def)
next
  case (act w z zs)
  with assms(2) have "helping z" by (auto simp: lists_ok_def)
  then show ?thesis unfolding act(3) by (rule act_beside)
qed

lemma ReadFrame_beside: "beside s (ReadFrame_ms v s)"
  by (auto simp: ReadFrame_ms_def beside_def on_decoder_def set_reader_def split: ms_reader.split option.split dec_consumer.split prod.split)

lemma ReadSession_beside: "beside s (ReadSession v s)"
  by (simp add: ReadSession_def beside_def set_reader_def)

lemma step_proxy_beside: "beside s (step_proxy s)"
  by (auto simp: step_proxy_def ProxyChanged_def beside_def on_proxy_def Let_def split: proxy_point.split)

lemma step_decoder_beside: "beside s (step_decoder L C v s)"
  by (auto simp: step_decoder_def DecoderFailed_def beside_def on_decoder_def Let_def split: option.split)

lemma on_proxy_beside: "beside s (on_proxy f s)"
  by (simp add: beside_def on_proxy_def)

lemma request_beside: "beside s (RequestStop_ms s)"
  by (simp add: beside_def RequestStop_ms_def)

text \<open>The steps of a source: the worker, the life cycle, and the rest.\<close>

inductive other_step :: "av_lib \<Rightarrow> 'c codec_lib \<Rightarrow> 'd demux_lib \<Rightarrow> ('d, 'c) source \<Rightarrow> ('d, 'c) source \<Rightarrow> bool"
  for L :: av_lib and C :: "'c codec_lib" and D :: "'d demux_lib" where
  proxy: "proxying D (ms_proxy s) (f (ms_proxy s)) \<Longrightarrow> px_consumer (f (ms_proxy s)) = px_consumer (ms_proxy s) \<Longrightarrow>
    px_thread (f (ms_proxy s)) = px_thread (ms_proxy s) \<Longrightarrow> px_stopping (f (ms_proxy s)) = px_stopping (ms_proxy s) \<Longrightarrow>
    set (px_cancels (f (ms_proxy s))) \<subseteq> set (px_cancels (ms_proxy s)) \<Longrightarrow>
    px_point (f (ms_proxy s)) = px_point (ms_proxy s) \<Longrightarrow> ph_answers (f (ms_proxy s)) = ph_answers (ms_proxy s) \<Longrightarrow>
    other_step L C D s (on_proxy f s)"
| proxy_worker: "proxy_ready (ms_proxy s) \<Longrightarrow> \<not> has_helper Own_observer s \<Longrightarrow> other_step L C D s (step_proxy s)"
| decoder: "ms_decoders s v = Some d \<Longrightarrow> worker_ready d \<Longrightarrow> other_step L C D s (step_decoder L C v s)"
| helper: "i < length (ms_helpers s) \<Longrightarrow> other_step L C D s (step_helper i s)"
| request: "other_step L C D s (RequestStop_ms s)"
| read_session: "ms_readers s v = G_idle \<Longrightarrow> other_step L C D s (ReadSession v s)"
| read_frame: "ms_readers s v \<noteq> G_idle \<Longrightarrow> other_step L C D s (ReadFrame_ms v s)"

lemma sourcing_cases:
  assumes "sourcing L C D s t"
  obtains (worker) E where "source_ready s" "t = worker_ms L C E s"
  | (other) "other_step L C D s t"
  | (join) "ms_stopping s" "ms_point s = S_done" "t = join_ms s"
  | (start) created url where "quiet s" "t = snd (Start_ms created url s)"
  using assms
proof cases
  case (input_worker i now)
  have "other_step L C D s (on_proxy (step_input_worker D now i) s)"
    by (rule other_step.proxy, rule proxying.input_worker [OF input_worker(2,3)])
      (auto simp: step_input_worker_def Let_def split: input_point.split)
  with other input_worker(1) show ?thesis by simp
next
  case (input_control i started now)
  have "other_step L C D s (on_proxy (step_input_control D started now i) s)"
    by (rule other_step.proxy, rule proxying.input_control [OF input_control(2,3)])
      (auto simp: step_input_control_def Let_def split: control_point.split)
  with other input_control(1) show ?thesis by simp
next
  case (input_cancel i)
  have "other_step L C D s (on_proxy (on_input i cancel_queue) s)"
    by (rule other_step.proxy, rule proxying.input_cancel [OF input_cancel(2,3)]) simp_all
  with other input_cancel(1) show ?thesis by simp
next
  case (proxy_cancel i)
  have "other_step L C D s (on_proxy (stop_cancel i) s)"
    by (rule other_step.proxy, rule proxying.stop_cancel [OF proxy_cancel(2)]) (simp_all add: stop_cancel_def set_remove1_subset)
  with other proxy_cancel(1) show ?thesis by simp
qed (auto intro: that other_step.intros)

lemma other_beside: "other_step L C D s t \<Longrightarrow> lists_ok s \<Longrightarrow> beside s t"
  by (induction rule: other_step.induct)
    (auto intro: on_proxy_beside step_proxy_beside step_decoder_beside helper_beside request_beside ReadSession_beside ReadFrame_beside)

end
