(* ===== verification/Source_Run.thy ===== *)
theory Source_Run
  imports Source_Inv
begin

text \<open>
  The invariant of \<open>sourcing\<close>, and that the proxy and the decoders of a source do only what they do by
  themselves: what holds of every run of theirs holds within a source.
\<close>

section \<open>Phases\<close>

lemma on_more [simp]:
  "ms_helpers (on_proxy f s) = ms_helpers s" "ms_helpers (on_decoder v g s) = ms_helpers s" "ms_helpers (set_reader v x s) = ms_helpers s"
  "ms_readers (on_proxy f s) = ms_readers s" "ms_readers (on_decoder v g s) = ms_readers s"
  "ms_readers (set_reader v x s) = (ms_readers s)(v := x)"
  "ms_stopping (on_proxy f s) = ms_stopping s" "ms_stopping (on_decoder v g s) = ms_stopping s" "ms_stopping (set_reader v x s) = ms_stopping s"
  "ms_failure (on_proxy f s) = ms_failure s" "ms_failure (on_decoder v g s) = ms_failure s" "ms_failure (set_reader v x s) = ms_failure s"
  "ms_eofs (on_proxy f s) = ms_eofs s" "ms_eofs (on_decoder v g s) = ms_eofs s" "ms_eofs (set_reader v x s) = ms_eofs s"
  "ms_session (on_proxy f s) = ms_session s" "ms_session (on_decoder v g s) = ms_session s" "ms_session (set_reader v x s) = ms_session s"
  by (simp_all add: on_proxy_def on_decoder_def set_reader_def)

lemma helper_no_stops:
  assumes "i < length (ms_helpers s)" "no_stops s" "\<not> ms_session s"
  shows "no_stops (step_helper i s)"
  using assms(1)
proof (cases rule: step_helper_cases)
  case (over w)
  with assms(2) show ?thesis by (auto simp: no_stops_def dest: in_set_takeD in_set_dropD)
next
  case (act w z zs)
  with assms(2,3) show ?thesis
    by (auto simp: no_stops_def act_no_decoders act_new dest!: set_update_subset_insert [THEN subsetD])
qed

lemma other_no_stops:
  assumes "other_step L C D s t" "no_stops s" "\<not> ms_session s"
  shows "no_stops t"
  using assms
proof (induction rule: other_step.induct)
  case (helper i s)
  then show ?case by (simp add: helper_no_stops)
next
  case (decoder s v d)
  then show ?case by (simp add: no_stops_def)
next
  case (proxy_worker s)
  then show ?case
    by (auto simp: step_proxy_def ProxyChanged_def no_stops_def on_proxy_def Let_def split: proxy_point.split)
qed (auto simp: no_stops_def on_proxy_def RequestStop_ms_def ReadSession_def)

lemma phases_other:
  assumes "other_step L C D s t" "lists_ok s" "phases s"
  shows "phases t"
  using other_beside [OF assms(1,2)] other_no_stops [OF assms(1)] assms(3)
  by (auto simp: phases_def beside_def)

lemma phases_step:
  assumes "sourcing L C D s t" "shaped (ms_point s)" "lists_ok s" "phases s"
  shows "phases t"
  using assms(1)
proof (cases rule: sourcing_cases)
  case (worker E)
  with assms(2-4) show ?thesis by (simp add: phases_worker)
next
  case other
  from phases_other [OF other assms(3,4)] show ?thesis .
next
  case join
  with assms(4) show ?thesis by (auto simp: phases_def join_ms_def)
next
  case (start created url)
  with assms(4) show ?thesis
    by (auto simp: phases_def no_stops_def Start_ms_def Let_def quiet_def)
qed

section \<open>Lists of actions\<close>

definition helpers_ok :: "('d, 'c) source \<Rightarrow> bool" where
  "helpers_ok s \<longleftrightarrow> (\<forall>h \<in> set (ms_helpers s).
     list_all helping (snd h) \<and> acts_ok (halts s) (gone_dec s) (px_stopping (ms_proxy s)) (snd h))"

lemma lists_ok_alt: "lists_ok s \<longleftrightarrow> helpers_ok s \<and>
     (case ms_point s of
        S_acts zs k \<Rightarrow> acts_ok (halts s) (gone_dec s) (px_stopping (ms_proxy s)) zs \<and>
          (if k = S_report then zs \<noteq> [] \<longrightarrow> last zs = Z_reset \<and> list_all (\<lambda>z. z \<noteq> Z_reset) (butlast zs) else list_all helping zs)
      | _ \<Rightarrow> True)"
  by (simp add: lists_ok_def helpers_ok_def)

lemma helpers_grow: "helpers_ok s \<Longrightarrow> grows s t \<Longrightarrow> set (ms_helpers t) \<subseteq> set (ms_helpers s) \<Longrightarrow> helpers_ok t"
  unfolding helpers_ok_def by (blast intro: grows_acts)

lemma lists_grow:
  assumes "lists_ok s" "grows s t" "ms_point t = ms_point s" "helpers_ok t"
  shows "lists_ok t"
  using assms by (cases "ms_point s") (auto simp: lists_ok_alt intro: grows_acts)

text \<open>A step of another thread lets the stops that have been made stand.\<close>

lemma on_decoder_moves: "ms_decoders s v = Some d \<Longrightarrow> f d = d \<or> decoding L C d (f d) \<Longrightarrow> dec_moves L C s (on_decoder v f s)"
  by (rule dec_moves_on [where v = v and f = f]) simp_all

lemma step_decoder_decoders: "ms_decoders (step_decoder L C v s) = ms_decoders (on_decoder v (worker_dec L C) s)"
  by (simp add: step_decoder_def DecoderFailed_def Let_def split: option.split)

lemma other_moves:
  assumes "other_step L C D s t" "helpers_ok s" "decoder_calls s"
  shows "dec_moves L C s t"
  using assms
proof (induction rule: other_step.induct)
  case (decoder s v d)
  have "dec_moves L C s (on_decoder v (worker_dec L C) s)"
    by (rule on_decoder_moves [OF decoder(1)]) (blast intro: decoding.worker [OF decoder(2)])
  then show ?case by (simp add: dec_moves_def step_decoder_decoders)
next
  case (helper i s)
  from helper(1) show ?case
  proof (cases rule: step_helper_cases)
    case (act w z zs)
    with helper(2) have "dec_moves L C s (snd (do_action z s))" by (intro act_moves) (auto simp: helpers_ok_def)
    then show ?thesis by (simp add: act(3) dec_moves_def)
  qed (auto intro: dec_moves_same)
next
  case (read_frame s v)
  then show ?case by (simp add: reader_moves)
qed (auto intro!: dec_moves_same simp: step_proxy_def ProxyChanged_def Let_def RequestStop_ms_def ReadSession_def split: proxy_point.split)

lemma other_stopping:
  assumes "other_step L C D s t" "px_stopping (ms_proxy s)"
  shows "px_stopping (ms_proxy t)"
  using assms
proof (induction rule: other_step.induct)
  case (decoder s v d)
  then show ?case by (simp add: step_decoder_def DecoderFailed_def Let_def split: option.split)
next
  case (helper i s)
  have "px_stopping (ms_proxy (snd (do_action z s)))" for z
    using helper(2) by (cases z) (auto simp: do_action_def stop_flag_def stop_join_def)
  with helper(2) show ?case by (cases rule: step_helper_cases [OF helper(1)]) simp_all
next
  case (read_frame s v)
  then show ?case by (auto simp: ReadFrame_ms_def split: ms_reader.split option.split dec_consumer.split prod.split)
qed (auto simp: step_proxy_def ProxyChanged_def Let_def RequestStop_ms_def ReadSession_def split: proxy_point.split)

lemma other_grows:
  assumes "other_step L C D s t" "helpers_ok s" "decoder_calls s"
  shows "grows s t"
  using dec_moves_grow [OF other_moves [OF assms]] other_stopping [OF assms(1)] by (simp add: grows_def)

lemma ReadFrame_helpers: "ms_helpers (ReadFrame_ms v s) = ms_helpers s"
  by (simp add: ReadFrame_ms_def split: ms_reader.split option.split dec_consumer.split prod.split)

lemma stop_session_ok: "acts_ok st jn px (stop_session ds)"
  using acts_ok_stop [of st jn px "[]" ds] by simp

lemma helpers_other:
  assumes "other_step L C D s t" "lists_ok s" "decoder_calls s"
  shows "helpers_ok t"
proof -
  from assms(2) have h: "helpers_ok s" by (simp add: lists_ok_alt)
  note g = other_grows [OF assms(1) h assms(3)]
  have one: "helpers_ok t" if "set (ms_helpers t) \<subseteq> insert x (set (ms_helpers s))" "list_all helping (snd x)"
    "acts_ok (halts t) (gone_dec t) (px_stopping (ms_proxy t)) (snd x)" for x
    using that h g unfolding helpers_ok_def by (blast intro: grows_acts)
  show ?thesis
    using assms(1)
  proof cases
    case proxy_worker
    show ?thesis
      by (rule one [of "(Own_observer, [Z_pick])"])
        (auto simp: proxy_worker(1) step_proxy_def ProxyChanged_def Let_def split: proxy_point.split)
  next
    case (decoder v d)
    show ?thesis
      by (rule one [of "(Own_track v, [Z_fail (the (dc_error d)), Z_pick, Z_proxy])"])
        (auto simp: decoder(1,2) step_decoder_def DecoderFailed_def Let_def on_decoder_def split: option.split)
  next
    case (helper i)
    from helper(2) show ?thesis
    proof (cases rule: step_helper_cases)
      case (over w)
      then show ?thesis using h g helper(1)
        by (intro helpers_grow [OF h g]) (auto dest: in_set_takeD in_set_dropD)
    next
      case (act w z zs)
      with h have z: "list_all helping (z # zs)" "acts_ok (halts s) (gone_dec s) (px_stopping (ms_proxy s)) (z # zs)"
        by (auto simp: helpers_ok_def)
      then have "action_ready z s" by (cases z) (simp_all add: action_ready_def)
      note n = act_next [OF z(2) this]
      show ?thesis
      proof (rule one [of "(w, fst (do_action z s) @ zs)"])
        show "set (ms_helpers t) \<subseteq> insert (w, fst (do_action z s) @ zs) (set (ms_helpers s))"
          by (simp add: helper(1) act(3) set_update_subset_insert)
        from z(1) show "list_all helping (snd (w, fst (do_action z s) @ zs))" by (cases z) (simp_all add: do_action_def)
        from n show "acts_ok (halts t) (gone_dec t) (px_stopping (ms_proxy t)) (snd (w, fst (do_action z s) @ zs))"
          by (simp add: helper(1) act(3) halts_def [abs_def] gone_dec_def [abs_def])
      qed
    qed
  next
    case request
    show ?thesis
      by (rule one [of "(Own_caller, Z_proxy # (if ms_session s then stop_session (ms_decoders s) else []))"])
        (auto simp: request RequestStop_ms_def stop_session_ok)
  next
    case (proxy f)
    show ?thesis by (rule helpers_grow [OF h g]) (simp add: proxy(1))
  next
    case (read_session v)
    show ?thesis by (rule helpers_grow [OF h g]) (simp add: read_session(1) ReadSession_def)
  next
    case (read_frame v)
    show ?thesis by (rule helpers_grow [OF h g]) (simp add: read_frame(1) ReadFrame_helpers)
  qed
qed

text \<open>The worker.\<close>

fun acts_at :: "source_point \<Rightarrow> (action list \<times> source_point) option" where
  "acts_at (S_acts zs k) = Some (zs, k)"
| "acts_at _ = None"

lemma acts_at_next [simp]:
  "pub_next k \<Longrightarrow> acts_at k = None" "check_next k \<Longrightarrow> acts_at k = None" "init_next k \<Longrightarrow> acts_at k = None"
  "push_next k \<Longrightarrow> acts_at k = None"
  by (cases k; simp)+

lemma acts_at_submit [simp]: "acts_at k = None \<Longrightarrow> acts_at (submit_all_ms i vs k) = None"
  by (induction vs) (simp_all add: submit_all_ms_def)

fun enters_acts :: "source_point \<Rightarrow> bool" where
  "enters_acts (S_throw e) = True"
| "enters_acts S_cleanup = True"
| "enters_acts (S_session k) = True"
| "enters_acts (S_acts (z # zs) k) = True"
| "enters_acts _ = False"

lemma worker_no_acts:
  assumes "shaped (ms_point s)" "\<not> enters_acts (ms_point s)"
  shows "acts_at (ms_point (worker_ms L C E s)) = None"
proof (cases "ms_point s")
  case (S_acts zs k)
  with assms show ?thesis by (cases zs) (auto simp: worker_ms_def)
qed (use assms in \<open>auto simp: worker_ms_defs Let_def split: ms_splits\<close>)

lemma worker_helpers: "ms_helpers (worker_ms L C E s) = ms_helpers s"
proof (cases "ms_point s")
  case (S_acts zs k)
  then show ?thesis by (cases zs) (simp_all add: worker_act, simp add: worker_ms_def)
qed (auto simp: worker_ms_defs Let_def split: ms_splits)

lemma worker_stopping:
  assumes "px_stopping (ms_proxy s)" "ms_point s \<noteq> S_proxy"
  shows "px_stopping (ms_proxy (worker_ms L C E s))"
proof (cases "ms_point s")
  case (S_acts zs k)
  have "px_stopping (ms_proxy (snd (do_action z s)))" for z
    using assms(1) by (cases z) (auto simp: do_action_def stop_flag_def stop_join_def)
  with S_acts assms(1) show ?thesis
    by (cases zs) (auto simp: worker_act, simp_all add: worker_ms_def)
qed (use assms in \<open>auto simp: worker_ms_defs Let_def split: ms_splits\<close>)

lemma worker_init: "phases s \<Longrightarrow> ms_point s = S_init d k \<Longrightarrow> \<not> ms_local s \<Longrightarrow> no_stops s"
  by (simp add: phases_def)

lemma helpers_worker:
  assumes "source_ready s" "phases s" "lists_ok s" "decoder_calls s"
  shows "helpers_ok (worker_ms L C E s)"
proof -
  from assms(3) have h: "helpers_ok s" by (simp add: lists_ok_alt)
  consider "ms_point s = S_proxy" | d k where "ms_point s = S_init d k" "\<not> ms_local s"
    | "ms_point s \<noteq> S_proxy" "\<And>d k. ms_point s = S_init d k \<Longrightarrow> ms_local s" by blast
  then show ?thesis
  proof cases
    case 1
    then have d: "ms_decoders (worker_ms L C E s) = ms_decoders s" by (simp add: worker_ms_def split: prod.split)
    have "acts_ok (halts (worker_ms L C E s)) (gone_dec (worker_ms L C E s)) (px_stopping (ms_proxy (worker_ms L C E s))) zs"
      if "list_all helping zs" "acts_ok (halts s) (gone_dec s) px zs" for px zs
      by (rule acts_helping [OF that(1), of _ _ px])
        (use that(2) in \<open>simp add: halts_def [abs_def] gone_dec_def [abs_def] d\<close>)
    with h show ?thesis by (auto simp: helpers_ok_def worker_helpers)
  next
    case (2 d k)
    then have "no_stops s" using worker_init [OF assms(2)] by blast
    then show ?thesis using h
      by (auto simp: helpers_ok_def worker_helpers no_stops_def list_all_iff intro!: acts_plain)
  next
    case 3
    from dec_moves_grow [OF worker_moves [OF assms(1,3,4) 3(2)]] worker_stopping [OF _ 3(1)]
    have "grows s (worker_ms L C E s)" by (simp add: grows_def)
    with h show ?thesis by (rule helpers_grow) (simp add: worker_helpers)
  qed
qed

lemma act_no_reset: "Z_reset \<notin> set (fst (do_action z s))"
  by (cases z) (auto simp: do_action_def stop_session_def present_cases stop_track_def)

lemma act_helps: "list_all helping (fst (do_action z s))"
  by (cases z) (simp_all add: do_action_def)

lemma close_no_reset: "Z_reset \<notin> set (close_session ds)"
  by (auto simp: close_session_def present_cases stop_track_def)

lemma init_next_not: "init_next k \<Longrightarrow> k \<noteq> S_report \<and> k \<noteq> S_finish"
  by (cases k) simp_all

lemma lists_worker:
  assumes "source_ready s" "shaped (ms_point s)" "phases s" "lists_ok s" "decoder_calls s"
  shows "lists_ok (worker_ms L C E s)"
proof -
  let ?t = "worker_ms L C E s"
  have h: "helpers_ok ?t" by (rule helpers_worker [OF assms(1,3-5)])
  show ?thesis
  proof (cases "enters_acts (ms_point s)")
    case False
    with worker_no_acts [OF assms(2), of L C E] h show ?thesis
      by (cases "ms_point ?t") (simp_all add: lists_ok_alt)
  next
    case True
    then show ?thesis
    proof (cases "ms_point s" rule: enters_acts.cases)
      case (4 z zs k)
      with assms(1,4) have a: "acts_ok (halts s) (gone_dec s) (px_stopping (ms_proxy s)) (z # zs)" "action_ready z s"
        by (auto simp: lists_ok_def source_ready_def)
      have t: "halts ?t = halts (snd (do_action z s))" "gone_dec ?t = gone_dec (snd (do_action z s))"
        by (simp_all add: worker_act [OF 4] halts_def [abs_def] gone_dec_def [abs_def])
      have "acts_ok (halts ?t) (gone_dec ?t) (px_stopping (ms_proxy ?t)) (fst (do_action z s) @ zs)"
        using act_next [OF a] by (simp add: t) (simp add: worker_act [OF 4])
      moreover have "last (fst (do_action z s) @ zs) = Z_reset \<and> list_all (\<lambda>z. z \<noteq> Z_reset) (butlast (fst (do_action z s) @ zs))"
        if "k = S_report" "fst (do_action z s) @ zs \<noteq> []"
      proof -
        from assms(4) 4 that(1) have l: "last (z # zs) = Z_reset" "list_all (\<lambda>z. z \<noteq> Z_reset) (butlast (z # zs))"
          by (simp_all add: lists_ok_def)
        have "zs \<noteq> []" using l that(2) by (auto simp: do_action_def)
        with l act_no_reset [of z s] show ?thesis
          by (auto simp: list_all_iff butlast_append)
      qed
      moreover have "list_all helping (fst (do_action z s) @ zs)" if "k \<noteq> S_report"
        using assms(4) 4 that by (simp add: lists_ok_def act_helps)
      ultimately show ?thesis using h by (simp add: lists_ok_alt) (simp add: worker_act [OF 4])
    next
      case 2
      with h show ?thesis
        by (auto simp: lists_ok_alt worker_ms_def list_all_iff butlast_append dest: close_no_reset [THEN notE, rotated] intro!: acts_ok_close)
    next
      case (3 k)
      with assms(2) have "k \<noteq> S_report" by (simp add: init_next_not)
      with 3 assms(2) h show ?thesis
        by (auto simp: lists_ok_alt worker_ms_def publish_session_def stop_session_ok split: source_point.split)
    qed (use h in \<open>simp_all add: lists_ok_alt worker_ms_def\<close>)
  qed
qed

lemma Start_ms_cases:
  obtains (same) "snd (Start_ms created url s) = s"
  | (reset) "\<not> ms_thread s" "ms_proxy (snd (Start_ms created url s)) = ms_proxy s"
      "ms_helpers (snd (Start_ms created url s)) = ms_helpers s" "ms_readers (snd (Start_ms created url s)) = ms_readers s"
      "ms_decoders (snd (Start_ms created url s)) = (\<lambda>_. None)" "\<not> ms_final (snd (Start_ms created url s))"
      "ms_config (snd (Start_ms created url s)) = ms_config s" "ms_eofs (snd (Start_ms created url s)) = (\<lambda>_. False)"
      "ms_failure (snd (Start_ms created url s)) = None" "ms_session (snd (Start_ms created url s)) = ms_session s"
      "ms_point (snd (Start_ms created url s)) = (if created then S_start else ms_point s)"
      "ms_status (snd (Start_ms created url s)) = (if created then no_status\<lparr>ss_state := ST_connecting\<rparr> else no_status)"
      "created \<Longrightarrow> mh_taken (snd (Start_ms created url s)) = [] \<and> mh_states (snd (Start_ms created url s)) = [] \<and>
         \<not> ms_ended (snd (Start_ms created url s)) \<and> \<not> ms_local (snd (Start_ms created url s)) \<and> \<not> ms_stopping (snd (Start_ms created url s))"
      "\<not> created \<Longrightarrow> mh_taken (snd (Start_ms created url s)) = mh_taken s \<and> mh_states (snd (Start_ms created url s)) = mh_states s \<and>
         ms_ended (snd (Start_ms created url s)) = ms_ended s \<and> ms_local (snd (Start_ms created url s)) = ms_local s \<and>
         ms_stopping (snd (Start_ms created url s))"
proof (cases "bad_address url \<or> ms_thread s")
  case True
  then show ?thesis by (intro same) (auto simp: Start_ms_def)
next
  case False
  then show ?thesis by (intro reset) (auto simp: Start_ms_def Let_def)
qed

lemma lists_step:
  assumes "sourcing L C D s t" "shaped (ms_point s)" "phases s" "lists_ok s" "decoder_calls s"
  shows "lists_ok t"
  using assms(1)
proof (cases rule: sourcing_cases)
  case (worker E)
  with assms(2-5) show ?thesis by (simp add: lists_worker)
next
  case other
  from assms(4) have h: "helpers_ok s" by (simp add: lists_ok_alt)
  show ?thesis
    using lists_grow [OF assms(4) other_grows [OF other h assms(5)] _ helpers_other [OF other assms(4,5)]]
      other_beside [OF other assms(4)] by (simp add: beside_def)
next
  case join
  with assms(4) show ?thesis
    by (auto simp: lists_ok_def join_ms_def halts_def [abs_def] gone_dec_def [abs_def])
next
  case (start created url)
  show ?thesis
  proof (cases rule: Start_ms_cases [of created url s])
    case same
    with assms(4) start(2) show ?thesis by simp
  next
    case reset
    with assms(3) have "ms_point s = S_none" by (simp add: phases_def)
    with reset(3,11) start show ?thesis by (simp add: lists_ok_def quiet_def)
  qed
qed

section \<open>Calls on the proxy\<close>

lemma read_outcome_idle:
  assumes "px_consumer p \<noteq> Y_idle" "readers p"
  shows "read_outcome p = None \<longleftrightarrow> px_consumer (consume_px p) \<noteq> Y_idle"
proof (cases "px_consumer p")
  case (Y_begin w r)
  then show ?thesis by (auto simp: read_outcome_def consume_px_def read_first_def Let_def split: option.splits)
next
  case (Y_input i d w r)
  with assms(2) have "i < length (px_inputs p)" by (simp add: readers_def)
  with Y_input show ?thesis by (auto simp: read_outcome_def consume_px_def no_packet_def Let_def on_input_def)
next
  case (Y_check i d w r)
  with assms(2) have "i < length (px_inputs p)" "reader_fits (px_consumer p) i (iv_reader (conn p i))"
    by (auto simp: readers_def)
  with Y_check obtain x where x: "iv_reader (conn p i) = X_check x" by auto
  obtain a c where "read_finish x (conn p i) = (a, c)" by fastforce
  with Y_check x show ?thesis
    by (cases a) (auto simp: read_outcome_def consume_px_def no_packet_def Let_def on_input_def)
qed (use assms(1) in \<open>auto simp: read_outcome_def consume_px_def Let_def\<close>)

definition worker_calls :: "source_point \<Rightarrow> 'd proxy \<Rightarrow> bool" where
  "worker_calls x p \<longleftrightarrow>
     (px_consumer p = Y_idle \<longleftrightarrow> x \<noteq> S_reading) \<and>
     (starting x \<or> released_ms x \<longrightarrow> \<not> px_thread p) \<and>
     (starting x \<longrightarrow> px_cancels p = []) \<and>
     (case x of S_acts zs k \<Rightarrow> k = S_report \<and> Z_join_proxy \<notin> set zs \<longrightarrow> \<not> px_thread p | _ \<Rightarrow> True)"

lemma proxy_calls_alt: "proxy_calls s = worker_calls (ms_point s) (ms_proxy s)"
  by (simp add: proxy_calls_def worker_calls_def)


definition settles :: "source_point \<Rightarrow> 'd proxy \<Rightarrow> source_point \<Rightarrow> 'd proxy \<Rightarrow> bool" where
  "settles x p y q \<longleftrightarrow> x \<noteq> S_reading \<and> y \<noteq> S_reading \<and> px_consumer q = px_consumer p \<and> px_thread q = px_thread p \<and> px_cancels q = px_cancels p \<and>
     acts_at y = None \<and> (released_ms y \<longrightarrow> released_ms x) \<and> (starting y \<longrightarrow> starting x)"

lemma settles_calls: "settles x p y q \<Longrightarrow> worker_calls x p \<Longrightarrow> worker_calls y q"
  by (cases y) (auto simp: settles_def worker_calls_def)


lemma check_next_not: "check_next k \<Longrightarrow> k \<noteq> S_reading \<and> \<not> starting k \<and> \<not> released_ms k"
  by (cases k rule: check_next.cases) simp_all

lemma push_next_not: "push_next k \<Longrightarrow> k \<noteq> S_reading \<and> \<not> starting k \<and> \<not> released_ms k"
  by (cases k rule: push_next.cases) simp_all

lemma init_next_calm: "init_next k \<Longrightarrow> k \<noteq> S_reading \<and> \<not> starting k \<and> \<not> released_ms k"
  by (cases k rule: init_next.cases) simp_all

lemma pub_next_not: "pub_next k \<Longrightarrow> k \<noteq> S_reading \<and> starting k = (k = S_proxy_check) \<and> released_ms k = (k = S_done)"
  by (cases k rule: pub_next.cases) simp_all

lemma submit_not_reading [simp]: "k \<noteq> S_reading \<Longrightarrow> submit_all_ms i vs k \<noteq> S_reading"
  by (induction vs) (simp_all add: submit_all_ms_def)

text \<open>All steps of the worker but those that call the proxy settle.\<close>

fun calls_px :: "source_point \<Rightarrow> bool" where
  "calls_px (S_acts zs k) = True"
| "calls_px S_read = True"
| "calls_px S_reading = True"
| "calls_px S_proxy = True"
| "calls_px _ = False"


lemma worker_settles:
  assumes "shaped (ms_point s)" "\<not> calls_px (ms_point s)" "\<not> enters_acts (ms_point s)"
  shows "settles (ms_point s) (ms_proxy s) (ms_point (worker_ms L C E s)) (ms_proxy (worker_ms L C E s))"
  unfolding settles_def
proof (intro conjI)
  show "acts_at (ms_point (worker_ms L C E s)) = None" by (rule worker_no_acts [OF assms(1,3)])
qed (cases "ms_point s"; use assms in \<open>simp add: worker_ms_defs Let_def check_next_not push_next_not init_next_calm
    pub_next_not split: ms_splits\<close>)+

lemma Start_px_apart: "px_consumer (snd (Start_px created url p)) = px_consumer p"
  by (simp add: Start_px_def Let_def)

lemma act_proxy_apart:
  "px_consumer (ms_proxy (snd (do_action z s))) = px_consumer (ms_proxy s)"
  "z \<noteq> Z_join_proxy \<Longrightarrow> px_thread (ms_proxy (snd (do_action z s))) = px_thread (ms_proxy s)"
  "\<not> px_thread (ms_proxy (snd (do_action Z_join_proxy s)))"
proof -
  show "px_consumer (ms_proxy (snd (do_action z s))) = px_consumer (ms_proxy s)"
    "z \<noteq> Z_join_proxy \<Longrightarrow> px_thread (ms_proxy (snd (do_action z s))) = px_thread (ms_proxy s)"
    by (cases z; simp add: do_action_def stop_flag_def stop_join_def)+
qed (simp add: do_action_def stop_join_def)

lemma worker_proxy_calls:
  assumes "shaped (ms_point s)" "readers (ms_proxy s)" "proxy_calls s"
  shows "proxy_calls (worker_ms L C E s)"
proof (cases "ms_point s")
  case (S_acts zs k)
  show ?thesis
  proof (cases zs)
    case Nil
    with S_acts assms show ?thesis
      by (auto simp: proxy_calls_alt worker_calls_def worker_ms_def dest: init_next_calm split: source_point.split)
  next
    case (Cons z rest)
    have "\<not> px_thread (ms_proxy (snd (do_action z s)))" if "k = S_report" "Z_join_proxy \<notin> set rest"
    proof (cases "z = Z_join_proxy")
      case False
      with that S_acts Cons assms(3) show ?thesis
        by (simp add: proxy_calls_def act_proxy_apart)
    qed (simp add: act_proxy_apart)
    with S_acts Cons assms(3) show ?thesis
      by (simp add: proxy_calls_def worker_act act_proxy_apart)
  qed
next
  case S_reading
  with assms(3) have "px_consumer (ms_proxy s) \<noteq> Y_idle" by (simp add: proxy_calls_def)
  from read_outcome_idle [OF this assms(2)] S_reading show ?thesis
    by (auto simp: proxy_calls_def worker_ms_def read_proxy_def Let_def split: option.split)
next
  case S_proxy
  with assms(3) show ?thesis
    using Start_px_apart [of "en_thread E" "ms_url s" "ms_proxy s"]
    by (auto simp: proxy_calls_def worker_ms_def split: prod.split)
next
  case (S_session k)
  with assms show ?thesis
    by (auto simp: proxy_calls_alt worker_calls_def worker_ms_def publish_session_def init_next_not dest: init_next_calm split: source_point.split)
next
  case (S_throw e)
  with assms show ?thesis by (simp add: proxy_calls_def worker_ms_def)
next
  case S_cleanup
  with assms show ?thesis by (simp add: proxy_calls_def worker_ms_def)
next
  case S_read
  with assms show ?thesis by (simp add: proxy_calls_def worker_ms_def)
qed (rule settles_calls [OF worker_settles [OF assms(1), of L C E] assms(3) [unfolded proxy_calls_alt],
    folded proxy_calls_alt], simp, simp)+


lemma calls_apart:
  assumes "proxy_calls s" "ms_point t = ms_point s" "px_consumer (ms_proxy t) = px_consumer (ms_proxy s)"
    "px_thread (ms_proxy t) = px_thread (ms_proxy s)" "starting (ms_point s) \<Longrightarrow> px_cancels (ms_proxy s) = [] \<Longrightarrow> px_cancels (ms_proxy t) = []"
  shows "proxy_calls t"
  using assms unfolding proxy_calls_def by (cases "ms_point s") simp_all

lemma other_proxy_calls:
  assumes "other_step L C D s t" "lists_ok s" "shape_px (ms_proxy s)" "proxy_calls s"
  shows "proxy_calls t"
  using assms
proof (induction rule: other_step.induct)
  case (proxy s f)
  show ?case by (rule calls_apart [OF proxy(10)]) (use proxy(2,3,5) in simp_all)
next
  case (proxy_worker s)
  show ?case
    by (rule calls_apart [OF proxy_worker(5)]) (simp_all add: step_proxy_def ProxyChanged_def Let_def split: proxy_point.split)
next
  case (decoder s v d)
  show ?case
    by (rule calls_apart [OF decoder(5)]) (simp_all add: step_decoder_def DecoderFailed_def Let_def split: option.split)
next
  case (helper i s)
  from helper(1) show ?case
  proof (cases rule: step_helper_cases)
    case (over w)
    show ?thesis by (rule calls_apart [OF helper(4)]) (simp_all add: over)
  next
    case (act w z zs)
    with helper(2) have z: "helping z" by (auto simp: lists_ok_def)
    then have "z \<noteq> Z_join_proxy" by auto
    note p = act_proxy_apart(1) [of z s] act_proxy_apart(2) [OF this, of s]
    have "px_cancels (ms_proxy (snd (do_action z s))) = []" if "starting (ms_point s)"
    proof -
      from that helper(3,4) have "px_current (ms_proxy s) = None" by (auto simp: proxy_calls_def shape_px_def)
      with that helper(4) z show ?thesis by (cases z) (auto simp: do_action_def proxy_calls_def stop_flag_def)
    qed
    with p show ?thesis by (intro calls_apart [OF helper(4)]) (simp_all add: act(3))
  qed
next
  case (read_frame s v)
  have "ms_proxy (ReadFrame_ms v s) = ms_proxy s" "ms_point (ReadFrame_ms v s) = ms_point s"
    by (simp_all add: ReadFrame_ms_def split: ms_reader.split option.split dec_consumer.split prod.split)
  then show ?case by (intro calls_apart [OF read_frame(4)]) simp_all
qed (auto intro: calls_apart simp: RequestStop_ms_def ReadSession_def)

lemma proxy_calls_step:
  assumes "sourcing L C D s t" "shaped (ms_point s)" "phases s" "lists_ok s" "proxy_inv (ms_proxy s)" "proxy_calls s"
  shows "proxy_calls t"
  using assms(1)
proof (cases rule: sourcing_cases)
  case (worker E)
  with assms(2-6) show ?thesis by (simp add: worker_proxy_calls proxy_inv_def)
next
  case other
  from other_proxy_calls [OF other assms(4) _ assms(6)] assms(5) show ?thesis by (simp add: proxy_inv_def)
next
  case join
  with assms(6) show ?thesis by (simp add: proxy_calls_def join_ms_def)
next
  case (start created url)
  show ?thesis
  proof (cases rule: Start_ms_cases [of created url s])
    case same
    with assms(6) start(2) show ?thesis by simp
  next
    case reset
    with assms(3) have "ms_point s = S_none" by (simp add: phases_def)
    with reset(2,11) start assms(6) show ?thesis by (simp add: proxy_calls_def quiet_def)
  qed
qed

text \<open>Its proxy does what a proxy does.\<close>

lemma helper_proxy:
  assumes "i < length (ms_helpers s)" "lists_ok s"
  shows "ms_proxy (step_helper i s) = ms_proxy s \<or> proxying D (ms_proxy s) (ms_proxy (step_helper i s))"
  using assms(1)
proof (cases rule: step_helper_cases)
  case (act w z zs)
  with assms(2) have "helping z" by (auto simp: lists_ok_def)
  then have "ms_proxy (snd (do_action z s)) = ms_proxy s \<or> ms_proxy (snd (do_action z s)) = stop_flag (ms_proxy s)"
    by (cases z) (simp_all add: do_action_def)
  then show ?thesis by (auto simp: act(3) intro: proxying.stop_flag)
qed simp

lemma proxy_moves:
  assumes "sourcing L C D s t" "lists_ok s" "proxy_calls s"
  shows "ms_proxy t = ms_proxy s \<or> proxying D (ms_proxy s) (ms_proxy t)"
  using assms(1)
proof (cases rule: sourcing_cases)
  case (worker E)
  with worker_proxy [OF _ assms(2,3)] show ?thesis by simp
next
  case other
  from other show ?thesis
  proof cases
    case proxy_worker
    have "ms_proxy t = worker_px (ms_proxy s)"
      by (simp add: proxy_worker(1) step_proxy_def ProxyChanged_def Let_def split: proxy_point.split)
    with proxying.worker [OF proxy_worker(2)] show ?thesis by simp
  next
    case (decoder v d)
    have "ms_proxy t = ms_proxy s"
      by (simp add: decoder(1) step_decoder_def DecoderFailed_def Let_def split: option.split)
    then show ?thesis ..
  next
    case (helper i)
    with helper_proxy [OF _ assms(2)] show ?thesis by simp
  next
    case (read_frame v)
    have "ms_proxy t = ms_proxy s"
      by (simp add: read_frame(1) ReadFrame_ms_def split: ms_reader.split option.split dec_consumer.split prod.split)
    then show ?thesis ..
  qed (simp_all add: RequestStop_ms_def ReadSession_def)
next
  case join
  then show ?thesis by (simp add: join_ms_def)
next
  case (start created url)
  then show ?thesis by (cases rule: Start_ms_cases [of created url s]) simp_all
qed

section \<open>Calls on the decoders\<close>

fun pushing :: "source_point \<Rightarrow> (bool \<times> av_packet) option" where
  "pushing (S_push v (In_packet q) k) = Some (v, q)"
| "pushing _ = None"

lemma decoder_calls_alt: "decoder_calls s \<longleftrightarrow>
     (\<forall>v d. ms_decoders s v = Some d \<longrightarrow> dc_producer d = producer_at (ms_point s) v \<and>
        consumer_at (ms_readers s v) (dc_consumer d)) \<and>
     (\<forall>v q d. pushing (ms_point s) = Some (v, q) \<longrightarrow> ms_decoders s v = Some d \<longrightarrow>
        PushPacket_check (Some q) d = Inr (In_packet q))"
  unfolding decoder_calls_def by (cases "ms_point s" rule: pushing.cases) auto

definition dec_like :: "'c decoder \<Rightarrow> 'c decoder \<Rightarrow> bool" where
  "dec_like d e \<longleftrightarrow> dc_producer e = dc_producer d \<and> dc_consumer e = dc_consumer d \<and> dc_stream e = dc_stream d"

lemma PushPacket_check_like: "dc_stream e = dc_stream d \<Longrightarrow> PushPacket_check p e = PushPacket_check p d"
  by (cases p) (simp_all add: PushPacket_check_def)

lemma decoder_calls_keep:
  assumes "decoder_calls s" "\<And>v e. ms_decoders t v = Some e \<Longrightarrow> \<exists>d. ms_decoders s v = Some d \<and> dec_like d e"
    "ms_readers t = ms_readers s" "producer_at (ms_point t) = producer_at (ms_point s)"
    "pushing (ms_point t) = None \<or> pushing (ms_point t) = pushing (ms_point s)"
  shows "decoder_calls t"
proof -
  from assms(1) have s: "\<And>v d. ms_decoders s v = Some d \<Longrightarrow> dc_producer d = producer_at (ms_point s) v \<and>
      consumer_at (ms_readers s v) (dc_consumer d)"
    "\<And>v q d. pushing (ms_point s) = Some (v, q) \<Longrightarrow> ms_decoders s v = Some d \<Longrightarrow> PushPacket_check (Some q) d = Inr (In_packet q)"
    by (simp_all add: decoder_calls_alt)
  show ?thesis
    unfolding decoder_calls_alt
  proof (intro conjI allI impI)
    fix v e
    assume "ms_decoders t v = Some e"
    with assms(2) obtain d where "ms_decoders s v = Some d" "dec_like d e" by blast
    with s(1) assms(3,4) show "dc_producer e = producer_at (ms_point t) v" "consumer_at (ms_readers t v) (dc_consumer e)"
      by (auto simp: dec_like_def)
  next
    fix v q e
    assume e: "ms_decoders t v = Some e" and p: "pushing (ms_point t) = Some (v, q)"
    with assms(2) obtain d where d: "ms_decoders s v = Some d" "dec_like d e" by blast
    from assms(5) p have "pushing (ms_point s) = Some (v, q)" by auto
    from s(2) [OF this d(1)] have "PushPacket_check (Some q) d = Inr (In_packet q)" .
    with d(2) PushPacket_check_like [of e d] show "PushPacket_check (Some q) e = Inr (In_packet q)"
      by (simp add: dec_like_def)
  qed
qed

lemma dec_like_refl [simp]: "dec_like d d"
  by (simp add: dec_like_def)

lemma stop_part_like: "dec_like d (stop_part q d)" "dec_like d (stop_discard d)"
  by (simp_all add: dec_like_def stop_part_def request_stop_def stop_packets_def stop_frames_def stop_discard_def split: stop_op.split)

lemma dec_part_like:
  "dec_like d (receive_step L C d)" "dec_like d (emit_step x b d)" "dec_like d (pop_step d)" "dec_like d (input_step C i d)"
  "dec_like d (send_step C k d)"
proof -
  show "dec_like d (receive_step L C d)"
    by (simp add: dec_like_def receive_step_def Let_def split: prod.split answer.split)
  show "dec_like d (emit_step x b d)" "dec_like d (pop_step d)"
    by (simp_all add: dec_like_def emit_step_def pop_step_def split: prod.split)
  show "dec_like d (input_step C i d)"
    by (simp add: dec_like_def input_step_def split: dec_input.split)
  show "dec_like d (send_step C k d)"
    by (simp add: dec_like_def send_step_def Let_def split: prod.split sum.split)
qed

lemma worker_dec_like: "dec_like d (worker_dec L C d)"
  by (cases "dc_point d") (simp_all add: worker_dec_def dec_part_like, simp_all add: dec_like_def split: prod.split)

lemma act_like: "ms_decoders (snd (do_action z s)) v = Some e \<Longrightarrow> \<exists>d. ms_decoders s v = Some d \<and> dec_like d e"
  by (cases z) (auto simp: do_action_def stop_part_like split: if_splits)

lemma producer_next:
  "pub_next k \<Longrightarrow> producer_at k = (\<lambda>_. U_idle) \<and> pushing k = None"
  "check_next k \<Longrightarrow> producer_at k = (\<lambda>_. U_idle) \<and> pushing k = None"
  "init_next k \<Longrightarrow> producer_at k = (\<lambda>_. U_idle) \<and> pushing k = None"
  "push_next k \<Longrightarrow> producer_at k = (\<lambda>_. U_idle) \<and> pushing k = None"
     apply (cases k rule: pub_next.cases; auto)
    apply (cases k rule: check_next.cases; auto)
   apply (cases k rule: init_next.cases; auto)
  apply (cases k rule: push_next.cases; auto)
  done


lemma submit_producer [simp]:
  "producer_at k = (\<lambda>_. U_idle) \<Longrightarrow> producer_at (submit_all_ms i vs k) = (\<lambda>_. U_idle)"
  "i = In_eof \<or> i = In_reset \<Longrightarrow> pushing k = None \<Longrightarrow> pushing (submit_all_ms i vs k) = None"
  by (induction vs) (auto simp: submit_all_ms_def fun_eq_iff)

fun calls_dec :: "source_point \<Rightarrow> bool" where
  "calls_dec (S_push v i k) = True"
| "calls_dec (S_queue v i k) = True"
| "calls_dec (S_mark v i k) = True"
| "calls_dec (S_init d k) = True"
| "calls_dec S_described = True"
| "calls_dec (S_acts (z # zs) k) = True"
| "calls_dec _ = False"

lemma producer_fun: "producer_at (S_push v i k) = (\<lambda>_. U_idle)"
  "\<not> calls_dec x \<Longrightarrow> producer_at x = (\<lambda>_. U_idle)" "producer_at (S_acts zs k) = (\<lambda>_. U_idle)" "producer_at (S_init d k) = (\<lambda>_. U_idle)"
  "producer_at (S_session k) = (\<lambda>_. U_idle)" "producer_at S_described = (\<lambda>_. U_idle)" "producer_at (S_throw e) = (\<lambda>_. U_idle)"
  by (auto simp: fun_eq_iff) (cases x; simp)

lemma worker_quiet_calls:
  assumes "shaped (ms_point s)" "\<not> calls_dec (ms_point s)"
  shows "producer_at (ms_point (worker_ms L C E s)) = (\<lambda>_. U_idle) \<and> pushing (ms_point (worker_ms L C E s)) = None \<and>
    ms_decoders (worker_ms L C E s) = ms_decoders s \<and> ms_readers (worker_ms L C E s) = ms_readers s"
proof (cases "ms_point s")
  case (S_acts zs k)
  with assms show ?thesis by (cases zs) (auto simp: worker_ms_def producer_next)
qed (use assms in \<open>simp_all add: worker_ms_defs Let_def producer_next fun_eq_iff split: ms_splits\<close>)

lemma make_session_new:
  assumes "make_session C created c info = Inr ds" "ds v = Some d"
  obtains st cfg device e b where "AvDecoder_new C b st cfg device = Inr e" "d = SetOnError_dec True e"
  using assms
  by (auto simp: make_session_def make_decoder_def chain_def split: sum.splits option.splits if_splits)

lemma AvDecoder_new_created:
  assumes "AvDecoder_new C b st cfg device = Inr d"
  shows "AvDecoder_new C True st cfg device = Inr d" "dc_producer d = U_idle" "dc_consumer d = V_idle" "dc_stream d = st"
    "dh_in d = []" "dh_read d = []" "dc_stopping d = False" "dc_error d = None"
  using assms
  by (auto simp: AvDecoder_new_def chain_def Let_def AvDecoder_members_def split: sum.splits if_splits)

lemma consumer_idle: "consumer_at G_idle c \<longleftrightarrow> c = V_idle"
  by (cases c) simp_all

lemma worker_decoder_calls:
  assumes "shaped (ms_point s)" "phases s" "lists_ok s" "decoder_calls s"
  shows "decoder_calls (worker_ms L C E s)"
proof (cases "calls_dec (ms_point s)")
  case False
  with worker_quiet_calls [OF assms(1) False, of L C E] producer_fun(2) [OF False] show ?thesis
    by (intro decoder_calls_keep [OF assms(4)]) auto
next
  case True
  note c = assms(4) [unfolded decoder_calls_alt]
  from True show ?thesis
  proof (cases "ms_point s" rule: calls_dec.cases)
    case (1 v i k)
    with c have idle: "\<And>w d. ms_decoders s w = Some d \<Longrightarrow> dc_producer d = U_idle \<and> consumer_at (ms_readers s w) (dc_consumer d)"
      by simp
    show ?thesis
    proof (cases "ms_decoders s v")
      case None
      with 1 show ?thesis
        by (intro decoder_calls_keep [OF assms(4)]) (simp_all add: worker_ms_def begin_push_def producer_fun)
    next
      case (Some d)
      obtain r d' where r: "Push_dec True i d = (r, d')" by fastforce
      show ?thesis
      proof (cases r)
        case (Inl e)
        with 1 Some r show ?thesis
          by (intro decoder_calls_keep [OF assms(4)]) (simp_all add: worker_ms_def begin_push_def producer_fun)
      next
        case (Inr ok)
        have p: "PushPacket_check (Some q) d = Inr (In_packet q)" if "i = In_packet q" for q
          using c 1 Some that by simp
        from Some r Inr p idle [OF Some] have d: "dc_producer d' = (if ok then U_push i else U_idle)" "dc_consumer d' = dc_consumer d"
          by (blast intro: push_begins(2,3))+
        from 1 Some r Inr have t: "worker_ms L C E s = s\<lparr>ms_decoders := (ms_decoders s)(v := Some d'),
            ms_point := (if ok then S_queue v i k else S_check (S_refused v))\<rparr>"
          by (simp add: worker_ms_def begin_push_def)
        show ?thesis
          unfolding decoder_calls_alt using d idle Some by (auto simp: t)
      qed
    qed
  next
    case (2 v i k)
    show ?thesis
    proof (cases "ms_decoders s v")
      case (Some d)
      define e where "e = push_queue i d"
      have e: "dc_consumer e = dc_consumer d" "dc_producer e = U_idle \<or> dc_producer e = U_mark i"
        by (auto simp: e_def push_queue_def split: prod.split)
      from 2 Some have t: "worker_ms L C E s = (on_decoder v (push_queue i) s)\<lparr>
          ms_point := (if dc_producer e = U_idle then S_check (S_refused v) else S_mark v i k)\<rparr>"
        by (simp add: worker_ms_def queue_push_def e_def)
      from c 2 have idle: "\<And>w d. ms_decoders s w = Some d \<Longrightarrow> w \<noteq> v \<Longrightarrow> dc_producer d = U_idle"
        "\<And>w d. ms_decoders s w = Some d \<Longrightarrow> consumer_at (ms_readers s w) (dc_consumer d)"
        by auto
      show ?thesis
        unfolding decoder_calls_alt using idle Some e by (auto simp: t e_def split: if_splits)
    next
      case None
      with 2 c show ?thesis
        unfolding decoder_calls_alt by (auto simp: worker_ms_def queue_push_def Let_def split: if_splits)
    qed
  next
    case (3 v i k)
    with assms(1) have k: "producer_at k = (\<lambda>_. U_idle)" "pushing k = None" by (simp_all add: producer_next)
    from 3 c have idle: "\<And>w d. ms_decoders s w = Some d \<Longrightarrow> w \<noteq> v \<Longrightarrow> dc_producer d = U_idle"
      "\<And>w d. ms_decoders s w = Some d \<Longrightarrow> consumer_at (ms_readers s w) (dc_consumer d)"
      by auto
    with 3 k show ?thesis
      unfolding decoder_calls_alt by (auto simp: worker_ms_def push_mark_def split: if_splits)
  next
    case (4 d k)
    with assms(1) have k: "producer_at k = (\<lambda>_. U_idle)" "pushing k = None" by (simp_all add: producer_next)
    show ?thesis
    proof (cases "ms_local s")
      case True
      with 4 k show ?thesis
        by (intro decoder_calls_keep [OF assms(4)])
          (auto simp: worker_ms_def Initialize_ms_def producer_fun split: option.splits sum.splits)
    next
      case False
      with 4 assms(2) have n: "ms_decoders s = (\<lambda>_. None)" "ms_readers s = (\<lambda>_. G_idle)" by (simp_all add: phases_def no_stops_def)
      have new: "dc_producer e = U_idle \<and> dc_consumer e = V_idle" if "make_session C b c info = Inr ds" "ds v = Some e" for b c info ds v e
        using that by (elim make_session_new) (auto simp: SetOnError_dec_def AvDecoder_new_created)
      from 4 False n new show ?thesis
        unfolding decoder_calls_alt
        by (auto simp: worker_ms_def Initialize_ms_def consumer_idle split: option.splits sum.splits)
    qed
  next
    case 5
    have "producer_at (ms_point (worker_ms L C E s)) = (\<lambda>_. U_idle)" "ms_decoders (worker_ms L C E s) = ms_decoders s"
      "ms_readers (worker_ms L C E s) = ms_readers s"
      using 5 by (simp_all add: worker_ms_def submit_result_def Let_def fun_eq_iff split: read_answer.split option.split sum.split)
    moreover have "PushPacket_check (Some q) d = Inr (In_packet q)"
      if "pushing (ms_point (worker_ms L C E s)) = Some (v, q)" "ms_decoders s v = Some d" for v q d
      using that 5 by (auto simp: worker_ms_def submit_result_def Let_def PushPacket_check_def
          split: read_answer.splits option.splits sum.splits if_splits)
    ultimately show ?thesis using c 5 by (simp add: decoder_calls_alt)
  next
    case (6 z zs k)
    show ?thesis
      by (rule decoder_calls_keep [OF assms(4)]) (use act_like in \<open>auto simp: worker_act [OF 6] 6 producer_fun\<close>)
  qed simp_all
qed

lemma reader_calls:
  assumes "decoder_calls s"
  shows "decoder_calls (ReadFrame_ms v s)"
proof (cases "ms_decoders s v")
  case None
  with assms show ?thesis
    by (auto simp: ReadFrame_ms_def decoder_calls_alt split: ms_reader.split)
next
  case (Some d)
  note c = assms [unfolded decoder_calls_alt]
  have "consumer_at (ms_readers s v) (dc_consumer d)" using c Some by blast
  have one: "decoder_calls t" if "ms_decoders t = (ms_decoders s)(v := Some e)" "ms_readers t = (ms_readers s)(v := g)"
    "ms_point t = ms_point s" "dc_producer e = dc_producer d" "dc_stream e = dc_stream d" "consumer_at g (dc_consumer e)" for t e g
    unfolding decoder_calls_alt that(1-3)
    using c Some that(4,6) PushPacket_check_like [OF that(5)] by auto
  show ?thesis
  proof (cases "ms_readers s v")
    case G_idle
    then have "ReadFrame_ms v s = s" by (simp add: ReadFrame_ms_def)
    with assms show ?thesis by simp
  next
    case G_call
    with c Some have "dc_consumer d = V_idle" by (metis consumer_at.simps(5))
    then show ?thesis
      by (intro one [of _ "read_begin False d" "if dc_stopping d then G_idle else G_busy"])
        (simp_all add: ReadFrame_ms_def G_call Some read_begin_def)
  next
    case G_busy
    show ?thesis
    proof (cases "dc_consumer d")
      case V_idle
      with G_busy \<open>consumer_at (ms_readers s v) (dc_consumer d)\<close> show ?thesis by simp
    next
      case (V_pop w)
      with Some G_busy show ?thesis
        by (intro one [of _ "read_pop d" G_busy]) (auto simp: ReadFrame_ms_def read_pop_def split: prod.split)
    next
      case (V_check x)
      obtain y e where y: "read_check x d = (y, e)" by fastforce
      then have "dc_consumer e = V_idle" "dc_producer e = dc_producer d" "dc_stream e = dc_stream d"
        by (auto simp: read_check_def Let_def)
      with V_check Some G_busy y show ?thesis
        by (intro one [of _ e "if rr_status y = KEof then G_mark else G_idle"]) (simp_all add: ReadFrame_ms_def)
    qed
  next
    case G_mark
    have "dc_consumer d = V_idle" using c Some G_mark by (metis consumer_at.simps(6))
    with G_mark Some show ?thesis
      by (intro one [of _ d G_idle]) (simp_all add: ReadFrame_ms_def fun_upd_idem)
  qed
qed

lemma other_decoder_calls:
  assumes "other_step L C D s t" "lists_ok s" "decoder_calls s"
  shows "decoder_calls t"
  using assms
proof (induction rule: other_step.induct)
  case (decoder s v d)
  show ?case
    by (rule decoder_calls_keep [OF decoder(4)])
      (auto simp: step_decoder_def DecoderFailed_def Let_def worker_dec_like split: option.splits if_splits)
next
  case (helper i s)
  from helper(1) show ?case
  proof (cases rule: step_helper_cases)
    case (over w)
    show ?thesis by (rule decoder_calls_keep [OF helper(3)]) (simp_all add: over)
  next
    case (act w z zs)
    show ?thesis by (rule decoder_calls_keep [OF helper(3)]) (simp_all add: act(3) act_like)
  qed
next
  case (read_session s v)
  have "dc_consumer d = V_idle" if "ms_decoders s v = Some d" for d
    using read_session that unfolding decoder_calls_alt by (metis consumer_idle)
  with read_session(3) show ?case by (auto simp: ReadSession_def decoder_calls_alt)
next
  case (read_frame s v)
  then show ?case by (simp add: reader_calls)
next
  case (proxy_worker s)
  have "ms_decoders (step_proxy s) = ms_decoders s" "ms_readers (step_proxy s) = ms_readers s" "ms_point (step_proxy s) = ms_point s"
    by (simp_all add: step_proxy_def ProxyChanged_def Let_def split: proxy_point.split)
  then show ?case by (intro decoder_calls_keep [OF proxy_worker(4)]) simp_all
next
  case (proxy s f)
  show ?case by (rule decoder_calls_keep [OF proxy(9)]) simp_all
next
  case (request s)
  show ?case by (rule decoder_calls_keep [OF request(2)]) (simp_all add: RequestStop_ms_def)
qed

lemma decoder_calls_step:
  assumes "sourcing L C D s t" "shaped (ms_point s)" "phases s" "lists_ok s" "decoder_calls s"
  shows "decoder_calls t"
  using assms(1)
proof (cases rule: sourcing_cases)
  case (worker E)
  with assms(2-5) show ?thesis by (simp add: worker_decoder_calls)
next
  case other
  from other_decoder_calls [OF other assms(4,5)] show ?thesis .
next
  case join
  with assms(5) show ?thesis by (intro decoder_calls_keep [OF assms(5)]) (simp_all add: join_ms_def fun_eq_iff)
next
  case (start created url)
  show ?thesis
  proof (cases rule: Start_ms_cases [of created url s])
    case same
    with assms(5) start(2) show ?thesis by simp
  next
    case reset
    with assms(3) have "ms_point s = S_none" by (simp add: phases_def)
    with reset(5,11) start show ?thesis by (simp add: decoder_calls_alt)
  qed
qed

text \<open>Its decoders do what decoders do, from their constructor on.\<close>

definition decoders_run :: "av_lib \<Rightarrow> 'c codec_lib \<Rightarrow> ('d, 'c) source \<Rightarrow> bool" where
  "decoders_run L C s \<longleftrightarrow> (\<forall>v d. ms_decoders s v = Some d \<longrightarrow> decoder_runs L C d)"

lemma decoders_run_moves:
  assumes "decoders_run L C s" "dec_moves L C s t"
  shows "decoders_run L C t"
  unfolding decoders_run_def
proof (intro allI impI)
  fix v e
  assume e: "ms_decoders t v = Some e"
  from assms(2) have "rel_option (\<lambda>d d'. d' = d \<or> decoding L C d d') (ms_decoders s v) (ms_decoders t v)"
    by (simp add: dec_moves_def)
  with e obtain d where "ms_decoders s v = Some d" "e = d \<or> decoding L C d e" by (auto simp: option_rel_Some2)
  with assms(1) show "decoder_runs L C e" by (auto simp: decoders_run_def intro: decoder_runs_step)
qed

lemma make_session_runs:
  assumes "make_session C created c info = Inr ds" "ds v = Some d"
  shows "decoder_runs L C d"
  using assms
proof (rule make_session_new)
  fix st cfg device e b
  assume e: "AvDecoder_new C b st cfg device = Inr e" "d = SetOnError_dec True e"
  have "decoder_runs L C e"
    unfolding decoder_runs_def using AvDecoder_new_created(1) [OF e(1)] by blast
  with e(2) show ?thesis by (auto intro: decoder_runs_step decoding.observe)
qed

lemma decoders_run_step:
  assumes "sourcing L C D s t" "phases s" "lists_ok s" "decoder_calls s" "decoders_run L C s"
  shows "decoders_run L C t"
  using assms(1)
proof (cases rule: sourcing_cases)
  case (worker E)
  show ?thesis
  proof (cases "\<exists>d k. ms_point s = S_init d k \<and> \<not> ms_local s")
    case True
    then obtain d k where "ms_point s = S_init d k" "\<not> ms_local s" by blast
    with assms(5) show ?thesis
      unfolding worker(2) decoders_run_def
      by (auto simp: worker_ms_def Initialize_ms_def make_session_runs split: option.splits sum.splits)
  next
    case False
    show ?thesis
      unfolding worker(2) by (rule decoders_run_moves [OF assms(5) worker_moves [OF worker(1) assms(3,4)]]) (use False in blast)
  qed
next
  case other
  from assms(3) have "helpers_ok s" by (simp add: lists_ok_alt)
  from decoders_run_moves [OF assms(5) other_moves [OF other this assms(4)]] show ?thesis .
next
  case join
  with assms(5) show ?thesis by (simp add: decoders_run_def join_ms_def)
next
  case (start created url)
  then show ?thesis by (cases rule: Start_ms_cases [of created url s]) (use assms(5) in \<open>simp_all add: decoders_run_def\<close>)
qed

section \<open>The invariant\<close>

definition source_inv :: "av_lib \<Rightarrow> 'c codec_lib \<Rightarrow> 'd demux_lib \<Rightarrow> ('d, 'c) source \<Rightarrow> bool" where
  "source_inv L C D s \<longleftrightarrow> shaped (ms_point s) \<and> phases s \<and> lists_ok s \<and> decoder_calls s \<and> proxy_calls s \<and>
     proxy_runs D (ms_proxy s) \<and> decoders_run L C s"

lemma shaped_step:
  assumes "sourcing L C D s t" "shaped (ms_point s)" "lists_ok s"
  shows "shaped (ms_point t)"
  using assms(1)
proof (cases rule: sourcing_cases)
  case (worker E)
  with assms(2) show ?thesis by (simp add: shaped_worker)
next
  case other
  with other_beside [OF other assms(3)] assms(2) show ?thesis by (simp add: beside_def)
next
  case join
  then show ?thesis by (simp add: join_ms_def)
next
  case (start created url)
  then show ?thesis by (cases rule: Start_ms_cases [of created url s]) (use assms(2) in simp_all)
qed

lemma source_inv_step:
  assumes "sourcing L C D s t" "source_inv L C D s"
  shows "source_inv L C D t"
proof -
  from assms(2) have h: "shaped (ms_point s)" "phases s" "lists_ok s" "decoder_calls s" "proxy_calls s" "proxy_runs D (ms_proxy s)"
    "decoders_run L C s" by (simp_all add: source_inv_def)
  have "proxy_runs D (ms_proxy t)"
    using proxy_moves [OF assms(1) h(3,5)] h(6) unfolding proxy_runs_def by (metis rtranclp.rtrancl_into_rtrancl)
  with shaped_step [OF assms(1) h(1,3)] phases_step [OF assms(1) h(1,3,2)] lists_step [OF assms(1) h(1-4)]
    decoder_calls_step [OF assms(1) h(1-4)] proxy_calls_step [OF assms(1) h(1-3) proxy_runs_inv [OF h(6)] h(5)]
    decoders_run_step [OF assms(1) h(2-4,7)]
  show ?thesis by (simp add: source_inv_def)
qed

lemma source_inv_start:
  assumes "AvMediaSource_new c = Inr s"
  shows "source_inv L C D s"
proof -
  from assms obtain p where p: "AvInputProxy_new (sc_proxy c) = Inr p" "ms_proxy s = p"
    by (auto simp: AvMediaSource_new_def chain_def split: sum.splits)
  from p(1) have "px_consumer p = Y_idle" "\<not> px_thread p" "px_cancels p = []"
    by (auto simp: AvInputProxy_new_def chain_def split: sum.splits if_splits)
  moreover have "proxy_runs D p" using p(1) by (auto simp: proxy_runs_def)
  moreover have "ms_point s = S_none" "ms_helpers s = []" "ms_decoders s = (\<lambda>_. None)" "\<not> ms_session s" "\<not> ms_local s" "\<not> ms_thread s"
    using assms by (auto simp: AvMediaSource_new_def chain_def split: sum.splits)
  ultimately show ?thesis using p(2)
    by (simp add: source_inv_def phases_def lists_ok_def decoder_calls_alt proxy_calls_def decoders_run_def)
qed

lemma source_runs_inv:
  assumes "source_runs L C D t"
  shows "source_inv L C D t"
proof -
  from assms obtain c s where s: "AvMediaSource_new c = Inr s" "(sourcing L C D)\<^sup>*\<^sup>* s t" by (auto simp: source_runs_def)
  from this(2) source_inv_start [OF this(1)] show ?thesis by induction (auto intro: source_inv_step)
qed

end
