(* ===== verification/Proxy_Errors.thy ===== *)
theory Proxy_Errors
  imports Proxy_Props
begin

text \<open>
  Two more facts on \<open>Input_Proxy\<close>, which the users of a proxy rely on: a failure that is published carries its
  exception, and a proxy that loops never ends.
\<close>

section \<open>Connections\<close>

definition explained :: "input_status \<Rightarrow> bool" where
  "explained st \<longleftrightarrow> (is_state st = IS_failed \<longrightarrow> is_error st \<noteq> None)"

fun point_status :: "input_point \<Rightarrow> input_status option" where
  "point_status (I_status st) = Some st"
| "point_status (I_close st) = Some st"
| "point_status (I_call st) = Some st"
| "point_status _ = None"

fun control_status :: "control_point \<Rightarrow> input_status option" where
  "control_status (C_status st k) = Some st"
| "control_status (C_close st k) = Some st"
| "control_status (C_call st k) = Some st"
| "control_status _ = None"

definition explains :: "'d input \<Rightarrow> bool" where
  "explains c \<longleftrightarrow> pred_option explained (point_status (iv_point c)) \<and> pred_option explained (control_status (iv_control c))"

lemma explained_status [simp]:
  "explained (failure_status e c)" "explained (status_of IS_ended)" "explained (status_of IS_cancelled)"
  "explained (status_of IS_opening)" "explained (status_of IS_opened)" "explained (status_of IS_closed)"
  by (simp_all add: explained_def failure_status_def status_of_def)

lemma resume_status [simp]: "control_status (resume k) = None"
  by (cases k) simp_all

lemma explains_step: "inputting D s t \<Longrightarrow> explains s \<Longrightarrow> explains t"
proof (induction rule: inputting.induct)
  case (worker s now)
  then show ?case
    by (cases "iv_point s")
      (auto simp: explains_def worker_in_def loop_step_def demux_step_def check_step_def put_step_def BeginIo_def publish_status_def
        publish_close_def publish_call_def Let_def split: option.split prod.split sum.split demux_answer.split)
next
  case (control s started now)
  then show ?case
    by (cases "iv_control s")
      (auto simp: explains_def control_in_def BeginIo_def publish_status_def publish_close_def publish_call_def
        split: option.split prod.split sum.split)
next
  case (read_take s wait)
  then show ?case by (auto simp: explains_def read_take_def split: prod.split)
next
  case (read_finish s x)
  then show ?case by (auto simp: explains_def read_finish_def Let_def split: option.split)
qed (auto simp: explains_def cancel_flag_def cancel_queue_def begin_open_def begin_close_def end_call_def read_enter_def split: sum.split)

lemma input_explains:
  assumes "input_runs D t"
  shows "explains t"
proof -
  from assms obtain c s where s: "AvInput_new c = Inr s" "(inputting D)\<^sup>*\<^sup>* s t" by (auto simp: input_runs_def)
  from s(1) have "explains s" by (auto simp: explains_def AvInput_new_def split: if_splits)
  with s(2) show ?thesis by induction (auto intro: explains_step)
qed

section \<open>The proxy\<close>

fun proxy_status :: "proxy_point \<Rightarrow> input_status option" where
  "proxy_status (W_retire st) = Some st"
| "proxy_status (W_close st) = Some st"
| "proxy_status (W_closing st) = Some st"
| "proxy_status (W_after st) = Some st"
| "proxy_status _ = None"

fun publishes :: "proxy_point \<Rightarrow> (proxy_state \<times> exn option) option" where
  "publishes (W_publish st n d e k) = Some (st, e)"
| "publishes _ = None"

fun observes :: "proxy_point \<Rightarrow> proxy_state option" where
  "observes (W_observe st k) = Some st"
| "observes _ = None"

definition accounts :: "'d proxy \<Rightarrow> bool" where
  "accounts p \<longleftrightarrow>
     pred_option explained (px_terminal p) \<and> pred_option explained (proxy_status (px_point p)) \<and>
     (\<forall>st e. publishes (px_point p) = Some (st, e) \<longrightarrow> (st = PS_failed \<longrightarrow> e \<noteq> None) \<and> (st = PS_ended \<longrightarrow> \<not> pc_loop (px_config p))) \<and>
     (observes (px_point p) = Some PS_failed \<longrightarrow> px_error p \<noteq> None) \<and>
     (px_state p = PS_ended \<longrightarrow> \<not> pc_loop (px_config p))"

lemma accounts_worker:
  assumes "accounts p" "px_point p = W_opening \<Longrightarrow> proxy_ready p"
  shows "accounts (worker_px p)"
proof (cases "px_point p")
  case (W_after st)
  with assms show ?thesis
    by (auto simp: accounts_def worker_px_def after_attempt_def explained_def)
next
  case (W_wake k)
  with assms show ?thesis by (cases k) (simp_all add: accounts_def worker_px_def)
next
  case W_opening
  with assms show ?thesis
    by (auto simp: accounts_def worker_px_def explained_def split: option.split control_point.split)
qed (use assms in \<open>auto simp: accounts_def worker_px_def Retire_available_def explained_def status_of_def Let_def
    split: option.split sum.split prod.split\<close>)

lemma accounts_same:
  assumes "accounts p" "px_terminal q = px_terminal p \<or> pred_option explained (px_terminal q)" "px_point q = px_point p"
    "px_error q = px_error p" "px_state q = px_state p" "px_config q = px_config p"
  shows "accounts q"
  using assms by (auto simp: accounts_def)

lemma accounts_step:
  assumes "proxying D p q" "accounts p" "\<And>i. i < length (px_inputs p) \<Longrightarrow> explains (px_inputs p ! i)" "proxy_inv p"
  shows "accounts q"
  using assms
proof (induction rule: proxying.induct)
  case (worker s)
  then show ?case by (simp add: accounts_worker)
next
  case (input_worker i s now)
  from input_worker(1,4) have "explains (px_inputs s ! i)" by simp
  then show ?case
    by (intro accounts_same [OF input_worker(3)])
      (auto simp: step_input_worker_def Let_def marks_def explains_def split: input_point.split)
next
  case (input_control i s started now)
  from input_control(1,4) have "explains (px_inputs s ! i)" by simp
  then show ?case
    by (intro accounts_same [OF input_control(3)])
      (auto simp: step_input_control_def Let_def marks_def explains_def split: control_point.split)
next
  case (consumer s)
  have "px_terminal (consume_px s) = px_terminal s \<or> px_terminal (consume_px s) = Some (status_of IS_ended)"
    by (cases "px_consumer s")
      (auto simp: consume_px_def read_first_def no_packet_def Let_def split: option.split prod.split reader_point.split read_answer.split)
  moreover have "px_error (consume_px s) = px_error s" by simp
  ultimately show ?case by (intro accounts_same [OF consumer(2)]) auto
next
  case (stop_join s)
  then show ?case by (auto simp: accounts_def stop_join_def)
next
  case (start s created url)
  have "px_point s = W_none" if "\<not> px_thread s" using start(5) that by (auto simp: proxy_inv_def shape_px_def)
  with start(3) show ?case by (auto simp: accounts_def Start_px_def Let_def)
qed (auto simp: stop_flag_def stop_cancel_def intro: accounts_same)

lemma proxy_runs_accounts:
  assumes "proxy_runs D t"
  shows "accounts t"
proof -
  from assms obtain c s where s: "AvInputProxy_new c = Inr s" "(proxying D)\<^sup>*\<^sup>* s t" by (auto simp: proxy_runs_def)
  from s(2) have "accounts t \<and> proxy_runs D t"
  proof induction
    case base
    from s(1) have "accounts s" by (auto simp: accounts_def AvInputProxy_new_def chain_def split: sum.splits if_splits)
    moreover have "proxy_runs D s" using s(1) by (auto simp: proxy_runs_def)
    ultimately show ?case by simp
  next
    case (step p q)
    from step(3) have p: "accounts p" "proxy_runs D p" by simp_all
    have "accounts q"
      by (rule accounts_step [OF step(2) p(1) _ proxy_runs_inv [OF p(2)]]) (rule input_explains [OF connections_run [OF p(2)]])
    moreover have "proxy_runs D q" using p(2) step(2) unfolding proxy_runs_def by (metis rtranclp.rtrancl_into_rtrancl)
    ultimately show ?case by simp
  qed
  then show ?thesis ..
qed

end
