(* ===== verification/Source_Stop.thy ===== *)
theory Source_Stop
  imports Source_Run Proxy_Errors
begin

text \<open>
  Stops and failures of a source: nobody stops a decoder without a reason, and a stop or a failure reaches every
  decoder, those included that are being created meanwhile.
\<close>

section \<open>What is still to be done\<close>

definition called_off :: "('d, 'c) source \<Rightarrow> bool" where
  "called_off s \<longleftrightarrow> ms_stopping s \<or> ms_failure s \<noteq> None"

text \<open>Decoders are picked and stopped after a failure was recorded, in the same list or before.\<close>

fun grounded :: "bool \<Rightarrow> action list \<Rightarrow> bool" where
  "grounded r [] = True"
| "grounded r (Z_fail e # zs) = (Z_pick \<in> set zs \<and> grounded True zs)"
| "grounded r (Z_pick # zs) = (r \<and> grounded r zs)"
| "grounded r (Z_stop v q # zs) = (r \<and> grounded r zs)"
| "grounded r (z # zs) = grounded r zs"

lemma grounded_mono: "grounded r zs \<Longrightarrow> (r \<Longrightarrow> r') \<Longrightarrow> grounded r' zs"
proof (induction zs arbitrary: r r')
  case (Cons z zs)
  then show ?case by (cases z) auto
qed simp

definition worker_list :: "source_point \<Rightarrow> action list set" where
  "worker_list x = (case acts_at x of Some (zs, k) \<Rightarrow> if k = S_report then {} else {zs} | None \<Rightarrow> {})"

definition to_do :: "('d, 'c) source \<Rightarrow> action list set" where
  "to_do s = snd ` set (ms_helpers s) \<union> worker_list (ms_point s)"

definition aimed :: "bool \<Rightarrow> action list \<Rightarrow> bool" where
  "aimed v zs \<longleftrightarrow> Z_pick \<in> set zs \<or> Z_stop v Q_flag \<in> set zs"

fun throws :: "source_point \<Rightarrow> bool" where
  "throws (S_throw e) = True"
| "throws _ = False"

definition pending_ms :: "bool \<Rightarrow> ('d, 'c) source \<Rightarrow> bool" where
  "pending_ms v s \<longleftrightarrow> (\<exists>zs \<in> to_do s. aimed v zs) \<or> throws (ms_point s)"

definition stopped_dec :: "bool \<Rightarrow> ('d, 'c) source \<Rightarrow> bool" where
  "stopped_dec v s \<longleftrightarrow> (case ms_decoders s v of None \<Rightarrow> False | Some d \<Rightarrow> dc_stopping d)"

fun plain_close :: "action \<Rightarrow> bool" where
  "plain_close (Z_fail e) = False"
| "plain_close Z_pick = False"
| "plain_close _ = True"

definition closes :: "source_point \<Rightarrow> bool" where
  "closes x \<longleftrightarrow> (\<forall>zs. acts_at x = Some (zs, S_report) \<longrightarrow> list_all plain_close zs)"

definition well_grounded :: "('d, 'c) source \<Rightarrow> bool" where
  "well_grounded s \<longleftrightarrow> closes (ms_point s) \<and> (\<forall>zs \<in> to_do s. grounded (called_off s) zs) \<and>
     (\<forall>v. stopped_dec v s \<longrightarrow> called_off s \<or> exiting (ms_point s))"

definition reaching :: "('d, 'c) source \<Rightarrow> bool" where
  "reaching s \<longleftrightarrow> (ms_session s \<and> called_off s \<longrightarrow>
     (\<forall>v. ms_decoders s v \<noteq> None \<longrightarrow> stopped_dec v s \<or> pending_ms v s))"

text \<open>Steps that add to what is to be done.\<close>

lemma stops_keep:
  assumes "well_grounded s" "reaching s" "to_do s \<subseteq> insert [] (to_do t)" "closes (ms_point t)" "\<And>zs. zs \<in> to_do t \<Longrightarrow> zs \<notin> to_do s \<Longrightarrow> grounded (called_off t) zs"
    and "called_off s \<Longrightarrow> called_off t" "exiting (ms_point s) \<Longrightarrow> exiting (ms_point t)"
    and "\<And>v. stopped_dec v t = stopped_dec v s" "\<And>v. ms_decoders t v = None \<longleftrightarrow> ms_decoders s v = None"
    and "ms_session t \<Longrightarrow> ms_session s \<and> (throws (ms_point s) \<longrightarrow> throws (ms_point t)) \<and>
      (called_off t \<longrightarrow> called_off s \<or> (\<exists>zs \<in> to_do t. \<forall>v. ms_decoders t v \<noteq> None \<longrightarrow> aimed v zs))"
  shows "well_grounded t \<and> reaching t"
proof
  show "well_grounded t"
    using assms(1,3-8) unfolding well_grounded_def by (metis grounded_mono)
  show "reaching t"
    unfolding reaching_def
  proof (intro impI allI; elim conjE)
    fix v
    assume t: "ms_session t" "called_off t" "ms_decoders t v \<noteq> None"
    with assms(10) consider "called_off s" | zs where "zs \<in> to_do t" "aimed v zs" by blast
    then show "stopped_dec v t \<or> pending_ms v t"
    proof cases
      case 1
      moreover have "ms_session s" "ms_decoders s v \<noteq> None" using assms(9,10) t by simp_all
      ultimately have "stopped_dec v s \<or> pending_ms v s" using assms(2) by (simp add: reaching_def)
      then show ?thesis using assms(3,10) t(1) by (auto simp: pending_ms_def assms(8) aimed_def)
    qed (auto simp: pending_ms_def)
  qed
qed

text \<open>Doing what is first in a list.\<close>

lemma act_over: "called_off (snd (do_action z s)) \<longleftrightarrow> called_off s \<or> (\<exists>e. z = Z_fail e)"
  by (cases z) (auto simp: called_off_def do_action_def)

lemma act_stopped: "stopped_dec v (snd (do_action z s)) \<longleftrightarrow> stopped_dec v s \<or> ms_decoders s v \<noteq> None \<and> z = Z_stop v Q_flag"
  by (cases z) (auto simp: stopped_dec_def do_action_def stop_part_def request_stop_def stop_packets_def stop_frames_def stop_discard_def
      split: option.split stop_op.split)

lemma act_none: "ms_decoders (snd (do_action z s)) v = None \<longleftrightarrow> ms_decoders s v = None"
  by (cases z) (auto simp: do_action_def)

lemma stop_session_aimed: "ms_decoders s v \<noteq> None \<Longrightarrow> Z_stop v Q_flag \<in> set (stop_session (ms_decoders s))"
  by (cases v) (auto simp: stop_session_def present_cases stop_track_def)

lemma stop_session_grounded: "grounded True (stop_session ds @ zs) = grounded True zs"
  by (auto simp: stop_session_def present_cases stop_track_def)

lemma act_grounded:
  assumes "grounded (called_off s) (z # zs)"
  shows "grounded (called_off (snd (do_action z s))) (fst (do_action z s) @ zs)"
proof (cases z)
  case Z_pick
  with assms show ?thesis by (auto simp: do_action_def stop_session_grounded)
next
  case (Z_fail e)
  with assms have "grounded True zs" by simp
  then show ?thesis using Z_fail by (simp add: act_over) (simp add: do_action_def)
qed (use assms in \<open>simp_all add: act_over, simp_all add: do_action_def\<close>)

lemma act_aims:
  assumes "aimed v (z # zs)" "ms_session s" "ms_decoders s v \<noteq> None"
  shows "stopped_dec v (snd (do_action z s)) \<or> aimed v (fst (do_action z s) @ zs)"
proof (cases "aimed v zs")
  case True
  then show ?thesis by (auto simp: aimed_def)
next
  case False
  with assms(1) have "z = Z_pick \<or> z = Z_stop v Q_flag" by (auto simp: aimed_def)
  then show ?thesis
  proof
    assume "z = Z_pick"
    with assms(2,3) stop_session_aimed show ?thesis by (auto simp: do_action_def aimed_def)
  qed (use assms(3) in \<open>simp add: act_stopped\<close>)
qed

lemma stops_act:
  assumes "well_grounded s" "reaching s" "z # zs \<in> to_do s" "to_do t \<subseteq> insert (fst (do_action z s) @ zs) (to_do s)"
    and "insert (fst (do_action z s) @ zs) (to_do s - {z # zs}) \<subseteq> to_do t"
    and "ms_decoders t = ms_decoders (snd (do_action z s))" "ms_session t = ms_session (snd (do_action z s))" "called_off t = called_off (snd (do_action z s))"
    and "exiting (ms_point t) = exiting (ms_point s)" "throws (ms_point t) = throws (ms_point s)"
    and "closes (ms_point t)"
  shows "well_grounded t \<and> reaching t"
proof
  from assms(1,3) have g: "grounded (called_off s) (z # zs)" by (simp add: well_grounded_def)
  have "called_off s \<Longrightarrow> called_off t" by (simp add: assms(8) act_over)
  moreover have "called_off s" if "z = Z_stop v Q_flag" for v using g that by simp
  ultimately show "well_grounded t"
    using assms(1,4) act_grounded [OF g] act_stopped [of _ z s]
    unfolding well_grounded_def assms(8,9) stopped_dec_def assms(6)
    by (metis act_over assms(8,11) grounded_mono insertE subsetD)
  show "reaching t"
    unfolding reaching_def
  proof (intro impI allI; elim conjE)
    fix v
    assume t: "ms_session t" "called_off t" "ms_decoders t v \<noteq> None"
    then have s: "ms_session s" "ms_decoders s v \<noteq> None" by (auto simp: assms(6,7) act_session act_none)
    have st: "stopped_dec v t = stopped_dec v (snd (do_action z s))" by (simp add: stopped_dec_def assms(6))
    show "stopped_dec v t \<or> pending_ms v t"
    proof (cases "called_off s")
      case True
      with assms(2) s consider "stopped_dec v s" | ys where "ys \<in> to_do s" "aimed v ys" | "throws (ms_point s)"
        unfolding reaching_def pending_ms_def by blast
      then show ?thesis
      proof cases
        case 1
        then show ?thesis by (simp add: st act_stopped)
      next
        case 2
        with act_aims [OF _ s] st assms(5) show ?thesis unfolding pending_ms_def by blast
      next
        case 3
        with assms(10) show ?thesis by (simp add: pending_ms_def)
      qed
    next
      case False
      with t(2) obtain e where "z = Z_fail e" by (auto simp: assms(8) act_over)
      with g have "aimed v (fst (do_action z s) @ zs)" by (simp add: aimed_def)
      with assms(5) show ?thesis unfolding pending_ms_def by blast
    qed
  qed
qed


section \<open>The worker\<close>

lemma to_do_worker: "ms_helpers t = ms_helpers s \<Longrightarrow> to_do t = snd ` set (ms_helpers s) \<union> worker_list (ms_point t)"
  by (simp add: to_do_def)

lemma worker_list_simps [simp]:
  "acts_at x = None \<Longrightarrow> worker_list x = {}" "worker_list (S_acts zs k) = (if k = S_report then {} else {zs})"
  by (simp_all add: worker_list_def)

lemma push_stopping [simp]: "dc_stopping (push_queue i d) = dc_stopping d" "dc_stopping (push_mark i d) = dc_stopping d"
  by (simp_all add: push_queue_def push_mark_def split: prod.split)

lemma Push_dec_stopping: "Push_dec True i d = (r, e) \<Longrightarrow> dc_stopping e = dc_stopping d"
  using Push_dec_effect [of True i d r e] by auto

lemma worker_stopped:
  assumes "\<not> (\<exists>d k. ms_point s = S_init d k)" "\<not> (\<exists>z zs k. ms_point s = S_acts (z # zs) k)"
  shows "stopped_dec v (worker_ms L C E s) = stopped_dec v s" "ms_decoders (worker_ms L C E s) v = None \<longleftrightarrow> ms_decoders s v = None"
proof -
  have "stopped_dec v (worker_ms L C E s) = stopped_dec v s \<and> (ms_decoders (worker_ms L C E s) v = None \<longleftrightarrow> ms_decoders s v = None)"
  proof (cases "calls_dec (ms_point s)")
    case False
    then have "ms_decoders (worker_ms L C E s) = ms_decoders s"
      using assms(2) by (cases "ms_point s"; simp add: worker_ms_defs Let_def split: ms_splits)
    then show ?thesis by (simp add: stopped_dec_def)
  next
    case True
    then show ?thesis
      using assms
      by (cases "ms_point s" rule: calls_dec.cases)
        (auto simp: worker_ms_def begin_push_def queue_push_def submit_result_def stopped_dec_def Let_def dest: Push_dec_stopping
          split: option.splits prod.splits sum.splits read_answer.splits)
  qed
  then show "stopped_dec v (worker_ms L C E s) = stopped_dec v s" "ms_decoders (worker_ms L C E s) v = None \<longleftrightarrow> ms_decoders s v = None"
    by simp_all
qed

lemma worker_over:
  assumes "\<not> (\<exists>z zs k. ms_point s = S_acts (z # zs) k)"
  shows "called_off (worker_ms L C E s) = called_off s"
  using assms
proof (cases "ms_point s")
  case (S_acts zs k)
  with assms show ?thesis by (cases zs) (simp_all add: worker_ms_def called_off_def)
qed (simp_all add: worker_ms_defs called_off_def Let_def split: ms_splits)

lemma worker_session:
  assumes "\<not> (\<exists>z zs k. ms_point s = S_acts (z # zs) k)" "\<not> (\<exists>k. ms_point s = S_session k)"
  shows "ms_session (worker_ms L C E s) = ms_session s"
  using assms
proof (cases "ms_point s")
  case (S_acts zs k)
  with assms show ?thesis by (cases zs) (simp_all add: worker_ms_def)
qed (simp_all add: worker_ms_defs Let_def split: ms_splits)

lemma worker_throws:
  assumes "ms_point s = S_throw e"
  shows "to_do (worker_ms L C E s) = insert [Z_fail e, Z_pick, Z_proxy] (to_do s)"
  by (auto simp: to_do_def worker_helpers assms worker_ms_def)

lemma acts_at_Some: "acts_at x = Some (zs, k) \<longleftrightarrow> x = S_acts zs k"
  by (cases x) auto

lemma worker_no_list:
  assumes "shaped (ms_point s)" "\<not> enters_acts (ms_point s)"
  shows "to_do (worker_ms L C E s) = snd ` set (ms_helpers s)" "closes (ms_point (worker_ms L C E s))"
  using worker_no_acts [OF assms, of L C E] by (simp_all add: to_do_def worker_helpers closes_def)

lemma close_session_plain: "list_all plain_close (close_session ds)"
  by (simp add: close_session_def present_cases stop_track_def)

lemma make_session_fresh:
  assumes "make_session C created c info = Inr ds" "ds v = Some d"
  shows "\<not> dc_stopping d" "dh_in d = []" "dh_read d = []" "dc_error d = None"
  using assms by (auto elim!: make_session_new simp: SetOnError_dec_def AvDecoder_new_created)

lemma stops_act_worker:
  assumes "ms_point s = S_acts (z # zs) k" "well_grounded s" "reaching s"
  shows "well_grounded (worker_ms L C E s) \<and> reaching (worker_ms L C E s)"
proof -
  let ?t = "worker_ms L C E s"
  note t = worker_act [OF assms(1), of L C E]
  have fields: "ms_decoders ?t = ms_decoders (snd (do_action z s))" "ms_session ?t = ms_session (snd (do_action z s))"
    "called_off ?t = called_off (snd (do_action z s))" "ms_helpers ?t = ms_helpers s" "ms_point ?t = S_acts (fst (do_action z s) @ zs) k"
    by (simp_all add: t called_off_def)
  show ?thesis
  proof (cases "k = S_report")
    case False
    show ?thesis
      by (rule stops_act [OF assms(2,3), of z zs])
        (use False in \<open>auto simp: fields to_do_def assms(1) closes_def\<close>)
  next
    case True
    with assms(1,2) have z: "plain_close z" "list_all plain_close zs" by (auto simp: well_grounded_def closes_def)
    have new: "fst (do_action z s) = []" using z(1) by (cases z) (simp_all add: do_action_def)
    have "called_off (snd (do_action z s)) = called_off s" using z(1) by (cases z) (simp_all add: act_over)
    then have off: "called_off ?t = called_off s" by (simp add: fields)
    have td: "to_do ?t = to_do s" using True by (simp add: to_do_def fields assms(1))
    have st: "stopped_dec v s \<Longrightarrow> stopped_dec v ?t" for v
      using act_stopped [of v z s] by (simp add: stopped_dec_def fields)
    show ?thesis
    proof
      show "well_grounded ?t"
        using assms(2) z True by (simp add: well_grounded_def td off fields(5) new closes_def)
      have "pending_ms v s \<Longrightarrow> pending_ms v ?t" for v
        unfolding pending_ms_def td by (simp add: assms(1) fields)
      with assms(3) st show "reaching ?t"
        unfolding reaching_def fields(1,2) off act_none act_session by blast
    qed
  qed
qed

lemma stops_worker:
  assumes "source_ready s" "shaped (ms_point s)" "phases s" "lists_ok s" "well_grounded s" "reaching s"
  shows "well_grounded (worker_ms L C E s) \<and> reaching (worker_ms L C E s)"
proof -
  let ?t = "worker_ms L C E s"
  consider (act) z zs k where "ms_point s = S_acts (z # zs) k" | (throw) e where "ms_point s = S_throw e"
    | (cleanup) "ms_point s = S_cleanup" | (session) k where "ms_point s = S_session k"
    | (init) d k where "ms_point s = S_init d k" "\<not> ms_local s"
    | (other) "\<not> enters_acts (ms_point s)" "\<And>d k. ms_point s = S_init d k \<Longrightarrow> ms_local s"
    by (cases "ms_point s" rule: enters_acts.cases) auto
  then show ?thesis
  proof cases
    case (act z zs k)
    from stops_act_worker [OF this assms(5,6)] show ?thesis .
  next
    case (throw e)
    have t: "ms_decoders ?t = ms_decoders s" "called_off ?t = called_off s" "ms_point ?t = S_acts [Z_fail e, Z_pick, Z_proxy] S_finish"
      by (simp_all add: throw worker_ms_def called_off_def)
    have "well_grounded ?t"
      using assms(5) by (simp add: well_grounded_def worker_throws [OF throw] t closes_def)
    moreover have "pending_ms v ?t" for v
      by (simp add: pending_ms_def worker_throws [OF throw] aimed_def)
    ultimately show ?thesis by (simp add: reaching_def)
  next
    case cleanup
    have "to_do ?t = to_do s" by (simp add: to_do_def worker_helpers cleanup worker_ms_def)
    moreover have "ms_decoders ?t = ms_decoders s" "called_off ?t = called_off s" "ms_session ?t = ms_session s"
      "exiting (ms_point ?t)" "closes (ms_point ?t)" "\<not> throws (ms_point ?t)"
      by (simp_all add: cleanup worker_ms_def called_off_def closes_def close_session_plain)
    ultimately show ?thesis
      by (intro stops_keep [OF assms(5,6)]) (auto simp: cleanup stopped_dec_def)
  next
    case (session k)
    with assms(2) have k: "init_next k" by simp
    then have nk: "acts_at k = None" "k \<noteq> S_report" by (auto simp: init_next_not)
    have t: "ms_decoders ?t = ms_decoders s" "called_off ?t = called_off s" "ms_helpers ?t = ms_helpers s"
      "ms_point ?t = (if called_off s then S_acts (stop_session (ms_decoders s)) k else k)"
      by (simp_all add: session worker_ms_def publish_session_def called_off_def)
    have td: "to_do ?t = (if called_off s then insert (stop_session (ms_decoders s)) (to_do s) else to_do s)"
      using nk by (simp add: to_do_def t session)
    have "\<not> (\<exists>v. stopped_dec v s) \<or> called_off s"
      using assms(5) session by (auto simp: well_grounded_def)
    then have "well_grounded ?t"
      using assms(5) nk stop_session_grounded [of "ms_decoders s" "[]"]
      by (auto simp: well_grounded_def td t stopped_dec_def closes_def)
    moreover have "reaching ?t"
      unfolding reaching_def pending_ms_def td using stop_session_aimed [of s] by (auto simp: t aimed_def)
    ultimately show ?thesis ..
  next
    case (init d k)
    with assms(2) have k: "init_next k" by simp
    from init assms(3) have "\<not> ms_session s" by (auto simp: phases_def)
    then have "\<not> ms_session ?t" using init by (simp add: worker_session)
    moreover have "well_grounded ?t"
    proof -
      have "\<not> stopped_dec v ?t" if "\<not> stopped_dec v s" for v
        using that init
        by (auto simp: worker_ms_def Initialize_ms_def stopped_dec_def dest: make_session_fresh split: option.splits sum.splits)
      moreover have "to_do ?t = to_do s" "closes (ms_point ?t)"
        using worker_no_list [OF assms(2), of L C E] init by (simp_all add: to_do_def)
      moreover have "called_off ?t = called_off s" by (rule worker_over) (simp add: init)
      ultimately show ?thesis using assms(5) init by (auto simp: well_grounded_def)
    qed
    ultimately show ?thesis by (simp add: reaching_def)
  next
    case other
    then have n: "\<not> (\<exists>z zs k. ms_point s = S_acts (z # zs) k)" "\<not> (\<exists>k. ms_point s = S_session k)" "\<not> throws (ms_point s)"
      by (auto elim: throws.elims)
    have "to_do s \<subseteq> insert [] (to_do ?t)"
      using other(1) n(1) by (cases "ms_point s" rule: enters_acts.cases) (auto simp: to_do_def worker_helpers)
    moreover have "stopped_dec v ?t = stopped_dec v s \<and> (ms_decoders ?t v = None \<longleftrightarrow> ms_decoders s v = None)" for v
    proof (cases "\<exists>d k. ms_point s = S_init d k")
      case True
      then obtain d k where "ms_point s = S_init d k" by blast
      with other(2) have "ms_decoders ?t = ms_decoders s" by (auto simp: worker_ms_def Initialize_ms_def split: option.split sum.split)
      then show ?thesis by (simp add: stopped_dec_def)
    next
      case False
      from worker_stopped [OF this n(1)] show ?thesis by simp
    qed
    moreover have "exiting (ms_point s) \<Longrightarrow> exiting (ms_point ?t)"
    proof -
      assume e: "exiting (ms_point s)"
      have "plain_point (ms_point s)"
        using e n(1) by (cases "ms_point s" rule: plain_point.cases) (simp_all, metis neq_Nil_conv)
      from worker_leads [OF assms(2) this] assms(1,3) e show "exiting (ms_point ?t)"
        by (auto simp: leads_ms_def phases_def source_ready_def)
    qed
    ultimately show ?thesis
      using worker_no_list [OF assms(2) other(1), of L C E] worker_over [OF n(1), of L C E] worker_session [OF n(1,2), of L C E] n(3)
      by (intro stops_keep [OF assms(5,6)]) (auto simp: to_do_def)
  qed
qed

section \<open>The other threads\<close>

lemma stops_other:
  assumes "other_step L C D s t" "lists_ok s" "accounts (ms_proxy s)" "well_grounded s" "reaching s"
  shows "well_grounded t \<and> reaching t"
  using assms
proof (induction rule: other_step.induct)
  case (helper i s)
  from helper(1) show ?case
  proof (cases rule: step_helper_cases)
    case (over w)
    let ?t = "step_helper i s"
    have h: "set (ms_helpers s) = insert (ms_helpers s ! i) (set (take i (ms_helpers s) @ drop (Suc i) (ms_helpers s)))"
      by (metis Un_insert_right helper(1) id_take_nth_drop list.simps(15) set_append)
    have "to_do s \<subseteq> insert [] (to_do ?t)" "to_do ?t \<subseteq> to_do s"
      using over(1) by (auto simp: to_do_def over(2) h image_Un)
    moreover have "closes (ms_point s)" using helper(4) by (simp add: well_grounded_def)
    ultimately show ?thesis
      by (intro stops_keep [OF helper(4,5)]) (auto simp: over(2) stopped_dec_def called_off_def)
  next
    case (act w z zs)
    have e: "(ms_helpers s)[i := (w, new)] = take i (ms_helpers s) @ (w, new) # drop (Suc i) (ms_helpers s)" for new
      by (simp add: helper(1) upd_conv_take_nth_drop)
    have h: "set (ms_helpers s) = insert (w, z # zs) (set (take i (ms_helpers s)) \<union> set (drop (Suc i) (ms_helpers s)))"
      using act(1) id_take_nth_drop [OF helper(1)] by (metis Un_insert_right list.simps(15) set_append)
    show ?thesis
      by (rule stops_act [OF helper(4,5), of z zs])
        (use helper(4) in \<open>auto simp: act(3) to_do_def e h called_off_def well_grounded_def image_Un\<close>)
  qed
next
  case (proxy_worker s)
  let ?t = "step_proxy s"
  have same: "ms_decoders ?t = ms_decoders s" "ms_session ?t = ms_session s" "ms_point ?t = ms_point s" "called_off s \<Longrightarrow> called_off ?t"
    by (auto simp: step_proxy_def ProxyChanged_def Let_def called_off_def split: proxy_point.split)
  have c: "closes (ms_point s)" using proxy_worker(5) by (simp add: well_grounded_def)
  show ?case
  proof (cases "observes (px_point (ms_proxy s)) = Some PS_failed")
    case True
    then obtain k where k: "px_point (ms_proxy s) = W_observe PS_failed k" by (cases "px_point (ms_proxy s)") auto
    from proxy_worker(4) True have "px_error (ms_proxy s) \<noteq> None" by (simp add: accounts_def)
    then have off: "called_off ?t" by (auto simp: step_proxy_def Let_def k ProxyChanged_def event_of_def called_off_def)
    have "to_do ?t = insert [Z_pick] (to_do s)"
      by (auto simp: to_do_def step_proxy_def Let_def k ProxyChanged_def event_of_def)
    with off c same show ?thesis
      by (intro stops_keep [OF proxy_worker(5,6)]) (auto simp: stopped_dec_def aimed_def)
  next
    case False
    then have "to_do ?t = to_do s" "called_off ?t = called_off s"
      by (auto simp: to_do_def step_proxy_def Let_def ProxyChanged_def event_of_def called_off_def split: proxy_point.splits)
    with c same show ?thesis
      by (intro stops_keep [OF proxy_worker(5,6)]) (auto simp: stopped_dec_def)
  qed
next
  case (decoder s v d)
  let ?t = "step_decoder L C v s"
  have "dc_stopping (worker_dec L C d) = dc_stopping d"
    by (cases "dc_point d")
      (simp_all add: worker_dec_def receive_step_def emit_step_def pop_step_def input_step_def send_step_def Let_def
        split: prod.split answer.split sum.split dec_input.split)
  then have st: "stopped_dec w ?t = stopped_dec w s" for w
    using decoder(1) by (auto simp: stopped_dec_def step_decoder_decoders)
  have same: "ms_session ?t = ms_session s" "ms_point ?t = ms_point s" "called_off ?t = called_off s"
    by (simp_all add: step_decoder_def DecoderFailed_def Let_def called_off_def split: option.split)
  have td: "to_do ?t = to_do s \<or> (\<exists>e. to_do ?t = insert [Z_fail e, Z_pick, Z_proxy] (to_do s))"
    by (auto simp: to_do_def step_decoder_def DecoderFailed_def Let_def split: option.split)
  have "closes (ms_point s)" using decoder(5) by (simp add: well_grounded_def)
  with st same td show ?case
    by (intro stops_keep [OF decoder(5,6)]) (auto simp: step_decoder_decoders)
next
  case (request s)
  let ?t = "RequestStop_ms s"
  define ls where "ls = Z_proxy # (if ms_session s then stop_session (ms_decoders s) else [])"
  have td: "to_do ?t = insert ls (to_do s)" by (auto simp: to_do_def RequestStop_ms_def ls_def)
  have "grounded True ls" using stop_session_grounded [of "ms_decoders s" "[]"] by (simp add: ls_def)
  moreover have "closes (ms_point s)" using request(3) by (simp add: well_grounded_def)
  moreover have "aimed v ls" if "ms_session s" "ms_decoders s v \<noteq> None" for v
    using stop_session_aimed [OF that(2)] that(1) by (simp add: aimed_def ls_def)
  moreover have "ms_decoders ?t = ms_decoders s" "ms_session ?t = ms_session s" "ms_point ?t = ms_point s" "called_off ?t"
    by (simp_all add: RequestStop_ms_def called_off_def)
  ultimately show ?case
    by (intro stops_keep [OF request(3,4)]) (auto simp: td stopped_dec_def)
next
  case (proxy s f)
  have "closes (ms_point s)" using proxy(10) by (simp add: well_grounded_def)
  then show ?case
    by (intro stops_keep [OF proxy(10,11)]) (auto simp: to_do_def called_off_def stopped_dec_def)
next
  case (read_session s v)
  have "closes (ms_point s)" using read_session(4) by (simp add: well_grounded_def)
  then show ?case
    by (intro stops_keep [OF read_session(4,5)]) (auto simp: ReadSession_def to_do_def called_off_def stopped_dec_def)
next
  case (read_frame s v)
  let ?t = "ReadFrame_ms v s"
  have "closes (ms_point s)" using read_frame(4) by (simp add: well_grounded_def)
  moreover have "ms_point ?t = ms_point s" "ms_session ?t = ms_session s" "called_off ?t = called_off s" "to_do ?t = to_do s"
    by (simp_all add: ReadFrame_ms_def called_off_def to_do_def split: ms_reader.split option.split dec_consumer.split prod.split)
  moreover have "stopped_dec w ?t = stopped_dec w s \<and> (ms_decoders ?t w = None \<longleftrightarrow> ms_decoders s w = None)" for w
    by (simp add: ReadFrame_ms_def stopped_dec_def read_begin_def read_pop_def read_check_def Let_def
        split: ms_reader.split option.split dec_consumer.split prod.split)
  ultimately show ?case by (intro stops_keep [OF read_frame(4,5)]) auto
qed

section \<open>All steps\<close>

lemma stops_step:
  assumes "sourcing L C D s t" "source_inv L C D s" "well_grounded s" "reaching s"
  shows "well_grounded t \<and> reaching t"
proof -
  from assms(2) have h: "shaped (ms_point s)" "phases s" "lists_ok s" "accounts (ms_proxy s)"
    by (auto simp: source_inv_def intro: proxy_runs_accounts)
  from assms(1) show ?thesis
  proof (cases rule: sourcing_cases)
    case (worker E)
    with h assms(3,4) show ?thesis by (simp add: stops_worker)
  next
    case other
    from stops_other [OF other h(3,4) assms(3,4)] show ?thesis .
  next
    case join
    then have "closes (ms_point t)" by (simp add: join_ms_def closes_def)
    with join show ?thesis
      by (intro stops_keep [OF assms(3,4)]) (auto simp: join_ms_def to_do_def called_off_def stopped_dec_def)
  next
    case (start created url)
    show ?thesis
    proof (cases rule: Start_ms_cases [of created url s])
      case same
      with assms(3,4) start(2) show ?thesis by simp
    next
      case reset
      with h(2) have p: "ms_point s = S_none" "\<not> ms_session s" by (auto simp: phases_def)
      with reset start(1) have "to_do t = {}" "closes (ms_point t)" "ms_decoders t = (\<lambda>_. None)" "\<not> ms_session t"
        by (simp_all add: start(2) to_do_def quiet_def closes_def)
      then show ?thesis by (simp add: well_grounded_def reaching_def stopped_dec_def)
    qed
  qed
qed

lemma source_runs_stops:
  assumes "source_runs L C D t"
  shows "well_grounded t \<and> reaching t"
proof -
  from assms obtain c s where s: "AvMediaSource_new c = Inr s" "(sourcing L C D)\<^sup>*\<^sup>* s t" by (auto simp: source_runs_def)
  from s(2) have "source_inv L C D t \<and> well_grounded t \<and> reaching t"
  proof induction
    case base
    have "ms_point s = S_none" "ms_helpers s = []" "ms_decoders s = (\<lambda>_. None)" "\<not> ms_session s"
      using s(1) by (auto simp: AvMediaSource_new_def chain_def split: sum.splits)
    with source_inv_start [OF s(1)] show ?case
      by (simp add: well_grounded_def reaching_def stopped_dec_def to_do_def closes_def)
  next
    case (step t u)
    then show ?case using source_inv_step stops_step by blast
  qed
  then show ?thesis by simp
qed

end
