(* ===== verification/Source_Feed.thy ===== *)
theory Source_Feed
  imports Source_Stop
begin

text \<open>
  What a source gives its decoders: the reference \<open>feed_ms\<close> reads it off the results of the reads of the proxy; the
  invariant relates it to the inputs the decoders accepted.
\<close>

section \<open>The reference\<close>

fun own_part :: "bool \<Rightarrow> int \<Rightarrow> read_answer \<Rightarrow> dec_input list" where
  "own_part v video (R_packet p) = (if v = (pk_stream p = video) then [In_packet p] else [])"
| "own_part v video x = [In_eof]"

definition renewal :: "nat option \<Rightarrow> nat option \<Rightarrow> dec_input list" where
  "renewal previous current = (if previous \<noteq> None \<and> previous \<noteq> current then [In_reset] else [])"

text \<open>
  For the track \<open>v\<close>, with the index of the video stream and the connection of the last result: a reset when the
  connection is another one, the packets of the track, an end of stream for every end of file.
\<close>

fun feed_ms :: "bool \<Rightarrow> int \<Rightarrow> nat option \<Rightarrow> (read_answer \<times> description option) list \<Rightarrow> dec_input list" where
  "feed_ms v video c [] = []"
| "feed_ms v video c ((x, d) # xs) = renewal c (map_option fst d) @ own_part v video x @ feed_ms v video (map_option fst d) xs"

fun feed_last :: "nat option \<Rightarrow> (read_answer \<times> description option) list \<Rightarrow> nat option" where
  "feed_last c [] = c"
| "feed_last c ((x, d) # xs) = feed_last (map_option fst d) xs"

lemma feed_snoc:
  shows "feed_ms v video c (xs @ [(x, d)]) = feed_ms v video c xs @ renewal (feed_last c xs) (map_option fst d) @ own_part v video x"
  "feed_last c (xs @ [(x, d)]) = map_option fst d"
proof -
  show l: "feed_last c (xs @ [(x, d)]) = map_option fst d" for c
    by (induction xs arbitrary: c) auto
  show "feed_ms v video c (xs @ [(x, d)]) = feed_ms v video c xs @ renewal (feed_last c xs) (map_option fst d) @ own_part v video x"
    by (induction xs arbitrary: c) auto
qed

section \<open>What is underway\<close>

fun todo :: "dec_input list \<Rightarrow> source_point \<Rightarrow> bool \<Rightarrow> dec_input list" where
  "todo own (S_push w i k) v = (if w = v then [i] else []) @ todo own k v"
| "todo own (S_queue w i k) v = (if w = v then [i] else []) @ todo own k v"
| "todo own (S_mark w i k) v = todo own k v"
| "todo own S_described v = own"
| "todo own x v = []"

fun holding :: "source_point \<Rightarrow> bool" where
  "holding (S_init d k) = (k = S_observer)"
| "holding (S_session k) = (k = S_observer)"
| "holding (S_acts zs k) = (k = S_observer)"
| "holding (S_check k) = (k = S_dispatch)"
| "holding S_observer = True"
| "holding S_dispatch = True"
| "holding x = False"

fun fresh :: "source_point \<Rightarrow> bool" where
  "fresh (S_push w i k) = fresh k"
| "fresh (S_queue w i k) = fresh k"
| "fresh (S_mark w i k) = fresh k"
| "fresh S_described = True"
| "fresh x = holding x"

definition video_of :: "('d, 'c) source \<Rightarrow> int" where
  "video_of s = ii_video (ms_description s)"

definition owed_to :: "('d, 'c) source \<Rightarrow> bool \<Rightarrow> dec_input list" where
  "owed_to s v = (if holding (ms_point s)
     then renewal (ms_dispatched s) (map_option fst (snd (ms_result s))) @ own_part v (video_of s) (fst (ms_result s))
     else todo (own_part v (video_of s) (fst (ms_result s))) (ms_point s) v)"

definition fed_to :: "bool \<Rightarrow> ('d, 'c) source \<Rightarrow> dec_input list" where
  "fed_to v s = feed_ms v (video_of s) None (mh_taken s)"

definition exact :: "('d, 'c) source \<Rightarrow> bool" where
  "exact s \<longleftrightarrow> (\<forall>v d. ms_decoders s v = Some d \<longrightarrow> dh_in d @ owed_to s v = fed_to v s) \<and>
     ms_dispatched s = feed_last None (if fresh (ms_point s) then butlast (mh_taken s) else mh_taken s) \<and>
     (fresh (ms_point s) \<longrightarrow> mh_taken s \<noteq> [] \<and> last (mh_taken s) = ms_result s)"

text \<open>The points a source that was called off passes on its way out; a decoder that refuses leads there.\<close>

fun leaving :: "bool \<Rightarrow> bool \<Rightarrow> (bool \<Rightarrow> bool) \<Rightarrow> source_point \<Rightarrow> bool" where
  "leaving stop fail ov (S_turn b) = (\<not> b \<and> (stop \<or> fail))"
| "leaving stop fail ov S_loop = (stop \<or> fail)"
| "leaving stop fail ov S_wait = (stop \<or> fail)"
| "leaving stop fail ov S_revision = fail"
| "leaving stop fail ov (S_check k) = (case k of S_swap \<Rightarrow> fail | S_refused v \<Rightarrow> ov v | _ \<Rightarrow> False)"
| "leaving stop fail ov (S_refused v) = ov v"
| "leaving stop fail ov x = exiting x"

definition over_dec :: "('d, 'c) source \<Rightarrow> bool \<Rightarrow> bool" where
  "over_dec s v \<longleftrightarrow> (\<exists>d. ms_decoders s v = Some d \<and> over d)"

definition cut_short :: "('d, 'c) source \<Rightarrow> bool" where
  "cut_short s \<longleftrightarrow> \<not> ms_ended s \<and> leaving (ms_stopping s) (ms_failure s \<noteq> None) (over_dec s) (ms_point s) \<and>
     (\<forall>v d. ms_decoders s v = Some d \<longrightarrow> prefix (dh_in d) (fed_to v s))"

definition waits :: "('d, 'c) source \<Rightarrow> bool" where
  "waits s \<longleftrightarrow> (if fresh (ms_point s) then (\<exists>d. ms_point s = S_init d S_observer) \<and> mh_taken s = [ms_result s] else mh_taken s = [])"

definition fed :: "('d, 'c) source \<Rightarrow> bool" where
  "fed s \<longleftrightarrow> (if ms_decoders s = (\<lambda>_. None) then exiting (ms_point s) \<or> waits s else exact s \<or> cut_short s) \<and>
     (ms_local s \<longrightarrow> ms_decoders s \<noteq> (\<lambda>_. None)) \<and> (ms_ended s \<longrightarrow> exiting (ms_point s))"

section \<open>The other threads\<close>

definition dec_still :: "'c decoder \<Rightarrow> 'c decoder \<Rightarrow> bool" where
  "dec_still d e \<longleftrightarrow> dh_in e = dh_in d \<and> (over d \<longrightarrow> over e)"

definition still :: "('d, 'c) source \<Rightarrow> ('d, 'c) source \<Rightarrow> bool" where
  "still s t \<longleftrightarrow> (\<forall>v. rel_option dec_still (ms_decoders s v) (ms_decoders t v))"

lemma dec_still_refl [simp]: "dec_still d d"
  by (simp add: dec_still_def)

lemma still_same: "ms_decoders t = ms_decoders s \<Longrightarrow> still s t"
  by (simp add: still_def option.rel_refl)

lemma still_on:
  assumes "ms_decoders t = (ms_decoders s)(v := map_option f (ms_decoders s v))" "\<And>d. ms_decoders s v = Some d \<Longrightarrow> dec_still d (f d)"
  shows "still s t"
  using assms by (auto simp: still_def option.rel_refl option.rel_map rel_option_iff split: option.split)

lemma worker_dec_still: "dec_still d (worker_dec L C d)"
  by (cases "dc_point d")
    (auto simp: dec_still_def over_def worker_dec_def receive_step_def emit_step_def pop_step_def input_step_def send_step_def Let_def
      split: prod.split answer.split sum.split dec_input.split)

lemma stop_part_still: "dec_still d (stop_part q d)" "dec_still d (stop_discard d)"
  by (auto simp: dec_still_def over_def stop_part_def request_stop_def stop_packets_def stop_frames_def stop_discard_def split: stop_op.split)

lemma act_still: "still s (snd (do_action z s))"
proof (cases z)
  case (Z_stop v q)
  show ?thesis
    by (rule still_on [where v = v and f = "stop_part q"]) (simp_all add: Z_stop do_action_def stop_part_still)
next
  case (Z_discard v)
  show ?thesis
    by (rule still_on [where v = v and f = stop_discard]) (simp_all add: Z_discard do_action_def stop_part_still)
qed (auto simp: do_action_def intro: still_same)

lemma reader_still: "still s (ReadFrame_ms v s)"
proof -
  have r: "dec_still d (read_begin False d)" "dec_still d (read_pop d)" "read_check x d = (y, e) \<Longrightarrow> dec_still d e"
    for d e :: "'b decoder" and x y
    by (auto simp: dec_still_def over_def read_begin_def read_pop_def read_check_def Let_def split: prod.split)
  show ?thesis
    using r by (auto simp: ReadFrame_ms_def still_def option.rel_refl option.rel_map
      split: ms_reader.split option.split dec_consumer.split prod.split)
qed

lemma other_still: "other_step L C D s t \<Longrightarrow> still s t"
proof (induction rule: other_step.induct)
  case (decoder s v d)
  show ?case
    by (rule still_on [where v = v and f = "worker_dec L C"]) (simp_all add: step_decoder_decoders worker_dec_still)
next
  case (helper i s)
  then show ?case
  proof (cases rule: step_helper_cases)
    case (act w z zs)
    have "still s (snd (do_action z s))" by (rule act_still)
    then show ?thesis by (simp add: act(3) still_def)
  qed (simp add: still_same)
next
  case (proxy_worker s)
  show ?case by (rule still_same) (simp add: step_proxy_def ProxyChanged_def Let_def split: proxy_point.split)
next
  case (read_frame s v)
  show ?case by (rule reader_still)
qed (auto intro: still_same simp: RequestStop_ms_def ReadSession_def)

text \<open>What does not move the worker leaves the feed as it is.\<close>

lemma leaving_mono:
  "leaving stop fail ov x \<Longrightarrow> (stop \<Longrightarrow> stop') \<Longrightarrow> (fail \<Longrightarrow> fail') \<Longrightarrow> (\<And>v. ov v \<Longrightarrow> ov' v) \<Longrightarrow> leaving stop' fail' ov' x"
  by (cases x) (auto split: source_point.splits)

lemma fed_still:
  assumes "fed s" "still s t" "ms_point t = ms_point s" "ms_dispatched t = ms_dispatched s" "ms_result t = ms_result s"
    "mh_taken t = mh_taken s" "ms_description t = ms_description s" "ms_ended t = ms_ended s" "ms_local t \<Longrightarrow> ms_local s"
    "ms_stopping s \<Longrightarrow> ms_stopping t" "ms_failure s \<noteq> None \<Longrightarrow> ms_failure t \<noteq> None"
  shows "fed t"
proof -
  have none: "ms_decoders t = (\<lambda>_. None) \<longleftrightarrow> ms_decoders s = (\<lambda>_. None)"
    using assms(2) unfolding still_def fun_eq_iff by (metis option.rel_distinct(1,2) option.rel_sel)
  have old: "\<exists>d. ms_decoders s v = Some d \<and> dec_still d e" if "ms_decoders t v = Some e" for v e
  proof -
    from assms(2) have "rel_option dec_still (ms_decoders s v) (ms_decoders t v)" by (simp add: still_def)
    with that show ?thesis by (auto simp: option_rel_Some2)
  qed
  have forth: "over_dec s v \<Longrightarrow> over_dec t v" for v
  proof -
    from assms(2) have "rel_option dec_still (ms_decoders s v) (ms_decoders t v)" by (simp add: still_def)
    then show "over_dec s v \<Longrightarrow> over_dec t v" by (auto simp: over_dec_def option_rel_Some1 dec_still_def)
  qed
  have feeds: "owed_to t v = owed_to s v" "fed_to v t = fed_to v s" for v
    by (simp_all add: owed_to_def fed_to_def video_of_def assms(3-7))
  have "exact s \<Longrightarrow> exact t"
    unfolding exact_def feeds assms(3-6) using old by (fastforce simp: dec_still_def)
  moreover have "cut_short s \<Longrightarrow> cut_short t"
    unfolding cut_short_def feeds assms(3,8)
    using old leaving_mono [OF _ assms(10,11) forth] by (fastforce simp: dec_still_def)
  ultimately show ?thesis
    using assms(1,9) unfolding fed_def none assms(3,8) waits_def assms(5,6) by auto
qed

lemma fed_other:
  assumes "other_step L C D s t" "lists_ok s" "fed s"
  shows "fed t"
  using other_beside [OF assms(1,2)]
  by (intro fed_still [OF assms(3) other_still [OF assms(1)]]) (auto simp: beside_def)

section \<open>The worker\<close>

fun moves_feed :: "source_point \<Rightarrow> bool" where
  "moves_feed (S_push v i k) = True"
| "moves_feed (S_queue v i k) = True"
| "moves_feed (S_mark v i k) = True"
| "moves_feed (S_init d k) = True"
| "moves_feed S_described = True"
| "moves_feed S_dispatch = True"
| "moves_feed S_reading = True"
| "moves_feed (S_acts (z # zs) k) = True"
| "moves_feed _ = False"

lemma next_feed:
  "pub_next k \<Longrightarrow> \<not> holding k \<and> \<not> fresh k \<and> todo own k v = []"
  "check_next k \<Longrightarrow> holding k = (k = S_dispatch) \<and> fresh k = (k = S_dispatch) \<and> todo own k v = []"
  "init_next k \<Longrightarrow> holding k = (k = S_observer) \<and> fresh k = (k = S_observer) \<and> todo own k v = []"
  "push_next k \<Longrightarrow> \<not> holding k"
proof -
  show "pub_next k \<Longrightarrow> \<not> holding k \<and> \<not> fresh k \<and> todo own k v = []" by (cases k rule: pub_next.cases) simp_all
  show "check_next k \<Longrightarrow> holding k = (k = S_dispatch) \<and> fresh k = (k = S_dispatch) \<and> todo own k v = []"
    by (cases k rule: check_next.cases) simp_all
  show "init_next k \<Longrightarrow> holding k = (k = S_observer) \<and> fresh k = (k = S_observer) \<and> todo own k v = []"
    by (cases k rule: init_next.cases) simp_all
  show "push_next k \<Longrightarrow> \<not> holding k" by (cases k rule: push_next.cases) simp_all
qed

definition same_feed :: "source_point \<Rightarrow> source_point \<Rightarrow> bool" where
  "same_feed x y \<longleftrightarrow> holding y = holding x \<and> fresh y = fresh x \<and> (\<forall>own v. todo own y v = todo own x v)"

lemma worker_feed_quiet:
  assumes "shaped (ms_point s)" "\<not> moves_feed (ms_point s)"
  shows "ms_decoders (worker_ms L C E s) = ms_decoders s" "ms_result (worker_ms L C E s) = ms_result s"
    "mh_taken (worker_ms L C E s) = mh_taken s" "ms_dispatched (worker_ms L C E s) = ms_dispatched s"
    "ms_description (worker_ms L C E s) = ms_description s" "ms_local (worker_ms L C E s) = ms_local s"
    "throws (ms_point (worker_ms L C E s)) \<or> same_feed (ms_point s) (ms_point (worker_ms L C E s))"
    "ms_ended (worker_ms L C E s) \<Longrightarrow> ms_ended s \<or> ms_point (worker_ms L C E s) = S_finish"
proof -
  let ?t = "worker_ms L C E s"
  have "ms_decoders ?t = ms_decoders s \<and> ms_result ?t = ms_result s \<and> mh_taken ?t = mh_taken s \<and> ms_dispatched ?t = ms_dispatched s \<and>
    ms_description ?t = ms_description s \<and> ms_local ?t = ms_local s \<and> (ms_ended ?t \<longrightarrow> ms_ended s \<or> ms_point ?t = S_finish)"
    using assms(2)
  proof (cases "ms_point s")
    case (S_acts zs k)
    with assms(2) show ?thesis by (cases zs) (simp_all add: worker_ms_def)
  qed (simp_all add: worker_ms_defs Let_def on_proxy_def split: ms_splits)
  moreover have "throws (ms_point ?t) \<or> same_feed (ms_point s) (ms_point ?t)"
  proof (cases "ms_point s")
    case (S_acts zs k)
    with assms show ?thesis by (cases zs) (auto simp: worker_ms_def same_feed_def next_feed)
  qed (use assms in \<open>simp_all add: worker_ms_defs Let_def same_feed_def next_feed split: ms_splits\<close>)
  ultimately show "ms_decoders ?t = ms_decoders s" "ms_result ?t = ms_result s"
    "mh_taken ?t = mh_taken s" "ms_dispatched ?t = ms_dispatched s"
    "ms_description ?t = ms_description s" "ms_local ?t = ms_local s" "throws (ms_point ?t) \<or> same_feed (ms_point s) (ms_point ?t)"
    "ms_ended ?t \<Longrightarrow> ms_ended s \<or> ms_point ?t = S_finish" by simp_all
qed

lemma exact_prefix: "exact s \<Longrightarrow> ms_decoders s v = Some d \<Longrightarrow> prefix (dh_in d) (fed_to v s)"
  unfolding exact_def by (metis prefixI)

lemma exact_same:
  assumes "exact s" "\<And>v e. ms_decoders t v = Some e \<Longrightarrow> \<exists>d. ms_decoders s v = Some d \<and> dh_in e = dh_in d"
    "ms_dispatched t = ms_dispatched s" "ms_result t = ms_result s" "mh_taken t = mh_taken s" "ms_description t = ms_description s"
    "fresh (ms_point t) = fresh (ms_point s)" "\<And>v. ms_decoders s v \<noteq> None \<Longrightarrow> owed_to t v = owed_to s v"
  shows "exact t"
proof -
  have f: "fed_to v t = fed_to v s" for v by (simp add: fed_to_def video_of_def assms(5,6))
  have "dh_in e @ owed_to t v = fed_to v t" if e: "ms_decoders t v = Some e" for v e
  proof -
    from assms(2) [OF e] obtain d where d: "ms_decoders s v = Some d" "dh_in e = dh_in d" by blast
    with assms(1) have "dh_in d @ owed_to s v = fed_to v s" by (simp add: exact_def)
    with d assms(8) [of v] show ?thesis by (simp add: f)
  qed
  with assms(1) show ?thesis by (simp add: exact_def assms(3-5,7))
qed

lemma cut_here:
  assumes "\<And>v d. ms_decoders s v = Some d \<Longrightarrow> prefix (dh_in d) (fed_to v s)"
    "\<And>v e. ms_decoders t v = Some e \<Longrightarrow> \<exists>d. ms_decoders s v = Some d \<and> dh_in e = dh_in d"
    "mh_taken t = mh_taken s" "ms_description t = ms_description s" "\<not> ms_ended t"
    "leaving (ms_stopping t) (ms_failure t \<noteq> None) (over_dec t) (ms_point t)"
  shows "cut_short t"
proof -
  have "fed_to v t = fed_to v s" for v by (simp add: fed_to_def video_of_def assms(3,4))
  with assms(1,2,5,6) show ?thesis unfolding cut_short_def by fastforce
qed

lemma throws_leaving: "throws x \<Longrightarrow> leaving st f ov x"
  by (cases x) simp_all

lemma owed_same:
  assumes "same_feed (ms_point s) (ms_point t)" "ms_dispatched t = ms_dispatched s" "ms_result t = ms_result s" "ms_description t = ms_description s"
  shows "owed_to t v = owed_to s v"
  using assms by (simp add: owed_to_def same_feed_def video_of_def)

text \<open>On the way out.\<close>

lemma exiting_leaving: "exiting x \<Longrightarrow> leaving st f ov x"
  by (cases x) simp_all

lemma exiting_worker:
  assumes "exiting (ms_point s)" "shaped (ms_point s)" "source_ready s" "phases s"
  shows "exiting (ms_point (worker_ms L C E s))"
proof (cases "plain_point (ms_point s)")
  case True
  from assms(3) have "ms_point s \<noteq> S_none" by (auto simp: source_ready_def)
  with worker_leads [OF assms(2) True this, of L C E] assms(1,4) show ?thesis
    by (simp add: leads_ms_def phases_def)
next
  case False
  with assms(1) obtain z zs k where "ms_point s = S_acts (z # zs) k" "k = S_finish \<or> k = S_report"
    by (cases "ms_point s" rule: plain_point.cases) (simp_all, metis neq_Nil_conv)
  then show ?thesis by (auto simp: worker_act)
qed

lemma leaving_worker:
  assumes "leaving (ms_stopping s) (ms_failure s \<noteq> None) (over_dec s) (ms_point s)" "shaped (ms_point s)" "source_ready s" "phases s"
    "well_grounded s"
  shows "leaving (ms_stopping (worker_ms L C E s)) (ms_failure (worker_ms L C E s) \<noteq> None) (over_dec (worker_ms L C E s)) (ms_point (worker_ms L C E s))"
proof (cases "exiting (ms_point s)")
  case True
  from exiting_leaving [OF exiting_worker [OF this assms(2-4)]] show ?thesis .
next
  case False
  show ?thesis
  proof (cases "ms_point s")
    case (S_check k)
    with assms(1) consider "k = S_swap" "ms_failure s \<noteq> None" | v where "k = S_refused v" "over_dec s v"
      by (cases k) auto
    moreover have "worker_ms L C E s = s\<lparr>ms_point := (case ms_failure s of None \<Rightarrow> k | Some e \<Rightarrow> S_throw e)\<rparr>"
      using S_check by (simp add: worker_ms_def)
    moreover have "over_dec (s\<lparr>ms_point := x\<rparr>) = over_dec s" for x by (simp add: over_dec_def fun_eq_iff)
    ultimately show ?thesis by cases (simp_all split: option.split)
  next
    case (S_refused v)
    with assms(1) obtain d where d: "ms_decoders s v = Some d" "over d" by (auto simp: over_dec_def)
    show ?thesis
    proof (cases "dc_error d")
      case None
      with d have "stopped_dec v s" by (simp add: stopped_dec_def over_def)
      with assms(5) False have "called_off s" by (auto simp: well_grounded_def)
      with S_refused d None show ?thesis by (simp add: worker_ms_def refused_def called_off_def)
    qed (use S_refused d in \<open>simp add: worker_ms_def refused_def\<close>)
  qed (use assms(1) False in \<open>auto simp: worker_ms_def after_turn_def\<close>)
qed

lemma leaving_points: "leaving st f ov x \<Longrightarrow> \<not> moves_feed x \<or> (\<exists>z zs k. x = S_acts (z # zs) k)"
  by (cases x rule: moves_feed.cases) (auto)

lemma act_in: "ms_decoders (snd (do_action z s)) v = Some e \<Longrightarrow> \<exists>d. ms_decoders s v = Some d \<and> dh_in e = dh_in d"
  using act_still [of s z] unfolding still_def
  by (metis dec_still_def option_rel_Some2)

lemma cut_short_worker:
  assumes "cut_short s" "shaped (ms_point s)" "source_ready s" "phases s" "well_grounded s"
  shows "cut_short (worker_ms L C E s)"
proof -
  let ?t = "worker_ms L C E s"
  from assms(1) have l: "leaving (ms_stopping s) (ms_failure s \<noteq> None) (over_dec s) (ms_point s)" and e: "\<not> ms_ended s"
    and p: "\<And>v d. ms_decoders s v = Some d \<Longrightarrow> prefix (dh_in d) (fed_to v s)" by (simp_all add: cut_short_def)
  note lt = leaving_worker [OF l assms(2-5), of L C E]
  consider z zs k where "ms_point s = S_acts (z # zs) k" | "\<not> moves_feed (ms_point s)" using leaving_points [OF l] by blast
  then show ?thesis
  proof cases
    case 1
    show ?thesis
      by (rule cut_here [OF p _ _ _ _ lt]) (use e in \<open>auto simp: worker_act [OF 1] dest: act_in\<close>)
  next
    case 2
    have "ms_point s \<noteq> S_drained" using l by auto
    then have "\<not> ms_ended ?t" using e 2
    proof (cases "ms_point s")
      case (S_acts zs k)
      with 2 e show ?thesis by (cases zs) (simp_all add: worker_ms_def)
    qed (simp_all add: worker_ms_defs Let_def on_proxy_def split: ms_splits)
    then show ?thesis
      by (intro cut_here [OF p _ _ _ _ lt]) (simp_all add: worker_feed_quiet [OF assms(2) 2])
  qed
qed

text \<open>One submission after the other.\<close>

lemma todo_submit: "todo own (submit_all_ms i (present ds) k) v = (if ds v \<noteq> None then [i] else []) @ todo own k v"
  by (cases v) (auto simp: submit_all_ms_def present_cases)

lemma submit_holding [simp]: "\<not> holding k \<Longrightarrow> \<not> holding (submit_all_ms i vs k)" "fresh (submit_all_ms i vs k) = fresh k"
  by (induction vs) (simp_all add: submit_all_ms_def)

lemma refusing_over: "Push_dec True i d = (Inr False, e) \<Longrightarrow> over d \<and> e = d"
  by (auto simp: Push_dec_def act_defs over_def split: if_splits)

lemma Push_dec_in: "Push_dec True i d = (r, e) \<Longrightarrow> dh_in e = dh_in d"
  by (auto simp: Push_dec_def act_defs split: if_splits)

lemma push_queue_in:
  "dc_producer (push_queue i d) = U_idle \<Longrightarrow> bq.closed (dc_packets d) \<and> dh_in (push_queue i d) = dh_in d"
  "dc_producer (push_queue i d) \<noteq> U_idle \<Longrightarrow> dh_in (push_queue i d) = dh_in d @ [i]"
  "over (push_queue i d) = over d"
  by (auto simp: push_queue_def push_body_def accepted_by_def over_def split: if_splits)

lemma exact_throw:
  assumes "exact s" "\<not> ms_ended s" "worker_ms L C E s = s\<lparr>ms_point := S_throw e\<rparr>"
  shows "cut_short (worker_ms L C E s)"
  by (rule cut_here [OF exact_prefix [OF assms(1)]]) (simp_all add: assms(2,3))

lemma exact_push:
  assumes "ms_point s = S_push v i k" "exact s" "\<not> ms_ended s" "shaped (ms_point s)"
  shows "exact (worker_ms L C E s) \<or> cut_short (worker_ms L C E s)"
proof (cases "ms_decoders s v")
  case None
  with assms(1) have "worker_ms L C E s = s\<lparr>ms_point := S_throw Undefined_behaviour\<rparr>" by (simp add: worker_ms_def begin_push_def)
  from exact_throw [OF assms(2,3) this] show ?thesis ..
next
  case (Some d)
  obtain r d' where r: "Push_dec True i d = (r, d')" by fastforce
  from assms(1,4) have k: "\<not> holding k" by (simp add: next_feed)
  show ?thesis
  proof (cases r)
    case (Inl e)
    with assms(1) Some r have "worker_ms L C E s = s\<lparr>ms_point := S_throw e\<rparr>" by (simp add: worker_ms_def begin_push_def)
    from exact_throw [OF assms(2,3) this] show ?thesis ..
  next
    case (Inr ok)
    have t: "worker_ms L C E s = s\<lparr>ms_decoders := (ms_decoders s)(v := Some d'), ms_point := (if ok then S_queue v i k else S_check (S_refused v))\<rparr>"
      using assms(1) Some r Inr by (simp add: worker_ms_def begin_push_def)
    have old: "\<exists>d. ms_decoders s w = Some d \<and> dh_in e = dh_in d" if "ms_decoders (worker_ms L C E s) w = Some e" for w e
      using that Some Push_dec_in [OF r] by (auto simp: t split: if_splits)
    show ?thesis
    proof (cases ok)
      case True
      have "exact (worker_ms L C E s)"
        by (rule exact_same [OF assms(2) old]) (use True assms(1) in \<open>simp_all add: t owed_to_def video_of_def\<close>)
      then show ?thesis ..
    next
      case False
      with r Inr refusing_over [of i d d'] have "over d" "d' = d" by simp_all
      then have "over_dec (worker_ms L C E s) v" by (simp add: t over_dec_def)
      then have "cut_short (worker_ms L C E s)"
        by (intro cut_here [OF exact_prefix [OF assms(2)] old]) (use False assms(3) in \<open>simp_all add: t\<close>)
      then show ?thesis ..
    qed
  qed
qed

lemma exact_queue:
  assumes "ms_point s = S_queue v i k" "exact s" "\<not> ms_ended s" "shaped (ms_point s)" "decoders_run L C s"
  shows "exact (worker_ms L C E s) \<or> cut_short (worker_ms L C E s)"
proof (cases "ms_decoders s v")
  case None
  then have "ms_decoders (on_decoder v (push_queue i) s) = ms_decoders s" by (simp add: fun_upd_idem)
  with assms(1) None have t: "ms_decoders (worker_ms L C E s) = ms_decoders s" "ms_point (worker_ms L C E s) = S_throw Undefined_behaviour"
    "mh_taken (worker_ms L C E s) = mh_taken s" "ms_description (worker_ms L C E s) = ms_description s" "ms_ended (worker_ms L C E s) = ms_ended s"
    by (simp_all add: worker_ms_def queue_push_def on_decoder_def)
  have "cut_short (worker_ms L C E s)"
    by (rule cut_here [OF exact_prefix [OF assms(2)]]) (simp_all add: t assms(3))
  then show ?thesis ..
next
  case (Some d)
  let ?e = "push_queue i d"
  from assms(1,4) have k: "\<not> holding k" by (simp add: next_feed)
  have t: "worker_ms L C E s = s\<lparr>ms_decoders := (ms_decoders s)(v := Some ?e),
      ms_point := (if dc_producer ?e = U_idle then S_check (S_refused v) else S_mark v i k)\<rparr>"
    using assms(1) Some by (simp add: worker_ms_def queue_push_def on_decoder_def)
  show ?thesis
  proof (cases "dc_producer ?e = U_idle")
    case True
    from push_queue_in(1) [OF True] have c: "bq.closed (dc_packets d)" "dh_in ?e = dh_in d" by simp_all
    from assms(5) Some have "decoder_runs L C d" by (auto simp: decoders_run_def)
    with c(1) decoder_runs_inv [of L C d] have "over d" by (simp add: dec_inv_def reasons_def)
    then have "over_dec (worker_ms L C E s) v" by (simp add: t over_dec_def push_queue_in)
    then have "cut_short (worker_ms L C E s)"
      using True assms(3) c(2) Some by (intro cut_here [OF exact_prefix [OF assms(2)]]) (auto simp: t split: if_splits)
    then show ?thesis ..
  next
    case False
    have f: "fed_to w (worker_ms L C E s) = fed_to w s" for w by (simp add: t fed_to_def video_of_def)
    have "dh_in e @ owed_to (worker_ms L C E s) w = fed_to w s" if "ms_decoders (worker_ms L C E s) w = Some e" for w e
    proof (cases "w = v")
      case True
      with that have e: "e = ?e" by (simp add: t)
      have "dh_in d @ owed_to s v = fed_to v s" using assms(2) Some by (simp add: exact_def)
      then show ?thesis using True False push_queue_in(2) [OF False] k
        by (simp add: e owed_to_def t assms(1) video_of_def)
    next
      case other: False
      with that have "ms_decoders s w = Some e" by (simp add: t)
      then have "dh_in e @ owed_to s w = fed_to w s" using assms(2) by (simp add: exact_def)
      then show ?thesis using other False k by (simp add: owed_to_def t assms(1) video_of_def)
    qed
    then have "exact (worker_ms L C E s)"
      using assms(2) False unfolding exact_def f by (simp add: t assms(1))
    then show ?thesis ..
  qed
qed

lemma exact_dispatch:
  assumes "ms_point s = S_dispatch" "exact s" "\<not> ms_ended s"
  shows "exact (worker_ms L C E s) \<or> cut_short (worker_ms L C E s)"
proof (cases "ms_stopping s")
  case True
  then have "worker_ms L C E s = s\<lparr>ms_point := S_turn False\<rparr>" by (simp add: worker_ms_def dispatch_def assms(1))
  then have "cut_short (worker_ms L C E s)"
    using True assms(3) by (intro cut_here [OF exact_prefix [OF assms(2)]]) simp_all
  then show ?thesis ..
next
  case False
  let ?r = "ms_dispatched s \<noteq> None \<and> ms_dispatched s \<noteq> map_option fst (snd (ms_result s))"
  have t: "worker_ms L C E s =
      s\<lparr>ms_point := (if ?r then submit_all_ms In_reset (present (ms_decoders s)) S_described else S_described)\<rparr>"
    using False by (simp add: worker_ms_def dispatch_def assms(1))
  have "exact (worker_ms L C E s)"
    by (rule exact_same [OF assms(2)]) (auto simp: t assms(1) owed_to_def video_of_def todo_submit renewal_def)
  then show ?thesis ..
qed

lemma exact_described:
  assumes "ms_point s = S_described" "exact s" "\<not> ms_ended s"
  shows "exact (worker_ms L C E s) \<or> cut_short (worker_ms L C E s)"
proof -
  let ?t = "worker_ms L C E s"
  have t: "ms_decoders ?t = ms_decoders s" "ms_result ?t = ms_result s" "mh_taken ?t = mh_taken s" "ms_description ?t = ms_description s"
    "ms_ended ?t = ms_ended s" "ms_dispatched ?t = map_option fst (snd (ms_result s))"
    by (simp_all add: worker_ms_def submit_result_def Let_def assms(1) split: read_answer.split option.split sum.split)
  have p: "throws (ms_point ?t) \<or> \<not> fresh (ms_point ?t) \<and> \<not> holding (ms_point ?t) \<and>
      (\<forall>v. ms_decoders s v \<noteq> None \<longrightarrow> todo own (ms_point ?t) v = own_part v (video_of s) (fst (ms_result s)))" for own
  proof (cases "fst (ms_result s)")
    case (R_packet q)
    let ?s = "s\<lparr>ms_dispatched := map_option fst (snd (ms_result s))\<rparr>"
    have w: "packet_track q ?s = (pk_stream q = video_of s)" by (simp add: packet_track_def video_of_def)
    show ?thesis
    proof (cases "ms_decoders s (packet_track q ?s)")
      case None
      then show ?thesis by (simp add: worker_ms_def assms(1) submit_result_def Let_def R_packet)
    next
      case (Some d)
      show ?thesis
      proof (cases "PushPacket_check (Some q) d")
        case (Inl e)
        with Some show ?thesis by (simp add: worker_ms_def assms(1) submit_result_def Let_def R_packet)
      next
        case (Inr i)
        then have "i = In_packet q" by (auto simp: PushPacket_check_def split: if_splits)
        with Inr Some have "ms_point ?t = S_push (packet_track q ?s) (In_packet q) (S_turn True)"
          by (simp add: worker_ms_def assms(1) submit_result_def Let_def R_packet)
        then show ?thesis by (auto simp: w R_packet)
      qed
    qed
  qed (simp_all add: worker_ms_def assms(1) submit_result_def Let_def todo_submit)
  show ?thesis
  proof (cases "throws (ms_point ?t)")
    case True
    have "cut_short ?t"
      by (rule cut_here [OF exact_prefix [OF assms(2)]]) (simp_all add: t assms(3) throws_leaving [OF True])
    then show ?thesis ..
  next
    case False
    have f: "fed_to v ?t = fed_to v s" for v by (simp add: t fed_to_def video_of_def)
    have l: "mh_taken s \<noteq> []" "last (mh_taken s) = ms_result s" using assms(1,2) by (simp_all add: exact_def)
    obtain x d where x: "ms_result s = (x, d)" by fastforce
    have "mh_taken s = butlast (mh_taken s) @ [(x, d)]" using l x append_butlast_last_id by metis
    then have fl: "feed_last None (mh_taken s) = map_option fst d" by (metis feed_snoc(2))
    have "owed_to ?t v = owed_to s v" if "ms_decoders s v \<noteq> None" for v
      using p [of "own_part v (video_of ?t) (fst (ms_result ?t))"] False that by (simp add: owed_to_def assms(1))
    then have "dh_in d @ owed_to ?t v = fed_to v s" if "ms_decoders s v = Some d" for v d
      using assms(2) that by (simp add: exact_def)
    with False p have "exact ?t"
      unfolding exact_def f t(1,3,6) by (simp add: fl x)
    then show ?thesis ..
  qed
qed

lemma make_session_some:
  assumes "make_session C created c info = Inr ds"
  shows "ds \<noteq> (\<lambda>_. None)"
proof -
  from assms obtain video audio where "\<not> (video = None \<and> audio = None)" "ds = (\<lambda>v. if v then video else audio)"
    by (auto simp: make_session_def chain_def split: sum.splits if_splits)
  then have "ds True \<noteq> None \<or> ds False \<noteq> None" by auto
  then show ?thesis by auto
qed

lemma exact_init:
  assumes "ms_point s = S_init d k" "\<not> ms_local s" "shaped (ms_point s)" "waits s"
  shows "(ms_decoders (worker_ms L C E s) = ms_decoders s \<and> \<not> ms_local (worker_ms L C E s) \<and> throws (ms_point (worker_ms L C E s)) \<and>
      ms_ended (worker_ms L C E s) = ms_ended s) \<or>
    exact (worker_ms L C E s) \<and> ms_decoders (worker_ms L C E s) \<noteq> (\<lambda>_. None) \<and> ms_ended (worker_ms L C E s) = ms_ended s"
proof (cases d)
  case (Some y)
  obtain i info where y: "y = (i, info)" by fastforce
  show ?thesis
  proof (cases "make_session C (en_decoder E) (ms_config s) info")
    case (Inr ds)
    have t: "worker_ms L C E s = s\<lparr>ms_decoders := ds, ms_description := info, ms_dispatched := None, ms_local := True, ms_point := S_session k\<rparr>"
      using assms(1,2) Some y Inr by (simp add: worker_ms_def Initialize_ms_def)
    from assms(1,4) have w: "if k = S_observer then mh_taken s = [ms_result s] else mh_taken s = []"
      by (simp add: waits_def split: if_splits)
    obtain x e where x: "ms_result s = (x, e)" by fastforce
    have "dh_in d = []" if "ds v = Some d" for v d
      by (rule make_session_fresh(2) [OF Inr that])
    moreover have "owed_to (worker_ms L C E s) v = fed_to v (worker_ms L C E s)" for v
      using w by (simp add: t owed_to_def fed_to_def video_of_def x renewal_def split: if_splits)
    ultimately have "exact (worker_ms L C E s)"
      using w by (simp add: exact_def t split: if_splits)
    with make_session_some [OF Inr] show ?thesis by (simp add: t)
  qed (use assms Some y in \<open>simp add: worker_ms_def Initialize_ms_def\<close>)
qed (use assms in \<open>simp add: worker_ms_def Initialize_ms_def\<close>)

lemma exact_reading:
  assumes "ms_point s = S_reading" "exact s"
  shows "exact (worker_ms L C E s)"
proof (cases "read_outcome (ms_proxy s)")
  case None
  then have "worker_ms L C E s = on_proxy consume_px s" by (simp add: worker_ms_def read_proxy_def assms(1))
  then show ?thesis
    by (intro exact_same [OF assms(2)]) (simp_all add: on_proxy_def owed_to_def video_of_def assms(1))
next
  case (Some r)
  obtain x d where r: "r = (x, d)" by fastforce
  show ?thesis
  proof (cases "x = R_null")
    case True
    then have "worker_ms L C E s = (on_proxy consume_px s)\<lparr>ms_point := S_turn False\<rparr>"
      using Some r by (simp add: worker_ms_def read_proxy_def assms(1))
    then show ?thesis
      by (intro exact_same [OF assms(2)]) (simp_all add: on_proxy_def owed_to_def video_of_def assms(1))
  next
    case False
    then have t: "worker_ms L C E s = (on_proxy consume_px s)\<lparr>ms_result := (x, d), mh_taken := mh_taken s @ [(x, d)],
        ms_point := S_init d S_observer\<rparr>"
      using Some r by (simp add: worker_ms_def read_proxy_def assms(1))
    have e: "ms_dispatched s = feed_last None (mh_taken s)" "\<And>v d. ms_decoders s v = Some d \<Longrightarrow> dh_in d = fed_to v s"
      using assms by (auto simp: exact_def owed_to_def)
    have "fed_to v (worker_ms L C E s) = fed_to v s @ renewal (feed_last None (mh_taken s)) (map_option fst d) @ own_part v (video_of s) x" for v
      by (simp add: t fed_to_def video_of_def on_proxy_def feed_snoc)
    with e show ?thesis
      by (simp add: exact_def t owed_to_def video_of_def on_proxy_def)
  qed
qed

lemma exact_mark:
  assumes "ms_point s = S_mark v i k" "exact s" "shaped (ms_point s)"
  shows "exact (worker_ms L C E s)"
proof -
  from assms(1,3) have k: "\<not> holding k" by (simp add: next_feed)
  have t: "worker_ms L C E s = on_decoder v (push_mark i) (s\<lparr>ms_point := k\<rparr>)" by (simp add: worker_ms_def assms(1))
  show ?thesis
    by (rule exact_same [OF assms(2)])
      (use k in \<open>auto simp: t on_decoder_def owed_to_def video_of_def assms(1) push_mark_def split: if_splits\<close>)
qed

lemma exact_acts:
  assumes "ms_point s = S_acts (z # zs) k" "exact s"
  shows "exact (worker_ms L C E s)"
  by (rule exact_same [OF assms(2)])
    (auto simp: worker_act [OF assms(1)] assms(1) owed_to_def video_of_def dest: act_in)

lemma worker_ended:
  assumes "ms_ended (worker_ms L C E s)" "ms_point s \<noteq> S_drained"
  shows "ms_ended s"
  using assms
proof (cases "ms_point s")
  case (S_acts zs k)
  with assms show ?thesis by (cases zs) (simp_all add: worker_act, simp add: worker_ms_def)
qed (simp_all add: worker_ms_defs Let_def on_proxy_def on_decoder_def split: ms_splits if_splits)

lemma exact_worker:
  assumes "exact s" "ms_decoders s \<noteq> (\<lambda>_. None)" "ms_ended s \<Longrightarrow> exiting (ms_point s)" "shaped (ms_point s)" "phases s" "source_ready s"
    "decoders_run L C s"
  shows "exact (worker_ms L C E s) \<or> cut_short (worker_ms L C E s)"
proof (cases "moves_feed (ms_point s)")
  case False
  note q = worker_feed_quiet [OF assms(4) False, of L C E]
  show ?thesis
  proof (cases "throws (ms_point (worker_ms L C E s))")
    case True
    show ?thesis
    proof (cases "ms_point s = S_drained \<or> exiting (ms_point s)")
      case False
      then have "\<not> ms_ended (worker_ms L C E s)" using assms(3) worker_ended by blast
      then have "cut_short (worker_ms L C E s)"
        by (intro cut_here [OF exact_prefix [OF assms(1)]]) (simp_all add: q throws_leaving [OF True])
      then show ?thesis ..
    next
      case exiting: True
      have "\<not> throws (ms_point (worker_ms L C E s))"
        using exiting assms(4) False
        by (cases "ms_point s" rule: exiting.cases) (auto simp: worker_ms_defs Let_def split: if_splits list.splits)
      with True show ?thesis by simp
    qed
  next
    case throws: False
    with q(7) have "same_feed (ms_point s) (ms_point (worker_ms L C E s))" by simp
    from owed_same [OF this q(4,2,5)] this show ?thesis
      by (intro disjI1 exact_same [OF assms(1)]) (simp_all add: q same_feed_def)
  qed
next
  case True
  have e: "\<not> exiting (ms_point s) \<Longrightarrow> \<not> ms_ended s" using assms(3) by blast
  from True show ?thesis
  proof (cases "ms_point s" rule: moves_feed.cases)
    case (1 v i k)
    with e exact_push [OF 1 assms(1) _ assms(4)] show ?thesis by simp
  next
    case (2 v i k)
    with e exact_queue [OF 2 assms(1) _ assms(4,7)] show ?thesis by simp
  next
    case (3 v i k)
    from exact_mark [OF 3 assms(1,4)] show ?thesis ..
  next
    case (4 d k)
    with assms(2,5) have l: "ms_local s" by (auto simp: phases_def no_stops_def)
    have "\<exists>e. worker_ms L C E s = s\<lparr>ms_point := S_throw e\<rparr> \<or> worker_ms L C E s = s\<lparr>ms_point := k\<rparr>"
      using 4 l by (auto simp: worker_ms_def Initialize_ms_def split: option.split sum.split)
    then consider x where "worker_ms L C E s = s\<lparr>ms_point := S_throw x\<rparr>" | "worker_ms L C E s = s\<lparr>ms_point := k\<rparr>" by blast
    then show ?thesis
    proof cases
      case 1
      with exact_throw [OF assms(1)] e 4 show ?thesis by simp
    next
      case 2
      from 4 assms(4) next_feed(3) [of k] have "exact (worker_ms L C E s)"
        by (intro exact_same [OF assms(1)]) (simp_all add: 2 owed_to_def video_of_def)
      then show ?thesis ..
    qed
  next
    case 5
    with e exact_described [OF 5 assms(1)] show ?thesis by simp
  next
    case 6
    with e exact_dispatch [OF 6 assms(1)] show ?thesis by simp
  next
    case 7
    from exact_reading [OF 7 assms(1)] show ?thesis ..
  next
    case (8 z zs k)
    from exact_acts [OF 8 assms(1)] show ?thesis ..
  qed simp_all
qed

lemma worker_decoders_none:
  assumes "ms_decoders s = (\<lambda>_. None)" "\<And>d k. ms_point s \<noteq> S_init d k"
  shows "ms_decoders (worker_ms L C E s) = (\<lambda>_. None)" "ms_local (worker_ms L C E s) \<Longrightarrow> ms_local s"
proof -
  have "ms_decoders (worker_ms L C E s) = (\<lambda>_. None) \<and> (ms_local (worker_ms L C E s) \<longrightarrow> ms_local s)"
  proof (cases "ms_point s")
    case (S_acts zs k)
    then show ?thesis
      by (cases zs) (auto simp: worker_act act_no_decoders act_session assms(1), simp_all add: worker_ms_def assms(1))
  qed (use assms in \<open>auto simp: worker_ms_defs Let_def on_proxy_def on_decoder_def split: ms_splits\<close>)
  then show "ms_decoders (worker_ms L C E s) = (\<lambda>_. None)" "ms_local (worker_ms L C E s) \<Longrightarrow> ms_local s" by simp_all
qed

lemma worker_decoders_some:
  assumes "ms_decoders s \<noteq> (\<lambda>_. None)" "phases s"
  shows "ms_decoders (worker_ms L C E s) \<noteq> (\<lambda>_. None)"
proof -
  have "ms_decoders (worker_ms L C E s) v = None \<longleftrightarrow> ms_decoders s v = None" for v
  proof (cases "(\<exists>d k. ms_point s = S_init d k) \<or> (\<exists>z zs k. ms_point s = S_acts (z # zs) k)")
    case True
    then consider d k where "ms_point s = S_init d k" | z zs k where "ms_point s = S_acts (z # zs) k" by blast
    then show ?thesis
    proof cases
      case 1
      with assms have "ms_local s" by (auto simp: phases_def no_stops_def)
      with 1 show ?thesis by (simp add: worker_ms_def Initialize_ms_def split: option.split sum.split)
    qed (simp add: worker_act act_none)
  next
    case False
    then show ?thesis by (simp add: worker_stopped)
  qed
  with assms(1) show ?thesis by (auto simp: fun_eq_iff)
qed

lemma waits_worker:
  assumes "waits s" "ms_decoders s = (\<lambda>_. None)" "shaped (ms_point s)" "\<And>d k. ms_point s \<noteq> S_init d k"
  shows "exiting (ms_point (worker_ms L C E s)) \<or> waits (worker_ms L C E s)"
proof -
  from assms(1,4) have f: "\<not> fresh (ms_point s)" "mh_taken s = []" by (auto simp: waits_def split: if_splits)
  show ?thesis
  proof (cases "moves_feed (ms_point s)")
    case False
    note q = worker_feed_quiet [OF assms(3) False, of L C E]
    from q(7) show ?thesis
    proof
      assume "throws (ms_point (worker_ms L C E s))"
      then show ?thesis by (cases "ms_point (worker_ms L C E s)") simp_all
    next
      assume "same_feed (ms_point s) (ms_point (worker_ms L C E s))"
      with f show ?thesis by (simp add: waits_def q same_feed_def)
    qed
  next
    case True
    then show ?thesis
    proof (cases "ms_point s" rule: moves_feed.cases)
      case (1 v i k)
      with assms(2) show ?thesis by (simp add: worker_ms_def begin_push_def)
    next
      case (2 v i k)
      with assms(2) show ?thesis by (simp add: worker_ms_def queue_push_def)
    next
      case (3 v i k)
      with f assms(3) show ?thesis by (simp add: worker_ms_def waits_def on_decoder_def)
    next
      case 7
      show ?thesis
      proof (cases "read_outcome (ms_proxy s)")
        case None
        with f 7 show ?thesis by (simp add: worker_ms_def read_proxy_def waits_def on_proxy_def)
      next
        case (Some r)
        with f 7 show ?thesis by (cases r) (simp add: worker_ms_def read_proxy_def waits_def on_proxy_def Let_def)
      qed
    next
      case (8 z zs k)
      with f assms(3) show ?thesis by (auto simp: worker_act waits_def)
    qed (use f assms(4) in simp_all)
  qed
qed

lemma fed_worker:
  assumes "fed s" "shaped (ms_point s)" "phases s" "source_ready s" "decoders_run L C s" "well_grounded s"
  shows "fed (worker_ms L C E s)"
proof -
  let ?t = "worker_ms L C E s"
  from assms(1) have l: "ms_local s \<Longrightarrow> ms_decoders s \<noteq> (\<lambda>_. None)" and e: "ms_ended s \<Longrightarrow> exiting (ms_point s)"
    by (simp_all add: fed_def)
  have et: "exiting (ms_point ?t)" if "ms_ended ?t"
  proof (cases "ms_point s = S_drained")
    case True
    with that e show ?thesis by (auto simp: worker_ms_def split: if_splits)
  next
    case False
    with that e worker_ended have "exiting (ms_point s)" by blast
    from exiting_worker [OF this assms(2,4,3)] show ?thesis .
  qed
  show ?thesis
  proof (cases "ms_decoders s = (\<lambda>_. None)")
    case none: True
    with l have nl: "\<not> ms_local s" by blast
    show ?thesis
    proof (cases "\<exists>d k. ms_point s = S_init d k")
      case True
      then obtain d k where p: "ms_point s = S_init d k" by blast
      with assms(1) none have "waits s" by (simp add: fed_def)
      from exact_init [OF p nl assms(2) this, of L C E] et none show ?thesis
        by (elim disjE) (auto simp: fed_def elim: throws.elims)
    next
      case False
      note d = worker_decoders_none [OF none, of L C E]
      have "exiting (ms_point ?t) \<or> waits ?t"
      proof (cases "exiting (ms_point s)")
        case True
        from exiting_worker [OF this assms(2,4,3)] show ?thesis ..
      next
        case exiting: False
        with assms(1) none have "waits s" by (simp add: fed_def)
        from waits_worker [OF this none assms(2)] False show ?thesis by blast
      qed
      with d False nl et show ?thesis by (auto simp: fed_def)
    qed
  next
    case False
    with assms(1) have f: "exact s \<or> cut_short s" by (simp add: fed_def)
    have "exact ?t \<or> cut_short ?t"
      using f exact_worker [OF _ False e assms(2-5)] cut_short_worker [OF _ assms(2,4,3,6)] by blast
    moreover have "ms_decoders ?t \<noteq> (\<lambda>_. None)"
      using worker_decoders_some [OF False assms(3)] .
    ultimately show ?thesis using et by (simp add: fed_def)
  qed
qed

section \<open>All steps\<close>

lemma fed_step:
  assumes "sourcing L C D s t" "source_inv L C D s" "well_grounded s" "fed s"
  shows "fed t"
proof -
  from assms(2) have h: "shaped (ms_point s)" "phases s" "lists_ok s" "decoders_run L C s"
    by (simp_all add: source_inv_def)
  from assms(1) show ?thesis
  proof (cases rule: sourcing_cases)
    case (worker E)
    from fed_worker [OF assms(4) h(1,2) worker(1) h(4) assms(3), of E] show ?thesis by (simp add: worker(2))
  next
    case other
    from fed_other [OF other h(3) assms(4)] show ?thesis .
  next
    case join
    have p: "owed_to t v = owed_to s v" "fed_to v t = fed_to v s" for v using join by (simp_all add: owed_to_def fed_to_def video_of_def join_ms_def)
    have "exact s \<Longrightarrow> exact t" unfolding exact_def p using join by (simp add: join_ms_def)
    moreover have "cut_short s \<Longrightarrow> cut_short t" unfolding cut_short_def p using join by (simp add: join_ms_def)
    ultimately show ?thesis using assms(4) join by (auto simp: fed_def join_ms_def)
  next
    case (start created url)
    show ?thesis
    proof (cases rule: Start_ms_cases [of created url s])
      case same
      with assms(4) start(2) show ?thesis by simp
    next
      case reset
      with h(2) have p: "ms_point s = S_none" "\<not> ms_local s" by (auto simp: phases_def)
      show ?thesis
        by (cases created) (use reset p in \<open>simp_all add: fed_def start(2) waits_def\<close>)
    qed
  qed
qed

lemma source_runs_fed:
  assumes "source_runs L C D t"
  shows "fed t"
proof -
  from assms obtain c s where s: "AvMediaSource_new c = Inr s" "(sourcing L C D)\<^sup>*\<^sup>* s t" by (auto simp: source_runs_def)
  from s(2) have "source_runs L C D t \<and> fed t"
  proof induction
    case base
    have "ms_point s = S_none" "ms_decoders s = (\<lambda>_. None)" "\<not> ms_local s" "\<not> ms_ended s"
      using s(1) by (auto simp: AvMediaSource_new_def chain_def split: sum.splits)
    then have "fed s" by (simp add: fed_def)
    moreover have "source_runs L C D s" using s(1) unfolding source_runs_def by blast
    ultimately show ?case by simp
  next
    case (step t u)
    then have r: "source_runs L C D t" "fed t" by simp_all
    have "source_runs L C D u" using r(1) step(2) unfolding source_runs_def by (metis rtranclp.rtrancl_into_rtrancl)
    with fed_step [OF step(2) source_runs_inv [OF r(1)] _ r(2)] source_runs_stops [OF r(1)] show ?case by simp
  qed
  then show ?thesis ..
qed

end
