(* ===== verification/Source_End.thy ===== *)
theory Source_End
  imports Source_Feed
begin

text \<open>
  How a run of a source ends: what it takes to end, and the states it publishes on the way.
\<close>

section \<open>The last end of file\<close>

fun submits :: "source_point \<Rightarrow> bool" where
  "submits S_submitted = True"
| "submits (S_push v i k) = submits k"
| "submits (S_queue v i k) = submits k"
| "submits (S_mark v i k) = submits k"
| "submits _ = False"

definition ends_taken :: "('d, 'c) source \<Rightarrow> bool" where
  "ends_taken s \<longleftrightarrow> mh_taken s \<noteq> [] \<and> (\<forall>p. fst (last (mh_taken s)) \<noteq> R_packet p)"

definition finals :: "('d, 'c) source \<Rightarrow> bool" where
  "finals s \<longleftrightarrow> (ms_final s \<or> submits (ms_point s) \<longrightarrow> ends_taken s) \<and>
     (ms_final s \<longrightarrow> ms_point s \<noteq> S_read \<and> ms_point s \<noteq> S_reading)"

lemma next_submits:
  "pub_next k \<Longrightarrow> \<not> submits k" "check_next k \<Longrightarrow> \<not> submits k" "init_next k \<Longrightarrow> \<not> submits k" "exiting x \<Longrightarrow> \<not> submits x"
proof -
  show "pub_next k \<Longrightarrow> \<not> submits k" by (cases k rule: pub_next.cases) simp_all
  show "check_next k \<Longrightarrow> \<not> submits k" by (cases k rule: check_next.cases) simp_all
  show "init_next k \<Longrightarrow> \<not> submits k" by (cases k rule: init_next.cases) simp_all
  show "exiting x \<Longrightarrow> \<not> submits x" by (cases x) simp_all
qed

lemma next_not_read:
  "pub_next k \<Longrightarrow> k \<noteq> S_read" "check_next k \<Longrightarrow> k \<noteq> S_read" "init_next k \<Longrightarrow> k \<noteq> S_read" "push_next k \<Longrightarrow> k \<noteq> S_read"
  by auto

lemma submit_submits [simp]: "submits (submit_all_ms i vs k) = submits k" "k \<noteq> S_read \<Longrightarrow> submit_all_ms i vs k \<noteq> S_read"
  by (induction vs) (simp_all add: submit_all_ms_def)

lemma described_exact:
  assumes "fed s" "ms_point s = S_described"
  shows "mh_taken s \<noteq> [] \<and> last (mh_taken s) = ms_result s"
  using assms by (auto simp: fed_def waits_def exact_def cut_short_def split: if_splits)

lemma finals_worker:
  assumes "finals s" "fed s" "shaped (ms_point s)"
  shows "finals (worker_ms L C E s)"
proof (cases "ms_point s")
  case S_reading
  with assms(1) have "\<not> ms_final s" by (simp add: finals_def)
  with S_reading assms(1) show ?thesis
    by (auto simp: finals_def worker_ms_def read_proxy_def on_proxy_def Let_def split: option.split prod.split)
next
  case S_described
  with described_exact [OF assms(2)] assms(1) show ?thesis
    by (auto simp: finals_def ends_taken_def worker_ms_def submit_result_def Let_def
        split: read_answer.split option.split sum.split prod.splits)
next
  case (S_acts zs k)
  with assms(1,3) show ?thesis
    by (cases zs) (auto simp: worker_act finals_def ends_taken_def next_submits next_not_read, auto simp: worker_ms_def next_submits next_not_read dest: init_next_calm)
next
  case S_submitted
  with assms(1) show ?thesis by (simp add: worker_ms_def finals_def ends_taken_def)
qed (use assms(1,3) in \<open>simp_all add: finals_def ends_taken_def worker_ms_def Publish_ms_def Initialize_ms_def publish_session_def
    process_event_def dispatch_def begin_push_def queue_push_def refused_def after_turn_def Let_def on_proxy_def on_decoder_def
    next_submits next_not_read pub_next_not check_next_not push_next_not init_next_calm split: ms_splits\<close>)

text \<open>An end of stream a consumer has seen has been read from the decoder of its track.\<close>

definition eof_read :: "bool \<Rightarrow> ('d, 'c) source \<Rightarrow> bool" where
  "eof_read v s \<longleftrightarrow> (\<exists>d. ms_decoders s v = Some d \<and> KEof \<in> rr_status ` set (dh_read d))"

definition eofs_ok :: "('d, 'c) source \<Rightarrow> bool" where
  "eofs_ok s \<longleftrightarrow> (\<forall>v. ms_eofs s v \<or> ms_readers s v = G_mark \<longrightarrow> eof_read v s)"

lemma eof_read_moves:
  assumes "dec_moves L C s t" "eof_read v s"
  shows "eof_read v t"
proof -
  from assms(2) obtain d where d: "ms_decoders s v = Some d" "KEof \<in> rr_status ` set (dh_read d)" by (auto simp: eof_read_def)
  from assms(1) have "rel_option (\<lambda>d d'. d' = d \<or> decoding L C d d') (ms_decoders s v) (ms_decoders t v)"
    by (simp add: dec_moves_def)
  with d(1) obtain e where e: "ms_decoders t v = Some e" "e = d \<or> decoding L C d e" by (auto simp: option_rel_Some1)
  from e(2) have "prefix (dh_read d) (dh_read e)" using decoding_grows [of L C d e] by (auto simp: dec_grows_def)
  then have "set (dh_read d) \<subseteq> set (dh_read e)" by (rule set_mono_prefix)
  with d(2) e(1) show ?thesis by (auto simp: eof_read_def)
qed

lemma eofs_moves:
  assumes "eofs_ok s" "dec_moves L C s t" "ms_eofs t = ms_eofs s" "\<And>v. ms_readers t v = G_mark \<Longrightarrow> ms_readers s v = G_mark"
  shows "eofs_ok t"
  using assms eof_read_moves [OF assms(2)] unfolding eofs_ok_def by auto

lemma worker_eofs: "ms_eofs (worker_ms L C E s) = ms_eofs s" "ms_readers (worker_ms L C E s) = ms_readers s"
proof -
  have "ms_eofs (worker_ms L C E s) = ms_eofs s \<and> ms_readers (worker_ms L C E s) = ms_readers s"
  proof (cases "ms_point s")
    case (S_acts zs k)
    then show ?thesis by (cases zs) (simp_all add: worker_act, simp add: worker_ms_def)
  qed (simp_all add: worker_ms_defs Let_def on_proxy_def on_decoder_def split: ms_splits)
  then show "ms_eofs (worker_ms L C E s) = ms_eofs s" "ms_readers (worker_ms L C E s) = ms_readers s" by simp_all
qed

lemma reader_eofs:
  assumes "eofs_ok s" "decoder_calls s"
  shows "eofs_ok (ReadFrame_ms v s)"
proof -
  let ?t = "ReadFrame_ms v s"
  have moved: "eof_read w s \<Longrightarrow> eof_read w ?t" for w
    by (rule eof_read_moves [OF reader_moves [OF assms(2), where L = undefined and C = undefined]])
  have same: "ms_readers ?t w = ms_readers s w" "ms_eofs ?t w = ms_eofs s w" if "w \<noteq> v" for w
    using that by (simp_all add: ReadFrame_ms_def split: ms_reader.split option.split dec_consumer.split prod.split)
  have "eof_read v ?t" if "ms_readers ?t v = G_mark" "ms_readers s v \<noteq> G_mark"
  proof -
    from that obtain d x where d: "ms_readers s v = G_busy" "ms_decoders s v = Some d" "dc_consumer d = V_check x"
      by (auto simp: ReadFrame_ms_def split: ms_reader.splits option.splits dec_consumer.splits if_splits)
    obtain y e where y: "read_check x d = (y, e)" by fastforce
    from that d y have "rr_status y = KEof" by (auto simp: ReadFrame_ms_def split: if_splits)
    moreover from this y have "dh_read e = dh_read d @ [y]" by (auto simp: read_check_def Let_def)
    moreover have "ms_decoders ?t v = Some e" using d y by (simp add: ReadFrame_ms_def)
    ultimately show ?thesis by (simp add: eof_read_def)
  qed
  moreover have "ms_eofs s v \<or> ms_readers s v = G_mark" if "ms_eofs ?t v"
    using that by (auto simp: ReadFrame_ms_def split: ms_reader.splits option.splits dec_consumer.splits prod.splits)
  ultimately have v: "eof_read v ?t" if "ms_eofs ?t v \<or> ms_readers ?t v = G_mark"
    using that assms(1) moved unfolding eofs_ok_def by blast
  show ?thesis
    unfolding eofs_ok_def
  proof (intro allI impI)
    fix w
    assume w: "ms_eofs ?t w \<or> ms_readers ?t w = G_mark"
    show "eof_read w ?t"
    proof (cases "w = v")
      case False
      with w same [OF this] have "ms_eofs s w \<or> ms_readers s w = G_mark" by simp
      with assms(1) have "eof_read w s" unfolding eofs_ok_def by blast
      then show ?thesis by (rule moved)
    qed (use v w in simp)
  qed
qed

lemma eofs_step:
  assumes "sourcing L C D s t" "source_inv L C D s" "eofs_ok s"
  shows "eofs_ok t"
proof -
  from assms(2) have h: "phases s" "lists_ok s" "decoder_calls s" by (simp_all add: source_inv_def)
  from h(2) have ho: "helpers_ok s" by (simp add: lists_ok_alt)
  from assms(1) show ?thesis
  proof (cases rule: sourcing_cases)
    case (worker E)
    show ?thesis
    proof (cases "\<exists>d k. ms_point s = S_init d k \<and> \<not> ms_local s")
      case True
      then have n: "ms_decoders s = (\<lambda>_. None)" using h(1) by (auto simp: phases_def no_stops_def)
      then have "\<not> ms_eofs s v" "ms_readers s v \<noteq> G_mark" for v
        using assms(3) unfolding eofs_ok_def eof_read_def by fastforce+
      then show ?thesis by (simp add: eofs_ok_def worker(2) worker_eofs)
    next
      case False
      then show ?thesis unfolding worker(2)
        by (intro eofs_moves [OF assms(3) worker_moves [OF worker(1) h(2,3)]]) (auto simp: worker_eofs)
    qed
  next
    case other
    from other show ?thesis
    proof cases
      case (read_frame v)
      with reader_eofs [OF assms(3) h(3)] show ?thesis by simp
    next
      case (read_session v)
      show ?thesis
        by (rule eofs_moves [OF assms(3) other_moves [OF other ho h(3)]]) (auto simp: read_session(1) ReadSession_def split: if_splits)
    next
      case (helper i)
      show ?thesis
        by (rule eofs_moves [OF assms(3) other_moves [OF other ho h(3)]])
          (use helper(2) in \<open>auto simp: helper(1) elim!: step_helper_cases\<close>)
    next
      case proxy_worker
      have "ms_eofs t = ms_eofs s" "ms_readers t = ms_readers s"
        by (simp_all add: proxy_worker(1) step_proxy_def ProxyChanged_def Let_def split: proxy_point.split)
      then show ?thesis by (intro eofs_moves [OF assms(3) other_moves [OF other ho h(3)]]) simp_all
    next
      case (decoder v d)
      have "ms_eofs t = ms_eofs s" "ms_readers t = ms_readers s"
        by (simp_all add: decoder(1) step_decoder_def DecoderFailed_def Let_def split: option.split)
      then show ?thesis by (intro eofs_moves [OF assms(3) other_moves [OF other ho h(3)]]) simp_all
    next
      case request
      show ?thesis
        by (rule eofs_moves [OF assms(3) other_moves [OF other ho h(3)]]) (auto simp: request RequestStop_ms_def)
    next
      case (proxy f)
      show ?thesis
        by (rule eofs_moves [OF assms(3) other_moves [OF other ho h(3)]]) (auto simp: proxy(1))
    qed
  next
    case join
    with assms(3) show ?thesis by (simp add: eofs_ok_def eof_read_def join_ms_def)
  next
    case (start created url)
    show ?thesis
    proof (cases rule: Start_ms_cases [of created url s])
      case same
      with assms(3) start(2) show ?thesis by simp
    next
      case reset
      with start(1) show ?thesis by (simp add: eofs_ok_def start(2) quiet_def)
    qed
  qed
qed

definition ended_well :: "('d, 'c) source \<Rightarrow> bool" where
  "ended_well s \<longleftrightarrow> (ms_ended s \<and> ms_decoders s \<noteq> (\<lambda>_. None) \<longrightarrow> ms_final s \<and> (\<forall>v. ms_decoders s v \<noteq> None \<longrightarrow> ms_eofs s v))"


lemma worker_final: "ms_final s \<Longrightarrow> ms_final (worker_ms L C E s)"
proof (cases "ms_point s")
  case (S_acts zs k)
  then show "ms_final s \<Longrightarrow> ms_final (worker_ms L C E s)" by (cases zs) (simp_all add: worker_act, simp add: worker_ms_def)
qed (simp_all add: worker_ms_defs Let_def on_proxy_def on_decoder_def split: ms_splits)

lemma drained_all: "list_all P (present ds) \<longleftrightarrow> (\<forall>v. ds v \<noteq> None \<longrightarrow> P v)"
  by (simp add: present_cases all_bool_eq)

lemma ended_well_step:
  assumes "sourcing L C D s t" "source_inv L C D s" "fed s" "ended_well s"
  shows "ended_well t"
proof -
  from assms(2) have h: "shaped (ms_point s)" "phases s" "lists_ok s" by (simp_all add: source_inv_def)
  from assms(1) show ?thesis
  proof (cases rule: sourcing_cases)
    case (worker E)
    show ?thesis
    proof (cases "ms_point s = S_drained")
      case True
      with assms(3) have e: "\<not> ms_ended s" by (auto simp: fed_def)
      show ?thesis
      proof (cases "Drained_ms s")
        case drained: True
        then have "ms_final s" "\<forall>v. ms_decoders s v \<noteq> None \<longrightarrow> ms_eofs s v" by (simp_all add: Drained_ms_def drained_all)
        moreover have "t = s\<lparr>ms_ended := True, ms_point := S_finish\<rparr>" by (simp add: worker(2) worker_ms_def True drained)
        ultimately show ?thesis by (simp add: ended_well_def)
      next
        case False
        then have "\<not> ms_ended t" using e by (simp add: worker(2) worker_ms_def True)
        then show ?thesis by (simp add: ended_well_def)
      qed
    next
      case False
      show ?thesis
      proof (cases "ms_ended t")
        case True
        then have e: "ms_ended s" unfolding worker(2) using worker_ended False by blast
        with assms(3) have x: "exiting (ms_point s)" by (simp add: fed_def)
        then have "ms_decoders t v = None \<longleftrightarrow> ms_decoders s v = None" for v
        proof (cases "\<exists>z zs k. ms_point s = S_acts (z # zs) k")
          case True
          then show ?thesis by (auto simp: worker(2) worker_act act_none)
        next
          case False
          with x show ?thesis unfolding worker(2) by (intro worker_stopped) auto
        qed
        then have "ms_decoders t \<noteq> (\<lambda>_. None) \<longleftrightarrow> ms_decoders s \<noteq> (\<lambda>_. None)" "\<And>v. ms_decoders t v \<noteq> None \<longleftrightarrow> ms_decoders s v \<noteq> None"
          by (auto simp: fun_eq_iff)
        with assms(4) e show ?thesis by (simp add: ended_well_def worker(2) worker_eofs worker_final)
      qed (simp add: ended_well_def)
    qed
  next
    case other
    from other_beside [OF other h(3)] assms(4) show ?thesis by (auto simp: ended_well_def beside_def fun_eq_iff)
  next
    case join
    with assms(4) show ?thesis by (simp add: ended_well_def join_ms_def)
  next
    case (start created url)
    show ?thesis by (cases rule: Start_ms_cases [of created url s]) (use assms(4) start(2) in \<open>simp_all add: ended_well_def\<close>)
  qed
qed

lemma finals_step:
  assumes "sourcing L C D s t" "source_inv L C D s" "fed s" "finals s"
  shows "finals t"
proof -
  from assms(2) have h: "shaped (ms_point s)" "phases s" "lists_ok s" by (simp_all add: source_inv_def)
  from assms(1) show ?thesis
  proof (cases rule: sourcing_cases)
    case (worker E)
    with finals_worker [OF assms(4,3) h(1)] show ?thesis by simp
  next
    case other
    from other_beside [OF other h(3)] assms(4) show ?thesis by (simp add: finals_def ends_taken_def beside_def)
  next
    case join
    with assms(4) show ?thesis by (simp add: finals_def ends_taken_def join_ms_def)
  next
    case (start created url)
    show ?thesis
    proof (cases rule: Start_ms_cases [of created url s])
      case same
      with assms(4) start(2) show ?thesis by simp
    next
      case reset
      with h(2) have "ms_point s = S_none" by (simp add: phases_def)
      with reset(6,11) show ?thesis by (simp add: finals_def start(2))
    qed
  qed
qed

section \<open>The states that are published\<close>

definition going_on :: "source_state list \<Rightarrow> bool" where
  "going_on = list_all (\<lambda>st. \<not> closing_state st)"

definition running_hist :: "('d, 'c) source \<Rightarrow> bool" where
  "running_hist s \<longleftrightarrow> going_on (mh_states s) \<and> \<not> closing_state (ss_state (ms_status s))"

definition failed_now :: "('d, 'c) source \<Rightarrow> bool" where
  "failed_now s \<longleftrightarrow> ms_failure s \<noteq> None \<and> ss_state (ms_status s) = ST_failed \<and> ss_error (ms_status s) = ms_failure s"

definition failed_hist :: "('d, 'c) source \<Rightarrow> bool" where
  "failed_hist s \<longleftrightarrow> failed_now s \<and> (\<exists>hs. mh_states s = hs @ [ST_failed] \<and> going_on hs)"

definition states_at :: "source_point \<Rightarrow> ('d, 'c) source \<Rightarrow> bool" where
  "states_at x s =
     (case x of
        S_none \<Rightarrow> going_on (butlast (mh_states s))
      | S_publish st c f k \<Rightarrow>
          if k = S_done then c = None \<and> \<not> f \<and> closing_state st \<and> (st = ST_ended \<longrightarrow> ms_ended s) \<and>
            (running_hist s \<or> failed_hist s \<and> st = ST_failed)
          else if k = S_cleanup then st = ST_failed \<and> c = None \<and> ms_failure s \<noteq> None \<and> running_hist s
          else \<not> closing_state st \<and> running_hist s
      | S_call st k \<Rightarrow>
          if k = S_done then closing_state st \<and> going_on (mh_states s) \<and> ss_state (ms_status s) = st \<and> (st = ST_ended \<longrightarrow> ms_ended s)
          else if k = S_cleanup then st = ST_failed \<and> going_on (mh_states s) \<and> failed_now s
          else \<not> closing_state st \<and> running_hist s
      | S_cleanup \<Rightarrow> running_hist s \<or> failed_hist s
      | S_acts zs k \<Rightarrow> if k = S_report then running_hist s \<or> failed_hist s else running_hist s
      | S_report \<Rightarrow> running_hist s \<or> failed_hist s
      | S_done \<Rightarrow> \<exists>hs. mh_states s = hs @ [ss_state (ms_status s)] \<and> going_on hs \<and> closing_state (ss_state (ms_status s))
      | _ \<Rightarrow> running_hist s)"

definition states_ok :: "('d, 'c) source \<Rightarrow> bool" where
  "states_ok s \<longleftrightarrow> states_at (ms_point s) s \<and> (ST_ended \<in> set (mh_states s) \<longrightarrow> ms_ended s)"

lemma states_keep:
  assumes "states_at x s" "mh_states t = mh_states s" "ms_status t = ms_status s" "ms_ended s \<Longrightarrow> ms_ended t"
    "ms_failure s \<noteq> None \<Longrightarrow> ms_failure t = ms_failure s"
  shows "states_at x t"
proof -
  have "running_hist t = running_hist s" by (simp add: running_hist_def assms(2,3))
  moreover have "failed_now s \<Longrightarrow> failed_now t" using assms(5) by (simp add: failed_now_def assms(3))
  moreover from this have "failed_hist s \<Longrightarrow> failed_hist t" by (simp add: failed_hist_def assms(2))
  moreover have "ms_failure s \<noteq> None \<Longrightarrow> ms_failure t \<noteq> None" using assms(5) by simp
  ultimately show ?thesis
    using assms(1,4) by (cases x) (auto simp: states_at_def assms(2,3) split: if_splits)
qed

text \<open>Points at which a run that goes on may arrive.\<close>

fun onward :: "source_point \<Rightarrow> bool" where
  "onward (S_publish st c f k) = (k \<noteq> S_done \<and> k \<noteq> S_cleanup \<and> \<not> closing_state st)"
| "onward (S_call st k) = False"
| "onward S_none = False"
| "onward S_done = False"
| "onward x = True"

lemma onward_states: "onward x \<Longrightarrow> running_hist s \<Longrightarrow> states_at x s"
  by (cases x) (auto simp: states_at_def)

lemma next_onward:
  "check_next k \<Longrightarrow> onward k" "init_next k \<Longrightarrow> onward k" "push_next k \<Longrightarrow> onward k" "pub_next k \<Longrightarrow> k \<noteq> S_done \<Longrightarrow> onward k"
proof -
  show "check_next k \<Longrightarrow> onward k" by (cases k rule: check_next.cases) simp_all
  show "init_next k \<Longrightarrow> onward k" by (cases k rule: init_next.cases) (simp_all add: closing_state_def)
  show "push_next k \<Longrightarrow> onward k" by (cases k rule: push_next.cases) simp_all
  show "pub_next k \<Longrightarrow> k \<noteq> S_done \<Longrightarrow> onward k" by (cases k rule: pub_next.cases) simp_all
qed

lemma submit_onward [simp]: "onward k \<Longrightarrow> onward (submit_all_ms i vs k)"
  by (induction vs) (simp_all add: submit_all_ms_def)

text \<open>The points at which a run goes on, whatever it finds.\<close>

fun walking :: "source_point \<Rightarrow> bool" where
  "walking (S_publish st c f k) = False"
| "walking (S_call st k) = False"
| "walking S_none = False"
| "walking S_done = False"
| "walking S_finish = False"
| "walking S_cleanup = False"
| "walking S_report = False"
| "walking (S_acts zs k) = False"
| "walking x = True"

lemma walking_worker:
  assumes "walking (ms_point s)" "shaped (ms_point s)" "running_hist s"
  shows "onward (ms_point (worker_ms L C E s)) \<and> running_hist (worker_ms L C E s) \<and> mh_states (worker_ms L C E s) = mh_states s"
proof -
  have "onward (ms_point (worker_ms L C E s)) \<and> ss_state (ms_status (worker_ms L C E s)) = ss_state (ms_status s) \<and>
      mh_states (worker_ms L C E s) = mh_states s"
    by (cases "ms_point s"; use assms(1,2) in \<open>simp add: worker_ms_defs Let_def on_proxy_def on_decoder_def next_onward closing_state_def
      split: ms_splits\<close>)
  with assms(3) show ?thesis by (simp add: running_hist_def)
qed

lemma states_worker:
  assumes "states_ok s" "shaped (ms_point s)" "source_ready s" "ms_ended s \<Longrightarrow> exiting (ms_point s)"
  shows "states_ok (worker_ms L C E s)"
proof (cases "walking (ms_point s)")
  case True
  then have r: "running_hist s" using assms(1) by (cases "ms_point s") (simp_all add: states_ok_def states_at_def)
  have "ST_ended \<notin> set (mh_states s)" using r by (auto simp: running_hist_def going_on_def list_all_iff closing_state_def)
  with walking_worker [OF True assms(2) r, of L C E] show ?thesis by (simp add: states_ok_def onward_states)
next
  case False
  have keep: "states_ok (worker_ms L C E s)"
    if "states_at (ms_point (worker_ms L C E s)) s" "mh_states (worker_ms L C E s) = mh_states s" "ms_status (worker_ms L C E s) = ms_status s"
      "ms_ended (worker_ms L C E s) = ms_ended s" "ms_failure s \<noteq> None \<Longrightarrow> ms_failure (worker_ms L C E s) = ms_failure s"
    using states_keep [OF that(1-3) _ that(5)] that(4) assms(1) by (simp add: states_ok_def that(2))
  show ?thesis
  proof (cases "ms_point s")
    case (S_acts zs k)
    show ?thesis
    proof (cases zs)
      case Nil
      with S_acts have t: "worker_ms L C E s = s\<lparr>ms_point := k\<rparr>" by (simp add: worker_ms_def)
      have "states_at k s"
      proof (cases "k = S_report")
        case True
        with S_acts assms(1) show ?thesis by (simp add: states_ok_def states_at_def)
      next
        case False
        with S_acts assms(1,2) have "running_hist s" "onward k" by (auto simp: states_ok_def states_at_def next_onward)
        then show ?thesis by (simp add: onward_states)
      qed
      then show ?thesis by (intro keep) (simp_all add: t)
    next
      case (Cons z rest)
      with S_acts have p: "ms_point s = S_acts (z # rest) k" by simp
      have f: "ms_failure s \<noteq> None \<Longrightarrow> ms_failure (snd (do_action z s)) = ms_failure s"
        by (cases z) (simp_all add: do_action_def on_decoder_def on_proxy_def)
      show ?thesis
        by (rule keep) (use p assms(1) f in \<open>auto simp: worker_act states_ok_def states_at_def\<close>)
    qed
  next
    case S_finish
    then have t: "worker_ms L C E s = s\<lparr>ms_point := (if ms_failure s \<noteq> None then S_publish ST_failed None False S_cleanup else S_cleanup)\<rparr>"
      by (simp add: worker_ms_def)
    show ?thesis by (rule keep) (use S_finish assms(1) in \<open>auto simp: t states_ok_def states_at_def\<close>)
  next
    case S_cleanup
    show ?thesis by (rule keep) (use S_cleanup assms(1) in \<open>auto simp: worker_ms_def states_ok_def states_at_def\<close>)
  next
    case S_report
    show ?thesis
      by (rule keep) (use S_report assms(1) in \<open>auto simp: worker_ms_def states_ok_def states_at_def report_state_def closing_state_def
        failed_hist_def failed_now_def\<close>)
  next
    case (S_call st k)
    then have t: "worker_ms L C E s = s\<lparr>mh_states := mh_states s @ [st], ms_point := k\<rparr>" by (simp add: worker_ms_def)
    have h: "states_at (S_call st k) s" "ST_ended \<in> set (mh_states s) \<Longrightarrow> ms_ended s" using assms(1) S_call by (simp_all add: states_ok_def)
    consider "k = S_done" | "k = S_cleanup" | "onward k" "k \<noteq> S_cleanup" "k \<noteq> S_done"
      using assms(2) S_call next_onward(4) by fastforce
    then show ?thesis
    proof cases
      case 1
      with h show ?thesis by (simp add: t states_ok_def states_at_def)
    next
      case 2
      with h show ?thesis
        by (auto simp: t states_ok_def states_at_def failed_hist_def failed_now_def)
    next
      case 3
      with h(1) have r: "running_hist (worker_ms L C E s)" "st \<noteq> ST_ended"
        by (auto simp: states_at_def t running_hist_def going_on_def closing_state_def)
      with 3 h(2) show ?thesis by (simp add: states_ok_def onward_states t)
    qed
  next
    case (S_publish st c f k)
    have h: "states_at (S_publish st c f k) s" using assms(1) S_publish by (simp add: states_ok_def)
    have n: "ss_state (next_status st c s) = st" for c by (simp add: next_status_def Let_def split: option.split)
    consider "k = S_done" | "k = S_cleanup" | "onward k" "k \<noteq> S_cleanup" "k \<noteq> S_done"
      using assms(2) S_publish next_onward(4) by fastforce
    then show ?thesis
    proof cases
      case 1
      with h have q: "c = None" "\<not> f" "closing_state st" "st = ST_ended \<Longrightarrow> ms_ended s" "running_hist s \<or> failed_hist s \<and> st = ST_failed"
        by (simp_all add: states_at_def)
      from q(5) show ?thesis
      proof
        assume r: "running_hist s"
        with q(3) n [of None] have "next_status st None s \<noteq> ms_status s" unfolding running_hist_def by metis
        then have "worker_ms L C E s = s\<lparr>ms_status := next_status st None s, ms_point := S_call st k\<rparr>"
          using q(1-3) by (simp add: S_publish worker_ms_def Publish_ms_def)
        with r q(3,4) 1 n assms(1) show ?thesis by (simp add: states_ok_def states_at_def running_hist_def)
      next
        assume r: "failed_hist s \<and> st = ST_failed"
        then have "next_status st None s = ms_status s" by (simp add: next_status_def Let_def failed_hist_def failed_now_def)
        then have "worker_ms L C E s = s\<lparr>ms_point := k\<rparr>"
          using q(1-3) by (simp add: S_publish worker_ms_def Publish_ms_def)
        with r 1 q(3) assms(1) show ?thesis by (auto simp: states_ok_def states_at_def failed_hist_def failed_now_def)
      qed
    next
      case 2
      with h have q: "st = ST_failed" "c = None" "ms_failure s \<noteq> None" "running_hist s" by (simp_all add: states_at_def)
      moreover from this have "closing_state (ss_state (next_status st None s))" using n [of None] by (simp add: closing_state_def)
      ultimately have "next_status st None s \<noteq> ms_status s" unfolding running_hist_def by metis
      then have t: "worker_ms L C E s = s\<lparr>ms_status := next_status st None s, ms_point := S_call st k\<rparr>"
        using q(1,2) by (simp add: S_publish worker_ms_def Publish_ms_def closing_state_def)
      have "ss_error (next_status st None s) = ms_failure s" by (simp add: next_status_def Let_def q(1))
      with q 2 n assms(1) show ?thesis by (simp add: t states_ok_def states_at_def running_hist_def failed_now_def)
    next
      case 3
      with h have r: "running_hist s" "\<not> closing_state st" by (simp_all add: states_at_def)
      then have "ST_ended \<notin> set (mh_states s)" by (auto simp: running_hist_def going_on_def list_all_iff closing_state_def)
      moreover have "worker_ms L C E s = s\<lparr>ms_point := k\<rparr> \<or>
          worker_ms L C E s = s\<lparr>ms_status := next_status st c s, ms_point := S_call st k\<rparr>"
        by (simp add: S_publish worker_ms_def Publish_ms_def)
      moreover have "states_at k (s\<lparr>ms_point := k\<rparr>)"
        by (rule onward_states [OF 3(1)]) (use r(1) in \<open>simp add: running_hist_def\<close>)
      ultimately show ?thesis
        using r 3 n [of c] by (elim disjE) (simp_all add: states_ok_def, simp add: states_at_def running_hist_def)
    qed
  qed (use assms(3) False in \<open>simp_all add: source_ready_def\<close>)
qed

lemma states_step:
  assumes "sourcing L C D s t" "source_inv L C D s" "fed s" "states_ok s"
  shows "states_ok t"
proof -
  from assms(2) have h: "shaped (ms_point s)" "phases s" "lists_ok s" by (simp_all add: source_inv_def)
  from assms(3) have e: "ms_ended s \<Longrightarrow> exiting (ms_point s)" by (simp add: fed_def)
  from assms(1) show ?thesis
  proof (cases rule: sourcing_cases)
    case (worker E)
    with states_worker [OF assms(4) h(1) worker(1) e, of L C E] show ?thesis by simp
  next
    case other
    from other_beside [OF other h(3)] have b: "ms_point t = ms_point s" "mh_states t = mh_states s" "ms_status t = ms_status s"
      "ms_ended t = ms_ended s" "ms_failure s \<noteq> None \<Longrightarrow> ms_failure t = ms_failure s" by (simp_all add: beside_def)
    from assms(4) states_keep [of "ms_point s" s t, OF _ b(2,3) _ b(5)] show ?thesis by (simp add: states_ok_def b)
  next
    case join
    with assms(4) show ?thesis by (auto simp: states_ok_def states_at_def join_ms_def)
  next
    case (start created url)
    show ?thesis
    proof (cases rule: Start_ms_cases [of created url s])
      case same
      with assms(4) start(2) show ?thesis by simp
    next
      case reset
      with h(2) have p: "ms_point s = S_none" by (simp add: phases_def)
      show ?thesis
        by (cases created) (use reset p assms(4) in
          \<open>simp_all add: start(2) states_ok_def states_at_def running_hist_def going_on_def no_status_def closing_state_def\<close>)
    qed
  qed
qed

section \<open>The invariant\<close>

definition ending :: "('d, 'c) source \<Rightarrow> bool" where
  "ending s \<longleftrightarrow> finals s \<and> eofs_ok s \<and> ended_well s \<and> states_ok s"

lemma source_runs_ending:
  assumes "source_runs L C D t"
  shows "ending t"
proof -
  from assms obtain c s where s: "AvMediaSource_new c = Inr s" "(sourcing L C D)\<^sup>*\<^sup>* s t" by (auto simp: source_runs_def)
  from s(2) have "source_runs L C D t \<and> ending t"
  proof induction
    case base
    have "ms_point s = S_none" "ms_decoders s = (\<lambda>_. None)" "\<not> ms_final s" "\<not> ms_ended s" "ms_eofs s = (\<lambda>_. False)"
      "ms_readers s = (\<lambda>_. G_idle)" "mh_states s = []"
      using s(1) by (auto simp: AvMediaSource_new_def chain_def split: sum.splits)
    then have "ending s"
      by (simp add: ending_def finals_def eofs_ok_def ended_well_def states_ok_def states_at_def going_on_def)
    moreover have "source_runs L C D s" using s(1) unfolding source_runs_def by blast
    ultimately show ?case by simp
  next
    case (step t u)
    then have r: "source_runs L C D t" "ending t" by simp_all
    have "source_runs L C D u" using r(1) step(2) unfolding source_runs_def by (metis rtranclp.rtrancl_into_rtrancl)
    moreover from r(2) have "finals t" "eofs_ok t" "ended_well t" "states_ok t" by (simp_all add: ending_def)
    ultimately show ?case
      using step(2) source_runs_inv [OF r(1)] source_runs_fed [OF r(1)] finals_step eofs_step ended_well_step states_step
      unfolding ending_def by blast
  qed
  then show ?thesis ..
qed

end
