(* ===== verification/Source_Order.thy ===== *)
theory Source_Order
  imports Source_End
begin

text \<open>
  The order in which a source feeds its decoders: nothing follows an end of stream but a reset, so that no decoder
  ever refuses a call as out of order. With \<open>loop\<close> this rests on the order of the answers of the proxy, without it
  on the worker, which reads nothing after an end of file.
\<close>

section \<open>Orderly results\<close>

definition is_packet :: "read_answer \<times> description option \<Rightarrow> bool" where
  "is_packet a \<longleftrightarrow> (\<exists>p. fst a = R_packet p)"

definition connection :: "read_answer \<times> description option \<Rightarrow> nat option" where
  "connection a = map_option fst (snd a)"

definition turns :: "(read_answer \<times> description option) list \<Rightarrow> bool" where
  "turns = successively (\<lambda>a b. is_packet a \<or> connection a \<noteq> None \<and> connection a \<noteq> connection b)"

lemma successively_last: "successively P (xs @ [x]) \<longleftrightarrow> successively P xs \<and> (xs \<noteq> [] \<longrightarrow> P (last xs) x)"
  by (auto simp: successively_append_iff)

lemma feed_last_connection: "xs \<noteq> [] \<Longrightarrow> feed_last c xs = connection (last xs)"
  by (induction xs rule: rev_induct) (auto simp: feed_snoc connection_def)

lemma own_part_eof: "own_part v video x \<noteq> [] \<Longrightarrow> last (own_part v video x) = In_eof \<Longrightarrow> (\<forall>p. x \<noteq> R_packet p)"
  by (cases x) (auto split: if_splits)

lemma own_part_cases: "own_part v video x = [] \<or> (\<exists>i. own_part v video x = [i])"
  by (cases x) auto

lemma feed_ordered:
  assumes "turns xs"
  shows "ordered (feed_ms v video None xs) \<and> (ends_in_eof (feed_ms v video None xs) \<longrightarrow> xs \<noteq> [] \<and> \<not> is_packet (last xs))"
  using assms
proof (induction xs rule: rev_induct)
  case Nil
  then show ?case by (simp add: ends_in_eof_def)
next
  case (snoc a xs)
  obtain x d where a: "a = (x, d)" by fastforce
  from snoc(2) have t: "turns xs" "xs \<noteq> [] \<Longrightarrow> is_packet (last xs) \<or> connection (last xs) \<noteq> None \<and> connection (last xs) \<noteq> connection a"
    by (simp_all add: turns_def successively_last)
  with snoc(1) have ih: "ordered (feed_ms v video None xs)" "ends_in_eof (feed_ms v video None xs) \<Longrightarrow> xs \<noteq> [] \<and> \<not> is_packet (last xs)" by simp_all
  define r where "r = renewal (feed_last None xs) (map_option fst d)"
  have r: "r = [] \<or> r = [In_reset]" by (simp add: r_def renewal_def)
  have f: "feed_ms v video None (xs @ [a]) = feed_ms v video None xs @ r @ own_part v video x" by (simp add: a feed_snoc r_def)
  have renewed: "r = [In_reset]" if "ends_in_eof (feed_ms v video None xs)"
    using ih(2) [OF that] t(2) by (auto simp: r_def renewal_def feed_last_connection a connection_def)
  have "\<not> is_packet a" if "own_part v video x \<noteq> []" "last (own_part v video x) = In_eof"
    using own_part_eof [OF that] by (simp add: is_packet_def a)
  then show ?case
    using ih r renewed own_part_cases [of v video x]
    by (auto simp: f ends_in_eof_def ordered_def successively_append_iff)
qed

section \<open>Answers and results\<close>

definition answer_of :: "read_answer \<times> description option \<Rightarrow> proxy_answer" where
  "answer_of a = \<lparr>pa_input = the (connection a), pa_packet = (case fst a of R_packet p \<Rightarrow> Some p | _ \<Rightarrow> None),
     pa_info = map_option snd (snd a)\<rparr>"

lemma answers_turns:
  assumes "successively earlier (map answer_of xs)" "\<And>a. a \<in> set xs \<Longrightarrow> snd a \<noteq> None"
  shows "turns xs"
  using assms
proof (induction xs rule: rev_induct)
  case (snoc a xs)
  then have xs: "turns xs" "xs \<noteq> [] \<Longrightarrow> earlier (answer_of (last xs)) (answer_of a)"
    by (simp_all add: successively_last last_map)
  have "is_packet (last xs) \<or> connection (last xs) \<noteq> None \<and> connection (last xs) \<noteq> connection a" if "xs \<noteq> []"
  proof -
    from that snoc(3) have "snd (last xs) \<noteq> None" by simp
    then obtain y where y: "connection (last xs) = Some y" by (auto simp: connection_def)
    with xs(2) [OF that] show ?thesis
      by (cases "connection a = Some y") (auto simp: earlier_def answer_of_def is_packet_def split: read_answer.splits)
  qed
  with xs(1) show ?case by (simp add: turns_def successively_last)
qed (simp add: turns_def)

lemma read_outcome_answers:
  assumes "readers p" "accounts p" "pc_loop (px_config p)"
  shows "read_outcome p = None \<or> (\<exists>d. read_outcome p = Some (R_null, d)) \<Longrightarrow> ph_answers (consume_px p) = ph_answers p"
    "read_outcome p = Some (x, d) \<Longrightarrow> x \<noteq> R_null \<Longrightarrow> \<exists>i e. d = map_option (Pair i) e \<and>
       ph_answers (consume_px p) = ph_answers p @ [\<lparr>pa_input = i, pa_packet = (case x of R_packet k \<Rightarrow> Some k | _ \<Rightarrow> None), pa_info = e\<rparr>]"
proof -
  have over: "\<not> source_over p" "px_state p \<noteq> PS_ended" using assms(2,3) by (auto simp: source_over_def accounts_def)
  have "(read_outcome p = None \<or> (\<exists>d. read_outcome p = Some (R_null, d)) \<longrightarrow> ph_answers (consume_px p) = ph_answers p) \<and>
    (\<forall>x d. read_outcome p = Some (x, d) \<and> x \<noteq> R_null \<longrightarrow> (\<exists>i e. d = map_option (Pair i) e \<and>
       ph_answers (consume_px p) = ph_answers p @ [\<lparr>pa_input = i, pa_packet = (case x of R_packet k \<Rightarrow> Some k | _ \<Rightarrow> None), pa_info = e\<rparr>]))"
  proof (cases "px_consumer p")
    case (Y_begin w r)
    have "fst (read_first w r p) = Some R_null \<or> fst (read_first w r p) = None"
      using over by (simp add: read_first_def split: option.split)
    with Y_begin show ?thesis by (auto simp: read_outcome_def consume_px_def read_first_answers Let_def)
  next
    case (Y_check i d w r)
    with assms(1) have "i < length (px_inputs p)" "reader_fits (px_consumer p) i (iv_reader (conn p i))"
      by (auto simp: readers_def)
    with Y_check obtain x where x: "iv_reader (conn p i) = X_check x" by auto
    obtain a c where "read_finish x (conn p i) = (a, c)" by fastforce
    with Y_check x show ?thesis
      by (cases a) (auto simp: read_outcome_def consume_px_def no_packet_def Let_def on_input_def)
  next
    case (Y_input i d w r)
    then show ?thesis by (auto simp: read_outcome_def consume_px_def no_packet_def Let_def on_input_def)
  qed (auto simp: read_outcome_def consume_px_def Let_def on_input_def)
  then show "read_outcome p = None \<or> (\<exists>d. read_outcome p = Some (R_null, d)) \<Longrightarrow> ph_answers (consume_px p) = ph_answers p"
    "read_outcome p = Some (x, d) \<Longrightarrow> x \<noteq> R_null \<Longrightarrow> \<exists>i e. d = map_option (Pair i) e \<and>
       ph_answers (consume_px p) = ph_answers p @ [\<lparr>pa_input = i, pa_packet = (case x of R_packet k \<Rightarrow> Some k | _ \<Rightarrow> None), pa_info = e\<rparr>]"
    by blast+
qed

section \<open>The invariant\<close>

definition looping :: "('d, 'c) source \<Rightarrow> bool" where
  "looping s \<longleftrightarrow> pc_loop (sc_proxy (ms_config s))"

definition linked :: "('d, 'c) source \<Rightarrow> bool" where
  "linked s \<longleftrightarrow> px_config (ms_proxy s) = sc_proxy (ms_config s) \<and>
     (looping s \<longrightarrow> (\<exists>as. ph_answers (ms_proxy s) = as @ map answer_of (mh_taken s)) \<and> (\<forall>a \<in> set (mh_taken s). snd a \<noteq> None))"

text \<open>Without \<open>loop\<close>: what is still to come after an end of file.\<close>

definition closing_down :: "source_point \<Rightarrow> ('d, 'c) source \<Rightarrow> bool" where
  "closing_down x s \<longleftrightarrow> ms_final s \<or> fresh x \<or> submits x \<or>
     leaving (ms_stopping s) (ms_failure s \<noteq> None) (over_dec s) x"

definition single_pass :: "('d, 'c) source \<Rightarrow> bool" where
  "single_pass s \<longleftrightarrow> (\<not> looping s \<longrightarrow> list_all is_packet (butlast (mh_taken s)) \<and>
     (ends_taken s \<longrightarrow> closing_down (ms_point s) s))"

lemma proxying_config: "proxying D p q \<Longrightarrow> px_config q = px_config p"
  by (induction rule: proxying.induct) (simp_all add: on_input_def stop_flag_def stop_cancel_def stop_join_def Start_px_def Let_def)

lemma act_answers: "ph_answers (ms_proxy (snd (do_action z s))) = ph_answers (ms_proxy s)"
  by (cases z) (simp_all add: do_action_def stop_flag_def stop_join_def)

lemma worker_config: "ms_config (worker_ms L C E s) = ms_config s"
proof (cases "ms_point s")
  case (S_acts zs k)
  then show ?thesis by (cases zs) (simp_all add: worker_act, simp add: worker_ms_def)
qed (simp_all add: worker_ms_defs Let_def on_proxy_def on_decoder_def split: ms_splits)

lemma worker_answers:
  assumes "ms_point s \<noteq> S_reading"
  shows "ph_answers (ms_proxy (worker_ms L C E s)) = ph_answers (ms_proxy s)" "mh_taken (worker_ms L C E s) = mh_taken s"
proof -
  have "ph_answers (ms_proxy (worker_ms L C E s)) = ph_answers (ms_proxy s) \<and> mh_taken (worker_ms L C E s) = mh_taken s"
    using assms
  proof (cases "ms_point s")
    case (S_acts zs k)
    then show ?thesis by (cases zs) (simp_all add: worker_act act_answers, simp add: worker_ms_def)
  next
    case S_proxy
    have "ph_answers (snd (Start_px c u p)) = ph_answers p" for c u and p :: "'a proxy" by (simp add: Start_px_def Let_def)
    with S_proxy show ?thesis by (simp add: worker_ms_def split: prod.split) (metis snd_conv)
  qed (simp_all add: worker_ms_defs Let_def on_proxy_def on_decoder_def split: ms_splits)
  then show "ph_answers (ms_proxy (worker_ms L C E s)) = ph_answers (ms_proxy s)" "mh_taken (worker_ms L C E s) = mh_taken s" by simp_all
qed

lemma reading_answers:
  assumes "ms_point s = S_reading" "linked s" "proxy_inv (ms_proxy s)" "accounts (ms_proxy s)" "looping s"
    "described (consume_px (ms_proxy s))"
  shows "\<exists>as. ph_answers (ms_proxy (worker_ms L C E s)) = as @ map answer_of (mh_taken (worker_ms L C E s))"
    "\<forall>a \<in> set (mh_taken (worker_ms L C E s)). snd a \<noteq> None"
proof -
  let ?p = "ms_proxy s"
  from assms(2,5) obtain as where as: "ph_answers ?p = as @ map answer_of (mh_taken s)" and d: "\<forall>a \<in> set (mh_taken s). snd a \<noteq> None"
    and c: "pc_loop (px_config ?p)"
    by (auto simp: linked_def looping_def)
  from assms(3) have r: "readers ?p" by (simp add: proxy_inv_def)
  note o = read_outcome_answers [OF r assms(4) c]
  have px: "ms_proxy (worker_ms L C E s) = consume_px ?p"
    by (simp add: worker_ms_def read_proxy_def assms(1) Let_def split: option.split prod.split)
  have "(\<exists>as. ph_answers (consume_px ?p) = as @ map answer_of (mh_taken (worker_ms L C E s))) \<and>
    (\<forall>a \<in> set (mh_taken (worker_ms L C E s)). snd a \<noteq> None)"
  proof (cases "read_outcome ?p = None \<or> (\<exists>d. read_outcome ?p = Some (R_null, d))")
    case True
    then have "mh_taken (worker_ms L C E s) = mh_taken s"
      by (auto simp: worker_ms_def read_proxy_def assms(1) on_proxy_def)
    with o(1) [OF True] as d show ?thesis by simp
  next
    case False
    then obtain x e where x: "read_outcome ?p = Some (x, e)" "x \<noteq> R_null" by (cases "read_outcome ?p") auto
    from o(2) [OF this] obtain i f where f: "e = map_option (Pair i) f" "ph_answers (consume_px ?p) = ph_answers ?p @
        [\<lparr>pa_input = i, pa_packet = (case x of R_packet k \<Rightarrow> Some k | _ \<Rightarrow> None), pa_info = f\<rparr>]" by blast
    have t: "mh_taken (worker_ms L C E s) = mh_taken s @ [(x, e)]"
      using x by (simp add: worker_ms_def read_proxy_def assms(1) on_proxy_def)
    from assms(6) have "f \<noteq> None" by (auto simp: described_def f(2))
    then have "answer_of (x, e) = \<lparr>pa_input = i, pa_packet = (case x of R_packet k \<Rightarrow> Some k | _ \<Rightarrow> None), pa_info = f\<rparr>"
      by (auto simp: answer_of_def f(1) connection_def)
    with as d f \<open>f \<noteq> None\<close> show ?thesis by (auto simp: t)
  qed
  then show "\<exists>as. ph_answers (ms_proxy (worker_ms L C E s)) = as @ map answer_of (mh_taken (worker_ms L C E s))"
    "\<forall>a \<in> set (mh_taken (worker_ms L C E s)). snd a \<noteq> None" by (simp_all add: px)
qed

text \<open>Without \<open>loop\<close>.\<close>

lemma over_still:
  assumes "still s t"
  shows "over_dec s v \<Longrightarrow> over_dec t v"
proof -
  from assms have "rel_option dec_still (ms_decoders s v) (ms_decoders t v)" by (simp add: still_def)
  then show "over_dec s v \<Longrightarrow> over_dec t v" by (auto simp: over_dec_def option_rel_Some1 dec_still_def)
qed

lemma closing_down_mono:
  assumes "closing_down x s" "ms_final s \<Longrightarrow> ms_final t" "ms_stopping s \<Longrightarrow> ms_stopping t" "ms_failure s \<noteq> None \<Longrightarrow> ms_failure t \<noteq> None"
    "still s t"
  shows "closing_down x t"
proof -
  have "leaving (ms_stopping s) (ms_failure s \<noteq> None) (over_dec s) x \<Longrightarrow> leaving (ms_stopping t) (ms_failure t \<noteq> None) (over_dec t) x"
    by (erule leaving_mono) (use assms(3,4) over_still [OF assms(5)] in auto)
  with assms(1,2) show ?thesis unfolding closing_down_def by blast
qed

lemma exiting_closing: "exiting x \<Longrightarrow> closing_down x s"
  by (simp add: closing_down_def exiting_leaving)

lemma throw_closing: "throws x \<Longrightarrow> closing_down x s"
  by (simp add: closing_down_def throws_leaving)

lemma closing_down_worker:
  assumes "closing_down (ms_point s) s" "\<not> looping s" "ends_taken s" "shaped (ms_point s)" "source_ready s" "phases s"
    "well_grounded s" "fed s" "decoders_run L C s"
  shows "closing_down (ms_point (worker_ms L C E s)) (worker_ms L C E s)"
proof -
  let ?t = "worker_ms L C E s"
  from assms(1) consider "ms_final s" | "leaving (ms_stopping s) (ms_failure s \<noteq> None) (over_dec s) (ms_point s)"
    | (on) "fresh (ms_point s) \<or> submits (ms_point s)" unfolding closing_down_def by blast
  then show ?thesis
  proof cases
    case 1
    then show ?thesis by (simp add: closing_down_def worker_final)
  next
    case 2
    from leaving_worker [OF this assms(4-7)] show ?thesis by (simp add: closing_down_def)
  next
    case on
    show ?thesis
    proof (cases "ms_point s")
      case (S_acts zs k)
      with on have "k = S_observer" by simp
      with S_acts show ?thesis by (cases zs) (simp_all add: worker_act closing_down_def, simp add: worker_ms_def)
    next
      case (S_push v i k)
      show ?thesis
      proof (cases "ms_decoders s v")
        case None
        with S_push show ?thesis by (intro throw_closing) (simp add: worker_ms_def begin_push_def)
      next
        case (Some d)
        obtain r e where r: "Push_dec True i d = (r, e)" by fastforce
        show ?thesis
        proof (cases r)
          case (Inl x)
          with S_push Some r show ?thesis by (intro throw_closing) (simp add: worker_ms_def begin_push_def)
        next
          case (Inr ok)
          with S_push Some r have t: "?t = s\<lparr>ms_decoders := (ms_decoders s)(v := Some e), ms_point := (if ok then S_queue v i k else S_check (S_refused v))\<rparr>"
            by (simp add: worker_ms_def begin_push_def)
          show ?thesis
          proof (cases ok)
            case False
            with r Inr refusing_over [of i d e] have "over_dec ?t v" by (simp add: t over_dec_def)
            with False show ?thesis by (simp add: closing_down_def t)
          qed (use on S_push in \<open>simp add: closing_down_def t\<close>)
        qed
      qed
    next
      case (S_queue v i k)
      show ?thesis
      proof (cases "ms_decoders s v")
        case None
        with S_queue show ?thesis by (intro throw_closing) (simp add: worker_ms_def queue_push_def)
      next
        case (Some d)
        let ?e = "push_queue i d"
        have t: "?t = s\<lparr>ms_decoders := (ms_decoders s)(v := Some ?e),
            ms_point := (if dc_producer ?e = U_idle then S_check (S_refused v) else S_mark v i k)\<rparr>"
          using S_queue Some by (simp add: worker_ms_def queue_push_def on_decoder_def)
        show ?thesis
        proof (cases "dc_producer ?e = U_idle")
          case True
          from assms(9) Some have "decoder_runs L C d" by (auto simp: decoders_run_def)
          with push_queue_in(1) [OF True] decoder_runs_inv [of L C d] have "over d" by (simp add: dec_inv_def reasons_def)
          then have "over_dec ?t v" by (simp add: t over_dec_def push_queue_in)
          with True show ?thesis by (simp add: closing_down_def t)
        qed (use on S_queue in \<open>simp add: closing_down_def t\<close>)
      qed
    next
      case S_described
      with assms(3) described_exact [OF assms(8)] have "\<forall>p. fst (ms_result s) \<noteq> R_packet p" by (simp add: ends_taken_def)
      with S_described show ?thesis
        by (auto simp: closing_down_def worker_ms_def submit_result_def Let_def split: read_answer.split)
    next
      case S_submitted
      with assms(2) show ?thesis by (simp add: closing_down_def worker_ms_def looping_def)
    next
      case (S_init d k)
      with on have "k = S_observer" by simp
      with S_init show ?thesis
        by (auto simp: worker_ms_def Initialize_ms_def closing_down_def split: option.split sum.split)
    next
      case (S_session k)
      with on show ?thesis by (simp add: closing_down_def worker_ms_def publish_session_def)
    next
      case (S_check k)
      with on have "k = S_dispatch" by simp
      with S_check show ?thesis by (simp add: closing_down_def worker_ms_def split: option.split)
    next
      case S_observer
      then show ?thesis by (simp add: closing_down_def worker_ms_def split: option.split read_answer.split)
    next
      case S_dispatch
      then show ?thesis by (simp add: closing_down_def worker_ms_def dispatch_def)
    next
      case (S_mark v i k)
      with on show ?thesis by (auto simp: closing_down_def worker_ms_def on_decoder_def)
    qed (use on in simp_all)
  qed
qed

lemma single_reading:
  assumes "ms_point s = S_reading" "single_pass s" "finals s"
  shows "single_pass (worker_ms L C E s)"
proof -
  have "\<not> ms_final s" using assms(1,3) by (auto simp: finals_def)
  then have "\<not> closing_down (ms_point s) s" by (simp add: closing_down_def assms(1))
  with assms(2) have p: "list_all is_packet (mh_taken s)" if "\<not> looping s"
    using that by (cases "mh_taken s" rule: rev_cases) (auto simp: single_pass_def ends_taken_def is_packet_def)
  have l: "looping (worker_ms L C E s) = looping s" by (simp add: looping_def worker_config)
  show ?thesis
  proof (cases "\<exists>x d. read_outcome (ms_proxy s) = Some (x, d) \<and> x \<noteq> R_null")
    case True
    then obtain x d where x: "read_outcome (ms_proxy s) = Some (x, d)" "x \<noteq> R_null" by blast
    then have "mh_taken (worker_ms L C E s) = mh_taken s @ [(x, d)]" "ms_point (worker_ms L C E s) = S_init d S_observer"
      by (simp_all add: worker_ms_def read_proxy_def assms(1) on_proxy_def)
    with p show ?thesis by (simp add: single_pass_def l closing_down_def)
  next
    case False
    then have "mh_taken (worker_ms L C E s) = mh_taken s"
      by (auto simp: worker_ms_def read_proxy_def assms(1) on_proxy_def Let_def split: option.split)
    with p show ?thesis
      by (cases "mh_taken s" rule: rev_cases) (auto simp: single_pass_def l ends_taken_def is_packet_def)
  qed
qed

lemma linked_step:
  assumes "sourcing L C D s t" "source_inv L C D s" "source_inv L C D t" "linked s"
  shows "linked t"
proof -
  from assms(2) have h: "shaped (ms_point s)" "phases s" "lists_ok s" "proxy_calls s" and p: "proxy_runs D (ms_proxy s)"
    by (simp_all add: source_inv_def)
  from assms(3) have q: "proxy_runs D (ms_proxy t)" by (simp add: source_inv_def)
  have cfg: "px_config (ms_proxy t) = px_config (ms_proxy s)"
    using proxy_moves [OF assms(1) h(3,4)] proxying_config by metis
  have keep: "linked t" if "ms_config t = ms_config s" "ph_answers (ms_proxy t) = ph_answers (ms_proxy s)" "mh_taken t = mh_taken s"
    using assms(4) that by (simp add: linked_def looping_def cfg)
  from assms(1) show ?thesis
  proof (cases rule: sourcing_cases)
    case (worker E)
    show ?thesis
    proof (cases "ms_point s = S_reading")
      case True
      have px: "ms_proxy t = consume_px (ms_proxy s)"
        by (simp add: worker(2) worker_ms_def read_proxy_def True Let_def split: option.split prod.split)
      with proxy_runs_inv [OF q] have "described (consume_px (ms_proxy s))" by (simp add: proxy_inv_def)
      with reading_answers [OF True assms(4) proxy_runs_inv [OF p] proxy_runs_accounts [OF p], of L C E] assms(4)
        cfg [unfolded worker(2)] show ?thesis
        by (simp add: linked_def looping_def worker(2) worker_config)
    next
      case False
      with worker_answers [OF this, of L C E] show ?thesis by (intro keep) (simp_all add: worker(2) worker_config)
    qed
  next
    case other
    have "ph_answers (ms_proxy t) = ph_answers (ms_proxy s)"
      using other
    proof cases
      case proxy_worker
      then show ?thesis by (simp add: step_proxy_def ProxyChanged_def Let_def split: proxy_point.split)
    next
      case (decoder v d)
      then show ?thesis by (simp add: step_decoder_def DecoderFailed_def Let_def split: option.split)
    next
      case (helper i)
      from helper(2) show ?thesis
        by (cases rule: step_helper_cases) (simp_all add: helper(1) act_answers)
    next
      case (read_frame v)
      then show ?thesis by (simp add: ReadFrame_ms_def split: ms_reader.split option.split dec_consumer.split prod.split)
    qed (simp_all add: RequestStop_ms_def ReadSession_def)
    with other_beside [OF other h(3)] show ?thesis by (intro keep) (simp_all add: beside_def)
  next
    case join
    then show ?thesis by (intro keep) (simp_all add: join_ms_def)
  next
    case (start created url)
    show ?thesis
    proof (cases rule: Start_ms_cases [of created url s])
      case same
      with assms(4) start(2) show ?thesis by simp
    next
      case reset
      show ?thesis
        by (cases created) (use reset assms(4) in \<open>auto simp: start(2) linked_def looping_def\<close>)
    qed
  qed
qed

lemma single_step:
  assumes "sourcing L C D s t" "source_inv L C D s" "well_grounded s" "fed s" "finals s" "single_pass s"
  shows "single_pass t"
proof -
  from assms(2) have h: "shaped (ms_point s)" "phases s" "lists_ok s" "decoders_run L C s" by (simp_all add: source_inv_def)
  from assms(1) show ?thesis
  proof (cases rule: sourcing_cases)
    case (worker E)
    show ?thesis
    proof (cases "ms_point s = S_reading")
      case True
      from single_reading [OF this assms(6,5)] show ?thesis by (simp add: worker(2))
    next
      case False
      note a = worker_answers [OF False, of L C E]
      have "looping t = looping s" "ends_taken t = ends_taken s" by (simp_all add: worker(2) looping_def worker_config ends_taken_def a)
      with assms(6) closing_down_worker [OF _ _ _ h(1) worker(1) h(2) assms(3,4) h(4), of E] show ?thesis
        by (simp add: single_pass_def worker(2) a)
    qed
  next
    case other
    from other_beside [OF other h(3)] have b: "ms_point t = ms_point s" "mh_taken t = mh_taken s" "ms_config t = ms_config s"
      "ms_final t = ms_final s" "ms_stopping s \<Longrightarrow> ms_stopping t" "ms_failure s \<noteq> None \<Longrightarrow> ms_failure t = ms_failure s"
      by (simp_all add: beside_def)
    from closing_down_mono [OF _ _ b(5) _ other_still [OF other], of "ms_point s"] b(4,6) assms(6) show ?thesis
      by (auto simp: single_pass_def b(1-3) looping_def ends_taken_def)
  next
    case join
    with assms(6) show ?thesis by (auto simp: single_pass_def looping_def ends_taken_def join_ms_def exiting_closing)
  next
    case (start created url)
    show ?thesis
    proof (cases rule: Start_ms_cases [of created url s])
      case same
      with assms(6) start(2) show ?thesis by simp
    next
      case reset
      with h(2) have "ms_point s = S_none" by (simp add: phases_def)
      then show ?thesis
        by (cases created) (use reset assms(6) in \<open>auto simp: start(2) single_pass_def looping_def ends_taken_def exiting_closing\<close>)
    qed
  qed
qed

lemma source_runs_orderly:
  assumes "source_runs L C D t"
  shows "linked t \<and> single_pass t"
proof -
  from assms obtain c s where s: "AvMediaSource_new c = Inr s" "(sourcing L C D)\<^sup>*\<^sup>* s t" by (auto simp: source_runs_def)
  from s(2) have "source_runs L C D t \<and> linked t \<and> single_pass t"
  proof induction
    case base
    from s(1) obtain p where p: "AvInputProxy_new (sc_proxy c) = Inr p" "ms_proxy s = p" "ms_config s = c" "mh_taken s = []"
      by (auto simp: AvMediaSource_new_def chain_def split: sum.splits)
    from p(1) have "px_config p = sc_proxy c" by (auto simp: AvInputProxy_new_def chain_def split: sum.splits if_splits)
    with p(2-4) have "linked s \<and> single_pass s" by (simp add: linked_def single_pass_def ends_taken_def)
    moreover have "source_runs L C D s" using s(1) unfolding source_runs_def by blast
    ultimately show ?case by simp
  next
    case (step t u)
    then have r: "source_runs L C D t" "linked t" "single_pass t" by simp_all
    have u: "source_runs L C D u" using r(1) step(2) unfolding source_runs_def by (metis rtranclp.rtrancl_into_rtrancl)
    from source_runs_ending [OF r(1)] have "finals t" by (simp add: ending_def)
    with u linked_step [OF step(2) source_runs_inv [OF r(1)] source_runs_inv [OF u] r(2)]
      single_step [OF step(2) source_runs_inv [OF r(1)] _ source_runs_fed [OF r(1)] _ r(3)] source_runs_stops [OF r(1)]
    show ?case by simp
  qed
  then show ?thesis by simp
qed

lemma source_turns:
  assumes "source_runs L C D t"
  shows "turns (mh_taken t)"
proof (cases "looping t")
  case True
  from source_runs_orderly [OF assms] True obtain as where as: "ph_answers (ms_proxy t) = as @ map answer_of (mh_taken t)"
    and d: "\<forall>a \<in> set (mh_taken t). snd a \<noteq> None" by (auto simp: linked_def)
  from source_runs_inv [OF assms] have "proxy_runs D (ms_proxy t)" by (simp add: source_inv_def)
  then have "successively earlier (ph_answers (ms_proxy t))" by (auto dest!: proxy_runs_inv simp: proxy_inv_def sequenced_def)
  then have "successively earlier (map answer_of (mh_taken t))" by (simp add: as successively_append_iff)
  with d show ?thesis by (intro answers_turns) auto
next
  case False
  with source_runs_orderly [OF assms] have p: "list_all is_packet (butlast (mh_taken t))" by (simp add: single_pass_def)
  show ?thesis
  proof (cases "mh_taken t" rule: rev_cases)
    case (snoc xs a)
    with p have "\<forall>x \<in> set xs. is_packet x" by (simp add: list_all_iff)
    then have "turns (xs @ [a])" unfolding turns_def
      by (induction xs) (auto simp: successively_Cons)
    with snoc show ?thesis by simp
  qed (simp add: turns_def)
qed

end
