(* ===== verification/Source_Props.thy ===== *)
theory Source_Props
  imports Source_Order
begin

text \<open>The properties of the media source of \<open>Media_Source\<close>.\<close>

section \<open>Properties\<close>

text \<open>
  C2: What the decoder of a track has accepted is always a prefix of what \<open>feed_ms\<close> reads off the results of the
  reads of the proxy: the packets of its track in order, a reset before the first result of another connection,
  and an end of stream for every end of file. While the source reads it is all of it.
\<close>
theorem source_feeds:
  assumes "source_runs L C D t" "ms_decoders t v = Some d"
  shows "prefix (dh_in d) (feed_ms v (ii_video (ms_description t)) None (mh_taken t)) \<and>
    (ms_point t = S_reading \<longrightarrow> dh_in d = feed_ms v (ii_video (ms_description t)) None (mh_taken t))"
proof -
  have f: "feed_ms v (ii_video (ms_description t)) None (mh_taken t) = fed_to v t" by (simp add: fed_to_def video_of_def)
  from source_runs_fed [OF assms(1)] assms(2) have "exact t \<or> cut_short t" by (auto simp: fed_def split: if_splits)
  then show ?thesis
    unfolding f
  proof
    assume e: "exact t"
    with exact_prefix [OF e assms(2)] assms(2) show "prefix (dh_in d) (fed_to v t) \<and> (ms_point t = S_reading \<longrightarrow> dh_in d = fed_to v t)"
      by (auto simp: exact_def owed_to_def)
  next
    assume "cut_short t"
    with assms(2) show "prefix (dh_in d) (fed_to v t) \<and> (ms_point t = S_reading \<longrightarrow> dh_in d = fed_to v t)"
      by (auto simp: cut_short_def)
  qed
qed

text \<open>
  C21: A source submits nothing out of order: a decoder never refuses a call of the source with an exception, as it
  does when something other than a reset follows an end of stream.
\<close>
theorem source_in_order:
  assumes "source_runs L C D t" "ms_point t = S_push v i k" "ms_decoders t v = Some d"
  shows "\<exists>ok e. Push_dec True i d = (Inr ok, e)"
proof -
  note inv = source_runs_inv [OF assms(1), unfolded source_inv_def]
  from source_runs_fed [OF assms(1)] assms(2,3) have e: "exact t" by (auto simp: fed_def cut_short_def split: if_splits)
  have "ordered (fed_to v t)" using feed_ordered [OF source_turns [OF assms(1)]] by (simp add: fed_to_def)
  moreover have "dh_in d @ owed_to t v = fed_to v t" using e assms(3) by (simp add: exact_def)
  then have "fed_to v t = dh_in d @ i # todo (own_part v (video_of t) (fst (ms_result t))) k v"
    using assms(2) by (simp add: owed_to_def)
  ultimately have o: "dh_in d \<noteq> [] \<Longrightarrow> last (dh_in d) = In_eof \<Longrightarrow> i = In_reset" by (metis ordered_at)
  from inv assms(2,3) have "dc_producer d = U_idle" "decoder_runs L C d" by (auto simp: decoder_calls_alt decoders_run_def)
  with decoder_runs_inv [of L C d] have "dc_submitted_eof d = ends_in_eof (dh_in d)" by (simp add: dec_inv_def admission_def)
  with o have "\<not> (dc_submitted_eof d \<and> i \<noteq> In_reset)" by (auto simp: ends_in_eof_def)
  then show ?thesis by (auto simp: Push_dec_def act_defs)
qed

text \<open>
  C3: When a source publishes that it has ended, every decoder has accepted everything \<open>feed_ms\<close> prescribes, which
  closes with an end of stream, and the consumers have read the end of stream of every decoder.
\<close>
theorem source_ends:
  assumes "source_runs L C D t" "ST_ended \<in> set (mh_states t)" "ms_decoders t v = Some d"
  shows "dh_in d = feed_ms v (ii_video (ms_description t)) None (mh_taken t) \<and> ends_in_eof (dh_in d) \<and>
    KEof \<in> rr_status ` set (dh_read d)"
proof -
  from source_runs_ending [OF assms(1)] have n: "finals t" "eofs_ok t" "ended_well t" "states_ok t" by (simp_all add: ending_def)
  from n(4) assms(2) have ended: "ms_ended t" by (simp add: states_ok_def)
  from source_runs_fed [OF assms(1)] assms(3) ended have e: "exact t" "exiting (ms_point t)"
    by (auto simp: fed_def cut_short_def split: if_splits)
  have "owed_to t v = []" using e(2) by (cases "ms_point t") (auto simp: owed_to_def)
  moreover have "dh_in d @ owed_to t v = fed_to v t" using e(1) assms(3) by (simp add: exact_def)
  ultimately have all: "dh_in d = fed_to v t" by simp
  from n(3) ended assms(3) have fin: "ms_final t" "ms_eofs t v" by (auto simp: ended_well_def)
  from n(1) fin(1) have taken: "ends_taken t" by (simp add: finals_def)
  then obtain xs x c where x: "mh_taken t = xs @ [(x, c)]" "\<forall>p. x \<noteq> R_packet p"
    by (cases "mh_taken t" rule: rev_cases) (auto simp: ends_taken_def)
  from x(2) have "own_part v (video_of t) x = [In_eof]" by (cases x) simp_all
  then have "ends_in_eof (fed_to v t)" by (simp add: fed_to_def x(1) feed_snoc ends_in_eof_def)
  moreover from n(2) fin(2) have "eof_read v t" unfolding eofs_ok_def by blast
  ultimately show ?thesis using all assms(3) by (auto simp: eof_read_def fed_to_def video_of_def)
qed

text \<open>
  C22: The states a source publishes close with at most one of failed, stopped and ended, after which it publishes
  nothing until the next start; a worker that has returned has published one, and it is the state of the status.
\<close>
theorem source_states:
  assumes "source_runs L C D t"
  shows "list_all (\<lambda>st. \<not> closing_state st) (butlast (mh_states t)) \<and>
    (ms_point t = S_done \<longrightarrow> mh_states t \<noteq> [] \<and> last (mh_states t) = ss_state (ms_status t) \<and> closing_state (ss_state (ms_status t)))"
proof -
  have g: "going_on hs \<Longrightarrow> going_on (butlast hs)" for hs
    by (cases hs rule: rev_cases) (simp_all add: going_on_def)
  from source_runs_ending [OF assms] have s: "states_at (ms_point t) t" by (simp add: ending_def states_ok_def)
  have "going_on (butlast (mh_states t))"
    using s by (cases "ms_point t") (auto simp: states_at_def running_hist_def failed_hist_def split: if_splits intro: g)
  with s show ?thesis by (auto simp: going_on_def states_at_def)
qed

text \<open>
  C4: A stop and a failure reach every decoder, also those that are being created meanwhile: once a source with a
  session was stopped or has failed, each of its decoders was told to stop, or a thread still has to do it.
\<close>
theorem source_stop_reaches:
  assumes "source_runs L C D t" "ms_session t" "ms_stopping t \<or> ms_failure t \<noteq> None" "ms_decoders t v = Some d"
  shows "dc_stopping d \<or> pending_ms v t"
proof -
  from source_runs_stops [OF assms(1)] assms(2-4) have "stopped_dec v t \<or> pending_ms v t"
    by (auto simp: reaching_def called_off_def)
  with assms(4) show ?thesis by (simp add: stopped_dec_def)
qed

text \<open>
  C23: Within a source the proxy and the decoders do only what they do by themselves, from their constructors on,
  so that every property of theirs holds there.
\<close>
theorem source_parts:
  assumes "source_runs L C D t"
  shows "proxy_runs D (ms_proxy t) \<and> (\<forall>v d. ms_decoders t v = Some d \<longrightarrow> decoder_runs L C d)"
  using source_runs_inv [OF assms] by (simp add: source_inv_def decoders_run_def)

section \<open>A sample source\<close>

definition sample_codec :: "answer list codec_lib" where
  "sample_codec = demo_codec\<lparr>cl_by_id := (\<lambda>i. Some \<lparr>co_name = ''c'', co_id = i,
     co_type = (if i = AV_CODEC_ID_AAC then Media_audio else Media_video), co_hardware = False, co_configs = []\<rparr>)\<rparr>"

definition sample_ms_config :: source_config where
  "sample_ms_config = \<lparr>sc_proxy = sample_px_config, sc_video = demo_config, sc_audio = demo_config, sc_device = None\<rparr>"

type_synonym sample_source = "(demux_answer list, answer list) source"

definition the_source :: "sample_source result \<Rightarrow> sample_source" where
  "the_source r = (case r of Inr s \<Rightarrow> s | Inl e \<Rightarrow> undefined)"

definition fresh_source :: sample_source where
  "fresh_source = the_source (AvMediaSource_new sample_ms_config)"

definition started_source :: sample_source where
  "started_source = snd (Start_ms True ''a'' fresh_source)"

text \<open>A connection with one track, and no packet.\<close>

definition short_demux :: "demux_answer list demux_lib" where
  "short_demux = sample_demux\<lparr>dl_open := (\<lambda>_ _. Inr []),
     dl_describe := (\<lambda>_. \<lparr>fd_streams = [sample_track 0 Media_video], fd_start = 0, fd_duration = 0, fd_jumps = False\<rparr>)\<rparr>"

text \<open>A scheduler: the worker, calls of the source, the proxy, its connection, the decoders, then the readers.\<close>

definition good_luck :: ambience where
  "good_luck = \<lparr>en_thread = True, en_decoder = (\<lambda>_. True), en_observer = None\<rparr>"

definition turn_track :: "bool \<Rightarrow> sample_source \<Rightarrow> sample_source option" where
  "turn_track v s =
     (case ms_decoders s v of
        None \<Rightarrow> None
      | Some d \<Rightarrow>
          if worker_ready d then Some (step_decoder ref_lib sample_codec v s)
          else if ms_readers s v \<noteq> G_idle then Some (ReadFrame_ms v s)
          else if items (dc_frames d) \<noteq> [] then Some (ReadSession v s)
          else None)"

definition turn_input :: "demux_answer list demux_lib \<Rightarrow> sample_source \<Rightarrow> sample_source option" where
  "turn_input D s =
     (case px_current (ms_proxy s) of
        None \<Rightarrow> None
      | Some i \<Rightarrow>
          if length (px_inputs (ms_proxy s)) \<le> i then None
          else if control_ready (px_inputs (ms_proxy s) ! i) then Some (on_proxy (step_input_control D True 0 i) s)
          else if input_ready (px_inputs (ms_proxy s) ! i) then Some (on_proxy (step_input_worker D 0 i) s)
          else None)"

definition turn_ms :: "demux_answer list demux_lib \<Rightarrow> sample_source \<Rightarrow> sample_source" where
  "turn_ms D s =
     (if source_ready s then worker_ms ref_lib sample_codec good_luck s
      else if ms_helpers s \<noteq> [] then step_helper 0 s
      else if proxy_ready (ms_proxy s) then step_proxy s
      else case turn_input D s of
        Some t \<Rightarrow> t
      | None \<Rightarrow> (case turn_track True s of Some t \<Rightarrow> t | None \<Rightarrow> (case turn_track False s of Some t \<Rightarrow> t | None \<Rightarrow> s)))"

fun drive_ms :: "demux_answer list demux_lib \<Rightarrow> nat \<Rightarrow> sample_source \<Rightarrow> sample_source" where
  "drive_ms D 0 s = s"
| "drive_ms D (Suc n) s = drive_ms D n (turn_ms D s)"

lemma turn_track_run: "turn_track v s = Some t \<Longrightarrow> sourcing ref_lib sample_codec D s t"
  by (auto simp: turn_track_def split: option.splits if_splits intro: sourcing.intros)

lemma turn_input_run: "turn_input D s = Some t \<Longrightarrow> sourcing L C D s t"
  by (auto simp: turn_input_def not_le split: option.splits if_splits intro: sourcing.intros)

lemma turn_ms_run: "(sourcing ref_lib sample_codec D)\<^sup>*\<^sup>* s (turn_ms D s)"
proof -
  have "sourcing ref_lib sample_codec D s (turn_ms D s) \<or> turn_ms D s = s"
    by (auto simp: turn_ms_def has_helper_def intro: sourcing.intros turn_track_run turn_input_run split: option.split)
  then show ?thesis by auto
qed

lemma drive_ms_run: "(sourcing ref_lib sample_codec D)\<^sup>*\<^sup>* s (drive_ms D n s)"
proof (induction n arbitrary: s)
  case (Suc n)
  from rtranclp_trans [OF turn_ms_run Suc] show ?case by simp
qed simp

lemma fresh_source: "AvMediaSource_new sample_ms_config = Inr fresh_source"
proof -
  have "ValidateDecoderConfig demo_config = Inr ()" by (simp add: ValidateDecoderConfig_def demo_config_def)
  then show ?thesis
    by (simp add: fresh_source_def the_source_def AvMediaSource_new_def sample_ms_config_def fresh_proxy chain_def)
qed

lemma source_started: "source_runs ref_lib sample_codec D (drive_ms D n started_source)"
proof -
  have "px_cancels fresh_proxy = []" by (simp add: fresh_proxy_def the_proxy_def AvInputProxy_new_def sample_px_config_def
      AvInput_new_def sample_in_config_def)
  moreover have "ValidateDecoderConfig demo_config = Inr ()" by (simp add: ValidateDecoderConfig_def demo_config_def)
  ultimately have "quiet fresh_source"
    by (simp add: quiet_def fresh_source_def the_source_def AvMediaSource_new_def sample_ms_config_def fresh_proxy)
  then have "sourcing ref_lib sample_codec D fresh_source started_source" unfolding started_source_def by (rule sourcing.start)
  with drive_ms_run fresh_source show ?thesis
    unfolding source_runs_def by (blast intro: converse_rtranclp_into_rtranclp)
qed

text \<open>What the samples are asked for, at one go.\<close>

definition glance :: "sample_source \<Rightarrow> source_point \<times> source_state list \<times> int \<times> bool \<times> bool \<times> (bool \<times> dec_input list) option" where
  "glance s = (ms_point s, mh_states s, ii_video (ms_description s), ms_session s, ms_stopping s,
     map_option (\<lambda>d. (dc_stopping d, dh_in d)) (ms_decoders s True))"

theorem source_feeds_witness:
  "\<exists>d. ms_decoders (drive_ms sample_demux 104 started_source) True = Some d \<and>
     dh_in d = feed_ms True 0 None (mh_taken (drive_ms sample_demux 104 started_source)) \<and> dh_in d = [In_packet (piece 0)]"
proof -
  let ?s = "drive_ms sample_demux 104 started_source"
  have "glance ?s = (S_reading, [ST_connecting, ST_running], 0, True, False, Some (False, [In_packet (piece 0)]))"
    by code_simp
  then obtain d where "ms_point ?s = S_reading" "ii_video (ms_description ?s) = 0" "ms_decoders ?s True = Some d" "dh_in d = [In_packet (piece 0)]"
    by (auto simp: glance_def)
  with source_feeds [OF source_started, of sample_demux 104 True d] show ?thesis by auto
qed

theorem source_in_order_witness:
  "\<exists>d ok e. ms_decoders (drive_ms sample_demux 89 started_source) True = Some d \<and>
     Push_dec True (In_packet (piece 0)) d = (Inr ok, e)"
proof -
  let ?s = "drive_ms sample_demux 89 started_source"
  have "glance ?s = (S_push True (In_packet (piece 0)) (S_turn True), [ST_connecting, ST_running], 0, True, False, Some (False, []))"
    by code_simp
  then obtain d where "ms_point ?s = S_push True (In_packet (piece 0)) (S_turn True)" "ms_decoders ?s True = Some d" by (auto simp: glance_def)
  with source_in_order [OF source_started, of sample_demux 89 True "In_packet (piece 0)" "S_turn True" d] show ?thesis by blast
qed

definition ended_source :: sample_source where
  "ended_source = drive_ms short_demux 185 started_source"

lemma ended_source: "mh_states ended_source = [ST_connecting, ST_running, ST_draining, ST_ended] \<and> ms_point ended_source = S_done \<and>
    ms_decoders ended_source True \<noteq> None"
proof -
  have "glance ended_source = (S_done, [ST_connecting, ST_running, ST_draining, ST_ended], 0, False, False, Some (True, [In_eof]))"
    by code_simp
  then show ?thesis by (auto simp: glance_def)
qed

lemma ended_source_runs: "source_runs ref_lib sample_codec short_demux ended_source"
  unfolding ended_source_def by (rule source_started)

theorem source_ends_witness: "\<exists>d. ms_decoders ended_source True = Some d \<and> KEof \<in> rr_status ` set (dh_read d)"
proof -
  obtain d where d: "ms_decoders ended_source True = Some d" using ended_source by auto
  have "ST_ended \<in> set (mh_states ended_source)" by (simp add: ended_source)
  from source_ends [OF ended_source_runs this d] d show ?thesis by blast
qed

theorem source_states_witness: "last (mh_states ended_source) = ss_state (ms_status ended_source)"
  using source_states [OF ended_source_runs] ended_source by blast

text \<open>A stop between the creation of a session and its publication.\<close>

definition early_source :: sample_source where
  "early_source = drive_ms short_demux 67 started_source"

definition stopped_source :: sample_source where
  "stopped_source = worker_ms ref_lib sample_codec good_luck (RequestStop_ms early_source)"

lemma stopped_source: "source_ready (RequestStop_ms early_source) \<and> ms_session stopped_source \<and> ms_stopping stopped_source \<and>
    map_option dc_stopping (ms_decoders stopped_source True) = Some False"
proof -
  have "source_ready (RequestStop_ms early_source)" by code_simp
  moreover have "snd (glance stopped_source) = ([ST_connecting], 0, True, True, Some (False, []))"
    by code_simp
  ultimately show ?thesis by (auto simp: glance_def)
qed

lemma stopped_source_runs: "source_runs ref_lib sample_codec short_demux stopped_source"
proof -
  have "sourcing ref_lib sample_codec short_demux early_source (RequestStop_ms early_source)" by (rule sourcing.request)
  moreover have "sourcing ref_lib sample_codec short_demux (RequestStop_ms early_source) stopped_source"
    unfolding stopped_source_def by (rule sourcing.worker) (simp add: stopped_source)
  moreover have "source_runs ref_lib sample_codec short_demux early_source" unfolding early_source_def by (rule source_started)
  ultimately show ?thesis unfolding source_runs_def by (metis rtranclp.rtrancl_into_rtrancl)
qed

theorem source_stop_reaches_witness: "pending_ms True stopped_source"
proof -
  obtain d where d: "ms_decoders stopped_source True = Some d" "\<not> dc_stopping d" using stopped_source by auto
  with source_stop_reaches [OF stopped_source_runs _ _ d(1)] stopped_source show ?thesis by blast
qed

theorem source_parts_witness: "\<exists>d. ms_decoders stopped_source True = Some d \<and> decoder_runs ref_lib sample_codec d"
  using source_parts [OF stopped_source_runs] stopped_source by auto

end
