(* ===== verification/Media_Filter.thy ===== *)
theory Media_Filter
  imports Av_Model
begin

text \<open>
  \<^verbatim>\<open>filter/av_media_filter.cc\<close>: business callbacks run on frames by any number of threads, under a session that
  is started, reset and stopped.

  The mutex makes each critical section one step; \<open>OnStart\<close>, \<open>OnReset\<close> and \<open>OnStop\<close> run inside one, \<open>OnAudio\<close> and
  \<open>OnVideo\<close> outside. A waiting thread is asleep_mf from the check of its condition to a notification. A thread is a
  number below the length of \<open>mf_threads\<close>, which holds where it is. Callbacks, the CUDA driver and \<open>av_buffer_ref\<close> are
  outside: what they do in a step is in its \<open>filter_env\<close>. A CUDA device is a number, which also names its context.
  Latency statistics and log messages are left out.

  Histories: the events of the sessions (\<open>mh_log\<close>), what each thread did with the context stack of the driver
  (\<open>mh_bound\<close>), the failures since the last start (\<open>mh_errors\<close>), and the calls that returned with what their callback
  did (\<open>mh_answers\<close>).
\<close>

section \<open>State\<close>

record hw_frames =
  hf_data :: bool
  hf_ref :: "nat option"
  hf_cuda :: bool
  hf_native :: bool
  hf_context :: bool

record filter_lib =
  fl_cuda :: int
  fl_frames :: "av_frame \<Rightarrow> hw_frames option"

record filter_env =
  fe_bind :: bool
  fe_pop :: bool
  fe_ref :: "exn option"
  fe_frame :: "frame_slot result"
  fe_done :: "unit result"

record filter_call =
  fc_input :: read_result
  fc_video :: bool
  fc_consume :: bool

datatype filter_point =
    F_idle
  | F_run filter_call
  | F_device filter_call nat
  | F_callback filter_call "nat option"
  | F_finish filter_call frame_slot read_result
  | F_fail filter_call "frame_slot result option" exn
  | F_stop bool
  | F_join bool
  | F_reset bool

datatype filter_event =
    E_start
  | E_retain nat
  | E_call nat
  | E_return nat
  | E_reset "nat option"
  | E_stop "nat option"

datatype driver_op = Op_push nat | Op_pop

datatype callback_slot = On_start | On_stop | On_reset | On_audio | On_video

record av_filter =
  mf_callbacks :: "callback_slot set"
  mf_active :: nat
  mf_started :: bool
  mf_stopping :: bool
  mf_error :: "exn option"
  mf_device :: "nat option"
  mf_threads :: "filter_point list"
  mh_log :: "filter_event list"
  mh_bound :: "nat \<Rightarrow> driver_op list"
  mh_errors :: "exn list"
  mh_answers :: "(filter_call \<times> frame_slot result option \<times> read_result result) list"

definition AvMediaFilter_new :: "nat \<Rightarrow> av_filter" where
  "AvMediaFilter_new n =
     \<lparr>mf_callbacks = {}, mf_active = 0, mf_started = False, mf_stopping = False, mf_error = None, mf_device = None,
      mf_threads = replicate n F_idle, mh_log = [], mh_bound = (\<lambda>_. []), mh_errors = [], mh_answers = []\<rparr>"

definition goto_mf :: "nat \<Rightarrow> filter_point \<Rightarrow> av_filter \<Rightarrow> av_filter" where
  "goto_mf i p s = s\<lparr>mf_threads := (mf_threads s)[i := p]\<rparr>"

definition logged :: "filter_event \<Rightarrow> av_filter \<Rightarrow> av_filter" where
  "logged e s = s\<lparr>mh_log := mh_log s @ [e]\<rparr>"

definition driven :: "nat \<Rightarrow> driver_op list \<Rightarrow> av_filter \<Rightarrow> av_filter" where
  "driven i xs s = s\<lparr>mh_bound := (mh_bound s)(i := mh_bound s i @ xs)\<rparr>"

definition answered_mf :: "filter_call \<Rightarrow> frame_slot result option \<Rightarrow> read_result result \<Rightarrow> av_filter \<Rightarrow> av_filter" where
  "answered_mf c x r s = s\<lparr>mh_answers := mh_answers s @ [(c, x, r)]\<rparr>"

text \<open>\<^verbatim>\<open>idle_.notify_all()\<close>.\<close>

definition awake :: "filter_point \<Rightarrow> filter_point" where
  "awake p = (case p of F_stop _ \<Rightarrow> F_stop False | F_join _ \<Rightarrow> F_join False | F_reset _ \<Rightarrow> F_reset False | _ \<Rightarrow> p)"

definition notify_idle :: "av_filter \<Rightarrow> av_filter" where
  "notify_idle s = s\<lparr>mf_threads := map awake (mf_threads s)\<rparr>"

section \<open>Devices\<close>

definition VideoDevice :: "filter_lib \<Rightarrow> av_frame \<Rightarrow> bool \<Rightarrow> nat option result" where
  "VideoDevice L f video =
     (if \<not> video \<or> fr_format f \<noteq> fl_cuda L then Inr None
      else case fl_frames L f of
        None \<Rightarrow> Inl Invalid_argument
      | Some h \<Rightarrow>
          if \<not> hf_data h then Inl Invalid_argument
          else if hf_ref h = None \<or> \<not> hf_cuda h \<or> \<not> hf_native h then Inl Invalid_argument
          else if \<not> hf_context h then Inl Invalid_argument
          else Inr (hf_ref h))"

text \<open>
  \<open>VideoContextScope\<close>, around a callback whose outcome is given: what comes out, and the calls of the driver. The
  destructor gives the context back when the callback throws; \<open>Finish\<close> gives it back otherwise, and may throw.
\<close>

definition binds :: "nat option \<Rightarrow> driver_op list" where
  "binds d = (case d of None \<Rightarrow> [] | Some k \<Rightarrow> [Op_push k])"

definition unbinds :: "nat option \<Rightarrow> driver_op list" where
  "unbinds d = (case d of None \<Rightarrow> [] | Some k \<Rightarrow> [Op_pop])"

definition leave_scope :: "filter_env \<Rightarrow> nat option \<Rightarrow> 'a result \<Rightarrow> 'a result" where
  "leave_scope E d r =
     (case r of
        Inl e \<Rightarrow> Inl e
      | Inr x \<Rightarrow> if d \<noteq> None \<and> \<not> fe_pop E then Inl Runtime_error else Inr x)"

definition can_bind :: "filter_env \<Rightarrow> nat option \<Rightarrow> bool" where
  "can_bind E d \<longleftrightarrow> d = None \<or> fe_bind E"

text \<open>A whole scope, as around \<open>OnReset\<close> and \<open>OnStop\<close>.\<close>

definition scoped :: "filter_env \<Rightarrow> nat option \<Rightarrow> unit result \<times> driver_op list" where
  "scoped E d =
     (if can_bind E d then (leave_scope E d (fe_done E), binds d @ unbinds d) else (Inl Runtime_error, []))"

section \<open>Life cycle\<close>

definition Configure :: "callback_slot \<Rightarrow> bool \<Rightarrow> av_filter \<Rightarrow> unit result \<times> av_filter" where
  "Configure c present s =
     (if mf_started s then (Inl Logic_error, s)
      else (Inr (), s\<lparr>mf_callbacks := (if present then insert c (mf_callbacks s) else mf_callbacks s - {c})\<rparr>))"

definition Start_mf :: "filter_env \<Rightarrow> av_filter \<Rightarrow> unit result \<times> av_filter" where
  "Start_mf E s =
     (if mf_started s then (Inl Logic_error, s)
      else case (if On_start \<in> mf_callbacks s then fe_done E else Inr ()) of
        Inl e \<Rightarrow> (Inl e, s)
      | Inr _ \<Rightarrow> (Inr (), logged E_start (s\<lparr>mf_error := None, mf_started := True, mh_errors := []\<rparr>)))"

text \<open>The waits of \<open>Stop\<close> and \<open>Reset\<close>, with what follows them under the lock.\<close>

definition stop_wait :: "filter_env \<Rightarrow> nat \<Rightarrow> av_filter \<Rightarrow> av_filter" where
  "stop_wait E i s =
     (if mf_active s \<noteq> 0 then goto_mf i (F_stop True) s
      else
        let d = mf_device s;
            s = logged (E_stop d) (notify_idle (s\<lparr>mf_started := False, mf_stopping := False, mf_device := None\<rparr>));
            s = goto_mf i F_idle s
        in if On_stop \<in> mf_callbacks s then driven i (snd (scoped E d)) s else s)"

definition join_wait :: "nat \<Rightarrow> av_filter \<Rightarrow> av_filter" where
  "join_wait i s = goto_mf i (if mf_stopping s then F_join True else F_idle) s"

definition Stop_mf :: "filter_env \<Rightarrow> nat \<Rightarrow> av_filter \<Rightarrow> av_filter" where
  "Stop_mf E i s =
     (if \<not> mf_started s then s
      else if mf_stopping s then join_wait i s
      else stop_wait E i (s\<lparr>mf_stopping := True\<rparr>))"

definition reset_wait :: "filter_env \<Rightarrow> nat \<Rightarrow> av_filter \<Rightarrow> av_filter" where
  "reset_wait E i s =
     (if mf_active s \<noteq> 0 then goto_mf i (F_reset True) s
      else
        let s = goto_mf i F_idle s in
        if mf_error s \<noteq> None \<or> On_reset \<notin> mf_callbacks s then s
        else
          let d = mf_device s;
              s = (if can_bind E d then logged (E_reset d) s else s);
              s = driven i (snd (scoped E d)) s
          in case fst (scoped E d) of
               Inl e \<Rightarrow> s\<lparr>mf_error := Some e, mh_errors := mh_errors s @ [e]\<rparr>
             | Inr _ \<Rightarrow> s)"

definition Reset_mf :: "filter_env \<Rightarrow> nat \<Rightarrow> av_filter \<Rightarrow> av_filter" where
  "Reset_mf E i s = (if \<not> mf_started s \<or> mf_stopping s \<or> mf_error s \<noteq> None then s else reset_wait E i s)"

section \<open>Frames\<close>

text \<open>\<open>Process\<close>: the section that admits a call, its body by step, and \<open>FinishProcessing\<close>.\<close>

definition slot_of :: "bool \<Rightarrow> callback_slot" where
  "slot_of video = (if video then On_video else On_audio)"

definition admit_mf :: "nat \<Rightarrow> filter_call \<Rightarrow> av_filter \<Rightarrow> av_filter" where
  "admit_mf i c s =
     (if \<not> mf_started s \<or> mf_stopping s \<or> mf_error s \<noteq> None then answered_mf c None (Inl Logic_error) s
      else if rr_status (fc_input c) \<noteq> KFrame then answered_mf c None (Inr (fc_input c)) s
      else if \<not> has_frame (rr_frame (fc_input c)) then answered_mf c None (Inl Invalid_argument) s
      else if slot_of (fc_video c) \<notin> mf_callbacks s then answered_mf c None (Inr (fc_input c)) s
      else goto_mf i (F_run c) (s\<lparr>mf_active := mf_active s + 1\<rparr>))"

definition enter_callback :: "nat \<Rightarrow> filter_call \<Rightarrow> nat option \<Rightarrow> av_filter \<Rightarrow> av_filter" where
  "enter_callback i c d s = logged (E_call i) (goto_mf i (F_callback c d) s)"

definition run_mf :: "filter_lib \<Rightarrow> filter_env \<Rightarrow> nat \<Rightarrow> filter_call \<Rightarrow> av_filter \<Rightarrow> av_filter" where
  "run_mf L E i c s =
     (case VideoDevice L (in_frame (fc_input c)) (fc_video c) of
        Inl e \<Rightarrow> goto_mf i (F_fail c None e) s
      | Inr None \<Rightarrow> enter_callback i c None s
      | Inr (Some d) \<Rightarrow>
          if fe_bind E then driven i (binds (Some d)) (goto_mf i (F_device c d) s)
          else goto_mf i (F_fail c None Runtime_error) s)"

definition retain_device :: "filter_env \<Rightarrow> nat \<Rightarrow> filter_call \<Rightarrow> nat \<Rightarrow> av_filter \<Rightarrow> av_filter" where
  "retain_device E i c d s =
     (if mf_device s \<noteq> None then enter_callback i c (Some d) s
      else case fe_ref E of
        Some e \<Rightarrow> driven i (unbinds (Some d)) (goto_mf i (F_fail c None e) s)
      | None \<Rightarrow> enter_callback i c (Some d) (logged (E_retain d) (s\<lparr>mf_device := Some d\<rparr>)))"

definition forwarded :: "filter_call \<Rightarrow> frame_slot \<Rightarrow> read_result result" where
  "forwarded c x =
     (let r = fc_input c in
      if fc_consume c then Inr r
      else case x of
        Null_frame \<Rightarrow> Inl Invalid_argument
      | No_frame \<Rightarrow> Inr (r\<lparr>rr_status := KNull, rr_frame := x\<rparr>)
      | Has_frame f \<Rightarrow> Inr (r\<lparr>rr_time_base := fr_time_base f, rr_frame := x\<rparr>))"

definition end_callback :: "filter_env \<Rightarrow> nat \<Rightarrow> filter_call \<Rightarrow> nat option \<Rightarrow> av_filter \<Rightarrow> av_filter" where
  "end_callback E i c d s =
     (let s = driven i (unbinds d) (logged (E_return i) s) in
      case leave_scope E d (fe_frame E) of
        Inl e \<Rightarrow> goto_mf i (F_fail c (Some (fe_frame E)) e) s
      | Inr x \<Rightarrow>
          (case forwarded c x of
             Inl e \<Rightarrow> goto_mf i (F_fail c (Some (fe_frame E)) e) s
           | Inr r \<Rightarrow> goto_mf i (F_finish c x r) s))"

definition FinishProcessing :: "exn option \<Rightarrow> av_filter \<Rightarrow> av_filter" where
  "FinishProcessing e s =
     (let s = s\<lparr>mf_error := (if mf_error s = None then e else mf_error s),
                mh_errors := mh_errors s @ (case e of None \<Rightarrow> [] | Some e \<Rightarrow> [e]), mf_active := mf_active s - 1\<rparr>
      in if mf_active s = 0 then notify_idle s else s)"

definition thread_mf :: "filter_lib \<Rightarrow> filter_env \<Rightarrow> nat \<Rightarrow> av_filter \<Rightarrow> av_filter" where
  "thread_mf L E i s =
     (case mf_threads s ! i of
        F_idle \<Rightarrow> s
      | F_run c \<Rightarrow> run_mf L E i c s
      | F_device c d \<Rightarrow> retain_device E i c d s
      | F_callback c d \<Rightarrow> end_callback E i c d s
      | F_finish c x r \<Rightarrow> answered_mf c (Some (Inr x)) (Inr r) (FinishProcessing None (goto_mf i F_idle s))
      | F_fail c x e \<Rightarrow> answered_mf c x (Inl e) (FinishProcessing (Some e) (goto_mf i F_idle s))
      | F_stop _ \<Rightarrow> stop_wait E i s
      | F_join _ \<Rightarrow> join_wait i s
      | F_reset _ \<Rightarrow> reset_wait E i s)"

section \<open>Interleavings\<close>

definition asleep_mf :: "filter_point \<Rightarrow> bool" where
  "asleep_mf p \<longleftrightarrow> p = F_stop True \<or> p = F_join True \<or> p = F_reset True"

definition thread_ready :: "nat \<Rightarrow> av_filter \<Rightarrow> bool" where
  "thread_ready i s \<longleftrightarrow> i < length (mf_threads s) \<and> mf_threads s ! i \<noteq> F_idle \<and> \<not> asleep_mf (mf_threads s ! i)"

definition idle_thread :: "nat \<Rightarrow> av_filter \<Rightarrow> bool" where
  "idle_thread i s \<longleftrightarrow> i < length (mf_threads s) \<and> mf_threads s ! i = F_idle"

fun is_stop :: "filter_point \<Rightarrow> bool" where
  "is_stop (F_stop _) = True" | "is_stop _ = False"

fun is_join :: "filter_point \<Rightarrow> bool" where
  "is_join (F_join _) = True" | "is_join _ = False"

fun is_reset :: "filter_point \<Rightarrow> bool" where
  "is_reset (F_reset _) = True" | "is_reset _ = False"

text \<open>The caller serializes \<open>Reset\<close> with the other calls of the life cycle.\<close>

inductive filtering :: "filter_lib \<Rightarrow> nat \<Rightarrow> av_filter \<Rightarrow> av_filter \<Rightarrow> bool" for L :: filter_lib where
  configure: "idle_thread i s \<Longrightarrow> filtering L i s (snd (Configure c present s))"
| start: "idle_thread i s \<Longrightarrow> filtering L i s (snd (Start_mf E s))"
| process: "idle_thread i s \<Longrightarrow> filtering L i s (admit_mf i c s)"
| stop: "idle_thread i s \<Longrightarrow> \<not> list_ex is_reset (mf_threads s) \<Longrightarrow> filtering L i s (Stop_mf E i s)"
| reset: "idle_thread i s \<Longrightarrow> \<not> list_ex is_reset (mf_threads s) \<Longrightarrow> \<not> list_ex is_stop (mf_threads s) \<Longrightarrow>
    \<not> list_ex is_join (mf_threads s) \<Longrightarrow> filtering L i s (Reset_mf E i s)"
| thread: "thread_ready i s \<Longrightarrow> filtering L i s (thread_mf L E i s)"

definition some_thread :: "filter_lib \<Rightarrow> av_filter \<Rightarrow> av_filter \<Rightarrow> bool" where
  "some_thread L s t \<longleftrightarrow> (\<exists>i. filtering L i s t)"

definition filter_runs :: "filter_lib \<Rightarrow> av_filter \<Rightarrow> bool" where
  "filter_runs L t \<longleftrightarrow> (\<exists>n. (some_thread L)\<^sup>*\<^sup>* (AvMediaFilter_new n) t)"

end
