(* ===== verification/Filter_Inv.thy ===== *)
theory Filter_Inv
  imports Media_Filter
begin

text \<open>What the steps of \<open>Media_Filter\<close> keep.\<close>

section \<open>Threads\<close>

fun inside :: "filter_point \<Rightarrow> bool" where
  "inside (F_run c) = True"
| "inside (F_device c d) = True"
| "inside (F_callback c d) = True"
| "inside (F_finish c x r) = True"
| "inside (F_fail c x e) = True"
| "inside _ = False"

definition number :: "('a \<Rightarrow> bool) \<Rightarrow> 'a list \<Rightarrow> nat" where
  "number P xs = length (filter P xs)"

lemma number_update:
  assumes "i < length xs"
  shows "number P (xs[i := x]) = number P xs - (if P (xs ! i) then 1 else 0) + (if P x then 1 else 0)"
    and "P (xs ! i) \<Longrightarrow> 0 < number P xs"
proof -
  from assms have xs: "xs = take i xs @ xs ! i # drop (Suc i) xs" by (rule id_take_nth_drop)
  from assms have u: "xs[i := x] = take i xs @ x # drop (Suc i) xs" by (simp add: upd_conv_take_nth_drop)
  show "number P (xs[i := x]) = number P xs - (if P (xs ! i) then 1 else 0) + (if P x then 1 else 0)"
    unfolding u by (subst (2) xs) (simp add: number_def)
  show "P (xs ! i) \<Longrightarrow> 0 < number P xs" by (subst xs) (simp add: number_def)
qed

lemma awake_simps [simp]:
  "inside (awake p) = inside p" "is_stop (awake p) = is_stop p" "is_join (awake p) = is_join p"
  "is_reset (awake p) = is_reset p" "\<not> asleep_mf (awake p)" "(awake p = F_callback c d) = (p = F_callback c d)"
  "(awake p = F_device c e) = (p = F_device c e)"
  by (cases p; simp add: awake_def asleep_mf_def)+

lemma number_awake [simp]:
  "number inside (map awake ps) = number inside ps" "number is_stop (map awake ps) = number is_stop ps"
  by (simp_all add: number_def filter_map comp_def)

lemma list_all_update: "list_all P xs \<Longrightarrow> P x \<Longrightarrow> list_all P (xs[i := x])"
  by (auto simp: list_all_iff dest!: subsetD [OF set_update_subset_insert])

lemma number_none: "number P xs = 0 \<longleftrightarrow> list_all (\<lambda>x. \<not> P x) xs"
  by (auto simp: number_def list_all_iff filter_empty_conv)

section \<open>Where the threads stand\<close>

text \<open>What the fields say of a thread; a thread that sleeps has reason to.\<close>

fun stands :: "bool \<Rightarrow> bool \<Rightarrow> nat \<Rightarrow> filter_point \<Rightarrow> bool" where
  "stands r q n (F_stop a) = (q \<and> (a \<longrightarrow> n \<noteq> 0))"
| "stands r q n (F_join a) = (a \<longrightarrow> q)"
| "stands r q n (F_reset a) = (r \<and> \<not> q \<and> (a \<longrightarrow> n \<noteq> 0))"
| "stands r q n F_idle = True"
| "stands r q n p = r"

definition standing_mf :: "av_filter \<Rightarrow> bool" where
  "standing_mf s \<longleftrightarrow> number inside (mf_threads s) = mf_active s \<and>
     number is_stop (mf_threads s) = (if mf_stopping s then 1 else 0) \<and> (mf_stopping s \<longrightarrow> mf_started s) \<and>
     (mf_device s \<noteq> None \<longrightarrow> mf_started s) \<and>
     list_all (stands (mf_started s) (mf_stopping s) (mf_active s)) (mf_threads s)"

lemma standingD:
  assumes "standing_mf s" "i < length (mf_threads s)"
  shows "stands (mf_started s) (mf_stopping s) (mf_active s) (mf_threads s ! i)"
    "inside (mf_threads s ! i) \<Longrightarrow> 0 < mf_active s \<and> mf_started s"
    "is_stop (mf_threads s ! i) \<Longrightarrow> mf_stopping s"
proof -
  from assms show st: "stands (mf_started s) (mf_stopping s) (mf_active s) (mf_threads s ! i)"
    by (simp add: standing_mf_def list_all_length)
  have n: "number inside (mf_threads s) = mf_active s" using assms(1) by (simp add: standing_mf_def)
  have r: "inside p \<Longrightarrow> stands r q n p \<Longrightarrow> r" for p r q n by (cases p) simp_all
  show "inside (mf_threads s ! i) \<Longrightarrow> 0 < mf_active s \<and> mf_started s"
    using number_update(2) [OF assms(2), of inside] r [OF _ st] n by simp
  have r: "is_stop p \<Longrightarrow> stands r q n p \<Longrightarrow> q" for p r q n by (cases p) simp_all
  show "is_stop (mf_threads s ! i) \<Longrightarrow> mf_stopping s" by (rule r [OF _ st])
qed

lemmas filter_fields = goto_mf_def logged_def driven_def answered_mf_def notify_idle_def Let_def

text \<open>Moves within a call, and from idle into a call.\<close>

lemma standing_move:
  assumes s: "standing_mf s" and i: "i < length (mf_threads s)"
    and p: "inside p = inside (mf_threads s ! i)" "is_stop p = is_stop (mf_threads s ! i)"
      "stands (mf_started s) (mf_stopping s) (mf_active s) p"
    and t: "mf_threads t = (mf_threads s)[i := p]" "mf_active t = mf_active s" "mf_started t = mf_started s"
      "mf_stopping t = mf_stopping s" "mf_device t = mf_device s \<or> mf_started s"
  shows "standing_mf t"
proof -
  have "number inside (mf_threads t) = number inside (mf_threads s)" "number is_stop (mf_threads t) = number is_stop (mf_threads s)"
    using p(1,2) number_update [OF i] by (auto simp: t(1) split: if_splits)
  with s p(3) t show ?thesis by (auto simp: standing_mf_def intro: list_all_update)
qed

lemma standing_same:
  assumes "standing_mf s" "mf_threads t = mf_threads s" "mf_active t = mf_active s" "mf_started t = mf_started s"
    "mf_stopping t = mf_stopping s" "mf_device t = mf_device s"
  shows "standing_mf t"
  using assms by (simp add: standing_mf_def)

lemma stands_mono:
  assumes "list_all (stands r q n) ps" "\<And>p. p \<in> set ps \<Longrightarrow> stands r q n p \<Longrightarrow> stands r' q' n' p"
  shows "list_all (stands r' q' n') ps"
  using assms by (simp add: list_all_iff)

lemma stands_awake: "stands r q n p \<Longrightarrow> stands r q m (awake p)"
  by (cases p) (auto simp: awake_def)

lemma standing_admit:
  assumes "standing_mf s" "idle_thread i s"
  shows "standing_mf (admit_mf i c s)"
proof (cases "admit_mf i c s = goto_mf i (F_run c) (s\<lparr>mf_active := mf_active s + 1\<rparr>)")
  case True
  from assms have i: "i < length (mf_threads s)" "\<not> inside (mf_threads s ! i)" "\<not> is_stop (mf_threads s ! i)"
    by (simp_all add: idle_thread_def)
  have "mf_started s" if "\<not> standing_mf (admit_mf i c s)"
    using that assms(1) by (auto simp: admit_mf_def standing_mf_def answered_mf_def)
  moreover have "list_all (stands (mf_started s) (mf_stopping s) (Suc (mf_active s))) (mf_threads s)"
    using assms(1) by (auto simp: standing_mf_def elim!: stands_mono elim: stands.elims)
  moreover have "standing_mf (admit_mf i c s)" if "mf_started s"
    unfolding True using assms(1) i that calculation(2)
    by (auto simp: standing_mf_def goto_mf_def number_update intro: list_all_update)
  ultimately show ?thesis by blast
next
  case False
  with assms(1) show ?thesis by (auto simp: admit_mf_def answered_mf_def standing_mf_def)
qed

lemma standing_finish:
  assumes s: "standing_mf s" and i: "i < length (mf_threads s)" "inside (mf_threads s ! i)"
  shows "standing_mf (FinishProcessing e (goto_mf i F_idle s))"
proof -
  let ?ps = "(mf_threads s)[i := F_idle]"
  note a = standingD [OF s i(1)]
  have n: "number inside ?ps = mf_active s - 1" "number is_stop ?ps = (if mf_stopping s then 1 else 0)"
    using s i number_update [OF i(1)] a(2) [OF i(2)] by (cases "mf_threads s ! i"; auto simp: standing_mf_def)+
  have u: "list_all (stands (mf_started s) (mf_stopping s) (mf_active s)) ?ps"
    using s by (auto simp: standing_mf_def intro: list_all_update)
  show ?thesis
  proof (cases "mf_active s - 1 = 0")
    case True
    have "list_all (stands (mf_started s) (mf_stopping s) 0) (map awake ?ps)"
      using u by (auto simp: list_all_iff intro: stands_awake)
    with True s n a(2) [OF i(2)] show ?thesis by (auto simp: FinishProcessing_def filter_fields standing_mf_def)
  next
    case False
    have "list_all (stands (mf_started s) (mf_stopping s) (mf_active s - 1)) ?ps"
      using u False by (elim stands_mono) (auto elim: stands.elims)
    with False s n a(2) [OF i(2)] show ?thesis by (auto simp: FinishProcessing_def filter_fields standing_mf_def)
  qed
qed

lemma standing_stop_wait:
  assumes s: "standing_mf s" and i: "i < length (mf_threads s)" and q: "mf_stopping s" and st: "is_stop (mf_threads s ! i)"
  shows "standing_mf (stop_wait E i s)"
proof (cases "mf_active s = 0")
  case False
  with standing_move [OF s i, of "F_stop True"] q st show ?thesis
    by (cases "mf_threads s ! i") (simp_all add: stop_wait_def goto_mf_def)
next
  case True
  let ?ps = "(map awake (mf_threads s))[i := F_idle]"
  have i': "i < length (map awake (mf_threads s))" "\<not> inside (map awake (mf_threads s) ! i)" "is_stop (map awake (mf_threads s) ! i)"
    using i st by (cases "mf_threads s ! i"; simp)+
  have n: "number inside ?ps = 0" "number is_stop ?ps = 0"
    using s True q i' number_update [OF i'(1)] by (auto simp: standing_mf_def)
  have u: "list_all (stands True True 0) ?ps"
    using s True q by (auto simp: standing_mf_def intro!: list_all_update) (auto simp: list_all_iff intro: stands_awake)
  have "stands False False 0 p" if "p \<in> set ?ps" for p
  proof -
    have "\<not> asleep_mf p"
      using that set_update_subset_insert [of "map awake (mf_threads s)" i F_idle] by (auto simp: asleep_mf_def [of F_idle])
    moreover have "\<not> inside p \<and> \<not> is_stop p" "stands True True 0 p"
      using n u that by (auto simp: number_none list_all_iff)
    ultimately show ?thesis by (cases p) (auto simp: asleep_mf_def)
  qed
  then have "list_all (stands False False 0) ?ps" by (simp add: list_all_iff)
  with True n show ?thesis by (auto simp: stop_wait_def filter_fields standing_mf_def)
qed

lemma standing_stop:
  assumes s: "standing_mf s" and i: "idle_thread i s" and r: "\<not> list_ex is_reset (mf_threads s)"
  shows "standing_mf (Stop_mf E i s)"
proof -
  have l: "i < length (mf_threads s)" "mf_threads s ! i = F_idle" using i by (simp_all add: idle_thread_def)
  consider (out) "\<not> mf_started s" | (join) "mf_started s" "mf_stopping s" | (first) "mf_started s" "\<not> mf_stopping s" by blast
  then show ?thesis
  proof cases
    case out
    with s show ?thesis by (simp add: Stop_mf_def)
  next
    case join
    have "standing_mf (goto_mf i (F_join True) s)"
      using join l by (intro standing_move [OF s l(1), of "F_join True"]) (simp_all add: goto_mf_def)
    with join show ?thesis by (simp add: Stop_mf_def join_wait_def)
  next
    case first
    let ?s = "goto_mf i (F_stop False) (s\<lparr>mf_stopping := True\<rparr>)"
    have "stands True True (mf_active s) p" if "p \<in> set (mf_threads s)" for p
    proof -
      have "stands True False (mf_active s) p" "\<not> is_reset p" "\<not> is_stop p"
        using that s first r by (auto simp: standing_mf_def list_all_iff list_ex_iff number_none)
      then show ?thesis by (cases p) simp_all
    qed
    then have "list_all (stands True True (mf_active s)) ((mf_threads s)[i := F_stop False])"
      by (intro list_all_update) (simp_all add: list_all_iff)
    then have "standing_mf ?s"
      using s first l by (simp add: standing_mf_def goto_mf_def number_update)
    then have "standing_mf (stop_wait E i ?s)"
      using l by (intro standing_stop_wait) (simp_all add: goto_mf_def)
    moreover have "stop_wait E i ?s = stop_wait E i (s\<lparr>mf_stopping := True\<rparr>)"
      by (simp add: stop_wait_def filter_fields map_update)
    ultimately show ?thesis using first by (simp add: Stop_mf_def)
  qed
qed

lemma standing_reset_wait:
  assumes s: "standing_mf s" and i: "i < length (mf_threads s)" and r: "mf_started s" "\<not> mf_stopping s"
    and p: "\<not> inside (mf_threads s ! i)" "\<not> is_stop (mf_threads s ! i)"
  shows "standing_mf (reset_wait E i s)"
proof (cases "mf_active s = 0")
  case False
  with r p show ?thesis
    by (intro standing_move [OF s i, of "F_reset True"]) (simp_all add: reset_wait_def goto_mf_def)
next
  case True
  with r p show ?thesis
    by (intro standing_move [OF s i, of F_idle])
      (simp_all add: reset_wait_def filter_fields split: sum.splits)
qed

lemma standing_step:
  assumes s: "standing_mf s" and st: "filtering L i s t"
  shows "standing_mf t"
  using st
proof cases
  case (configure c present)
  with s show ?thesis by (auto simp: Configure_def intro: standing_same)
next
  case (start E)
  have up: "stands True q n p" if "stands False q n p" for q n p using that by (cases p) simp_all
  have "list_all (stands True False (mf_active s)) (mf_threads s) \<and> \<not> mf_stopping s" if "\<not> mf_started s"
    using s that by (auto simp: standing_mf_def intro: list.pred_mono_strong up)
  with s start show ?thesis by (auto simp: Start_mf_def logged_def standing_mf_def split: sum.splits if_splits)
next
  case (process c)
  with s show ?thesis by (simp add: standing_admit)
next
  case (stop E)
  with s show ?thesis by (simp add: standing_stop)
next
  case (reset E)
  with s show ?thesis by (auto simp: Reset_mf_def idle_thread_def intro!: standing_reset_wait)
next
  case (thread E)
  then have i: "i < length (mf_threads s)" by (simp add: thread_ready_def)
  note a = standingD [OF s i]
  show ?thesis
  proof (cases "mf_threads s ! i")
    case (F_run c)
    show ?thesis
      unfolding thread(1)
      by (rule standing_move [OF s i, where p = "mf_threads (thread_mf L E i s) ! i"])
        (use F_run a i in \<open>auto simp: thread_mf_def run_mf_def enter_callback_def filter_fields split: sum.splits option.splits\<close>)
  next
    case (F_device c d)
    show ?thesis
      unfolding thread(1)
      by (rule standing_move [OF s i, where p = "mf_threads (thread_mf L E i s) ! i"])
        (use F_device a i in \<open>auto simp: thread_mf_def retain_device_def enter_callback_def filter_fields split: option.splits\<close>)
  next
    case (F_callback c d)
    show ?thesis
      unfolding thread(1)
      by (rule standing_move [OF s i, where p = "mf_threads (thread_mf L E i s) ! i"])
        (use F_callback a i in \<open>auto simp: thread_mf_def end_callback_def filter_fields split: sum.splits\<close>)
  next
    case (F_finish c x r)
    with standing_finish [OF s i, of None] thread(1) show ?thesis
      by (auto simp: thread_mf_def answered_mf_def intro: standing_same)
  next
    case (F_fail c x e)
    with standing_finish [OF s i, of "Some e"] thread(1) show ?thesis
      by (auto simp: thread_mf_def answered_mf_def intro: standing_same)
  next
    case (F_stop b)
    with standing_stop_wait [OF s i, of E] a thread(1) show ?thesis by (simp add: thread_mf_def)
  next
    case (F_join b)
    then show ?thesis
      unfolding thread(1)
      by (intro standing_move [OF s i, where p = "mf_threads (thread_mf L E i s) ! i"])
        (use i in \<open>auto simp: thread_mf_def join_wait_def goto_mf_def\<close>)
  next
    case (F_reset b)
    with standing_reset_wait [OF s i, of E] a thread(1) show ?thesis by (simp add: thread_mf_def)
  qed (use thread in \<open>simp add: thread_ready_def\<close>)
qed

lemma filter_runs_induct [consumes 1, case_names new step]:
  assumes "filter_runs L t"
    and "\<And>n. P (AvMediaFilter_new n)"
    and "\<And>i s t. filter_runs L s \<Longrightarrow> P s \<Longrightarrow> filtering L i s t \<Longrightarrow> P t"
  shows "P t"
proof -
  obtain n where r: "(some_thread L)\<^sup>*\<^sup>* (AvMediaFilter_new n) t" using assms(1) by (auto simp: filter_runs_def)
  then have "P t \<and> filter_runs L t"
  proof (induction rule: rtranclp_induct)
    case base
    then show ?case by (auto simp: filter_runs_def intro: assms(2))
  next
    case (step y z)
    then obtain i where f: "filtering L i y z" by (auto simp: some_thread_def)
    from step(1,2) have "filter_runs L z" unfolding filter_runs_def by (blast intro: rtranclp.rtrancl_into_rtrancl)
    with step(3) f show ?case by (blast intro: assms(3))
  qed
  then show ?thesis ..
qed

lemma filter_runs_standing: "filter_runs L t \<Longrightarrow> standing_mf t"
proof (induction rule: filter_runs_induct)
  case (new n)
  have "number inside (replicate n F_idle) = 0" "number is_stop (replicate n F_idle) = 0"
    by (simp_all add: number_none list_all_iff)
  then show ?case by (simp add: AvMediaFilter_new_def standing_mf_def list_all_iff)
qed (rule standing_step)

end
