(* ===== verification/Filter_Runs.thy ===== *)
theory Filter_Runs
  imports Filter_Inv
begin

text \<open>
  What holds of the runs of \<open>Media_Filter\<close>: the order of the events of a session, the context stack of the driver,
  the answers of calls, and the work a stop waits for.
\<close>

section \<open>Sessions\<close>

text \<open>
  The order of events the interface promises, as an automaton: whether a session is started, the threads in a
  callback on a frame, and the device retained. Callbacks on frames run within a session; a reset and the end of a
  session come while none runs, with the device of the first CUDA frame.
\<close>

type_synonym filter_phase = "bool \<times> nat set \<times> nat option"

fun advance :: "filter_event \<Rightarrow> filter_phase \<Rightarrow> filter_phase option" where
  "advance E_start (r, busy_mf, d) = (if \<not> r \<and> busy_mf = {} then Some (True, {}, None) else None)"
| "advance (E_retain k) (r, busy_mf, d) = (if r \<and> d = None then Some (r, busy_mf, Some k) else None)"
| "advance (E_call i) (r, busy_mf, d) = (if r \<and> i \<notin> busy_mf then Some (r, insert i busy_mf, d) else None)"
| "advance (E_return i) (r, busy_mf, d) = (if r \<and> i \<in> busy_mf then Some (r, busy_mf - {i}, d) else None)"
| "advance (E_reset k) (r, busy_mf, d) = (if r \<and> busy_mf = {} \<and> k = d then Some (r, busy_mf, d) else None)"
| "advance (E_stop k) (r, busy_mf, d) = (if r \<and> busy_mf = {} \<and> k = d then Some (False, {}, None) else None)"

definition replay :: "filter_event list \<Rightarrow> filter_phase option" where
  "replay es = foldl (\<lambda>s e. Option.bind s (advance e)) (Some (False, {}, None)) es"

lemma replay_Nil [simp]: "replay [] = Some (False, {}, None)"
  by (simp add: replay_def)

lemma replay_append: "replay (es @ fs) = foldl (\<lambda>s e. Option.bind s (advance e)) (replay es) fs"
  by (simp add: replay_def)

fun calling :: "filter_point \<Rightarrow> bool" where
  "calling (F_callback c d) = True" | "calling _ = False"

definition busy_mf :: "av_filter \<Rightarrow> nat set" where
  "busy_mf s = {i. i < length (mf_threads s) \<and> calling (mf_threads s ! i)}"

definition phase_mf :: "av_filter \<Rightarrow> filter_phase" where
  "phase_mf s = (mf_started s, busy_mf s, mf_device s)"

definition in_phase_mf :: "av_filter \<Rightarrow> bool" where
  "in_phase_mf s \<longleftrightarrow> replay (mh_log s) = Some (phase_mf s)"

lemma calling_awake [simp]: "calling (awake p) = calling p" "calling p \<Longrightarrow> inside p"
  by (cases p; simp add: awake_def)+

lemma nobody_busy:
  assumes "standing_mf s" "mf_active s = 0"
  shows "busy_mf s = {}"
proof -
  have "list_all (\<lambda>p. \<not> inside p) (mf_threads s)" using assms by (simp add: standing_mf_def number_none)
  then show ?thesis by (auto simp: busy_mf_def list_all_length)
qed

lemma in_phase_move:
  assumes p: "in_phase_mf s" and i: "i < length (mf_threads s)"
    and t: "mf_threads t = (mf_threads s)[i := p] \<or> mf_threads t = map awake ((mf_threads s)[i := p])" "mh_log t = mh_log s @ es"
    and a: "foldl (\<lambda>s e. Option.bind s (advance e)) (Some (phase_mf s)) es =
      Some (mf_started t, (if calling p then insert i (busy_mf s) else busy_mf s - {i}), mf_device t)"
  shows "in_phase_mf t"
proof -
  have "busy_mf t = (if calling p then insert i (busy_mf s) else busy_mf s - {i})"
    using t(1) i by (auto simp: busy_mf_def nth_list_update split: if_splits)
  with p a show ?thesis by (simp add: in_phase_mf_def replay_append t(2) phase_mf_def)
qed

lemma in_phase_same:
  assumes "in_phase_mf s" "mf_threads t = mf_threads s" "mh_log t = mh_log s" "mf_started t = mf_started s" "mf_device t = mf_device s"
  shows "in_phase_mf t"
  using assms by (simp add: in_phase_mf_def phase_mf_def busy_mf_def)

lemma not_calling: "i < length (mf_threads s) \<Longrightarrow> \<not> calling (mf_threads s ! i) \<Longrightarrow> busy_mf s - {i} = busy_mf s"
  by (auto simp: busy_mf_def)

lemma in_phase_stop_wait:
  assumes b: "mf_active s = 0 \<Longrightarrow> busy_mf s = {}" and p: "in_phase_mf s"
    and i: "i < length (mf_threads s)" "\<not> calling (mf_threads s ! i)" and r: "mf_started s"
  shows "in_phase_mf (stop_wait E i s)"
proof (cases "mf_active s = 0")
  case False
  with i r show ?thesis
    by (intro in_phase_move [OF p i(1), of _ "F_stop True" "[]"]) (simp_all add: stop_wait_def goto_mf_def phase_mf_def not_calling)
next
  case True
  note n = b [OF True]
  have m: "map awake ((mf_threads s)[i := F_idle]) = (map awake (mf_threads s))[i := F_idle]"
    by (simp add: map_update awake_def)
  from True show ?thesis
    by (intro in_phase_move [OF p i(1), of _ F_idle "[E_stop (mf_device s)]"])
      (simp_all add: stop_wait_def filter_fields phase_mf_def m n r)
qed

lemma in_phase_reset_wait:
  assumes s: "standing_mf s" and p: "in_phase_mf s" and i: "i < length (mf_threads s)" "\<not> calling (mf_threads s ! i)" and r: "mf_started s"
  shows "in_phase_mf (reset_wait E i s)"
proof (cases "mf_active s = 0")
  case False
  with i r show ?thesis
    by (intro in_phase_move [OF p i(1), of _ "F_reset True" "[]"]) (simp_all add: reset_wait_def goto_mf_def phase_mf_def not_calling)
next
  case True
  note n = nobody_busy [OF s True]
  show ?thesis
  proof (cases "mf_error s = None \<and> On_reset \<in> mf_callbacks s \<and> can_bind E (mf_device s)")
    case b: True
    with True show ?thesis
      by (intro in_phase_move [OF p i(1), of _ F_idle "[E_reset (mf_device s)]"])
        (auto simp: reset_wait_def filter_fields phase_mf_def n r split: sum.splits)
  next
    case False
    with True show ?thesis
      by (intro in_phase_move [OF p i(1), of _ F_idle "[]"])
        (auto simp: reset_wait_def filter_fields phase_mf_def n r split: sum.splits)
  qed
qed

lemma in_phase_step:
  assumes s: "standing_mf s" and p: "in_phase_mf s" and st: "filtering L i s t"
  shows "in_phase_mf t"
  using st
proof cases
  case (configure c present)
  with p show ?thesis by (auto simp: Configure_def intro: in_phase_same)
next
  case (start E)
  then have i: "i < length (mf_threads s)" "(mf_threads s)[i := F_idle] = mf_threads s"
    using list_update_id [of "mf_threads s" i] by (auto simp: idle_thread_def)
  show ?thesis
  proof (cases "mf_started s")
    case True
    with p start show ?thesis by (simp add: Start_mf_def)
  next
    case False
    have "\<not> inside (mf_threads s ! j)" if "j < length (mf_threads s)" for j
      using standingD(2) [OF s that] False by blast
    then have "\<not> calling (mf_threads s ! j)" if "j < length (mf_threads s)" for j using that calling_awake(2) by blast
    then have "busy_mf s = {}" "mf_device s = None" using False s by (auto simp: busy_mf_def standing_mf_def)
    with False p start i show ?thesis
      by (auto simp: Start_mf_def logged_def phase_mf_def split: sum.splits if_splits
        intro: in_phase_move [OF p i(1), of _ F_idle "[E_start]"])
  qed
next
  case (process c)
  then have i: "i < length (mf_threads s)" "\<not> calling (mf_threads s ! i)" by (auto simp: idle_thread_def)
  show ?thesis
    unfolding process(1)
    using p in_phase_move [OF p i(1), of "goto_mf i (F_run c) (s\<lparr>mf_active := mf_active s + 1\<rparr>)" "F_run c" "[]"] i
    by (auto simp: admit_mf_def goto_mf_def answered_mf_def phase_mf_def not_calling intro: in_phase_same)
next
  case (stop E)
  then have i: "i < length (mf_threads s)" "\<not> calling (mf_threads s ! i)" by (auto simp: idle_thread_def)
  have b: "busy_mf s = {}" if "mf_active s = 0" using nobody_busy [OF s that] .
  have p': "in_phase_mf (s\<lparr>mf_stopping := True\<rparr>)" using p by (rule in_phase_same) simp_all
  have "in_phase_mf (stop_wait E i (s\<lparr>mf_stopping := True\<rparr>))" if "mf_started s"
    using that b i by (intro in_phase_stop_wait [OF _ p']) (simp_all add: busy_mf_def)
  moreover have "in_phase_mf (join_wait i s)"
    by (rule in_phase_move [OF p i(1), of _ "if mf_stopping s then F_join True else F_idle" "[]"])
      (use i in \<open>simp_all add: join_wait_def goto_mf_def phase_mf_def not_calling\<close>)
  ultimately show ?thesis using p stop(1) by (simp add: Stop_mf_def)
next
  case (reset E)
  then have i: "i < length (mf_threads s)" "\<not> calling (mf_threads s ! i)" by (auto simp: idle_thread_def)
  with p reset show ?thesis by (auto simp: Reset_mf_def intro: in_phase_reset_wait [OF s])
next
  case (thread E)
  then have i: "i < length (mf_threads s)" by (simp add: thread_ready_def)
  note a = standingD [OF s i]
  have q: "busy_mf s - {i} = busy_mf s" if "\<not> calling (mf_threads s ! i)" using not_calling [OF i that] .
  show ?thesis
  proof (cases "mf_threads s ! i")
    case (F_run c)
    with i have n: "i \<notin> busy_mf s" by (simp add: busy_mf_def)
    let ?t = "thread_mf L E i s"
    have "in_phase_mf ?t" if "calling (mf_threads ?t ! i)"
      by (rule in_phase_move [OF p i, where p = "mf_threads ?t ! i" and es = "[E_call i]"])
        (use that F_run n i a q in \<open>auto simp: thread_mf_def run_mf_def enter_callback_def filter_fields phase_mf_def split: sum.splits option.splits if_splits\<close>)
    moreover have "in_phase_mf ?t" if "\<not> calling (mf_threads ?t ! i)"
      by (rule in_phase_move [OF p i, where p = "mf_threads ?t ! i" and es = "[]"])
        (use that F_run n i a q in \<open>auto simp: thread_mf_def run_mf_def enter_callback_def filter_fields phase_mf_def split: sum.splits option.splits if_splits\<close>)
    ultimately show ?thesis using thread(1) by blast
  next
    case (F_device c d)
    with i have n: "i \<notin> busy_mf s" by (simp add: busy_mf_def)
    let ?t = "thread_mf L E i s"
    have "in_phase_mf ?t" if "\<not> calling (mf_threads ?t ! i)"
      by (rule in_phase_move [OF p i, where p = "mf_threads ?t ! i" and es = "[]"])
        (use that F_device n i a q in \<open>auto simp: thread_mf_def retain_device_def enter_callback_def filter_fields phase_mf_def split: option.splits if_splits\<close>)
    moreover have "in_phase_mf ?t" if "calling (mf_threads ?t ! i)"
      by (rule in_phase_move [OF p i, where p = "mf_threads ?t ! i" and
            es = "(if mf_device s = None then [E_retain d] else []) @ [E_call i]"])
        (use that F_device n i a q in \<open>auto simp: thread_mf_def retain_device_def enter_callback_def filter_fields phase_mf_def split: option.splits if_splits\<close>)
    ultimately show ?thesis using thread(1) by blast
  next
    case (F_callback c d)
    with i have n: "i \<in> busy_mf s" by (simp add: busy_mf_def)
    show ?thesis
      unfolding thread(1)
      by (rule in_phase_move [OF p i, where p = "mf_threads (thread_mf L E i s) ! i" and es = "[E_return i]"])
        (use F_callback n i a in \<open>auto simp: thread_mf_def end_callback_def filter_fields phase_mf_def split: sum.splits\<close>)
  next
    case (F_finish c x r)
    have "in_phase_mf (FinishProcessing None (goto_mf i F_idle s))"
      by (rule in_phase_move [OF p i, where p = F_idle and es = "[]"])
        (use F_finish q in \<open>auto simp: FinishProcessing_def filter_fields phase_mf_def\<close>)
    with thread(1) F_finish show ?thesis by (auto simp: thread_mf_def answered_mf_def intro: in_phase_same)
  next
    case (F_fail c x e)
    have "in_phase_mf (FinishProcessing (Some e) (goto_mf i F_idle s))"
      by (rule in_phase_move [OF p i, where p = F_idle and es = "[]"])
        (use F_fail q in \<open>auto simp: FinishProcessing_def filter_fields phase_mf_def\<close>)
    with thread(1) F_fail show ?thesis by (auto simp: thread_mf_def answered_mf_def intro: in_phase_same)
  next
    case (F_stop b)
    with a have "mf_started s" using s by (auto simp: standing_mf_def)
    with in_phase_stop_wait [OF nobody_busy [OF s] p i] F_stop thread(1) show ?thesis by (simp add: thread_mf_def)
  next
    case (F_join b)
    show ?thesis
      unfolding thread(1)
      by (rule in_phase_move [OF p i, where p = "mf_threads (thread_mf L E i s) ! i" and es = "[]"])
        (use F_join i q in \<open>auto simp: thread_mf_def join_wait_def goto_mf_def phase_mf_def\<close>)
  next
    case (F_reset b)
    with a in_phase_reset_wait [OF s p i] thread(1) show ?thesis by (simp add: thread_mf_def)
  qed (use thread in \<open>simp add: thread_ready_def\<close>)
qed

lemma filter_runs_in_phase: "filter_runs L t \<Longrightarrow> in_phase_mf t"
proof (induction rule: filter_runs_induct)
  case (new n)
  have "busy_mf (AvMediaFilter_new n) = {}" by (auto simp: busy_mf_def AvMediaFilter_new_def)
  then show ?case by (simp add: in_phase_mf_def phase_mf_def) (simp add: AvMediaFilter_new_def)
next
  case (step i s t)
  then show ?case by (blast intro: in_phase_step filter_runs_standing)
qed

section \<open>The context stack of the driver\<close>

text \<open>The contexts a thread has bound and not given back, at most one.\<close>

fun bound_after :: "driver_op list \<Rightarrow> nat option \<Rightarrow> nat option option" where
  "bound_after [] b = Some b"
| "bound_after (Op_push d # xs) b = (if b = None then bound_after xs (Some d) else None)"
| "bound_after (Op_pop # xs) b = (if b = None then None else bound_after xs None)"

lemma bound_after_append [simp]: "bound_after (xs @ ys) b = Option.bind (bound_after xs b) (bound_after ys)"
  by (induction xs b rule: bound_after.induct) auto

fun scope_of :: "filter_point \<Rightarrow> nat option" where
  "scope_of (F_device c d) = Some d"
| "scope_of (F_callback c d) = d"
| "scope_of _ = None"

definition restoring :: "av_filter \<Rightarrow> bool" where
  "restoring s \<longleftrightarrow> (\<forall>i < length (mf_threads s). bound_after (mh_bound s i) None = Some (scope_of (mf_threads s ! i)))"

lemma scope_awake [simp]: "scope_of (awake p) = scope_of p"
  by (cases p) (simp_all add: awake_def)

lemma bound_scoped [simp]: "bound_after (snd (scoped E d)) None = Some None"
  by (simp add: scoped_def binds_def unbinds_def split: option.splits)

lemma restoring_move:
  assumes r: "restoring s" and i: "i < length (mf_threads s)"
    and t: "mf_threads t = (mf_threads s)[i := p] \<or> mf_threads t = map awake ((mf_threads s)[i := p])"
      "mh_bound t = (mh_bound s)(i := mh_bound s i @ xs)" "bound_after xs (scope_of (mf_threads s ! i)) = Some (scope_of p)"
  shows "restoring t"
  using r i t by (auto simp: restoring_def nth_list_update)

lemma restoring_same: "restoring s \<Longrightarrow> mf_threads t = mf_threads s \<Longrightarrow> mh_bound t = mh_bound s \<Longrightarrow> restoring t"
  by (simp add: restoring_def)

lemmas filter_ops = run_mf_def retain_device_def enter_callback_def end_callback_def FinishProcessing_def join_wait_def
  binds_def unbinds_def

lemma restoring_waits:
  assumes r: "restoring s" and i: "i < length (mf_threads s)" "scope_of (mf_threads s ! i) = None"
  shows "restoring (stop_wait E i s)" "restoring (join_wait i s)" "restoring (reset_wait E i s)"
proof -
  have m: "map awake ((mf_threads s)[i := F_idle]) = (map awake (mf_threads s))[i := F_idle]"
    by (simp add: map_update awake_def)
  show "restoring (stop_wait E i s)"
    by (rule restoring_move [OF r i(1), where p = "if mf_active s = 0 then F_idle else F_stop True" and
          xs = "if mf_active s = 0 \<and> On_stop \<in> mf_callbacks s then snd (scoped E (mf_device s)) else []"])
      (use i(2) in \<open>auto simp: stop_wait_def filter_fields m\<close>)
  show "restoring (join_wait i s)"
    by (rule restoring_move [OF r i(1), where p = "if mf_stopping s then F_join True else F_idle" and xs = "[]"])
      (use i(2) in \<open>auto simp: join_wait_def filter_fields\<close>)
  show "restoring (reset_wait E i s)"
    by (rule restoring_move [OF r i(1), where p = "if mf_active s = 0 then F_idle else F_reset True" and
          xs = "if mf_active s = 0 \<and> mf_error s = None \<and> On_reset \<in> mf_callbacks s then snd (scoped E (mf_device s)) else []"])
      (use i(2) in \<open>auto simp: reset_wait_def filter_fields split: sum.splits\<close>)
qed

lemma restoring_thread:
  assumes r: "restoring s" and i: "thread_ready i s"
  shows "restoring (thread_mf L E i s)"
proof -
  let ?t = "thread_mf L E i s"
  from i have l: "i < length (mf_threads s)" by (simp add: thread_ready_def)
  note w = restoring_waits [OF r l]
  have m: "map awake ((mf_threads s)[i := F_idle]) = (map awake (mf_threads s))[i := F_idle]"
    by (simp add: map_update awake_def)
  show ?thesis
  proof (cases "mf_threads s ! i")
    case (F_run c)
    show ?thesis
      by (rule restoring_move [OF r l, where p = "mf_threads ?t ! i" and xs = "binds (scope_of (mf_threads ?t ! i))"])
        (use F_run l in \<open>auto simp: thread_mf_def filter_ops filter_fields split: sum.splits option.splits\<close>)
  next
    case (F_device c d)
    show ?thesis
      by (rule restoring_move [OF r l, where p = "mf_threads ?t ! i" and xs = "if calling (mf_threads ?t ! i) then [] else [Op_pop]"])
        (use F_device l in \<open>auto simp: thread_mf_def filter_ops filter_fields split: option.splits\<close>)
  next
    case (F_callback c d)
    show ?thesis
      by (rule restoring_move [OF r l, where p = "mf_threads ?t ! i" and xs = "unbinds d"])
        (use F_callback l in \<open>auto simp: thread_mf_def filter_ops filter_fields split: sum.splits option.splits\<close>)
  next
    case (F_finish c x f)
    show ?thesis
      by (rule restoring_move [OF r l, where p = F_idle and xs = "[]"])
        (use F_finish l in \<open>auto simp: thread_mf_def filter_ops filter_fields m\<close>)
  next
    case (F_fail c x e)
    show ?thesis
      by (rule restoring_move [OF r l, where p = F_idle and xs = "[]"])
        (use F_fail l in \<open>auto simp: thread_mf_def filter_ops filter_fields m\<close>)
  qed (use r w in \<open>auto simp: thread_mf_def\<close>)
qed

lemma restoring_step:
  assumes r: "restoring s" and st: "filtering L i s t"
  shows "restoring t"
  using st
proof cases
  case (process c)
  then have i: "i < length (mf_threads s)" "mf_threads s ! i = F_idle" by (auto simp: idle_thread_def)
  have "restoring (goto_mf i (F_run c) (s\<lparr>mf_active := mf_active s + 1\<rparr>))"
    by (rule restoring_move [OF r i(1), where p = "F_run c" and xs = "[]"]) (use i(2) in \<open>simp_all add: goto_mf_def\<close>)
  with r process(1) show ?thesis by (auto simp: admit_mf_def answered_mf_def intro: restoring_same)
next
  case (stop E)
  then have i: "i < length (mf_threads s)" "mf_threads s ! i = F_idle" by (auto simp: idle_thread_def)
  have "restoring (stop_wait E i (s\<lparr>mf_stopping := True\<rparr>))"
    using i restoring_same [OF r, of "s\<lparr>mf_stopping := True\<rparr>"] by (intro restoring_waits) simp_all
  with r i stop(1) restoring_waits(2) [OF r] show ?thesis by (simp add: Stop_mf_def)
next
  case (reset E)
  then have i: "i < length (mf_threads s)" "mf_threads s ! i = F_idle" by (auto simp: idle_thread_def)
  with r reset(1) restoring_waits(3) [OF r] show ?thesis by (simp add: Reset_mf_def)
qed (use r restoring_thread in \<open>auto simp: Configure_def Start_mf_def logged_def intro: restoring_same split: sum.splits if_splits\<close>)

lemma filter_runs_restoring: "filter_runs L t \<Longrightarrow> restoring t"
proof (induction rule: filter_runs_induct)
  case (new n)
  show ?case by (simp add: restoring_def AvMediaFilter_new_def)
qed (rule restoring_step)

section \<open>Answers and errors\<close>

text \<open>A call that returns a result returns its input, or what \<open>forwarded\<close> makes of the frame its callback returned; a
  call whose callback threw throws the same.\<close>

fun right_answer :: "filter_call \<times> frame_slot result option \<times> read_result result \<Rightarrow> bool" where
  "right_answer (c, None, r) = (\<forall>y. r = Inr y \<longrightarrow> y = fc_input c)"
| "right_answer (c, Some (Inl e), r) = (r = Inl e)"
| "right_answer (c, Some (Inr x), r) = (\<forall>y. r = Inr y \<longrightarrow> forwarded c x = Inr y)"

fun told :: "filter_point \<Rightarrow> bool" where
  "told (F_finish c x r) = (forwarded c x = Inr r)"
| "told (F_fail c x e) = (\<forall>d. x = Some (Inl d) \<longrightarrow> e = d)"
| "told _ = True"

definition first_of :: "exn list \<Rightarrow> exn option" where
  "first_of es = (case es of [] \<Rightarrow> None | e # _ \<Rightarrow> Some e)"

lemma first_of_simps [simp]:
  "first_of [] = None" "first_of (es @ [e]) = (if first_of es = None then Some e else first_of es)"
  by (simp_all add: first_of_def split: list.splits)

definition truthful :: "av_filter \<Rightarrow> bool" where
  "truthful s \<longleftrightarrow> list_all right_answer (mh_answers s) \<and> list_all told (mf_threads s) \<and> mf_error s = first_of (mh_errors s)"

lemma told_awake [simp]: "told (awake p) = told p"
  by (cases p) (simp_all add: awake_def)

lemma told_map_awake [simp]: "list_all told (map awake ps) = list_all told ps"
  by (simp add: list_all_iff)

lemma truthful_thread:
  assumes s: "truthful s" and r: "thread_ready i s"
  shows "truthful (thread_mf L E i s)"
proof -
  from s r have t: "told (mf_threads s ! i)" by (simp add: truthful_def thread_ready_def list_all_length)
  have u: "told p \<Longrightarrow> list_all told ((mf_threads s)[j := p])" for p j using s by (simp add: truthful_def list_all_update)
  have w: "told p \<Longrightarrow> list_all told ((map awake (mf_threads s))[j := p])" for p j
    using s by (simp add: truthful_def list_all_update)
  show ?thesis
  proof (cases "mf_threads s ! i")
    case (F_run c)
    with s show ?thesis
      by (auto simp: thread_mf_def filter_ops filter_fields truthful_def u split: sum.splits option.splits)
  next
    case (F_device c d)
    with s show ?thesis by (auto simp: thread_mf_def filter_ops filter_fields truthful_def u split: option.splits)
  next
    case (F_callback c d)
    with s show ?thesis
      by (auto simp: thread_mf_def filter_ops filter_fields truthful_def u leave_scope_def split: sum.splits option.splits if_splits)
  next
    case (F_finish c x f)
    with s t show ?thesis by (auto simp: thread_mf_def filter_ops filter_fields truthful_def u)
  next
    case (F_fail c x e)
    have "right_answer (c, x, Inl e)"
    proof (cases x)
      case (Some y)
      with F_fail t show ?thesis by (cases y) simp_all
    qed simp
    with F_fail s show ?thesis by (auto simp: thread_mf_def filter_ops filter_fields truthful_def u)
  next
    case (F_stop b)
    with s show ?thesis by (auto simp: thread_mf_def stop_wait_def filter_fields truthful_def u w)
  next
    case (F_join b)
    with s show ?thesis by (auto simp: thread_mf_def join_wait_def filter_fields truthful_def u)
  next
    case (F_reset b)
    with s show ?thesis by (auto simp: thread_mf_def reset_wait_def filter_fields truthful_def u split: sum.splits)
  qed (use s in \<open>simp add: thread_mf_def\<close>)
qed

lemma truthful_step:
  assumes s: "truthful s" and st: "filtering L i s t"
  shows "truthful t"
proof -
  have u: "told p \<Longrightarrow> list_all told ((mf_threads s)[j := p])" for p j using s by (simp add: truthful_def list_all_update)
  have w: "told p \<Longrightarrow> list_all told ((map awake (mf_threads s))[j := p])" for p j
    using s by (simp add: truthful_def list_all_update)
  show ?thesis
    using st
  proof cases
    case (configure c present)
    with s show ?thesis by (auto simp: Configure_def truthful_def)
  next
    case (start E)
    with s show ?thesis by (auto simp: Start_mf_def logged_def truthful_def split: sum.splits if_splits)
  next
    case (process c)
    with s show ?thesis by (auto simp: admit_mf_def filter_fields truthful_def u)
  next
    case (stop E)
    with s show ?thesis by (auto simp: Stop_mf_def stop_wait_def join_wait_def filter_fields truthful_def u w)
  next
    case (reset E)
    with s show ?thesis by (auto simp: Reset_mf_def reset_wait_def filter_fields truthful_def u split: sum.splits)
  next
    case (thread E)
    with s show ?thesis by (simp add: truthful_thread)
  qed
qed

lemma filter_runs_truthful: "filter_runs L t \<Longrightarrow> truthful t"
proof (induction rule: filter_runs_induct)
  case (new n)
  show ?case by (simp add: truthful_def AvMediaFilter_new_def list_all_iff)
qed (rule truthful_step)

section \<open>Stopping\<close>

text \<open>What the calls underway still have to do.\<close>

fun cost_mf :: "filter_point \<Rightarrow> nat" where
  "cost_mf (F_run c) = 4"
| "cost_mf (F_device c d) = 3"
| "cost_mf (F_callback c d) = 2"
| "cost_mf (F_finish c x r) = 1"
| "cost_mf (F_fail c x e) = 1"
| "cost_mf _ = 0"

definition work_mf :: "av_filter \<Rightarrow> nat" where
  "work_mf s = sum_list (map cost_mf (mf_threads s))"

lemma cost_awake [simp]: "cost_mf (awake p) = cost_mf p"
  by (cases p) (simp_all add: awake_def)

lemma work_awake: "sum_list (map cost_mf (map awake ps)) = sum_list (map cost_mf ps)"
  by (induction ps) simp_all

lemma work_update:
  assumes "i < length ps"
  shows "sum_list (map cost_mf (ps[i := p])) + cost_mf (ps ! i) = sum_list (map cost_mf ps) + cost_mf p"
  using assms by (induction ps arbitrary: i) (auto simp: less_Suc_eq_0_disj)

lemma work_move:
  assumes "i < length (mf_threads s)"
    and "mf_threads t = (mf_threads s)[i := p] \<or> mf_threads t = map awake ((mf_threads s)[i := p])"
  shows "work_mf t + cost_mf (mf_threads s ! i) = work_mf s + cost_mf p"
  using assms work_update [OF assms(1), of p] work_awake by (auto simp: work_mf_def simp del: map_map)

lemma work_zero:
  assumes "standing_mf s" "work_mf s = 0"
  shows "mf_active s = 0"
proof -
  have "cost_mf p = 0 \<longleftrightarrow> \<not> inside p" for p by (cases p) simp_all
  then have "number inside (mf_threads s) = 0" using assms(2) by (auto simp: work_mf_def number_none list_all_iff)
  then show ?thesis using assms(1) by (simp add: standing_mf_def)
qed

lemma work_stop_wait:
  assumes "i < length (mf_threads s)" "cost_mf (mf_threads s ! i) = 0"
  shows "work_mf (stop_wait E i s) = work_mf s" "work_mf (join_wait i s) = work_mf s" "work_mf (reset_wait E i s) = work_mf s"
proof -
  have m: "map awake ((mf_threads s)[i := F_idle]) = (map awake (mf_threads s))[i := F_idle]"
    by (simp add: map_update awake_def)
  show "work_mf (stop_wait E i s) = work_mf s"
    using assms work_move [OF assms(1), of "stop_wait E i s" "if mf_active s = 0 then F_idle else F_stop True"]
    by (simp add: stop_wait_def filter_fields m)
  show "work_mf (join_wait i s) = work_mf s"
    using assms work_move [OF assms(1), of "join_wait i s" "if mf_stopping s then F_join True else F_idle"]
    by (simp add: join_wait_def filter_fields)
  show "work_mf (reset_wait E i s) = work_mf s"
    using assms work_move [OF assms(1), of "reset_wait E i s" "if mf_active s = 0 then F_idle else F_reset True"]
    by (simp add: reset_wait_def filter_fields split: sum.splits)
qed

lemma work_thread:
  assumes i: "i < length (mf_threads s)" and p: "inside (mf_threads s ! i)"
  shows "work_mf (thread_mf L E i s) < work_mf s"
proof -
  have m: "map awake ((mf_threads s)[i := F_idle]) = (map awake (mf_threads s))[i := F_idle]"
    by (simp add: map_update awake_def)
  let ?t = "thread_mf L E i s"
  have "mf_threads ?t = (mf_threads s)[i := mf_threads ?t ! i] \<or> mf_threads ?t = map awake ((mf_threads s)[i := mf_threads ?t ! i])"
    and "cost_mf (mf_threads ?t ! i) < cost_mf (mf_threads s ! i)"
    using i p by (cases "mf_threads s ! i"; auto simp: thread_mf_def filter_ops filter_fields m awake_def
        split: sum.splits option.splits)+
  then show ?thesis using work_move [OF i, of ?t "mf_threads ?t ! i"] by simp
qed

end
