(* ===== verification/Filter_Props.thy ===== *)
theory Filter_Props
  imports Filter_Runs
begin

text \<open>The properties of the media filter of \<open>Media_Filter\<close>.\<close>

section \<open>Properties\<close>

text \<open>
  C24: The callbacks of a media filter come in the order its interface promises, over every interleaving of calls:
  callbacks on frames run within a started session, \<open>OnReset\<close> and \<open>OnStop\<close> while none runs, the latter once per
  session, both with the device retained from the first CUDA frame.
\<close>
theorem filter_sessions:
  assumes "filter_runs L t"
  shows "replay (mh_log t) = Some (mf_started t, busy_mf t, mf_device t)"
  using filter_runs_in_phase [OF assms] by (simp add: in_phase_mf_def phase_mf_def)

text \<open>
  C28: A thread that returns from a call has given back every CUDA context the filter has bound on it, on return and
  on throw.
\<close>
theorem filter_restores:
  assumes "filter_runs L t" "i < length (mf_threads t)" "mf_threads t ! i = F_idle"
  shows "bound_after (mh_bound t i) None = Some None"
  using filter_runs_restoring [OF assms(1)] assms(2,3) by (simp add: restoring_def)

text \<open>
  C27: No notification is lost: a thread that sleeps in \<open>Stop\<close> or \<open>Reset\<close> has a condition that does not hold, it waits
  for calls that are underway or for another thread's stop.
\<close>
theorem filter_no_lost_wakeup:
  assumes "filter_runs L t" "i < length (mf_threads t)" "asleep_mf (mf_threads t ! i)"
  shows "if is_join (mf_threads t ! i) then mf_stopping t else 0 < number inside (mf_threads t)"
proof -
  from filter_runs_standing [OF assms(1)] have "standing_mf t" .
  moreover from standingD(1) [OF this assms(2)] have "if is_join (mf_threads t ! i) then mf_stopping t else mf_active t \<noteq> 0"
    using assms(3) by (auto simp: asleep_mf_def)
  ultimately show ?thesis by (auto simp: standing_mf_def)
qed


text \<open>
  C25: A stop ends: while a filter is stopping no step adds to the work of the calls underway, each of their steps
  takes from it, and when none is left the thread that stops is awake and its next step ends the session.
\<close>
theorem filter_stop_ends:
  assumes "filter_runs L s" "mf_stopping s" "filtering L i s t"
  shows "work_mf t \<le> work_mf s \<and> (inside (mf_threads s ! i) \<longrightarrow> work_mf t < work_mf s) \<and>
    (work_mf s = 0 \<longrightarrow> (\<exists>j. thread_ready j s \<and> (\<forall>E. \<not> mf_started (thread_mf L E j s) \<and> \<not> mf_stopping (thread_mf L E j s))))"
proof -
  have s: "standing_mf s" using filter_runs_standing [OF assms(1)] .
  have r: "mf_started s" "number is_stop (mf_threads s) = 1" using s assms(2) by (auto simp: standing_mf_def)
  have "work_mf t \<le> work_mf s \<and> (inside (mf_threads s ! i) \<longrightarrow> work_mf t < work_mf s)"
    using assms(3)
  proof cases
    case (configure c present)
    then show ?thesis using r by (auto simp: Configure_def idle_thread_def)
  next
    case (start E)
    then show ?thesis using r by (auto simp: Start_mf_def idle_thread_def)
  next
    case (process c)
    then show ?thesis using assms(2) by (auto simp: admit_mf_def answered_mf_def work_mf_def idle_thread_def)
  next
    case (stop E)
    then show ?thesis using r assms(2) work_stop_wait [of i s] by (auto simp: Stop_mf_def idle_thread_def)
  next
    case (reset E)
    then show ?thesis using assms(2) by (auto simp: Reset_mf_def idle_thread_def)
  next
    case (thread E)
    then have i: "i < length (mf_threads s)" by (simp add: thread_ready_def)
    have "cost_mf p = 0" if "\<not> inside p" for p using that by (cases p) simp_all
    with i work_stop_wait [OF i] have "work_mf t = work_mf s" if "\<not> inside (mf_threads s ! i)"
      using that by (cases "mf_threads s ! i") (auto simp: thread(1) thread_mf_def)
    with work_thread [OF i, of L E] thread(1) show ?thesis by fastforce
  qed
  moreover have "\<exists>j. thread_ready j s \<and> (\<forall>E. \<not> mf_started (thread_mf L E j s) \<and> \<not> mf_stopping (thread_mf L E j s))"
    if w: "work_mf s = 0"
  proof -
    from r(2) have "\<not> list_all (\<lambda>p. \<not> is_stop p) (mf_threads s)" by (simp flip: number_none)
    then obtain j where j: "j < length (mf_threads s)" "is_stop (mf_threads s ! j)" by (auto simp: list_all_length)
    then obtain b where b: "mf_threads s ! j = F_stop b" by (cases "mf_threads s ! j") auto
    with standingD(1) [OF s j(1)] work_zero [OF s w] have "mf_threads s ! j = F_stop False" by auto
    with j work_zero [OF s w] show ?thesis
      by (intro exI [of _ j]) (simp add: thread_ready_def asleep_mf_def thread_mf_def stop_wait_def filter_fields)
  qed
  ultimately show ?thesis by blast
qed

section \<open>A sample session\<close>

text \<open>Thread 0 runs a callback on a CUDA frame while thread 1 stops the filter.\<close>

definition sample_frames :: filter_lib where
  "sample_frames = \<lparr>fl_cuda = 117,
     fl_frames = (\<lambda>f. Some \<lparr>hf_data = True, hf_ref = Some 7, hf_cuda = True, hf_native = True, hf_context = True\<rparr>)\<rparr>"

definition cuda_frame :: av_frame where
  "cuda_frame = \<lparr>fr_pts = 10, fr_best_effort = 10, fr_pkt_dts = 10, fr_time_base = avq 1 25, fr_duration = 1, fr_width = 8,
     fr_height = 8, fr_format = 117, fr_nb_samples = 0, fr_sample_rate = 0,
     fr_layout = 0, fr_has_data = True, fr_captions = False, fr_full_range = False, fr_buffers = 1\<rparr>"

definition cuda_call :: filter_call where
  "cuda_call = \<lparr>fc_input = null_result\<lparr>rr_status := KFrame, rr_frame := Has_frame cuda_frame\<rparr>, fc_video = True, fc_consume = False\<rparr>"

definition fair_env :: filter_env where
  "fair_env = \<lparr>fe_bind = True, fe_pop = True, fe_ref = None, fe_frame = Inr (Has_frame cuda_frame), fe_done = Inr ()\<rparr>"

definition open_filter :: av_filter where
  "open_filter = snd (Start_mf fair_env (snd (Configure On_stop True (snd (Configure On_video True (AvMediaFilter_new 2))))))"

definition step_mf :: "nat \<Rightarrow> av_filter \<Rightarrow> av_filter" where
  "step_mf i s = thread_mf sample_frames fair_env i s"

definition halting :: av_filter where
  "halting = Stop_mf fair_env 1 (step_mf 0 (step_mf 0 (admit_mf 0 cuda_call open_filter)))"

definition halted_mf :: av_filter where
  "halted_mf = step_mf 1 (step_mf 0 (step_mf 0 halting))"

lemma run_on: "filter_runs L s \<Longrightarrow> filtering L i s t \<Longrightarrow> filter_runs L t"
  unfolding filter_runs_def some_thread_def by (blast intro: rtranclp.rtrancl_into_rtrancl)

lemma run_step: "filter_runs sample_frames s \<Longrightarrow> thread_ready i s \<Longrightarrow> filter_runs sample_frames (step_mf i s)"
  unfolding step_mf_def by (blast intro: run_on filtering.thread)

lemma open_runs: "filter_runs sample_frames open_filter"
proof -
  have r: "filter_runs sample_frames (AvMediaFilter_new 2)" by (auto simp: filter_runs_def)
  have i: "idle_thread 0 (AvMediaFilter_new 2)" "idle_thread 0 (snd (Configure On_video True (AvMediaFilter_new 2)))"
    "idle_thread 0 (snd (Configure On_stop True (snd (Configure On_video True (AvMediaFilter_new 2)))))"
    by code_simp+
  show ?thesis
    unfolding open_filter_def
    by (rule run_on [OF run_on [OF run_on [OF r filtering.configure [OF i(1)]] filtering.configure [OF i(2)]] filtering.start [OF i(3)]])
qed

lemma halting_runs: "filter_runs sample_frames halting"
proof -
  have i: "idle_thread 0 open_filter" "thread_ready 0 (admit_mf 0 cuda_call open_filter)"
    "thread_ready 0 (step_mf 0 (admit_mf 0 cuda_call open_filter))"
    "idle_thread 1 (step_mf 0 (step_mf 0 (admit_mf 0 cuda_call open_filter)))"
    "\<not> list_ex is_reset (mf_threads (step_mf 0 (step_mf 0 (admit_mf 0 cuda_call open_filter))))"
    by code_simp+
  show ?thesis
    unfolding halting_def
    by (rule run_on [OF run_step [OF run_step [OF run_on [OF open_runs filtering.process [OF i(1)]] i(2)] i(3)]
          filtering.stop [OF i(4,5)]])
qed

lemma halted_runs: "filter_runs sample_frames halted_mf"
proof -
  have i: "thread_ready 0 halting" "thread_ready 0 (step_mf 0 halting)" "thread_ready 1 (step_mf 0 (step_mf 0 halting))"
    by code_simp+
  show ?thesis
    unfolding halted_mf_def by (rule run_step [OF run_step [OF run_step [OF halting_runs i(1)] i(2)] i(3)])
qed

theorem filter_sessions_witness:
  "replay (mh_log halted_mf) = Some (mf_started halted_mf, busy_mf halted_mf, mf_device halted_mf) \<and>
   mh_log halted_mf = [E_start, E_retain 7, E_call 0, E_return 0, E_stop (Some 7)]"
proof -
  have "mh_log halted_mf = [E_start, E_retain 7, E_call 0, E_return 0, E_stop (Some 7)]" by code_simp
  with filter_sessions [OF halted_runs] show ?thesis by simp
qed

theorem filter_restores_witness:
  "bound_after (mh_bound halted_mf 0) None = Some None \<and> mh_bound halted_mf 0 = [Op_push 7, Op_pop]"
proof -
  have "0 < length (mf_threads halted_mf)" "mf_threads halted_mf ! 0 = F_idle" "mh_bound halted_mf 0 = [Op_push 7, Op_pop]"
    by code_simp+
  with filter_restores [OF halted_runs this(1,2)] show ?thesis by simp
qed

theorem filter_no_lost_wakeup_witness:
  "asleep_mf (mf_threads halting ! 1) \<and> 0 < number inside (mf_threads halting)"
proof -
  have "1 < length (mf_threads halting)" "asleep_mf (mf_threads halting ! 1)" "\<not> is_join (mf_threads halting ! 1)"
    by code_simp+
  with filter_no_lost_wakeup [OF halting_runs this(1,2)] show ?thesis by simp
qed


theorem filter_stop_ends_witness:
  "work_mf (step_mf 0 halting) < work_mf halting \<and> work_mf halting = 2"
proof -
  have f: "mf_stopping halting" "thread_ready 0 halting" "inside (mf_threads halting ! 0)" "work_mf halting = 2"
    by code_simp+
  have "filtering sample_frames 0 halting (step_mf 0 halting)"
    unfolding step_mf_def using f(2) by (rule filtering.thread)
  with filter_stop_ends [OF halting_runs f(1) this] f show ?thesis by blast
qed

end
