(* ===== verification/Audio_Adapter.thy ===== *)
theory Audio_Adapter
  imports Av_Model
begin

text \<open>
  \<^verbatim>\<open>ffmpeg/audio_frame_adapter.cc\<close>: an FFmpeg filter graph of a source and a sink, used to cut audio into
  frames of one size. The graph is the parameter \<open>graph_lib\<close> over the type \<open>'g\<close> of configured graphs; what
  FFmpeg documents of a sink with a frame size is the locale \<open>block_fifo\<close>.
\<close>

record 'g graph_lib =
  graph_new :: "int \<Rightarrow> int \<Rightarrow> int \<Rightarrow> channel_layout \<Rightarrow> int \<Rightarrow> 'g result"
  graph_write :: "av_frame \<Rightarrow> 'g \<Rightarrow> unit result \<times> 'g"
  graph_close :: "'g \<Rightarrow> unit result \<times> 'g"
  graph_get :: "'g \<Rightarrow> av_frame option result \<times> 'g"
  graph_tb :: "'g \<Rightarrow> av_rational"

record 'g adapter =
  ad_time_base :: av_rational
  ad_graph :: 'g

definition AudioFrameAdapter :: "av_lib \<Rightarrow> 'g graph_lib \<Rightarrow> int \<Rightarrow> int \<Rightarrow> int \<Rightarrow> channel_layout \<Rightarrow> int \<Rightarrow> 'g adapter result" where
  "AudioFrameAdapter L G input output rate layout blk =
     (if rate \<le> 0 \<or> blk < 0 \<or> \<not> sample_fmt_known L input \<or> \<not> sample_fmt_known L output \<or> \<not> layout_check L layout
      then Inl Invalid_argument
      else chain (graph_new G input output rate layout blk) (\<lambda>g.
        Inr \<lparr>ad_time_base = avq 1 rate, ad_graph = g\<rparr>))"

definition Submit :: "av_lib \<Rightarrow> 'g graph_lib \<Rightarrow> av_frame \<Rightarrow> 'g adapter \<Rightarrow> unit result \<times> 'g adapter" where
  "Submit L G f a =
     (if fr_pts f = AV_NOPTS_VALUE \<or> num (fr_time_base f) \<le> 0 \<or> den (fr_time_base f) \<le> 0 \<or> fr_duration f < 0
      then (Inl Invalid_argument, a)
      else
        let f' = f\<lparr>fr_pts := rescale_q L (fr_pts f) (fr_time_base f) (ad_time_base a),
                   fr_duration := rescale_q L (fr_duration f) (fr_time_base f) (ad_time_base a),
                   fr_time_base := ad_time_base a\<rparr>
        in if fr_pts f' = AV_NOPTS_VALUE \<or> fr_pts f' = i64_max \<or> fr_duration f' < 0 \<or> fr_duration f' = i64_max
           then (Inl Overflow_error, a)
           else case graph_write G f' (ad_graph a) of (r, g) \<Rightarrow> (r, a\<lparr>ad_graph := g\<rparr>))"

definition End_ad :: "'g graph_lib \<Rightarrow> 'g adapter \<Rightarrow> unit result \<times> 'g adapter" where
  "End_ad G a = (case graph_close G (ad_graph a) of (r, g) \<Rightarrow> (r, a\<lparr>ad_graph := g\<rparr>))"

definition Receive :: "'g graph_lib \<Rightarrow> 'g adapter \<Rightarrow> av_frame option result \<times> 'g adapter" where
  "Receive G a =
     (case graph_get G (ad_graph a) of
        (Inr (Some f), g) \<Rightarrow> (Inr (Some (f\<lparr>fr_time_base := graph_tb G g\<rparr>)), a\<lparr>ad_graph := g\<rparr>)
      | (r, g) \<Rightarrow> (r, a\<lparr>ad_graph := g\<rparr>))"

section \<open>A sink with a frame size\<close>

text \<open>
  What the graph holds is described by the timestamp of its first sample, the number of samples, and whether
  its source has been closed. A sink gives frames of exactly the size, without gaps, and after the close what
  is left.
\<close>

record fifo_view =
  fv_start :: int
  fv_length :: int
  fv_closed :: bool

locale block_fifo =
  fixes G :: "'g graph_lib" and blk :: int and view :: "'g \<Rightarrow> fifo_view"
  assumes new_empty: "graph_new G i out rate layout blk = Inr g \<Longrightarrow> fv_length (view g) = 0 \<and> \<not> fv_closed (view g)"
    and write_appends: "graph_write G f g = (Inr (), g') \<Longrightarrow> \<not> fv_closed (view g) \<Longrightarrow> 0 < fr_nb_samples f \<Longrightarrow>
      fv_length (view g) = 0 \<or> fr_pts f = fv_start (view g) + fv_length (view g) \<Longrightarrow>
      view g' = \<lparr>fv_start = (if fv_length (view g) = 0 then fr_pts f else fv_start (view g)),
        fv_length = fv_length (view g) + fr_nb_samples f, fv_closed = False\<rparr>"
    and close_closes: "graph_close G g = (Inr (), g') \<Longrightarrow> view g' = (view g)\<lparr>fv_closed := True\<rparr>"
    and get_block: "graph_get G g = (Inr (Some f), g') \<Longrightarrow> 0 \<le> fv_length (view g) \<Longrightarrow>
      0 < fr_nb_samples f \<and> fr_nb_samples f = min blk (fv_length (view g)) \<and>
      (fr_nb_samples f < blk \<longrightarrow> fv_closed (view g)) \<and> fr_pts f = fv_start (view g) \<and>
      view g' = (view g)\<lparr>fv_start := fv_start (view g) + fr_nb_samples f, fv_length := fv_length (view g) - fr_nb_samples f\<rparr>"
    and get_none: "graph_get G g = (Inr None, g') \<Longrightarrow> 0 \<le> fv_length (view g) \<Longrightarrow>
      view g' = view g \<and> fv_length (view g) < blk \<and> (fv_closed (view g) \<longrightarrow> fv_length (view g) = 0)"
    and graph_error: "graph_new G i out rate layout blk = Inl e \<Longrightarrow> e \<noteq> Undefined_behaviour"
    and call_errors: "fst (graph_write G f g) = Inl e \<Longrightarrow> e = Ffmpeg_error" "fst (graph_close G g) = Inl e \<Longrightarrow> e = Ffmpeg_error"
      "fst (graph_get G g) = Inl e \<Longrightarrow> e = Ffmpeg_error"

text \<open>A computable graph that meets these laws: it keeps the description, and no media data.\<close>

definition ref_get :: "int \<Rightarrow> fifo_view \<Rightarrow> av_frame option result \<times> fifo_view" where
  "ref_get blk v =
     (if blk \<le> fv_length v \<or> fv_closed v \<and> 0 < fv_length v then
        let n = min blk (fv_length v) in
        (Inr (Some \<lparr>fr_pts = fv_start v, fr_best_effort = fv_start v, fr_pkt_dts = AV_NOPTS_VALUE, fr_time_base = avq 1 1,
           fr_duration = n, fr_width = 0, fr_height = 0, fr_format = 0, fr_nb_samples = n, fr_sample_rate = 1, fr_layout = 1,
           fr_has_data = True, fr_captions = False, fr_full_range = False, fr_buffers = 0\<rparr>),
         v\<lparr>fv_start := fv_start v + n, fv_length := fv_length v - n\<rparr>)
      else (Inr None, v))"

definition ref_graph :: "int \<Rightarrow> int \<Rightarrow> fifo_view graph_lib" where
  "ref_graph rate blk = \<lparr>
     graph_new = (\<lambda>_ _ _ _ _. Inr \<lparr>fv_start = 0, fv_length = 0, fv_closed = False\<rparr>),
     graph_write = (\<lambda>f v. (Inr (), \<lparr>fv_start = (if fv_length v = 0 then fr_pts f else fv_start v),
        fv_length = fv_length v + fr_nb_samples f, fv_closed = fv_closed v\<rparr>)),
     graph_close = (\<lambda>v. (Inr (), v\<lparr>fv_closed := True\<rparr>)),
     graph_get = ref_get blk,
     graph_tb = (\<lambda>_. avq 1 rate)\<rparr>"

lemma ref_graph_fifo: "0 < blk \<Longrightarrow> block_fifo (ref_graph rate blk) blk id"
  by unfold_locales (auto simp: ref_graph_def ref_get_def Let_def min_def split: if_splits)

end
