(* ===== verification/Audio_Resampler.thy ===== *)
theory Audio_Resampler
  imports Audio_Adapter Frame_Converter
begin

text \<open>
  \<^verbatim>\<open>filter/audio_resampler.cc\<close>: conversion of an audio track to one format, and cutting it into blocks of one
  size. \<open>AudioResampler::Impl\<close> is \<open>resampler\<close>; every public call holds the mutex for its whole body, so each is
  one function on the state. libswresample is the parameter \<open>swr_lib\<close> over the type \<open>'w\<close> of contexts. Latency
  observers and log messages are left out; a frame on a hardware device is not audio and has no data here.

  Histories: inputs submitted and consumed since the last reset, the operations on the converter, and the
  segments of blocks.
\<close>

section \<open>State and construction\<close>

record 'w swr_lib =
  rescale_up :: "int \<Rightarrow> av_rational \<Rightarrow> av_rational \<Rightarrow> int"
  swr_new :: "channel_layout \<Rightarrow> int \<Rightarrow> int \<Rightarrow> channel_layout \<Rightarrow> int \<Rightarrow> int \<Rightarrow> 'w result"
  swr_next :: "int \<Rightarrow> 'w \<Rightarrow> int \<times> 'w"
  swr_room :: "int \<Rightarrow> 'w \<Rightarrow> int"
  swr_run :: "int \<Rightarrow> av_frame option \<Rightarrow> 'w \<Rightarrow> int \<times> 'w"

record resampler_config =
  ac_rate :: int
  ac_format :: int
  ac_layout :: channel_layout
  ac_capacity :: nat
  ac_block :: int

datatype converter_op = Op_open read_result | Op_convert read_result | Op_drain nat | Op_close | Op_eof read_result

record segment =
  sg_first :: int
  sg_samples :: int
  sg_blocks :: "av_frame list"
  sg_done :: bool

record ('w, 'g) resampler =
  ar_rate :: int
  ar_format :: int
  ar_capacity :: nat
  ar_block :: int
  ar_adapter :: "'g adapter option"
  ar_pending :: "read_result option"
  ar_meta :: read_result
  ar_block_next :: "int option"
  ar_ending :: bool
  ar_precision :: int
  ar_generation :: "64 word"
  ar_block_generation :: "64 word"
  ar_layout :: channel_layout
  ar_context :: "'w option"
  ar_inputs :: "read_result list"
  ar_last :: "read_result option"
  ar_next :: "int option"
  ar_stopped :: bool
  ar_failure :: "exn option"
  ah_taken :: "read_result list"
  ah_pushed :: "read_result list"
  ah_ops :: "converter_op list"
  ah_segments :: "segment list"

definition AudioResampler :: "av_lib \<Rightarrow> resampler_config \<Rightarrow> ('w, 'g) resampler result" where
  "AudioResampler L c =
     (if ac_rate c \<le> 0 \<or> \<not> sample_fmt_known L (ac_format c) \<or> \<not> layout_check L (ac_layout c) \<or>
         ac_capacity c = 0 \<or> ac_block c < 0
      then Inl Invalid_argument
      else Inr \<lparr>ar_rate = ac_rate c, ar_format = ac_format c, ar_capacity = ac_capacity c, ar_block = ac_block c,
        ar_adapter = None, ar_pending = None, ar_meta = null_result, ar_block_next = None, ar_ending = False,
        ar_precision = 1, ar_generation = 0, ar_block_generation = 0, ar_layout = ac_layout c, ar_context = None,
        ar_inputs = [], ar_last = None, ar_next = None, ar_stopped = False, ar_failure = None, ah_taken = [],
        ah_pushed = [], ah_ops = [], ah_segments = []\<rparr>)"

definition time_base_ar :: "('w, 'g) resampler \<Rightarrow> av_rational" where
  "time_base_ar s = avq 1 (ar_rate s)"

section \<open>Arithmetic\<close>

definition Rescale_ar :: "av_lib \<Rightarrow> int \<Rightarrow> av_rational \<Rightarrow> av_rational \<Rightarrow> int result" where
  "Rescale_ar L v from to =
     (let r = rescale_q L v from to in if r = AV_NOPTS_VALUE \<or> r = i64_max then Inl Overflow_error else Inr r)"

text \<open>The divisions of C++ round towards zero.\<close>

definition Multiply :: "int \<Rightarrow> int \<Rightarrow> int result" where
  "Multiply v m =
     (if i64_max div m < v \<or> v \<le> - ((i64_max + 1) div m) then Inl Overflow_error else Inr (v * m))"

definition AddSamples :: "int \<Rightarrow> int \<Rightarrow> int result" where
  "AddSamples pts n = (if i64_max - n < pts then Inl Overflow_error else Inr (pts + n))"

lemma Multiply_range:
  assumes "0 < m" "Multiply v m = Inr p"
  shows "i64_min < p \<and> p \<le> i64_max"
proof -
  from assms(2) have v: "v \<le> i64_max div m" "- ((i64_max + 1) div m) < v" "p = v * m"
    by (auto simp: Multiply_def split: if_splits)
  have d: "(a div m) * m \<le> a" for a
    using assms(1) by (simp add: minus_mod_eq_div_mult [symmetric])
  note d [of i64_max] d [of "i64_max + 1"]
  moreover from v(1) assms(1) have "v * m \<le> (i64_max div m) * m" by (simp add: mult_right_mono)
  moreover from v(2) assms(1) have "- ((i64_max + 1) div m) * m < v * m" by (intro mult_strict_right_mono)
  ultimately show ?thesis using v(3) by (simp add: algebra_simps)
qed

section \<open>Submission\<close>

definition Validate_ar :: "av_lib \<Rightarrow> int \<Rightarrow> read_result \<Rightarrow> unit result" where
  "Validate_ar L rate i =
     (if rr_status i = KEof then
        if has_value (rr_frame i) \<or> rr_end_pts i \<noteq> AV_NOPTS_VALUE \<and> \<not> valid_tb (rr_time_base i) then Inl Invalid_argument
        else if rr_end_pts i \<noteq> AV_NOPTS_VALUE
        then chain (Rescale_ar L (rr_end_pts i) (rr_time_base i) (avq 1 rate)) (\<lambda>_. Inr ())
        else Inr ()
      else if rr_status i \<noteq> KFrame \<or> \<not> has_value (rr_frame i) \<or> \<not> has_frame (rr_frame i) then Inl Invalid_argument
      else if fr_width (in_frame i) \<noteq> 0 \<or> fr_height (in_frame i) \<noteq> 0 \<or> fr_nb_samples (in_frame i) \<le> 0 \<or>
          fr_sample_rate (in_frame i) \<le> 0 \<or> \<not> sample_fmt_known L (fr_format (in_frame i)) \<or>
          \<not> layout_check L (fr_layout (in_frame i)) \<or> fr_pts (in_frame i) = AV_NOPTS_VALUE \<or>
          \<not> valid_tb (rr_time_base i) \<or> \<not> fr_has_data (in_frame i)
      then Inl Invalid_argument
      else
        chain (Rescale_ar L (fr_pts (in_frame i)) (rr_time_base i) (avq 1 (fr_sample_rate (in_frame i)))) (\<lambda>p.
        chain (Multiply p rate) (\<lambda>_.
        chain (Rescale_ar L (fr_pts (in_frame i)) (rr_time_base i) (avq 1 rate)) (\<lambda>_. Inr ()))))"

definition TryPushFrame_ar :: "av_lib \<Rightarrow> read_result \<Rightarrow> ('w, 'g) resampler \<Rightarrow> bool result \<times> ('w, 'g) resampler" where
  "TryPushFrame_ar L i s =
     (if ar_stopped s \<or> ar_failure s \<noteq> None then (Inr False, s)
      else if ar_capacity s \<le> length (ar_inputs s) then (Inr False, s)
      else case Validate_ar L (ar_rate s) i of
        Inl e \<Rightarrow> (Inl e, s)
      | Inr _ \<Rightarrow> (Inr True, s\<lparr>ar_inputs := ar_inputs s @ [i], ah_pushed := ah_pushed s @ [i]\<rparr>))"

section \<open>Conversion\<close>

text \<open>Only called with a context, when \<open>ar_last\<close> is there.\<close>

definition Matches :: "av_lib \<Rightarrow> read_result \<Rightarrow> read_result \<Rightarrow> bool" where
  "Matches L l i \<longleftrightarrow>
     rr_stream i = rr_stream l \<and> fr_sample_rate (in_frame i) = fr_sample_rate (in_frame l) \<and>
     fr_format (in_frame i) = fr_format (in_frame l) \<and>
     layout_compare L (fr_layout (in_frame i)) (fr_layout (in_frame l)) = 0"

definition note_op :: "converter_op \<Rightarrow> ('w, 'g) resampler \<Rightarrow> ('w, 'g) resampler" where
  "note_op p s = s\<lparr>ah_ops := ah_ops s @ [p]\<rparr>"

definition Initialize_ar :: "'w swr_lib \<Rightarrow> read_result \<Rightarrow> (('w, 'g) resampler, unit) act" where
  "Initialize_ar W i =
     andthen (modify (\<lambda>s. s\<lparr>ar_generation := ar_generation s + 1\<rparr>)) (\<lambda>_.
     andthen (gets (\<lambda>s. swr_new W (ar_layout s) (ar_format s) (ar_rate s) (fr_layout (in_frame i))
       (fr_format (in_frame i)) (fr_sample_rate (in_frame i)))) (\<lambda>r.
     andthen (lift r) (\<lambda>w.
     modify (\<lambda>s. note_op (Op_open i) (s\<lparr>ar_context := Some w\<rparr>)))))"

text \<open>A buffer that cannot be had is an error of FFmpeg.\<close>

definition Allocate :: "av_lib \<Rightarrow> int \<Rightarrow> av_frame \<Rightarrow> ('w, 'g) resampler \<Rightarrow> av_frame result" where
  "Allocate L n source s =
     (case alloc_audio L (ar_format s) (ar_rate s) (ar_layout s) n of
        None \<Rightarrow> Inl Ffmpeg_error
      | Some b \<Rightarrow> Inr (source\<lparr>fr_sample_rate := ar_rate s, fr_format := ar_format s, fr_nb_samples := n,
          fr_layout := ar_layout s, fr_width := 0, fr_height := 0, fr_has_data := True, fr_buffers := b\<rparr>))"

definition Output_ar :: "av_frame \<Rightarrow> int \<Rightarrow> int \<Rightarrow> (('w, 'g) resampler, read_result) act" where
  "Output_ar f n pts =
     (if n = 0 then ret null_result
      else
        andthen (lift (AddSamples pts n)) (\<lambda>next.
        andthen (modify (\<lambda>s. s\<lparr>ar_next := Some next\<rparr>)) (\<lambda>_.
        andthen (gets (\<lambda>s. (deref (ar_last s), time_base_ar s))) (\<lambda>(l, tb).
        andthen (lift l) (\<lambda>l.
        ret \<lparr>rr_status = KFrame,
             rr_frame = Has_frame (f\<lparr>fr_nb_samples := n, fr_pts := pts, fr_pkt_dts := AV_NOPTS_VALUE,
               fr_best_effort := pts, fr_time_base := tb, fr_duration := n\<rparr>),
             rr_stream = rr_stream l, rr_time_base = tb, rr_end_pts = AV_NOPTS_VALUE\<rparr>)))))"

text \<open>A call of \<open>swr_convert\<close>.\<close>

definition run_swr :: "'w swr_lib \<Rightarrow> int \<Rightarrow> av_frame option \<Rightarrow> (('w, 'g) resampler, int) act" where
  "run_swr W room source =
     andthen (gets (\<lambda>s. deref (ar_context s))) (\<lambda>r.
     andthen (lift r) (\<lambda>w.
     case swr_run W room source w of
       (n, w) \<Rightarrow> andthen (modify (\<lambda>s. s\<lparr>ar_context := Some w\<rparr>)) (\<lambda>_.
         andthen (guard (0 \<le> n) Ffmpeg_error) (\<lambda>_. ret n))))"

definition Convert_ar :: "av_lib \<Rightarrow> 'w swr_lib \<Rightarrow> read_result \<Rightarrow> (('w, 'g) resampler, read_result) act" where
  "Convert_ar L W i =
     andthen (modify (\<lambda>s. s\<lparr>ar_precision := rescale_up W 1 (rr_time_base i) (time_base_ar s) + 1\<rparr>)) (\<lambda>_.
     andthen (lift (Rescale_ar L (fr_pts (in_frame i)) (rr_time_base i) (avq 1 (fr_sample_rate (in_frame i))))) (\<lambda>p.
     andthen (gets (\<lambda>s. (Multiply p (ar_rate s), deref (ar_context s)))) (\<lambda>(p, w).
     andthen (lift p) (\<lambda>p.
     andthen (lift w) (\<lambda>w.
     case swr_next W p w of
       (q, w) \<Rightarrow>
     andthen (modify (\<lambda>s. s\<lparr>ar_context := Some w\<rparr>)) (\<lambda>_.
     andthen (guard (q \<noteq> AV_NOPTS_VALUE) Overflow_error) (\<lambda>_.
     andthen (lift (Rescale_ar L q (avq 1 (fr_sample_rate (in_frame i))) (avq 1 1))) (\<lambda>pts.
     let room = swr_room W (fr_nb_samples (in_frame i)) w in
     andthen (guard (0 \<le> room) Ffmpeg_error) (\<lambda>_.
     andthen (gets (Allocate L (if 0 < room then room else 1) (in_frame i))) (\<lambda>f.
     andthen (lift f) (\<lambda>f.
     andthen (run_swr W (fr_nb_samples f) (Some (in_frame i))) (\<lambda>n.
     andthen (modify (\<lambda>s. note_op (Op_convert i) (s\<lparr>ar_last := Some i, ar_next := Some pts\<rparr>))) (\<lambda>_.
     Output_ar f n pts)))))))))))))"

definition Drain_ar :: "av_lib \<Rightarrow> 'w swr_lib \<Rightarrow> (('w, 'g) resampler, read_result) act" where
  "Drain_ar L W =
     andthen (gets (\<lambda>s. (deref (ar_context s), deref (ar_last s), deref (ar_next s)))) (\<lambda>(w, l, next).
     andthen (lift w) (\<lambda>w.
     andthen (guard (0 \<le> swr_room W 0 w) Ffmpeg_error) (\<lambda>_.
     andthen (lift l) (\<lambda>l.
     andthen (gets (Allocate L (if 0 < swr_room W 0 w then swr_room W 0 w else 1) (in_frame l))) (\<lambda>f.
     andthen (lift f) (\<lambda>f.
     andthen (run_swr W (fr_nb_samples f) None) (\<lambda>n.
     andthen (modify (note_op (Op_drain (nat n)))) (\<lambda>_.
     andthen (lift next) (\<lambda>next. Output_ar f n next)))))))))"

definition ClearConverter :: "('w, 'g) resampler \<Rightarrow> ('w, 'g) resampler" where
  "ClearConverter s = s\<lparr>ar_context := None, ar_last := None, ar_next := None\<rparr>"

definition pop_ar :: "read_result \<Rightarrow> read_result list \<Rightarrow> ('w, 'g) resampler \<Rightarrow> ('w, 'g) resampler" where
  "pop_ar i rest s = s\<lparr>ar_inputs := rest, ah_taken := ah_taken s @ [i]\<rparr>"

text \<open>The end of the loop body for an input that changes the format or ends the track.\<close>

definition retire :: "av_lib \<Rightarrow> 'w swr_lib \<Rightarrow> read_result \<Rightarrow> (('w, 'g) resampler, read_result option) act" where
  "retire L W i =
     andthen (gets (\<lambda>s. (ar_context s, ar_last s))) (\<lambda>(w, l).
     if w = None then ret None
     else andthen (if rr_status i = KEof then ret True else andthen (lift (deref l)) (\<lambda>l. ret (\<not> Matches L l i))) (\<lambda>ends.
     if \<not> ends then ret None
     else andthen (Drain_ar L W) (\<lambda>out.
       if rr_status out = KFrame then ret (Some out)
       else andthen (modify (\<lambda>s. note_op Op_close (ClearConverter s))) (\<lambda>_. ret None))))"

definition forward_eof :: "av_lib \<Rightarrow> read_result \<Rightarrow> read_result list \<Rightarrow> (('w, 'g) resampler, read_result) act" where
  "forward_eof L i rest =
     andthen (gets time_base_ar) (\<lambda>tb.
     andthen (lift (if rr_end_pts i \<noteq> AV_NOPTS_VALUE then Rescale_ar L (rr_end_pts i) (rr_time_base i) tb
       else Inr AV_NOPTS_VALUE)) (\<lambda>end.
     andthen (modify (\<lambda>s. note_op (Op_eof i) (pop_ar i rest s))) (\<lambda>_.
     ret (i\<lparr>rr_time_base := tb, rr_end_pts := end\<rparr>))))"

text \<open>The loop of \<open>ReadConverted\<close>; the list is the input queue.\<close>

fun read_converted :: "av_lib \<Rightarrow> 'w swr_lib \<Rightarrow> read_result list \<Rightarrow> (('w, 'g) resampler, read_result) act" where
  "read_converted L W [] = ret null_result"
| "read_converted L W (i # rest) =
     andthen (retire L W i) (\<lambda>out.
     case out of
       Some o' \<Rightarrow> ret o'
     | None \<Rightarrow>
         if rr_status i = KEof then forward_eof L i rest
         else
           andthen (gets ar_context) (\<lambda>w.
           andthen (if w = None then Initialize_ar W i else ret ()) (\<lambda>_.
           andthen (Convert_ar L W i) (\<lambda>o'.
           andthen (modify (pop_ar i rest)) (\<lambda>_.
           if rr_status o' = KFrame then ret o' else read_converted L W rest)))))"

definition ReadConverted :: "av_lib \<Rightarrow> 'w swr_lib \<Rightarrow> (('w, 'g) resampler, read_result) act" where
  "ReadConverted L W = andthen (gets ar_inputs) (read_converted L W)"

section \<open>Blocks\<close>

text \<open>The distance of two timestamps as the code computes it, in unsigned 64 bits.\<close>

definition BlockContinuous :: "int \<Rightarrow> int \<Rightarrow> int \<Rightarrow> bool" where
  "BlockContinuous precision expected pts \<longleftrightarrow>
     (if expected \<le> pts then to_u64 pts - to_u64 expected else to_u64 expected - to_u64 pts) \<le> to_u64 precision"

text \<open>The histories of segments; the newest is the first.\<close>

definition new_segment :: "segment list \<Rightarrow> segment list" where
  "new_segment ss = \<lparr>sg_first = 0, sg_samples = 0, sg_blocks = [], sg_done = False\<rparr> # ss"

fun on_segment :: "(segment \<Rightarrow> segment) \<Rightarrow> segment list \<Rightarrow> segment list" where
  "on_segment f [] = []"
| "on_segment f (x # xs) = f x # xs"

definition note_segment :: "(segment \<Rightarrow> segment) \<Rightarrow> ('w, 'g) resampler \<Rightarrow> ('w, 'g) resampler" where
  "note_segment f s = s\<lparr>ah_segments := on_segment f (ah_segments s)\<rparr>"

text \<open>A short frame is copied into one of the full size and filled with silence.\<close>

definition pad_block :: "av_lib \<Rightarrow> av_frame \<Rightarrow> ('w, 'g) resampler \<Rightarrow> av_frame result" where
  "pad_block L f s = (if fr_nb_samples f < ar_block s then Allocate L (ar_block s) f s else Inr f)"

definition finish_block :: "av_frame \<Rightarrow> ('w, 'g) resampler \<Rightarrow> read_result" where
  "finish_block f s =
     (ar_meta s)\<lparr>rr_frame := Has_frame (f\<lparr>fr_duration := fr_nb_samples f, fr_best_effort := fr_pts f,
        fr_pkt_dts := AV_NOPTS_VALUE\<rparr>)\<rparr>"

text \<open>The first half of the loop body: what the adapter gives, and the end of a block sequence.\<close>

definition receive_block :: "av_lib \<Rightarrow> 'g graph_lib \<Rightarrow> (('w, 'g) resampler, read_result option) act" where
  "receive_block L G =
     andthen (gets ar_adapter) (\<lambda>a.
     case a of
       None \<Rightarrow> ret None
     | Some a \<Rightarrow>
         (case Receive G a of
            (r, a) \<Rightarrow>
          andthen (modify (\<lambda>s. s\<lparr>ar_adapter := Some a\<rparr>)) (\<lambda>_.
          andthen (lift r) (\<lambda>f.
          case f of
            Some f \<Rightarrow>
              andthen (gets (pad_block L f)) (\<lambda>p.
              andthen (lift p) (\<lambda>p.
              andthen (gets (finish_block p)) (\<lambda>out.
              andthen (modify (note_segment (\<lambda>x. x\<lparr>sg_blocks := sg_blocks x @ [in_frame out]\<rparr>))) (\<lambda>_.
              ret (Some out)))))
          | None \<Rightarrow>
              andthen (modify (\<lambda>s. if ar_ending s
                then note_segment (\<lambda>x. x\<lparr>sg_done := True\<rparr>)
                  (s\<lparr>ar_adapter := None, ar_ending := False, ar_block_next := None\<rparr>)
                else s)) (\<lambda>_. ret None)))))"

definition next_input :: "av_lib \<Rightarrow> 'w swr_lib \<Rightarrow> (('w, 'g) resampler, read_result) act" where
  "next_input L W =
     andthen (gets ar_pending) (\<lambda>p.
     andthen (case p of Some i \<Rightarrow> ret i | None \<Rightarrow> ReadConverted L W) (\<lambda>i.
     andthen (modify (\<lambda>s. s\<lparr>ar_pending := None\<rparr>)) (\<lambda>_. ret i)))"

text \<open>Whether an input ends the block sequence; the timestamps are compared only for frames.\<close>

definition breaks_block :: "read_result \<Rightarrow> ('w, 'g) resampler \<Rightarrow> bool result" where
  "breaks_block i s =
     (if ar_adapter s = None then Inr False
      else if rr_status i = KEof \<or> rr_stream i \<noteq> rr_stream (ar_meta s) then Inr True
      else chain (deref (ar_block_next s)) (\<lambda>n.
        Inr (\<not> BlockContinuous (ar_precision s) n (fr_pts (in_frame i)) \<or> ar_block_generation s \<noteq> ar_generation s)))"

definition submit_block :: "av_lib \<Rightarrow> 'g graph_lib \<Rightarrow> read_result \<Rightarrow> (('w, 'g) resampler, unit) act" where
  "submit_block L G i =
     andthen (gets (\<lambda>s. (ar_adapter s,
       AudioFrameAdapter L G (ar_format s) (ar_format s) (ar_rate s) (ar_layout s) (ar_block s)))) (\<lambda>(a, made).
     andthen (case a of
         Some a \<Rightarrow> ret a
       | None \<Rightarrow> andthen (lift made) (\<lambda>a.
           andthen (modify (\<lambda>s. s\<lparr>ar_adapter := Some a, ah_segments := new_segment (ah_segments s)\<rparr>)) (\<lambda>_. ret a))) (\<lambda>a.
     andthen (gets ar_block_next) (\<lambda>n.
     let f = (in_frame i)\<lparr>fr_pts := (case n of None \<Rightarrow> fr_pts (in_frame i) | Some n \<Rightarrow> n)\<rparr> in
     andthen (modify (\<lambda>s. s\<lparr>ar_block_generation := ar_generation s\<rparr>)) (\<lambda>_.
     case Submit L G f a of
       (r, a) \<Rightarrow>
     andthen (modify (\<lambda>s. s\<lparr>ar_adapter := Some a\<rparr>)) (\<lambda>_.
     andthen (lift r) (\<lambda>_.
     andthen (lift (AddSamples (fr_pts f) (fr_nb_samples f))) (\<lambda>next.
     modify (\<lambda>s. note_segment (\<lambda>x. x\<lparr>sg_first := (if n = None then fr_pts f else sg_first x),
           sg_samples := sg_samples x + fr_nb_samples f\<rparr>)
         (s\<lparr>ar_block_next := Some next, ar_meta := i\<lparr>rr_frame := No_frame\<rparr>\<rparr>)))))))))"

text \<open>One round of the loop of \<open>ReadFixed\<close>; None means another round.\<close>

definition fixed_round :: "av_lib \<Rightarrow> 'w swr_lib \<Rightarrow> 'g graph_lib \<Rightarrow> (('w, 'g) resampler, read_result option) act" where
  "fixed_round L W G =
     andthen (receive_block L G) (\<lambda>out.
     if out \<noteq> None then ret out
     else
       andthen (next_input L W) (\<lambda>i.
       if rr_status i = KNull then ret (Some null_result)
       else
         andthen (gets (breaks_block i)) (\<lambda>b.
         andthen (lift b) (\<lambda>b.
         if b then
           andthen (modify (\<lambda>s. s\<lparr>ar_pending := Some i\<rparr>)) (\<lambda>_.
           andthen (gets (\<lambda>s. deref (ar_adapter s))) (\<lambda>a.
           andthen (lift a) (\<lambda>a.
           case End_ad G a of
             (r, a) \<Rightarrow>
           andthen (modify (\<lambda>s. s\<lparr>ar_adapter := Some a\<rparr>)) (\<lambda>_.
           andthen (lift r) (\<lambda>_.
           andthen (modify (\<lambda>s. s\<lparr>ar_ending := True\<rparr>)) (\<lambda>_. ret None))))))
         else if rr_status i = KEof then ret (Some i)
         else andthen (submit_block L G i) (\<lambda>_. ret None)))))"

text \<open>The loop; it ends when the converter gives its delay in finitely many drains.\<close>

partial_function (option) ReadFixed ::
    "av_lib \<Rightarrow> 'w swr_lib \<Rightarrow> 'g graph_lib \<Rightarrow> ('w, 'g) resampler \<Rightarrow> (read_result result \<times> ('w, 'g) resampler) option" where
  "ReadFixed L W G s =
     (case fixed_round L W G s of
        (Inl e, t) \<Rightarrow> Some (Inl e, t)
      | (Inr (Some out), t) \<Rightarrow> Some (Inr out, t)
      | (Inr None, t) \<Rightarrow> ReadFixed L W G t)"

declare ReadFixed.simps [code]

section \<open>Reading, stopping, resetting\<close>

definition read_body :: "av_lib \<Rightarrow> 'w swr_lib \<Rightarrow> 'g graph_lib \<Rightarrow> ('w, 'g) resampler \<Rightarrow>
    (read_result result \<times> ('w, 'g) resampler) option" where
  "read_body L W G s = (if 0 < ar_block s then ReadFixed L W G s else Some (ReadConverted L W s))"

definition TryReadFrame_ar :: "av_lib \<Rightarrow> 'w swr_lib \<Rightarrow> 'g graph_lib \<Rightarrow> ('w, 'g) resampler \<Rightarrow>
    (read_result result \<times> ('w, 'g) resampler) option" where
  "TryReadFrame_ar L W G s =
     (case ar_failure s of
        Some e \<Rightarrow> Some (Inl e, s)
      | None \<Rightarrow>
          if ar_stopped s then Some (Inr null_result, s)
          else map_option (\<lambda>(r, t). (r, case r of Inl e \<Rightarrow> t\<lparr>ar_failure := Some e\<rparr> | Inr _ \<Rightarrow> t)) (read_body L W G s))"

definition ClearBlocks :: "('w, 'g) resampler \<Rightarrow> ('w, 'g) resampler" where
  "ClearBlocks s = s\<lparr>ar_adapter := None, ar_pending := None, ar_meta := null_result, ar_block_next := None, ar_ending := False\<rparr>"

definition Stop_ar :: "('w, 'g) resampler \<Rightarrow> ('w, 'g) resampler" where
  "Stop_ar s = (if ar_stopped s then s else ClearBlocks (ClearConverter (s\<lparr>ar_stopped := True, ar_inputs := []\<rparr>)))"

definition Reset_ar :: "('w, 'g) resampler \<Rightarrow> ('w, 'g) resampler" where
  "Reset_ar s = (ClearBlocks (ClearConverter (s\<lparr>ar_inputs := []\<rparr>)))\<lparr>ar_failure := None, ar_stopped := False,
     ah_taken := [], ah_pushed := [], ah_ops := [], ah_segments := []\<rparr>"

end
