(* ===== verification/Resampler_Inv.thy ===== *)
theory Resampler_Inv
  imports Audio_Resampler
begin

text \<open>
  What the operations of \<open>Audio_Resampler\<close> keep: the converter is there when it is used and is driven as
  \<open>script\<close> prescribes (\<open>conv_inv\<close>), and the blocks follow the sample clock (\<open>block_inv\<close>).
\<close>

section \<open>The libraries\<close>

text \<open>
  What is relied on of libswresample: timestamps are 64-bit values, a new context fails with an error of
  FFmpeg, and what a context holds back runs out when it is drained.
\<close>

locale resampling =
  fixes W :: "'w swr_lib" and held :: "'w \<Rightarrow> nat"
  assumes next_i64: "i64 (fst (swr_next W p w))"
    and new_error: "swr_new W a b c d e f = Inl x \<Longrightarrow> x = Ffmpeg_error"
    and drains: "swr_run W room None w = (n, w') \<Longrightarrow> 0 < n \<Longrightarrow> held w' < held w"

section \<open>The converter\<close>

definition sounds :: "av_lib \<Rightarrow> int \<Rightarrow> read_result \<Rightarrow> bool" where
  "sounds L rate i \<longleftrightarrow> Validate_ar L rate i = Inr ()"

lemma sounds_frame:
  assumes "sounds L rate i" "rr_status i \<noteq> KEof"
  shows "rr_status i = KFrame" "has_frame (rr_frame i)" "0 < fr_nb_samples (in_frame i)" "0 < fr_sample_rate (in_frame i)"
    "valid_tb (rr_time_base i)" "fr_pts (in_frame i) \<noteq> AV_NOPTS_VALUE"
  using assms by (auto simp: sounds_def Validate_ar_def split: if_splits)

text \<open>What the queue prescribes to do with the converter, and the last input it converts.\<close>

fun script :: "av_lib \<Rightarrow> read_result option \<Rightarrow> read_result list \<Rightarrow> converter_op list" where
  "script L l [] = []"
| "script L l (i # is) =
     (if rr_status i = KEof then (if l = None then [] else [Op_close]) @ Op_eof i # script L None is
      else case l of
        None \<Rightarrow> Op_open i # Op_convert i # script L (Some i) is
      | Some k \<Rightarrow>
          if Matches L k i then Op_convert i # script L (Some i) is
          else Op_close # Op_open i # Op_convert i # script L (Some i) is)"

fun script_last :: "read_result option \<Rightarrow> read_result list \<Rightarrow> read_result option" where
  "script_last l [] = l"
| "script_last l (i # is) = script_last (if rr_status i = KEof then None else Some i) is"

lemma script_last_append [simp]: "script_last l (xs @ ys) = script_last (script_last l xs) ys"
  by (induction xs arbitrary: l) simp_all

lemma script_append: "script L l (xs @ ys) = script L l xs @ script L (script_last l xs) ys"
  by (induction xs arbitrary: l) (simp_all split: option.split)

fun is_drain :: "converter_op \<Rightarrow> bool" where
  "is_drain (Op_drain n) = True"
| "is_drain _ = False"

definition steering :: "converter_op list \<Rightarrow> converter_op list" where
  "steering ops = filter (\<lambda>p. \<not> is_drain p) ops"

lemma steering_simps [simp]:
  "steering [] = []" "steering (xs @ ys) = steering xs @ steering ys" "steering (Op_drain n # xs) = steering xs"
  "steering (Op_open i # xs) = Op_open i # steering xs" "steering (Op_convert i # xs) = Op_convert i # steering xs"
  "steering (Op_close # xs) = Op_close # steering xs" "steering (Op_eof i # xs) = Op_eof i # steering xs"
  by (simp_all add: steering_def)

text \<open>A converter is given up only after a drain that gave nothing.\<close>

fun closes_drained :: "converter_op \<Rightarrow> converter_op list \<Rightarrow> bool" where
  "closes_drained p [] = True"
| "closes_drained p (q # qs) = ((q = Op_close \<longrightarrow> p = Op_drain 0) \<and> closes_drained q qs)"

lemma closes_drained_append [simp]:
  "closes_drained p (xs @ ys) = (closes_drained p xs \<and> closes_drained (last (p # xs)) ys)"
  by (induction xs arbitrary: p) auto

definition drained_ops :: "converter_op list \<Rightarrow> bool" where
  "drained_ops ops = closes_drained Op_close ops"

definition conv_inv :: "av_lib \<Rightarrow> ('w, 'g) resampler \<Rightarrow> bool" where
  "conv_inv L s \<longleftrightarrow> 0 < ar_rate s \<and>
     (ar_context s = None \<longleftrightarrow> ar_last s = None) \<and> (ar_last s = None \<longleftrightarrow> ar_next s = None) \<and>
     (\<forall>l. ar_last s = Some l \<longrightarrow> sounds L (ar_rate s) l \<and> rr_status l \<noteq> KEof) \<and>
     (\<forall>x. ar_next s = Some x \<longrightarrow> i64 x \<and> x \<noteq> AV_NOPTS_VALUE) \<and>
     (\<forall>i \<in> set (ar_inputs s). sounds L (ar_rate s) i) \<and> ah_pushed s = ah_taken s @ ar_inputs s \<and>
     script_last None (ah_taken s) = ar_last s \<and> steering (ah_ops s) = script L None (ah_taken s) \<and>
     drained_ops (ah_ops s)"

text \<open>What a conversion or a drain gives.\<close>

definition given :: "('w, 'g) resampler \<Rightarrow> read_result \<Rightarrow> bool" where
  "given s out \<longleftrightarrow> rr_status out = KNull \<or>
     rr_status out = KFrame \<and> has_frame (rr_frame out) \<and> rr_end_pts out = AV_NOPTS_VALUE \<and>
     rr_time_base out = time_base_ar s \<and> fr_time_base (in_frame out) = time_base_ar s \<and>
     0 < fr_nb_samples (in_frame out) \<and> fr_duration (in_frame out) = fr_nb_samples (in_frame out) \<and>
     i64 (fr_pts (in_frame out)) \<and> fr_pts (in_frame out) \<noteq> AV_NOPTS_VALUE \<and>
     fr_pts (in_frame out) + fr_nb_samples (in_frame out) \<le> i64_max"

text \<open>The parts of the state that conversion leaves alone.\<close>

definition apart :: "('w, 'g) resampler \<Rightarrow> ('w, 'g) resampler \<Rightarrow> bool" where
  "apart s t \<longleftrightarrow> ar_rate t = ar_rate s \<and> ar_format t = ar_format s \<and> ar_capacity t = ar_capacity s \<and> ar_block t = ar_block s \<and>
     ar_adapter t = ar_adapter s \<and> ar_pending t = ar_pending s \<and> ar_meta t = ar_meta s \<and> ar_block_next t = ar_block_next s \<and>
     ar_ending t = ar_ending s \<and> ar_block_generation t = ar_block_generation s \<and> ar_layout t = ar_layout s \<and>
     ar_stopped t = ar_stopped s \<and> ar_failure t = ar_failure s \<and> ah_pushed t = ah_pushed s \<and> ah_segments t = ah_segments s"

lemma apart_refl [simp]: "apart s s"
  by (simp add: apart_def)

lemma apart_trans: "apart s t \<Longrightarrow> apart t u \<Longrightarrow> apart s u"
  by (simp add: apart_def)

text \<open>Rules for the steps of a conversion; \<open>harmless\<close> says that any error but a dereference of nothing is allowed.\<close>

definition harmless :: "(exn \<Rightarrow> 's \<Rightarrow> bool) \<Rightarrow> bool" where
  "harmless E \<longleftrightarrow> (\<forall>e t. e \<noteq> Undefined_behaviour \<longrightarrow> E e t)"

lemma harmlessD: "harmless E \<Longrightarrow> e \<noteq> Undefined_behaviour \<Longrightarrow> E e t"
  by (simp add: harmless_def)

definition made :: "av_frame \<Rightarrow> int \<Rightarrow> int \<Rightarrow> read_result \<Rightarrow> ('w, 'g) resampler \<Rightarrow> read_result" where
  "made f n pts l s = \<lparr>rr_status = KFrame,
     rr_frame = Has_frame (f\<lparr>fr_nb_samples := n, fr_pts := pts, fr_pkt_dts := AV_NOPTS_VALUE,
       fr_best_effort := pts, fr_time_base := time_base_ar s, fr_duration := n\<rparr>),
     rr_stream = rr_stream l, rr_time_base = time_base_ar s, rr_end_pts = AV_NOPTS_VALUE\<rparr>"

lemma Output_wp:
  assumes "ar_last s = Some l" "0 \<le> n" "harmless E"
    and "n = 0 \<Longrightarrow> Q null_result s"
    and "0 < n \<Longrightarrow> pts + n \<le> i64_max \<Longrightarrow> Q (made f n pts l s) (s\<lparr>ar_next := Some (pts + n)\<rparr>)"
  shows "wp (Output_ar f n pts) Q E s"
proof (cases "n = 0")
  case True
  then show ?thesis by (simp add: Output_ar_def wp_eqs assms(4))
next
  case False
  with assms show ?thesis
    by (simp add: Output_ar_def wp_eqs AddSamples_def made_def time_base_ar_def harmlessD)
qed

lemma run_wp:
  assumes "ar_context s = Some w" "harmless E"
    and "\<And>n w'. swr_run W room src w = (n, w') \<Longrightarrow> 0 \<le> n \<Longrightarrow> Q n (s\<lparr>ar_context := Some w'\<rparr>)"
  shows "wp (run_swr W room src) Q E s"
proof -
  obtain n w' where r: "swr_run W room src w = (n, w')" by fastforce
  show ?thesis by (simp add: run_swr_def wp_eqs assms(1) r assms(3) [OF r] harmlessD [OF assms(2)])
qed

lemma Rescale_error: "Rescale_ar L v f t = Inl e \<Longrightarrow> e \<noteq> Undefined_behaviour"
  by (simp add: Rescale_ar_def Let_def split: if_splits)

lemma Multiply_error: "Multiply v m = Inl e \<Longrightarrow> e \<noteq> Undefined_behaviour"
  by (simp add: Multiply_def split: if_splits)

lemma Allocate_error: "Allocate L n f s = Inl e \<Longrightarrow> e \<noteq> Undefined_behaviour"
  by (simp add: Allocate_def split: option.splits)

text \<open>The same equations as rules, so that a computation is followed in the order of its steps.\<close>

lemma bind_lift: "(\<And>a. r = Inr a \<Longrightarrow> wp (k a) Q E s) \<Longrightarrow> (\<And>e. r = Inl e \<Longrightarrow> E e s) \<Longrightarrow> wp (andthen (lift r) k) Q E s"
  by (simp add: wp_eqs)

lemma bind_gets: "wp (k (f s)) Q E s \<Longrightarrow> wp (andthen (gets f) k) Q E s"
  by (simp add: wp_eqs)

lemma bind_modify: "wp (k ()) Q E (f s) \<Longrightarrow> wp (andthen (modify f) k) Q E s"
  by (simp add: wp_eqs)

lemma bind_guard: "(b \<Longrightarrow> wp (k ()) Q E s) \<Longrightarrow> (\<not> b \<Longrightarrow> E e s) \<Longrightarrow> wp (andthen (guard b e) k) Q E s"
  by (simp add: wp_eqs)

lemma wp_pair: "(\<And>a b. x = (a, b) \<Longrightarrow> wp (f a b) Q E s) \<Longrightarrow> wp (case x of (a, b) \<Rightarrow> f a b) Q E s"
  by (simp split: prod.split)

lemmas wp_rules = bind_lift bind_gets bind_modify bind_guard wp_pair

lemmas conv_errors = Rescale_error Multiply_error Allocate_error

lemma Convert_wp:
  assumes "ar_context s = Some w" "harmless E"
    and "\<And>pr q w' f n pts. Rescale_ar L q (avq 1 (fr_sample_rate (in_frame i))) (avq 1 1) = Inr pts \<Longrightarrow>
      (\<exists>p w. q = fst (swr_next W p w)) \<Longrightarrow> 0 \<le> n \<Longrightarrow>
      wp (Output_ar f n pts) Q E (note_op (Op_convert i)
        (s\<lparr>ar_precision := pr, ar_context := Some w', ar_last := Some i, ar_next := Some pts\<rparr>))"
  shows "wp (Convert_ar L W i) Q E s"
  unfolding Convert_ar_def Let_def
  apply (intro wp_rules)
  subgoal
    unfolding wp_andthen
    apply (rule run_wp [OF _ assms(2)])
     apply simp
    apply (simp add: wp_eqs)
    apply (rule assms(3))
      apply auto
    apply (metis fst_conv)
    done
  by (use assms(1) in \<open>auto dest: conv_errors intro: harmlessD [OF assms(2)]\<close>)

lemma Drain_wp:
  assumes "ar_context s = Some w" "ar_last s = Some l" "ar_next s = Some x" "harmless E"
    and "\<And>n w' f. 0 \<le> n \<Longrightarrow> swr_run W (fr_nb_samples f) None w = (n, w') \<Longrightarrow>
      wp (Output_ar f n x) Q E (note_op (Op_drain (nat n)) (s\<lparr>ar_context := Some w'\<rparr>))"
  shows "wp (Drain_ar L W) Q E s"
  unfolding Drain_ar_def
  apply (intro wp_rules)
  subgoal
    unfolding wp_andthen
    apply (rule run_wp [OF _ assms(4), where w = w])
     apply (simp add: assms)
    apply (use assms(1-3) in \<open>auto simp: wp_eqs intro: assms(5)\<close>)
    done
  by (use assms(1-3) in \<open>auto dest: conv_errors intro: harmlessD [OF assms(4)]\<close>)

lemma Output_inv:
  assumes "ar_last s = Some l" "0 \<le> n" "harmless E" "i64 pts" "pts \<noteq> AV_NOPTS_VALUE"
    "\<And>out t. \<lbrakk>rr_status out = (if n = 0 then KNull else KFrame); given s out;
      n = 0 \<and> t = s \<or> 0 < n \<and> pts + n \<le> i64_max \<and> t = s\<lparr>ar_next := Some (pts + n)\<rparr>\<rbrakk> \<Longrightarrow> Q out t"
  shows "wp (Output_ar f n pts) Q E s"
  by (rule Output_wp [OF assms(1-3)]) (use assms(4,5) in \<open>auto intro!: assms(6) simp: given_def made_def\<close>)

text \<open>The state between the two halves of the loop body, for the input \<open>i\<close>.\<close>

definition conv_mid :: "av_lib \<Rightarrow> read_result \<Rightarrow> ('w, 'g) resampler \<Rightarrow> bool" where
  "conv_mid L i s \<longleftrightarrow> 0 < ar_rate s \<and>
     (ar_context s = None \<longleftrightarrow> ar_last s = None) \<and> (ar_last s = None \<longleftrightarrow> ar_next s = None) \<and>
     (\<forall>i \<in> set (ar_inputs s). sounds L (ar_rate s) i) \<and> ah_pushed s = ah_taken s @ ar_inputs s \<and> drained_ops (ah_ops s) \<and>
     (case ar_last s of
        None \<Rightarrow>
          (case script_last None (ah_taken s) of
             None \<Rightarrow> steering (ah_ops s) = script L None (ah_taken s)
           | Some k \<Rightarrow> steering (ah_ops s) = script L None (ah_taken s) @ [Op_close] \<and> (rr_status i = KEof \<or> \<not> Matches L k i))
      | Some k \<Rightarrow> script_last None (ah_taken s) = Some k \<and> steering (ah_ops s) = script L None (ah_taken s) \<and>
          rr_status i \<noteq> KEof \<and> Matches L k i)"

text \<open>How much a converter still has to do: its queue, and what its context holds back.\<close>

definition delay :: "('w \<Rightarrow> nat) \<Rightarrow> ('w, 'g) resampler \<Rightarrow> nat" where
  "delay held s = (case ar_context s of None \<Rightarrow> 0 | Some w \<Rightarrow> held w)"

definition less_work :: "('w \<Rightarrow> nat) \<Rightarrow> ('w, 'g) resampler \<Rightarrow> ('w, 'g) resampler \<Rightarrow> bool" where
  "less_work held t s \<longleftrightarrow> length (ar_inputs t) < length (ar_inputs s) \<or>
     length (ar_inputs t) = length (ar_inputs s) \<and> delay held t < delay held s"

lemma drained_append [simp]: "drained_ops (xs @ ys) = (drained_ops xs \<and> closes_drained (last (Op_close # xs)) ys)"
  by (simp add: drained_ops_def)

lemma mid_eof:
  assumes "conv_mid L i s" "rr_status i = KEof"
  shows "ar_last s = None" "ar_context s = None"
  using assms by (cases "ar_last s"; simp add: conv_mid_def)+

definition ended :: "('w, 'g) resampler \<Rightarrow> read_result \<Rightarrow> read_result \<Rightarrow> bool" where
  "ended s i out \<longleftrightarrow> rr_status out = KEof \<and> rr_frame out = rr_frame i \<and> rr_stream out = rr_stream i \<and> rr_time_base out = time_base_ar s"

lemma forward_wp:
  assumes "conv_mid L i s" "ar_inputs s = i # rest" "harmless E" "rr_status i = KEof"
    and "\<And>out t. conv_inv L t \<Longrightarrow> apart s t \<Longrightarrow> rr_status out = KEof \<Longrightarrow> ar_inputs t = rest \<Longrightarrow> Q out t"
  shows "wp (forward_eof L i rest) Q E s"
proof -
  let ?t = "note_op (Op_eof i) (pop_ar i rest s)"
  have "ar_last s = None" "ar_context s = None" by (rule mid_eof [OF assms(1,4)])+
  then have "conv_inv L ?t"
    using assms(1,2,4)
    by (auto simp: conv_mid_def conv_inv_def note_op_def pop_ar_def script_append split: option.splits)
  moreover have "apart s ?t" "ar_inputs ?t = rest" by (simp_all add: apart_def note_op_def pop_ar_def)
  ultimately have "Q (i\<lparr>rr_time_base := time_base_ar s, rr_end_pts := e\<rparr>) ?t" for e
    using assms(4) by (intro assms(5)) simp_all
  then show ?thesis
    unfolding forward_eof_def
    by (intro wp_rules) (auto simp: wp_eqs dest: conv_errors intro: harmlessD [OF assms(3)] split: if_splits)
qed

context resampling
begin

lemma retire_wp:
  fixes s :: "('w, 'g) resampler"
  assumes "conv_inv L s" "ar_inputs s = i # rest" "harmless E"
    and "\<And>out t. conv_inv L t \<Longrightarrow> apart s t \<Longrightarrow> given s out \<Longrightarrow> rr_status out = KFrame \<Longrightarrow> less_work held t s \<Longrightarrow> Q (Some out) t"
    and "\<And>t. conv_mid L i t \<Longrightarrow> apart s t \<Longrightarrow> ar_inputs t = i # rest \<Longrightarrow> Q None t"
  shows "wp (retire L W i) Q E s"
proof (cases "ar_context s")
  case None
  then have "conv_mid L i s" using assms(1) by (auto simp: conv_inv_def conv_mid_def)
  with None show ?thesis
    unfolding retire_def by (intro wp_rules) (auto simp: wp_eqs intro: assms(2,5))
next
  case (Some w)
  with assms(1) obtain l x where l: "ar_last s = Some l" "ar_next s = Some x" "i64 x" "x \<noteq> AV_NOPTS_VALUE"
    by (cases "ar_last s"; cases "ar_next s") (auto simp: conv_inv_def)
  show ?thesis
  proof (cases "rr_status i = KEof \<or> \<not> Matches L l i")
    case False
    with assms(1) l have "conv_mid L i s" by (simp add: conv_inv_def conv_mid_def)
    with False Some l show ?thesis
      unfolding retire_def by (intro wp_rules) (auto simp: wp_eqs intro: assms(2,5))
  next
    case True
    have "wp (andthen (Drain_ar L W) (\<lambda>out.
       if rr_status out = KFrame then ret (Some out)
       else andthen (modify (\<lambda>s. note_op Op_close (ClearConverter s))) (\<lambda>_. ret None))) Q E s"
      unfolding wp_andthen
    proof (rule Drain_wp [OF Some l(1,2) assms(3)])
      fix n :: int and w' :: 'w and f :: av_frame
      assume n: "0 \<le> n" and w': "swr_run W (fr_nb_samples f) None w = (n, w')"
      let ?s = "note_op (Op_drain (nat n)) (s\<lparr>ar_context := Some w'\<rparr>)"
      have inv: "conv_inv L ?s" using assms(1) l Some by (simp add: conv_inv_def note_op_def)
      have ap: "apart s ?s" by (simp add: apart_def note_op_def)
      show "wp (Output_ar f n x) (\<lambda>a. wp (if rr_status a = KFrame then ret (Some a)
          else andthen (modify (\<lambda>s. note_op Op_close (ClearConverter s))) (\<lambda>_. ret None)) Q E) E ?s"
      proof (rule Output_inv [where l = l])
        fix out t
        assume o: "rr_status out = (if n = 0 then KNull else KFrame)" "given ?s out"
          "n = 0 \<and> t = ?s \<or> 0 < n \<and> x + n \<le> i64_max \<and> t = ?s\<lparr>ar_next := Some (x + n)\<rparr>"
        from o(3) n show "wp (if rr_status out = KFrame then ret (Some out)
          else andthen (modify (\<lambda>s. note_op Op_close (ClearConverter s))) (\<lambda>_. ret None)) Q E t"
        proof (elim disjE conjE)
          assume c: "n = 0" "t = ?s"
          have "conv_mid L i (note_op Op_close (ClearConverter ?s))"
            using assms(1,2) True l c by (auto simp: conv_inv_def conv_mid_def note_op_def ClearConverter_def)
          moreover have "apart s (note_op Op_close (ClearConverter ?s))"
            by (simp add: apart_def note_op_def ClearConverter_def)
          ultimately have "Q None (note_op Op_close (ClearConverter ?s))"
            by (rule assms(5)) (simp add: note_op_def ClearConverter_def assms(2))
          with c o(1) show ?thesis by (simp add: wp_eqs)
        next
          assume c: "0 < n" "t = ?s\<lparr>ar_next := Some (x + n)\<rparr>" "x + n \<le> i64_max"
          have "conv_inv L t" using inv c l by (auto simp: conv_inv_def note_op_def)
          moreover have "apart s t" by (simp add: apart_def note_op_def c)
          moreover have "given s out" using o(2) by (simp add: given_def time_base_ar_def note_op_def)
          moreover have "less_work held t s"
            using c Some drains [OF w' c(1)] by (simp add: less_work_def delay_def note_op_def)
          ultimately have "Q (Some out) t" using o(1) c(1) by (intro assms(4)) simp_all
          with c o(1) show ?thesis by (simp add: wp_eqs)
        qed
      qed (use l n assms(3) in \<open>simp_all add: note_op_def\<close>)
    qed
    with True Some l show ?thesis
      unfolding retire_def by (intro wp_rules) (auto simp: wp_eqs)
  qed
qed

lemma next_pts:
  assumes "av_time L" "Rescale_ar L q (avq 1 rate) (avq 1 1) = Inr pts" "\<exists>p w. q = fst (swr_next W p w)" "0 < rate"
  shows "i64 pts" "pts \<noteq> AV_NOPTS_VALUE"
proof -
  from assms(2) have e: "pts = rescale_q L q (avq 1 rate) (avq 1 1)" "pts \<noteq> AV_NOPTS_VALUE"
    by (auto simp: Rescale_ar_def Let_def split: if_splits)
  from assms(3) next_i64 have "i64 q" by blast
  then show "i64 pts" unfolding e(1) using assms(4) by (intro av_time.rescale_i64 [OF assms(1)]) simp_all
  from e(2) show "pts \<noteq> AV_NOPTS_VALUE" .
qed

text \<open>A conversion and the end of the loop body.\<close>

lemma convert_inv:
  fixes s :: "('w, 'g) resampler"
  assumes "av_time L" "harmless E" "conv_mid L i s" "ar_inputs s = i # rest" "rr_status i \<noteq> KEof"
    and "\<And>out t. conv_inv L (pop_ar i rest t) \<Longrightarrow> apart s t \<Longrightarrow> given s out \<Longrightarrow> Q out t"
  shows "wp (andthen (if ar_context s = None then Initialize_ar W i else ret ()) (\<lambda>_. Convert_ar L W i)) Q E s"
proof -
  from assms(3,4) have snd: "sounds L (ar_rate s) i" by (simp add: conv_mid_def)
  note i = sounds_frame [OF snd assms(5)]
  have go: "wp (Convert_ar L W i) Q E u"
    if u: "ar_context u \<noteq> None" "apart s u" "ar_inputs u = i # rest" "ah_taken u = ah_taken s"
      "steering (ah_ops u) @ [Op_convert i] = script L None (ah_taken s @ [i])" "drained_ops (ah_ops u)"
    for u :: "('w, 'g) resampler"
  proof -
    obtain w where w: "ar_context u = Some w" using u(1) by blast
    show ?thesis
    proof (rule Convert_wp [OF w assms(2)])
      fix pr q :: int and w' :: 'w and f :: av_frame and n pts :: int
      assume h: "Rescale_ar L q (avq 1 (fr_sample_rate (in_frame i))) (avq 1 1) = Inr pts"
        "\<exists>p w. q = fst (swr_next W p w)" "0 \<le> n"
      note p = next_pts [OF assms(1) h(1,2) i(4)]
      let ?u = "note_op (Op_convert i) (u\<lparr>ar_precision := pr, ar_context := Some w', ar_last := Some i, ar_next := Some pts\<rparr>)"
      have ap: "apart s ?u" using u(2) by (simp add: apart_def note_op_def)
      have rate: "ar_rate u = ar_rate s" "ah_pushed u = ah_pushed s" using u(2) by (simp_all add: apart_def)
      have tb: "time_base_ar ?u = time_base_ar s" using rate by (simp add: time_base_ar_def note_op_def)
      have inv: "conv_inv L (pop_ar i rest v)"
        if "i64 y" "y \<noteq> AV_NOPTS_VALUE" "ar_next v = Some y" "ar_last v = Some i" "ar_context v = Some w'" "ar_rate v = ar_rate s"
          "ah_pushed v = ah_pushed s" "ah_taken v = ah_taken s" "ah_ops v = ah_ops u @ [Op_convert i]" for y and v :: "('w, 'g) resampler"
        using assms(3-5) u that snd by (auto simp: conv_inv_def conv_mid_def pop_ar_def)
      show "wp (Output_ar f n pts) Q E ?u"
      proof (rule Output_inv [where l = i])
        fix out t
        assume o: "rr_status out = (if n = 0 then KNull else KFrame)" "given ?u out"
          "n = 0 \<and> t = ?u \<or> 0 < n \<and> pts + n \<le> i64_max \<and> t = ?u\<lparr>ar_next := Some (pts + n)\<rparr>"
        have "given s out" using o(2) tb by (simp add: given_def)
        moreover have "conv_inv L (pop_ar i rest t) \<and> apart s t"
          using o(3)
        proof (elim disjE conjE)
          assume "t = ?u"
          with inv [OF p, of t] ap u(4) rate show ?thesis by (simp add: note_op_def)
        next
          assume c: "0 < n" "pts + n \<le> i64_max" "t = ?u\<lparr>ar_next := Some (pts + n)\<rparr>"
          with inv [of "pts + n" t] p ap u(4) rate show ?thesis by (simp add: apart_def note_op_def)
        qed
        ultimately show "Q out t" using assms(6) by blast
      qed (use h(3) p assms(2) in \<open>simp_all add: note_op_def\<close>)
    qed
  qed
  show ?thesis
  proof (cases "ar_context s")
    case None
    with assms(3,5) have ops: "steering (ah_ops s) @ [Op_open i, Op_convert i] = script L None (ah_taken s @ [i])" "drained_ops (ah_ops s)"
      by (auto simp: conv_mid_def script_append split: option.splits)
    have "wp (Convert_ar L W i) Q E (note_op (Op_open i) (s\<lparr>ar_generation := ar_generation s + 1, ar_context := Some w\<rparr>))" for w
      by (rule go) (use assms(4) ops in \<open>simp_all add: note_op_def apart_def\<close>)
    with None show ?thesis
      unfolding Initialize_ar_def
      by (auto simp: wp_eqs dest!: new_error intro: harmlessD [OF assms(2)])
  next
    case (Some w)
    have "wp (Convert_ar L W i) Q E s"
      by (rule go) (use Some assms(3-5) in \<open>auto simp: conv_mid_def script_append split: option.splits\<close>)
    with Some show ?thesis by (simp add: wp_eqs)
  qed
qed

lemma read_converted_inv:
  fixes s :: "('w, 'g) resampler"
  assumes "av_time L" "harmless E" "conv_inv L s" "ar_inputs s = is"
    and "\<And>out t. conv_inv L t \<Longrightarrow> apart s t \<Longrightarrow> given s out \<or> rr_status out = KEof \<Longrightarrow>
      rr_status out \<noteq> KNull \<longrightarrow> less_work held t s \<Longrightarrow> Q out t"
  shows "wp (read_converted L W is) Q E s"
  using assms(3-5)
proof (induction "is" arbitrary: s)
  case Nil
  then show ?case by (simp add: wp_eqs given_def)
next
  case (Cons i rest)
  show ?case
    unfolding read_converted.simps wp_andthen [of "retire L W i"]
  proof (rule retire_wp [OF Cons.prems(1,2) assms(2)])
    fix out t
    assume "conv_inv L t" "apart s t" "given s out" "rr_status out = KFrame" "less_work held t s"
    with Cons.prems(3) show "wp (case Some out of Some x \<Rightarrow> ret x | None \<Rightarrow> m) Q E t" for m by (simp add: wp_eqs)
  next
    fix t
    assume m: "conv_mid L i t" "apart s t" "ar_inputs t = i # rest"
    show "wp (case None of Some x \<Rightarrow> ret x
        | None \<Rightarrow> if rr_status i = KEof then forward_eof L i rest
          else andthen (gets ar_context) (\<lambda>w. andthen (if w = None then Initialize_ar W i else ret ()) (\<lambda>_.
            andthen (Convert_ar L W i) (\<lambda>o'. andthen (modify (pop_ar i rest)) (\<lambda>_.
              if rr_status o' = KFrame then ret o' else read_converted L W rest))))) Q E t"
    proof (cases "rr_status i = KEof")
      case True
      have "wp (forward_eof L i rest) Q E t"
      proof (rule forward_wp [OF m(1,3) assms(2) True])
        fix out :: read_result and u
        assume u: "conv_inv L u" "apart t u" "rr_status out = KEof" "ar_inputs u = rest"
        from u(4) Cons.prems(2) have "less_work held u s" by (simp add: less_work_def)
        with u m(2) Cons.prems(3) show "Q out u" by (blast intro: apart_trans)
      qed
      with True show ?thesis by simp
    next
      case False
      have "wp (andthen (if ar_context t = None then Initialize_ar W i else ret ()) (\<lambda>_. Convert_ar L W i))
        (\<lambda>o'. wp (andthen (modify (pop_ar i rest)) (\<lambda>_. if rr_status o' = KFrame then ret o' else read_converted L W rest)) Q E) E t"
      proof (rule convert_inv [OF assms(1,2) m(1,3) False])
        fix out u
        assume u: "conv_inv L (pop_ar i rest u)" "apart t u" "given t out"
        then have ap: "apart s (pop_ar i rest u)" "given s out"
          using m(2) by (simp_all add: apart_def pop_ar_def given_def time_base_ar_def)
        have "wp (read_converted L W rest) Q E (pop_ar i rest u)"
        proof (rule Cons.IH)
          fix out' v
          assume v: "conv_inv L v" "apart (pop_ar i rest u) v" "given (pop_ar i rest u) out' \<or> rr_status out' = KEof"
            "rr_status out' \<noteq> KNull \<longrightarrow> less_work held v (pop_ar i rest u)"
          from v(4) Cons.prems(2) have "rr_status out' \<noteq> KNull \<longrightarrow> less_work held v s"
            by (auto simp: less_work_def pop_ar_def)
          moreover from ap v have "apart s v" "given s out' \<or> rr_status out' = KEof"
            by (auto simp: apart_def given_def time_base_ar_def)
          ultimately show "Q out' v" using v(1) Cons.prems(3) by blast
        qed (use u(1) in \<open>simp_all add: pop_ar_def\<close>)
        moreover have "less_work held (pop_ar i rest u) s" using Cons.prems(2) by (simp add: less_work_def pop_ar_def)
        ultimately show "wp (andthen (modify (pop_ar i rest))
          (\<lambda>_. if rr_status out = KFrame then ret out else read_converted L W rest)) Q E u"
          using u ap Cons.prems(3) by (simp add: wp_eqs)
      qed
      with False show ?thesis by (simp add: wp_andthen [abs_def] wp_gets)
    qed
  qed
qed

end

end
