(* ===== verification/Resampler_Blocks.thy ===== *)
theory Resampler_Blocks
  imports Resampler_Inv
begin

text \<open>
  The blocks of \<open>Audio_Resampler\<close>: what the adapter holds and has given of the current segment, as long as no
  call has failed (\<open>block_inv\<close>), the steps of a read that keep it, and that a read returns.
\<close>

section \<open>Segments\<close>

text \<open>The blocks of a segment follow one another on the sample clock and have the full size.\<close>

definition lined :: "int \<Rightarrow> segment \<Rightarrow> bool" where
  "lined N x \<longleftrightarrow> (\<forall>k < length (sg_blocks x). let f = sg_blocks x ! k in
     fr_pts f = sg_first x + N * int k \<and> fr_nb_samples f = N \<and> fr_duration f = N \<and> fr_best_effort f = fr_pts f)"

text \<open>They are just as many as its samples need.\<close>

definition covered :: "int \<Rightarrow> segment \<Rightarrow> bool" where
  "covered N x \<longleftrightarrow> sg_samples x \<le> N * int (length (sg_blocks x)) \<and> N * int (length (sg_blocks x)) < sg_samples x + N"

definition finished :: "int \<Rightarrow> segment \<Rightarrow> bool" where
  "finished N x \<longleftrightarrow> sg_done x \<and> lined N x \<and> covered N x"

lemma lined_snoc:
  assumes "lined N x" "fr_pts f = sg_first x + N * int (length (sg_blocks x))" "fr_nb_samples f = N" "fr_duration f = N"
    "fr_best_effort f = fr_pts f"
  shows "lined N (x\<lparr>sg_blocks := sg_blocks x @ [f]\<rparr>)"
  using assms by (auto simp: lined_def nth_append Let_def less_Suc_eq)

text \<open>What a graph holds of the segment \<open>x\<close> of which it has given \<open>k\<close> blocks.\<close>

definition remains :: "int \<Rightarrow> segment \<Rightarrow> fifo_view \<Rightarrow> bool" where
  "remains N x v \<longleftrightarrow> (let k = int (length (sg_blocks x)); d = sg_samples x - fv_length v in
     0 \<le> fv_length v \<and> 0 \<le> d \<and> (fv_length v \<noteq> 0 \<longrightarrow> fv_start v = sg_first x + d) \<and>
     (d = N * k \<or> fv_closed v \<and> fv_length v = 0 \<and> N * k < d + N \<and> d < N * k))"

lemma remains_start:
  assumes "remains N x v" "0 < n" "n = min N (fv_length v)"
  shows "fv_start v = sg_first x + N * int (length (sg_blocks x))" "sg_samples x - fv_length v = N * int (length (sg_blocks x))"
  using assms by (auto simp: remains_def Let_def)

lemma remains_get:
  assumes "remains N x v" "0 < n" "n = min N (fv_length v)" "n < N \<longrightarrow> fv_closed v" "length bs = Suc (length (sg_blocks x))"
  shows "remains N (x\<lparr>sg_blocks := bs\<rparr>) (v\<lparr>fv_start := fv_start v + n, fv_length := fv_length v - n\<rparr>)"
  using assms remains_start [OF assms(1-3)] by (auto simp: remains_def Let_def algebra_simps min_def split: if_splits)

lemma remains_close: "remains N x v \<Longrightarrow> remains N x (v\<lparr>fv_closed := True\<rparr>)"
  by (auto simp: remains_def Let_def)

lemma remains_done: "remains N x v \<Longrightarrow> fv_length v = 0 \<Longrightarrow> 0 < N \<Longrightarrow> covered N x"
  by (auto simp: remains_def covered_def Let_def)

lemma remains_write:
  assumes "remains N x v" "\<not> fv_closed v" "0 < n" "fv_length v = 0 \<or> p = fv_start v + fv_length v" "p = sg_first x + sg_samples x"
  shows "remains N (x\<lparr>sg_samples := sg_samples x + n\<rparr>)
    \<lparr>fv_start = (if fv_length v = 0 then p else fv_start v), fv_length = fv_length v + n, fv_closed = False\<rparr>"
  using assms by (auto simp: remains_def Let_def)

section \<open>The invariant\<close>

fun current_ok :: "('g \<Rightarrow> fifo_view) \<Rightarrow> int \<Rightarrow> av_rational \<Rightarrow> 'g adapter option \<Rightarrow> int option \<Rightarrow> bool \<Rightarrow> read_status \<Rightarrow>
    segment list \<Rightarrow> bool" where
  "current_ok view N tb None n e m xs = (n = None \<and> \<not> e \<and> (\<forall>x \<in> set xs. finished N x))"
| "current_ok view N tb (Some a) n e m [] = False"
| "current_ok view N tb (Some a) n e m (x # xs) =
     (ad_time_base a = tb \<and> m = KFrame \<and> fv_closed (view (ad_graph a)) = e \<and>
      (\<forall>y \<in> set xs. finished N y) \<and> lined N x \<and> remains N x (view (ad_graph a)) \<and>
      n = Some (sg_first x + sg_samples x) \<and> 0 \<le> sg_samples x \<and> i64_min < sg_first x \<and>
      sg_first x + sg_samples x \<le> i64_max)"

definition block_inv :: "('g \<Rightarrow> fifo_view) \<Rightarrow> ('w, 'g) resampler \<Rightarrow> bool" where
  "block_inv view s \<longleftrightarrow>
     (\<forall>i. ar_pending s = Some i \<longrightarrow> rr_status i \<noteq> KNull \<and> (rr_status i = KFrame \<longrightarrow> given s i)) \<and>
     current_ok view (ar_block s) (time_base_ar s) (ar_adapter s) (ar_block_next s) (ar_ending s) (rr_status (ar_meta s))
       (ah_segments s)"

lemma block_apart: "block_inv view s \<Longrightarrow> apart s t \<Longrightarrow> block_inv view t"
  by (simp add: block_inv_def apart_def given_def time_base_ar_def)

definition conv_same :: "('w, 'g) resampler \<Rightarrow> ('w, 'g) resampler \<Rightarrow> bool" where
  "conv_same s t \<longleftrightarrow> ar_rate t = ar_rate s \<and> ar_context t = ar_context s \<and> ar_last t = ar_last s \<and> ar_next t = ar_next s \<and>
     ar_inputs t = ar_inputs s \<and> ah_taken t = ah_taken s \<and> ah_ops t = ah_ops s \<and> ar_block t = ar_block s \<and>
     ar_pending t = ar_pending s \<and> ar_stopped t = ar_stopped s \<and> ar_failure t = ar_failure s \<and> ah_pushed t = ah_pushed s \<and>
     ar_capacity t = ar_capacity s"

lemma conv_same_inv: "conv_inv L s \<Longrightarrow> conv_same s t \<Longrightarrow> conv_inv L t"
  by (simp add: conv_inv_def conv_same_def)

text \<open>What a read in blocks may give.\<close>

definition block_out :: "('w, 'g) resampler \<Rightarrow> read_result \<Rightarrow> bool" where
  "block_out s out \<longleftrightarrow> rr_status out \<noteq> KFrame \<or>
     has_frame (rr_frame out) \<and> (\<exists>x xs. ah_segments s = x # xs \<and> sg_blocks x \<noteq> [] \<and> in_frame out = last (sg_blocks x))"

locale blocks = resampling W held + block_fifo G blk view
  for W :: "'w swr_lib" and held and G :: "'g graph_lib" and blk and view +
  fixes L :: av_lib
  assumes time: "av_time L"
begin

lemma receive_wp:
  fixes s :: "('w, 'g) resampler"
  assumes "block_inv view s" "ar_block s = blk" "0 < blk" "harmless E"
    and "\<And>out t. conv_same s t \<Longrightarrow> block_inv view t \<Longrightarrow> rr_status out = KFrame \<Longrightarrow> block_out t out \<Longrightarrow>
      ar_ending t = ar_ending s \<Longrightarrow> Q (Some out) t"
    and "\<And>t. conv_same s t \<Longrightarrow> block_inv view t \<Longrightarrow> \<not> ar_ending t \<Longrightarrow> (ar_ending s \<Longrightarrow> ar_adapter t = None) \<Longrightarrow> Q None t"
  shows "wp (receive_block L G) Q E s"
proof (cases "ar_adapter s")
  case None
  with assms(1) have "\<not> ar_ending s" by (simp add: block_inv_def)
  then have "Q None s" using assms(1) by (intro assms(6)) (simp_all add: conv_same_def)
  with None show ?thesis by (simp add: receive_block_def wp_eqs)
next
  case (Some a)
  obtain r g where r: "graph_get G (ad_graph a) = (r, g)" by fastforce
  from assms(1) Some obtain x xs where seg: "ah_segments s = x # xs"
    by (cases "ah_segments s") (auto simp: block_inv_def)
  note inv = assms(1) [unfolded block_inv_def Some seg, simplified]
  from inv have len: "0 \<le> fv_length (view (ad_graph a))" by (simp add: remains_def Let_def)
  show ?thesis
  proof (cases r)
    case (Inl e)
    with call_errors(3) [of "ad_graph a" e] r have "e = Ffmpeg_error" by simp
    with Inl r Some show ?thesis
      by (simp add: receive_block_def wp_eqs Receive_def harmlessD [OF assms(4)])
  next
    case (Inr o')
    show ?thesis
    proof (cases o')
      case None
      with r Inr have v: "view g = view (ad_graph a)" "fv_closed (view g) \<longrightarrow> fv_length (view g) = 0"
        using get_none [of "ad_graph a" g] len by auto
      let ?t = "if ar_ending s then note_segment (\<lambda>x. x\<lparr>sg_done := True\<rparr>)
          (s\<lparr>ar_adapter := None, ar_ending := False, ar_block_next := None\<rparr>)
        else s\<lparr>ar_adapter := Some (a\<lparr>ad_graph := g\<rparr>)\<rparr>"
      have "block_inv view ?t"
      proof (cases "ar_ending s")
        case True
        with inv v have "covered blk x" by (intro remains_done [of blk x "view g"]) (simp_all add: assms(2,3))
        with inv assms(2) have "finished blk (x\<lparr>sg_done := True\<rparr>)"
          by (simp add: finished_def lined_def covered_def)
        with True inv assms(2) seg show ?thesis
          by (auto simp: block_inv_def note_segment_def given_def time_base_ar_def)
      next
        case False
        with inv v seg show ?thesis by (simp add: block_inv_def given_def time_base_ar_def)
      qed
      then have "Q None ?t"
        by (intro assms(6)) (simp_all add: conv_same_def note_segment_def)
      with None Inr r Some show ?thesis
        by (simp add: receive_block_def wp_eqs Receive_def split: if_splits)
    next
      case (Some f)
      with r Inr have get: "graph_get G (ad_graph a) = (Inr (Some f), g)" by simp
      note law = get_block [OF get len]
      from inv law assms(2) have h: "remains blk x (view (ad_graph a))" by simp
      have n: "0 < fr_nb_samples f" "fr_nb_samples f = min blk (fv_length (view (ad_graph a)))"
        "fr_nb_samples f < blk \<longrightarrow> fv_closed (view (ad_graph a))" using law by blast+
      let ?f = "f\<lparr>fr_time_base := graph_tb G g\<rparr>" and ?s = "s\<lparr>ar_adapter := Some (a\<lparr>ad_graph := g\<rparr>)\<rparr>"
      have go: "wp (andthen (gets (finish_block p)) (\<lambda>out.
          andthen (modify (note_segment (\<lambda>x. x\<lparr>sg_blocks := sg_blocks x @ [in_frame out]\<rparr>))) (\<lambda>_. ret (Some out)))) Q E ?s"
        if p: "fr_nb_samples p = blk" "fr_pts p = fr_pts f" for p
      proof -
        let ?out = "finish_block p ?s"
        let ?t = "note_segment (\<lambda>x. x\<lparr>sg_blocks := sg_blocks x @ [in_frame ?out]\<rparr>) ?s"
        have out: "fr_nb_samples (in_frame ?out) = blk" "fr_duration (in_frame ?out) = blk"
          "fr_pts (in_frame ?out) = fr_pts f" "fr_best_effort (in_frame ?out) = fr_pts (in_frame ?out)"
          "rr_status ?out = rr_status (ar_meta s)" "has_frame (rr_frame ?out)"
          using p by (simp_all add: finish_block_def)
        from remains_start(1) [OF h n(1,2)] law have pts: "fr_pts f = sg_first x + blk * int (length (sg_blocks x))" by simp
        have "lined blk (x\<lparr>sg_blocks := sg_blocks x @ [in_frame ?out]\<rparr>)"
          using inv assms(2) by (intro lined_snoc) (simp_all add: out pts)
        moreover have "remains blk (x\<lparr>sg_blocks := sg_blocks x @ [in_frame ?out]\<rparr>) (view g)"
          using remains_get [OF h n, of "sg_blocks x @ [in_frame ?out]"] law by simp
        ultimately have "block_inv view ?t"
          using inv law assms(2) seg by (simp add: block_inv_def note_segment_def given_def time_base_ar_def)
        moreover have "conv_same s ?t" by (simp add: conv_same_def note_segment_def)
        moreover have "block_out ?t ?out" using out(6) seg by (simp add: block_out_def note_segment_def)
        moreover have "ar_ending ?t = ar_ending s" by (simp add: note_segment_def)
        ultimately have "Q (Some ?out) ?t" using inv by (intro assms(5)) (simp_all add: out)
        then show ?thesis by (simp add: wp_eqs)
      qed
      have pad: "fr_nb_samples p = blk \<and> fr_pts p = fr_pts f" if "pad_block L ?f ?s = Inr p" for p
        using that n assms(2) by (auto simp: pad_block_def Allocate_def split: if_splits option.splits)
      have err: "e \<noteq> Undefined_behaviour" if "pad_block L ?f ?s = Inl e" for e
        using that by (auto simp: pad_block_def dest: Allocate_error split: if_splits)
      have all: "wp (andthen (gets (pad_block L ?f)) (\<lambda>p. andthen (lift p) (\<lambda>p. andthen (gets (finish_block p)) (\<lambda>out.
          andthen (modify (note_segment (\<lambda>x. x\<lparr>sg_blocks := sg_blocks x @ [in_frame out]\<rparr>))) (\<lambda>_. ret (Some out)))))) Q E ?s"
        by (intro bind_gets bind_lift go harmlessD [OF assms(4)]) (auto dest: pad err)
      have rec: "Receive G a = (Inr (Some ?f), a\<lparr>ad_graph := g\<rparr>)" by (simp add: Receive_def get)
      show ?thesis
        unfolding receive_block_def
        by (rule bind_gets) (simp only: \<open>ar_adapter s = Some a\<close> rec option.case prod.case wp_andthen [of "modify f" for f]
          wp_andthen [of "lift f" for f] wp_modify wp_lift sum.inject all HOL.simp_thms, use all in \<open>simp add: wp_eqs\<close>)
    qed
  qed
qed

lemma submit_written:
  assumes "Submit L G f a = (Inr (), a')" "fr_time_base f = ad_time_base a" "valid_tb (ad_time_base a)" "i64 (fr_pts f)"
  obtains f' where "graph_write G f' (ad_graph a) = (Inr (), ad_graph a')" "fr_pts f' = fr_pts f" "fr_nb_samples f' = fr_nb_samples f"
    "ad_time_base a' = ad_time_base a"
proof -
  let ?f = "f\<lparr>fr_pts := rescale_q L (fr_pts f) (fr_time_base f) (ad_time_base a),
    fr_duration := rescale_q L (fr_duration f) (fr_time_base f) (ad_time_base a), fr_time_base := ad_time_base a\<rparr>"
  obtain r g where w: "graph_write G ?f (ad_graph a) = (r, g)" by fastforce
  from assms(1) w have "r = Inr ()" "a' = a\<lparr>ad_graph := g\<rparr>"
    by (auto simp: Submit_def Let_def split: if_splits)
  moreover have "rescale_q L (fr_pts f) (fr_time_base f) (ad_time_base a) = fr_pts f"
    unfolding assms(2) by (rule av_time.rescale_same [OF time assms(4,3)])
  ultimately show ?thesis using w by (intro that [of ?f]) simp_all
qed

lemma Submit_error: "Submit L G f a = (Inl e, a') \<Longrightarrow> e \<noteq> Undefined_behaviour"
  by (auto simp: Submit_def Let_def split: if_splits prod.splits dest!: arg_cong [of _ _ fst] call_errors(1))

text \<open>A frame given to the adapter \<open>a\<close>, which holds the rest of the segment \<open>x\<close>.\<close>

lemma submit_holds:
  assumes "Submit L G f a = (Inr (), a')" "fr_time_base f = ad_time_base a" "valid_tb (ad_time_base a)"
    and "i64 (fr_pts f)" "remains N x (view (ad_graph a))" "\<not> fv_closed (view (ad_graph a))" "0 < fr_nb_samples f"
    and "fr_pts f = sg_first x + sg_samples x"
  shows "remains N (x\<lparr>sg_samples := sg_samples x + fr_nb_samples f\<rparr>) (view (ad_graph a'))" "\<not> fv_closed (view (ad_graph a'))"
    "ad_time_base a' = ad_time_base a"
proof -
  obtain f' where w: "graph_write G f' (ad_graph a) = (Inr (), ad_graph a')" "fr_pts f' = fr_pts f"
      "fr_nb_samples f' = fr_nb_samples f" "ad_time_base a' = ad_time_base a"
    using submit_written [OF assms(1-4)] by blast
  from assms(5,8) have p: "fv_length (view (ad_graph a)) = 0 \<or> fr_pts f = fv_start (view (ad_graph a)) + fv_length (view (ad_graph a))"
    by (auto simp: remains_def Let_def)
  from write_appends [OF w(1) assms(6)] w(2,3) assms(7) p
  have v: "view (ad_graph a') = \<lparr>fv_start = (if fv_length (view (ad_graph a)) = 0 then fr_pts f else fv_start (view (ad_graph a))),
      fv_length = fv_length (view (ad_graph a)) + fr_nb_samples f, fv_closed = False\<rparr>" by simp
  show "remains N (x\<lparr>sg_samples := sg_samples x + fr_nb_samples f\<rparr>) (view (ad_graph a'))"
    unfolding v by (rule remains_write [OF assms(5,6,7) p assms(8)])
  show "\<not> fv_closed (view (ad_graph a'))" by (simp add: v)
  show "ad_time_base a' = ad_time_base a" by (rule w(4))
qed

text \<open>The second half of \<open>submit_block\<close>, for an adapter that is there.\<close>

definition submit_rest :: "read_result \<Rightarrow> 'g adapter \<Rightarrow> (('w, 'g) resampler, unit) act" where
  "submit_rest i a =
     andthen (gets ar_block_next) (\<lambda>n.
     let f = (in_frame i)\<lparr>fr_pts := (case n of None \<Rightarrow> fr_pts (in_frame i) | Some n \<Rightarrow> n)\<rparr> in
     andthen (modify (\<lambda>s. s\<lparr>ar_block_generation := ar_generation s\<rparr>)) (\<lambda>_.
     case Submit L G f a of
       (r, a) \<Rightarrow>
     andthen (modify (\<lambda>s. s\<lparr>ar_adapter := Some a\<rparr>)) (\<lambda>_.
     andthen (lift r) (\<lambda>_.
     andthen (lift (AddSamples (fr_pts f) (fr_nb_samples f))) (\<lambda>next.
     modify (\<lambda>s. note_segment (\<lambda>x. x\<lparr>sg_first := (if n = None then fr_pts f else sg_first x),
           sg_samples := sg_samples x + fr_nb_samples f\<rparr>)
         (s\<lparr>ar_block_next := Some next, ar_meta := i\<lparr>rr_frame := No_frame\<rparr>\<rparr>)))))))"

lemma submit_rest_wp:
  fixes s :: "('w, 'g) resampler"
  assumes "harmless E" "given s i" "rr_status i = KFrame" "0 < ar_rate s" "ah_segments s = x # xs" "ar_adapter s = Some a"
    and "ad_time_base a = time_base_ar s" "\<not> fv_closed (view (ad_graph a))" "\<not> ar_ending s" "ar_block s = blk"
    and "\<forall>y \<in> set xs. finished blk y" "lined blk x" "remains blk x (view (ad_graph a))" "ar_pending s = None"
    and "case ar_block_next s of None \<Rightarrow> sg_samples x = 0 \<and> sg_blocks x = [] \<and> fv_length (view (ad_graph a)) = 0
      | Some n \<Rightarrow> n = sg_first x + sg_samples x \<and> 0 \<le> sg_samples x \<and> i64_min < sg_first x \<and> n \<le> i64_max"
    and "\<And>t. block_inv view t \<Longrightarrow> conv_same s t \<Longrightarrow> \<not> ar_ending t \<Longrightarrow> Q () t"
  shows "wp (submit_rest i a) Q E s"
proof -
  define y where "y = (if ar_block_next s = None then x\<lparr>sg_first := fr_pts (in_frame i)\<rparr> else x)"
  define f where "f = (in_frame i)\<lparr>fr_pts := (case ar_block_next s of None \<Rightarrow> fr_pts (in_frame i) | Some n \<Rightarrow> n)\<rparr>"
  from assms(2,3) have g: "fr_time_base (in_frame i) = time_base_ar s" "0 < fr_nb_samples (in_frame i)"
    "i64 (fr_pts (in_frame i))" "fr_pts (in_frame i) \<noteq> AV_NOPTS_VALUE" by (auto simp: given_def)
  have y: "remains blk y (view (ad_graph a))" "lined blk y" "fr_pts f = sg_first y + sg_samples y" "0 \<le> sg_samples y"
    "i64_min < sg_first y" "i64 (fr_pts f)" "sg_samples y = sg_samples x" "sg_blocks y = sg_blocks x"
    using assms(12,13,15) g by (auto simp: y_def f_def remains_def lined_def Let_def split: option.splits)
  have f: "fr_time_base f = ad_time_base a" "0 < fr_nb_samples f" "fr_nb_samples f = fr_nb_samples (in_frame i)"
    using g assms(7) by (simp_all add: f_def)
  have tb: "valid_tb (ad_time_base a)" using assms(4,7) by (simp add: time_base_ar_def)
  obtain r a' where r: "Submit L G f a = (r, a')" by fastforce
  show ?thesis
  proof (cases r)
    case (Inl e)
    with r Submit_error [of f a e a'] have "e \<noteq> Undefined_behaviour" by simp
    with Inl r show ?thesis
      by (simp add: submit_rest_def wp_eqs f_def [symmetric] harmlessD [OF assms(1)])
  next
    case (Inr u)
    with r have sub: "Submit L G f a = (Inr (), a')" by simp
    note h = submit_holds [OF sub f(1) tb y(6,1) assms(8) f(2) y(3)]
    let ?t = "\<lambda>next. note_segment (\<lambda>x. x\<lparr>sg_first := (if ar_block_next s = None then fr_pts f else sg_first x),
           sg_samples := sg_samples x + fr_nb_samples f\<rparr>)
         (s\<lparr>ar_block_generation := ar_generation s, ar_adapter := Some a', ar_block_next := Some next,
            ar_meta := i\<lparr>rr_frame := No_frame\<rparr>\<rparr>)"
    have "Q () (?t next)" if n: "AddSamples (fr_pts f) (fr_nb_samples f) = Inr next" for "next"
    proof (rule assms(16))
      from n have e: "next = fr_pts f + fr_nb_samples f" "next \<le> i64_max" by (auto simp: AddSamples_def split: if_splits)
      have sx: "x\<lparr>sg_first := (if ar_block_next s = None then fr_pts f else sg_first x), sg_samples := sg_samples x + fr_nb_samples f\<rparr> =
          y\<lparr>sg_samples := sg_samples y + fr_nb_samples f\<rparr>"
        by (auto simp: y_def f_def)
      have ln: "lined blk (y\<lparr>sg_samples := sg_samples y + fr_nb_samples f\<rparr>)" using y(2) by (simp add: lined_def)
      have seg: "ah_segments (?t next) = y\<lparr>sg_samples := sg_samples y + fr_nb_samples f\<rparr> # xs"
        by (subst sx [symmetric]) (simp add: note_segment_def assms(5))
      show "block_inv view (?t next)"
        unfolding block_inv_def seg
        using h y ln e f assms(3,6,7,9-11,14)
        by (simp add: note_segment_def time_base_ar_def)
    qed (simp_all add: conv_same_def note_segment_def assms(9))
    then have all: "\<forall>next. AddSamples (fr_pts f) (fr_nb_samples f) = Inr next \<longrightarrow> Q () (?t next)" by blast
    have err: "\<forall>e. AddSamples (fr_pts f) (fr_nb_samples f) = Inl e \<longrightarrow> E e t" for t
      by (simp add: AddSamples_def harmlessD [OF assms(1)])
    from sub all err show ?thesis
      unfolding f_def submit_rest_def Let_def by (simp add: wp_eqs)
  qed
qed

lemma submit_split:
  "submit_block L G i = andthen (gets (\<lambda>s. (ar_adapter s,
       AudioFrameAdapter L G (ar_format s) (ar_format s) (ar_rate s) (ar_layout s) (ar_block s)))) (\<lambda>(a, made).
     andthen (case a of
         Some a \<Rightarrow> ret a
       | None \<Rightarrow> andthen (lift made) (\<lambda>a.
           andthen (modify (\<lambda>s. s\<lparr>ar_adapter := Some a, ah_segments := new_segment (ah_segments s)\<rparr>)) (\<lambda>_. ret a)))
     (submit_rest i))"
  by (simp add: submit_block_def submit_rest_def [abs_def])

lemma submit_wp:
  fixes s :: "('w, 'g) resampler"
  assumes "harmless E" "given s i" "rr_status i = KFrame" "0 < ar_rate s" "ar_block s = blk" "block_inv view s" "\<not> ar_ending s"
    and "ar_pending s = None" "\<And>t. block_inv view t \<Longrightarrow> conv_same s t \<Longrightarrow> \<not> ar_ending t \<Longrightarrow> Q () t"
  shows "wp (submit_block L G i) Q E s"
proof (cases "ar_adapter s")
  case (Some a)
  with assms(6) obtain x xs where seg: "ah_segments s = x # xs" by (cases "ah_segments s") (auto simp: block_inv_def)
  have "wp (submit_rest i a) Q E s"
    by (rule submit_rest_wp [OF assms(1-4) seg Some])
      (use assms(5-9) Some seg in \<open>simp_all add: block_inv_def time_base_ar_def\<close>)
  with Some show ?thesis unfolding submit_split by (simp add: wp_eqs)
next
  case None
  let ?x = "\<lparr>sg_first = 0, sg_samples = 0, sg_blocks = [], sg_done = False\<rparr>"
  have made: "wp (submit_rest i a) Q E (s\<lparr>ar_adapter := Some a, ah_segments := new_segment (ah_segments s)\<rparr>)"
    if "AudioFrameAdapter L G (ar_format s) (ar_format s) (ar_rate s) (ar_layout s) (ar_block s) = Inr a" for a
  proof -
    from that assms(5) new_empty have v: "ad_time_base a = avq 1 (ar_rate s)" "fv_length (view (ad_graph a)) = 0"
      "\<not> fv_closed (view (ad_graph a))"
      by (auto simp: AudioFrameAdapter_def split: if_splits)
    show ?thesis
      by (rule submit_rest_wp [where x = ?x and xs = "ah_segments s"])
        (use assms None v in \<open>auto simp: block_inv_def time_base_ar_def given_def new_segment_def lined_def remains_def conv_same_def\<close>)
  qed
  have err: "e \<noteq> Undefined_behaviour"
    if "AudioFrameAdapter L G (ar_format s) (ar_format s) (ar_rate s) (ar_layout s) (ar_block s) = Inl e" for e
    using that unfolding assms(5) by (auto simp: AudioFrameAdapter_def chain_Inl dest!: graph_error split: if_splits)
  from None made err show ?thesis unfolding submit_split by (auto simp: wp_eqs harmlessD [OF assms(1)])
qed

section \<open>A read\<close>

definition fixed_inv :: "('w, 'g) resampler \<Rightarrow> bool" where
  "fixed_inv s \<longleftrightarrow> conv_inv L s \<and> block_inv view s \<and> ar_block s = blk \<and> (ar_pending s \<noteq> None \<longrightarrow> ar_ending s)"

text \<open>The frame of a whole read: what it never changes.\<close>

definition around :: "('w, 'g) resampler \<Rightarrow> ('w, 'g) resampler \<Rightarrow> bool" where
  "around s t \<longleftrightarrow> ar_rate t = ar_rate s \<and> ar_block t = ar_block s \<and> ar_stopped t = ar_stopped s \<and> ar_failure t = ar_failure s \<and>
     ah_pushed t = ah_pushed s \<and> ar_capacity t = ar_capacity s"

definition fixed_work :: "(('w, 'g) resampler \<times> ('w, 'g) resampler) set" where
  "fixed_work = measures [\<lambda>s. length (ar_inputs s), delay held, \<lambda>s. if ar_pending s = None then 0 else 1]"

lemma less_work_fixed: "less_work held t s \<Longrightarrow> (t, s) \<in> fixed_work"
  by (auto simp: less_work_def fixed_work_def)

lemma next_wp:
  fixes s :: "('w, 'g) resampler"
  assumes "harmless E" "conv_inv L s" "block_inv view s"
    and "\<And>i t. conv_inv L t \<Longrightarrow> block_inv view t \<Longrightarrow> around s t \<Longrightarrow> ar_adapter t = ar_adapter s \<Longrightarrow> ar_ending t = ar_ending s \<Longrightarrow>
      ar_block_next t = ar_block_next s \<Longrightarrow> ar_pending t = None \<Longrightarrow> rr_status i = KFrame \<longrightarrow> given t i \<Longrightarrow>
      rr_status i = KNull \<or> (if ar_pending s = None then less_work held t s
        else length (ar_inputs t) = length (ar_inputs s) \<and> delay held t = delay held s) \<Longrightarrow> Q i t"
  shows "wp (next_input L W) Q E s"
proof (cases "ar_pending s")
  case (Some i)
  let ?t = "s\<lparr>ar_pending := None\<rparr>"
  from assms(2) have "conv_inv L ?t" by (simp add: conv_inv_def)
  moreover from assms(3) have "block_inv view ?t" by (simp add: block_inv_def time_base_ar_def)
  moreover from assms(3) Some have "rr_status i = KFrame \<longrightarrow> given ?t i" by (auto simp: block_inv_def given_def time_base_ar_def)
  ultimately have "Q i ?t" using Some by (intro assms(4)) (simp_all add: around_def delay_def)
  with Some show ?thesis by (simp add: next_input_def wp_eqs)
next
  case None
  have "wp (read_converted L W (ar_inputs s)) (\<lambda>i t. Q i (t\<lparr>ar_pending := None\<rparr>)) E s"
  proof (rule read_converted_inv [OF time assms(1,2) refl])
    fix out t
    assume t: "conv_inv L t" "apart s t" "given s out \<or> rr_status out = KEof" "rr_status out \<noteq> KNull \<longrightarrow> less_work held t s"
    let ?t = "t\<lparr>ar_pending := None\<rparr>"
    from t(2) None have p: "?t = t" by (simp add: apart_def)
    from block_apart [OF assms(3) t(2)] t None have "Q out t"
      by (intro assms(4)) (auto simp: around_def apart_def given_def time_base_ar_def)
    with p show "Q out ?t" by simp
  qed
  with None show ?thesis by (simp add: next_input_def ReadConverted_def wp_eqs wp_andthen [abs_def])
qed

lemma End_call:
  assumes "End_ad G a = (r, a')"
  shows "r = Inl e \<Longrightarrow> e \<noteq> Undefined_behaviour" "r = Inr () \<Longrightarrow> view (ad_graph a') = (view (ad_graph a))\<lparr>fv_closed := True\<rparr>"
    "ad_time_base a' = ad_time_base a"
proof -
  obtain g where g: "graph_close G (ad_graph a) = (r, g)" "a' = a\<lparr>ad_graph := g\<rparr>"
    using assms by (auto simp: End_ad_def split: prod.splits)
  show "r = Inl e \<Longrightarrow> e \<noteq> Undefined_behaviour" using call_errors(2) [of "ad_graph a" e] g(1) by auto
  show "r = Inr () \<Longrightarrow> view (ad_graph a') = (view (ad_graph a))\<lparr>fv_closed := True\<rparr>" using close_closes g by simp
  show "ad_time_base a' = ad_time_base a" by (simp add: g)
qed

lemma round_wp:
  fixes s :: "('w, 'g) resampler"
  assumes "harmless E" "fixed_inv s" "0 < blk"
    and "\<And>out t. fixed_inv t \<Longrightarrow> around s t \<Longrightarrow> block_out t out \<Longrightarrow> Q (Some out) t"
    and "\<And>t. fixed_inv t \<Longrightarrow> around s t \<Longrightarrow> (t, s) \<in> fixed_work \<Longrightarrow> Q None t"
  shows "wp (fixed_round L W G) Q E s"
proof -
  from assms(2) have inv: "conv_inv L s" "block_inv view s" "ar_block s = blk" "ar_pending s \<noteq> None \<Longrightarrow> ar_ending s"
    by (simp_all add: fixed_inv_def)
  show ?thesis
    unfolding fixed_round_def wp_andthen [of "receive_block L G"]
  proof (rule receive_wp [OF inv(2,3) assms(3,1)])
    fix out t
    assume t: "conv_same s t" "block_inv view t" "rr_status out = KFrame" "block_out t out" "ar_ending t = ar_ending s"
    from t inv have "fixed_inv t" "around s t"
      by (auto simp: fixed_inv_def conv_same_def around_def intro: conv_same_inv)
    with t(4) assms(4) show "wp (if Some out \<noteq> None then ret (Some out) else m) Q E t" for m by (simp add: wp_eqs)
  next
    fix t
    assume t: "conv_same s t" "block_inv view t" "\<not> ar_ending t" "ar_ending s \<Longrightarrow> ar_adapter t = None"
    show "wp (if None \<noteq> None then ret None else
       andthen (next_input L W) (\<lambda>i.
       if rr_status i = KNull then ret (Some null_result)
       else
         andthen (gets (breaks_block i)) (\<lambda>b.
         andthen (lift b) (\<lambda>b.
         if b then
           andthen (modify (\<lambda>s. s\<lparr>ar_pending := Some i\<rparr>)) (\<lambda>_.
           andthen (gets (\<lambda>s. deref (ar_adapter s))) (\<lambda>a.
           andthen (lift a) (\<lambda>a.
           case End_ad G a of
             (r, a) \<Rightarrow>
           andthen (modify (\<lambda>s. s\<lparr>ar_adapter := Some a\<rparr>)) (\<lambda>_.
           andthen (lift r) (\<lambda>_.
           andthen (modify (\<lambda>s. s\<lparr>ar_ending := True\<rparr>)) (\<lambda>_. ret None))))))
         else if rr_status i = KEof then ret (Some i)
         else andthen (submit_block L G i) (\<lambda>_. ret None))))) Q E t"
      unfolding wp_andthen [of "next_input L W"] not_not refl if_False simp_thms
    proof (rule next_wp [OF assms(1) conv_same_inv [OF inv(1) t(1)] t(2)])
      fix i u
      assume u: "conv_inv L u" "block_inv view u" "around t u" "ar_adapter u = ar_adapter t" "ar_ending u = ar_ending t"
        "ar_block_next u = ar_block_next t" "ar_pending u = None" "rr_status i = KFrame \<longrightarrow> given u i"
        "rr_status i = KNull \<or> (if ar_pending t = None then less_work held u t
          else length (ar_inputs u) = length (ar_inputs t) \<and> delay held u = delay held t)"
      have ar: "around s u" using t(1) u(3) by (simp add: around_def conv_same_def)
      have fx: "fixed_inv u" using u inv t(1) by (auto simp: fixed_inv_def around_def conv_same_def)
      have ts: "ar_pending t = ar_pending s" "ar_inputs t = ar_inputs s" "delay held t = delay held s"
        using t(1) by (simp_all add: conv_same_def delay_def)
      have work: "(v, s) \<in> fixed_work" if "rr_status i \<noteq> KNull" "ar_inputs v = ar_inputs u" "ar_context v = ar_context u"
        "ar_pending v = None \<or> ar_pending s = None" for v :: "('w, 'g) resampler"
        using that u(9) ts by (auto simp: fixed_work_def less_work_def delay_def split: if_splits)
      let ?rest = "andthen (gets (breaks_block i)) (\<lambda>b.
         andthen (lift b) (\<lambda>b.
         if b then
           andthen (modify (\<lambda>s. s\<lparr>ar_pending := Some i\<rparr>)) (\<lambda>_.
           andthen (gets (\<lambda>s. deref (ar_adapter s))) (\<lambda>a.
           andthen (lift a) (\<lambda>a.
           case End_ad G a of
             (r, a) \<Rightarrow>
           andthen (modify (\<lambda>s. s\<lparr>ar_adapter := Some a\<rparr>)) (\<lambda>_.
           andthen (lift r) (\<lambda>_.
           andthen (modify (\<lambda>s. s\<lparr>ar_ending := True\<rparr>)) (\<lambda>_. ret None))))))
         else if rr_status i = KEof then ret (Some i)
         else andthen (submit_block L G i) (\<lambda>_. ret None)))"
      have plain: "wp (if rr_status i = KEof then ret (Some i) else andthen (submit_block L G i) (\<lambda>_. ret None)) Q E u"
        if nn: "rr_status i \<noteq> KNull"
      proof (cases "rr_status i = KEof")
        case True
        then show ?thesis by (simp add: wp_eqs assms(4) fx ar block_out_def)
      next
        case False
        with nn have fr: "rr_status i = KFrame" by (cases "rr_status i") simp_all
        have "wp (submit_block L G i) (\<lambda>_. Q None) E u"
        proof (rule submit_wp [OF assms(1)])
          fix v
          assume v: "block_inv view v" "conv_same u v" "\<not> ar_ending v"
          with u(1,7) fx have "fixed_inv v" by (auto simp: fixed_inv_def conv_same_def intro: conv_same_inv)
          moreover have "around s v" using ar v(2) by (simp add: around_def conv_same_def)
          ultimately show "Q None v" using v(2) u(7) nn by (intro assms(5) work) (simp_all add: conv_same_def)
        qed (use u fr fx t(3) in \<open>auto simp: conv_inv_def fixed_inv_def\<close>)
        moreover have "wp (ret None) Q E = Q None" by (simp add: fun_eq_iff wp_ret)
        ultimately show ?thesis using False by (simp add: wp_andthen)
      qed
      have "wp ?rest Q E u" if nn: "rr_status i \<noteq> KNull"
      proof (cases "ar_adapter u")
        case None
        with plain [OF nn] show ?thesis by (simp add: wp_eqs breaks_block_def)
      next
        case (Some a)
        then have "\<not> ar_ending s" using t(4) u(4) by auto
        then have p: "ar_pending s = None" using inv(4) by blast
        from Some u(2) obtain x xs where seg: "ah_segments u = x # xs" by (cases "ah_segments u") (auto simp: block_inv_def)
        note ok = u(2) [unfolded block_inv_def Some seg, simplified]
        then have "\<exists>b. breaks_block i u = Inr b" by (simp add: breaks_block_def Some ex_bool_eq)
        then obtain b where b: "breaks_block i u = Inr b" ..
        obtain r a' where r: "End_ad G a = (r, a')" by fastforce
        have ended: "Q None (u\<lparr>ar_pending := Some i, ar_adapter := Some a', ar_ending := True\<rparr>)" if "r = Inr ()"
        proof (rule assms(5))
          from End_call(2,3) [OF r] that have v: "view (ad_graph a') = (view (ad_graph a))\<lparr>fv_closed := True\<rparr>"
            "ad_time_base a' = ad_time_base a" by simp_all
          show "fixed_inv (u\<lparr>ar_pending := Some i, ar_adapter := Some a', ar_ending := True\<rparr>)"
            using fx ok v seg u(8) nn remains_close [of "ar_block u" x "view (ad_graph a)"]
            by (auto simp: fixed_inv_def block_inv_def conv_inv_def given_def time_base_ar_def)
          show "around s (u\<lparr>ar_pending := Some i, ar_adapter := Some a', ar_ending := True\<rparr>)"
            using ar by (simp add: around_def)
          show "(u\<lparr>ar_pending := Some i, ar_adapter := Some a', ar_ending := True\<rparr>, s) \<in> fixed_work"
            by (rule work [OF nn]) (simp_all add: p)
        qed
        show ?thesis
        proof (cases b)
          case True
          with b r Some ended End_call(1) [OF r] show ?thesis
            by (auto simp: wp_eqs intro: harmlessD [OF assms(1)])
        next
          case False
          with b plain [OF nn] show ?thesis by (simp add: wp_eqs)
        qed
      qed
      moreover have "Q (Some null_result) u" by (rule assms(4) [OF fx ar]) (simp add: block_out_def)
      ultimately show "wp (if rr_status i = KNull then ret (Some null_result) else ?rest) Q E u" by (simp add: wp_ret)
    qed
  qed
qed

end

end
