(* ===== verification/Resampler_Props.thy ===== *)
theory Resampler_Props
  imports Resampler_Blocks
begin

text \<open>The properties of the resampler of \<open>Audio_Resampler\<close>, over every sequence of its calls.\<close>

section \<open>Calls\<close>

inductive resampler_call :: "av_lib \<Rightarrow> 'w swr_lib \<Rightarrow> 'g graph_lib \<Rightarrow> ('w, 'g) resampler \<Rightarrow> ('w, 'g) resampler \<Rightarrow> bool"
  for L :: av_lib and W :: "'w swr_lib" and G :: "'g graph_lib" where
  push: "resampler_call L W G s (snd (TryPushFrame_ar L i s))"
| read: "TryReadFrame_ar L W G s = Some (r, t) \<Longrightarrow> resampler_call L W G s t"
| stop: "resampler_call L W G s (Stop_ar s)"
| reset: "resampler_call L W G s (Reset_ar s)"

definition resampler_runs :: "av_lib \<Rightarrow> 'w swr_lib \<Rightarrow> 'g graph_lib \<Rightarrow> resampler_config \<Rightarrow> ('w, 'g) resampler \<Rightarrow> bool" where
  "resampler_runs L W G c t \<longleftrightarrow> (\<exists>s. AudioResampler L c = Inr s \<and> (resampler_call L W G)\<^sup>*\<^sup>* s t)"

section \<open>What no computation changes\<close>

definition keeps_field :: "('s \<Rightarrow> 'b) \<Rightarrow> ('s, 'a) act \<Rightarrow> bool" where
  "keeps_field f m \<longleftrightarrow> (\<forall>s. f (snd (m s)) = f s)"

lemma keeps_bind: "keeps_field f m \<Longrightarrow> (\<And>a. keeps_field f (k a)) \<Longrightarrow> keeps_field f (andthen m k)"
  by (auto simp: keeps_field_def andthen_def split: prod.split sum.split) (metis snd_conv)+

lemma keeps_basic [simp]:
  "keeps_field f (ret a)" "keeps_field f (raise e)" "keeps_field f (lift r)" "keeps_field f (gets h)" "keeps_field f (guard b e)"
  "keeps_field f (modify g) \<longleftrightarrow> (\<forall>s. f (g s) = f s)"
  by (simp_all add: keeps_field_def act_defs)

lemma keeps_if: "(b \<Longrightarrow> keeps_field f m) \<Longrightarrow> (\<not> b \<Longrightarrow> keeps_field f n) \<Longrightarrow> keeps_field f (if b then m else n)"
  by simp

lemma keeps_option: "(x = None \<Longrightarrow> keeps_field f m) \<Longrightarrow> (\<And>a. x = Some a \<Longrightarrow> keeps_field f (n a)) \<Longrightarrow>
    keeps_field f (case x of None \<Rightarrow> m | Some a \<Rightarrow> n a)"
  by (simp split: option.split)

lemma keeps_pair: "(\<And>a b. x = (a, b) \<Longrightarrow> keeps_field f (m a b)) \<Longrightarrow> keeps_field f (case x of (a, b) \<Rightarrow> m a b)"
  by (simp split: prod.split)

lemma keeps_let: "keeps_field f (m x) \<Longrightarrow> keeps_field f (let y = x in m y)"
  by simp

lemmas keeps_rules = keeps_bind keeps_if keeps_option keeps_pair keeps_let

definition settings :: "('w, 'g) resampler \<Rightarrow> int \<times> int \<times> bool \<times> exn option" where
  "settings s = (ar_rate s, ar_block s, ar_stopped s, ar_failure s)"

lemma note_settings [simp]:
  "settings (note_op p s) = settings s" "settings (note_segment f s) = settings s" "settings (pop_ar i r s) = settings s"
  "settings (ClearConverter s) = settings s"
  by (simp_all add: settings_def note_op_def note_segment_def pop_ar_def ClearConverter_def)

lemma keeps_convert: "keeps_field settings (read_converted L W is)"
proof (induction "is")
  case (Cons i rest)
  have o: "keeps_field settings (Output_ar f n p)" for f n p
    unfolding Output_ar_def by (intro keeps_rules) (simp_all add: settings_def)
  have r: "keeps_field settings (run_swr W n x)" for n x
    unfolding run_swr_def by (intro keeps_rules) (simp_all add: settings_def)
  have d: "keeps_field settings (Drain_ar L W)"
    unfolding Drain_ar_def by (intro keeps_rules o r) simp_all
  have c: "keeps_field settings (Convert_ar L W i)"
    unfolding Convert_ar_def by (intro keeps_rules o r) (simp_all add: settings_def note_op_def)
  have t: "keeps_field settings (retire L W i)"
    unfolding retire_def by (intro keeps_rules d) simp_all
  have n: "keeps_field settings (Initialize_ar W i)"
    unfolding Initialize_ar_def by (intro keeps_rules) (simp_all add: settings_def note_op_def)
  have e: "keeps_field settings (forward_eof L i rest)"
    unfolding forward_eof_def by (intro keeps_rules) simp_all
  show ?case unfolding read_converted.simps by (intro keeps_rules t n c e Cons.IH) simp_all
qed simp

lemma keeps_round: "keeps_field settings (fixed_round L W G)"
proof -
  have r: "keeps_field settings (receive_block L G)"
    unfolding receive_block_def by (intro keeps_rules) (simp_all add: settings_def note_segment_def)
  have n: "keeps_field settings (next_input L W)"
    unfolding next_input_def ReadConverted_def by (intro keeps_rules keeps_convert) (simp_all add: settings_def)
  have s: "keeps_field settings (submit_block L G i)" for i
    unfolding submit_block_def by (intro keeps_rules) (simp_all add: settings_def note_segment_def)
  show ?thesis
    unfolding fixed_round_def by (intro keeps_rules r n s) (simp_all add: settings_def)
qed

section \<open>A read returns\<close>

lemma settings_round: "settings (snd (fixed_round L W G s)) = settings s"
  using keeps_round [of L W G] by (simp add: keeps_field_def)

lemma settings_convert:
  fixes s :: "('w, 'g) resampler"
  shows "settings (snd (ReadConverted L W s)) = settings s"
  using keeps_convert [where 'b = 'g, of L W "ar_inputs s"] by (simp add: keeps_field_def ReadConverted_def andthen_def gets_def)

lemma settings_around: "settings t = settings s \<longleftrightarrow> ar_rate t = ar_rate s \<and> ar_block t = ar_block s \<and>
    ar_stopped t = ar_stopped s \<and> ar_failure t = ar_failure s"
  by (auto simp: settings_def)

definition working :: "('w, 'g) resampler \<Rightarrow> bool" where
  "working s \<longleftrightarrow> ar_failure s = None \<and> \<not> ar_stopped s"

context blocks
begin

text \<open>The outcome of a read in blocks that starts in \<open>s\<close>.\<close>

definition read_ok :: "('w, 'g) resampler \<Rightarrow> read_result result \<times> ('w, 'g) resampler \<Rightarrow> bool" where
  "read_ok s p \<longleftrightarrow> settings (snd p) = settings s \<and>
     (case fst p of Inl e \<Rightarrow> e \<noteq> Undefined_behaviour | Inr out \<Rightarrow> fixed_inv (snd p) \<and> block_out (snd p) out)"

lemma fixed_wf: "wf fixed_work"
  by (simp add: fixed_work_def)

lemma ReadFixed_returns:
  assumes "fixed_inv s" "0 < blk"
  shows "\<exists>p. ReadFixed L W G s = Some p \<and> read_ok s p"
  using assms(1)
proof (induction s rule: wf_induct_rule [OF fixed_wf])
  case (1 s)
  obtain r t where r: "fixed_round L W G s = (r, t)" by fastforce
  from settings_round [of L W G s] r have set: "settings t = settings s" by simp
  have w: "wp (fixed_round L W G)
      (\<lambda>o' t. fixed_inv t \<and> (case o' of None \<Rightarrow> (t, s) \<in> fixed_work | Some out \<Rightarrow> block_out t out))
      (\<lambda>e _. e \<noteq> Undefined_behaviour) s"
    by (rule round_wp [OF _ 1(2) assms(2)]) (simp_all add: harmless_def)
  consider e where "r = Inl e" | out where "r = Inr (Some out)" | "r = Inr None"
    by (metis obj_sumE option.exhaust)
  then show ?case
  proof cases
    case 1
    with wp_InlD [OF w] r set show ?thesis by (subst ReadFixed.simps) (simp add: read_ok_def)
  next
    case 2
    with wp_InrD [OF w] r set show ?thesis by (subst ReadFixed.simps) (simp add: read_ok_def)
  next
    case 3
    with wp_InrD [OF w] r have "fixed_inv t" "(t, s) \<in> fixed_work" by auto
    with 1(1) obtain p where "ReadFixed L W G t = Some p" "read_ok t p" by blast
    with 3 r set show ?thesis by (subst ReadFixed.simps) (simp add: read_ok_def)
  qed
qed

lemma ReadConverted_ok:
  fixes s :: "('w, 'g) resampler"
  assumes "conv_inv L s" "ReadConverted L W s = (r, t)"
  shows "settings t = settings s \<and> (case r of Inl e \<Rightarrow> e \<noteq> Undefined_behaviour | Inr out \<Rightarrow> conv_inv L t)"
proof -
  have "wp (read_converted L W (ar_inputs s)) (\<lambda>_. conv_inv L) (\<lambda>e _. e \<noteq> Undefined_behaviour) s"
    by (rule read_converted_inv [OF time _ assms(1) refl]) (simp_all add: harmless_def)
  moreover have "read_converted L W (ar_inputs s) s = (r, t)"
    using assms(2) by (simp add: ReadConverted_def andthen_def gets_def)
  ultimately show ?thesis
    using settings_convert [of L W s] assms(2) by (auto simp: wp_def split: sum.split)
qed

section \<open>The invariant of the calls\<close>

definition ar_inv :: "int \<Rightarrow> ('w, 'g) resampler \<Rightarrow> bool" where
  "ar_inv n s \<longleftrightarrow> 0 < ar_rate s \<and> ar_failure s \<noteq> Some Undefined_behaviour \<and> ar_block s = n \<and> (n = 0 \<or> n = blk) \<and>
     (working s \<longrightarrow> conv_inv L s \<and> (0 < ar_block s \<longrightarrow> fixed_inv s))"

lemma ar_inv_works: "ar_inv blk s \<Longrightarrow> working s \<Longrightarrow> 0 < blk \<Longrightarrow> block_inv view s \<and> ar_block s = blk"
  unfolding ar_inv_def fixed_inv_def by metis

lemma ar_inv_conv: "ar_inv n s \<Longrightarrow> working s \<Longrightarrow> conv_inv L s"
  unfolding ar_inv_def by blast

lemma run_fresh:
  assumes "0 < ar_rate s" "n = 0 \<or> n = blk" "ar_block s = n" "ar_failure s = None" "ar_adapter s = None" "ar_pending s = None"
    "ar_block_next s = None" "\<not> ar_ending s" "ar_context s = None" "ar_last s = None" "ar_next s = None" "ar_inputs s = []"
    "ah_taken s = []" "ah_pushed s = []" "ah_ops s = []" "ah_segments s = []"
  shows "ar_inv n s"
  using assms by (auto simp: ar_inv_def conv_inv_def fixed_inv_def block_inv_def drained_ops_def)

lemma run_new: "AudioResampler L c = Inr s \<Longrightarrow> ac_block c = n \<Longrightarrow> n = 0 \<or> n = blk \<Longrightarrow> ar_inv n s"
  by (rule run_fresh) (auto simp: AudioResampler_def split: if_splits)

lemma run_push: "ar_inv n s \<Longrightarrow> ar_inv n (snd (TryPushFrame_ar L i s))"
  by (auto simp: TryPushFrame_ar_def ar_inv_def conv_inv_def fixed_inv_def block_inv_def working_def given_def
      time_base_ar_def sounds_def split: sum.split)

text \<open>A read returns and fails only with an error the code throws.\<close>

lemma run_read:
  assumes "ar_inv n s" "0 < blk"
  shows "\<exists>r t. TryReadFrame_ar L W G s = Some (r, t) \<and> ar_inv n t \<and> r \<noteq> Inl Undefined_behaviour \<and>
    (case r of Inr out \<Rightarrow> ar_failure t = None \<and> (0 < ar_block t \<longrightarrow> working t \<longrightarrow> block_out t out) | Inl e \<Rightarrow> True)"
proof (cases "working s")
  case False
  with assms(1) show ?thesis by (auto simp: TryReadFrame_ar_def working_def ar_inv_def split: option.split)
next
  case True
  then have a: "ar_failure s = None" "\<not> ar_stopped s" by (simp_all add: working_def)
  have "\<exists>r t. read_body L W G s = Some (r, t) \<and> settings t = settings s \<and>
      (case r of Inl e \<Rightarrow> e \<noteq> Undefined_behaviour
       | Inr out \<Rightarrow> conv_inv L t \<and> (0 < ar_block s \<longrightarrow> fixed_inv t \<and> block_out t out))"
  proof (cases "0 < ar_block s")
    case True
    with assms(1) \<open>working s\<close> have "fixed_inv s" by (simp add: ar_inv_def)
    then obtain p where "ReadFixed L W G s = Some p" "read_ok s p" using ReadFixed_returns [OF _ assms(2)] by blast
    with True show ?thesis
      by (cases p) (auto simp: read_body_def read_ok_def fixed_inv_def split: sum.splits)
  next
    case False
    obtain r t where r: "ReadConverted L W s = (r, t)" by fastforce
    from assms(1) \<open>working s\<close> have "conv_inv L s" by (simp add: ar_inv_def)
    from ReadConverted_ok [OF this r] False r show ?thesis by (cases r) (simp_all add: read_body_def)
  qed
  then obtain r t where t: "read_body L W G s = Some (r, t)" "settings t = settings s"
      "case r of Inl e \<Rightarrow> e \<noteq> Undefined_behaviour
       | Inr out \<Rightarrow> conv_inv L t \<and> (0 < ar_block s \<longrightarrow> fixed_inv t \<and> block_out t out)" by blast
  from t(2) have s: "ar_rate t = ar_rate s" "ar_block t = ar_block s" "ar_stopped t = ar_stopped s" "ar_failure t = ar_failure s"
    by (simp_all add: settings_around)
  show ?thesis
  proof (cases r)
    case (Inl e)
    with assms(1) a s t(1,3) show ?thesis by (simp add: TryReadFrame_ar_def ar_inv_def working_def)
  next
    case (Inr out)
    with assms(1) a s t(1,3) show ?thesis by (simp add: TryReadFrame_ar_def ar_inv_def)
  qed
qed

lemma run_stop: "ar_inv n s \<Longrightarrow> ar_inv n (Stop_ar s)"
  by (simp add: Stop_ar_def ar_inv_def working_def ClearBlocks_def ClearConverter_def)

lemma run_reset: "ar_inv n s \<Longrightarrow> ar_inv n (Reset_ar s)"
  by (rule run_fresh) (simp_all add: ar_inv_def Reset_ar_def ClearBlocks_def ClearConverter_def)

lemma run_calls:
  assumes "(resampler_call L W G)\<^sup>*\<^sup>* s t" "ar_inv n s" "0 < blk"
  shows "ar_inv n t"
  using assms(1,2)
proof (induction rule: rtranclp_induct)
  case (step t u)
  then have "ar_inv n t" by simp
  with step(2) show ?case
  proof cases
    case (read r)
    with run_read [OF \<open>ar_inv n t\<close> assms(3)] show ?thesis by auto
  qed (simp_all add: run_push run_stop run_reset)
qed simp

lemma runs_inv:
  assumes "resampler_runs L W G c t" "ac_block c = n" "n = 0 \<or> n = blk" "0 < blk"
  shows "ar_inv n t"
  using assms run_new run_calls by (auto simp: resampler_runs_def)

end

lemma block_inv_segments:
  assumes "block_inv view s" "0 < ar_block s"
  shows "\<forall>x \<in> set (ah_segments s). lined (ar_block s) x \<and> ar_block s * int (length (sg_blocks x)) < sg_samples x + ar_block s"
    "\<forall>x \<in> set (if ar_adapter s = None then ah_segments s else tl (ah_segments s)). finished (ar_block s) x"
  using assms
  by (cases "ar_adapter s"; cases "ah_segments s"; auto simp: block_inv_def finished_def covered_def remains_def Let_def)+

section \<open>A reference converter\<close>

text \<open>A computable converter that holds one sample back, and gives it when it is drained.\<close>

definition ref_swr :: "nat swr_lib" where
  "ref_swr = \<lparr>
     rescale_up = (\<lambda>_ _ _. 0),
     swr_new = (\<lambda>_ _ _ _ _ _. Inr 0),
     swr_next = (\<lambda>p w. (if i64 p then p else 0, w)),
     swr_room = (\<lambda>n w. n + int w),
     swr_run = (\<lambda>_ f w. case f of None \<Rightarrow> (int w, 0) | Some f \<Rightarrow> (fr_nb_samples f + int w - 1, 1))\<rparr>"

interpretation ref_converter: resampling ref_swr id
  by unfold_locales (auto simp: ref_swr_def)

interpretation ref_fifo: block_fifo "ref_graph rate 4" 4 id
  by (rule ref_graph_fifo) simp

interpretation ref_blocks: blocks ref_swr id "ref_graph rate 4" 4 id ref_lib
  by unfold_locales

text \<open>A track of two frames of three samples at 8 Hz and its end, cut into blocks of four.\<close>

definition wit_config :: resampler_config where
  "wit_config = \<lparr>ac_rate = 8, ac_format = 1, ac_layout = 1, ac_capacity = 8, ac_block = 4\<rparr>"

definition wit_frame :: "int \<Rightarrow> read_result" where
  "wit_frame p = \<lparr>rr_status = KFrame, rr_frame = Has_frame \<lparr>fr_pts = p, fr_best_effort = p, fr_pkt_dts = p, fr_time_base = avq 1 8,
     fr_duration = 3, fr_width = 0, fr_height = 0, fr_format = 1, fr_nb_samples = 3, fr_sample_rate = 8, fr_layout = 1,
     fr_has_data = True, fr_captions = False, fr_full_range = False, fr_buffers = 1\<rparr>,
     rr_stream = 0, rr_time_base = avq 1 8, rr_end_pts = AV_NOPTS_VALUE\<rparr>"

definition wit_start :: "(nat, fifo_view) resampler" where
  "wit_start = (case AudioResampler ref_lib wit_config of Inr s \<Rightarrow> s)"

definition wit_loaded :: "(nat, fifo_view) resampler" where
  "wit_loaded = snd (TryPushFrame_ar ref_lib (null_result\<lparr>rr_status := KEof\<rparr>)
     (snd (TryPushFrame_ar ref_lib (wit_frame 3) (snd (TryPushFrame_ar ref_lib (wit_frame 0) wit_start)))))"

definition wit_read :: "(nat, fifo_view) resampler \<Rightarrow> read_result result \<times> (nat, fifo_view) resampler" where
  "wit_read s = the (TryReadFrame_ar ref_lib ref_swr (ref_graph 8 4) s)"

definition wit_done :: "(nat, fifo_view) resampler" where
  "wit_done = snd (wit_read (snd (wit_read wit_loaded)))"

lemma wit_returns:
  "TryReadFrame_ar ref_lib ref_swr (ref_graph 8 4) wit_loaded = Some (wit_read wit_loaded)"
  "TryReadFrame_ar ref_lib ref_swr (ref_graph 8 4) (snd (wit_read wit_loaded)) = Some (wit_read (snd (wit_read wit_loaded)))"
  by code_simp+

lemma runs_push: "resampler_runs L W G c s \<Longrightarrow> resampler_runs L W G c (snd (TryPushFrame_ar L i s))"
  by (auto simp: resampler_runs_def intro: rtranclp.rtrancl_into_rtrancl push)

lemma runs_read: "resampler_runs L W G c s \<Longrightarrow> TryReadFrame_ar L W G s = Some p \<Longrightarrow> resampler_runs L W G c (snd p)"
  by (cases p) (auto simp: resampler_runs_def intro: rtranclp.rtrancl_into_rtrancl read)

lemma wit_second: "\<exists>out. wit_read (snd (wit_read wit_loaded)) = (Inr out, wit_done)"
proof -
  have "case fst (wit_read (snd (wit_read wit_loaded))) of Inl e \<Rightarrow> False | Inr out \<Rightarrow> True" by code_simp
  then show ?thesis
    unfolding wit_done_def by (cases "wit_read (snd (wit_read wit_loaded))") (auto split: sum.splits)
qed

lemma wit_loaded_runs: "resampler_runs ref_lib ref_swr (ref_graph 8 4) wit_config wit_loaded"
proof -
  have "AudioResampler ref_lib wit_config = Inr wit_start" by code_simp
  then have "resampler_runs ref_lib ref_swr (ref_graph 8 4) wit_config wit_start" by (auto simp: resampler_runs_def)
  then show ?thesis unfolding wit_loaded_def by (intro runs_push)
qed

lemma wit_done_runs: "resampler_runs ref_lib ref_swr (ref_graph 8 4) wit_config wit_done"
  unfolding wit_done_def by (intro runs_read [OF runs_read [OF wit_loaded_runs wit_returns(1)] wit_returns(2)])

section \<open>Properties\<close>

text \<open>
  C30: After any calls on a resampler, a read returns, although it loops over its input, the converter and the block
  adapter until there is something to give; and it never dereferences nothing: not the converter, its last input or
  next timestamp, nor the adapter or the next block timestamp.
\<close>

theorem resampler_returns:
  assumes "blocks W held G blk view L" "0 < blk" "ac_block c = 0 \<or> ac_block c = blk" "resampler_runs L W G c s"
  shows "\<exists>r t. TryReadFrame_ar L W G s = Some (r, t) \<and> r \<noteq> Inl Undefined_behaviour"
  using blocks.run_read [OF assms(1) blocks.runs_inv [OF assms(1,4) refl assms(3,2)] assms(2)] by blast

theorem resampler_returns_witness:
  "\<exists>r t. TryReadFrame_ar ref_lib ref_swr (ref_graph 8 4) wit_done = Some (r, t) \<and> r \<noteq> Inl Undefined_behaviour"
  by (rule resampler_returns [OF ref_blocks.blocks_axioms _ _ wit_done_runs]) (simp_all add: wit_config_def)

text \<open>
  C29: In blocks of a fixed size, whatever a read returns as a frame is the newest block of the current segment; all blocks
  of a segment have exactly that size and follow one another on the sample clock from its first timestamp, never more
  of them than its samples need; and every segment that has been left, the last one included once there is no adapter,
  has been closed with just as many blocks as its samples need, the last one padded.
\<close>

theorem resampler_blocks:
  assumes "blocks W held G blk view L" "0 < blk" "ac_block c = blk" "resampler_runs L W G c s"
    and "TryReadFrame_ar L W G s = Some (Inr out, t)" "\<not> ar_stopped t"
  shows "(rr_status out = KFrame \<longrightarrow> has_frame (rr_frame out) \<and>
      (\<exists>x xs. ah_segments t = x # xs \<and> sg_blocks x \<noteq> [] \<and> in_frame out = last (sg_blocks x))) \<and>
    (\<forall>x \<in> set (ah_segments t). lined blk x \<and> blk * int (length (sg_blocks x)) < sg_samples x + blk) \<and>
    (\<forall>x \<in> set (if ar_adapter t = None then ah_segments t else tl (ah_segments t)). finished blk x)"
proof -
  have "blocks.ar_inv blk view L blk s" using blocks.runs_inv [OF assms(1,4,3) disjI2 assms(2)] by simp
  from blocks.run_read [OF assms(1) this assms(2)]
  obtain r' t' where r: "TryReadFrame_ar L W G s = Some (r', t')"
    "blocks.ar_inv blk view L blk t'" "case r' of Inr out \<Rightarrow> ar_failure t' = None \<and>
      (0 < ar_block t' \<longrightarrow> working t' \<longrightarrow> block_out t' out) | Inl e \<Rightarrow> True" by blast
  with assms(5) have t: "blocks.ar_inv blk view L blk t" "ar_failure t = None" "0 < ar_block t \<longrightarrow> working t \<longrightarrow> block_out t out"
    by simp_all
  from t(2) assms(6) have "working t" by (simp add: working_def)
  from blocks.ar_inv_works [OF assms(1) t(1) this assms(2)] have b: "block_inv view t" "ar_block t = blk" by simp_all
  with t(3) \<open>working t\<close> assms(2) have "block_out t out" by simp
  with block_inv_segments [OF b(1)] b(2) assms(2) show ?thesis by (simp add: block_out_def)
qed

theorem resampler_blocks_witness:
  "\<exists>x. ah_segments wit_done = [x] \<and> lined 4 x \<and> sg_blocks x \<noteq> [] \<and> 4 * int (length (sg_blocks x)) < sg_samples x + 4"
proof -
  obtain out where o: "wit_read (snd (wit_read wit_loaded)) = (Inr out, wit_done)"
    using wit_second by blast
  have s: "\<not> ar_stopped wit_done" "length (ah_segments wit_done) = 1" "sg_blocks (hd (ah_segments wit_done)) \<noteq> []" by code_simp+
  then obtain x where x: "ah_segments wit_done = [x]" by (auto simp: length_Suc_conv)
  note resampler_blocks [OF ref_blocks.blocks_axioms _ _ runs_read [OF wit_loaded_runs wit_returns(1)]
    wit_returns(2) [unfolded o] s(1)]
  with x s(3) show ?thesis by (simp add: wit_config_def)
qed

text \<open>
  C31: As long as it has neither failed nor been stopped, a resampler drives its converter as the queue prescribes: the
  inputs taken so far and those still queued are the ones pushed since the last reset, in order; the converter is
  opened, fed and given up, and ends of file are forwarded, as \<open>script\<close> says for the inputs taken; and it is given up
  only right after a drain that gave nothing.
\<close>

theorem resampler_script:
  assumes "blocks W held G blk view L" "0 < blk" "ac_block c = 0 \<or> ac_block c = blk" "resampler_runs L W G c s"
    and "\<not> ar_stopped s" "ar_failure s = None"
  shows "ah_pushed s = ah_taken s @ ar_inputs s \<and> filter (\<lambda>p. \<not> is_drain p) (ah_ops s) = script L None (ah_taken s) \<and>
    drained_ops (ah_ops s)"
proof -
  have "blocks.ar_inv blk view L (ac_block c) s" by (rule blocks.runs_inv [OF assms(1,4) refl assms(3,2)])
  then have "conv_inv L s" by (rule blocks.ar_inv_conv [OF assms(1)]) (use assms(5,6) in \<open>simp add: working_def\<close>)
  then show ?thesis by (simp add: conv_inv_def steering_def)
qed

theorem resampler_script_witness:
  "ah_taken wit_done \<noteq> [] \<and> ah_pushed wit_done = ah_taken wit_done @ ar_inputs wit_done \<and>
   filter (\<lambda>p. \<not> is_drain p) (ah_ops wit_done) = script ref_lib None (ah_taken wit_done) \<and> drained_ops (ah_ops wit_done)"
proof -
  have "\<not> ar_stopped wit_done" "ar_failure wit_done = None" "ah_taken wit_done \<noteq> []" by code_simp+
  moreover from resampler_script [OF ref_blocks.blocks_axioms _ _ wit_done_runs this(1,2)]
  have "ah_pushed wit_done = ah_taken wit_done @ ar_inputs wit_done \<and>
    filter (\<lambda>p. \<not> is_drain p) (ah_ops wit_done) = script ref_lib None (ah_taken wit_done) \<and> drained_ops (ah_ops wit_done)"
    by (simp add: wit_config_def)
  ultimately show ?thesis by blast
qed

end
